(* ===== verification/Prelude.thy ===== *)
theory Prelude
  imports Main "HOL-Library.Word" "HOL-Library.Monad_Syntax"
begin

text \<open>
  What every component shares: the names of the machine types, addresses with the null pointer, reads
  and writes of byte blocks that fail outside the block, the little-endian layout of a word in memory
  with its round trip, and the facts on words that the bounds of the buffers need.
\<close>

unbundle bit_operations_syntax

text \<open>The definitions to unfold when an operation runs on a concrete state: those of the lists and those of
  mutexes and conditions.\<close>

named_theorems list_ops "operations on linked lists"
named_theorems sync_ops "operations on mutexes and conditions"

type_synonym addr = nat
abbreviation NULL :: addr where
  "NULL \<equiv> 0"

type_synonym byte = "8 word"
type_synonym u8 = "8 word"
type_synonym u16 = "16 word"
type_synonym u32 = "32 word"
type_synonym u64 = "64 word"

definition mem_read :: "nat \<Rightarrow> nat \<Rightarrow> byte list \<Rightarrow> byte list option" where
  "mem_read pos n m = (if pos + n \<le> length m then Some (take n (drop pos m)) else None)"

definition mem_write :: "nat \<Rightarrow> byte list \<Rightarrow> byte list \<Rightarrow> byte list option" where
  "mem_write pos d m =
     (if pos + length d \<le> length m then Some (take pos m @ d @ drop (pos + length d) m) else None)"

definition le_bytes :: "'a::len word \<Rightarrow> byte list" where
  "le_bytes w = map (\<lambda>i. ucast (drop_bit (8 * i) w)) [0..<LENGTH('a) div 8]"

primrec le_word :: "byte list \<Rightarrow> 'a::len word" where
  "le_word [] = 0"
| "le_word (b # bs) = ucast b OR push_bit 8 (le_word bs)"

lemma bit_le_word:
  "bit (le_word bs :: 'a::len word) i \<longleftrightarrow>
     i < LENGTH('a) \<and> i div 8 < length bs \<and> bit (bs ! (i div 8)) (i mod 8)"
proof (induction bs arbitrary: i)
  case Nil
  then show ?case by simp
next
  case (Cons b bs)
  show ?case
  proof (cases "i < 8")
    case True
    then show ?thesis
      by (auto simp: bit_simps dest: bit_imp_le_length)
  next
    case False
    then have "i div 8 = Suc ((i - 8) div 8)" and "i mod 8 = (i - 8) mod 8"
      by (simp_all add: le_div_geq le_mod_geq)
    moreover have "\<not> bit b i"
      using False by (auto dest: bit_imp_le_length)
    ultimately show ?thesis
      using False Cons.IH [of "i - 8"] by (auto simp: bit_simps)
  qed
qed

lemma length_le_bytes: "length (le_bytes (w :: 'a::len word)) = LENGTH('a) div 8"
  by (simp add: le_bytes_def)

lemma le_word_le_bytes:
  assumes "8 dvd LENGTH('a)"
  shows "le_word (le_bytes (w :: 'a::len word)) = w"
proof (rule bit_word_eqI)
  fix i assume i: "i < LENGTH('a)"
  with assms have "i div 8 < LENGTH('a) div 8"
    by (metis dvd_div_mult_self less_mult_imp_div_less)
  with i show "bit (le_word (le_bytes w) :: 'a word) i = bit w i"
    by (simp add: bit_le_word le_bytes_def bit_simps)
qed

lemma unat_2_power: "n < LENGTH('a) \<Longrightarrow> unat (2 ^ n :: 'a::len word) = 2 ^ n"
proof -
  assume n: "n < LENGTH('a)"
  have "unat (of_nat (2 ^ n) :: 'a word) = 2 ^ n mod 2 ^ LENGTH('a)"
    by (rule unat_of_nat)
  with n show ?thesis by simp
qed


lemma unat_add_le:
  fixes a b c :: "'a::len word"
  assumes "unat a + unat b \<le> unat c"
  shows "unat (a + b) = unat a + unat b"
proof -
  have "unat c < 2 ^ LENGTH('a)" by (rule unsigned_less)
  with assms have "unat a + unat b < 2 ^ LENGTH('a)" by linarith
  then show ?thesis by (simp add: unat_word_ariths)
qed

text \<open>An int32_t that overflows wraps around.\<close>

definition wrap32 :: "int \<Rightarrow> int" where
  "wrap32 i = signed_take_bit 31 i"

lemma wrap32_id: "- (2 ^ 31) \<le> i \<Longrightarrow> i < 2 ^ 31 \<Longrightarrow> wrap32 i = i"
  by (simp add: wrap32_def signed_take_bit_int_eq_self)

lemma wrap32_range: "- (2 ^ 31) \<le> wrap32 i" "wrap32 i < 2 ^ 31"
  unfolding wrap32_def
  by (rule signed_take_bit_int_greater_eq_minus_exp signed_take_bit_int_less_exp)+

lemma wrap32_wrap32_diff: "wrap32 (wrap32 i - j) = wrap32 (i - j)"
proof -
  have "wrap32 (wrap32 i - j) = wrap32 (wrap32 (wrap32 i) - wrap32 j)"
    unfolding wrap32_def by (rule signed_take_bit_diff [symmetric])
  also have "wrap32 (wrap32 i) = wrap32 i" by (simp add: wrap32_def)
  also have "wrap32 (wrap32 i - wrap32 j) = wrap32 (i - j)"
    unfolding wrap32_def by (rule signed_take_bit_diff)
  finally show ?thesis .
qed

end
