(* ===== verification/Node_Queue.thy ===== *)
theory Node_Queue
  imports Prelude
begin

text \<open>
  The interface the program's two intrusive lists share: nodes live in a heap that maps addresses
  to their link fields, a queue header stands for a list of node addresses, push appends a free
  node and pop takes the first one off and frees its links.  The single linked list
  (include/link_list.h) and the double linked list (include/double_link.h) both provide it; the
  message queue and the block allocator are its clients.
\<close>

primrec push_all ::
    "('h \<Rightarrow> 'q \<Rightarrow> addr \<Rightarrow> ('h \<times> 'q) option) \<Rightarrow> 'h \<Rightarrow> 'q \<Rightarrow> addr list \<Rightarrow> ('h \<times> 'q) option" where
  "push_all push h q [] = Some (h, q)"
| "push_all push h q (n # ns) = do { (h, q) \<leftarrow> push h q n; push_all push h q ns }"

primrec pop_times ::
    "('h \<Rightarrow> 'q \<Rightarrow> (addr \<times> 'h \<times> 'q) option) \<Rightarrow> nat \<Rightarrow> 'h \<Rightarrow> 'q \<Rightarrow> (addr list \<times> 'h \<times> 'q) option" where
  "pop_times pop 0 h q = Some ([], h, q)"
| "pop_times pop (Suc k) h q = do {
     (n, h, q) \<leftarrow> pop h q;
     (ns, h, q) \<leftarrow> pop_times pop k h q;
     Some (n # ns, h, q)
   }"

locale node_queue =
  fixes repr :: "(addr \<rightharpoonup> 'v) \<Rightarrow> 'q \<Rightarrow> addr list \<Rightarrow> bool"
    and foot :: "'q \<Rightarrow> addr set"
    and free :: "(addr \<rightharpoonup> 'v) \<Rightarrow> addr \<Rightarrow> bool"
    and room :: "nat \<Rightarrow> bool"
    and push :: "(addr \<rightharpoonup> 'v) \<Rightarrow> 'q \<Rightarrow> addr \<Rightarrow> ((addr \<rightharpoonup> 'v) \<times> 'q) option"
    and pop :: "(addr \<rightharpoonup> 'v) \<Rightarrow> 'q \<Rightarrow> (addr \<times> (addr \<rightharpoonup> 'v) \<times> 'q) option"
  assumes repr_cong: "\<And>h h' q xs. repr h q xs \<Longrightarrow> (\<And>a. a \<in> set xs \<union> foot q \<Longrightarrow> h' a = h a) \<Longrightarrow> repr h' q xs"
    and repr_distinct: "\<And>h q xs. repr h q xs \<Longrightarrow> distinct xs \<and> NULL \<notin> set xs \<and> set xs \<inter> foot q = {}"
    and free_cong: "\<And>h h' n. h' n = h n \<Longrightarrow> free h' n = free h n"
    and free_not_NULL: "\<And>h n. free h n \<Longrightarrow> n \<noteq> NULL"
    and room_less: "\<And>j k. room k \<Longrightarrow> j \<le> k \<Longrightarrow> room j"
    and push_ex: "\<And>h q xs n. repr h q xs \<Longrightarrow> free h n \<Longrightarrow> n \<notin> set xs \<Longrightarrow> n \<notin> foot q \<Longrightarrow>
        room (Suc (length xs)) \<Longrightarrow>
        \<exists>h' q'. push h q n = Some (h', q') \<and> repr h' q' (xs @ [n]) \<and> foot q' = foot q \<and>
          (\<forall>m. m \<notin> insert n (set xs) \<union> foot q \<longrightarrow> h' m = h m)"
    and pop_nil: "\<And>h q. repr h q [] \<Longrightarrow> pop h q = Some (NULL, h, q)"
    and pop_ex: "\<And>h q x xs. repr h q (x # xs) \<Longrightarrow>
        \<exists>h' q'. pop h q = Some (x, h', q') \<and> repr h' q' xs \<and> free h' x \<and> foot q' = foot q \<and>
          (\<forall>m. m \<notin> set (x # xs) \<union> foot q \<longrightarrow> h' m = h m)"
begin

lemma push_all_ex:
  assumes "repr h q xs" and "\<forall>n\<in>set ns. free h n" and "distinct ns"
    and "set ns \<inter> (set xs \<union> foot q) = {}" and "room (length xs + length ns)"
  shows "\<exists>h' q'. push_all push h q ns = Some (h', q') \<and> repr h' q' (xs @ ns) \<and> foot q' = foot q \<and>
    (\<forall>m. m \<notin> set ns \<union> set xs \<union> foot q \<longrightarrow> h' m = h m)"
  using assms
proof (induction ns arbitrary: h q xs)
  case Nil
  then show ?case by auto
next
  case (Cons n ns)
  have "room (Suc (length xs))" using Cons.prems(5) by (rule room_less) simp
  then obtain h1 q1 where 1: "push h q n = Some (h1, q1)" "repr h1 q1 (xs @ [n])" "foot q1 = foot q"
    "\<And>m. m \<notin> insert n (set xs) \<union> foot q \<Longrightarrow> h1 m = h m"
    using push_ex [OF Cons.prems(1), of n] Cons.prems by auto
  have fr: "free h1 m" if "m \<in> set ns" for m
  proof -
    have "m \<notin> insert n (set xs) \<union> foot q" using Cons.prems(3,4) that by auto
    then show ?thesis using 1(4) [of m] Cons.prems(2) that by (subst free_cong [of h1 m h]) auto
  qed
  have "\<exists>h' q'. push_all push h1 q1 ns = Some (h', q') \<and> repr h' q' ((xs @ [n]) @ ns) \<and> foot q' = foot q1 \<and>
    (\<forall>m. m \<notin> set ns \<union> set (xs @ [n]) \<union> foot q1 \<longrightarrow> h' m = h1 m)"
    using Cons.prems fr by (intro Cons.IH [OF 1(2)]) (auto simp: 1(3))
  then obtain h' q' where 2: "push_all push h1 q1 ns = Some (h', q')" "repr h' q' (xs @ n # ns)"
    "foot q' = foot q" "\<And>m. m \<notin> set ns \<union> set (xs @ [n]) \<union> foot q \<Longrightarrow> h' m = h1 m"
    by (auto simp: 1(3))
  then show ?case using 1 by (intro exI [of _ h'] exI [of _ q']) auto
qed

lemma pop_times_ex:
  assumes "repr h q (xs @ ys)"
  shows "\<exists>h' q'. pop_times pop (length xs) h q = Some (xs, h', q') \<and> repr h' q' ys \<and> foot q' = foot q \<and>
    (\<forall>n\<in>set xs. free h' n) \<and> (\<forall>m. m \<notin> set xs \<union> set ys \<union> foot q \<longrightarrow> h' m = h m)"
  using assms
proof (induction xs arbitrary: h q)
  case Nil
  then show ?case by auto
next
  case (Cons x xs)
  then obtain h1 q1 where 1: "pop h q = Some (x, h1, q1)" "repr h1 q1 (xs @ ys)" "free h1 x" "foot q1 = foot q"
    "\<And>m. m \<notin> set (x # xs @ ys) \<union> foot q \<Longrightarrow> h1 m = h m"
    using pop_ex [of h q x "xs @ ys"] by auto
  from Cons.IH [OF 1(2)] obtain h' q' where
    2: "pop_times pop (length xs) h1 q1 = Some (xs, h', q')" "repr h' q' ys" "foot q' = foot q"
      "\<And>n. n \<in> set xs \<Longrightarrow> free h' n" "\<And>m. m \<notin> set xs \<union> set ys \<union> foot q \<Longrightarrow> h' m = h1 m"
    by (auto simp: 1(4))
  have d: "x \<notin> set xs \<union> set ys \<union> foot q" using repr_distinct [OF Cons.prems] by auto
  then have "free h' x" using 2(5) [OF d] 1(3) by (subst free_cong [of h' x h1]) auto
  then show ?case using 1 2 by (intro exI [of _ h'] exI [of _ q']) auto
qed

text \<open>First in, first out: what was pushed comes back in the order of the pushes.\<close>

lemma push_all_pop_times:
  assumes "repr h q []" and "\<forall>n\<in>set ns. free h n" and "distinct ns"
    and "set ns \<inter> foot q = {}" and "room (length ns)"
  shows "\<exists>h' q' h'' q''. push_all push h q ns = Some (h', q') \<and>
    pop_times pop (length ns) h' q' = Some (ns, h'', q'') \<and> repr h'' q'' [] \<and>
    (\<forall>n\<in>set ns. free h'' n)"
proof -
  obtain h' q' where 1: "push_all push h q ns = Some (h', q')" "repr h' q' ns"
    using push_all_ex [OF assms(1-3)] assms(4,5) by auto
  obtain h'' q'' where "pop_times pop (length ns) h' q' = Some (ns, h'', q'')" "repr h'' q'' []"
    "\<forall>n\<in>set ns. free h'' n"
    using pop_times_ex [of h' q' ns "[]"] 1(2) by auto
  with 1(1) show ?thesis by blast
qed

end

text \<open>
  Several queues over one heap, told apart by an index: their nodes and headers are disjoint, and an
  operation on one of them leaves the others as they are.
\<close>

context node_queue begin

definition family :: "(addr \<rightharpoonup> 'v) \<Rightarrow> 'i set \<Rightarrow> ('i \<Rightarrow> 'q) \<Rightarrow> ('i \<Rightarrow> addr list) \<Rightarrow> bool" where
  "family h I q xs \<longleftrightarrow> (\<forall>i\<in>I. repr h (q i) (xs i)) \<and>
     (\<forall>i\<in>I. \<forall>j\<in>I. i \<noteq> j \<longrightarrow> (set (xs i) \<union> foot (q i)) \<inter> (set (xs j) \<union> foot (q j)) = {})"

lemma family_repr: "family h I q xs \<Longrightarrow> i \<in> I \<Longrightarrow> repr h (q i) (xs i)"
  by (simp add: family_def)

lemma family_disjoint:
  "family h I q xs \<Longrightarrow> i \<in> I \<Longrightarrow> j \<in> I \<Longrightarrow> a \<in> set (xs i) \<union> foot (q i) \<Longrightarrow> a \<in> set (xs j) \<union> foot (q j) \<Longrightarrow> i = j"
  unfolding family_def by blast

text \<open>Changing one queue of a family, with a heap that agrees with the old one on the others.\<close>

lemma family_upd:
  assumes f: "family h I q xs" and i: "i \<in> I" and r: "repr h' q' xs'"
    and fr: "\<And>m. m \<notin> N \<union> set (xs i) \<union> foot (q i) \<Longrightarrow> h' m = h m"
    and N: "\<And>j. j \<in> I \<Longrightarrow> j \<noteq> i \<Longrightarrow> N \<inter> (set (xs j) \<union> foot (q j)) = {}"
    and sub: "set xs' \<subseteq> N \<union> set (xs i)" and ft: "foot q' = foot (q i)"
  shows "family h' I (q(i := q')) (xs(i := xs'))"
proof -
  have d: "(set (xs i) \<union> foot (q i)) \<inter> (set (xs j) \<union> foot (q j)) = {}" if "j \<in> I" "j \<noteq> i" for j
    using f i that unfolding family_def by metis
  have "repr h' (q j) (xs j)" if j: "j \<in> I" "j \<noteq> i" for j
  proof (rule repr_cong [OF family_repr [OF f j(1)]])
    fix a assume "a \<in> set (xs j) \<union> foot (q j)"
    then show "h' a = h a" using d [OF j] N [OF j] by (intro fr) blast
  qed
  moreover have "(set xs' \<union> foot q') \<inter> (set (xs j) \<union> foot (q j)) = {}" if "j \<in> I" "j \<noteq> i" for j
    using d [OF that] N [OF that] sub ft by blast
  ultimately show ?thesis
    using f r unfolding family_def by (auto simp: Int_commute)
qed

lemma family_push:
  assumes f: "family h I q xs" and i: "i \<in> I" and n: "free h n"
    and new: "\<And>j. j \<in> I \<Longrightarrow> n \<notin> set (xs j) \<union> foot (q j)" and rm: "room (Suc (length (xs i)))"
  obtains h' q' where "push h (q i) n = Some (h', q')"
    "family h' I (q(i := q')) (xs(i := xs i @ [n]))" "foot q' = foot (q i)"
    "\<And>m. m \<notin> insert n (set (xs i)) \<union> foot (q i) \<Longrightarrow> h' m = h m"
proof -
  obtain h' q' where 1: "push h (q i) n = Some (h', q')" "repr h' q' (xs i @ [n])" "foot q' = foot (q i)"
    "\<And>m. m \<notin> insert n (set (xs i)) \<union> foot (q i) \<Longrightarrow> h' m = h m"
    using push_ex [OF family_repr [OF f i] n] new [OF i] rm by auto
  have "family h' I (q(i := q')) (xs(i := xs i @ [n]))"
    by (rule family_upd [OF f i 1(2), of "{n}"]) (use 1(3,4) new in auto)
  with 1 that show thesis by blast
qed

lemma family_pop:
  assumes f: "family h I q xs" and i: "i \<in> I" and x: "xs i = x # ys"
  obtains h' q' where "pop h (q i) = Some (x, h', q')" "free h' x" "foot q' = foot (q i)"
    "family h' I (q(i := q')) (xs(i := ys))" "\<And>j. j \<in> I \<Longrightarrow> x \<notin> set ((xs(i := ys)) j) \<union> foot ((q(i := q')) j)"
    "\<And>m. m \<notin> set (xs i) \<union> foot (q i) \<Longrightarrow> h' m = h m"
proof -
  have r: "repr h (q i) (x # ys)" using family_repr [OF f i] x by simp
  obtain h' q' where 1: "pop h (q i) = Some (x, h', q')" "repr h' q' ys" "free h' x" "foot q' = foot (q i)"
    "\<And>m. m \<notin> set (x # ys) \<union> foot (q i) \<Longrightarrow> h' m = h m"
    using pop_ex [OF r] by auto
  have fm: "family h' I (q(i := q')) (xs(i := ys))"
    by (rule family_upd [OF f i 1(2), of "{}"]) (use 1(4,5) x in auto)
  have "x \<notin> set ys \<union> foot (q i)" using repr_distinct [OF r] by auto
  moreover have "x \<notin> set (xs j) \<union> foot (q j)" if "j \<in> I" "j \<noteq> i" for j
    using family_disjoint [OF f i that(1), of x] that(2) x by auto
  ultimately have "x \<notin> set ((xs(i := ys)) j) \<union> foot ((q(i := q')) j)" if "j \<in> I" for j
    using that 1(4) by (cases "j = i") auto
  with 1 fm that [of h' q'] x show thesis by simp
qed

lemma family_add:
  assumes f: "family h I q xs" and "i \<notin> I" and r: "repr h' q' []"
    and "\<And>j. j \<in> I \<Longrightarrow> foot q' \<inter> (set (xs j) \<union> foot (q j)) = {}"
    and "\<And>j m. j \<in> I \<Longrightarrow> m \<in> set (xs j) \<union> foot (q j) \<Longrightarrow> h' m = h m"
  shows "family h' (insert i I) (q(i := q')) (xs(i := []))"
proof -
  have "repr h' (q j) (xs j)" if "j \<in> I" for j
    by (rule repr_cong [OF family_repr [OF f that]]) (use assms(5) that in blast)
  moreover have "(set (xs j) \<union> foot (q j)) \<inter> (set (xs k) \<union> foot (q k)) = {}" if "j \<in> I" "k \<in> I" "j \<noteq> k" for j k
    using f that unfolding family_def by blast
  ultimately show ?thesis
    using assms(2,4) r unfolding family_def by (auto simp: Int_commute)
qed

lemma family_cong:
  assumes "family h I q xs" and "\<And>i m. i \<in> I \<Longrightarrow> m \<in> set (xs i) \<union> foot (q i) \<Longrightarrow> h' m = h m"
    and "\<And>i. i \<in> I \<Longrightarrow> q' i = q i" and "\<And>i. i \<in> I \<Longrightarrow> xs' i = xs i"
  shows "family h' I q' xs'"
proof -
  have "repr h' (q i) (xs i)" if "i \<in> I" for i
    by (rule repr_cong [OF family_repr [OF assms(1) that]]) (use assms(2) that in blast)
  then show ?thesis using assms(1,3,4) unfolding family_def by simp
qed

end

end
