(* ===== verification/Link_List.thy ===== *)
theory Link_List
  imports Node_Queue
begin

text \<open>
  The intrusive singly linked list of src/epoll_mutilthread/include/link_list.h.  The nodes
  (\<^verbatim>\<open>struct list_node\<close>, one next pointer each) live in a node heap, a partial map from addresses to
  the next pointer: a node outside the domain is memory the program does not own, and reading or
  writing it is the value None, as is the dereference of NULL.  The list header
  (\<^verbatim>\<open>struct link_list\<close>) is a record that every operation takes and returns.
\<close>

section \<open>State\<close>

type_synonym nheap = "addr \<rightharpoonup> addr"

record link_list =
  ll_size :: u32
  ll_head :: addr
  ll_tail :: addr

definition node_set :: "nheap \<Rightarrow> addr \<Rightarrow> addr \<Rightarrow> nheap option" where
  "node_set h a v = (if a = NULL then None else case h a of None \<Rightarrow> None | Some _ \<Rightarrow> Some (h(a \<mapsto> v)))"

definition node_get :: "nheap \<Rightarrow> addr \<Rightarrow> addr option" where
  "node_get h a = (if a = NULL then None else h a)"

section \<open>Operations\<close>

definition create_link_list :: link_list where
  "create_link_list = \<lparr>ll_size = 0, ll_head = NULL, ll_tail = NULL\<rparr>"

definition link_list_head :: "link_list \<Rightarrow> addr" where
  "link_list_head l = ll_head l"

definition link_list_swap ::
    "nheap \<Rightarrow> link_list \<Rightarrow> link_list \<Rightarrow> (nheap \<times> link_list \<times> link_list) option" where
  "link_list_swap h to from =
     (if ll_head from \<noteq> NULL \<and> ll_tail from \<noteq> NULL then do {
        (h, to) \<leftarrow> (if ll_tail to \<noteq> NULL
                   then do { h \<leftarrow> node_set h (ll_tail to) (ll_head from); Some (h, to) }
                   else Some (h, to\<lparr>ll_head := ll_head from\<rparr>));
        let to = to\<lparr>ll_tail := ll_tail from\<rparr>;
        let from = from\<lparr>ll_head := NULL, ll_tail := NULL\<rparr>;
        let to = to\<lparr>ll_size := ll_size to + ll_size from\<rparr>;
        let from = from\<lparr>ll_size := 0\<rparr>;
        Some (h, to, from)
      } else Some (h, to, from))"

definition link_list_clear :: "link_list \<Rightarrow> link_list" where
  "link_list_clear l = l\<lparr>ll_size := 0, ll_head := NULL, ll_tail := NULL\<rparr>"

definition link_list_push_back :: "nheap \<Rightarrow> link_list \<Rightarrow> addr \<Rightarrow> (nheap \<times> link_list) option" where
  "link_list_push_back h l n = do {
     nx \<leftarrow> node_get h n;
     if nx \<noteq> NULL then Some (h, l)
     else do {
       h \<leftarrow> node_set h n NULL;
       (h, l) \<leftarrow> (if ll_size l = 0 then Some (h, l\<lparr>ll_head := n, ll_tail := n\<rparr>)
                 else do {
                   h \<leftarrow> node_set h (ll_tail l) n;
                   Some (h, l\<lparr>ll_tail := n\<rparr>)
                 });
       Some (h, l\<lparr>ll_size := ll_size l + 1\<rparr>)
     }
   }"

definition link_list_push_front :: "nheap \<Rightarrow> link_list \<Rightarrow> addr \<Rightarrow> (nheap \<times> link_list) option" where
  "link_list_push_front h l n = do {
     nx \<leftarrow> node_get h n;
     if nx \<noteq> NULL then Some (h, l)
     else do {
       h \<leftarrow> node_set h n NULL;
       (h, l) \<leftarrow> (if ll_size l = 0 then Some (h, l\<lparr>ll_head := n, ll_tail := n\<rparr>)
                 else do {
                   h \<leftarrow> node_set h n (ll_head l);
                   Some (h, l\<lparr>ll_head := n\<rparr>)
                 });
       Some (h, l\<lparr>ll_size := ll_size l + 1\<rparr>)
     }
   }"

definition link_list_pop :: "nheap \<Rightarrow> link_list \<Rightarrow> (addr \<times> nheap \<times> link_list) option" where
  "link_list_pop h l =
     (if ll_size l = 0 then Some (NULL, h, l)
      else do {
        let ret = ll_head l;
        nx \<leftarrow> node_get h ret;
        let l = l\<lparr>ll_head := nx\<rparr>;
        let l = (if ll_head l = NULL then l\<lparr>ll_tail := NULL\<rparr> else l);
        let l = l\<lparr>ll_size := ll_size l - 1\<rparr>;
        h \<leftarrow> node_set h ret NULL;
        Some (ret, h, l)
      })"

definition link_list_is_empty :: "link_list \<Rightarrow> bool" where
  "link_list_is_empty l = (ll_size l = 0)"

definition link_list_size :: "link_list \<Rightarrow> u32" where
  "link_list_size l = ll_size l"

lemmas [list_ops] = node_get_def node_set_def create_link_list_def link_list_head_def link_list_swap_def link_list_clear_def
  link_list_push_back_def link_list_push_front_def link_list_pop_def link_list_is_empty_def link_list_size_def

section \<open>Abstraction: the list of node addresses\<close>

text \<open>
  A segment follows the next pointers from p through the nodes of a list up to q; a header
  represents a list when the segment from its head ends in NULL, the tail is the last node and the
  counter is the length.
\<close>

primrec ll_seg :: "nheap \<Rightarrow> addr \<Rightarrow> addr list \<Rightarrow> addr \<Rightarrow> bool" where
  "ll_seg h p [] q = (p = q)"
| "ll_seg h p (a # as) q =
     (p = a \<and> a \<noteq> NULL \<and> (case h a of None \<Rightarrow> False | Some r \<Rightarrow> ll_seg h r as q))"

definition ll_repr :: "nheap \<Rightarrow> link_list \<Rightarrow> addr list \<Rightarrow> bool" where
  "ll_repr h l xs \<longleftrightarrow>
     ll_seg h (ll_head l) xs NULL \<and> distinct xs \<and>
     ll_tail l = (if xs = [] then NULL else last xs) \<and>
     ll_size l = of_nat (length xs) \<and> length xs < 2 ^ 31"

definition ll_free :: "nheap \<Rightarrow> addr \<Rightarrow> bool" where
  "ll_free h n \<longleftrightarrow> n \<noteq> NULL \<and> h n = Some NULL"

definition ll_room :: "nat \<Rightarrow> bool" where
  "ll_room k \<longleftrightarrow> k < 2 ^ 31"

lemma ll_seg_append [simp]:
  "ll_seg h p (xs @ ys) q \<longleftrightarrow> (\<exists>r. ll_seg h p xs r \<and> ll_seg h r ys q)"
  by (induction xs arbitrary: p) (auto split: option.splits)

lemma ll_seg_cong:
  "(\<And>a. a \<in> set xs \<Longrightarrow> h' a = h a) \<Longrightarrow> ll_seg h' p xs q = ll_seg h p xs q"
  by (induction xs arbitrary: p) (auto split: option.splits)

lemma ll_seg_upd [simp]: "n \<notin> set xs \<Longrightarrow> ll_seg (h(n := v)) p xs q = ll_seg h p xs q"
  by (rule ll_seg_cong) auto

lemma ll_seg_dom: "ll_seg h p xs q \<Longrightarrow> a \<in> set xs \<Longrightarrow> a \<noteq> NULL \<and> a \<in> dom h"
  by (induction xs arbitrary: p) (auto split: option.splits)

lemma ll_seg_NULL [simp]: "ll_seg h NULL xs q \<longleftrightarrow> xs = [] \<and> q = NULL"
  by (cases xs) auto

lemma ll_seg_snoc: "ll_seg h p (xs @ [a]) q \<longleftrightarrow> ll_seg h p xs a \<and> a \<noteq> NULL \<and> h a = Some q"
  by (auto split: option.splits)

lemma of_nat_len_0: "length xs < 2 ^ 31 \<Longrightarrow> (of_nat (length xs) = (0 :: u32)) \<longleftrightarrow> xs = []"
  by (auto simp: word_of_nat_eq_0_iff dest: dvd_imp_le)

lemma ll_repr_empty: "ll_repr h create_link_list []"
  by (simp add: ll_repr_def create_link_list_def)

lemma ll_repr_cong:
  "(\<And>a. a \<in> set xs \<Longrightarrow> h' a = h a) \<Longrightarrow> ll_repr h' l xs = ll_repr h l xs"
  using ll_seg_cong [of xs h' h] by (simp add: ll_repr_def)

lemma ll_repr_NULL: "ll_repr h l xs \<Longrightarrow> NULL \<notin> set xs"
  by (auto simp: ll_repr_def dest: ll_seg_dom)

lemma ll_repr_size: "ll_repr h l xs \<Longrightarrow> ll_size l = 0 \<longleftrightarrow> xs = []"
  by (simp add: ll_repr_def of_nat_len_0)

lemma ll_repr_head: "ll_repr h l xs \<Longrightarrow> link_list_head l = (case xs of [] \<Rightarrow> NULL | x # _ \<Rightarrow> x)"
  by (auto simp: ll_repr_def link_list_head_def split: list.splits)

section \<open>The operations implement list operations\<close>

lemma link_list_push_back_repr:
  assumes r: "ll_repr h l xs" and n: "ll_free h n" "n \<notin> set xs" and len: "ll_room (Suc (length xs))"
  obtains h' l' where "link_list_push_back h l n = Some (h', l')" "ll_repr h' l' (xs @ [n])"
    "\<And>m. m \<notin> insert n (set xs) \<Longrightarrow> h' m = h m"
proof (cases xs rule: rev_cases)
  case Nil
  show thesis
    by (rule that [of "h(n \<mapsto> NULL)" "l\<lparr>ll_head := n, ll_tail := n, ll_size := ll_size l + 1\<rparr>"])
       (use r n Nil in \<open>auto simp: ll_repr_def ll_free_def link_list_push_back_def node_get_def node_set_def\<close>)
next
  case (snoc ys y)
  from r snoc have y: "y \<noteq> NULL" "h y = Some NULL" "ll_seg h (ll_head l) ys y" "ll_tail l = y" "y \<noteq> n"
    using n by (auto simp: ll_repr_def split: option.splits)
  have sz: "ll_size l \<noteq> 0" using r snoc by (simp add: ll_repr_size)
  let ?h = "h(n \<mapsto> NULL, y \<mapsto> n)" and ?l = "l\<lparr>ll_tail := n, ll_size := ll_size l + 1\<rparr>"
  have "link_list_push_back h l n = Some (?h, ?l)"
    using n y sz by (simp add: link_list_push_back_def node_get_def node_set_def ll_free_def)
  moreover have "ll_repr ?h ?l (xs @ [n])"
    using r n y snoc len
    by (auto simp: ll_repr_def ll_free_def ll_room_def split: option.splits)
  ultimately show thesis using that snoc by auto
qed

lemma link_list_push_front_repr:
  assumes r: "ll_repr h l xs" and n: "ll_free h n" "n \<notin> set xs" and len: "ll_room (Suc (length xs))"
  obtains h' l' where "link_list_push_front h l n = Some (h', l')" "ll_repr h' l' (n # xs)"
    "\<And>m. m \<notin> insert n (set xs) \<Longrightarrow> h' m = h m"
proof (cases xs)
  case Nil
  show thesis
    by (rule that [of "h(n \<mapsto> NULL)" "l\<lparr>ll_head := n, ll_tail := n, ll_size := ll_size l + 1\<rparr>"])
       (use r n Nil in \<open>auto simp: ll_repr_def ll_free_def link_list_push_front_def node_get_def node_set_def\<close>)
next
  case (Cons y ys)
  have sz: "ll_size l \<noteq> 0" using r Cons by (simp add: ll_repr_size)
  let ?h = "h(n \<mapsto> NULL, n \<mapsto> ll_head l)" and ?l = "l\<lparr>ll_head := n, ll_size := ll_size l + 1\<rparr>"
  have "link_list_push_front h l n = Some (?h, ?l)"
    using n sz by (simp add: link_list_push_front_def node_get_def node_set_def ll_free_def)
  moreover have "ll_repr ?h ?l (n # xs)"
    using r n Cons len by (auto simp: ll_repr_def ll_free_def ll_room_def split: option.splits)
  ultimately show thesis using that by auto
qed

lemma link_list_push_linked:
  "n \<noteq> NULL \<Longrightarrow> h n = Some q \<Longrightarrow> q \<noteq> NULL \<Longrightarrow> link_list_push_back h l n = Some (h, l)"
  "n \<noteq> NULL \<Longrightarrow> h n = Some q \<Longrightarrow> q \<noteq> NULL \<Longrightarrow> link_list_push_front h l n = Some (h, l)"
  by (simp_all add: link_list_push_back_def link_list_push_front_def node_get_def)

lemma link_list_pop_empty: "ll_repr h l [] \<Longrightarrow> link_list_pop h l = Some (NULL, h, l)"
  by (simp add: ll_repr_size link_list_pop_def)

lemma link_list_pop_repr:
  assumes r: "ll_repr h l (x # xs)"
  obtains h' l' where "link_list_pop h l = Some (x, h', l')" "ll_repr h' l' xs" "ll_free h' x"
    "\<And>m. m \<noteq> x \<Longrightarrow> h' m = h m"
proof -
  have sz: "ll_size l \<noteq> 0" using r by (simp add: ll_repr_size)
  from r obtain q where q: "x \<noteq> NULL" "ll_head l = x" "h x = Some q" "ll_seg h q xs NULL" "x \<notin> set xs"
    by (auto simp: ll_repr_def split: option.splits)
  have qn: "q = NULL \<longleftrightarrow> xs = []" using q(4) by (cases xs) auto
  let ?h = "h(x \<mapsto> NULL)"
  let ?l = "(if q = NULL then l\<lparr>ll_head := q, ll_tail := NULL\<rparr> else l\<lparr>ll_head := q\<rparr>)"
  have "link_list_pop h l = Some (x, ?h, ?l\<lparr>ll_size := ll_size l - 1\<rparr>)"
    using q sz by (simp add: link_list_pop_def node_get_def node_set_def)
  moreover have "ll_repr ?h (?l\<lparr>ll_size := ll_size l - 1\<rparr>) xs"
    using r q qn by (auto simp: ll_repr_def)
  ultimately show thesis using that q(1) by (simp add: ll_free_def)
qed

lemma link_list_swap_repr:
  assumes t: "ll_repr h to xs" and f: "ll_repr h from ys" and d: "set xs \<inter> set ys = {}"
    and len: "length xs + length ys < 2 ^ 31"
  obtains h' to' from' where "link_list_swap h to from = Some (h', to', from')"
    "ll_repr h' to' (xs @ ys)" "ll_repr h' from' []" "\<And>m. m \<notin> set xs \<Longrightarrow> h' m = h m"
    "dom h' = dom h"
proof (cases "ys = []")
  case True
  with t f that show thesis by (auto simp: link_list_swap_def ll_repr_def)
next
  case ysne: False
  then obtain y ys' where y: "ys = y # ys'" by (cases ys) auto
  with f have hf: "ll_head from = y" "y \<noteq> NULL" by (auto simp: ll_repr_def)
  have tf: "ll_tail from = last ys" using f ysne by (simp add: ll_repr_def)
  have "last ys \<noteq> NULL" using ll_repr_NULL [OF f] last_in_set [OF ysne] by metis
  then have tn: "ll_tail from \<noteq> NULL" using tf by simp
  show thesis
  proof (cases xs rule: rev_cases)
    case Nil
    with t have "ll_tail to = NULL" by (simp add: ll_repr_def)
    then show thesis
      using t f Nil ysne hf tf tn that by (auto simp: link_list_swap_def ll_repr_def)
  next
    case (snoc zs z)
    with t have z: "ll_tail to = z" "z \<noteq> NULL" "h z = Some NULL" "ll_seg h (ll_head to) zs z"
      by (auto simp: ll_repr_def split: option.splits)
    let ?h = "h(z \<mapsto> y)"
    have seg: "ll_seg ?h y ys NULL"
      using f d snoc hf by (auto simp: ll_repr_def)
    show thesis
      by (rule that [of ?h "to\<lparr>ll_tail := last ys, ll_size := ll_size to + ll_size from\<rparr>"
              "from\<lparr>ll_head := NULL, ll_tail := NULL, ll_size := 0\<rparr>"])
         (use t f d z hf tf tn snoc seg ysne len in
          \<open>auto simp: link_list_swap_def node_set_def ll_repr_def split: option.splits\<close>)
  qed
qed

section \<open>The list as a node queue\<close>

interpretation ll: node_queue ll_repr "\<lambda>_. {}" ll_free ll_room link_list_push_back link_list_pop
proof unfold_locales
  fix h h' :: nheap and q xs
  assume "ll_repr h q xs" and "\<And>a. a \<in> set xs \<union> {} \<Longrightarrow> h' a = h a"
  then show "ll_repr h' q xs" using ll_repr_cong [of xs h' h] by auto
next
  fix h q xs assume "ll_repr h q xs"
  then show "distinct xs \<and> NULL \<notin> set xs \<and> set xs \<inter> {} = {}"
    using ll_repr_NULL by (auto simp: ll_repr_def)
next
  fix h q xs n
  assume "ll_repr h q xs" "ll_free h n" "n \<notin> set xs" "ll_room (Suc (length xs))"
  then show "\<exists>h' q'. link_list_push_back h q n = Some (h', q') \<and> ll_repr h' q' (xs @ [n]) \<and> {} = {} \<and>
      (\<forall>m. m \<notin> insert n (set xs) \<union> {} \<longrightarrow> h' m = h m)"
    by (metis Un_empty_right link_list_push_back_repr)
next
  fix h q x xs
  assume "ll_repr h q (x # xs)"
  then show "\<exists>h' q'. link_list_pop h q = Some (x, h', q') \<and> ll_repr h' q' xs \<and> ll_free h' x \<and> {} = {} \<and>
      (\<forall>m. m \<notin> set (x # xs) \<union> {} \<longrightarrow> h' m = h m)"
    by (metis Un_empty_right link_list_pop_repr list.set_intros(1))
qed (auto simp: ll_free_def ll_room_def link_list_pop_empty)

text \<open>Swapping between two lists of a family.\<close>

lemma link_list_swap_family:
  assumes f: "ll.family h I q xs" and i: "i \<in> I" and j: "j \<in> I" "i \<noteq> j"
    and len: "length (xs i) + length (xs j) < 2 ^ 31"
  obtains h' qi qj where "link_list_swap h (q i) (q j) = Some (h', qi, qj)"
    "ll.family h' I (q(i := qi, j := qj)) (xs(i := xs i @ xs j, j := []))"
    "\<And>m. m \<notin> set (xs i) \<Longrightarrow> h' m = h m" "dom h' = dom h"
proof -
  have d: "set (xs a) \<inter> set (xs b) = {}" if "a \<in> I" "b \<in> I" "a \<noteq> b" for a b
    using ll.family_disjoint [OF f that(1,2)] that(3) by blast
  obtain h' qi qj where 1: "link_list_swap h (q i) (q j) = Some (h', qi, qj)"
    "ll_repr h' qi (xs i @ xs j)" "ll_repr h' qj []" "\<And>m. m \<notin> set (xs i) \<Longrightarrow> h' m = h m" "dom h' = dom h"
    by (rule link_list_swap_repr [OF ll.family_repr [OF f i] ll.family_repr [OF f j(1)] d [OF i j] len]) blast
  have "ll_repr h' (q k) (xs k)" if "k \<in> I" "k \<noteq> i" "k \<noteq> j" for k
    by (rule ll.repr_cong [OF ll.family_repr [OF f that(1)]]) (use 1(4) d [OF that(1) i] that in auto)
  then have "ll.family h' I (q(i := qi, j := qj)) (xs(i := xs i @ xs j, j := []))"
    using 1(2,3) d i j unfolding ll.family_def by (auto simp: Int_Un_distrib Int_Un_distrib2)
  with 1 that show thesis by blast
qed

section \<open>Properties\<close>

text \<open>In any node heap, pushing distinct free nodes to the back of an empty list and popping as
  many times returns exactly those nodes in the order of the pushes, leaves the list empty and
  every node free to be pushed again.\<close>

theorem link_list_fifo:
  assumes "ll_repr h l []" and "\<forall>n\<in>set ns. n \<noteq> NULL \<and> h n = Some NULL" and "distinct ns"
    and "length ns < 2 ^ 31"
  shows "\<exists>h' l' h'' l''. push_all link_list_push_back h l ns = Some (h', l') \<and>
    pop_times link_list_pop (length ns) h' l' = Some (ns, h'', l'') \<and> ll_repr h'' l'' [] \<and>
    (\<forall>n\<in>set ns. h'' n = Some NULL)"
  using ll.push_all_pop_times [OF assms(1) _ assms(3)] assms(2,4)
  by (fastforce simp: ll_free_def ll_room_def)


text \<open>
  The abstract list the header stands for, and runs of operations over it.  The environment is a
  set of nodes (the domain of the heap), each of which is in the list or free.
\<close>

datatype ll_op = Push_back addr | Push_front addr | Pop

fun ll_exec :: "nheap \<Rightarrow> link_list \<Rightarrow> ll_op \<Rightarrow> (addr \<times> nheap \<times> link_list) option" where
  "ll_exec h l (Push_back n) = do { (h, l) \<leftarrow> link_list_push_back h l n; Some (NULL, h, l) }"
| "ll_exec h l (Push_front n) = do { (h, l) \<leftarrow> link_list_push_front h l n; Some (NULL, h, l) }"
| "ll_exec h l Pop = link_list_pop h l"

fun ll_run :: "nheap \<Rightarrow> link_list \<Rightarrow> ll_op list \<Rightarrow> (addr list \<times> nheap \<times> link_list) option" where
  "ll_run h l [] = Some ([], h, l)"
| "ll_run h l (p # ps) = do {
     (r, h, l) \<leftarrow> ll_exec h l p;
     (rs, h, l) \<leftarrow> ll_run h l ps;
     Some (r # rs, h, l)
   }"

fun ll_spec :: "addr list \<Rightarrow> ll_op \<Rightarrow> addr \<times> addr list" where
  "ll_spec xs (Push_back n) = (NULL, if n \<in> set xs then xs else xs @ [n])"
| "ll_spec xs (Push_front n) = (NULL, if n \<in> set xs then xs else n # xs)"
| "ll_spec xs Pop = (case xs of [] \<Rightarrow> (NULL, []) | x # xs' \<Rightarrow> (x, xs'))"

fun ll_spec_run :: "addr list \<Rightarrow> ll_op list \<Rightarrow> addr list \<times> addr list" where
  "ll_spec_run xs [] = ([], xs)"
| "ll_spec_run xs (p # ps) =
     (let (r, ys) = ll_spec xs p; (rs, zs) = ll_spec_run ys ps in (r # rs, zs))"

text \<open>A pushed node is one of the program's nodes, and not the one that is last in the list now.\<close>

fun ll_op_ok :: "addr set \<Rightarrow> addr list \<Rightarrow> ll_op \<Rightarrow> bool" where
  "ll_op_ok U xs (Push_back n) = (n \<in> U \<and> (xs = [] \<or> n \<noteq> last xs))"
| "ll_op_ok U xs (Push_front n) = (n \<in> U \<and> (xs = [] \<or> n \<noteq> last xs))"
| "ll_op_ok U xs Pop = True"

fun ll_ops_ok :: "addr set \<Rightarrow> addr list \<Rightarrow> ll_op list \<Rightarrow> bool" where
  "ll_ops_ok U xs [] = True"
| "ll_ops_ok U xs (p # ps) = (ll_op_ok U xs p \<and> ll_ops_ok U (snd (ll_spec xs p)) ps)"

definition ll_inv :: "nheap \<Rightarrow> link_list \<Rightarrow> addr list \<Rightarrow> bool" where
  "ll_inv h l xs \<longleftrightarrow> ll_repr h l xs \<and> set xs \<subseteq> dom h \<and> finite (dom h) \<and> card (dom h) < 2 ^ 31 \<and>
     (\<forall>n\<in>dom h. n \<noteq> NULL \<and> (n \<notin> set xs \<longrightarrow> h n = Some NULL))"

lemma ll_inv_room:
  assumes "ll_inv h l xs" and "n \<in> dom h" and "n \<notin> set xs"
  shows "ll_room (Suc (length xs))"
proof -
  have "card (insert n (set xs)) \<le> card (dom h)"
    using assms by (intro card_mono) (auto simp: ll_inv_def)
  moreover have "card (insert n (set xs)) = Suc (length xs)"
    using assms by (simp add: ll_inv_def ll_repr_def distinct_card)
  ultimately show ?thesis using assms(1) by (simp add: ll_inv_def ll_room_def)
qed

lemma ll_linked_inner:
  assumes "ll_seg h p xs NULL" and "n \<in> set xs" and "n \<noteq> last xs"
  shows "\<exists>q. h n = Some q \<and> q \<noteq> NULL"
  using assms
proof (induction xs arbitrary: p)
  case (Cons a as)
  then show ?case by (cases as) (auto split: option.splits)
qed simp

lemma ll_inv_mono:
  assumes "ll_inv h l xs" and "ll_repr h' l' ys" and "dom h' = dom h" and "set ys \<subseteq> dom h"
    and "\<And>n. n \<in> dom h \<Longrightarrow> n \<notin> set ys \<Longrightarrow> h' n = Some NULL"
  shows "ll_inv h' l' ys"
  using assms by (auto simp: ll_inv_def)

lemma ll_push_dom:
  "link_list_push_back h l n = Some (h', l') \<Longrightarrow> dom h' = dom h"
  "link_list_push_front h l n = Some (h', l') \<Longrightarrow> dom h' = dom h"
  "link_list_pop h l = Some (x, h', l') \<Longrightarrow> dom h' = dom h"
  by (auto simp: link_list_push_back_def link_list_push_front_def link_list_pop_def node_get_def
      node_set_def Let_def split: bind_splits if_splits option.splits)

lemma ll_exec_refines:
  assumes inv: "ll_inv h l xs" and ok: "ll_op_ok (dom h) xs p" and sp: "ll_spec xs p = (r, ys)"
  shows "\<exists>h' l'. ll_exec h l p = Some (r, h', l') \<and> ll_inv h' l' ys \<and> dom h' = dom h"
proof -
  have rep: "ll_repr h l xs" using inv by (simp add: ll_inv_def)
  have seg: "ll_seg h (ll_head l) xs NULL" using rep by (simp add: ll_repr_def)
  have linked: "\<exists>q. h n = Some q \<and> q \<noteq> NULL \<and> n \<noteq> NULL" if "n \<in> set xs" "n \<noteq> last xs" for n
    using ll_linked_inner [OF seg that] ll_seg_dom [OF seg that(1)] by blast
  have free: "ll_free h n" if "h n \<noteq> None" "n \<notin> set xs" for n
    using inv that by (auto simp: ll_inv_def ll_free_def)
  show ?thesis
  proof (cases p)
    case (Push_back n)
    show ?thesis
    proof (cases "n \<in> set xs")
      case True
      with ok Push_back obtain q where "h n = Some q" "q \<noteq> NULL" "n \<noteq> NULL"
        using linked [of n] by (cases xs) auto
      then show ?thesis using True Push_back sp inv by (auto simp: link_list_push_linked)
    next
      case False
      have fr: "ll_free h n" using free ok Push_back False by auto
      have room: "ll_room (Suc (length xs))" using inv ok Push_back False by (intro ll_inv_room) auto
      obtain h' l' where "link_list_push_back h l n = Some (h', l')" "ll_repr h' l' (xs @ [n])"
        "\<And>m. m \<notin> insert n (set xs) \<Longrightarrow> h' m = h m"
        by (rule link_list_push_back_repr [OF rep fr False room]) blast
      moreover from this have "ll_inv h' l' (xs @ [n])"
        using inv ok Push_back ll_push_dom(1)
        by (intro ll_inv_mono [OF inv]) (auto simp: ll_inv_def)
      ultimately show ?thesis using Push_back False sp ll_push_dom(1) by auto
    qed
  next
    case (Push_front n)
    show ?thesis
    proof (cases "n \<in> set xs")
      case True
      with ok Push_front obtain q where "h n = Some q" "q \<noteq> NULL" "n \<noteq> NULL"
        using linked [of n] by (cases xs) auto
      then show ?thesis using True Push_front sp inv by (auto simp: link_list_push_linked)
    next
      case False
      have fr: "ll_free h n" using free ok Push_front False by auto
      have room: "ll_room (Suc (length xs))" using inv ok Push_front False by (intro ll_inv_room) auto
      obtain h' l' where "link_list_push_front h l n = Some (h', l')" "ll_repr h' l' (n # xs)"
        "\<And>m. m \<notin> insert n (set xs) \<Longrightarrow> h' m = h m"
        by (rule link_list_push_front_repr [OF rep fr False room]) blast
      moreover from this have "ll_inv h' l' (n # xs)"
        using inv ok Push_front ll_push_dom(2)
        by (intro ll_inv_mono [OF inv]) (auto simp: ll_inv_def)
      ultimately show ?thesis using Push_front False sp ll_push_dom(2) by auto
    qed
  next
    case Pop
    show ?thesis
    proof (cases xs)
      case Nil
      then show ?thesis using Pop sp inv rep link_list_pop_empty by auto
    next
      case (Cons x zs)
      obtain h' l' where h': "link_list_pop h l = Some (x, h', l')" "ll_repr h' l' zs" "ll_free h' x"
        "\<And>m. m \<noteq> x \<Longrightarrow> h' m = h m"
        using link_list_pop_repr [OF rep [unfolded Cons]] by metis
      have "ll_inv h' l' zs"
      proof (rule ll_inv_mono [OF inv h'(2)])
        show "dom h' = dom h" using h'(1) by (rule ll_push_dom(3))
        show "set zs \<subseteq> dom h" using inv Cons by (auto simp: ll_inv_def)
        show "h' n = Some NULL" if "n \<in> dom h" "n \<notin> set zs" for n
          using h'(3,4) inv that Cons by (cases "n = x") (auto simp: ll_inv_def ll_free_def)
      qed
      then show ?thesis using Pop Cons sp h'(1) ll_push_dom(3) by auto
    qed
  qed
qed


text \<open>The guard \<^verbatim>\<open>if (n->next) return\<close> does not see that a node is the last one of the list.\<close>

text \<open>Pushing the node that is the last of a list onto it again is not refused: the node ends up
  pointing at itself and the header no longer represents any finite list.\<close>

theorem link_list_push_last_cycle:
  assumes "ll_repr h l (xs @ [n])"
  shows "\<exists>h' l'. link_list_push_back h l n = Some (h', l') \<and> h' n = Some n \<and>
    ll_size l' = ll_size l + 1 \<and> (\<forall>ys. \<not> ll_repr h' l' ys)"
proof -
  from assms have n: "n \<noteq> NULL" "h n = Some NULL" "ll_tail l = n" "ll_seg h (ll_head l) xs n" "n \<notin> set xs"
    by (auto simp: ll_repr_def split: option.splits)
  have sz: "ll_size l \<noteq> 0" using assms by (simp add: ll_repr_size)
  let ?h = "h(n \<mapsto> n)" and ?l = "l\<lparr>ll_tail := n, ll_size := ll_size l + 1\<rparr>"
  have p: "link_list_push_back h l n = Some (?h, ?l)"
    using n sz by (simp add: link_list_push_back_def node_get_def node_set_def)
  have loop: "\<not> ll_seg ?h n ys NULL" for ys
    using n(1) by (induction ys) auto
  have "False" if "ll_seg ?h q us NULL" "ll_seg h q zs n" "n \<notin> set zs" for us q zs
    using that
  proof (induction us arbitrary: q zs)
    case Nil
    then show ?case using n(1) by (cases zs) auto
  next
    case (Cons u us)
    then show ?case using loop [of us, unfolded fun_upd_def] by (cases zs) (auto split: option.splits)
  qed
  then have "\<not> ll_repr ?h ?l ys" for ys
    using n(1,4,5) by (auto simp: ll_repr_def)
  with p show ?thesis by auto
qed


section \<open>Witnesses\<close>

definition ll_heap3 :: nheap where
  "ll_heap3 = [1 \<mapsto> NULL, 2 \<mapsto> NULL, 3 \<mapsto> NULL]"

lemma ll_inv_heap3: "ll_inv ll_heap3 create_link_list []"
  by (auto simp: ll_inv_def ll_repr_empty ll_heap3_def card_insert_if)

lemma link_list_fifo_witness:
  "\<exists>h' l' h'' l''. push_all link_list_push_back ll_heap3 create_link_list [2, 1, 3] = Some (h', l') \<and>
    pop_times link_list_pop (length [2, 1, 3 :: nat]) h' l' = Some ([2, 1, 3], h'', l'') \<and>
    ll_repr h'' l'' [] \<and> (\<forall>n\<in>set [2, 1, 3]. h'' n = Some NULL)"
  by (rule link_list_fifo) (auto simp: ll_repr_empty ll_heap3_def)


lemma link_list_push_last_cycle_witness:
  "\<exists>h' l'. link_list_push_back [1 \<mapsto> NULL] \<lparr>ll_size = 1, ll_head = 1, ll_tail = 1\<rparr> 1 = Some (h', l') \<and>
    h' 1 = Some 1 \<and> ll_size l' = ll_size \<lparr>ll_size = 1, ll_head = 1, ll_tail = 1\<rparr> + 1 \<and>
    (\<forall>ys. \<not> ll_repr h' l' ys)"
  by (rule link_list_push_last_cycle [where xs = "[]"]) (simp add: ll_repr_def)

end
