(* ===== verification/Pow2.thy ===== *)
theory Pow2
  imports Prelude
begin

text \<open>
  The power-of-two helpers of src/epoll_mutilthread/src/wpacket.c, which size every packet buffer
  and every object class of the block allocator.  All arithmetic is on 32-bit words, as in the code.
\<close>

section \<open>Definitions\<close>

definition is_pow_of_2 :: "u32 \<Rightarrow> bool" where
  "is_pow_of_2 sz = (sz AND (sz - 1) = 0)"

function GetK_loop :: "u32 \<Rightarrow> u8 \<Rightarrow> u8" where
  "GetK_loop sz k = (if sz > 1 then GetK_loop (drop_bit 1 sz) (k + 1) else k)"
  by pat_completeness auto
termination
  by (relation "measure (\<lambda>(sz, k). unat sz)")
     (simp_all add: word_less_nat_alt drop_bit_eq_div unat_div)

declare GetK_loop.simps [simp del]

definition GetK :: "u32 \<Rightarrow> u8" where
  "GetK sz =
     (let k = 0;
          sz = (if \<not> is_pow_of_2 sz then push_bit 1 sz else sz)
      in GetK_loop sz k)"

definition smear :: "nat \<Rightarrow> u32 \<Rightarrow> u32" where
  "smear d sz = sz OR drop_bit d sz"

definition GetSize_of_pow2 :: "u32 \<Rightarrow> u32" where
  "GetSize_of_pow2 sz =
     (if is_pow_of_2 sz then sz
      else (let sz = sz - 1;
                sz = smear 1 sz;
                sz = smear 2 sz;
                sz = smear 4 sz;
                sz = smear 8 sz;
                sz = smear 16 sz
            in sz + 1))"

section \<open>The highest set bit\<close>

lemma highest_bit_exists:
  fixes x :: "'a::len word"
  assumes "x \<noteq> 0"
  obtains n where "n < LENGTH('a)" "2 ^ n \<le> unat x" "unat x < 2 ^ Suc n"
proof -
  have pos: "0 < unat x" using assms by (simp add: unat_gt_0)
  obtain n where n: "2 ^ n \<le> unat x" "unat x < 2 ^ (n + 1)"
    using ex_power_ivl1 [of 2 "unat x"] pos by auto
  have "unat x < 2 ^ LENGTH('a)" by (rule unsigned_less)
  with n(1) have "(2::nat) ^ n < 2 ^ LENGTH('a)" by linarith
  then have "n < LENGTH('a)" by (simp add: power_less_imp_less_exp)
  with n that show thesis by simp
qed

lemma bit_highest:
  fixes x :: "'a::len word"
  assumes "2 ^ n \<le> unat x" and "unat x < 2 ^ Suc n"
  shows "bit x n"
proof -
  have "unat x div 2 ^ n = 1"
    using assms by (intro div_nat_eqI) simp_all
  then have "bit (unat x) n" by (simp add: bit_iff_odd)
  then show ?thesis by (simp add: bit_unsigned_iff)
qed

lemma bit_above:
  fixes x :: "'a::len word"
  assumes "unat x < 2 ^ n" and "n \<le> j"
  shows "\<not> bit x j"
proof -
  have "unat x < 2 ^ j"
    using assms by (meson less_le_trans one_le_numeral power_increasing)
  then have "\<not> bit (unat x) j" by (simp add: bit_iff_odd)
  then show ?thesis by (auto simp: bit_unsigned_iff dest: bit_imp_le_length)
qed

section \<open>The power-of-two test\<close>

lemma pow2_and_pred: "(2 ^ k :: u32) AND (2 ^ k - 1) = 0"
proof -
  have "(2 ^ k :: u32) AND mask k = 0"
    by (rule bit_word_eqI) (auto simp: bit_simps)
  then show ?thesis by (simp add: mask_eq_exp_minus_1)
qed

lemma is_pow_of_2_iff: "is_pow_of_2 sz \<longleftrightarrow> sz = 0 \<or> (\<exists>k<32. sz = 2 ^ k)"
proof
  assume p: "is_pow_of_2 sz"
  show "sz = 0 \<or> (\<exists>k<32. sz = 2 ^ k)"
  proof (cases "sz = 0")
    case False
    then obtain n where n: "n < 32" "2 ^ n \<le> unat sz" "unat sz < 2 ^ Suc n"
      using highest_bit_exists [of sz] by auto
    have "sz = 2 ^ n"
    proof (rule ccontr)
      assume "sz \<noteq> 2 ^ n"
      with n have "2 ^ n < unat sz"
        using unat_2_power [of n, where 'a = 32] word_unat_eq_iff [of sz "2 ^ n"]
        by (simp add: le_less)
      moreover have "unat (sz - 1) = unat sz - 1"
        using False by (simp add: unat_minus_one)
      ultimately have "bit (sz - 1) n"
        using n by (intro bit_highest) auto
      moreover have "bit sz n" using n by (intro bit_highest) auto
      ultimately have "bit (sz AND (sz - 1)) n" by (simp add: bit_and_iff)
      with p show False by (simp add: is_pow_of_2_def)
    qed
    with n show ?thesis by auto
  qed simp
qed (auto simp: is_pow_of_2_def pow2_and_pred)

lemma bit_smear:
  assumes "\<And>i. bit x i \<longleftrightarrow> (\<exists>j<d. bit (o' :: u32) (i + j))" and "0 < d"
  shows "bit (smear d x) i \<longleftrightarrow> (\<exists>j<2 * d. bit o' (i + j))"
proof -
  have "bit (smear d x) i \<longleftrightarrow> bit x i \<or> bit x (i + d)"
    by (auto simp: smear_def bit_or_iff bit_drop_bit_eq add.commute dest: bit_imp_le_length)
  also have "\<dots> \<longleftrightarrow> (\<exists>j<2 * d. bit o' (i + j))" (is "?l = ?r")
  proof
    assume ?l then show ?r
      proof
      assume "bit x i"
      with assms(1) obtain j where "j < d" "bit o' (i + j)" by blast
      then show ?r by (intro exI [of _ j]) simp
    next
      assume "bit x (i + d)"
      with assms(1) obtain j where "j < d" "bit o' (i + d + j)" by blast
      then show ?r by (intro exI [of _ "d + j"]) (simp add: add.assoc)
    qed
  next
    assume ?r
    then obtain j where j: "j < 2 * d" "bit o' (i + j)" by blast
    show ?l
    proof (cases "j < d")
      case True with j assms show ?thesis by blast
    next
      case False
      then have "i + j = i + d + (j - d)" "j - d < d" using j by auto
      with j assms show ?thesis by metis
    qed
  qed
  finally show ?thesis .
qed

lemma GetSize_smear:
  assumes n: "2 ^ n \<le> unat x" "unat x < 2 ^ Suc n"
  shows "smear 16 (smear 8 (smear 4 (smear 2 (smear 1 (x::u32))))) = mask (Suc n)"
proof (rule bit_word_eqI)
  fix i assume i: "i < LENGTH(32)"
  let ?y = "smear 16 (smear 8 (smear 4 (smear 2 (smear 1 x))))"
  have s: "\<And>i. bit ?y i \<longleftrightarrow> (\<exists>j<32. bit x (i + j))"
    using bit_smear [of "smear 8 (smear 4 (smear 2 (smear 1 x)))" 16 x]
      bit_smear [of "smear 4 (smear 2 (smear 1 x))" 8 x]
      bit_smear [of "smear 2 (smear 1 x)" 4 x]
      bit_smear [of "smear 1 x" 2 x] bit_smear [of x 1 x] by simp
  have "bit x n" using n by (rule bit_highest)
  then have n32: "n < 32" by (auto dest: bit_imp_le_length)
  have top: "\<And>j. n < j \<Longrightarrow> \<not> bit x j" using n by (intro bit_above [of x "Suc n"]) auto
  have "(\<exists>j<32. bit x (i + j)) \<longleftrightarrow> i \<le> n"
  proof
    assume "\<exists>j<32. bit x (i + j)"
    then show "i \<le> n" using top by (meson le_add1 le_trans not_le)
  next
    assume "i \<le> n"
    then show "\<exists>j<32. bit x (i + j)"
      using \<open>bit x n\<close> n32 by (intro exI [of _ "n - i"]) auto
  qed
  then show "bit ?y i = bit (mask (Suc n) :: u32) i"
    using s i by (auto simp: bit_mask_iff)
qed

text \<open>The value of the rounding, by the position of the highest bit of sz - 1.\<close>

lemma GetSize_of_pow2_not_pow:
  assumes "\<not> is_pow_of_2 sz"
  obtains n where "n < 32" "2 ^ n < unat sz" "unat sz < 2 ^ Suc n" "GetSize_of_pow2 sz = 2 ^ Suc n"
proof -
  have nz: "sz \<noteq> 0" using assms by (auto simp: is_pow_of_2_iff)
  then have pred: "unat (sz - 1) = unat sz - 1" by (simp add: unat_minus_one)
  obtain n where n: "n < 32" "2 ^ n \<le> unat sz" "unat sz < 2 ^ Suc n"
    using nz highest_bit_exists [of sz] by auto
  have "unat sz \<noteq> 2 ^ n"
    using assms n(1) unat_2_power [of n, where 'a = 32] word_unat_eq_iff [of sz "2 ^ n"]
    by (auto simp: is_pow_of_2_iff)
  with n have gt: "2 ^ n < unat sz" by simp
  then have p: "2 ^ n \<le> unat (sz - 1)" "unat (sz - 1) < 2 ^ Suc n" using n pred by auto
  have "GetSize_of_pow2 sz = mask (Suc n) + 1"
    using assms GetSize_smear [OF p] by (simp add: GetSize_of_pow2_def Let_def)
  also have "\<dots> = 2 ^ Suc n" by (simp add: mask_eq_exp_minus_1)
  finally show thesis using that n gt by blast
qed

lemma GetK_loop_floor:
  assumes "2 ^ n \<le> unat sz" "unat sz < 2 ^ Suc n"
  shows "GetK_loop sz k = k + of_nat n"
  using assms
proof (induction n arbitrary: sz k)
  case 0
  then have "unat sz = 1" by simp
  then have "sz = 1" by (metis unat_1 word_unat_eq_iff)
  then show ?case by (simp add: GetK_loop.simps)
next
  case (Suc n)
  have d: "unat (drop_bit 1 sz) = unat sz div 2" by (simp add: drop_bit_eq_div unat_div)
  have "2 * 1 \<le> 2 * (2 ^ n :: nat)" by (intro mult_le_mono) simp_all
  also have "\<dots> \<le> unat sz" using Suc.prems by simp
  finally have "1 < unat sz" by simp
  then have "1 < sz" by (simp add: word_less_nat_alt)
  then have "GetK_loop sz k = GetK_loop (drop_bit 1 sz) (k + 1)" by (subst GetK_loop.simps) simp
  also have "\<dots> = k + 1 + of_nat n"
    using Suc.prems by (intro Suc.IH) (simp_all add: d [unfolded One_nat_def])
  finally show ?case by (simp add: algebra_simps)
qed

lemma GetSize_of_pow2_pow: "n < 32 \<Longrightarrow> GetSize_of_pow2 (2 ^ n) = 2 ^ n"
  by (auto simp: GetSize_of_pow2_def is_pow_of_2_iff)

lemma GetK_pow:
  assumes "n < 32"
  shows "GetK (2 ^ n) = of_nat n"
proof -
  have "is_pow_of_2 (2 ^ n)" using assms by (auto simp: is_pow_of_2_iff)
  then have "GetK (2 ^ n) = GetK_loop (2 ^ n) 0" by (simp add: GetK_def)
  also have "\<dots> = 0 + of_nat n"
    using assms unat_2_power [of n, where 'a = 32] by (intro GetK_loop_floor) simp_all
  finally show ?thesis by simp
qed

lemma GetK_not_pow:
  assumes np: "\<not> is_pow_of_2 sz" and n: "2 ^ n < unat sz" "unat sz < 2 ^ Suc n" "n < 31"
  shows "GetK sz = of_nat (Suc n)"
proof -
  have "(2::nat) ^ Suc n \<le> 2 ^ 31" using n(3) by (intro power_increasing) auto
  then have "2 * unat sz < 2 ^ 32" using n(2) by simp
  then have d: "unat (push_bit 1 sz) = 2 * unat sz"
    by (simp add: push_bit_eq_mult unat_word_ariths)
  have "GetK sz = GetK_loop (push_bit 1 sz) 0" using np by (simp add: GetK_def)
  also have "\<dots> = 0 + of_nat (Suc n)" 
  proof (rule GetK_loop_floor)
    show "2 ^ Suc n \<le> unat (push_bit 1 sz)" unfolding d using n by simp
    show "unat (push_bit 1 sz) < 2 ^ Suc (Suc n)" unfolding d using n by simp
  qed
  finally show ?thesis by simp
qed

section \<open>Properties\<close>

text \<open>For every size from 1 to 2 ^ 31 the rounding returns the least power of two that is not
  smaller than the size.\<close>

theorem GetSize_of_pow2_least:
  assumes "1 \<le> unat sz" and "unat sz \<le> 2 ^ 31"
  shows "\<exists>k\<le>31. unat (GetSize_of_pow2 sz) = 2 ^ k \<and> unat sz \<le> 2 ^ k \<and>
           (\<forall>j. unat sz \<le> 2 ^ j \<longrightarrow> k \<le> j)"
proof (cases "is_pow_of_2 sz")
  case True
  with assms obtain k where k: "k < 32" "sz = 2 ^ k" by (auto simp: is_pow_of_2_iff)
  then have u: "unat sz = 2 ^ k" using unat_2_power [of k, where 'a = 32] by simp
  have "GetSize_of_pow2 sz = sz" using True by (simp add: GetSize_of_pow2_def)
  then have "unat (GetSize_of_pow2 sz) = 2 ^ k" using u by simp
  then show ?thesis using k(1) by (intro exI [of _ k]) (simp add: u)
next
  case False
  obtain n where n: "n < 32" "2 ^ n < unat sz" "unat sz < 2 ^ Suc n" "GetSize_of_pow2 sz = 2 ^ Suc n"
    by (rule GetSize_of_pow2_not_pow [OF False])
  from n(2) assms(2) have "(2::nat) ^ n < 2 ^ 31" by linarith
  then have n31: "n < 31" by (rule power_less_imp_less_exp [rotated]) simp
  have "k \<ge> Suc n" if "unat sz \<le> 2 ^ k" for k
  proof -
    have "(2::nat) ^ n < 2 ^ k" using n(2) that by linarith
    then have "n < k" by (rule power_less_imp_less_exp [rotated]) simp
    then show ?thesis by simp
  qed
  then show ?thesis
    using n n31 unat_2_power [of "Suc n", where 'a = 32] by (intro exI [of _ "Suc n"]) auto
qed

text \<open>The two helpers agree: GetK is the binary logarithm of what GetSize_of_pow2 returns, so the
  size classes of the allocator and the buffer sizes fit together.\<close>

theorem GetSize_of_pow2_GetK:
  assumes "1 \<le> unat sz" and "unat sz \<le> 2 ^ 31"
  shows "GetSize_of_pow2 sz = 2 ^ unat (GetK sz) \<and> unat (GetK sz) \<le> 31"
proof (cases "is_pow_of_2 sz")
  case True
  with assms obtain k where k: "k < 32" "sz = 2 ^ k" by (auto simp: is_pow_of_2_iff)
  then show ?thesis by (simp add: GetK_pow GetSize_of_pow2_pow unat_of_nat)
next
  case False
  obtain n where n: "n < 32" "2 ^ n < unat sz" "unat sz < 2 ^ Suc n" "GetSize_of_pow2 sz = 2 ^ Suc n"
    by (rule GetSize_of_pow2_not_pow [OF False])
  from n(2) assms(2) have "(2::nat) ^ n < 2 ^ 31" by linarith
  then have n31: "n < 31" by (rule power_less_imp_less_exp [rotated]) simp
  have "GetK sz = of_nat (Suc n)" using False n n31 by (intro GetK_not_pow)
  then show ?thesis using n n31 by (simp add: unat_of_nat del: of_nat_Suc)
qed

text \<open>a size above 2 ^ 31 wraps around to 0.\<close>

theorem GetSize_of_pow2_overflow: "2 ^ 31 < unat sz \<Longrightarrow> GetSize_of_pow2 sz = 0"
proof -
  assume big: "2 ^ 31 < unat sz"
  have "\<not> is_pow_of_2 sz"
  proof
    assume "is_pow_of_2 sz"
    with big obtain k where k: "k < 32" "unat sz = 2 ^ k"
      using unat_2_power [where 'a = 32] by (auto simp: is_pow_of_2_iff)
    then have "(2::nat) ^ k \<le> 2 ^ 31" by (intro power_increasing) auto
    with k big show False by simp
  qed
  then obtain n where n: "n < 32" "2 ^ n < unat sz" "unat sz < 2 ^ Suc n" "GetSize_of_pow2 sz = 2 ^ Suc n"
    by (rule GetSize_of_pow2_not_pow)
  from big n(3) have "(2::nat) ^ 31 < 2 ^ Suc n" by linarith
  then have "31 < Suc n" by (rule power_less_imp_less_exp [rotated]) simp
  with n(1) have "n = 31" by simp
  with n(4) show ?thesis by simp
qed

lemma GetSize_of_pow2_least_witness:
  "\<exists>k\<le>31. unat (GetSize_of_pow2 100) = 2 ^ k \<and> unat (100 :: u32) \<le> 2 ^ k \<and> (\<forall>j. unat (100 :: u32) \<le> 2 ^ j \<longrightarrow> k \<le> j)"
  by (rule GetSize_of_pow2_least) simp_all

lemma GetSize_of_pow2_GetK_witness: "GetSize_of_pow2 100 = 2 ^ unat (GetK 100) \<and> unat (GetK 100) \<le> 31"
  by (rule GetSize_of_pow2_GetK) simp_all

lemma GetSize_of_pow2_overflow_witness: "GetSize_of_pow2 3000000000 = 0"
  by (rule GetSize_of_pow2_overflow) simp

end
