(* ===== verification/Buffers.thy ===== *)
theory Buffers
  imports Prelude
begin

text \<open>
  Reference counted buffers: src/epoll_mutilthread/src/refbase.c, include/atomic.h,
  include/refbase.h, include/buffer.h and src/buffer.c (its part outside comments).  Buffers are
  objects of an explicit heap, because packets, positions and chains alias them.  None is a run
  that touches memory the program does not own, frees twice, or does not return.
\<close>

section \<open>Reference counts\<close>

datatype destroyer = Buffer_destroy

record refbase =
  rb_refcount :: u32
  rb_mt :: u8
  rb_destroyer :: "destroyer option"

text \<open>The atomic builtins return the new value, which is also what they store.\<close>

definition ATOMIC_INCREASE :: "u32 \<Rightarrow> u32" where
  "ATOMIC_INCREASE v = v + 1"

definition ATOMIC_DECREASE :: "u32 \<Rightarrow> u32" where
  "ATOMIC_DECREASE v = v - 1"

definition ref_increase :: "refbase \<Rightarrow> refbase" where
  "ref_increase r =
     (if rb_mt r \<noteq> 0 then r\<lparr>rb_refcount := ATOMIC_INCREASE (rb_refcount r)\<rparr>
      else r\<lparr>rb_refcount := rb_refcount r + 1\<rparr>)"

text \<open>The second component is the destroyer the code calls, if it calls one; the count is an int32_t.\<close>

definition ref_decrease :: "refbase \<Rightarrow> refbase \<times> destroyer option" where
  "ref_decrease r =
     (if rb_mt r \<noteq> 0 then
        (let r = r\<lparr>rb_refcount := ATOMIC_DECREASE (rb_refcount r)\<rparr>
         in (r, if sint (rb_refcount r) \<le> 0 then rb_destroyer r else None))
      else
        (let r = r\<lparr>rb_refcount := rb_refcount r - 1\<rparr>
         in (r, if sint (rb_refcount r) \<le> 0 then rb_destroyer r else None)))"

section \<open>The buffer heap\<close>

record buffer =
  b_ref :: refbase
  b_capacity :: u32
  b_size :: u32
  b_next :: addr
  b_buf :: "byte list"

text \<open>
  The heap maps addresses to live buffers.  An allocation takes the next fresh address while the
  platform has memory left (avail counts the allocations that will still succeed) and is NULL
  afterwards, as calloc is.
\<close>

record bheap =
  bufs :: "addr \<rightharpoonup> buffer"
  fresh :: addr
  avail :: nat

definition bget :: "bheap \<Rightarrow> addr \<Rightarrow> buffer option" where
  "bget h a = (if a = NULL then None else bufs h a)"

definition bput :: "bheap \<Rightarrow> addr \<Rightarrow> buffer \<Rightarrow> bheap" where
  "bput h a x = h\<lparr>bufs := (bufs h)(a \<mapsto> x)\<rparr>"

definition bfree :: "bheap \<Rightarrow> addr \<Rightarrow> bheap option" where
  "bfree h a = (case bget h a of None \<Rightarrow> None | Some _ \<Rightarrow> Some (h\<lparr>bufs := (bufs h)(a := None)\<rparr>))"

text \<open>An allocation whose object is not a buffer (a packet header); NULL is the value None.\<close>

definition obj_alloc :: "bheap \<Rightarrow> bheap option" where
  "obj_alloc h = (if avail h = 0 then None else Some (h\<lparr>avail := avail h - 1\<rparr>))"

section \<open>Operations of buffer.c\<close>

definition sizeof_buffer :: u32 where
  "sizeof_buffer = 32"

text \<open>
  The 32-bit sum of header and capacity wraps; a block shorter than the header is overrun by the
  stores that follow.
\<close>

definition buffer_create :: "bheap \<Rightarrow> u8 \<Rightarrow> u32 \<Rightarrow> (addr \<times> bheap) option" where
  "buffer_create h mt capacity =
     (let sz = sizeof_buffer + capacity
      in if avail h = 0 then Some (NULL, h)
         else if sz < sizeof_buffer then None
         else let b = fresh h;
                  x = \<lparr>b_ref = \<lparr>rb_refcount = 0, rb_mt = mt, rb_destroyer = Some Buffer_destroy\<rparr>,
                       b_capacity = capacity, b_size = 0, b_next = NULL,
                       b_buf = replicate (unat sz - unat sizeof_buffer) 0\<rparr>
              in Some (b, (bput h b x)\<lparr>fresh := fresh h + 1, avail := avail h - 1\<rparr>))"

text \<open>
  buffer_release, ref_decrease and buffer_destroy call one another; the cycle is one function.
  buffer_destroy releases the next buffer of the chain, clears the pointer and frees the block.
\<close>

partial_function (option) buffer_release :: "bheap \<Rightarrow> addr \<Rightarrow> bheap option" where
  "buffer_release h b =
     (if b = NULL then Some h
      else case bget h b of
        None \<Rightarrow> None
      | Some x \<Rightarrow>
          (case ref_decrease (b_ref x) of
            (r, None) \<Rightarrow> Some (bput h b (x\<lparr>b_ref := r\<rparr>))
          | (r, Some Buffer_destroy) \<Rightarrow>
              (let h = bput h b (x\<lparr>b_ref := r\<rparr>)
               in Option.bind
                    (if b_next x \<noteq> NULL
                     then Option.bind (buffer_release h (b_next x)) (\<lambda>h. Option.bind (bget h b)
                            (\<lambda>x. Some (bput h b (x\<lparr>b_next := NULL\<rparr>))))
                     else Some h)
                    (\<lambda>h. bfree h b))))"

definition buffer_destroy :: "bheap \<Rightarrow> addr \<Rightarrow> bheap option" where
  "buffer_destroy h b = do {
     x \<leftarrow> bget h b;
     h \<leftarrow> (if b_next x \<noteq> NULL
           then do {
             h \<leftarrow> buffer_release h (b_next x);
             x \<leftarrow> bget h b;
             Some (bput h b (x\<lparr>b_next := NULL\<rparr>))
           }
           else Some h);
     bfree h b
   }"

definition buffer_acquire :: "bheap \<Rightarrow> addr \<Rightarrow> addr \<Rightarrow> (addr \<times> bheap) option" where
  "buffer_acquire h b1 b2 =
     (if b1 = b2 then Some (b1, h)
      else do {
        h \<leftarrow> (if b2 \<noteq> NULL
              then do { x \<leftarrow> bget h b2; Some (bput h b2 (x\<lparr>b_ref := ref_increase (b_ref x)\<rparr>)) }
              else Some h);
        h \<leftarrow> (if b1 \<noteq> NULL then buffer_release h b1 else Some h);
        Some (b2, h)
      })"

definition buffer_create_and_acquire :: "bheap \<Rightarrow> u8 \<Rightarrow> addr \<Rightarrow> u32 \<Rightarrow> (addr \<times> bheap) option" where
  "buffer_create_and_acquire h mt b capacity = do {
     (nb, h) \<leftarrow> buffer_create h mt capacity;
     buffer_acquire h b nb
   }"

text \<open>
  The bytes copied so far are the last argument; the result is the code's int with them.  A copy
  past the end of a block is None, and so is a loop that never ends (a cycle of empty buffers).
\<close>

partial_function (option) buffer_read_loop ::
    "bheap \<Rightarrow> addr \<Rightarrow> u32 \<Rightarrow> u32 \<Rightarrow> byte list \<Rightarrow> (int \<times> byte list) option" where
  "buffer_read_loop h b pos sz out =
     (if sz = 0 then Some (0, out)
      else if b = NULL then Some (-1, out)
      else Option.bind (bget h b) (\<lambda>x.
        let copy_size = b_size x - pos;
            copy_size = (if copy_size > sz then sz else copy_size)
        in Option.bind (mem_read (unat pos) (unat copy_size) (b_buf x)) (\<lambda>bs.
          let sz = sz - copy_size; pos = pos + copy_size; out = out @ bs
          in if pos \<ge> b_size x then buffer_read_loop h (b_next x) 0 sz out
             else buffer_read_loop h b pos sz out)))"

definition buffer_read :: "bheap \<Rightarrow> addr \<Rightarrow> u32 \<Rightarrow> u32 \<Rightarrow> (int \<times> byte list) option" where
  "buffer_read h b pos sz = buffer_read_loop h b pos sz []"

section \<open>Unfolding\<close>

lemma bget_NULL [simp]: "bget h NULL = None"
  by (simp add: bget_def)

lemma bget_bput [simp]: "b \<noteq> NULL \<Longrightarrow> bget (bput h a x) b = (if a = b then Some x else bget h b)"
  by (auto simp: bget_def bput_def)

lemma bufs_bput [simp]: "bufs (bput h a x) = (bufs h)(a \<mapsto> x)"
  and fresh_bput [simp]: "fresh (bput h a x) = fresh h"
  and avail_bput [simp]: "avail (bput h a x) = avail h"
  by (simp_all add: bput_def)

lemma bget_Some: "bget h a = Some x \<longleftrightarrow> a \<noteq> NULL \<and> bufs h a = Some x"
  by (auto simp: bget_def)

lemma buffer_release_NULL [simp]: "buffer_release h NULL = Some h"
  by (simp add: buffer_release.simps)

text \<open>The release of a buffer, in the vocabulary of the code.\<close>

lemma buffer_release_step:
  "b \<noteq> NULL \<Longrightarrow> bget h b = Some x \<Longrightarrow>
     buffer_release h b =
       (let (r, d) = ref_decrease (b_ref x); h = bput h b (x\<lparr>b_ref := r\<rparr>)
        in case d of None \<Rightarrow> Some h | Some Buffer_destroy \<Rightarrow> buffer_destroy h b)"
  by (subst buffer_release.simps)
     (auto simp: buffer_destroy_def Let_def split: option.splits destroyer.splits prod.splits)

section \<open>Counting\<close>

lemma sint_dec: "1 < sint (w :: u32) \<Longrightarrow> sint (w - 1) = sint w - 1"
proof -
  assume w: "1 < sint w"
  have "sint w < 2 ^ 31" using sint_lt [of w] by simp
  then have "signed_take_bit 31 (sint w - 1) = sint w - 1"
    using w by (intro signed_take_bit_int_eq_self) auto
  then show ?thesis by (simp add: sint_word_ariths)
qed

lemma sint_inc: "sint (w :: u32) < 2 ^ 31 - 1 \<Longrightarrow> sint (w + 1) = sint w + 1"
proof -
  assume w: "sint w < 2 ^ 31 - 1"
  have "- (2 ^ 31) \<le> sint w" using sint_ge [of w] by simp
  then have "signed_take_bit 31 (sint w + 1) = sint w + 1"
    using w by (intro signed_take_bit_int_eq_self) auto
  then show ?thesis by (simp add: sint_word_ariths)
qed

lemma ref_decrease_shared:
  "1 < sint (rb_refcount r) \<Longrightarrow> ref_decrease r = (r\<lparr>rb_refcount := rb_refcount r - 1\<rparr>, None)"
  by (auto simp: ref_decrease_def ATOMIC_DECREASE_def Let_def sint_dec)

lemma ref_decrease_last:
  "rb_refcount r = 1 \<Longrightarrow> ref_decrease r = (r\<lparr>rb_refcount := 0\<rparr>, rb_destroyer r)"
  by (auto simp: ref_decrease_def ATOMIC_DECREASE_def Let_def)

lemma ref_increase_eq: "ref_increase r = r\<lparr>rb_refcount := rb_refcount r + 1\<rparr>"
  by (simp add: ref_increase_def ATOMIC_INCREASE_def)

section \<open>Chains of buffers\<close>

primrec bseg :: "(addr \<rightharpoonup> buffer) \<Rightarrow> addr \<Rightarrow> addr list \<Rightarrow> addr \<Rightarrow> bool" where
  "bseg m p [] q = (p = q)"
| "bseg m p (a # as) q =
     (p = a \<and> a \<noteq> NULL \<and> (case m a of None \<Rightarrow> False | Some x \<Rightarrow> bseg m (b_next x) as q))"

abbreviation bchain :: "(addr \<rightharpoonup> buffer) \<Rightarrow> addr \<Rightarrow> addr list \<Rightarrow> bool" where
  "bchain m p as \<equiv> bseg m p as NULL"

definition bcontent :: "buffer \<Rightarrow> byte list" where
  "bcontent x = take (unat (b_size x)) (b_buf x)"

definition bwf :: "buffer \<Rightarrow> bool" where
  "bwf x \<longleftrightarrow> length (b_buf x) = unat (b_capacity x) \<and> b_size x \<le> b_capacity x"

definition cell_data :: "(addr \<rightharpoonup> buffer) \<Rightarrow> addr \<Rightarrow> byte list" where
  "cell_data m a = (case m a of None \<Rightarrow> [] | Some x \<Rightarrow> bcontent x)"

definition chain_data :: "(addr \<rightharpoonup> buffer) \<Rightarrow> addr list \<Rightarrow> byte list" where
  "chain_data m as = concat (map (cell_data m) as)"

definition chain_wf :: "(addr \<rightharpoonup> buffer) \<Rightarrow> addr list \<Rightarrow> bool" where
  "chain_wf m as \<longleftrightarrow> (\<forall>a\<in>set as. \<forall>x. m a = Some x \<longrightarrow> bwf x)"

lemma length_bcontent: "bwf x \<Longrightarrow> length (bcontent x) = unat (b_size x)"
  by (simp add: bwf_def bcontent_def word_le_nat_alt)

lemma chain_data_Nil [simp]: "chain_data m [] = []"
  and chain_data_Cons [simp]: "chain_data m (a # as) = cell_data m a @ chain_data m as"
  and chain_data_append [simp]: "chain_data m (as @ bs) = chain_data m as @ chain_data m bs"
  by (simp_all add: chain_data_def)

lemma chain_wf_simps [simp]:
  "chain_wf m []"
  "chain_wf m (a # as) \<longleftrightarrow> (\<forall>x. m a = Some x \<longrightarrow> bwf x) \<and> chain_wf m as"
  "chain_wf m (as @ bs) \<longleftrightarrow> chain_wf m as \<and> chain_wf m bs"
  by (auto simp: chain_wf_def)

lemma bseg_append [simp]: "bseg m p (as @ bs) q \<longleftrightarrow> (\<exists>r. bseg m p as r \<and> bseg m r bs q)"
  by (induction as arbitrary: p) (auto split: option.splits)

lemma bseg_NULL [simp]: "bseg m NULL as q \<longleftrightarrow> as = [] \<and> q = NULL"
  by (cases as) auto

text \<open>A segment only depends on the next pointers of its buffers.\<close>

lemma bseg_cong:
  "(\<And>a. a \<in> set as \<Longrightarrow> map_option b_next (m' a) = map_option b_next (m a)) \<Longrightarrow>
     bseg m' p as q = bseg m p as q"
proof (induction as arbitrary: p)
  case (Cons a as)
  have "bseg m' r as q = bseg m r as q" for r using Cons.prems by (intro Cons.IH) auto
  moreover have "map_option b_next (m' a) = map_option b_next (m a)" using Cons.prems by simp
  ultimately show ?case by (cases "m a"; cases "m' a") auto
qed simp

lemma bseg_upd: "a \<notin> set as \<Longrightarrow> bseg (m(a := v)) p as q = bseg m p as q"
  by (rule bseg_cong) auto

lemma bseg_dom: "bseg m p as q \<Longrightarrow> a \<in> set as \<Longrightarrow> a \<noteq> NULL \<and> (\<exists>x. m a = Some x)"
  by (induction as arbitrary: p) (auto split: option.splits)

lemma bseg_distinct: "bchain m p as \<Longrightarrow> distinct as"
proof (induction as arbitrary: p)
  case (Cons a as)
  have u: "bseg m r us NULL \<Longrightarrow> bseg m r vs NULL \<Longrightarrow> us = vs" for r us vs
  proof (induction us arbitrary: r vs)
    case Nil
    then show ?case by auto
  next
    case (Cons u us)
    then show ?case by (cases vs) (auto split: option.splits)
  qed
  have "a \<notin> set as"
  proof
    assume "a \<in> set as"
    then obtain us vs where as: "as = us @ a # vs" by (meson split_list)
    have p: "bseg m a (a # as) NULL" using Cons.prems by auto
    moreover have "bseg m a (a # vs) NULL" using Cons.prems as by (auto split: option.splits)
    ultimately have "a # as = a # vs" by (rule u)
    then show False using as by (metis append_Cons list.distinct(1) self_append_conv2)
  qed
  then show ?case using Cons by (auto split: option.splits)
qed simp

section \<open>Reading a chain\<close>

lemma cell_read:
  assumes "bwf x" and "pos \<le> b_size x" and "n \<le> unat (b_size x) - unat pos"
  shows "mem_read (unat pos) n (b_buf x) = Some (take n (drop (unat pos) (bcontent x)))"
proof -
  have le: "unat pos \<le> unat (b_size x)" "unat (b_size x) \<le> length (b_buf x)"
    using assms(1,2) by (simp_all add: bwf_def word_le_nat_alt)
  then have "unat pos + n \<le> length (b_buf x)" using assms(3) by linarith
  moreover have "take n (drop (unat pos) (take (unat (b_size x)) (b_buf x))) = take n (drop (unat pos) (b_buf x))"
    using assms(3) by (simp add: drop_take min_def)
  ultimately show ?thesis by (simp add: mem_read_def bcontent_def)
qed

lemma buffer_read_loop_done [simp]: "buffer_read_loop h b pos 0 out = Some (0, out)"
  by (simp add: buffer_read_loop.simps)

lemma buffer_read_loop_chain:
  assumes "bchain (bufs h) b ps" and "chain_wf (bufs h) ps"
    and "\<forall>x. bget h b = Some x \<longrightarrow> pos \<le> b_size x"
  shows "buffer_read_loop h b pos sz out =
     (let d = drop (unat pos) (chain_data (bufs h) ps)
      in if unat sz \<le> length d \<or> sz = 0 then Some (0, out @ take (unat sz) d) else Some (-1, out @ d))"
  using assms
proof (induction ps arbitrary: b pos sz out)
  case Nil
  then show ?case by (subst buffer_read_loop.simps) (auto simp: Let_def unat_eq_0)
next
  case (Cons a as)
  obtain x where x: "b = a" "a \<noteq> NULL" "bufs h a = Some x" "bchain (bufs h) (b_next x) as" "bwf x"
    "chain_wf (bufs h) as" "pos \<le> b_size x"
    using Cons.prems by (auto simp: bget_Some split: option.splits)
  let ?rest = "b_size x - pos" and ?c = "drop (unat pos) (bcontent x)"
  have rest: "unat ?rest = unat (b_size x) - unat pos" using x(7) by (simp add: unat_sub)
  have lc: "length ?c = unat ?rest" using length_bcontent [OF x(5)] rest by simp
  have posle: "unat pos \<le> length (bcontent x)" using x(7) length_bcontent [OF x(5)] by (simp add: word_le_nat_alt)
  have D: "drop (unat pos) (chain_data (bufs h) (a # as)) = ?c @ chain_data (bufs h) as"
    using posle x(3) by (simp add: cell_data_def)
  show ?case
  proof (cases "sz = 0")
    case True then show ?thesis by (simp add: Let_def)
  next
    case nz: False
    show ?thesis
    proof (cases "?rest > sz")
      case True
      have u: "unat sz \<le> unat (b_size x) - unat pos" using True rest by (simp add: word_less_nat_alt)
      have "\<not> pos + sz \<ge> b_size x"
      proof -
        have "unat (pos + sz) = unat pos + unat sz"
          using u x(7) by (intro unat_add_le [of _ _ "b_size x"]) (simp add: word_le_nat_alt)
        then show ?thesis using True rest by (simp add: word_le_nat_alt word_less_nat_alt)
      qed
      then have "buffer_read_loop h b pos sz out = Some (0, out @ take (unat sz) ?c)"
        using nz x True u by (subst buffer_read_loop.simps) (simp add: bget_def Let_def cell_read [OF x(5,7) u])
      moreover have "unat sz \<le> length ?c" using u lc rest by simp
      ultimately show ?thesis using D by (simp add: Let_def)
    next
      case False
      have ple: "b_size x \<le> pos + ?rest" by simp
      have rd: "mem_read (unat pos) (unat ?rest) (b_buf x) = Some ?c"
        using cell_read [OF x(5,7), of "unat ?rest"] rest lc by simp
      have "buffer_read_loop h b pos sz out = buffer_read_loop h (b_next x) 0 (sz - ?rest) (out @ ?c)"
        using nz x False ple rd by (subst buffer_read_loop.simps) (simp add: bget_def Let_def)
      also have "\<dots> = (let d = drop (unat (0::u32)) (chain_data (bufs h) as)
          in if unat (sz - ?rest) \<le> length d \<or> sz - ?rest = 0 then Some (0, (out @ ?c) @ take (unat (sz - ?rest)) d)
             else Some (-1, (out @ ?c) @ d))"
        using x by (intro Cons.IH) auto
      also have "unat (sz - ?rest) = unat sz - length ?c"
        using False lc by (simp add: unat_sub not_less)
      finally show ?thesis
        using D lc False nz unfolding Let_def
        by (auto simp: word_less_nat_alt not_less le_diff_conv unat_eq_0 simp flip: lc)
    qed
  qed
qed


section \<open>Releasing and acquiring\<close>

text \<open>A buffer that only the chain refers to, and the heap without a set of buffers.\<close>

definition sole :: "(addr \<rightharpoonup> buffer) \<Rightarrow> addr \<Rightarrow> bool" where
  "sole m a \<longleftrightarrow> (\<exists>x. m a = Some x \<and> rb_refcount (b_ref x) = 1 \<and> rb_destroyer (b_ref x) = Some Buffer_destroy)"

definition shared :: "(addr \<rightharpoonup> buffer) \<Rightarrow> addr \<Rightarrow> bool" where
  "shared m a \<longleftrightarrow> (\<exists>x. m a = Some x \<and> 1 < sint (rb_refcount (b_ref x)))"

definition dec_ref :: "buffer \<Rightarrow> buffer" where
  "dec_ref x = x\<lparr>b_ref := (b_ref x)\<lparr>rb_refcount := rb_refcount (b_ref x) - 1\<rparr>\<rparr>"

definition inc_ref :: "buffer \<Rightarrow> buffer" where
  "inc_ref x = x\<lparr>b_ref := (b_ref x)\<lparr>rb_refcount := rb_refcount (b_ref x) + 1\<rparr>\<rparr>"

lemma ref_fields [simp]:
  "b_capacity (dec_ref x) = b_capacity x" "b_size (dec_ref x) = b_size x"
  "b_next (dec_ref x) = b_next x" "b_buf (dec_ref x) = b_buf x"
  "b_capacity (inc_ref x) = b_capacity x" "b_size (inc_ref x) = b_size x"
  "b_next (inc_ref x) = b_next x" "b_buf (inc_ref x) = b_buf x"
  by (simp_all add: dec_ref_def inc_ref_def)

lemma buffer_release_shared:
  assumes "b \<noteq> NULL" "bufs h b = Some x" "1 < sint (rb_refcount (b_ref x))"
  shows "buffer_release h b = Some (bput h b (dec_ref x))"
  using assms by (simp add: buffer_release_step bget_Some ref_decrease_shared dec_ref_def)

lemma buffer_acquire_fresh:
  assumes "b \<noteq> NULL" "bufs h b = Some x"
  shows "buffer_acquire h NULL b = Some (b, bput h b (inc_ref x))"
  using assms by (auto simp: buffer_acquire_def bget_def ref_increase_eq inc_ref_def)

lemma buffer_acquire_move:
  assumes "a \<noteq> NULL" "b \<noteq> NULL" "a \<noteq> b" "bufs h a = Some x" "bufs h b = Some y"
    "1 < sint (rb_refcount (b_ref x))"
  shows "buffer_acquire h a b = Some (b, bput (bput h b (inc_ref y)) a (dec_ref x))"
proof -
  have "buffer_release (bput h b (inc_ref y)) a = Some (bput (bput h b (inc_ref y)) a (dec_ref x))"
    using assms by (intro buffer_release_shared) auto
  then show ?thesis
    using assms by (auto simp: buffer_acquire_def bget_def ref_increase_eq inc_ref_def)
qed

text \<open>
  Releasing the head of a chain frees its buffers up to the first one that somebody else refers to,
  which loses one reference.
\<close>

definition release_result :: "(addr \<rightharpoonup> buffer) \<Rightarrow> addr list \<Rightarrow> addr \<Rightarrow> (addr \<rightharpoonup> buffer)" where
  "release_result m as q =
     (\<lambda>a. if a \<in> set as then None
          else if a = q \<and> q \<noteq> NULL then map_option dec_ref (m a) else m a)"

lemma buffer_release_chain:
  assumes "bseg (bufs h) b as q" and "distinct as" and "q \<notin> set as"
    and "\<forall>a\<in>set as. sole (bufs h) a" and "q = NULL \<or> shared (bufs h) q"
  shows "buffer_release h b = Some (h\<lparr>bufs := release_result (bufs h) as q\<rparr>)"
  using assms
proof (induction as arbitrary: b h)
  case Nil
  show ?case
  proof (cases "q = NULL")
    case True
    then show ?thesis using Nil by (simp add: release_result_def)
  next
    case False
    then obtain x where "bufs h q = Some x" "1 < sint (rb_refcount (b_ref x))"
      using Nil by (auto simp: shared_def)
    moreover from this have "(bufs h)(q \<mapsto> dec_ref x) = release_result (bufs h) [] q"
      using False by (auto simp: release_result_def)
    ultimately show ?thesis
      using Nil False by (simp add: buffer_release_shared bput_def)
  qed
next
  case (Cons a as)
  obtain x where x: "b = a" "a \<noteq> NULL" "bufs h a = Some x" "bseg (bufs h) (b_next x) as q"
    "rb_refcount (b_ref x) = 1" "rb_destroyer (b_ref x) = Some Buffer_destroy"
    using Cons.prems by (auto simp: sole_def split: option.splits)
  define x0 where "x0 = x\<lparr>b_ref := (b_ref x)\<lparr>rb_refcount := 0\<rparr>\<rparr>"
  define h1 where "h1 = bput h a x0"
  have nx: "b_next x0 = b_next x" by (simp add: x0_def)
  have h1b: "bufs h1 c = bufs h c" if "c \<noteq> a" for c using that by (simp add: h1_def)
  have IH: "buffer_release h1 (b_next x) = Some (h1\<lparr>bufs := release_result (bufs h1) as q\<rparr>)"
  proof (rule Cons.IH)
    show "bseg (bufs h1) (b_next x) as q"
      using x(4) Cons.prems(2) by (simp add: h1_def bseg_upd)
    show "\<forall>c\<in>set as. sole (bufs h1) c"
    proof
      fix c assume c: "c \<in> set as"
      then have "sole (bufs h) c" "c \<noteq> a" using Cons.prems(2,4) by auto
      then show "sole (bufs h1) c" using h1b [of c] by (simp add: sole_def)
    qed
    show "q = NULL \<or> shared (bufs h1) q"
      using Cons.prems(3,5) h1b by (auto simp: shared_def)
  qed (use Cons.prems in auto)
  have a: "a \<notin> set as" "a \<noteq> q" using Cons.prems by auto
  have "buffer_release h b = buffer_destroy h1 a"
    using x by (simp add: buffer_release_step bget_Some ref_decrease_last h1_def x0_def)
  also have "\<dots> = Some (h\<lparr>bufs := release_result (bufs h) (a # as) q\<rparr>)"
  proof (cases "b_next x = NULL")
    case True
    then have e: "as = []" "q = NULL" using x(4) by simp_all
    then have "(bufs h1)(a := None) = release_result (bufs h) (a # as) q"
      by (auto simp: release_result_def h1_def)
    then show ?thesis
      using True x(2) by (simp add: buffer_destroy_def h1_def bget_def bput_def bfree_def nx)
  next
    case False
    let ?m = "release_result (bufs h1) as q"
    have "?m a = Some x0" using a by (simp add: release_result_def h1_def)
    moreover have "?m(a := None) = release_result (bufs h) (a # as) q"
      using a by (auto simp: release_result_def h1_def)
    ultimately show ?thesis
      using False x(2) IH by (simp add: buffer_destroy_def h1_def bget_def bput_def bfree_def nx)
  qed
  finally show ?case .
qed

section \<open>Properties\<close>

text \<open>Reading sz bytes at a position of the first buffer of a well-formed chain returns 0 with
  exactly those bytes of the chain's contents, however they are split over buffers; when the chain is
  too short it returns -1 after copying everything that was left.\<close>

theorem buffer_read_chain:
  assumes "bchain (bufs h) b ps" and "chain_wf (bufs h) ps"
    and "\<forall>x. bget h b = Some x \<longrightarrow> pos \<le> b_size x"
  shows "buffer_read h b pos sz =
    (let d = drop (unat pos) (chain_data (bufs h) ps)
     in if unat sz \<le> length d then Some (0, take (unat sz) d) else Some (-1, d))"
  using buffer_read_loop_chain [OF assms, of sz "[]"] by (auto simp: buffer_read_def Let_def)

text \<open>Releasing the only reference to the head of a chain frees the buffers of the chain, in one
  go, up to the first one that is referred to from elsewhere; that one survives with one reference
  less, and no other buffer of the heap changes.\<close>

theorem buffer_release_frees:
  assumes "bseg (bufs h) b as q" and "distinct as" and "q \<notin> set as"
    and "\<forall>a\<in>set as. sole (bufs h) a" and "q = NULL \<or> shared (bufs h) q"
  shows "\<exists>h'. buffer_release h b = Some h' \<and> (\<forall>a\<in>set as. bufs h' a = None) \<and>
    (q \<noteq> NULL \<longrightarrow> bufs h' q = map_option dec_ref (bufs h q)) \<and>
    (\<forall>a. a \<notin> set as \<and> a \<noteq> q \<longrightarrow> bufs h' a = bufs h a)"
  using buffer_release_chain [OF assms] assms(3) by (auto simp: release_result_def)

text \<open>Acquiring a live buffer and releasing it again is the identity on the heap: no buffer is
  freed and every count is what it was, for every count from 1 to the last before int32 overflow.\<close>

theorem buffer_acquire_release:
  assumes "b \<noteq> NULL" and "bufs h b = Some x"
    and "1 \<le> sint (rb_refcount (b_ref x))" and "sint (rb_refcount (b_ref x)) < 2 ^ 31 - 1"
  shows "do { (a, h) \<leftarrow> buffer_acquire h NULL b; buffer_release h a } = Some h"
proof -
  have "buffer_release (bput h b (inc_ref x)) b = Some (bput (bput h b (inc_ref x)) b (dec_ref (inc_ref x)))"
    using assms by (intro buffer_release_shared) (auto simp: inc_ref_def sint_inc)
  moreover have "dec_ref (inc_ref x) = x" by (simp add: dec_ref_def inc_ref_def)
  moreover have "(bufs h)(b \<mapsto> x) = bufs h" using assms(2) by auto
  ultimately show ?thesis
    using assms(1,2) by (simp add: buffer_acquire_fresh bput_def)
qed

definition heap_two :: bheap where
  "heap_two = \<lparr>bufs = [1 \<mapsto> \<lparr>b_ref = \<lparr>rb_refcount = 1, rb_mt = 1, rb_destroyer = Some Buffer_destroy\<rparr>,
       b_capacity = 4, b_size = 4, b_next = 2, b_buf = [10, 11, 12, 13]\<rparr>,
     2 \<mapsto> \<lparr>b_ref = \<lparr>rb_refcount = 1, rb_mt = 0, rb_destroyer = Some Buffer_destroy\<rparr>,
       b_capacity = 4, b_size = 2, b_next = 0, b_buf = [14, 15, 0, 0]\<rparr>], fresh = 3, avail = 10\<rparr>"

lemma heap_two_chain: "bchain (bufs heap_two) 1 [1, 2]" "chain_wf (bufs heap_two) [1, 2]"
  by (simp_all add: heap_two_def chain_wf_def bwf_def)

lemma buffer_read_chain_witness:
  "buffer_read heap_two 1 2 3 = Some (0, [12, 13, 14]) \<and> buffer_read heap_two 1 2 9 = Some (-1, [12, 13, 14, 15])"
  using buffer_read_chain [OF heap_two_chain, of 2 3] buffer_read_chain [OF heap_two_chain, of 2 9]
  by (simp add: heap_two_def bget_def chain_data_def cell_data_def bcontent_def)

lemma buffer_release_frees_witness:
  "\<exists>h'. buffer_release heap_two 1 = Some h' \<and> (\<forall>a\<in>set [1, 2]. bufs h' a = None) \<and>
    (NULL \<noteq> NULL \<longrightarrow> bufs h' NULL = map_option dec_ref (bufs heap_two NULL)) \<and>
    (\<forall>a. a \<notin> set [1, 2] \<and> a \<noteq> NULL \<longrightarrow> bufs h' a = bufs heap_two a)"
  by (rule buffer_release_frees) (auto simp: heap_two_def sole_def)

lemma buffer_acquire_release_witness:
  "do { (a, h) \<leftarrow> buffer_acquire heap_two NULL 2; buffer_release h a } = Some heap_two"
  by (rule buffer_acquire_release) (auto simp: heap_two_def)

end
