(* ===== verification/Wpacket.thy ===== *)
theory Wpacket
  imports Pow2 Buffers
begin

text \<open>
  Write packets: src/epoll_mutilthread/include/wpacket.h and the packet part of src/wpacket.c.  A
  packet is a value (one owner holds it); its bytes live in a chain of buffers on the heap.  The
  source of a write is the list of the bytes behind the code's pointer.  Words are stored
  little-endian, as on the x86 the code is written for; a double is its 64-bit pattern.
\<close>

section \<open>State\<close>

datatype msg_type =
    MSG_RPACKET | MSG_WPACKET | MSG_NEW_CONNECTION | MSG_DISCONNECTED | MSG_ACTIVE_CLOSE
  | MSG_SEND_BLOCK | MSG_SET_RECV_TIMEOUT | MSG_SET_SEND_TIMEOUT | MSG_USER_TIMER_TIMEOUT | MSG_END

text \<open>
  The pointer w_len addresses the first four bytes of a buffer's data: it is that buffer's address,
  or NULL.
\<close>

record wpacket =
  w_next :: addr
  w_type :: msg_type
  w_len :: addr
  w_buf :: addr
  w_writebuf :: addr
  w_wpos :: u32
  w_factor :: u8
  w_begin_pos :: u32
  w_data_size :: u32
  w_raw :: u8
  w_mt :: u8
  w_usr_data :: u64
  w_send_finish :: addr
  w_allocator :: addr
  w_send_tick :: u32

record write_pos =
  wp_buf :: addr
  wp_wpos :: u32

text \<open>Reading and writing the 32-bit length through \<^verbatim>\<open>*(w->len)\<close>.\<close>

definition len_get :: "bheap \<Rightarrow> addr \<Rightarrow> u32 option" where
  "len_get h a = do { x \<leftarrow> bget h a; bs \<leftarrow> mem_read 0 4 (b_buf x); Some (le_word bs) }"

definition len_set :: "bheap \<Rightarrow> addr \<Rightarrow> u32 \<Rightarrow> bheap option" where
  "len_set h a v = do {
     x \<leftarrow> bget h a;
     m \<leftarrow> mem_write 0 (le_bytes v) (b_buf x);
     Some (bput h a (x\<lparr>b_buf := m\<rparr>))
   }"

section \<open>Creation\<close>

definition wpacket_create :: "bheap \<Rightarrow> u8 \<Rightarrow> addr \<Rightarrow> u32 \<Rightarrow> u8 \<Rightarrow> (wpacket \<times> bheap) option" where
  "wpacket_create h mt allo sz is_raw = do {
     let sz = GetSize_of_pow2 sz;
     h \<leftarrow> obj_alloc h;
     (b, h) \<leftarrow> buffer_create_and_acquire h mt NULL sz;
     (wb, h) \<leftarrow> buffer_acquire h NULL b;
     let w = \<lparr>w_next = NULL, w_type = MSG_WPACKET, w_len = NULL, w_buf = b, w_writebuf = wb,
              w_wpos = 0, w_factor = ucast sz, w_begin_pos = 0, w_data_size = 0, w_raw = is_raw,
              w_mt = mt, w_usr_data = 0, w_send_finish = NULL, w_allocator = allo,
              w_send_tick = 0\<rparr>;
     if is_raw \<noteq> 0 then do {
       x \<leftarrow> bget h b;
       Some (w, bput h b (x\<lparr>b_size := 0\<rparr>))
     }
     else do {
       let w = w\<lparr>w_wpos := 4, w_len := b\<rparr>;
       h \<leftarrow> len_set h (w_len w) 0;
       x \<leftarrow> bget h b;
       Some (w\<lparr>w_data_size := 4\<rparr>, bput h b (x\<lparr>b_size := 4\<rparr>))
     }
   }"

definition wpacket_get_writepos :: "wpacket \<Rightarrow> write_pos" where
  "wpacket_get_writepos w = \<lparr>wp_buf = w_writebuf w, wp_wpos = w_wpos w\<rparr>"

definition wpacket_destroy :: "bheap \<Rightarrow> wpacket \<Rightarrow> bheap option" where
  "wpacket_destroy h w = do { h \<leftarrow> buffer_release h (w_buf w); buffer_release h (w_writebuf w) }"

section \<open>Writing\<close>

text \<open>The growth factor is a uint8_t: the shift drops its top bit.\<close>

definition wpacket_expand :: "bheap \<Rightarrow> wpacket \<Rightarrow> (wpacket \<times> bheap) option" where
  "wpacket_expand h w = do {
     let w = w\<lparr>w_factor := push_bit 1 (w_factor w)\<rparr>;
     let sz = (ucast (w_factor w) :: u32);
     (nb, h) \<leftarrow> buffer_create_and_acquire h (w_mt w) NULL sz;
     x \<leftarrow> bget h (w_writebuf w);
     let h = bput h (w_writebuf w) (x\<lparr>b_next := nb\<rparr>);
     x \<leftarrow> bget h (w_writebuf w);
     (wb, h) \<leftarrow> buffer_acquire h (w_writebuf w) (b_next x);
     Some (w\<lparr>w_writebuf := wb, w_wpos := 0\<rparr>, h)
   }"

text \<open>The loop of wpacket_copy: off is how far ptr has moved into the target buffer.\<close>

partial_function (option) wpacket_copy_loop ::
    "bheap \<Rightarrow> wpacket \<Rightarrow> addr \<Rightarrow> nat \<Rightarrow> addr \<Rightarrow> (wpacket \<times> bheap) option" where
  "wpacket_copy_loop h w buf off tmp_buf =
     (if tmp_buf = NULL then Some (w, h)
      else Option.bind (bget h tmp_buf) (\<lambda>t.
        let copy_size = b_size t - w_wpos w
        in Option.bind (mem_read 0 (unat copy_size) (b_buf t)) (\<lambda>bs.
           Option.bind (bget h buf) (\<lambda>x.
           Option.bind (mem_write off bs (b_buf x)) (\<lambda>m.
             wpacket_copy_loop (bput h buf (x\<lparr>b_buf := m\<rparr>)) (w\<lparr>w_wpos := 0\<rparr>) buf
               (off + unat copy_size) (b_next t))))))"

definition wpacket_copy :: "bheap \<Rightarrow> wpacket \<Rightarrow> addr \<Rightarrow> (wpacket \<times> bheap) option" where
  "wpacket_copy h w buf = wpacket_copy_loop h w buf 0 (w_buf w)"

text \<open>
  One copy of the loop of wpacket_write, after the space has been made: n bytes of ptr go to the
  write position, the buffer's size, the length field (if there is one), the position and the total
  grow by n.
\<close>

definition wpacket_put :: "bheap \<Rightarrow> wpacket \<Rightarrow> byte list \<Rightarrow> u32 \<Rightarrow> (wpacket \<times> bheap) option" where
  "wpacket_put h w ptr n = do {
     x \<leftarrow> bget h (w_writebuf w);
     bs \<leftarrow> mem_read 0 (unat n) ptr;
     m \<leftarrow> mem_write (unat (w_wpos w)) bs (b_buf x);
     let h = bput h (w_writebuf w) (x\<lparr>b_buf := m, b_size := b_size x + n\<rparr>);
     h \<leftarrow> (if w_len w \<noteq> NULL
           then do { v \<leftarrow> len_get h (w_len w); len_set h (w_len w) (v + n) }
           else Some h);
     Some (w\<lparr>w_wpos := w_wpos w + n, w_data_size := w_data_size w + n\<rparr>, h)
   }"

partial_function (option) wpacket_write_loop ::
    "bheap \<Rightarrow> wpacket \<Rightarrow> byte list \<Rightarrow> u32 \<Rightarrow> (wpacket \<times> bheap) option" where
  "wpacket_write_loop h w ptr sz =
     (if sz = 0 then Some (w, h)
      else Option.bind (bget h (w_writebuf w)) (\<lambda>x.
        Option.bind
          (if b_capacity x - w_wpos w = 0
           then Option.bind (wpacket_expand h w) (\<lambda>(w, h). Option.bind (bget h (w_writebuf w)) (\<lambda>x.
                  Some (b_capacity x - w_wpos w, w, h)))
           else Some (b_capacity x - w_wpos w, w, h))
          (\<lambda>(copy_size, w, h).
            let copy_size = (if copy_size > sz then sz else copy_size)
            in Option.bind (wpacket_put h w ptr copy_size) (\<lambda>(w, h).
                 wpacket_write_loop h w (drop (unat copy_size) ptr) (sz - copy_size)))))"

definition wpacket_write :: "bheap \<Rightarrow> wpacket \<Rightarrow> byte list \<Rightarrow> u32 \<Rightarrow> (wpacket \<times> bheap) option" where
  "wpacket_write h w ptr sz = do {
     (w, h) \<leftarrow> (if w_writebuf w = NULL then do {
         len \<leftarrow> len_get h (w_len w);
         let w = w\<lparr>w_factor := ucast (GetSize_of_pow2 len)\<rparr>;
         (tmp, h) \<leftarrow> buffer_create_and_acquire h (w_mt w) NULL (ucast (w_factor w));
         (w, h) \<leftarrow> wpacket_copy h w tmp;
         let w = w\<lparr>w_begin_pos := 0\<rparr>;
         let w = (if w_raw w = 0 then w\<lparr>w_len := tmp, w_wpos := 4\<rparr> else w);
         (b, h) \<leftarrow> buffer_acquire h (w_buf w) tmp;
         let w = w\<lparr>w_buf := b\<rparr>;
         (wb, h) \<leftarrow> buffer_acquire h (w_writebuf w) (w_buf w);
         Some (w\<lparr>w_writebuf := wb\<rparr>, h)
       }
       else Some (w, h));
     wpacket_write_loop h w ptr sz
   }"

definition wpacket_write_uint8 :: "bheap \<Rightarrow> wpacket \<Rightarrow> u8 \<Rightarrow> (wpacket \<times> bheap) option" where
  "wpacket_write_uint8 h w v = wpacket_write h w (le_bytes v) 1"

definition wpacket_write_uint16 :: "bheap \<Rightarrow> wpacket \<Rightarrow> u16 \<Rightarrow> (wpacket \<times> bheap) option" where
  "wpacket_write_uint16 h w v = wpacket_write h w (le_bytes v) 2"

definition wpacket_write_uint32 :: "bheap \<Rightarrow> wpacket \<Rightarrow> u32 \<Rightarrow> (wpacket \<times> bheap) option" where
  "wpacket_write_uint32 h w v = wpacket_write h w (le_bytes v) 4"

definition wpacket_write_uint64 :: "bheap \<Rightarrow> wpacket \<Rightarrow> u64 \<Rightarrow> (wpacket \<times> bheap) option" where
  "wpacket_write_uint64 h w v = wpacket_write h w (le_bytes v) 8"

definition wpacket_write_double :: "bheap \<Rightarrow> wpacket \<Rightarrow> u64 \<Rightarrow> (wpacket \<times> bheap) option" where
  "wpacket_write_double h w bits = wpacket_write h w (le_bytes bits) 8"

definition wpacket_write_binary :: "bheap \<Rightarrow> wpacket \<Rightarrow> byte list \<Rightarrow> u32 \<Rightarrow> (wpacket \<times> bheap) option" where
  "wpacket_write_binary h w val sz = do {
     (w, h) \<leftarrow> (if w_raw w = 0 then wpacket_write_uint32 h w sz else Some (w, h));
     wpacket_write h w val sz
   }"

text \<open>strlen of the memory behind a char pointer; without a terminator it runs off the end.\<close>

definition c_strlen :: "byte list \<Rightarrow> nat option" where
  "c_strlen s = (if 0 \<in> set s then Some (length (takeWhile (\<lambda>c. c \<noteq> 0) s)) else None)"

definition wpacket_write_string :: "bheap \<Rightarrow> wpacket \<Rightarrow> byte list \<Rightarrow> (wpacket \<times> bheap) option" where
  "wpacket_write_string h w val = do {
     n \<leftarrow> c_strlen val;
     if w_raw w \<noteq> 0 then wpacket_write_binary h w val (of_nat n)
     else wpacket_write_binary h w val (of_nat (n + 1))
   }"

section \<open>Rewriting at a saved position\<close>

text \<open>
  pos is a local of the code; the buffer pointer is the caller's and moves along the chain.  The
  assertion that there is a next buffer is None when it fails.
\<close>

partial_function (option) wpacket_rewrite_loop ::
    "bheap \<Rightarrow> write_pos \<Rightarrow> byte list \<Rightarrow> u32 \<Rightarrow> u32 \<Rightarrow> (write_pos \<times> bheap) option" where
  "wpacket_rewrite_loop h wp ptr pos sz =
     (if sz = 0 then Some (wp, h)
      else Option.bind (bget h (wp_buf wp)) (\<lambda>x.
        let copy_size = b_capacity x - pos;
            copy_size = (if copy_size > sz then sz else copy_size)
        in Option.bind (mem_read 0 (unat copy_size) ptr) (\<lambda>bs.
           Option.bind (mem_write (unat pos) bs (b_buf x)) (\<lambda>m.
             let h = bput h (wp_buf wp) (x\<lparr>b_buf := m\<rparr>);
                 ptr = drop (unat copy_size) ptr;
                 sz = sz - copy_size;
                 pos = pos + copy_size
             in if sz \<noteq> 0 \<and> pos \<ge> b_capacity x
                then (if b_next x = NULL then None
                      else wpacket_rewrite_loop h (wp\<lparr>wp_buf := b_next x\<rparr>) ptr 0 sz)
                else wpacket_rewrite_loop h wp ptr pos sz))))"

definition wpacket_rewrite :: "bheap \<Rightarrow> write_pos \<Rightarrow> byte list \<Rightarrow> u32 \<Rightarrow> (write_pos \<times> bheap) option" where
  "wpacket_rewrite h wp ptr sz = wpacket_rewrite_loop h wp ptr (wp_wpos wp) sz"

definition wpacket_rewrite_uint8 :: "bheap \<Rightarrow> write_pos \<Rightarrow> u8 \<Rightarrow> (write_pos \<times> bheap) option" where
  "wpacket_rewrite_uint8 h wp v = wpacket_rewrite h wp (le_bytes v) 1"

definition wpacket_rewrite_uint16 :: "bheap \<Rightarrow> write_pos \<Rightarrow> u16 \<Rightarrow> (write_pos \<times> bheap) option" where
  "wpacket_rewrite_uint16 h wp v = wpacket_rewrite h wp (le_bytes v) 2"

definition wpacket_rewrite_uint32 :: "bheap \<Rightarrow> write_pos \<Rightarrow> u32 \<Rightarrow> (write_pos \<times> bheap) option" where
  "wpacket_rewrite_uint32 h wp v = wpacket_rewrite h wp (le_bytes v) 4"

definition wpacket_rewrite_uint64 :: "bheap \<Rightarrow> write_pos \<Rightarrow> u64 \<Rightarrow> (write_pos \<times> bheap) option" where
  "wpacket_rewrite_uint64 h wp v = wpacket_rewrite h wp (le_bytes v) 8"

definition wpacket_rewrite_double :: "bheap \<Rightarrow> write_pos \<Rightarrow> u64 \<Rightarrow> (write_pos \<times> bheap) option" where
  "wpacket_rewrite_double h wp bits = wpacket_rewrite h wp (le_bytes bits) 8"

section \<open>Heaps and growth\<close>

definition heap_ok :: "bheap \<Rightarrow> bool" where
  "heap_ok h \<longleftrightarrow> 0 < fresh h \<and> (\<forall>a. fresh h \<le> a \<longrightarrow> bufs h a = None)"

definition refs_ok :: "(addr \<rightharpoonup> buffer) \<Rightarrow> addr list \<Rightarrow> bool" where
  "refs_ok m as \<longleftrightarrow>
     (\<forall>a\<in>set as. \<forall>x. m a = Some x \<longrightarrow>
        1 \<le> sint (rb_refcount (b_ref x)) \<and> sint (rb_refcount (b_ref x)) < 2 ^ 30)"

definition full :: "(addr \<rightharpoonup> buffer) \<Rightarrow> addr \<Rightarrow> bool" where
  "full m a \<longleftrightarrow> (\<exists>x. m a = Some x \<and> b_size x = b_capacity x)"

text \<open>What the buffers still to come can hold, and how many of them have any room.\<close>

definition exp_room :: "u8 \<Rightarrow> nat" where
  "exp_room f = sum_list (map (\<lambda>j. unat (push_bit j f)) [1..<9])"

definition exp_count :: "u8 \<Rightarrow> nat" where
  "exp_count f = sum_list (map (\<lambda>j. if push_bit j f \<noteq> 0 then 1 else 0) [1..<9])"

definition room :: "bheap \<Rightarrow> wpacket \<Rightarrow> nat" where
  "room h w = (case bget h (w_writebuf w) of None \<Rightarrow> 0
     | Some x \<Rightarrow> unat (b_capacity x) - unat (w_wpos w)) + exp_room (w_factor w)"

lemma push_bit_8 [simp]: "8 \<le> n \<Longrightarrow> push_bit n (f :: u8) = 0"
  by (rule bit_word_eqI) (simp add: bit_simps)

lemma shift_sum:
  fixes g :: "nat \<Rightarrow> nat"
  assumes "g 9 = 0"
  shows "sum_list (map g [1..<9]) = g 1 + sum_list (map (\<lambda>j. g (Suc j)) [1..<9])"
  using assms by (simp add: upt_rec numeral_eq_Suc)

lemma push_bit_Suc_1: "push_bit (Suc j) (f :: u8) = push_bit j (push_bit 1 f)"
  by (metis add.commute plus_1_eq_Suc push_bit_push_bit)

lemma exp_room_step: "exp_room f = unat (push_bit 1 f) + exp_room (push_bit 1 f)"
  unfolding exp_room_def push_bit_Suc_1 [symmetric] by (rule shift_sum) simp

lemma exp_count_step:
  assumes "push_bit 1 f \<noteq> 0"
  shows "exp_count f = Suc (exp_count (push_bit 1 f))"
proof -
  have "exp_count f = (if push_bit 1 f \<noteq> 0 then 1 else 0) + exp_count (push_bit 1 f)"
    unfolding exp_count_def push_bit_Suc_1 [symmetric] by (rule shift_sum) simp
  with assms show ?thesis by simp
qed

lemma exp_room_0:
  assumes "push_bit 1 f = 0"
  shows "exp_room f = 0"
proof -
  have "\<forall>j\<in>set [1..<9]. unat (push_bit j f) = 0"
  proof
    fix j :: nat assume "j \<in> set [1..<9]"
    then obtain i where "j = Suc i" by (auto simp: Suc_le_eq dest: gr0_implies_Suc)
    then show "unat (push_bit j f) = 0" by (simp only: push_bit_Suc_1 assms push_bit_of_0 unsigned_0)
  qed
  then show ?thesis unfolding exp_room_def by (simp only: sum_list_eq_0_iff set_map) auto
qed

section \<open>What a packet stands for\<close>

text \<open>
  A packet stands for its payload.  A packet that is not raw starts with the payload's length.
\<close>

definition w_header :: "wpacket \<Rightarrow> byte list \<Rightarrow> byte list" where
  "w_header w pl = (if w_raw w \<noteq> 0 then [] else le_bytes (of_nat (length pl) :: u32))"

definition wrepr :: "bheap \<Rightarrow> wpacket \<Rightarrow> addr list \<Rightarrow> byte list \<Rightarrow> bool" where
  "wrepr h w ps pl \<longleftrightarrow>
     heap_ok h \<and> bchain (bufs h) (w_buf w) ps \<and> ps \<noteq> [] \<and> chain_wf (bufs h) ps \<and> refs_ok (bufs h) ps \<and>
     w_writebuf w = last ps \<and> shared (bufs h) (last ps) \<and>
     (\<forall>a\<in>set (butlast ps). full (bufs h) a) \<and>
     (\<exists>x. bufs h (last ps) = Some x \<and> b_size x = w_wpos w) \<and>
     chain_data (bufs h) ps = w_header w pl @ pl \<and>
     (if w_raw w \<noteq> 0 then w_len w = NULL
      else w_len w = w_buf w \<and> (\<exists>x. bufs h (hd ps) = Some x \<and> 4 \<le> unat (b_size x))) \<and>
     w_data_size w = of_nat (length (w_header w pl @ pl)) \<and> length (w_header w pl @ pl) < 2 ^ 32 \<and>
     w_begin_pos w = 0"

lemma chain_data_cong: "(\<And>a. a \<in> set as \<Longrightarrow> cell_data m' a = cell_data m a) \<Longrightarrow> chain_data m' as = chain_data m as"
  by (induction as) auto

lemma chain_data_last:
  assumes "distinct as" "as \<noteq> []" "cell_data m' (last as) = cell_data m (last as) @ bs"
    "\<And>a. a \<in> set (butlast as) \<Longrightarrow> cell_data m' a = cell_data m a"
  shows "chain_data m' as = chain_data m as @ bs"
proof -
  obtain us u where as: "as = us @ [u]" using assms(2) by (metis rev_exhaust)
  have "chain_data m' us = chain_data m us" using assms(4) as by (intro chain_data_cong) auto
  then show ?thesis using assms(3) as by simp
qed

lemma chain_data_hd:
  assumes "distinct as" "as \<noteq> []" "cell_data m' (hd as) = bs @ drop n (cell_data m (hd as))"
    "n \<le> length (cell_data m (hd as))"
    "\<And>a. a \<in> set (tl as) \<Longrightarrow> cell_data m' a = cell_data m a"
  shows "chain_data m' as = bs @ drop n (chain_data m as)"
proof -
  obtain u us where as: "as = u # us" using assms(2) by (meson neq_Nil_conv)
  have "chain_data m' us = chain_data m us" using assms(5) as by (intro chain_data_cong) auto
  then show ?thesis using assms(3,4) as by simp
qed

lemma length_le_bytes_u [simp]:
  "length (le_bytes (v8 :: u8)) = 1" "length (le_bytes (v16 :: u16)) = 2"
  "length (le_bytes (v32 :: u32)) = 4" "length (le_bytes (v64 :: u64)) = 8"
  by (simp_all add: length_le_bytes)

lemma le_word_le_bytes_u [simp]:
  "le_word (le_bytes (v8 :: u8)) = v8" "le_word (le_bytes (v16 :: u16)) = v16"
  "le_word (le_bytes (v32 :: u32)) = v32" "le_word (le_bytes (v64 :: u64)) = v64"
  by (simp_all add: le_word_le_bytes)

text \<open>The length field, read and written in the first cell.\<close>

lemma len_get_cell:
  assumes "a \<noteq> NULL" "bufs h a = Some x" "bwf x" "4 \<le> unat (b_size x)"
  shows "len_get h a = Some (le_word (take 4 (bcontent x)))"
  using assms by (auto simp: len_get_def bget_def mem_read_def bcontent_def bwf_def word_le_nat_alt min_def)

lemma len_set_cell:
  assumes "a \<noteq> NULL" "bufs h a = Some x" "bwf x" "4 \<le> unat (b_size x)"
  obtains y where "len_set h a v = Some (bput h a y)" "b_ref y = b_ref x" "b_capacity y = b_capacity x"
    "b_size y = b_size x" "b_next y = b_next x" "bwf y" "bcontent y = le_bytes v @ drop 4 (bcontent x)"
proof -
  let ?m = "le_bytes v @ drop 4 (b_buf x)"
  have l: "4 \<le> length (b_buf x)" using assms(3,4) by (simp add: bwf_def word_le_nat_alt)
  have "len_set h a v = Some (bput h a (x\<lparr>b_buf := ?m\<rparr>))"
    using assms(1,2) l by (simp add: len_set_def bget_def mem_write_def)
  moreover have "bcontent (x\<lparr>b_buf := ?m\<rparr>) = le_bytes v @ drop 4 (bcontent x)"
    using assms(4) l by (simp add: bcontent_def drop_take)
  moreover have "bwf (x\<lparr>b_buf := ?m\<rparr>)" using assms(3) l by (simp add: bwf_def)
  ultimately show thesis using that [of "x\<lparr>b_buf := ?m\<rparr>"] by simp
qed

section \<open>Stores into a buffer's data\<close>

text \<open>Two buffer maps with the same links, counts and capacities.\<close>

definition same_links :: "(addr \<rightharpoonup> buffer) \<Rightarrow> (addr \<rightharpoonup> buffer) \<Rightarrow> bool" where
  "same_links m m' \<longleftrightarrow>
     (\<forall>a. map_option (\<lambda>x. (b_next x, b_ref x, b_capacity x)) (m' a) =
          map_option (\<lambda>x. (b_next x, b_ref x, b_capacity x)) (m a))"

lemma same_linksD:
  assumes "same_links m m'" "m' a = Some y"
  obtains x where "m a = Some x" "b_next x = b_next y" "b_ref x = b_ref y" "b_capacity x = b_capacity y"
proof -
  have "map_option (\<lambda>x. (b_next x, b_ref x, b_capacity x)) (m' a) =
      map_option (\<lambda>x. (b_next x, b_ref x, b_capacity x)) (m a)"
    using assms(1) by (simp add: same_links_def)
  with assms(2) that show thesis by (cases "m a") auto
qed

lemma same_links_sym: "same_links m m' \<Longrightarrow> same_links m' m"
  by (simp add: same_links_def)

lemma same_links_trans: "same_links m m' \<Longrightarrow> same_links m' m'' \<Longrightarrow> same_links m m''"
  by (simp add: same_links_def)

lemma same_links_upd:
  "m a = Some x \<Longrightarrow> b_next y = b_next x \<Longrightarrow> b_ref y = b_ref x \<Longrightarrow> b_capacity y = b_capacity x \<Longrightarrow>
     same_links m (m(a \<mapsto> y))"
  by (simp add: same_links_def)

lemma same_links_bseg: "same_links m m' \<Longrightarrow> bseg m' p as q = bseg m p as q"
proof (rule bseg_cong)
  fix a assume "same_links m m'"
  then have "map_option (\<lambda>x. (b_next x, b_ref x, b_capacity x)) (m' a) =
      map_option (\<lambda>x. (b_next x, b_ref x, b_capacity x)) (m a)"
    by (simp add: same_links_def)
  then show "map_option b_next (m' a) = map_option b_next (m a)"
    by (cases "m a"; cases "m' a") auto
qed

lemma same_links_refs: "same_links m m' \<Longrightarrow> refs_ok m as \<Longrightarrow> refs_ok m' as"
  unfolding refs_ok_def by (metis same_linksD)

lemma same_links_shared: "same_links m m' \<Longrightarrow> shared m a \<Longrightarrow> shared m' a"
  unfolding shared_def by (metis same_linksD same_links_sym)

lemma same_links_None: "same_links m m' \<Longrightarrow> m' a = None \<longleftrightarrow> m a = None"
proof -
  assume "same_links m m'"
  then have "map_option (\<lambda>x. (b_next x, b_ref x, b_capacity x)) (m' a) =
      map_option (\<lambda>x. (b_next x, b_ref x, b_capacity x)) (m a)"
    by (simp add: same_links_def)
  then show ?thesis by (cases "m a"; cases "m' a") auto
qed

lemma same_links_heap_ok:
  "same_links (bufs h) (bufs h') \<Longrightarrow> fresh h' = fresh h \<Longrightarrow> heap_ok h \<Longrightarrow> heap_ok h'"
  by (simp add: heap_ok_def same_links_None)

lemma last_cell:
  assumes "wrepr h w ps pl"
  obtains x where "bufs h (last ps) = Some x" "w_writebuf w = last ps" "last ps \<noteq> NULL"
    "bwf x" "b_size x = w_wpos w" "bget h (w_writebuf w) = Some x" "w_wpos w \<le> b_capacity x"
proof -
  have l: "last ps \<in> set ps" using assms by (simp add: wrepr_def)
  obtain x where x: "bufs h (last ps) = Some x" "b_size x = w_wpos w" using assms by (auto simp: wrepr_def)
  have "bwf x" using assms x(1) l by (auto simp: wrepr_def chain_wf_def)
  moreover have "last ps \<noteq> NULL"
  proof -
    have "bchain (bufs h) (w_buf w) ps" using assms by (simp add: wrepr_def)
    then show ?thesis using bseg_dom l by blast
  qed
  moreover have "w_writebuf w = last ps" using assms by (simp add: wrepr_def)
  ultimately show thesis using that x by (auto simp: bget_def bwf_def)
qed

lemma bcontent_append:
  assumes "bwf x" and "unat (b_size x) + length bs \<le> unat (b_capacity x)" and "unat n = length bs"
    and y: "y = x\<lparr>b_buf := take (unat (b_size x)) (b_buf x) @ bs @ drop (unat (b_size x) + length bs) (b_buf x),
      b_size := b_size x + n\<rparr>"
  shows "mem_write (unat (b_size x)) bs (b_buf x) = Some (b_buf y)"
    and "bcontent y = bcontent x @ bs" and "bwf y"
proof -
  have l: "length (b_buf x) = unat (b_capacity x)" using assms(1) by (simp add: bwf_def)
  then show "mem_write (unat (b_size x)) bs (b_buf x) = Some (b_buf y)"
    using assms(2) by (simp add: mem_write_def y)
  have u: "unat (b_size x + n) = unat (b_size x) + length bs"
    using assms(2,3) by (subst unat_add_le [of _ _ "b_capacity x"]) auto
  show "bcontent y = bcontent x @ bs"
    using assms(2) l by (simp add: bcontent_def u y)
  show "bwf y"
    using assms(2) l by (simp add: bwf_def u word_le_nat_alt y)
qed

lemma butlast_not_last: "distinct xs \<Longrightarrow> a \<in> set (butlast xs) \<Longrightarrow> a \<noteq> last xs"
  by (cases xs rule: rev_cases) auto

text \<open>The header of a packet whose last cell has just grown.\<close>

lemma header_update:
  assumes "bchain m p ps" "ps \<noteq> []" "chain_wf m ps" "m = bufs h"
    and "chain_data m ps = le_bytes v @ d" "m (hd ps) = Some z" "4 \<le> unat (b_size z)"
  obtains y where "len_get h p = Some v" "len_set h p u = Some (bput h p y)" "p = hd ps"
    "same_links m (m(p \<mapsto> y))" "b_size y = b_size z" "bwf y"
    "chain_data (m(p \<mapsto> y)) ps = le_bytes (u :: u32) @ d"
proof -
  obtain as where ps: "ps = p # as" using assms(1,2) by (cases ps) auto
  have pn: "p \<noteq> NULL" using assms(1) ps by auto
  have z: "bufs h p = Some z" "bwf z" using assms(3,4,6) ps by auto
  have lz: "length (bcontent z) = unat (b_size z)" by (rule length_bcontent [OF z(2)])
  have cd: "chain_data m ps = bcontent z @ chain_data m as"
    using ps z(1) assms(4) by (simp add: cell_data_def)
  have "take 4 (bcontent z) = take 4 (chain_data m ps)" using cd lz assms(7) by simp
  also have "\<dots> = le_bytes v" using assms(5) by simp
  finally have g: "len_get h p = Some v" using len_get_cell [OF pn z assms(7)] by simp
  obtain y where y: "len_set h p u = Some (bput h p y)" "b_ref y = b_ref z" "b_capacity y = b_capacity z"
    "b_size y = b_size z" "b_next y = b_next z" "bwf y" "bcontent y = le_bytes u @ drop 4 (bcontent z)"
    by (rule len_set_cell [OF pn z assms(7)])
  have sl: "same_links m (m(p \<mapsto> y))" using z(1) assms(4) y by (intro same_links_upd) auto
  have "distinct ps" using assms(1) by (rule bseg_distinct)
  then have "chain_data (m(p \<mapsto> y)) as = chain_data m as"
    using ps by (intro chain_data_cong) (auto simp: cell_data_def)
  then have "chain_data (m(p \<mapsto> y)) ps = le_bytes u @ drop 4 (bcontent z) @ chain_data m as"
    using ps y(7) by (simp add: cell_data_def)
  also have "drop 4 (bcontent z) @ chain_data m as = drop 4 (chain_data m ps)"
    using cd lz assms(7) by simp
  also have "\<dots> = d" using assms(5) by simp
  finally have e: "chain_data (m(p \<mapsto> y)) ps = le_bytes u @ d" .
  show thesis by (rule that [OF g y(1) _ sl y(4,6) e]) (simp add: ps)
qed

lemma chain_wf_upd: "chain_wf m as \<Longrightarrow> bwf y \<Longrightarrow> chain_wf (m(a \<mapsto> y)) as"
  by (auto simp: chain_wf_def)

lemma wpacket_put_repr:
  assumes r: "wrepr h w ps pl" and n: "unat n \<le> length ptr"
    and cap: "bget h (w_writebuf w) = Some x" "unat (w_wpos w) + unat n \<le> unat (b_capacity x)"
    and tot: "length (w_header w pl @ pl) + unat n < 2 ^ 32"
  obtains h' where "wpacket_put h w ptr n =
      Some (w\<lparr>w_wpos := w_wpos w + n, w_data_size := w_data_size w + n\<rparr>, h')"
    "wrepr h' (w\<lparr>w_wpos := w_wpos w + n, w_data_size := w_data_size w + n\<rparr>) ps (pl @ take (unat n) ptr)"
    "same_links (bufs h) (bufs h')" "avail h' = avail h" "fresh h' = fresh h"
    "\<And>a. a \<notin> set ps \<Longrightarrow> bufs h' a = bufs h a"
proof -
  let ?bs = "take (unat n) ptr" and ?L = "last ps" and ?m = "bufs h"
  let ?w = "w\<lparr>w_wpos := w_wpos w + n, w_data_size := w_data_size w + n\<rparr>"
  obtain x' where x': "?m ?L = Some x'" "w_writebuf w = ?L" "?L \<noteq> NULL" "bwf x'" "b_size x' = w_wpos w"
    "bget h (w_writebuf w) = Some x'"
    by (rule last_cell [OF r])
  then have xx: "x' = x" using cap(1) by simp
  note x = x' [unfolded xx]
  have lb: "length ?bs = unat n" using n by simp
  have chain: "bchain ?m (w_buf w) ps" "ps \<noteq> []" and dist: "distinct ps"
    using r bseg_distinct by (auto simp: wrepr_def)
  define y where "y = x\<lparr>b_buf := take (unat (b_size x)) (b_buf x) @ ?bs @ drop (unat (b_size x) + length ?bs) (b_buf x),
     b_size := b_size x + n\<rparr>"
  have yl: "b_size y = w_wpos w + n" "b_next y = b_next x" "b_ref y = b_ref x" "b_capacity y = b_capacity x"
    by (simp_all add: y_def x(5))
  have y: "mem_write (unat (w_wpos w)) ?bs (b_buf x) = Some (b_buf y)" "bcontent y = bcontent x @ ?bs" "bwf y"
    using bcontent_append [OF x(4) _ _ y_def] cap(2) lb x(5) by auto
  define h1 where "h1 = bput h ?L y"
  have m1: "bufs h1 = ?m(?L \<mapsto> y)" by (simp add: h1_def)
  have sl1: "same_links ?m (bufs h1)"
    unfolding m1 using x(1) by (rule same_links_upd) (simp_all add: yl)
  have cd1: "chain_data (bufs h1) ps = (w_header w pl @ pl) @ ?bs"
  proof -
    have "chain_data (bufs h1) ps = chain_data ?m ps @ ?bs"
    proof (rule chain_data_last [OF dist chain(2)])
      show "cell_data (bufs h1) ?L = cell_data ?m ?L @ ?bs"
        using x(1) y(2) by (simp add: m1 cell_data_def)
      show "cell_data (bufs h1) a = cell_data ?m a" if "a \<in> set (butlast ps)" for a
        using butlast_not_last [OF dist that] by (simp add: m1 cell_data_def)
    qed
    then show ?thesis using r by (simp add: wrepr_def)
  qed
  have wf1: "chain_wf (bufs h1) ps" unfolding m1 using r y(3) by (intro chain_wf_upd) (auto simp: wrepr_def)
  have sz: "w_data_size w + n = of_nat (length (w_header w pl @ pl) + unat n)"
    using r by (simp add: wrepr_def)
  have put: "wpacket_put h w ptr n = do {
      h \<leftarrow> (if w_len w \<noteq> NULL then do { v \<leftarrow> len_get h1 (w_len w); len_set h1 (w_len w) (v + n) } else Some h1);
      Some (?w, h) }"
  proof -
    have "x\<lparr>b_buf := b_buf y, b_size := b_size x + n\<rparr> = y" by (simp add: y_def)
    then show ?thesis
      using n x(2,6) y(1) by (simp add: wpacket_put_def mem_read_def h1_def Let_def)
  qed
  have tl: "\<forall>a\<in>set (butlast ps). full (bufs h1) a"
    using r butlast_not_last [OF dist] by (auto simp: wrepr_def full_def m1)
  have common: "heap_ok h1" "bchain (bufs h1) (w_buf w) ps" "refs_ok (bufs h1) ps" "shared (bufs h1) ?L"
    using r sl1 by (auto simp: wrepr_def same_links_bseg same_links_refs same_links_shared h1_def
        intro: same_links_heap_ok [of h "bput h ?L y"])
  show thesis
  proof (cases "w_raw w = 0")
    case False
    then have hd: "w_header v ds = []" if "w_raw v = w_raw w" for v ds using that by (simp add: w_header_def)
    have "wrepr h1 ?w ps (pl @ ?bs)"
      using r common cd1 wf1 tl False sz tot chain(2) x(2) yl(1) lb
      by (auto simp: wrepr_def hd m1)
    moreover have "wpacket_put h w ptr n = Some (?w, h1)"
      using r False put by (auto simp: wrepr_def)
    moreover have "bufs h1 a = ?m a" if "a \<notin> set ps" for a
      using that last_in_set [OF chain(2)] by (auto simp: m1)
    ultimately show thesis using sl1 by (intro that [of h1]) (simp_all add: h1_def)
  next
    case True
    then have wl: "w_len w = w_buf w" using r by (auto simp: wrepr_def)
    obtain z0 where z0: "?m (hd ps) = Some z0" "4 \<le> unat (b_size z0)" using r True by (auto simp: wrepr_def)
    obtain z where z: "bufs h1 (hd ps) = Some z" "4 \<le> unat (b_size z)"
    proof (cases "hd ps = ?L")
      case eq: True
      have "unat (w_wpos w + n) = unat (w_wpos w) + unat n"
        using cap(2) by (intro unat_add_le [of _ _ "b_capacity x"])
      then show thesis using that [of y] eq z0 x(1,5) yl(1) by (simp add: m1)
    qed (use that z0 in \<open>simp add: m1\<close>)
    have hdr: "chain_data (bufs h1) ps = le_bytes (of_nat (length pl) :: u32) @ (pl @ ?bs)"
      using cd1 True by (simp add: w_header_def)
    obtain y2 where y2: "len_get h1 (w_buf w) = Some (of_nat (length pl))"
      "len_set h1 (w_buf w) (of_nat (length pl) + n) = Some (bput h1 (w_buf w) y2)" "w_buf w = hd ps"
      "same_links (bufs h1) ((bufs h1)(w_buf w \<mapsto> y2))" "b_size y2 = b_size z" "bwf y2"
      "chain_data ((bufs h1)(w_buf w \<mapsto> y2)) ps = le_bytes (of_nat (length pl) + n :: u32) @ (pl @ ?bs)"
      by (rule header_update [OF common(2) chain(2) wf1 refl hdr z])
    define h2 where "h2 = bput h1 (w_buf w) y2"
    have m2: "bufs h2 = (bufs h1)(w_buf w \<mapsto> y2)" by (simp add: h2_def)
    have wn: "w_buf w \<noteq> NULL" using chain common(2) by (cases ps) auto
    have "wpacket_put h w ptr n = Some (?w, h2)" using put wl wn y2(1,2) by (simp add: h2_def)
    moreover have "wrepr h2 ?w ps (pl @ ?bs)"
    proof -
      have sl: "same_links (bufs h1) (bufs h2)" using y2(4) by (simp add: m2)
      obtain q where "bufs h1 (w_buf w) = Some q" "b_capacity q = b_capacity y2"
        by (rule same_linksD [OF y2(4), of "w_buf w" y2]) simp_all
      then have cap2: "b_capacity y2 = b_capacity z" using z(1) y2(3) by simp
      have "\<forall>a\<in>set (butlast ps). full (bufs h2) a"
        using tl z(1) y2(3,5) cap2 by (auto simp: full_def m2)
      moreover have "\<exists>x. bufs h2 ?L = Some x \<and> b_size x = w_wpos w + n"
        using z(1) y2(3,5) yl(1) by (auto simp: m1 m2)
      moreover have "heap_ok h2" by (rule same_links_heap_ok [OF sl _ common(1)]) (simp add: h2_def)
      moreover have "bchain (bufs h2) (w_buf w) ps" using common(2) same_links_bseg [OF sl] by simp
      moreover have "chain_wf (bufs h2) ps" unfolding m2 by (rule chain_wf_upd [OF wf1 y2(6)])
      moreover have "refs_ok (bufs h2) ps" "shared (bufs h2) ?L"
        using same_links_refs [OF sl common(3)] same_links_shared [OF sl common(4)] by simp_all
      moreover have "chain_data (bufs h2) ps = w_header ?w (pl @ ?bs) @ pl @ ?bs"
        using y2(7) True lb by (simp add: m2 w_header_def)
      moreover have "\<exists>x. bufs h2 (hd ps) = Some x \<and> 4 \<le> unat (b_size x)"
        using y2(3,5) z(2) by (simp add: m2)
      moreover have "w_data_size w + n = of_nat (length (w_header ?w (pl @ ?bs) @ pl @ ?bs))"
        "length (w_header ?w (pl @ ?bs) @ pl @ ?bs) < 2 ^ 32"
        using sz tot True lb by (simp_all add: w_header_def)
      moreover have "w_begin_pos w = 0" "w_writebuf w = ?L" using r by (simp_all add: wrepr_def)
      ultimately show ?thesis
        using True wl chain(2) unfolding wrepr_def by simp
    qed
    moreover have "a \<notin> set ps \<Longrightarrow> bufs h2 a = ?m a" for a
      using chain(2) y2(3) by (auto simp: m1 m2)
    ultimately show thesis
      using that [of h2] same_links_trans [OF sl1 y2(4)] m2 by (simp add: h2_def h1_def)
  qed
qed

section \<open>New buffers\<close>

definition new_buffer :: "u8 \<Rightarrow> u32 \<Rightarrow> u32 \<Rightarrow> buffer" where
  "new_buffer mt cap rc =
     \<lparr>b_ref = \<lparr>rb_refcount = rc, rb_mt = mt, rb_destroyer = Some Buffer_destroy\<rparr>,
      b_capacity = cap, b_size = 0, b_next = NULL, b_buf = replicate (unat cap) 0\<rparr>"

lemma new_buffer_simps [simp]:
  "b_capacity (new_buffer mt cap rc) = cap" "b_size (new_buffer mt cap rc) = 0"
  "b_next (new_buffer mt cap rc) = NULL" "rb_refcount (b_ref (new_buffer mt cap rc)) = rc"
  "rb_destroyer (b_ref (new_buffer mt cap rc)) = Some Buffer_destroy"
  "bcontent (new_buffer mt cap rc) = []" "bwf (new_buffer mt cap rc)"
  "inc_ref (new_buffer mt cap rc) = new_buffer mt cap (rc + 1)"
  by (simp_all add: new_buffer_def bcontent_def bwf_def inc_ref_def)

lemma buffer_create_and_acquire_new:
  assumes "heap_ok h" and "avail h \<noteq> 0" and "unat cap < 2 ^ 32 - 32"
  shows "buffer_create_and_acquire h mt NULL cap =
     Some (fresh h, (bput h (fresh h) (new_buffer mt cap 1))\<lparr>fresh := fresh h + 1, avail := avail h - 1\<rparr>)"
proof -
  have u: "unat (sizeof_buffer + cap) = 32 + unat cap"
    using assms(3) by (simp add: sizeof_buffer_def unat_word_ariths)
  have "\<not> sizeof_buffer + cap < sizeof_buffer"
    unfolding word_less_nat_alt u by (simp add: sizeof_buffer_def)
  then have "buffer_create h mt cap =
      Some (fresh h, (bput h (fresh h) (new_buffer mt cap 0))\<lparr>fresh := fresh h + 1, avail := avail h - 1\<rparr>)"
    using assms(2) u by (simp add: buffer_create_def Let_def new_buffer_def sizeof_buffer_def)
  then show ?thesis
    using assms(1) by (simp add: buffer_create_and_acquire_def buffer_acquire_fresh heap_ok_def bput_def)
qed

lemma buffer_create_and_acquire_oom:
  "avail h = 0 \<Longrightarrow> buffer_create_and_acquire h mt NULL cap = Some (NULL, h)"
  by (simp add: buffer_create_and_acquire_def buffer_create_def Let_def buffer_acquire_def)

lemma ucast_u8_small: "unat (ucast (f :: u8) :: u32) = unat f" "unat f < 2 ^ 32 - 32"
proof -
  have f: "unat f < 2 ^ 8" using unsigned_less [of f] by simp
  then show "unat f < 2 ^ 32 - 32" by simp
  show "unat (ucast f :: u32) = unat f" using f by (simp add: unsigned_ucast_eq take_bit_nat_eq_self)
qed

section \<open>Growing the chain\<close>

lemma wpacket_expand_repr:
  assumes r: "wrepr h w ps pl" and av: "avail h \<noteq> 0"
    and fl: "bget h (w_writebuf w) = Some x" "b_capacity x = w_wpos w"
  defines "f \<equiv> push_bit 1 (w_factor w)"
  defines "w' \<equiv> w\<lparr>w_factor := f, w_writebuf := fresh h, w_wpos := 0\<rparr>"
  obtains h' where "wpacket_expand h w = Some (w', h')" "wrepr h' w' (ps @ [fresh h]) pl"
    "bget h' (fresh h) = Some (new_buffer (w_mt w) (ucast f) 2)" "avail h' = avail h - 1"
    "fresh h' = fresh h + 1" "\<And>a. a \<notin> set ps \<Longrightarrow> a \<noteq> fresh h \<Longrightarrow> bufs h' a = bufs h a"
    "\<forall>a y. bufs h a = Some y \<longrightarrow> (\<exists>z. bufs h' a = Some z \<and> b_capacity z = b_capacity y)"
proof -
  let ?L = "last ps" and ?F = "fresh h" and ?n = "new_buffer (w_mt w) (ucast f)"
  obtain x' where x': "bufs h ?L = Some x'" "w_writebuf w = ?L" "?L \<noteq> NULL" "bwf x'" "b_size x' = w_wpos w"
    "bget h (w_writebuf w) = Some x'"
    by (rule last_cell [OF r])
  then have "x' = x" using fl(1) by simp
  note x = x' [unfolded this]
  have ok: "heap_ok h" and chain: "bchain (bufs h) (w_buf w) ps" "ps \<noteq> []" and dist: "distinct ps"
    using r bseg_distinct by (auto simp: wrepr_def)
  have F: "?F \<noteq> NULL" "bufs h ?F = None" using ok by (auto simp: heap_ok_def)
  have Fps: "?F \<notin> set ps" using bseg_dom [OF chain(1), of ?F] F by auto
  then have FL: "?F \<noteq> ?L" using chain(2) by (metis last_in_set)
  define y where "y = dec_ref (x\<lparr>b_next := ?F\<rparr>)"
  define h1 where "h1 = (bput h ?F (?n 1))\<lparr>fresh := ?F + 1, avail := avail h - 1\<rparr>"
  define h2 where "h2 = bput h1 ?L (x\<lparr>b_next := ?F\<rparr>)"
  define h' where "h' = bput (bput h2 ?F (?n 2)) ?L y"
  have rc: "1 < sint (rb_refcount (b_ref x))" "sint (rb_refcount (b_ref x)) < 2 ^ 30"
    using r x(1) chain(2) by (auto simp: wrepr_def shared_def refs_ok_def)
  have ca: "buffer_create_and_acquire h (w_mt w) NULL (ucast f) = Some (?F, h1)"
    unfolding h1_def using ok av ucast_u8_small [of f] by (intro buffer_create_and_acquire_new) simp_all
  have g2: "bget h1 ?L = Some x" "bget h2 ?L = Some (x\<lparr>b_next := ?F\<rparr>)" "bufs h2 ?F = Some (?n 1)"
    "bufs h2 ?L = Some (x\<lparr>b_next := ?F\<rparr>)"
    using x(1,3) FL by (auto simp: h2_def h1_def bget_def)
  have acq: "buffer_acquire h2 ?L ?F = Some (?F, h')"
    using buffer_acquire_move [OF x(3) F(1) FL [symmetric] g2(4,3)] rc by (simp add: h'_def y_def)
  have f2: "f = w_factor w * 2" by (simp add: f_def)
  have ex: "wpacket_expand h w = Some (w', h')"
    using ca g2(1) g2(2) [unfolded h2_def] acq [unfolded h2_def] x(2)
    by (simp add: wpacket_expand_def f2 w'_def)
  have m': "bufs h' = (bufs h)(?F \<mapsto> ?n 2, ?L \<mapsto> y)"
    using FL by (auto simp: h'_def h2_def h1_def)
  have y: "b_next y = ?F" "b_size y = b_size x" "b_capacity y = b_capacity x" "bwf y"
    "bcontent y = bcontent x" "sint (rb_refcount (b_ref y)) = sint (rb_refcount (b_ref x)) - 1"
    using x(4) rc sint_dec by (simp_all add: y_def bwf_def bcontent_def dec_ref_def)
  have "wrepr h' w' (ps @ [?F]) pl"
  proof -
    obtain us where us: "ps = us @ [?L]" using chain(2) by (metis append_butlast_last_id)
    have d: "?L \<notin> set us" using dist us by (metis distinct_append disjoint_iff list.set_intros(1))
    have Fus: "?F \<notin> set us" using Fps us by (metis Un_iff set_append)
    have "bseg (bufs h) (w_buf w) us ?L" using chain(1) us by (metis bseg_append bseg.simps(2))
    then have "bseg (bufs h') (w_buf w) us ?L" using d Fus by (simp add: m' bseg_upd)
    moreover have "bseg (bufs h') ?L [?L, ?F] NULL" using x(3) F(1) FL y(1) by (simp add: m')
    ultimately have "bchain (bufs h') (w_buf w) (us @ [?L, ?F])" by auto
    moreover have "us @ [?L, ?F] = ps @ [?F]" using us by (metis append.assoc append_Cons append_Nil)
    ultimately have a1: "bchain (bufs h') (w_buf w) (ps @ [?F])" by simp
    have a2: "chain_wf (bufs h') (ps @ [?F])"
      using r y(4) by (auto simp: wrepr_def chain_wf_def m')
    have a3: "refs_ok (bufs h') (ps @ [?F])"
      using r y(6) rc by (auto simp: wrepr_def refs_ok_def m')
    have a4: "\<forall>a\<in>set ps. full (bufs h') a"
    proof
      fix a assume a: "a \<in> set ps"
      show "full (bufs h') a"
      proof (cases "a = ?L")
        case True then show ?thesis using y(2,3) fl(2) x(5) by (simp add: full_def m')
      next
        case False
        then have "a \<in> set (butlast ps)" using a us by (metis Un_iff butlast_snoc empty_iff insert_iff set_append list.set(1,2))
        then show ?thesis using r False a Fps by (auto simp: wrepr_def full_def m')
      qed
    qed
    have a5: "chain_data (bufs h') (ps @ [?F]) = w_header w pl @ pl"
    proof -
      have "chain_data (bufs h') ps = chain_data (bufs h) ps"
        using Fps x(1) y(5) by (intro chain_data_cong) (auto simp: cell_data_def m')
      then show ?thesis using r FL by (simp add: wrepr_def cell_data_def m')
    qed
    have a6: "w_raw w = 0 \<Longrightarrow> \<exists>z. bufs h' (hd (ps @ [?F])) = Some z \<and> 4 \<le> unat (b_size z)"
      using r chain(2) y(2) x(1) Fps by (cases ps) (auto simp: wrepr_def m')
    have a7: "heap_ok h'" using ok FL x(1) by (auto simp: heap_ok_def m' h'_def h2_def h1_def)
    have hdr: "w_header w' pl = w_header w pl" by (simp add: w_header_def w'_def)
    have a8: "shared (bufs h') ?F" using FL by (auto simp: shared_def m')
    have a9: "\<exists>z. bufs h' ?F = Some z \<and> b_size z = 0" using FL by (auto simp: m')
    show ?thesis
      unfolding wrepr_def hdr using a1 a2 a3 a4 a5 a6 a7 a8 a9 r
      by (simp add: w'_def wrepr_def)
  qed
  moreover have "bget h' ?F = Some (?n 2)" using FL F(1) by (auto simp: bget_def m')
  moreover have "\<forall>a y. bufs h a = Some y \<longrightarrow> (\<exists>z. bufs h' a = Some z \<and> b_capacity z = b_capacity y)"
    using ok x(1) y(3) by (auto simp: m' heap_ok_def)
  moreover have "bufs h' a = bufs h a" if "a \<notin> set ps" "a \<noteq> ?F" for a
    using that chain(2) by (metis fun_upd_apply last_in_set m')
  ultimately show thesis
    using ex by (intro that [of h']) (simp_all add: h'_def h2_def h1_def)
qed

section \<open>The write loop\<close>

lemma write_loop_0 [simp]: "wpacket_write_loop h w ptr 0 = Some (w, h)"
  by (simp add: wpacket_write_loop.simps)

lemma min_alt: "min a b = (if b < a then b else a)" for a b :: "'a::linorder"
  by (auto simp: min_def)

lemma write_loop_step:
  assumes "sz \<noteq> 0" "bget h (w_writebuf w) = Some x" "b_capacity x \<noteq> w_wpos w"
  shows "wpacket_write_loop h w ptr sz =
    (let c = min (b_capacity x - w_wpos w) sz
     in do { (w, h) \<leftarrow> wpacket_put h w ptr c; wpacket_write_loop h w (drop (unat c) ptr) (sz - c) })"
  using assms
  by (subst wpacket_write_loop.simps) (auto simp: Let_def min_alt)

lemma write_loop_grow:
  assumes "sz \<noteq> 0" "bget h (w_writebuf w) = Some x" "b_capacity x = w_wpos w"
  shows "wpacket_write_loop h w ptr sz = do {
     (w, h) \<leftarrow> wpacket_expand h w;
     x \<leftarrow> bget h (w_writebuf w);
     let c = min (b_capacity x - w_wpos w) sz;
     (w, h) \<leftarrow> wpacket_put h w ptr c;
     wpacket_write_loop h w (drop (unat c) ptr) (sz - c)
   }"
  using assms
  by (subst wpacket_write_loop.simps; cases "wpacket_expand h w")
     (auto simp: Let_def min_alt)

text \<open>What a write of the bytes bs leaves behind; the buffers qs are new.\<close>

definition written ::
    "bheap \<Rightarrow> wpacket \<Rightarrow> addr list \<Rightarrow> byte list \<Rightarrow> byte list \<Rightarrow> bheap \<Rightarrow> wpacket \<Rightarrow> addr list \<Rightarrow> bool" where
  "written h w ps pl bs h' w' qs \<longleftrightarrow>
     wrepr h' w' (ps @ qs) (pl @ bs) \<and> room h' w' + length bs = room h w \<and>
     exp_count (w_factor w') + avail h = exp_count (w_factor w) + avail h' \<and>
     w_raw w' = w_raw w \<and> w_mt w' = w_mt w \<and> w_buf w' = w_buf w \<and>
     (\<forall>a x. bufs h a = Some x \<longrightarrow> (\<exists>y. bufs h' a = Some y \<and> b_capacity y = b_capacity x)) \<and>
     (\<forall>a. a \<notin> set ps \<and> a < fresh h \<longrightarrow> bufs h' a = bufs h a) \<and>
     fresh h \<le> fresh h' \<and> (\<forall>a\<in>set qs. fresh h \<le> a)"

lemma written_refl: "wrepr h w ps pl \<Longrightarrow> written h w ps pl [] h w []"
  by (simp add: written_def)

lemma written_avail:
  "written h w ps pl bs h' w' qs \<Longrightarrow> exp_count (w_factor w) \<le> avail h \<Longrightarrow> exp_count (w_factor w') \<le> avail h'"
  by (auto simp: written_def)

lemma written_trans:
  assumes "written h w ps pl bs h1 w1 qs" and "written h1 w1 (ps @ qs) (pl @ bs) cs h2 w2 rs"
  shows "written h w ps pl (bs @ cs) h2 w2 (qs @ rs)"
proof -
  have "bufs h2 a = bufs h a" if "a \<notin> set ps" "a < fresh h" for a
  proof -
    have "a \<notin> set qs" using assms(1) that(2) by (auto simp: written_def)
    then have "bufs h2 a = bufs h1 a" using assms that by (auto simp: written_def)
    then show ?thesis using assms(1) that by (auto simp: written_def)
  qed
  moreover have "fresh h \<le> a" if "a \<in> set (qs @ rs)" for a
    using assms that unfolding written_def by (metis Un_iff le_trans set_append)
  moreover have "\<exists>y. bufs h2 a = Some y \<and> b_capacity y = b_capacity x" if "bufs h a = Some x" for a x
    using assms that unfolding written_def by metis
  ultimately show ?thesis using assms by (simp add: written_def)
qed

lemma wpacket_put_written:
  assumes r: "wrepr h w ps pl" and n: "unat n \<le> length ptr"
    and cap: "bget h (w_writebuf w) = Some x" "unat (w_wpos w) + unat n \<le> unat (b_capacity x)"
    and tot: "length (w_header w pl @ pl) + unat n < 2 ^ 32"
  obtains h' w' where "wpacket_put h w ptr n = Some (w', h')" "written h w ps pl (take (unat n) ptr) h' w' []"
proof -
  let ?w = "w\<lparr>w_wpos := w_wpos w + n, w_data_size := w_data_size w + n\<rparr>"
  obtain h' where h': "wpacket_put h w ptr n = Some (?w, h')" "wrepr h' ?w ps (pl @ take (unat n) ptr)"
    "same_links (bufs h) (bufs h')" "avail h' = avail h" "fresh h' = fresh h"
    "\<And>a. a \<notin> set ps \<Longrightarrow> bufs h' a = bufs h a"
    by (rule wpacket_put_repr [OF r n cap tot]) blast
  have wb: "w_writebuf w \<noteq> NULL" "bufs h (w_writebuf w) = Some x" using cap(1) by (auto simp: bget_Some)
  obtain y where y: "bufs h' (w_writebuf w) = Some y" "b_capacity y = b_capacity x"
    using same_linksD [OF same_links_sym [OF h'(3)] wb(2)] by metis
  have "unat (w_wpos w + n) = unat (w_wpos w) + unat n" using cap(2) by (rule unat_add_le)
  then have "room h' ?w + unat n = room h w"
    using y wb cap by (simp add: room_def bget_def)
  moreover have "\<exists>y. bufs h' a = Some y \<and> b_capacity y = b_capacity x" if "bufs h a = Some x" for a x
    using same_linksD [OF same_links_sym [OF h'(3)] that] by metis
  ultimately show thesis using that [OF h'(1)] h' n by (simp add: written_def)
qed

lemma wpacket_write_loop_repr:
  assumes "wrepr h w ps pl" and "unat sz \<le> length ptr" and "unat sz \<le> room h w"
    and "exp_count (w_factor w) \<le> avail h" and "length (w_header w pl @ pl) + unat sz < 2 ^ 32"
  shows "\<exists>h' w' qs. wpacket_write_loop h w ptr sz = Some (w', h') \<and>
    written h w ps pl (take (unat sz) ptr) h' w' qs"
  using assms
proof (induction "unat sz" arbitrary: h w ps pl sz ptr rule: less_induct)
  case less
  show ?case
  proof (cases "sz = 0")
    case True
    then show ?thesis using written_refl [OF less.prems(1)] by auto
  next
    case nz: False
    obtain x where x: "bget h (w_writebuf w) = Some x" "b_size x = w_wpos w" "w_wpos w \<le> b_capacity x"
      by (rule last_cell [OF less.prems(1)])
    text \<open>Whether the chain grows first or not, there is then a state with room for a byte.\<close>
    have "\<exists>w1 h1 qs x1 c. written h w ps pl [] h1 w1 qs \<and> bget h1 (w_writebuf w1) = Some x1 \<and>
        w_wpos w1 < b_capacity x1 \<and> c = min (b_capacity x1 - w_wpos w1) sz \<and>
        wpacket_write_loop h w ptr sz =
          do { (w, h) \<leftarrow> wpacket_put h1 w1 ptr c; wpacket_write_loop h w (drop (unat c) ptr) (sz - c) }"
    proof (cases "b_capacity x = w_wpos w")
      case False
      then have "w_wpos w < b_capacity x" using x(3) by simp
      then show ?thesis
        using write_loop_step [OF nz x(1) False, of ptr] written_refl [OF less.prems(1)] x(1)
        by (intro exI [of _ w] exI [of _ h] exI [of _ "[]"] exI [of _ x]) (simp add: Let_def)
    next
      case True
      let ?f = "push_bit 1 (w_factor w)"
      let ?w1 = "w\<lparr>w_factor := ?f, w_writebuf := fresh h, w_wpos := 0\<rparr>"
      have rm: "room h w = exp_room (w_factor w)" using x(1) True by (simp add: room_def)
      have f0: "?f \<noteq> 0" using less.prems(3) rm nz exp_room_0 by (metis le_zero_eq unat_eq_zero)
      have cnt: "exp_count (w_factor w) = Suc (exp_count ?f)" using f0 by (rule exp_count_step)
      then have av: "avail h \<noteq> 0" using less.prems(4) by simp
      obtain h1 where h1: "wpacket_expand h w = Some (?w1, h1)" "wrepr h1 ?w1 (ps @ [fresh h]) pl"
        "bget h1 (fresh h) = Some (new_buffer (w_mt w) (ucast ?f) 2)" "avail h1 = avail h - 1"
        "fresh h1 = fresh h + 1" "\<And>a. a \<notin> set ps \<Longrightarrow> a \<noteq> fresh h \<Longrightarrow> bufs h1 a = bufs h a"
        "\<forall>a y. bufs h a = Some y \<longrightarrow> (\<exists>z. bufs h1 a = Some z \<and> b_capacity z = b_capacity y)"
        by (rule wpacket_expand_repr [OF less.prems(1) av x(1) True]) (rule that)
      have uf: "unat (ucast ?f :: u32) = unat ?f" by (rule ucast_u8_small)
      have "room h1 ?w1 = unat ?f + exp_room ?f" using h1(3) uf by (simp add: room_def)
      also have "\<dots> = room h w" using rm exp_room_step [of "w_factor w"] by simp
      finally have rm1: "room h1 ?w1 = room h w" .
      have caps: "\<exists>z. bufs h1 a = Some z \<and> b_capacity z = b_capacity y" if "bufs h a = Some y" for a y
        using h1(7) that by blast
      have "written h w ps pl [] h1 ?w1 [fresh h]"
        using h1(1-6) cnt less.prems(4) rm1 caps by (auto simp: written_def)
      moreover have "(0 :: u32) < ucast ?f"
      proof -
        have "0 < unat ?f" using f0 unat_gt_0 by blast
        then show ?thesis by (metis uf unsigned_0 word_less_nat_alt)
      qed
      ultimately show ?thesis
        using write_loop_grow [OF nz x(1) True, of ptr] h1(1,3)
        by (intro exI [of _ ?w1] exI [of _ h1] exI [of _ "[fresh h]"]
            exI [of _ "new_buffer (w_mt w) (ucast ?f) 2"]) (simp add: Let_def)
    qed
    then obtain w1 h1 qs x1 c where
      1: "written h w ps pl [] h1 w1 qs" "bget h1 (w_writebuf w1) = Some x1" "w_wpos w1 < b_capacity x1"
        "c = min (b_capacity x1 - w_wpos w1) sz"
      and step: "wpacket_write_loop h w ptr sz =
          do { (w, h) \<leftarrow> wpacket_put h1 w1 ptr c; wpacket_write_loop h w (drop (unat c) ptr) (sz - c) }"
      by blast
    have rest: "unat (b_capacity x1 - w_wpos w1) = unat (b_capacity x1) - unat (w_wpos w1)"
      using 1(3) by (intro unat_sub) simp
    have c: "unat c \<le> unat sz" "unat (w_wpos w1) + unat c \<le> unat (b_capacity x1)" "0 < unat c"
      using 1(3,4) rest nz by (auto simp: min_def word_le_nat_alt word_less_nat_alt unat_gt_0)
    have hl: "length (w_header w1 pl) = length (w_header w pl)" "w_header w1 pl = w_header w pl"
      using 1(1) by (simp_all add: written_def w_header_def)
    have r1: "wrepr h1 w1 (ps @ qs) pl" using 1(1) by (simp add: written_def)
    have cl: "unat c \<le> length ptr" "length (w_header w1 pl @ pl) + unat c < 2 ^ 32"
      using c less.prems(2,5) hl by auto
    obtain h2 w2 where 2: "wpacket_put h1 w1 ptr c = Some (w2, h2)"
      "written h1 w1 (ps @ qs) pl (take (unat c) ptr) h2 w2 []"
      by (rule wpacket_put_written [OF r1 cl(1) 1(2) c(2) cl(2)]) blast
    have w02: "written h w ps pl (take (unat c) ptr) h2 w2 qs"
      using written_trans [OF 1(1), of "take (unat c) ptr" h2 w2 "[]"] 2(2) by simp
    have sub: "unat (sz - c) = unat sz - unat c" using c(1) by (intro unat_sub) (simp add: word_le_nat_alt)
    have "\<exists>h' w' rs. wpacket_write_loop h2 w2 (drop (unat c) ptr) (sz - c) = Some (w', h') \<and>
      written h2 w2 (ps @ qs) (pl @ take (unat c) ptr) (take (unat (sz - c)) (drop (unat c) ptr)) h' w' rs"
    proof (rule less.hyps)
      show "unat (sz - c) < unat sz" using sub c by simp
      show "wrepr h2 w2 (ps @ qs) (pl @ take (unat c) ptr)" "exp_count (w_factor w2) \<le> avail h2"
        using w02 written_avail [OF w02 less.prems(4)] by (simp_all add: written_def)
      show "unat (sz - c) \<le> length (drop (unat c) ptr)" using sub less.prems(2) c by simp
      show "unat (sz - c) \<le> room h2 w2" using sub w02 less.prems(2,3) c by (auto simp: written_def)
      show "length (w_header w2 (pl @ take (unat c) ptr) @ pl @ take (unat c) ptr) + unat (sz - c) < 2 ^ 32"
        using sub w02 less.prems(2,5) c by (auto simp: written_def w_header_def split: if_splits)
    qed
    then obtain h' w' rs where 3: "wpacket_write_loop h2 w2 (drop (unat c) ptr) (sz - c) = Some (w', h')"
      "written h2 w2 (ps @ qs) (pl @ take (unat c) ptr) (take (unat (sz - c)) (drop (unat c) ptr)) h' w' rs"
      by blast
    have "take (unat c) ptr @ take (unat (sz - c)) (drop (unat c) ptr) = take (unat sz) ptr"
      using sub c(1) by (metis le_add_diff_inverse take_add)
    then have "written h w ps pl (take (unat sz) ptr) h' w' (qs @ rs)"
      using written_trans [OF w02 3(2)] by simp
    moreover have "wpacket_write_loop h w ptr sz = Some (w', h')" using step 2(1) 3(1) by simp
    ultimately show ?thesis by blast
  qed
qed

section \<open>Running out of room\<close>

lemma wpacket_expand_oom:
  assumes "wrepr h w ps pl" and "avail h = 0"
  shows "\<exists>h'. wpacket_expand h w = Some (w\<lparr>w_factor := push_bit 1 (w_factor w), w_writebuf := NULL, w_wpos := 0\<rparr>, h')"
proof -
  obtain x where x: "bufs h (last ps) = Some x" "w_writebuf w = last ps" "last ps \<noteq> NULL"
    "bget h (w_writebuf w) = Some x"
    by (rule last_cell [OF assms(1)])
  have "1 < sint (rb_refcount (b_ref x))" using assms(1) x(1) by (simp add: wrepr_def shared_def)
  then have "buffer_release (bput h (last ps) (x\<lparr>b_next := NULL\<rparr>)) (last ps) =
      Some (bput (bput h (last ps) (x\<lparr>b_next := NULL\<rparr>)) (last ps) (dec_ref (x\<lparr>b_next := NULL\<rparr>)))"
    using x(3) by (intro buffer_release_shared) simp_all
  then show ?thesis
    using x assms(2) by (simp add: wpacket_expand_def buffer_create_and_acquire_oom buffer_acquire_def)
qed

lemma full_loop_None:
  assumes "wrepr h w ps pl" and "bget h (w_writebuf w) = Some x" and "b_capacity x = w_wpos w"
    and "room h w < unat sz" and "unat sz \<le> length ptr" and "length (w_header w pl @ pl) + unat sz < 2 ^ 32"
  shows "wpacket_write_loop h w ptr sz = None"
  using assms
proof (induction "avail h" arbitrary: h w ps pl x sz ptr rule: less_induct)
  case less
  let ?f = "push_bit 1 (w_factor w)"
  have nz: "sz \<noteq> 0" using less.prems(4) by auto
  note grow = write_loop_grow [OF nz less.prems(2,3), of ptr]
  show ?case
  proof (cases "avail h = 0")
    case True
    then show ?thesis using grow wpacket_expand_oom [OF less.prems(1)] by auto
  next
    case False
    let ?w1 = "w\<lparr>w_factor := ?f, w_writebuf := fresh h, w_wpos := 0\<rparr>"
    obtain h1 where h1: "wpacket_expand h w = Some (?w1, h1)" "wrepr h1 ?w1 (ps @ [fresh h]) pl"
      "bget h1 (fresh h) = Some (new_buffer (w_mt w) (ucast ?f) 2)" "avail h1 = avail h - 1"
      by (rule wpacket_expand_repr [OF less.prems(1) False less.prems(2,3)]) (rule that)
    define c where "c = (ucast ?f :: u32)"
    have uc: "unat c = unat ?f" unfolding c_def by (rule ucast_u8_small)
    have rm: "room h w = unat c + exp_room ?f"
      using less.prems(2,3) exp_room_step [of "w_factor w"] by (simp add: room_def uc)
    have csz: "unat c < unat sz" using rm less.prems(4) by simp
    have cc: "min (b_capacity (new_buffer (w_mt w) (ucast ?f) 2) - w_wpos ?w1) sz = c"
      using csz by (simp add: min_def c_def word_le_nat_alt)
    have hd: "w_header ?w1 pl = w_header w pl" by (simp add: w_header_def)
    have pre: "unat c \<le> length ptr" "length (w_header ?w1 pl @ pl) + unat c < 2 ^ 32"
      "bget h1 (w_writebuf ?w1) = Some (new_buffer (w_mt w) (ucast ?f) 2)"
      "unat (w_wpos ?w1) + unat c \<le> unat (b_capacity (new_buffer (w_mt w) (ucast ?f) 2))"
      using csz less.prems(5,6) h1(3) hd by (simp_all add: c_def)
    let ?w2 = "?w1\<lparr>w_wpos := w_wpos ?w1 + c, w_data_size := w_data_size ?w1 + c\<rparr>"
    obtain h2 where h2: "wpacket_put h1 ?w1 ptr c = Some (?w2, h2)" "wrepr h2 ?w2 (ps @ [fresh h]) (pl @ take (unat c) ptr)"
      "same_links (bufs h1) (bufs h2)" "avail h2 = avail h1"
      by (rule wpacket_put_repr [OF h1(2) pre(1,3,4,2)]) blast
    have F: "bufs h1 (fresh h) = Some (new_buffer (w_mt w) (ucast ?f) 2)" "fresh h \<noteq> NULL"
      using h1(3) by (simp_all add: bget_Some)
    obtain y where y: "bufs h2 (fresh h) = Some y" "b_capacity y = c"
      using same_linksD [OF same_links_sym [OF h2(3)] F(1)] by (metis c_def new_buffer_simps(1))
    have sub: "unat (sz - c) = unat sz - unat c" using csz by (intro unat_sub) (simp add: word_le_nat_alt)
    have "wpacket_write_loop h2 ?w2 (drop (unat c) ptr) (sz - c) = None"
    proof (rule less.hyps)
      show "avail h2 < avail h" using h2(4) h1(4) False by simp
      show "wrepr h2 ?w2 (ps @ [fresh h]) (pl @ take (unat c) ptr)" by (rule h2(2))
      show "bget h2 (w_writebuf ?w2) = Some y" using y F(2) by (simp add: bget_def)
      show "b_capacity y = w_wpos ?w2" using y by simp
      show "room h2 ?w2 < unat (sz - c)"
        using y F(2) rm sub less.prems(4) by (simp add: room_def bget_def)
      show "unat (sz - c) \<le> length (drop (unat c) ptr)" using sub less.prems(5) by simp
      show "length (w_header ?w2 (pl @ take (unat c) ptr) @ pl @ take (unat c) ptr) + unat (sz - c) < 2 ^ 32"
        using sub less.prems(5,6) csz by (auto simp: w_header_def split: if_splits)
    qed
    then show ?thesis using grow h1(1) pre(3) cc h2(1) by (simp add: Let_def)
  qed
qed

lemma wpacket_write_loop_None:
  assumes "wrepr h w ps pl" and "room h w < unat sz" and "unat sz \<le> length ptr"
    and "length (w_header w pl @ pl) + unat sz < 2 ^ 32"
  shows "wpacket_write_loop h w ptr sz = None"
proof -
  obtain x where x: "bget h (w_writebuf w) = Some x" "w_wpos w \<le> b_capacity x" "last ps \<noteq> NULL"
    "bufs h (last ps) = Some x" "w_writebuf w = last ps"
    by (rule last_cell [OF assms(1)])
  show ?thesis
  proof (cases "b_capacity x = w_wpos w")
    case True
    then show ?thesis using full_loop_None [OF assms(1) x(1) True assms(2-4)] by simp
  next
    case False
    define c where "c = b_capacity x - w_wpos w"
    have uc: "unat c = unat (b_capacity x) - unat (w_wpos w)" unfolding c_def by (rule unat_sub [OF x(2)])
    have rm: "room h w = unat c + exp_room (w_factor w)" using x(1) uc by (simp add: room_def)
    have csz: "unat c < unat sz" using rm assms(2) by simp
    have le: "unat (w_wpos w) + unat c \<le> unat (b_capacity x)" using uc x(2) by (simp add: word_le_nat_alt)
    have pre: "unat c \<le> length ptr" "length (w_header w pl @ pl) + unat c < 2 ^ 32" using csz assms by auto
    let ?w2 = "w\<lparr>w_wpos := w_wpos w + c, w_data_size := w_data_size w + c\<rparr>"
    obtain h2 where h2: "wpacket_put h w ptr c = Some (?w2, h2)" "wrepr h2 ?w2 ps (pl @ take (unat c) ptr)"
      "same_links (bufs h) (bufs h2)"
      by (rule wpacket_put_repr [OF assms(1) pre(1) x(1) le pre(2)]) blast
    obtain y where y: "bufs h2 (last ps) = Some y" "b_capacity y = b_capacity x"
      using same_linksD [OF same_links_sym [OF h2(3)] x(4)] by metis
    have sub: "unat (sz - c) = unat sz - unat c" using csz by (intro unat_sub) (simp add: word_le_nat_alt)
    have "wpacket_write_loop h2 ?w2 (drop (unat c) ptr) (sz - c) = None"
    proof (rule full_loop_None [OF h2(2)])
      show "bget h2 (w_writebuf ?w2) = Some y" using y x(3,5) by (simp add: bget_def)
      show "b_capacity y = w_wpos ?w2" using y by (simp add: c_def)
      show "room h2 ?w2 < unat (sz - c)"
        using y x(3,5) rm sub assms(2) by (simp add: room_def bget_def c_def)
      show "unat (sz - c) \<le> length (drop (unat c) ptr)" using sub assms(3) by simp
      show "length (w_header ?w2 (pl @ take (unat c) ptr) @ pl @ take (unat c) ptr) + unat (sz - c) < 2 ^ 32"
        using sub assms(3,4) csz by (auto simp: w_header_def split: if_splits)
    qed
    moreover have "min (b_capacity x - w_wpos w) sz = c"
      using csz by (simp add: min_def c_def word_le_nat_alt)
    moreover have "sz \<noteq> 0" using assms(2) by auto
    ultimately show ?thesis using write_loop_step [OF _ x(1) False, of sz ptr] h2(1) by (simp add: Let_def)
  qed
qed

section \<open>Writing a created packet\<close>

lemma wpacket_write_repr:
  assumes "wrepr h w ps pl" and "unat sz \<le> length ptr" and "unat sz \<le> room h w"
    and "exp_count (w_factor w) \<le> avail h" and "length (w_header w pl @ pl) + unat sz < 2 ^ 32"
  obtains h' w' qs where "wpacket_write h w ptr sz = Some (w', h')"
    "written h w ps pl (take (unat sz) ptr) h' w' qs"
proof -
  have "w_writebuf w \<noteq> NULL" by (rule last_cell [OF assms(1)]) simp
  then have "wpacket_write h w ptr sz = wpacket_write_loop h w ptr sz" by (simp add: wpacket_write_def)
  then show thesis using wpacket_write_loop_repr [OF assms] that by auto
qed

lemma exp_count_le: "exp_count f \<le> 8"
  by (simp add: exp_count_def upt_rec)

lemma wpacket_create_repr:
  assumes ok: "heap_ok h" and av: "10 \<le> avail h"
    and cap: "unat (GetSize_of_pow2 sz) < 2 ^ 32 - 32" "is_raw = 0 \<Longrightarrow> 4 \<le> unat (GetSize_of_pow2 sz)"
  obtains w h' where "wpacket_create h mt allo sz is_raw = Some (w, h')"
    "wrepr h' w [fresh h] []" "w_raw w = is_raw" "w_factor w = ucast (GetSize_of_pow2 sz)"
    "\<exists>x. bufs h' (fresh h) = Some x \<and> b_capacity x = GetSize_of_pow2 sz"
    "room h' w + (if is_raw = 0 then 4 else 0) = unat (GetSize_of_pow2 sz) + exp_room (ucast (GetSize_of_pow2 sz))"
    "exp_count (w_factor w) \<le> avail h'" "avail h' = avail h - 2" "fresh h' = fresh h + 1"
    "\<And>a. a \<noteq> fresh h \<Longrightarrow> bufs h' a = bufs h a"
proof -
  let ?c = "GetSize_of_pow2 sz" and ?F = "fresh h"
  define h0 where "h0 = h\<lparr>avail := avail h - 1\<rparr>"
  define h1 where "h1 = (bput h0 ?F (new_buffer mt ?c 1))\<lparr>fresh := ?F + 1, avail := avail h - 2\<rparr>"
  define h2 where "h2 = bput h1 ?F (new_buffer mt ?c 2)"
  have 0: "obj_alloc h = Some h0" using av by (simp add: obj_alloc_def h0_def)
  have 1: "buffer_create_and_acquire h0 mt NULL ?c = Some (?F, h1)"
  proof -
    have e: "fresh h0 = ?F" "avail h0 - 1 = avail h - 2" "heap_ok h0" "avail h0 \<noteq> 0"
      using av ok by (auto simp: h0_def heap_ok_def)
    show ?thesis
      using buffer_create_and_acquire_new [OF e(3,4) cap(1), of mt] unfolding e(1,2) by (simp add: h1_def)
  qed
  have F: "?F \<noteq> NULL" using ok by (simp add: heap_ok_def)
  have 2: "buffer_acquire h1 NULL ?F = Some (?F, h2)"
    using buffer_acquire_fresh [of ?F h1 "new_buffer mt ?c 1"] F by (simp add: h2_def h1_def)
  have m2: "bufs h2 = (bufs h)(?F \<mapsto> new_buffer mt ?c 2)" "avail h2 = avail h - 2" "fresh h2 = ?F + 1"
    by (auto simp: h2_def h1_def h0_def)
  have ok2: "heap_ok h2" using ok by (simp add: heap_ok_def m2)
  have cnt: "exp_count (ucast ?c) \<le> avail h - 2" using exp_count_le [of "ucast ?c"] av by linarith
  let ?w = "\<lparr>w_next = NULL, w_type = MSG_WPACKET, w_len = NULL, w_buf = ?F, w_writebuf = ?F,
      w_wpos = 0, w_factor = ucast ?c, w_begin_pos = 0, w_data_size = 0, w_raw = is_raw,
      w_mt = mt, w_usr_data = 0, w_send_finish = NULL, w_allocator = allo,
              w_send_tick = 0\<rparr>"
  show thesis
  proof (cases "is_raw = 0")
    case False
    define h3 where "h3 = bput h2 ?F ((new_buffer mt ?c 2)\<lparr>b_size := 0\<rparr>)"
    have n: "(new_buffer mt ?c 2)\<lparr>b_size := 0\<rparr> = new_buffer mt ?c 2" by (simp add: new_buffer_def)
    have m3: "bufs h3 = bufs h2" "heap_ok h3" "avail h3 = avail h2" "fresh h3 = fresh h2"
      using ok2 unfolding h3_def n by (auto simp: m2 heap_ok_def)
    have "wpacket_create h mt allo sz is_raw = Some (?w, h3)"
      using 0 1 2 False F by (simp add: wpacket_create_def Let_def bget_def m2 h3_def)
    moreover have "wrepr h3 ?w [?F] []"
      using F False m3(2) by (simp add: wrepr_def m3(1) m2 refs_ok_def shared_def cell_data_def w_header_def)
    moreover have "room h3 ?w = unat ?c + exp_room (ucast ?c)"
      using F by (simp add: room_def bget_def m3(1) m2)
    ultimately show thesis using that [of ?w h3] False cnt by (simp add: m3 m2)
  next
    case True
    note c4 = cap(2) [OF True]
    let ?y = "(new_buffer mt ?c 2)\<lparr>b_buf := le_bytes (0 :: u32) @ replicate (unat ?c - 4) 0\<rparr>"
    define h3 where "h3 = bput h2 ?F ?y"
    define h4 where "h4 = bput h3 ?F (?y\<lparr>b_size := 4\<rparr>)"
    have ls: "len_set h2 ?F 0 = Some h3"
      using F c4 by (simp add: len_set_def bget_def m2 mem_write_def h3_def) (simp add: new_buffer_def)
    let ?w' = "?w\<lparr>w_wpos := 4, w_len := ?F, w_data_size := 4\<rparr>"
    have "wpacket_create h mt allo sz is_raw = Some (?w', h4)"
      using 0 1 2 True F ls by (simp add: wpacket_create_def Let_def bget_def h3_def h4_def)
    moreover have m4: "bufs h4 = (bufs h)(?F \<mapsto> ?y\<lparr>b_size := 4\<rparr>)" "avail h4 = avail h - 2" "fresh h4 = ?F + 1"
      by (auto simp: h4_def h3_def m2)
    moreover have "wrepr h4 ?w' [?F] []"
    proof -
      have wf: "bwf (?y\<lparr>b_size := 4\<rparr>)" using c4 by (simp add: bwf_def word_le_nat_alt)
      have bc: "bcontent (?y\<lparr>b_size := 4\<rparr>) = le_bytes (0 :: u32)" by (simp add: bcontent_def)
      have "heap_ok h4" using ok by (simp add: heap_ok_def m4)
      then show ?thesis
        using F True wf by (simp add: wrepr_def m4(1) refs_ok_def shared_def cell_data_def bc w_header_def)
    qed
    moreover have "room h4 ?w' + 4 = unat ?c + exp_room (ucast ?c)"
      using F c4 by (simp add: room_def bget_def m4)
    ultimately show thesis using that [of ?w' h4] True cnt by simp
  qed
qed

lemma exp_room_pow: "k < 8 \<Longrightarrow> exp_room (2 ^ k) = 256 - 2 ^ Suc k"
proof -
  assume "k < 8"
  then have "k \<in> {0, 1, 2, 3, 4, 5, 6, 7}" by auto
  then show ?thesis by (auto simp: exp_room_def upt_rec)
qed


section \<open>Properties\<close>

text \<open>C2: writing n bytes to a packet that has room for them returns, appends exactly those bytes to
  the packet's payload, keeps the length field equal to the payload's length, allocates only new
  buffers for the growth and leaves every other buffer of the heap as it was.\<close>

theorem wpacket_write_appends:
  assumes "wrepr h w ps pl" and "unat n = length ptr" and "length ptr \<le> room h w"
    and "exp_count (w_factor w) \<le> avail h" and "length (w_header w pl @ pl) + length ptr < 2 ^ 32"
  shows "\<exists>h' w' qs. wpacket_write h w ptr n = Some (w', h') \<and> wrepr h' w' (ps @ qs) (pl @ ptr) \<and>
    room h' w' + length ptr = room h w \<and>
    (\<forall>a. a \<notin> set ps \<and> a < fresh h \<longrightarrow> bufs h' a = bufs h a) \<and> (\<forall>a\<in>set qs. fresh h \<le> a)"
proof -
  have 1: "unat n \<le> length ptr" "unat n \<le> room h w" "length (w_header w pl @ pl) + unat n < 2 ^ 32"
    using assms by auto
  obtain h' w' qs where "wpacket_write h w ptr n = Some (w', h')"
    "written h w ps pl (take (unat n) ptr) h' w' qs"
    by (rule wpacket_write_repr [OF assms(1) 1(1,2) assms(4) 1(3)])
  then show ?thesis using assms(2) by (auto simp: written_def)
qed

lemma factor_of_pow2:
  assumes "k < 32"
  shows "(ucast (2 ^ k :: u32) :: u8) = (if k < 8 then 2 ^ k else 0)"
  using assms by (intro bit_word_eqI) (auto simp: bit_simps)

lemma created_room:
  assumes "k < 32"
  shows "unat (2 ^ k :: u32) + exp_room (ucast (2 ^ k :: u32)) = (if k < 8 then 256 - 2 ^ k else 2 ^ k)"
proof (cases "k < 8")
  case True
  then have "(2::nat) ^ Suc k \<le> 2 ^ 8" by (intro power_increasing) auto
  with True show ?thesis using assms
    by (simp add: factor_of_pow2 exp_room_pow unat_2_power)
next
  case False
  then show ?thesis using assms by (simp add: factor_of_pow2 unat_2_power exp_room_0)
qed

text \<open>C38: a packet created with a first buffer of 2 ^ k bytes accepts a write of n bytes, whatever
  memory there is beyond ten allocations, if and only if header and data fit in the first buffer
  together with the buffers that doubling an 8-bit factor can reach: 256 - 2 ^ k bytes for k < 8,
  and nothing beyond the first buffer for k \<ge> 8.  Past that the write never returns.\<close>

theorem wpacket_write_limit:
  assumes "heap_ok h" and "10 \<le> avail h" and "GetSize_of_pow2 sz = 2 ^ k" and "k < 32"
    and "is_raw = 0 \<Longrightarrow> 2 \<le> k" and "unat n = length ptr" and "length ptr + 4 < 2 ^ 32"
  shows "do { (w, h) \<leftarrow> wpacket_create h mt allo sz is_raw; wpacket_write h w ptr n } \<noteq> None \<longleftrightarrow>
    length ptr + (if is_raw = 0 then 4 else 0) \<le> (if k < 8 then 256 - 2 ^ k else 2 ^ k)"
proof -
  have "(2::nat) ^ k \<le> 2 ^ 31" using assms(4) by (intro power_increasing) auto
  then have c: "unat (GetSize_of_pow2 sz) < 2 ^ 32 - 32" using assms(3,4) by (simp add: unat_2_power)
  have c4: "4 \<le> unat (GetSize_of_pow2 sz)" if "is_raw = 0"
  proof -
    have "(2::nat) ^ 2 \<le> 2 ^ k" using assms(5) that by (intro power_increasing) auto
    then show ?thesis using assms(3,4) by (simp add: unat_2_power)
  qed
  obtain w h' where w: "wpacket_create h mt allo sz is_raw = Some (w, h')" "wrepr h' w [fresh h] []"
    "w_raw w = is_raw" "room h' w + (if is_raw = 0 then 4 else 0) =
       unat (GetSize_of_pow2 sz) + exp_room (ucast (GetSize_of_pow2 sz))" "exp_count (w_factor w) \<le> avail h'"
    by (rule wpacket_create_repr [OF assms(1,2) c c4]) blast+
  have rm: "room h' w + (if is_raw = 0 then 4 else 0) = (if k < 8 then 256 - 2 ^ k else 2 ^ k)"
    using w(4) assms(3) created_room [OF assms(4)] by simp
  have tot: "length (w_header w [] @ []) + unat n < 2 ^ 32"
    using assms(6,7) by (simp add: w_header_def)
  have wb: "w_writebuf w \<noteq> NULL" by (rule last_cell [OF w(2)]) simp
  show ?thesis
  proof (cases "length ptr \<le> room h' w")
    case True
    then have "wpacket_write h' w ptr n \<noteq> None"
      using wpacket_write_repr [OF w(2) _ _ w(5) tot, of ptr] assms(6) by (metis option.distinct(1) order_refl)
    with True rm w(1) show ?thesis by auto
  next
    case False
    then have "wpacket_write_loop h' w ptr n = None"
      using assms(6) by (intro wpacket_write_loop_None [OF w(2) _ _ tot]) auto
    with False rm w(1) wb show ?thesis by (auto simp: wpacket_write_def)
  qed
qed

text \<open>creating a packet with a length field in a buffer rounded to fewer than four bytes (a
  requested size of 0, 1 or 2) stores the length past the end of the buffer.\<close>

theorem wpacket_create_overrun:
  assumes "unat sz < 3" and "heap_ok h"
  shows "wpacket_create h mt allo sz 0 = None"
proof -
  have c: "unat (GetSize_of_pow2 sz) < 4"
  proof -
    have "unat sz = 0 \<or> unat sz = 1 \<or> unat sz = 2" using assms(1) by linarith
    then have "sz = 0 \<or> sz = 1 \<or> sz = 2" by (simp add: word_unat_eq_iff)
    then show ?thesis by (auto simp: GetSize_of_pow2_def is_pow_of_2_def)
  qed
  show ?thesis
  proof (cases "avail h < 2")
    case True
    then have "obj_alloc h = None \<or> (\<exists>h0. obj_alloc h = Some h0 \<and> avail h0 = 0)"
      by (auto simp: obj_alloc_def)
    then show ?thesis
      by (auto simp: wpacket_create_def buffer_create_and_acquire_oom Let_def buffer_acquire_def len_set_def)
  next
    case False
    let ?c = "GetSize_of_pow2 sz" and ?F = "fresh h"
    define h0 where "h0 = h\<lparr>avail := avail h - 1\<rparr>"
    have F: "?F \<noteq> NULL" using assms(2) by (simp add: heap_ok_def)
    have 0: "obj_alloc h = Some h0" using False by (simp add: obj_alloc_def h0_def)
    have ok0: "heap_ok h0" "avail h0 \<noteq> 0" "fresh h0 = ?F"
      using False assms(2) by (auto simp: h0_def heap_ok_def)
    have "unat ?c < 2 ^ 32 - 32" using c by simp
    from buffer_create_and_acquire_new [OF ok0(1,2) this, of mt]
    obtain h1 where 1: "buffer_create_and_acquire h0 mt NULL ?c = Some (?F, h1)" "bufs h1 ?F = Some (new_buffer mt ?c 1)"
      unfolding ok0(3) by simp
    have 2: "buffer_acquire h1 NULL ?F = Some (?F, bput h1 ?F (new_buffer mt ?c 2))"
      using buffer_acquire_fresh [OF F 1(2)] by simp
    have "mem_write 0 (le_bytes (0::u32)) (b_buf (new_buffer mt ?c 2)) = None"
      using c by (simp add: mem_write_def new_buffer_def)
    then have "len_set (bput h1 ?F (new_buffer mt ?c 2)) ?F 0 = None"
      using F by (simp add: len_set_def)
    then show ?thesis using 0 1(1) 2 by (simp add: wpacket_create_def Let_def)
  qed
qed

text \<open>A heap without buffers, and the packet that is created first in it.\<close>

definition heap0 :: bheap where
  "heap0 = \<lparr>bufs = Map.empty, fresh = 1, avail = 20\<rparr>"

lemma heap0_ok: "heap_ok heap0" "avail heap0 = 20" "fresh heap0 = 1"
  by (simp_all add: heap0_def heap_ok_def)

lemma GetSize_of_pow2_16: "GetSize_of_pow2 16 = 2 ^ 4"
  by (simp add: GetSize_of_pow2_def is_pow_of_2_def)

lemma wpacket_write_appends_witness:
  "\<exists>w h ps h' w' qs. wpacket_create heap0 1 0 16 0 = Some (w, h) \<and>
    wpacket_write h w (replicate 30 7) 30 = Some (w', h') \<and> wrepr h' w' (ps @ qs) ([] @ replicate 30 7)"
proof -
  have av: "10 \<le> avail heap0" by (simp add: heap0_ok)
  have c: "unat (GetSize_of_pow2 16) < 2 ^ 32 - 32" "(0::u8) = 0 \<Longrightarrow> 4 \<le> unat (GetSize_of_pow2 16)"
    by (simp_all add: GetSize_of_pow2_16)
  obtain w h' where w: "wpacket_create heap0 1 0 16 0 = Some (w, h')" "wrepr h' w [fresh heap0] []"
    "w_raw w = 0" "room h' w + (if (0::u8) = 0 then 4 else 0) =
       unat (GetSize_of_pow2 16) + exp_room (ucast (GetSize_of_pow2 16))" "exp_count (w_factor w) \<le> avail h'"
    by (rule wpacket_create_repr [OF heap0_ok(1) av c]) blast
  have "room h' w = 236"
    using w(4) by (simp add: GetSize_of_pow2_16 exp_room_pow [of 4, simplified])
  then have "\<exists>h'' w' qs. wpacket_write h' w (replicate 30 7) 30 = Some (w', h'') \<and>
    wrepr h'' w' ([fresh heap0] @ qs) ([] @ replicate 30 7) \<and>
    room h'' w' + length (replicate 30 (7::byte)) = room h' w \<and>
    (\<forall>a. a \<notin> set [fresh heap0] \<and> a < fresh h' \<longrightarrow> bufs h'' a = bufs h' a) \<and> (\<forall>a\<in>set qs. fresh h' \<le> a)"
    using w by (intro wpacket_write_appends) (auto simp: w_header_def)
  then show ?thesis using w(1) by blast
qed

lemma wpacket_write_limit_witness:
  "do { (w, h) \<leftarrow> wpacket_create heap0 1 0 16 0; wpacket_write h w (replicate 236 7) 236 } \<noteq> None \<and>
   do { (w, h) \<leftarrow> wpacket_create heap0 1 0 16 0; wpacket_write h w (replicate 237 7) 237 } = None"
proof -
  have 1: "10 \<le> avail heap0" "GetSize_of_pow2 16 = 2 ^ 4" "(4::nat) < 32" "(0::u8) = 0 \<Longrightarrow> (2::nat) \<le> 4"
    by (simp_all add: heap0_ok GetSize_of_pow2_16)
  show ?thesis
    using 1 heap0_ok wpacket_write_limit [where h = heap0 and k = 4 and sz = 16 and is_raw = 0 and mt = 1 and allo = 0 and n = 236 and ptr = "replicate 236 7"]
      wpacket_write_limit [where h = heap0 and k = 4 and sz = 16 and is_raw = 0 and mt = 1 and allo = 0 and n = 237 and ptr = "replicate 237 7"]
    by (simp del: not_None_eq)
qed

lemma wpacket_create_overrun_witness: "wpacket_create heap0 1 0 2 0 = None"
  by (rule wpacket_create_overrun) (simp_all add: heap0_ok)

end
