(* ===== verification/Rpacket.thy ===== *)
theory Rpacket
  imports Wpacket
begin

text \<open>
  Read packets: src/epoll_mutilthread/include/rpacket.h, src/rpacket.c and the function of
  src/wpacket.c that makes a write packet of a read packet.  A read packet is a value over the heap
  of buffers; a pointer the reader hands out is the address of a buffer and an offset in its data.
\<close>

section \<open>State\<close>

record rpacket =
  r_next :: addr
  r_type :: msg_type
  r_len :: u32
  r_rpos :: u32
  r_data_remain :: u32
  r_binbufpos :: u32
  r_begin_pos :: u32
  r_binbuf :: addr
  r_buf :: addr
  r_readbuf :: addr
  r_raw :: u8
  r_mt :: u8
  r_usr_data :: u64
  r_allocator :: addr

type_synonym data_ptr = "(addr \<times> nat) option"

section \<open>Creation and destruction\<close>

definition rpacket_create ::
    "bheap \<Rightarrow> u8 \<Rightarrow> addr \<Rightarrow> addr \<Rightarrow> u32 \<Rightarrow> u32 \<Rightarrow> u8 \<Rightarrow> (rpacket \<times> bheap) option" where
  "rpacket_create h mt allo b pos pk_len is_raw = do {
     h \<leftarrow> obj_alloc h;
     (bf, h) \<leftarrow> buffer_acquire h NULL b;
     (rb, h) \<leftarrow> buffer_acquire h NULL b;
     let r = \<lparr>r_next = NULL, r_type = MSG_RPACKET, r_len = pk_len, r_rpos = 0,
              r_data_remain = pk_len, r_binbufpos = 0, r_begin_pos = pos, r_binbuf = NULL,
              r_buf = bf, r_readbuf = rb, r_raw = 0, r_mt = mt, r_usr_data = 0, r_allocator = allo\<rparr>;
     r \<leftarrow> (if is_raw \<noteq> 0 then Some (r\<lparr>r_rpos := pos\<rparr>)
           else do {
             x \<leftarrow> bget h (r_buf r);
             if b_capacity x = 0 then None
             else Some (r\<lparr>r_rpos := (pos + 4) mod b_capacity x\<rparr>)
           });
     (r, h) \<leftarrow> (if r_rpos r < r_begin_pos r
           then do {
             x \<leftarrow> bget h (r_readbuf r);
             (rb, h) \<leftarrow> buffer_acquire h (r_readbuf r) (b_next x);
             Some (r\<lparr>r_readbuf := rb\<rparr>, h)
           }
           else Some (r, h));
     Some (r\<lparr>r_raw := is_raw\<rparr>, h)
   }"

definition rpacket_create_by_rpacket :: "bheap \<Rightarrow> rpacket \<Rightarrow> (rpacket \<times> bheap) option" where
  "rpacket_create_by_rpacket h other = do {
     h \<leftarrow> obj_alloc h;
     (bf, h) \<leftarrow> buffer_acquire h NULL (r_buf other);
     (rb, h) \<leftarrow> buffer_acquire h NULL (r_readbuf other);
     Some (\<lparr>r_next = NULL, r_type = MSG_RPACKET, r_len = r_len other, r_rpos = r_rpos other,
            r_data_remain = r_len other, r_binbufpos = 0, r_begin_pos = r_begin_pos other,
            r_binbuf = NULL, r_buf = bf, r_readbuf = rb, r_raw = r_raw other, r_mt = r_mt other,
            r_usr_data = 0, r_allocator = r_allocator other\<rparr>, h)
   }"

definition rpacket_create_by_wpacket :: "bheap \<Rightarrow> addr \<Rightarrow> wpacket \<Rightarrow> (rpacket \<times> bheap) option" where
  "rpacket_create_by_wpacket h allo w = do {
     h \<leftarrow> obj_alloc h;
     (bf, h) \<leftarrow> buffer_acquire h NULL (w_buf w);
     (rb, h) \<leftarrow> buffer_acquire h NULL (w_buf w);
     let r = \<lparr>r_next = NULL, r_type = MSG_RPACKET, r_len = 0, r_rpos = 0,
              r_data_remain = 0, r_binbufpos = 0, r_begin_pos = w_begin_pos w, r_binbuf = NULL,
              r_buf = bf, r_readbuf = rb, r_raw = w_raw w, r_mt = w_mt w, r_usr_data = 0,
              r_allocator = allo\<rparr>;
     (r, h) \<leftarrow> (if r_raw r \<noteq> 0
           then Some (r\<lparr>r_len := w_data_size w, r_rpos := w_begin_pos w\<rparr>, h)
           else do {
             let r = r\<lparr>r_len := w_data_size w - 4\<rparr>;
             x \<leftarrow> bget h (r_buf r);
             r \<leftarrow> (if b_capacity x = 0 then None
                   else Some (r\<lparr>r_rpos := (r_begin_pos r + 4) mod b_capacity x\<rparr>));
             if r_rpos r < r_begin_pos r
             then do {
               x \<leftarrow> bget h (r_readbuf r);
               (rb, h) \<leftarrow> buffer_acquire h (r_readbuf r) (b_next x);
               Some (r\<lparr>r_readbuf := rb\<rparr>, h)
             }
             else Some (r, h)
           });
     Some (r\<lparr>r_data_remain := r_len r\<rparr>, h)
   }"

definition rpacket_destroy :: "bheap \<Rightarrow> rpacket \<Rightarrow> bheap option" where
  "rpacket_destroy h r = do {
     h \<leftarrow> buffer_release h (r_buf r);
     h \<leftarrow> buffer_release h (r_readbuf r);
     buffer_release h (r_binbuf r)
   }"

definition wpacket_create_by_rpacket :: "bheap \<Rightarrow> addr \<Rightarrow> rpacket \<Rightarrow> (wpacket \<times> bheap) option" where
  "wpacket_create_by_rpacket h allo r = do {
     h \<leftarrow> obj_alloc h;
     (bf, h) \<leftarrow> buffer_acquire h NULL (r_buf r);
     Some (\<lparr>w_next = NULL, w_type = MSG_WPACKET, w_len = NULL, w_buf = bf, w_writebuf = NULL,
            w_wpos = 0, w_factor = 0, w_begin_pos = r_begin_pos r,
            w_data_size = (if r_raw r \<noteq> 0 then r_len r else r_len r + 4), w_raw = r_raw r,
            w_mt = r_mt r, w_usr_data = 0, w_send_finish = NULL, w_allocator = allo, w_send_tick = 0\<rparr>, h)
   }"

section \<open>Reading\<close>

definition rpacket_len :: "rpacket \<Rightarrow> u32" where
  "rpacket_len r = r_len r"

definition rpacket_data_remain :: "rpacket \<Rightarrow> u32" where
  "rpacket_data_remain r = r_data_remain r"

text \<open>
  The end of each round of the three copy loops: when the buffer is used up and data remains, the
  reader moves its reference to the next buffer.
\<close>

definition rpacket_advance :: "bheap \<Rightarrow> rpacket \<Rightarrow> (rpacket \<times> bheap) option" where
  "rpacket_advance h r = do {
     x \<leftarrow> bget h (r_readbuf r);
     if r_rpos r \<ge> b_size x \<and> r_data_remain r \<noteq> 0
     then do {
       let r = r\<lparr>r_rpos := 0\<rparr>;
       (rb, h) \<leftarrow> buffer_acquire h (r_readbuf r) (b_next x);
       Some (r\<lparr>r_readbuf := rb\<rparr>, h)
     }
     else Some (r, h)
   }"

partial_function (option) rpacket_read_loop ::
    "bheap \<Rightarrow> rpacket \<Rightarrow> byte list \<Rightarrow> u32 \<Rightarrow> (int \<times> byte list \<times> rpacket \<times> bheap) option" where
  "rpacket_read_loop h r out sz =
     (if sz = 0 then Some (0, out, r, h)
      else Option.bind (bget h (r_readbuf r)) (\<lambda>x.
        let copy_size = b_size x - r_rpos r;
            copy_size = (if copy_size \<ge> sz then sz else copy_size)
        in Option.bind (mem_read (unat (r_rpos r)) (unat copy_size) (b_buf x)) (\<lambda>bs.
             Option.bind (rpacket_advance h (r\<lparr>r_rpos := r_rpos r + copy_size,
                 r_data_remain := r_data_remain r - copy_size\<rparr>)) (\<lambda>(r, h).
               rpacket_read_loop h r (out @ bs) (sz - copy_size)))))"

definition rpacket_read :: "bheap \<Rightarrow> rpacket \<Rightarrow> u32 \<Rightarrow> (int \<times> byte list \<times> rpacket \<times> bheap) option" where
  "rpacket_read h r sz = (if r_data_remain r < sz then Some (-1, [], r, h) else rpacket_read_loop h r [] sz)"

text \<open>The typed reads: the value starts as 0 and is overwritten by the bytes that were read.\<close>

definition rpacket_read_uint8 :: "bheap \<Rightarrow> rpacket \<Rightarrow> (u8 \<times> rpacket \<times> bheap) option" where
  "rpacket_read_uint8 h r = do { (rc, bs, r, h) \<leftarrow> rpacket_read h r 1; Some (le_word bs, r, h) }"

definition rpacket_read_uint16 :: "bheap \<Rightarrow> rpacket \<Rightarrow> (u16 \<times> rpacket \<times> bheap) option" where
  "rpacket_read_uint16 h r = do { (rc, bs, r, h) \<leftarrow> rpacket_read h r 2; Some (le_word bs, r, h) }"

definition rpacket_read_uint32 :: "bheap \<Rightarrow> rpacket \<Rightarrow> (u32 \<times> rpacket \<times> bheap) option" where
  "rpacket_read_uint32 h r = do { (rc, bs, r, h) \<leftarrow> rpacket_read h r 4; Some (le_word bs, r, h) }"

definition rpacket_read_uint64 :: "bheap \<Rightarrow> rpacket \<Rightarrow> (u64 \<times> rpacket \<times> bheap) option" where
  "rpacket_read_uint64 h r = do { (rc, bs, r, h) \<leftarrow> rpacket_read h r 8; Some (le_word bs, r, h) }"

definition rpacket_read_double :: "bheap \<Rightarrow> rpacket \<Rightarrow> (u64 \<times> rpacket \<times> bheap) option" where
  "rpacket_read_double h r = do { (rc, bs, r, h) \<leftarrow> rpacket_read h r 8; Some (le_word bs, r, h) }"

text \<open>The copy loop of the two binary reads, into the packet's own buffer.\<close>

partial_function (option) rpacket_binbuf_loop :: "bheap \<Rightarrow> rpacket \<Rightarrow> u32 \<Rightarrow> (rpacket \<times> bheap) option" where
  "rpacket_binbuf_loop h r sz =
     (if sz = 0 then Some (r, h)
      else Option.bind (bget h (r_readbuf r)) (\<lambda>x.
        let copy_size = b_size x - r_rpos r;
            copy_size = (if copy_size \<ge> sz then sz else copy_size)
        in Option.bind (mem_read (unat (r_rpos r)) (unat copy_size) (b_buf x)) (\<lambda>bs.
           Option.bind (bget h (r_binbuf r)) (\<lambda>y.
           Option.bind (mem_write (unat (r_binbufpos r)) bs (b_buf y)) (\<lambda>m.
             Option.bind (rpacket_advance (bput h (r_binbuf r) (y\<lparr>b_buf := m\<rparr>))
                 (r\<lparr>r_rpos := r_rpos r + copy_size, r_data_remain := r_data_remain r - copy_size,
                    r_binbufpos := r_binbufpos r + copy_size\<rparr>)) (\<lambda>(r, h).
               rpacket_binbuf_loop h r (sz - copy_size)))))))"

definition rpacket_need_binbuf :: "bheap \<Rightarrow> rpacket \<Rightarrow> (rpacket \<times> bheap) option" where
  "rpacket_need_binbuf h r =
     (if r_binbuf r = NULL
      then do {
        (bb, h) \<leftarrow> buffer_create_and_acquire h (r_mt r) NULL (r_len r);
        Some (r\<lparr>r_binbufpos := 0, r_binbuf := bb\<rparr>, h)
      }
      else Some (r, h))"

text \<open>
  The caller's variable behind the pointer len goes in and comes back: where the code does not
  store to it, it is what it was.
\<close>

definition rpacket_raw_read_binary ::
    "bheap \<Rightarrow> rpacket \<Rightarrow> u32 \<Rightarrow> (data_ptr \<times> u32 \<times> rpacket \<times> bheap) option" where
  "rpacket_raw_read_binary h r len =
     (if r_data_remain r = 0 then Some (None, len, r, h)
      else do {
        x \<leftarrow> bget h (r_readbuf r);
        if b_size x - r_rpos r \<ge> r_data_remain r
        then do {
          let len = r_data_remain r;
          let r = r\<lparr>r_data_remain := 0\<rparr>;
          let addr = Some (r_readbuf r, unat (r_rpos r));
          Some (addr, len, r\<lparr>r_rpos := r_rpos r + r_data_remain r\<rparr>, h)
        }
        else do {
          (r, h) \<leftarrow> rpacket_need_binbuf h r;
          y \<leftarrow> bget h (r_binbuf r);
          let addr = Some (r_binbuf r, unat (r_binbufpos r));
          (r, h) \<leftarrow> rpacket_binbuf_loop h r (r_data_remain r);
          Some (addr, len, r, h)
        }
      })"

definition rpacket_read_binary ::
    "bheap \<Rightarrow> rpacket \<Rightarrow> u32 \<Rightarrow> (data_ptr \<times> u32 \<times> rpacket \<times> bheap) option" where
  "rpacket_read_binary h r len =
     (if r_raw r \<noteq> 0 then rpacket_raw_read_binary h r len
      else do {
        (sz, r, h) \<leftarrow> rpacket_read_uint32 h r;
        let len = sz;
        if r_data_remain r = 0 \<or> r_data_remain r < sz then Some (None, len, r, h)
        else do {
          x \<leftarrow> bget h (r_readbuf r);
          if b_size x - r_rpos r \<ge> sz
          then do {
            let addr = Some (r_readbuf r, unat (r_rpos r));
            (r, h) \<leftarrow> rpacket_advance h (r\<lparr>r_rpos := r_rpos r + sz, r_data_remain := r_data_remain r - sz\<rparr>);
            Some (addr, len, r, h)
          }
          else do {
            (r, h) \<leftarrow> rpacket_need_binbuf h r;
            y \<leftarrow> bget h (r_binbuf r);
            let addr = Some (r_binbuf r, unat (r_binbufpos r));
            (r, h) \<leftarrow> rpacket_binbuf_loop h r sz;
            Some (addr, len, r, h)
          }
        }
      })"

definition rpacket_read_string :: "bheap \<Rightarrow> rpacket \<Rightarrow> (data_ptr \<times> rpacket \<times> bheap) option" where
  "rpacket_read_string h r = do {
     (addr, len, r, h) \<leftarrow> (if r_raw r \<noteq> 0 then rpacket_raw_read_binary h r 0 else rpacket_read_binary h r 0);
     Some (addr, r, h)
   }"

section \<open>What a read packet stands for\<close>

text \<open>
  The reader is at offset r_rpos of the first buffer of the chain qs and d is what is left to read.
  Somebody else also refers to the buffer the reader is at, so moving on never frees it.
\<close>

definition rview :: "bheap \<Rightarrow> rpacket \<Rightarrow> addr list \<Rightarrow> byte list \<Rightarrow> bool" where
  "rview h r qs d \<longleftrightarrow>
     bchain (bufs h) (r_readbuf r) qs \<and> qs \<noteq> [] \<and> chain_wf (bufs h) qs \<and>
     shared (bufs h) (hd qs) \<and> refs_ok (bufs h) (tl qs) \<and>
     (\<exists>x. bufs h (hd qs) = Some x \<and> r_rpos r \<le> b_size x) \<and>
     d = take (unat (r_data_remain r)) (drop (unat (r_rpos r)) (chain_data (bufs h) qs)) \<and>
     length d = unat (r_data_remain r)"

text \<open>Reading changes only reference counts, and only in the chain.\<close>

definition same_data :: "(addr \<rightharpoonup> buffer) \<Rightarrow> (addr \<rightharpoonup> buffer) \<Rightarrow> bool" where
  "same_data m m' \<longleftrightarrow>
     (\<forall>a. map_option (\<lambda>x. (b_capacity x, b_size x, b_next x, b_buf x)) (m' a) =
          map_option (\<lambda>x. (b_capacity x, b_size x, b_next x, b_buf x)) (m a))"

lemma same_data_refl [simp]: "same_data m m"
  by (simp add: same_data_def)

lemma same_data_trans: "same_data m m' \<Longrightarrow> same_data m' m'' \<Longrightarrow> same_data m m''"
  by (simp add: same_data_def)

lemma same_dataD:
  assumes "same_data m m'" "m a = Some x"
  obtains y where "m' a = Some y" "b_capacity y = b_capacity x" "b_size y = b_size x"
    "b_next y = b_next x" "b_buf y = b_buf x"
proof -
  have "map_option (\<lambda>x. (b_capacity x, b_size x, b_next x, b_buf x)) (m' a) =
      map_option (\<lambda>x. (b_capacity x, b_size x, b_next x, b_buf x)) (m a)"
    using assms(1) by (simp add: same_data_def)
  with assms(2) that show thesis by (cases "m' a") auto
qed

definition only_counts :: "bheap \<Rightarrow> bheap \<Rightarrow> addr list \<Rightarrow> bool" where
  "only_counts h h' qs \<longleftrightarrow> same_data (bufs h) (bufs h') \<and> fresh h' = fresh h \<and> avail h' = avail h \<and>
     (\<forall>a. a \<notin> set qs \<longrightarrow> bufs h' a = bufs h a)"

lemma only_counts_refl [simp]: "only_counts h h qs"
  by (simp add: only_counts_def)

lemma only_counts_trans:
  "only_counts h h' qs \<Longrightarrow> only_counts h' h'' qs' \<Longrightarrow> set qs' \<subseteq> set qs \<Longrightarrow> only_counts h h'' qs"
  unfolding only_counts_def using same_data_trans by (metis subsetD)

lemma rview_length: "rview h r qs d \<Longrightarrow> length d = unat (r_data_remain r)"
  unfolding rview_def by blast

text \<open>The fields a read moves, everything else of the packet being kept.\<close>

definition moved :: "rpacket \<Rightarrow> rpacket \<Rightarrow> bool" where
  "moved r r' \<longleftrightarrow>
     r' = r\<lparr>r_rpos := r_rpos r', r_data_remain := r_data_remain r', r_readbuf := r_readbuf r'\<rparr>"

lemma moved_refl [simp]: "moved r r"
  by (simp add: moved_def)

lemma moved_trans: "moved r r' \<Longrightarrow> moved r' r'' \<Longrightarrow> moved r r''"
  unfolding moved_def by (cases r; cases r'; cases r'') simp

lemma moved_upd [simp]: "moved r (r\<lparr>r_rpos := p\<rparr>)" "moved r (r\<lparr>r_data_remain := m\<rparr>)" "moved r (r\<lparr>r_readbuf := b\<rparr>)"
  "moved r (r\<lparr>r_rpos := p, r_data_remain := m\<rparr>)" "moved r (r\<lparr>r_rpos := p, r_readbuf := b\<rparr>)"
  "moved r (r\<lparr>r_rpos := p, r_data_remain := m, r_readbuf := b\<rparr>)"
  by (simp_all add: moved_def)

lemma moved_fields:
  assumes "moved r r'"
  shows "r_len r' = r_len r" "r_raw r' = r_raw r" "r_mt r' = r_mt r" "r_binbuf r' = r_binbuf r"
    "r_binbufpos r' = r_binbufpos r" "r_buf r' = r_buf r" "r_begin_pos r' = r_begin_pos r"
    "r_allocator r' = r_allocator r"
  by (subst assms [unfolded moved_def], simp)+

lemma rview_Cons:
  assumes "rview h r qs d"
  obtains q rs x where "qs = q # rs" "r_readbuf r = q" "q \<noteq> NULL" "bufs h q = Some x" "bget h q = Some x"
    "bwf x" "r_rpos r \<le> b_size x" "bchain (bufs h) (b_next x) rs" "1 < sint (rb_refcount (b_ref x))"
    "unat (b_size x - r_rpos r) = unat (b_size x) - unat (r_rpos r)"
    "d = take (unat (r_data_remain r)) (drop (unat (r_rpos r)) (bcontent x) @ chain_data (bufs h) rs)"
    "length (bcontent x) = unat (b_size x)" "distinct qs"
proof -
  obtain q rs where qs: "qs = q # rs" using assms by (cases qs) (auto simp: rview_def)
  obtain x where x: "bufs h q = Some x" "r_rpos r \<le> b_size x" using assms qs by (auto simp: rview_def)
  have q: "r_readbuf r = q" "q \<noteq> NULL" "bchain (bufs h) (b_next x) rs"
    using assms qs x by (auto simp: rview_def)
  have wf: "bwf x" using assms qs x by (auto simp: rview_def)
  have l: "length (bcontent x) = unat (b_size x)" by (rule length_bcontent [OF wf])
  have rl: "unat (r_rpos r) \<le> length (bcontent x)" using x(2) l by (simp add: word_le_nat_alt)
  have d: "d = take (unat (r_data_remain r)) (drop (unat (r_rpos r)) (bcontent x) @ chain_data (bufs h) rs)"
    using assms qs x rl by (simp add: rview_def cell_data_def)
  have "1 < sint (rb_refcount (b_ref x))" using assms qs x by (simp add: rview_def shared_def)
  moreover have "distinct qs" using assms bseg_distinct by (auto simp: rview_def)
  ultimately show thesis using that [OF qs q(1,2) x(1) _ wf x(2) q(3) _ unat_sub [OF x(2)] d l] q(2) x(1)
    by (simp add: bget_def)
qed

text \<open>Taking c bytes from the buffer the reader is at.\<close>

lemma rview_take:
  assumes "rview h r qs d" and "bget h (r_readbuf r) = Some x"
    and "unat c \<le> unat (b_size x - r_rpos r)" and "unat c \<le> length d"
  shows "mem_read (unat (r_rpos r)) (unat c) (b_buf x) = Some (take (unat c) d)"
    and "rview h (r\<lparr>r_rpos := r_rpos r + c, r_data_remain := r_data_remain r - c\<rparr>) qs (drop (unat c) d)"
    and "c = b_size x - r_rpos r \<Longrightarrow> r_rpos r + c = b_size x"
proof -
  obtain q rs y where q: "qs = q # rs" "r_readbuf r = q" "bget h q = Some y" "bwf y" "r_rpos r \<le> b_size y"
    "unat (b_size y - r_rpos r) = unat (b_size y) - unat (r_rpos r)" "bufs h q = Some y"
    "d = take (unat (r_data_remain r)) (drop (unat (r_rpos r)) (bcontent y) @ chain_data (bufs h) rs)"
    "length (bcontent y) = unat (b_size y)"
    by (rule rview_Cons [OF assms(1)])
  have xy: "y = x" using q assms(2) by simp
  note q = q [unfolded xy]
  have dl: "length d = unat (r_data_remain r)" by (rule rview_length [OF assms(1)])
  have c1: "unat c \<le> unat (b_size x) - unat (r_rpos r)" using assms(3) q(6) by simp
  have p: "unat (r_rpos r) \<le> unat (b_size x)" using q(5) by (simp add: word_le_nat_alt)
  show "mem_read (unat (r_rpos r)) (unat c) (b_buf x) = Some (take (unat c) d)"
  proof -
    have "take (unat c) d = take (unat c) (drop (unat (r_rpos r)) (bcontent x))"
      using q(8,9) c1 assms(4) dl p by (simp add: min_def)
    then show ?thesis using cell_read [OF q(4,5) c1] by simp
  qed
  have r1: "unat (r_rpos r + c) = unat (r_rpos r) + unat c"
    using c1 p by (intro unat_add_le [of _ _ "b_size x"]) linarith
  have dr: "unat (r_data_remain r - c) = unat (r_data_remain r) - unat c"
    using assms(4) dl by (intro unat_sub) (simp add: word_le_nat_alt)
  have le: "r_rpos r + c \<le> b_size x" using r1 c1 p by (simp add: word_le_nat_alt)
  have D: "drop (unat (r_rpos r) + unat c) (chain_data (bufs h) qs) =
      drop (unat c) (drop (unat (r_rpos r)) (chain_data (bufs h) qs))"
    by (simp add: add.commute)
  have "d = take (unat (r_data_remain r)) (drop (unat (r_rpos r)) (chain_data (bufs h) qs))"
    using assms(1) by (simp add: rview_def)
  then have "drop (unat c) d = take (unat (r_data_remain r) - unat c)
      (drop (unat (r_rpos r) + unat c) (chain_data (bufs h) qs))"
    unfolding D by (simp add: drop_take)
  moreover have "length (drop (unat c) d) = unat (r_data_remain r) - unat c" using dl by simp
  moreover have "\<exists>x. bufs h (hd qs) = Some x \<and> r_rpos r + c \<le> b_size x" using le q(1,7) by simp
  ultimately show "rview h (r\<lparr>r_rpos := r_rpos r + c, r_data_remain := r_data_remain r - c\<rparr>) qs (drop (unat c) d)"
    using assms(1) unfolding rview_def by (simp add: r1 dr)
  show "c = b_size x - r_rpos r \<Longrightarrow> r_rpos r + c = b_size x" by simp
qed

text \<open>Moving to the next buffer.\<close>

lemma rpacket_advance_view:
  assumes "rview h r qs d"
  obtains r' h' qs' where "rpacket_advance h r = Some (r', h')" "rview h' r' qs' d"
    "moved r r'" "r_data_remain r' = r_data_remain r" "only_counts h h' qs" "set qs' \<subseteq> set qs"
    "\<And>x. bget h (r_readbuf r) = Some x \<Longrightarrow> r_rpos r = b_size x \<Longrightarrow> d \<noteq> [] \<Longrightarrow> qs' = tl qs"
    "qs' = qs \<or> qs' = tl qs"
proof -
  obtain q rs x where q: "qs = q # rs" "r_readbuf r = q" "q \<noteq> NULL" "bufs h q = Some x" "bget h q = Some x"
    "r_rpos r \<le> b_size x" "bchain (bufs h) (b_next x) rs" "1 < sint (rb_refcount (b_ref x))"
    "d = take (unat (r_data_remain r)) (drop (unat (r_rpos r)) (bcontent x) @ chain_data (bufs h) rs)"
    "length (bcontent x) = unat (b_size x)" "distinct qs"
    by (rule rview_Cons [OF assms])
  have dl: "length d = unat (r_data_remain r)" by (rule rview_length [OF assms])
  show thesis
  proof (cases "r_rpos r \<ge> b_size x \<and> r_data_remain r \<noteq> 0")
    case False
    have "rpacket_advance h r = Some (r, h)"
      using False q(2,5) by (auto simp: rpacket_advance_def)
    moreover have "d = []" if "r_rpos r = b_size x" using False that dl by simp
    ultimately show thesis using that [of r h qs] assms q(2,5) by auto
  next
    case True
    then have rp: "r_rpos r = b_size x" and ne: "d \<noteq> []" using q(6) dl by (auto simp: unat_eq_0)
    then have dd: "d = take (unat (r_data_remain r)) (chain_data (bufs h) rs)" using q(9,10) by simp
    with ne obtain s ts where rs: "rs = s # ts" by (cases rs) auto
    obtain y where y: "b_next x = s" "s \<noteq> NULL" "bufs h s = Some y" "bchain (bufs h) (b_next y) ts"
      using q(7) rs by (auto split: option.splits)
    have sq: "q \<noteq> s" "q \<notin> set ts" "s \<notin> set ts" using q(1,11) rs by auto
    define h' where "h' = bput (bput h s (inc_ref y)) q (dec_ref x)"
    define r' where "r' = r\<lparr>r_rpos := 0, r_readbuf := s\<rparr>"
    have "rpacket_advance h r = Some (r', h')"
      using True q(2,5) y(1) buffer_acquire_move [OF q(3) y(2) sq(1) q(4) y(3) q(8)]
      by (simp add: rpacket_advance_def h'_def r'_def)
    moreover have m': "bufs h' = (bufs h)(s \<mapsto> inc_ref y, q \<mapsto> dec_ref x)" by (simp add: h'_def)
    moreover have "rview h' r' rs d"
    proof -
      have ry: "1 \<le> sint (rb_refcount (b_ref y))" "sint (rb_refcount (b_ref y)) < 2 ^ 30"
        using assms q(1) rs y(3) by (auto simp: rview_def refs_ok_def)
      have wy: "bwf y" using assms q(1) rs y(3) by (simp add: rview_def)
      have a1: "bchain (bufs h') s rs" using rs y sq by (simp add: m' bseg_upd)
      have a2: "chain_wf (bufs h') rs"
      proof -
        have "chain_wf (bufs h) ts" using assms q(1) rs by (simp add: rview_def)
        then have "chain_wf (bufs h') ts" using sq by (auto simp: chain_wf_def m')
        then show ?thesis using rs wy sq(1) by (auto simp: m' bwf_def)
      qed
      have a3: "shared (bufs h') s" using sq(1) ry by (simp add: shared_def m' inc_ref_def sint_inc)
      have a4: "refs_ok (bufs h') ts"
      proof -
        have "refs_ok (bufs h) ts" using assms q(1) rs by (simp add: rview_def refs_ok_def)
        then show ?thesis using sq by (auto simp: refs_ok_def m')
      qed
      have a5: "chain_data (bufs h') rs = chain_data (bufs h) rs"
      proof (rule chain_data_cong)
        fix a assume "a \<in> set rs"
        then have "a \<noteq> q" using q(1,11) by auto
        then show "cell_data (bufs h') a = cell_data (bufs h) a"
          using y(3) by (simp add: cell_data_def m' bcontent_def)
      qed
      show ?thesis
        using a1 a2 a3 a4 a5 rs sq(1) dd dl by (simp add: rview_def r'_def m')
    qed
    moreover have "only_counts h h' qs"
      using q(1,4) rs y(3) sq by (auto simp: only_counts_def same_data_def m' h'_def)
    ultimately show thesis using that [of r' h' rs] q(1) by (auto simp: r'_def)
  qed
qed

section \<open>Reading bytes\<close>

lemma read_loop_step:
  assumes "sz \<noteq> 0" "bget h (r_readbuf r) = Some x"
  shows "rpacket_read_loop h r out sz =
    (let c = min (b_size x - r_rpos r) sz
     in do {
       bs \<leftarrow> mem_read (unat (r_rpos r)) (unat c) (b_buf x);
       (r, h) \<leftarrow> rpacket_advance h (r\<lparr>r_rpos := r_rpos r + c, r_data_remain := r_data_remain r - c\<rparr>);
       rpacket_read_loop h r (out @ bs) (sz - c)
     })"
  using assms by (subst rpacket_read_loop.simps) (auto simp: Let_def min_def)

lemma read_loop_0 [simp]: "rpacket_read_loop h r out 0 = Some (0, out, r, h)"
  by (simp add: rpacket_read_loop.simps)

lemma rpacket_read_loop_view:
  assumes "rview h r qs d" and "unat sz \<le> length d"
  shows "\<exists>r' h' qs'. rpacket_read_loop h r out sz = Some (0, out @ take (unat sz) d, r', h') \<and>
    rview h' r' qs' (drop (unat sz) d) \<and> only_counts h h' qs \<and> set qs' \<subseteq> set qs \<and>
    moved r r'"
  using assms
proof (induction "length qs" arbitrary: h r qs d sz out rule: less_induct)
  case less
  show ?case
  proof (cases "sz = 0")
    case True
    then show ?thesis using less.prems
      by (subst rpacket_read_loop.simps) (auto intro!: exI [of _ qs])
  next
    case nz: False
    obtain q rs x where q: "qs = q # rs" "r_readbuf r = q" "bget h q = Some x" "distinct qs"
      by (rule rview_Cons [OF less.prems(1)])
    define rest where "rest = b_size x - r_rpos r"
    define c where "c = min rest sz"
    have c: "unat c \<le> unat rest" "unat c \<le> unat sz" by (auto simp: c_def min_def word_le_nat_alt)
    then have cd: "unat c \<le> length d" using less.prems(2) by simp
    let ?r1 = "r\<lparr>r_rpos := r_rpos r + c, r_data_remain := r_data_remain r - c\<rparr>"
    have gx: "bget h (r_readbuf r) = Some x" using q by simp
    note tk = rview_take [OF less.prems(1) gx c(1) [unfolded rest_def] cd]
    obtain r2 h2 qs2 where 2: "rpacket_advance h ?r1 = Some (r2, h2)" "rview h2 r2 qs2 (drop (unat c) d)"
      "moved ?r1 r2" "only_counts h h2 qs" "set qs2 \<subseteq> set qs"
      "\<And>x. bget h (r_readbuf ?r1) = Some x \<Longrightarrow> r_rpos ?r1 = b_size x \<Longrightarrow> drop (unat c) d \<noteq> [] \<Longrightarrow> qs2 = tl qs"
      by (rule rpacket_advance_view [OF tk(2)]) blast
    have step: "rpacket_read_loop h r out sz = rpacket_read_loop h2 r2 (out @ take (unat c) d) (sz - c)"
      using read_loop_step [OF nz gx, of out, folded rest_def] tk(1) 2(1) by (simp add: Let_def flip: c_def)
    have sub: "unat (sz - c) = unat sz - unat c" using c(2) by (intro unat_sub) (simp add: word_le_nat_alt)
    have "\<exists>r' h' qs'. rpacket_read_loop h2 r2 (out @ take (unat c) d) (sz - c) =
        Some (0, (out @ take (unat c) d) @ take (unat (sz - c)) (drop (unat c) d), r', h') \<and>
      rview h' r' qs' (drop (unat (sz - c)) (drop (unat c) d)) \<and> only_counts h2 h' qs2 \<and> set qs' \<subseteq> set qs2 \<and>
      moved r2 r'"
    proof (cases "c = sz")
      case True
      then show ?thesis using 2(2)
        by (subst rpacket_read_loop.simps) (auto intro!: exI [of _ qs2])
    next
      case False
      then have "c = rest" "c < sz" by (auto simp: c_def min_def split: if_splits)
      then have cr: "c = rest" "unat c < unat sz" by (simp_all add: word_less_nat_alt)
      then have "qs2 = tl qs" using 2(6) [of x] q tk(3) less.prems(2) by (simp add: rest_def)
      then have "length qs2 < length qs" using q by simp
      then show ?thesis using less.prems(2) sub by (intro less.hyps [OF _ 2(2)]) simp_all
    qed
    then obtain r' h' qs' where 3: "rpacket_read_loop h2 r2 (out @ take (unat c) d) (sz - c) =
        Some (0, (out @ take (unat c) d) @ take (unat (sz - c)) (drop (unat c) d), r', h')"
      "rview h' r' qs' (drop (unat (sz - c)) (drop (unat c) d))" "only_counts h2 h' qs2" "set qs' \<subseteq> set qs2"
      "moved r2 r'"
      by blast
    have "unat c + unat (sz - c) = unat sz" using sub c(2) by simp
    then have "take (unat c) d @ take (unat (sz - c)) (drop (unat c) d) = take (unat sz) d"
      "drop (unat (sz - c)) (drop (unat c) d) = drop (unat sz) d"
      by (metis take_add) (simp add: add.commute sub c(2))
    moreover have "moved r r'" using moved_trans [OF moved_trans [OF _ 2(3)] 3(5)] by simp
    ultimately show ?thesis
      using step 3 only_counts_trans [OF 2(4) 3(3) 2(5)] 2(5) by (auto simp del: drop_drop)
  qed
qed

lemma rpacket_read_view:
  assumes "rview h r qs d" and "unat sz \<le> length d"
  obtains r' h' qs' where "rpacket_read h r sz = Some (0, take (unat sz) d, r', h')"
    "rview h' r' qs' (drop (unat sz) d)" "only_counts h h' qs" "set qs' \<subseteq> set qs"
    "moved r r'"
proof -
  have "\<not> r_data_remain r < sz" using assms rview_length [OF assms(1)] by (simp add: word_less_nat_alt)
  then have "rpacket_read h r sz = rpacket_read_loop h r [] sz" by (simp add: rpacket_read_def)
  then show thesis using rpacket_read_loop_view [OF assms, of "[]"] that by auto
qed

lemma rpacket_read_short:
  "rview h r qs d \<Longrightarrow> length d < unat sz \<Longrightarrow> rpacket_read h r sz = Some (-1, [], r, h)"
  by (simp add: rpacket_read_def rview_length word_less_nat_alt)

section \<open>A read packet made of a write packet\<close>

lemma inc_ref_simps [simp]:
  "rb_refcount (b_ref (inc_ref x)) = rb_refcount (b_ref x) + 1" "bcontent (inc_ref x) = bcontent x"
  "bwf (inc_ref x) = bwf x" "rb_destroyer (b_ref (inc_ref x)) = rb_destroyer (b_ref x)"
  by (simp_all add: inc_ref_def bcontent_def bwf_def)

lemma first_cell:
  assumes "wrepr h w ps pl"
  obtains x qs where "ps = w_buf w # qs" "w_buf w \<noteq> NULL" "bufs h (w_buf w) = Some x" "bwf x"
    "1 \<le> sint (rb_refcount (b_ref x))" "sint (rb_refcount (b_ref x)) < 2 ^ 30"
    "w_raw w = 0 \<Longrightarrow> 4 \<le> unat (b_capacity x) \<and> 4 \<le> unat (b_size x)"
proof -
  obtain p qs where ps: "ps = p # qs" using assms by (cases ps) (auto simp: wrepr_def)
  obtain x where x: "p = w_buf w" "p \<noteq> NULL" "bufs h p = Some x"
    using assms ps by (auto simp: wrepr_def split: option.splits)
  have wf: "bwf x" using assms ps x by (auto simp: wrepr_def)
  have rc: "1 \<le> sint (rb_refcount (b_ref x))" "sint (rb_refcount (b_ref x)) < 2 ^ 30"
    using assms ps x by (auto simp: wrepr_def refs_ok_def)
  have 4: "4 \<le> unat (b_size x)" if "w_raw w = 0" using assms ps x that by (auto simp: wrepr_def)
  have "unat (b_size x) \<le> unat (b_capacity x)" using wf by (simp add: bwf_def word_le_nat_alt)
  with 4 have "w_raw w = 0 \<Longrightarrow> 4 \<le> unat (b_capacity x) \<and> 4 \<le> unat (b_size x)" by fastforce
  then show thesis using that [of qs x] ps x wf rc by simp
qed

text \<open>Where reading starts: past the length field, but for the remainder by the capacity.\<close>

definition start_pos :: "bheap \<Rightarrow> wpacket \<Rightarrow> u32" where
  "start_pos h w = (if w_raw w \<noteq> 0 then 0 else case bget h (w_buf w) of None \<Rightarrow> 0 | Some x \<Rightarrow> 4 mod b_capacity x)"

lemma create_by_wpacket_view:
  assumes r: "wrepr h w ps pl" and av: "avail h \<noteq> 0"
  obtains r h' where "rpacket_create_by_wpacket h allo w = Some (r, h')"
    "rview h' r ps (take (length pl) (drop (unat (start_pos h w)) (w_header w pl @ pl)))"
    "r_len r = of_nat (length pl)" "r_raw r = w_raw w" "r_mt r = w_mt w" "r_binbuf r = NULL" "r_binbufpos r = 0"
    "r_data_remain r = of_nat (length pl)" "heap_ok h'"
    "avail h' = avail h - 1" "fresh h' = fresh h" "same_data (bufs h) (bufs h')"
proof -
  obtain x qs where x: "ps = w_buf w # qs" "w_buf w \<noteq> NULL" "bufs h (w_buf w) = Some x" "bwf x"
    "1 \<le> sint (rb_refcount (b_ref x))" "sint (rb_refcount (b_ref x)) < 2 ^ 30"
    "w_raw w = 0 \<Longrightarrow> 4 \<le> unat (b_capacity x) \<and> 4 \<le> unat (b_size x)"
    by (rule first_cell [OF r]) blast
  let ?F = "w_buf w" and ?p = "start_pos h w"
  define h0 where "h0 = h\<lparr>avail := avail h - 1\<rparr>"
  define h1 where "h1 = bput h0 ?F (inc_ref x)"
  define h2 where "h2 = bput h1 ?F (inc_ref (inc_ref x))"
  have h0: "obj_alloc h = Some h0" using av by (simp add: obj_alloc_def h0_def)
  have h1: "buffer_acquire h0 NULL ?F = Some (?F, h1)"
    unfolding h1_def by (rule buffer_acquire_fresh) (simp_all add: h0_def x)
  have h2: "buffer_acquire h1 NULL ?F = Some (?F, h2)"
    unfolding h2_def by (rule buffer_acquire_fresh) (simp_all add: h1_def x)
  have m2: "bufs h2 = (bufs h)(?F \<mapsto> inc_ref (inc_ref x))" "avail h2 = avail h - 1" "fresh h2 = fresh h"
    by (simp_all add: h2_def h1_def h0_def)
  have lb: "length (w_header w pl @ pl) < 2 ^ 32" and bp: "w_begin_pos w = 0"
    and ds: "w_data_size w = of_nat (length (w_header w pl @ pl))"
    using r unfolding wrepr_def by blast+
  define n where "n = (of_nat (length pl) :: u32)"
  have lenpl: "length pl < 2 ^ 32" using lb by simp
  have un: "unat n = length pl" using lenpl by (simp add: n_def unat_of_nat)
  have dn: "(if w_raw w \<noteq> 0 then w_data_size w else w_data_size w - 4) = n"
    unfolding ds by (simp add: w_header_def n_def)
  define rr where "rr = \<lparr>r_next = NULL, r_type = MSG_RPACKET, r_len = n, r_rpos = ?p,
      r_data_remain = n, r_binbufpos = 0, r_begin_pos = 0, r_binbuf = NULL,
      r_buf = ?F, r_readbuf = ?F, r_raw = w_raw w, r_mt = w_mt w, r_usr_data = 0, r_allocator = allo\<rparr>"
  have cap0: "w_raw w = 0 \<Longrightarrow> b_capacity x \<noteq> 0" using x(7) by auto
  have cr: "rpacket_create_by_wpacket h allo w = Some (rr, h2)"
    using h0 h1 h2 bp cap0 dn x(2,3)
    by (cases "w_raw w = 0")
      (simp_all add: rpacket_create_by_wpacket_def Let_def bget_def m2 rr_def start_pos_def)
  have p4: "unat ?p \<le> 4 \<and> unat ?p \<le> unat (b_size x) \<and> unat ?p \<le> length (w_header w pl)"
  proof (cases "w_raw w = 0")
    case True
    then have "unat ?p = 4 mod unat (b_capacity x)" using x(2,3) by (simp add: start_pos_def bget_def unat_mod)
    then have "unat ?p \<le> 4" by simp
    then show ?thesis using x(7) True by (simp add: w_header_def)
  next
    case False
    then show ?thesis by (simp add: start_pos_def)
  qed
  have "rview h2 rr ps (take (length pl) (drop (unat ?p) (w_header w pl @ pl)))"
  proof -
    have F: "?F \<notin> set qs"
    proof -
      have "bchain (bufs h) ?F ps" using r by (simp add: wrepr_def)
      then show ?thesis using x(1) bseg_distinct by fastforce
    qed
    have a1: "bchain (bufs h2) ?F ps"
      using r x F by (auto simp: wrepr_def m2 bseg_upd)
    have a2: "chain_wf (bufs h2) ps" using r x F by (auto simp: wrepr_def m2 chain_wf_def)
    have "sint (rb_refcount (b_ref x) + 1) = sint (rb_refcount (b_ref x)) + 1"
      using x(6) by (intro sint_inc) simp
    then have "sint (rb_refcount (b_ref x) + 1 + 1) = sint (rb_refcount (b_ref x)) + 1 + 1"
      using x(6) by (subst sint_inc) simp_all
    then have a3: "shared (bufs h2) ?F" using x(5) by (simp add: shared_def m2)
    have a4: "refs_ok (bufs h2) qs" using r x(1) F by (auto simp: wrepr_def refs_ok_def m2)
    have a5: "chain_data (bufs h2) ps = w_header w pl @ pl"
    proof -
      have "chain_data (bufs h2) ps = chain_data (bufs h) ps"
        using x(3) by (intro chain_data_cong) (auto simp: cell_data_def m2)
      then show ?thesis using r by (simp add: wrepr_def)
    qed
    have a6: "\<exists>y. bufs h2 (hd ps) = Some y \<and> ?p \<le> b_size y" using x(1) p4 by (simp add: m2 word_le_nat_alt)
    have a7: "length (take (length pl) (drop (unat ?p) (w_header w pl @ pl))) = length pl"
      using p4 by simp
    show ?thesis using a1 a2 a3 a4 a5 a6 a7 x(1) unfolding rview_def by (simp add: rr_def un)
  qed
  moreover have "heap_ok h2" using r x(3) by (auto simp: wrepr_def heap_ok_def m2)
  moreover have "same_data (bufs h) (bufs h2)" using x(3) by (auto simp: same_data_def m2)
  ultimately show thesis using cr m2 by (intro that [of rr h2]) (simp_all add: rr_def n_def)
qed

text \<open>The usual case: the first buffer is larger than the length field.\<close>

definition roomy :: "bheap \<Rightarrow> wpacket \<Rightarrow> bool" where
  "roomy h w \<longleftrightarrow> w_raw w \<noteq> 0 \<or> (\<exists>x. bget h (w_buf w) = Some x \<and> 4 < b_capacity x)"

lemma roomy_start:
  assumes "roomy h w"
  shows "take (length pl) (drop (unat (start_pos h w)) (w_header w pl @ pl)) = pl"
proof (cases "w_raw w = 0")
  case True
  then obtain x where x: "bget h (w_buf w) = Some x" "4 < b_capacity x" using assms by (auto simp: roomy_def)
  have "4 mod b_capacity x = 4" using x(2) by (metis mod_word_less)
  then show ?thesis using x True by (simp add: start_pos_def w_header_def)
next
  case False
  then show ?thesis by (simp add: start_pos_def w_header_def)
qed

section \<open>Reading past the end of the chain\<close>

lemma rpacket_read_loop_past:
  assumes "bchain (bufs h) (r_readbuf r) qs" and "qs \<noteq> []" and "chain_wf (bufs h) qs"
    and "shared (bufs h) (hd qs)" and "refs_ok (bufs h) (tl qs)"
    and "\<exists>x. bufs h (hd qs) = Some x \<and> r_rpos r \<le> b_size x"
    and "length (drop (unat (r_rpos r)) (chain_data (bufs h) qs)) < unat sz" and "sz \<le> r_data_remain r"
  shows "rpacket_read_loop h r out sz = None"
  using assms
proof (induction qs arbitrary: h r sz out)
  case Nil then show ?case by simp
next
  case (Cons q rs)
  obtain x where x: "r_readbuf r = q" "q \<noteq> NULL" "bufs h q = Some x" "bget h q = Some x" "bwf x"
    "r_rpos r \<le> b_size x" "bchain (bufs h) (b_next x) rs" "1 < sint (rb_refcount (b_ref x))"
    using Cons.prems by (auto simp: bget_def shared_def)
  define c where "c = b_size x - r_rpos r"
  have uc: "unat c = unat (b_size x) - unat (r_rpos r)" unfolding c_def by (rule unat_sub [OF x(6)])
  have lx: "length (bcontent x) = unat (b_size x)" by (rule length_bcontent [OF x(5)])
  have px: "unat (r_rpos r) \<le> unat (b_size x)" using x(6) by (simp add: word_le_nat_alt)
  have D: "unat c + length (chain_data (bufs h) rs) < unat sz"
    using Cons.prems(7) x(3) lx px by (simp add: cell_data_def uc)
  then have csz: "c < sz" "unat c < unat sz" "min c sz = c" "sz \<noteq> 0"
    by (auto simp: word_less_nat_alt min_def word_le_nat_alt)
  let ?r1 = "r\<lparr>r_rpos := b_size x, r_data_remain := r_data_remain r - c\<rparr>"
  have left: "unat (r_data_remain r - c) = unat (r_data_remain r) - unat c"
    using csz(2) Cons.prems(8) by (intro unat_sub) (simp add: word_le_nat_alt)
  have nz: "r_data_remain r - c \<noteq> 0"
    using left csz(2) Cons.prems(8) by (auto simp: word_le_nat_alt)
  have sub: "unat (sz - c) = unat sz - unat c" using csz(2) by (intro unat_sub) (simp add: word_le_nat_alt)
  obtain bs where "mem_read (unat (r_rpos r)) (unat c) (b_buf x) = Some bs"
    using cell_read [OF x(5,6), of "unat c"] uc by simp
  then have step: "rpacket_read_loop h r out sz = do {
      (r, h) \<leftarrow> rpacket_advance h ?r1; rpacket_read_loop h r (out @ bs) (sz - c) }"
    using read_loop_step [OF csz(4), of h r x out] x(1,4) csz(3) by (simp add: Let_def flip: c_def) (simp add: c_def)
  have adv: "rpacket_advance h ?r1 = do {
      (rb, h) \<leftarrow> buffer_acquire h q (b_next x); Some (?r1\<lparr>r_rpos := 0, r_readbuf := rb\<rparr>, h) }"
    using x(1,4) nz by (simp add: rpacket_advance_def)
  show ?case
  proof (cases rs)
    case Nil
    then have "b_next x = NULL" using x(7) by simp
    then have "buffer_acquire h q (b_next x) = Some (NULL, bput h q (dec_ref x))"
      using x(2) buffer_release_shared [OF x(2,3,8)] by (simp add: buffer_acquire_def)
    moreover have "sz - c \<noteq> 0" using csz by auto
    ultimately show ?thesis using step adv by (simp add: rpacket_read_loop.simps)
  next
    case (Cons s ts)
    obtain y where y: "b_next x = s" "s \<noteq> NULL" "bufs h s = Some y" "bchain (bufs h) (b_next y) ts"
      using x(7) Cons by (auto split: option.splits)
    have dist: "q \<noteq> s" "q \<notin> set ts" "s \<notin> set ts"
      using bseg_distinct [OF Cons.prems(1)] Cons by auto
    have ry: "1 \<le> sint (rb_refcount (b_ref y))" "sint (rb_refcount (b_ref y)) < 2 ^ 30" and wy: "bwf y"
      using Cons.prems(3,5) Cons y(3) by (auto simp: refs_ok_def)
    define h' where "h' = bput (bput h s (inc_ref y)) q (dec_ref x)"
    have m': "bufs h' = (bufs h)(s \<mapsto> inc_ref y, q \<mapsto> dec_ref x)" by (simp add: h'_def)
    have cd: "chain_data (bufs h') rs = chain_data (bufs h) rs"
      using Cons y(3) dist by (intro chain_data_cong) (auto simp: cell_data_def m')
    have "rpacket_read_loop h' (?r1\<lparr>r_rpos := 0, r_readbuf := s\<rparr>) (out @ bs) (sz - c) = None"
    proof (rule Cons.IH)
      show "bchain (bufs h') (r_readbuf (?r1\<lparr>r_rpos := 0, r_readbuf := s\<rparr>)) rs"
        using Cons y dist by (simp add: m' bseg_upd)
      show "chain_wf (bufs h') rs" using Cons.prems(3) Cons wy dist by (auto simp: chain_wf_def m')
      show "shared (bufs h') (hd rs)" using Cons dist(1) ry by (simp add: shared_def m' sint_inc)
      show "refs_ok (bufs h') (tl rs)" using Cons.prems(5) Cons dist by (auto simp: refs_ok_def m')
      show "length (drop (unat (r_rpos (?r1\<lparr>r_rpos := 0, r_readbuf := s\<rparr>))) (chain_data (bufs h') rs)) < unat (sz - c)"
        using cd D sub by simp
      show "sz - c \<le> r_data_remain (?r1\<lparr>r_rpos := 0, r_readbuf := s\<rparr>)"
        using Cons.prems(8) left sub by (simp add: word_le_nat_alt)
    qed (use Cons dist in \<open>auto simp: m'\<close>)
    then show ?thesis
      using step adv y(1) buffer_acquire_move [OF x(2) y(2) dist(1) x(3) y(3) x(8)] by (simp add: h'_def)
  qed
qed

section \<open>Reading into the packet's own buffer\<close>

lemma rview_frame:
  assumes "rview h r qs d" and "\<And>a. a \<in> set qs \<Longrightarrow> bufs h' a = bufs h a"
  shows "rview h' r qs d"
proof -
  have hd: "hd qs \<in> set qs" and tl: "set (tl qs) \<subseteq> set qs"
    using assms(1) by (auto simp: rview_def dest: list.set_sel(2))
  have "bseg (bufs h') (r_readbuf r) qs NULL = bseg (bufs h) (r_readbuf r) qs NULL"
    using assms(2) by (intro bseg_cong) simp
  moreover have "chain_wf (bufs h') qs = chain_wf (bufs h) qs" using assms(2) by (simp add: chain_wf_def)
  moreover have "shared (bufs h') (hd qs) = shared (bufs h) (hd qs)" using assms(2) hd by (simp add: shared_def)
  moreover have "refs_ok (bufs h') (tl qs) = refs_ok (bufs h) (tl qs)"
    using assms(2) tl by (simp add: refs_ok_def subset_iff)
  moreover have "chain_data (bufs h') qs = chain_data (bufs h) qs"
    using assms(2) by (intro chain_data_cong) (simp add: cell_data_def)
  moreover have "bufs h' (hd qs) = bufs h (hd qs)" using assms(2) hd by simp
  ultimately have "rview h' r qs d = rview h r qs d" unfolding rview_def by (simp only:)
  then show ?thesis using assms(1) by simp
qed

lemma rview_binbuf [simp]:
  "rview h (r\<lparr>r_binbufpos := p\<rparr>) qs d = rview h r qs d" "rview h (r\<lparr>r_binbuf := b\<rparr>) qs d = rview h r qs d"
  by (simp_all add: rview_def)

definition without :: "bheap \<Rightarrow> addr \<Rightarrow> bheap" where
  "without h b = h\<lparr>bufs := (bufs h)(b := None)\<rparr>"

lemma without_simps [simp]: "bufs (without h b) = (bufs h)(b := None)" "fresh (without h b) = fresh h"
  "avail (without h b) = avail h" "without (bput h b y) b = without h b"
  by (simp_all add: without_def bput_def)

lemma only_counts_without: "only_counts h h' qs \<Longrightarrow> only_counts (without h b) (without h' b) qs"
  by (auto simp: only_counts_def same_data_def)

lemma binbuf_loop_0 [simp]: "rpacket_binbuf_loop h r 0 = Some (r, h)"
  by (simp add: rpacket_binbuf_loop.simps)

lemma binbuf_loop_step:
  assumes "sz \<noteq> 0" "bget h (r_readbuf r) = Some x"
  shows "rpacket_binbuf_loop h r sz =
    (let c = min (b_size x - r_rpos r) sz
     in do {
       bs \<leftarrow> mem_read (unat (r_rpos r)) (unat c) (b_buf x);
       y \<leftarrow> bget h (r_binbuf r);
       m \<leftarrow> mem_write (unat (r_binbufpos r)) bs (b_buf y);
       (r, h) \<leftarrow> rpacket_advance (bput h (r_binbuf r) (y\<lparr>b_buf := m\<rparr>))
         (r\<lparr>r_rpos := r_rpos r + c, r_data_remain := r_data_remain r - c, r_binbufpos := r_binbufpos r + c\<rparr>);
       rpacket_binbuf_loop h r (sz - c)
     })"
  using assms by (subst rpacket_binbuf_loop.simps) (auto simp: Let_def min_def)

text \<open>The bytes bs stored at position p of a buffer.\<close>

definition stored :: "nat \<Rightarrow> byte list \<Rightarrow> byte list \<Rightarrow> byte list" where
  "stored p bs m = take p m @ bs @ drop (p + length bs) m"

lemma stored_facts:
  assumes "p + length bs \<le> length m"
  shows "mem_write p bs m = Some (stored p bs m)" "length (stored p bs m) = length m"
    "take (length bs) (drop p (stored p bs m)) = bs"
  using assms by (simp_all add: mem_write_def stored_def)

lemma stored_nil [simp]: "stored p [] m = m"
  by (simp add: stored_def)

lemma stored_stored:
  assumes "p + length bs \<le> length m"
  shows "stored (p + length bs) cs (stored p bs m) = stored p (bs @ cs) m"
  using assms by (simp add: stored_def add_ac)

lemma rpacket_binbuf_loop_view:
  assumes "rview h r qs d" and "unat sz \<le> length d" and "r_binbuf r = b" and "b \<noteq> NULL" and "b \<notin> set qs"
    and "bufs h b = Some y" and "unat (r_binbufpos r) + unat sz \<le> length (b_buf y)" and "length (b_buf y) < 2 ^ 32"
  shows "\<exists>r' h' qs'. rpacket_binbuf_loop h r sz = Some (r', h') \<and> rview h' r' qs' (drop (unat sz) d) \<and>
    set qs' \<subseteq> set qs \<and> bufs h' b = Some (y\<lparr>b_buf := stored (unat (r_binbufpos r)) (take (unat sz) d) (b_buf y)\<rparr>) \<and>
    only_counts (without h b) (without h' b) qs \<and> moved (r\<lparr>r_binbufpos := r_binbufpos r + sz\<rparr>) r'"
  using assms
proof (induction "length qs" arbitrary: h r qs d sz y rule: less_induct)
  case less
  let ?p = "unat (r_binbufpos r)"
  show ?case
  proof (cases "sz = 0")
    case True
    then show ?thesis using less.prems
      by (auto intro!: exI [of _ qs])
  next
    case nz: False
    obtain q rs x where q: "qs = q # rs" "r_readbuf r = q" "bget h q = Some x" "distinct qs"
      by (rule rview_Cons [OF less.prems(1)])
    define rest where "rest = b_size x - r_rpos r"
    define c where "c = min rest sz"
    have c: "unat c \<le> unat rest" "unat c \<le> unat sz" by (auto simp: c_def min_def word_le_nat_alt)
    then have cd: "unat c \<le> length d" using less.prems(2) by simp
    let ?r1 = "r\<lparr>r_rpos := r_rpos r + c, r_data_remain := r_data_remain r - c, r_binbufpos := r_binbufpos r + c\<rparr>"
    have gx: "bget h (r_readbuf r) = Some x" using q by simp
    note tk = rview_take [OF less.prems(1) gx c(1) [unfolded rest_def] cd]
    have lt: "length (take (unat c) d) = unat c" using cd by simp
    have fit: "?p + length (take (unat c) d) \<le> length (b_buf y)" using less.prems(7) c(2) lt by linarith
    define y1 where "y1 = y\<lparr>b_buf := stored ?p (take (unat c) d) (b_buf y)\<rparr>"
    define h1 where "h1 = bput h b y1"
    have v1: "rview h1 ?r1 qs (drop (unat c) d)"
    proof (rule rview_frame)
      show "rview h ?r1 qs (drop (unat c) d)" using tk(2) by (simp only: rview_binbuf)
      show "bufs h1 a = bufs h a" if "a \<in> set qs" for a using that less.prems(5) by (auto simp: h1_def)
    qed
    obtain r2 h2 qs2 where 2: "rpacket_advance h1 ?r1 = Some (r2, h2)" "rview h2 r2 qs2 (drop (unat c) d)"
      "moved ?r1 r2" "only_counts h1 h2 qs" "set qs2 \<subseteq> set qs"
      "\<And>x. bget h1 (r_readbuf ?r1) = Some x \<Longrightarrow> r_rpos ?r1 = b_size x \<Longrightarrow> drop (unat c) d \<noteq> [] \<Longrightarrow> qs2 = tl qs"
      by (rule rpacket_advance_view [OF v1]) blast
    have "bget h b = Some y" using less.prems(4,6) by (simp add: bget_def)
    then have step: "rpacket_binbuf_loop h r sz = rpacket_binbuf_loop h2 r2 (sz - c)"
      using binbuf_loop_step [OF nz gx, folded rest_def] tk(1) 2(1) stored_facts(1) [OF fit] less.prems(3)
      by (simp add: Let_def h1_def y1_def flip: c_def)
    have sub: "unat (sz - c) = unat sz - unat c" using c(2) by (intro unat_sub) (simp add: word_le_nat_alt)
    have bp: "unat (r_binbufpos r + c) = ?p + unat c"
    proof -
      have "?p + unat c < 2 ^ 32" using fit lt less.prems(8) by linarith
      then show ?thesis by (simp add: unat_word_ariths)
    qed
    have b2: "bufs h2 b = Some y1" using 2(4) less.prems(5) by (simp add: only_counts_def h1_def)
    have f2: "r_binbuf r2 = b" "r_binbufpos r2 = r_binbufpos r + c"
      using moved_fields [OF 2(3)] less.prems(3) by simp_all
    have ly: "length (b_buf y1) = length (b_buf y)" using stored_facts(2) [OF fit] by (simp add: y1_def)
    have "\<exists>r' h' qs'. rpacket_binbuf_loop h2 r2 (sz - c) = Some (r', h') \<and>
      rview h' r' qs' (drop (unat (sz - c)) (drop (unat c) d)) \<and> set qs' \<subseteq> set qs2 \<and>
      bufs h' b = Some (y1\<lparr>b_buf := stored (unat (r_binbufpos r2)) (take (unat (sz - c)) (drop (unat c) d)) (b_buf y1)\<rparr>) \<and>
      only_counts (without h2 b) (without h' b) qs2 \<and> moved (r2\<lparr>r_binbufpos := r_binbufpos r2 + (sz - c)\<rparr>) r'"
    proof (cases "c = sz")
      case True
      then show ?thesis using 2(2) b2 by (auto intro!: exI [of _ qs2])
    next
      case False
      then have "c = rest" "c < sz" by (auto simp: c_def min_def split: if_splits)
      then have cr: "c = rest" "unat c < unat sz" by (simp_all add: word_less_nat_alt)
      have "q \<noteq> b" using q(1) less.prems(5) by auto
      then have "bget h1 (r_readbuf ?r1) = Some x" using q by (simp add: h1_def bget_Some)
      then have "qs2 = tl qs" using 2(6) [of x] cr tk(3) less.prems(2) by (simp add: rest_def)
      then have "length qs2 < length qs" using q by simp
      then show ?thesis
      proof (rule less.hyps [OF _ 2(2) _ f2(1) less.prems(4) _ b2])
        show "unat (sz - c) \<le> length (drop (unat c) d)" using less.prems(2) sub by simp
        show "b \<notin> set qs2" using 2(5) less.prems(5) by blast
        show "unat (r_binbufpos r2) + unat (sz - c) \<le> length (b_buf y1)"
          using bp f2 sub less.prems(7) c(2) ly by simp
        show "length (b_buf y1) < 2 ^ 32" using ly less.prems(8) by simp
      qed
    qed
    then obtain r' h' qs' where 3: "rpacket_binbuf_loop h2 r2 (sz - c) = Some (r', h')"
      "rview h' r' qs' (drop (unat (sz - c)) (drop (unat c) d))" "set qs' \<subseteq> set qs2"
      "bufs h' b = Some (y1\<lparr>b_buf := stored (unat (r_binbufpos r2)) (take (unat (sz - c)) (drop (unat c) d)) (b_buf y1)\<rparr>)"
      "only_counts (without h2 b) (without h' b) qs2" "moved (r2\<lparr>r_binbufpos := r_binbufpos r2 + (sz - c)\<rparr>) r'"
      by blast
    have "unat c + unat (sz - c) = unat sz" using sub c(2) by simp
    then have tt: "take (unat c) d @ take (unat (sz - c)) (drop (unat c) d) = take (unat sz) d"
      "drop (unat (sz - c)) (drop (unat c) d) = drop (unat sz) d"
      by (metis take_add) (simp add: add.commute sub c(2))
    have "stored (unat (r_binbufpos r2)) (take (unat (sz - c)) (drop (unat c) d)) (b_buf y1) =
        stored ?p (take (unat sz) d) (b_buf y)"
      using stored_stored [OF fit, of "take (unat (sz - c)) (drop (unat c) d)"] lt tt(1) bp f2(2)
      by (simp add: y1_def)
    then have "bufs h' b = Some (y\<lparr>b_buf := stored ?p (take (unat sz) d) (b_buf y)\<rparr>)"
      using 3(4) by (simp add: y1_def)
    moreover have "only_counts (without h b) (without h' b) qs"
      using only_counts_trans [OF only_counts_without [OF 2(4), of b] 3(5) 2(5)] by (simp add: h1_def)
    moreover have "moved (r\<lparr>r_binbufpos := r_binbufpos r + sz\<rparr>) r'"
    proof -
      have "moved (r\<lparr>r_binbufpos := r_binbufpos r + sz\<rparr>) (r2\<lparr>r_binbufpos := r_binbufpos r2 + (sz - c)\<rparr>)"
        using 2(3) f2(2) unfolding moved_def by (cases r; cases r2) simp
      then show ?thesis using 3(6) by (rule moved_trans)
    qed
    ultimately show ?thesis
      using step 3(1,2,3) 2(5) tt(2) by (intro exI [of _ r'] exI [of _ h'] exI [of _ qs']) (auto simp del: drop_drop)
  qed
qed

section \<open>Binary reads\<close>

text \<open>The n bytes behind a pointer the reader handed out; the null pointer has none.\<close>

definition ptr_bytes :: "bheap \<Rightarrow> data_ptr \<Rightarrow> nat \<Rightarrow> byte list option" where
  "ptr_bytes h p n =
     (case p of None \<Rightarrow> if n = 0 then Some [] else None
      | Some (a, off) \<Rightarrow> do { x \<leftarrow> bget h a; mem_read off n (b_buf x) })"

text \<open>
  The packet's own buffer: there is memory for it, or it exists, is no part of the chain and has room
  for everything that is left to read.
\<close>

definition bin_ok :: "bheap \<Rightarrow> rpacket \<Rightarrow> addr list \<Rightarrow> bool" where
  "bin_ok h r qs \<longleftrightarrow> heap_ok h \<and> unat (r_len r) < 2 ^ 32 - 32 \<and>
     (if r_binbuf r = NULL then avail h \<noteq> 0 \<and> r_data_remain r \<le> r_len r
      else r_binbuf r \<notin> set qs \<and> (\<exists>y. bufs h (r_binbuf r) = Some y \<and> length (b_buf y) = unat (r_len r)) \<and>
        unat (r_binbufpos r) + unat (r_data_remain r) \<le> unat (r_len r))"

text \<open>
  The bytes a pointer into a buffer has handed out stay what they are: all of a buffer's bytes, or
  the part of the packet's own buffer that is filled.
\<close>

definition keeps :: "bheap \<Rightarrow> rpacket \<Rightarrow> bheap \<Rightarrow> bool" where
  "keeps h r h' \<longleftrightarrow> (\<forall>a x. bufs h a = Some x \<longrightarrow> (\<exists>y. bufs h' a = Some y \<and>
     length (b_buf y) = length (b_buf x) \<and>
     (if a = r_binbuf r then take (unat (r_binbufpos r)) (b_buf y) = take (unat (r_binbufpos r)) (b_buf x)
      else b_buf y = b_buf x)))"

lemma same_data_keeps: "same_data (bufs h) (bufs h') \<Longrightarrow> keeps h r h'"
  unfolding keeps_def by (metis same_dataD)

lemma only_counts_None: "only_counts h h' qs \<Longrightarrow> bufs h' a = None \<longleftrightarrow> bufs h a = None"
proof -
  assume "only_counts h h' qs"
  then have "map_option (\<lambda>x. (b_capacity x, b_size x, b_next x, b_buf x)) (bufs h' a) =
      map_option (\<lambda>x. (b_capacity x, b_size x, b_next x, b_buf x)) (bufs h a)"
    by (simp add: only_counts_def same_data_def)
  then show ?thesis by (cases "bufs h a"; cases "bufs h' a") auto
qed

lemma only_counts_heap_ok: "only_counts h h' qs \<Longrightarrow> heap_ok h \<Longrightarrow> heap_ok h'"
  using only_counts_None [of h h' qs] by (simp add: heap_ok_def only_counts_def)

text \<open>A read that only moves the reader keeps everything.\<close>

lemma bin_ok_moved:
  assumes "bin_ok h r qs" and "only_counts h h' qs" and "moved r r'" and "set qs' \<subseteq> set qs"
    and "r_data_remain r' \<le> r_data_remain r"
  shows "bin_ok h' r' qs'"
proof -
  note f = moved_fields [OF assms(3)]
  have ok: "heap_ok h'" using only_counts_heap_ok [OF assms(2)] assms(1) by (simp add: bin_ok_def)
  have av: "avail h' = avail h" using assms(2) by (simp add: only_counts_def)
  show ?thesis
  proof (cases "r_binbuf r = NULL")
    case True
    have "r_data_remain r' \<le> r_len r" using assms(1,5) True by (auto simp: bin_ok_def)
    then show ?thesis using assms(1) f ok av True by (simp add: bin_ok_def)
  next
    case False
    then obtain y where y: "bufs h (r_binbuf r) = Some y" "length (b_buf y) = unat (r_len r)"
      "unat (r_binbufpos r) + unat (r_data_remain r) \<le> unat (r_len r)" "r_binbuf r \<notin> set qs"
      using assms(1) by (auto simp: bin_ok_def)
    have "bufs h' (r_binbuf r) = Some y" using assms(2) y by (simp add: only_counts_def)
    moreover have "unat (r_binbufpos r) + unat (r_data_remain r') \<le> unat (r_len r)"
      using y(3) assms(5) by (simp add: word_le_nat_alt)
    moreover have "r_binbuf r \<notin> set qs'" using y(4) assms(4) by blast
    ultimately show ?thesis using assms(1) f ok y False by (simp add: bin_ok_def)
  qed
qed

lemma need_binbuf_view:
  assumes "rview h r qs d" and "bin_ok h r qs"
  obtains r' h' y where "rpacket_need_binbuf h r = Some (r', h')" "rview h' r' qs d" "bin_ok h' r' qs"
    "r_binbuf r' \<noteq> NULL" "bufs h' (r_binbuf r') = Some y" "keeps h r h'" "r_len r' = r_len r" "r_raw r' = r_raw r"
    "r_binbuf r \<noteq> NULL \<longrightarrow> r_binbuf r' = r_binbuf r \<and> r_binbufpos r' = r_binbufpos r"
    "r_binbuf r = NULL \<longrightarrow> bufs h (r_binbuf r') = None"
proof (cases "r_binbuf r = NULL")
  case False
  then obtain y where "bufs h (r_binbuf r) = Some y" using assms(2) by (auto simp: bin_ok_def)
  then show thesis
    using that [of r h y] False assms same_data_keeps [OF same_data_refl, of h r] by (simp add: rpacket_need_binbuf_def)
next
  case True
  let ?F = "fresh h" and ?n = "new_buffer (r_mt r) (r_len r) 1"
  have ok: "heap_ok h" "avail h \<noteq> 0" "unat (r_len r) < 2 ^ 32 - 32" "r_data_remain r \<le> r_len r"
    using assms(2) True by (auto simp: bin_ok_def)
  define h' where "h' = (bput h ?F ?n)\<lparr>fresh := ?F + 1, avail := avail h - 1\<rparr>"
  define r' where "r' = r\<lparr>r_binbufpos := 0, r_binbuf := ?F\<rparr>"
  have m': "bufs h' = (bufs h)(?F \<mapsto> ?n)" by (simp add: h'_def)
  have F: "?F \<noteq> NULL" "bufs h ?F = None" using ok(1) by (auto simp: heap_ok_def)
  have "bchain (bufs h) (r_readbuf r) qs" using assms(1) by (simp add: rview_def)
  then have Fq: "?F \<notin> set qs" using bseg_dom F(2) by fastforce
  have "rpacket_need_binbuf h r = Some (r', h')"
    using True buffer_create_and_acquire_new [OF ok(1-3)] by (simp add: rpacket_need_binbuf_def h'_def r'_def)
  moreover have "rview h r' qs d" using assms(1) by (simp add: r'_def)
  then have "rview h' r' qs d" by (rule rview_frame) (use Fq in \<open>auto simp: m'\<close>)
  moreover have "bin_ok h' r' qs"
  proof -
    have "heap_ok h'" using ok(1) by (simp add: heap_ok_def m') (simp add: h'_def)
    moreover have "length (b_buf ?n) = unat (r_len r)" by (simp add: new_buffer_def)
    ultimately show ?thesis using ok F Fq by (simp add: bin_ok_def r'_def m' word_le_nat_alt)
  qed
  moreover have "keeps h r h'" using F by (auto simp: keeps_def m')
  ultimately show thesis using that [of r' h' ?n] True F by (simp add: r'_def m')
qed

lemma rview_drop_remain:
  "rview h' r' qs' (drop n d) \<Longrightarrow> rview h r qs d \<Longrightarrow> n \<le> length d \<Longrightarrow>
     unat (r_data_remain r') + n = unat (r_data_remain r)"
  using rview_length [of h r qs d] rview_length [of h' r' qs' "drop n d"] by simp

text \<open>A read through the packet's own buffer.\<close>

lemma binbuf_read_view:
  assumes v: "rview h r qs d" and ok: "bin_ok h r qs" and sz: "unat sz \<le> length d"
  obtains r1 h1 y r' h' qs' where "rpacket_need_binbuf h r = Some (r1, h1)" "bget h1 (r_binbuf r1) = Some y"
    "rpacket_binbuf_loop h1 r1 sz = Some (r', h')" "rview h' r' qs' (drop (unat sz) d)" "bin_ok h' r' qs'"
    "ptr_bytes h' (Some (r_binbuf r1, unat (r_binbufpos r1))) (unat sz) = Some (take (unat sz) d)"
    "keeps h r h'" "r_len r' = r_len r" "r_raw r' = r_raw r" "r_data_remain r1 = r_data_remain r"
proof -
  obtain r1 h1 y where 1: "rpacket_need_binbuf h r = Some (r1, h1)" "rview h1 r1 qs d" "bin_ok h1 r1 qs"
    "r_binbuf r1 \<noteq> NULL" "bufs h1 (r_binbuf r1) = Some y" "keeps h r h1" "r_len r1 = r_len r" "r_raw r1 = r_raw r"
    "r_binbuf r \<noteq> NULL \<longrightarrow> r_binbuf r1 = r_binbuf r \<and> r_binbufpos r1 = r_binbufpos r"
    "r_binbuf r = NULL \<longrightarrow> bufs h (r_binbuf r1) = None"
    by (rule need_binbuf_view [OF v ok]) (rule that)
  let ?b = "r_binbuf r1" and ?p = "unat (r_binbufpos r1)"
  have b1: "?b \<notin> set qs" "length (b_buf y) = unat (r_len r1)" "unat (r_len r1) < 2 ^ 32 - 32"
    "?p + unat (r_data_remain r1) \<le> unat (r_len r1)"
    using 1(3,4,5) by (auto simp: bin_ok_def)
  have dm: "length d = unat (r_data_remain r1)" by (rule rview_length [OF 1(2)])
  have dm0: "length d = unat (r_data_remain r)" by (rule rview_length [OF v])
  have fit: "?p + unat sz \<le> length (b_buf y)" "length (b_buf y) < 2 ^ 32" using b1 dm sz by linarith+
  obtain r' h' qs' where 2: "rpacket_binbuf_loop h1 r1 sz = Some (r', h')" "rview h' r' qs' (drop (unat sz) d)"
    "set qs' \<subseteq> set qs" "bufs h' ?b = Some (y\<lparr>b_buf := stored ?p (take (unat sz) d) (b_buf y)\<rparr>)"
    "only_counts (without h1 ?b) (without h' ?b) qs" "moved (r1\<lparr>r_binbufpos := r_binbufpos r1 + sz\<rparr>) r'"
    using rpacket_binbuf_loop_view [OF 1(2) sz refl 1(4) b1(1) 1(5) fit] by blast
  note f = moved_fields [OF 2(6)]
  have lt: "length (take (unat sz) d) = unat sz" using sz by simp
  have st: "?p + length (take (unat sz) d) \<le> length (b_buf y)" using fit(1) lt by simp
  note sf = stored_facts [OF st]
  have pos: "unat (r_binbufpos r1 + sz) = ?p + unat sz"
    using fit by (subst unat_add_le [of _ _ "r_len r1"]) (simp_all add: b1(2))
  have rem: "unat (r_data_remain r') + unat sz = unat (r_data_remain r1)"
    by (rule rview_drop_remain [OF 2(2) 1(2) sz])
  have ok': "bin_ok h' r' qs'"
  proof -
    have "heap_ok h'"
    proof -
      have "bufs h' a = None \<longleftrightarrow> bufs h1 a = None" for a
        using only_counts_None [OF 2(5), of a] 2(4) 1(5) by (cases "a = ?b") auto
      moreover have "fresh h' = fresh h1" using 2(5) by (simp add: only_counts_def)
      moreover have "heap_ok h1" using 1(3) by (simp add: bin_ok_def)
      ultimately show ?thesis by (simp add: heap_ok_def)
    qed
    moreover have "?b \<notin> set qs'" using b1(1) 2(3) by blast
    moreover have "unat (r_binbufpos r1 + sz) + unat (r_data_remain r') \<le> unat (r_len r1)"
      unfolding pos using rem b1(4) by linarith
    ultimately show ?thesis using 1(4) 2(4) f b1 sf(2) by (simp add: bin_ok_def)
  qed
  have pb: "ptr_bytes h' (Some (?b, ?p)) (unat sz) = Some (take (unat sz) d)"
    using 1(4) 2(4) st sf lt by (simp add: ptr_bytes_def bget_def mem_read_def)
  have kp: "keeps h r h'"
    unfolding keeps_def
  proof (intro allI impI)
    fix a x assume a: "bufs h a = Some x"
    obtain z where z: "bufs h1 a = Some z" "length (b_buf z) = length (b_buf x)"
      "if a = r_binbuf r then take (unat (r_binbufpos r)) (b_buf z) = take (unat (r_binbufpos r)) (b_buf x)
       else b_buf z = b_buf x"
      using 1(6) a unfolding keeps_def by blast
    show "\<exists>y. bufs h' a = Some y \<and> length (b_buf y) = length (b_buf x) \<and>
      (if a = r_binbuf r then take (unat (r_binbufpos r)) (b_buf y) = take (unat (r_binbufpos r)) (b_buf x)
       else b_buf y = b_buf x)"
    proof (cases "a = ?b")
      case False
      have "same_data (bufs (without h1 ?b)) (bufs (without h' ?b))" using 2(5) by (simp add: only_counts_def)
      moreover have "bufs (without h1 ?b) a = Some z" using False z(1) by simp
      ultimately obtain y where "bufs (without h' ?b) a = Some y" "b_buf y = b_buf z"
        by (rule same_dataD) blast
      then show ?thesis using False z by auto
    next
      case True
      then have rb: "r_binbuf r = ?b" "r_binbufpos r1 = r_binbufpos r" using 1(9,10) a by auto
      have "z = y" using z(1) True 1(5) by simp
      then show ?thesis
        using True 2(4) z rb sf(2) st by (simp add: stored_def)
    qed
  qed
  have "bget h1 ?b = Some y" using 1(4,5) by (simp add: bget_def)
  moreover have "r_data_remain r1 = r_data_remain r" using dm dm0 by (simp add: word_unat_eq_iff)
  ultimately show thesis
    using that [of r1 h1 y r' h' qs', OF 1(1) _ 2(1,2) ok' pb kp] f 1(7,8) by simp
qed

lemma keeps_trans:
  assumes "keeps h r h1" and "keeps h1 r1 h2" and "r_binbuf r1 = r_binbuf r" and "r_binbufpos r1 = r_binbufpos r"
  shows "keeps h r h2"
  unfolding keeps_def
proof (intro allI impI)
  fix a x assume "bufs h a = Some x"
  then obtain y where y: "bufs h1 a = Some y" "length (b_buf y) = length (b_buf x)"
    "if a = r_binbuf r then take (unat (r_binbufpos r)) (b_buf y) = take (unat (r_binbufpos r)) (b_buf x)
     else b_buf y = b_buf x"
    using assms(1) unfolding keeps_def by blast
  obtain z where z: "bufs h2 a = Some z" "length (b_buf z) = length (b_buf y)"
    "if a = r_binbuf r1 then take (unat (r_binbufpos r1)) (b_buf z) = take (unat (r_binbufpos r1)) (b_buf y)
     else b_buf z = b_buf y"
    using assms(2) y(1) unfolding keeps_def by blast
  show "\<exists>y. bufs h2 a = Some y \<and> length (b_buf y) = length (b_buf x) \<and>
    (if a = r_binbuf r then take (unat (r_binbufpos r)) (b_buf y) = take (unat (r_binbufpos r)) (b_buf x)
     else b_buf y = b_buf x)"
    using y z assms(3,4) by (auto split: if_splits)
qed

text \<open>What a read of a packet that is not raw leaves behind.\<close>

definition reads :: "bheap \<Rightarrow> rpacket \<Rightarrow> bheap \<Rightarrow> rpacket \<Rightarrow> addr list \<Rightarrow> byte list \<Rightarrow> bool" where
  "reads h r h' r' qs' d \<longleftrightarrow> rview h' r' qs' d \<and> bin_ok h' r' qs' \<and> keeps h r h' \<and>
     r_raw r' = r_raw r \<and> r_len r' = r_len r"

lemma rpacket_read_reads:
  assumes "rview h r qs (bs @ d)" and "bin_ok h r qs" and "unat sz = length bs"
  obtains r' h' qs' where "rpacket_read h r sz = Some (0, bs, r', h')" "reads h r h' r' qs' d"
    "only_counts h h' qs" "moved r r'"
proof -
  have "unat sz \<le> length (bs @ d)" using assms(3) by simp
  from rpacket_read_view [OF assms(1) this] obtain r' h' qs' where
    1: "rpacket_read h r sz = Some (0, take (unat sz) (bs @ d), r', h')"
    "rview h' r' qs' (drop (unat sz) (bs @ d))" "only_counts h h' qs" "set qs' \<subseteq> set qs" "moved r r'"
    by blast
  have v: "rview h' r' qs' d" using 1(2) assms(3) by simp
  have "r_data_remain r' \<le> r_data_remain r"
    using rview_length [OF v] rview_length [OF assms(1)] by (simp add: word_le_nat_alt)
  then have "bin_ok h' r' qs'" by (rule bin_ok_moved [OF assms(2) 1(3,5,4)])
  moreover have "keeps h r h'" using 1(3) by (intro same_data_keeps) (simp add: only_counts_def)
  ultimately show thesis
    using that [of r' h' qs'] 1(1,3,5) v moved_fields [OF 1(5)] assms(3) by (simp add: reads_def)
qed

text \<open>The part of a block read after its length n, when so much is left.\<close>

lemma rpacket_read_block:
  assumes u32: "rpacket_read_uint32 h r = Some (n, r1, h1)" and raw: "r_raw r = 0"
    and v1: "rview h1 r1 qs1 d" and ok1: "bin_ok h1 r1 qs1" and n: "unat n \<le> length d"
  obtains p r' h' qs' where "rpacket_read_binary h r l = Some (p, n, r', h')" "p = None \<longleftrightarrow> d = []"
    "ptr_bytes h' p (unat n) = Some (take (unat n) d)" "reads h1 r1 h' r' qs' (drop (unat n) d)"
proof -
  have dl: "length d = unat (r_data_remain r1)" by (rule rview_length [OF v1])
  have rem: "\<not> r_data_remain r1 < n" using n dl by (simp add: word_less_nat_alt)
  obtain x where x: "bget h1 (r_readbuf r1) = Some x" "r_readbuf r1 \<noteq> NULL" "bufs h1 (r_readbuf r1) = Some x"
    using rview_Cons [OF v1] by metis
  have rd1: "reads h1 r1 h1 r1 qs1 d" using v1 ok1 same_data_keeps [OF same_data_refl, of h1 r1] by (simp add: reads_def)
  consider "r_data_remain r1 = 0" | "r_data_remain r1 \<noteq> 0" "b_size x - r_rpos r1 \<ge> n"
    | "r_data_remain r1 \<noteq> 0" "\<not> b_size x - r_rpos r1 \<ge> n" by blast
  then show thesis
  proof cases
    case 1
    then have "d = []" "n = 0" using dl n by (simp_all add: unat_eq_0)
    moreover have "rpacket_read_binary h r l = Some (None, n, r1, h1)"
      using raw u32 1 by (simp add: rpacket_read_binary_def Let_def)
    ultimately show thesis using that [of None r1 h1 qs1] rd1 by (simp add: ptr_bytes_def)
  next
    case 2
    have dne: "d \<noteq> []" using 2(1) dl by (auto simp: unat_eq_0)
    have c: "unat n \<le> unat (b_size x - r_rpos r1)" using 2(2) by (simp add: word_le_nat_alt)
    note tk = rview_take [OF v1 x(1) c n]
    let ?r2 = "r1\<lparr>r_rpos := r_rpos r1 + n, r_data_remain := r_data_remain r1 - n\<rparr>"
    obtain r3 h3 qs3 where 3: "rpacket_advance h1 ?r2 = Some (r3, h3)" "rview h3 r3 qs3 (drop (unat n) d)"
      "moved ?r2 r3" "only_counts h1 h3 qs1" "set qs3 \<subseteq> set qs1"
      by (rule rpacket_advance_view [OF tk(2)]) (rule that)
    have mv: "moved r1 r3" using moved_trans [OF _ 3(3)] by simp
    note f3 = moved_fields [OF mv]
    have "r_data_remain r3 \<le> r_data_remain r1"
      using rview_length [OF 3(2)] dl by (simp add: word_le_nat_alt)
    then have ok3: "bin_ok h3 r3 qs3" by (rule bin_ok_moved [OF ok1 3(4) mv 3(5)])
    have sd: "same_data (bufs h1) (bufs h3)" using 3(4) by (simp add: only_counts_def)
    obtain z where z: "bufs h3 (r_readbuf r1) = Some z" "b_buf z = b_buf x"
      by (rule same_dataD [OF sd x(3)]) blast
    have "rpacket_read_binary h r l = Some (Some (r_readbuf r1, unat (r_rpos r1)), n, r3, h3)"
      using raw u32 2 rem x(1) 3(1) by (simp add: rpacket_read_binary_def Let_def)
    moreover have "ptr_bytes h3 (Some (r_readbuf r1, unat (r_rpos r1))) (unat n) = Some (take (unat n) d)"
      using tk(1) z x(2) by (simp add: ptr_bytes_def bget_def)
    ultimately show thesis using that 3(2) ok3 f3 same_data_keeps [OF sd] dne by (simp add: reads_def)
  next
    case 3
    have dne: "d \<noteq> []" using 3(1) dl by (auto simp: unat_eq_0)
    obtain r2 h2 y r' h' qs' where 4: "rpacket_need_binbuf h1 r1 = Some (r2, h2)" "bget h2 (r_binbuf r2) = Some y"
      "rpacket_binbuf_loop h2 r2 n = Some (r', h')" "rview h' r' qs' (drop (unat n) d)" "bin_ok h' r' qs'"
      "ptr_bytes h' (Some (r_binbuf r2, unat (r_binbufpos r2))) (unat n) = Some (take (unat n) d)"
      "keeps h1 r1 h'" "r_len r' = r_len r1" "r_raw r' = r_raw r1" "r_data_remain r2 = r_data_remain r1"
      by (rule binbuf_read_view [OF v1 ok1 n]) (rule that)
    have "rpacket_read_binary h r l = Some (Some (r_binbuf r2, unat (r_binbufpos r2)), n, r', h')"
      using raw u32 3 rem x(1) 4(1-3) by (simp add: rpacket_read_binary_def Let_def)
    then show thesis using that 4 dne by (simp add: reads_def)
  qed
qed

lemma rpacket_read_binary_reads:
  assumes v: "rview h r qs (le_bytes (n :: u32) @ d)" and ok: "bin_ok h r qs" and raw: "r_raw r = 0"
    and n: "unat n \<le> length d"
  obtains p r' h' qs' where "rpacket_read_binary h r l = Some (p, n, r', h')"
    "ptr_bytes h' p (unat n) = Some (take (unat n) d)" "reads h r h' r' qs' (drop (unat n) d)"
proof -
  have "unat (4 :: u32) = length (le_bytes n)" by simp
  from rpacket_read_reads [OF v ok this] obtain r1 h1 qs1 where
    1: "rpacket_read h r 4 = Some (0, le_bytes n, r1, h1)" "reads h r h1 r1 qs1 d" "moved r r1"
    by blast
  note f1 = moved_fields [OF 1(3)]
  have u32: "rpacket_read_uint32 h r = Some (n, r1, h1)" by (simp add: rpacket_read_uint32_def 1(1))
  have v1: "rview h1 r1 qs1 d" and ok1: "bin_ok h1 r1 qs1" and k1: "keeps h r h1"
    using 1(2) by (simp_all add: reads_def)
  obtain p r' h' qs' where 2: "rpacket_read_binary h r l = Some (p, n, r', h')"
    "ptr_bytes h' p (unat n) = Some (take (unat n) d)" "reads h1 r1 h' r' qs' (drop (unat n) d)"
    by (rule rpacket_read_block [OF u32 raw v1 ok1 n]) (rule that)
  have "keeps h r h'" using keeps_trans [OF k1, of r1 h'] 2(3) f1 by (simp add: reads_def)
  then have "reads h r h' r' qs' (drop (unat n) d)" using 2(3) f1 by (simp add: reads_def)
  then show thesis by (rule that [OF 2(1,2)])
qed

lemma rpacket_raw_read_reads:
  assumes v: "rview h r qs d" and ok: "bin_ok h r qs" and ne: "d \<noteq> []" and x: "bget h (r_readbuf r) = Some x"
  obtains p r' h' where
    "rpacket_raw_read_binary h r l =
       Some (p, if length d \<le> unat (b_size x - r_rpos r) then of_nat (length d) else l, r', h')"
    "ptr_bytes h' p (length d) = Some d" "r_data_remain r' = 0" "keeps h r h'"
proof -
  have dl: "length d = unat (r_data_remain r)" by (rule rview_length [OF v])
  then have n: "unat (r_data_remain r) \<le> length d" by simp
  have nz: "r_data_remain r \<noteq> 0" using ne dl by auto
  have xx: "r_readbuf r \<noteq> NULL" "bufs h (r_readbuf r) = Some x" using x by (simp_all add: bget_Some)
  have on: "of_nat (length d) = r_data_remain r" using dl by simp
  show thesis
  proof (cases "r_data_remain r \<le> b_size x - r_rpos r")
    case True
    then have c: "unat (r_data_remain r) \<le> unat (b_size x - r_rpos r)" by (simp add: word_le_nat_alt)
    have "rpacket_raw_read_binary h r l =
        Some (Some (r_readbuf r, unat (r_rpos r)), r_data_remain r, r\<lparr>r_data_remain := 0\<rparr>, h)"
      using nz x True by (simp add: rpacket_raw_read_binary_def Let_def)
    moreover have "ptr_bytes h (Some (r_readbuf r, unat (r_rpos r))) (length d) = Some d"
      using rview_take(1) [OF v x c n] x dl by (simp add: ptr_bytes_def)
    ultimately show thesis using c dl on same_data_keeps [OF same_data_refl, of h r]
      by (intro that [of "Some (r_readbuf r, unat (r_rpos r))" "r\<lparr>r_data_remain := 0\<rparr>" h]) simp_all
  next
    case False
    then have c: "\<not> length d \<le> unat (b_size x - r_rpos r)" using dl by (simp add: word_le_nat_alt)
    obtain r2 h2 y r' h' qs' where 4: "rpacket_need_binbuf h r = Some (r2, h2)" "bget h2 (r_binbuf r2) = Some y"
      "rpacket_binbuf_loop h2 r2 (r_data_remain r) = Some (r', h')"
      "rview h' r' qs' (drop (unat (r_data_remain r)) d)" "bin_ok h' r' qs'"
      "ptr_bytes h' (Some (r_binbuf r2, unat (r_binbufpos r2))) (unat (r_data_remain r)) =
         Some (take (unat (r_data_remain r)) d)"
      "keeps h r h'" "r_len r' = r_len r" "r_raw r' = r_raw r" "r_data_remain r2 = r_data_remain r"
      by (rule binbuf_read_view [OF v ok n]) (rule that)
    have "r_data_remain r' = 0" using rview_length [OF 4(4)] dl by (simp add: unat_eq_0)
    moreover have "rpacket_raw_read_binary h r l = Some (Some (r_binbuf r2, unat (r_binbufpos r2)), l, r', h')"
      using nz x False 4(1-3,10) by (simp add: rpacket_raw_read_binary_def Let_def)
    ultimately show thesis using that 4(6,7) c dl by simp
  qed
qed

section \<open>Properties\<close>

text \<open>A raw byte read returns exactly the next bytes of the packet, across any number of
  buffers, and moves the reader past them, changing nothing of the heap but reference counts of the
  chain; asking for more than is left returns -1 and changes nothing.\<close>

theorem rpacket_read_exact:
  assumes "rview h r qs d"
  shows "if length d < unat sz then rpacket_read h r sz = Some (-1, [], r, h)
    else \<exists>r' h' qs'. rpacket_read h r sz = Some (0, take (unat sz) d, r', h') \<and>
      rview h' r' qs' (drop (unat sz) d) \<and> only_counts h h' qs \<and> moved r r'"
proof (cases "length d < unat sz")
  case True
  then show ?thesis using rpacket_read_short [OF assms] by simp
next
  case False
  then have "unat sz \<le> length d" by simp
  then show ?thesis using False rpacket_read_view [OF assms, of sz] by metis
qed

text \<open>C16: reading a length-prefixed block from a packet that is not raw returns a pointer to exactly
  its bytes, whether they lie in one buffer or had to be gathered, stores their number in the caller's
  length, leaves the rest of the packet to be read and keeps the bytes behind every pointer handed out
  before.\<close>

theorem rpacket_read_binary_block:
  assumes "rview h r qs (le_bytes (n :: u32) @ d)" and "bin_ok h r qs" and "r_raw r = 0"
    and "unat n \<le> length d"
  shows "\<exists>p r' h' qs'. rpacket_read_binary h r len = Some (p, n, r', h') \<and>
    ptr_bytes h' p (unat n) = Some (take (unat n) d) \<and>
    rview h' r' qs' (drop (unat n) d) \<and> bin_ok h' r' qs' \<and> keeps h r h'"
  by (rule rpacket_read_binary_reads [OF assms, of len]) (auto simp: reads_def)

text \<open>reading the rest of a raw packet returns a pointer to all of it and leaves nothing to read,
  but the caller's length is stored only when the rest lies in one buffer: when it spans buffers the
  caller's variable keeps whatever it held.\<close>

theorem rpacket_raw_read_length:
  assumes "rview h r qs d" and "bin_ok h r qs" and "r_raw r \<noteq> 0" and "d \<noteq> []"
    and "bget h (r_readbuf r) = Some x"
  shows "\<exists>p r' h'. rpacket_read_binary h r len =
      Some (p, if length d \<le> unat (b_size x - r_rpos r) then of_nat (length d) else len, r', h') \<and>
    ptr_bytes h' p (length d) = Some d \<and> r_data_remain r' = 0 \<and> keeps h r h'"
proof -
  have e: "rpacket_read_binary h r len = rpacket_raw_read_binary h r len"
    using assms(3) by (simp add: rpacket_read_binary_def)
  show ?thesis unfolding e by (rule rpacket_raw_read_reads [OF assms(1,2,4,5), of len]) blast
qed

text \<open>A read packet cloned from one that has been partly read claims the full length as what is
  left to read, and reading that much runs past the end of the chain.\<close>

theorem rpacket_clone_overrun:
  assumes "rview h other qs d" and "d = drop (unat (r_rpos other)) (chain_data (bufs h) qs)"
    and "length d < unat (r_len other)" and "avail h \<noteq> 0"
    and "bget h (r_buf other) \<noteq> None"
    and "\<forall>a x. bufs h a = Some x \<longrightarrow> 1 \<le> sint (rb_refcount (b_ref x)) \<and> sint (rb_refcount (b_ref x)) < 2 ^ 29"
  shows "\<exists>r h'. rpacket_create_by_rpacket h other = Some (r, h') \<and> r_data_remain r = r_len other \<and>
    rpacket_read h' r (r_len other) = None"
proof -
  obtain q rs x where q: "qs = q # rs" "r_readbuf other = q" "q \<noteq> NULL" "bufs h q = Some x"
    by (rule rview_Cons [OF assms(1)])
  obtain y where y: "r_buf other \<noteq> NULL" "bufs h (r_buf other) = Some y"
    using assms(5) by (auto simp: bget_Some)
  define h0 where "h0 = h\<lparr>avail := avail h - 1\<rparr>"
  define h1 where "h1 = bput h0 (r_buf other) (inc_ref y)"
  define x1 where "x1 = (if q = r_buf other then inc_ref y else x)"
  define h2 where "h2 = bput h1 q (inc_ref x1)"
  let ?r = "\<lparr>r_next = NULL, r_type = MSG_RPACKET, r_len = r_len other, r_rpos = r_rpos other,
     r_data_remain = r_len other, r_binbufpos = 0, r_begin_pos = r_begin_pos other,
     r_binbuf = NULL, r_buf = r_buf other, r_readbuf = q, r_raw = r_raw other, r_mt = r_mt other,
     r_usr_data = 0, r_allocator = r_allocator other\<rparr>"
  have a1: "buffer_acquire h0 NULL (r_buf other) = Some (r_buf other, h1)"
    unfolding h1_def by (rule buffer_acquire_fresh) (use y in \<open>simp_all add: h0_def\<close>)
  have x1: "bufs h1 q = Some x1" using q(4) by (simp add: h1_def x1_def h0_def)
  have a2: "buffer_acquire h1 NULL q = Some (q, h2)"
    unfolding h2_def by (rule buffer_acquire_fresh) (use q x1 in simp_all)
  have cr: "rpacket_create_by_rpacket h other = Some (?r, h2)"
    using a1 a2 assms(4) q(2) by (simp add: rpacket_create_by_rpacket_def obj_alloc_def h0_def)
  text \<open>Only counts have changed, and every count is still positive.\<close>
  have fields: "\<exists>z'. bufs h2 a = Some z' \<and> b_next z' = b_next z \<and> b_size z' = b_size z \<and> b_capacity z' = b_capacity z \<and>
      b_buf z' = b_buf z \<and> sint (rb_refcount (b_ref z')) \<in> {sint (rb_refcount (b_ref z)) .. sint (rb_refcount (b_ref z)) + 2} \<and>
      (a = q \<longrightarrow> 1 < sint (rb_refcount (b_ref z')))" if z: "bufs h a = Some z" for a z
  proof -
    have "sint (rb_refcount (b_ref z)) < 2 ^ 29" "1 \<le> sint (rb_refcount (b_ref z))" using assms(6) z by auto
    note bounds = this
    have s1: "sint (rb_refcount (b_ref z) + 1) = sint (rb_refcount (b_ref z)) + 1"
      using bounds by (simp add: sint_inc)
    then have s2: "sint (rb_refcount (b_ref z) + 1 + 1) = sint (rb_refcount (b_ref z)) + 1 + 1"
      using bounds by (subst sint_inc) simp_all
    have s3: "sint (2 + rb_refcount (b_ref z)) = 2 + sint (rb_refcount (b_ref z))" using s2 by simp
    show ?thesis
      using z y q s1 s3 \<open>1 \<le> sint (rb_refcount (b_ref z))\<close>
      by (auto simp: h2_def h1_def h0_def x1_def)
  qed
  have "rpacket_read_loop h2 ?r [] (r_len other) = None"
  proof (rule rpacket_read_loop_past)
    have "bchain (bufs h) q qs" using assms(1) q(2) by (simp add: rview_def)
    moreover have "bseg (bufs h2) q qs NULL = bseg (bufs h) q qs NULL"
    proof (rule bseg_cong)
      fix a assume "a \<in> set qs"
      then obtain z where "bufs h a = Some z" using bseg_dom [OF \<open>bchain (bufs h) q qs\<close>] by blast
      then show "map_option b_next (bufs h2 a) = map_option b_next (bufs h a)" using fields by fastforce
    qed
    ultimately show "bchain (bufs h2) (r_readbuf ?r) qs" by simp
    show "qs \<noteq> []" using q by simp
    show "chain_wf (bufs h2) qs"
      unfolding chain_wf_def
    proof (intro ballI allI impI)
      fix a z' assume a: "a \<in> set qs" "bufs h2 a = Some z'"
      then obtain z where z: "bufs h a = Some z" using bseg_dom [OF \<open>bchain (bufs h) q qs\<close>] by blast
      then have "bwf z" using assms(1) a(1) by (auto simp: rview_def chain_wf_def)
      then show "bwf z'" using fields [OF z] a(2) by (auto simp: bwf_def)
    qed
    show "shared (bufs h2) (hd qs)" using fields [OF q(4)] q(1) by (auto simp: shared_def)
    show "refs_ok (bufs h2) (tl qs)"
      unfolding refs_ok_def
    proof (intro ballI allI impI)
      fix a z' assume a: "a \<in> set (tl qs)" "bufs h2 a = Some z'"
      then have "a \<in> set qs" using q(1) by auto
      then obtain z where z: "bufs h a = Some z" using bseg_dom [OF \<open>bchain (bufs h) q qs\<close>] by blast
      then show "1 \<le> sint (rb_refcount (b_ref z')) \<and> sint (rb_refcount (b_ref z')) < 2 ^ 30"
        using fields [OF z] a(2) assms(6) by fastforce
    qed
    have cd: "chain_data (bufs h2) qs = chain_data (bufs h) qs"
    proof (rule chain_data_cong)
      fix a assume "a \<in> set qs"
      then obtain z where z: "bufs h a = Some z" using bseg_dom [OF \<open>bchain (bufs h) q qs\<close>] by blast
      then show "cell_data (bufs h2) a = cell_data (bufs h) a"
        using fields [OF z] by (auto simp: cell_data_def bcontent_def)
    qed
    show "length (drop (unat (r_rpos ?r)) (chain_data (bufs h2) qs)) < unat (r_len other)"
      using cd assms(2,3) by simp
    obtain z where z: "bufs h q = Some z" "r_rpos other \<le> b_size z" using assms(1) q(1) by (auto simp: rview_def)
    then show "\<exists>x. bufs h2 (hd qs) = Some x \<and> r_rpos ?r \<le> b_size x"
      using fields [OF z(1)] q(1) by auto
  qed simp
  then show ?thesis using cr by (simp add: rpacket_read_def)
qed

text \<open>A packet whose first buffer holds just the length field (capacity 4) is read from the wrong
  place: what the reader gets first is the length field itself, and the last four bytes of the payload
  are never read.\<close>

theorem rpacket_small_first_buffer:
  assumes "wrepr h w ps pl" and "w_raw w = 0" and "avail h \<noteq> 0"
    and "bget h (w_buf w) = Some x" and "b_capacity x = 4" and "4 \<le> length pl"
  shows "\<exists>r h' r' h''. rpacket_create_by_wpacket h allo w = Some (r, h') \<and>
    rpacket_read_uint32 h' r = Some (of_nat (length pl), r', h'') \<and>
    (\<exists>qs. rview h'' r' qs (take (length pl - 4) pl))"
proof -
  obtain r h' where r: "rpacket_create_by_wpacket h allo w = Some (r, h')"
    "rview h' r ps (take (length pl) (drop (unat (start_pos h w)) (w_header w pl @ pl)))"
    by (rule create_by_wpacket_view [OF assms(1,3)]) blast
  have "unat (start_pos h w) = 0" using assms(2,4,5) by (simp add: start_pos_def)
  moreover have l: "length (w_header w pl) = 4" using assms(2) by (simp add: w_header_def)
  ultimately have v: "rview h' r ps (w_header w pl @ take (length pl - 4) pl)"
    using r(2) assms(6) by simp
  have "unat (4 :: u32) \<le> length (w_header w pl @ take (length pl - 4) pl)" using l by simp
  then obtain r' h'' qs where rd:
    "rpacket_read h' r 4 = Some (0, take (unat (4 :: u32)) (w_header w pl @ take (length pl - 4) pl), r', h'')"
    "rview h'' r' qs (drop (unat (4 :: u32)) (w_header w pl @ take (length pl - 4) pl))"
    by (rule rpacket_read_view [OF v]) (rule that)
  have "take (unat (4 :: u32)) (w_header w pl @ take (length pl - 4) pl) = w_header w pl"
    "drop (unat (4 :: u32)) (w_header w pl @ take (length pl - 4) pl) = take (length pl - 4) pl"
    using l by simp_all
  note rd = rd [unfolded this]
  then show ?thesis using r(1) assms(2)
    by (auto simp: rpacket_read_uint32_def w_header_def)
qed

text \<open>A write packet made of a read packet can never be written to: its first write reads the
  length through a pointer that was set to null.\<close>

theorem wpacket_of_rpacket_write_crashes:
  assumes "wpacket_create_by_rpacket h allo r = Some (w, h')"
  shows "wpacket_write h' w ptr n = None"
  using assms
  by (auto simp: wpacket_create_by_rpacket_def bind_eq_Some_conv wpacket_write_def len_get_def split: prod.splits)

text \<open>A heap with a chain of two buffers, the first also referred to from elsewhere.\<close>

definition heap_read :: bheap where
  "heap_read = \<lparr>bufs = [1 \<mapsto> \<lparr>b_ref = \<lparr>rb_refcount = 2, rb_mt = 1, rb_destroyer = Some Buffer_destroy\<rparr>,
       b_capacity = 8, b_size = 8, b_next = 2, b_buf = [5, 0, 0, 0, 10, 11, 12, 13]\<rparr>,
     2 \<mapsto> \<lparr>b_ref = \<lparr>rb_refcount = 1, rb_mt = 1, rb_destroyer = Some Buffer_destroy\<rparr>,
       b_capacity = 4, b_size = 3, b_next = 0, b_buf = [14, 15, 16, 0]\<rparr>], fresh = 3, avail = 5\<rparr>"

definition packet_read :: "u8 \<Rightarrow> u32 \<Rightarrow> rpacket" where
  "packet_read raw pos = \<lparr>r_next = NULL, r_type = MSG_RPACKET, r_len = 11, r_rpos = pos, r_data_remain = 11 - pos,
     r_binbufpos = 0, r_begin_pos = 0, r_binbuf = NULL, r_buf = 1, r_readbuf = 1, r_raw = raw, r_mt = 1,
     r_usr_data = 0, r_allocator = NULL\<rparr>"

lemma heap_read_facts:
  "rview heap_read (packet_read raw 0) [1, 2] [5, 0, 0, 0, 10, 11, 12, 13, 14, 15, 16]"
  "rview heap_read (packet_read raw 4) [1, 2] [10, 11, 12, 13, 14, 15, 16]"
  "bin_ok heap_read (packet_read raw 0) [1, 2]"
  by (auto simp: rview_def bin_ok_def heap_ok_def heap_read_def packet_read_def chain_wf_def bwf_def
      shared_def refs_ok_def chain_data_def cell_data_def bcontent_def)

lemma rpacket_read_exact_witness:
  "(\<exists>r' h' qs'. rpacket_read heap_read (packet_read 0 0) 9 =
      Some (0, [5, 0, 0, 0, 10, 11, 12, 13, 14], r', h') \<and> rview h' r' qs' [15, 16]) \<and>
   rpacket_read heap_read (packet_read 0 0) 12 = Some (-1, [], packet_read 0 0, heap_read)"
  using rpacket_read_exact [OF heap_read_facts(1) [of 0], of 9] rpacket_read_exact [OF heap_read_facts(1) [of 0], of 12]
  by auto

lemma le_bytes_5: "le_bytes (5 :: u32) = [5, 0, 0, 0]"
  by (simp add: le_bytes_def upt_rec)

lemma rpacket_read_binary_block_witness:
  "\<exists>p r' h'. rpacket_read_binary heap_read (packet_read 0 0) 0 = Some (p, 5, r', h') \<and>
    ptr_bytes h' p 5 = Some [10, 11, 12, 13, 14]"
proof -
  have v: "rview heap_read (packet_read 0 0) [1, 2] (le_bytes (5 :: u32) @ [10, 11, 12, 13, 14, 15, 16])"
    using heap_read_facts(1) [of 0] by (simp add: le_bytes_5)
  have "r_raw (packet_read 0 0) = 0" "unat (5 :: u32) \<le> length [10 :: byte, 11, 12, 13, 14, 15, 16]"
    by (simp_all add: packet_read_def)
  from rpacket_read_binary_block [OF v heap_read_facts(3) this, of 0] show ?thesis by auto
qed

lemma rpacket_raw_read_length_witness:
  "\<exists>p r' h'. rpacket_read_binary heap_read (packet_read 1 0) 99 = Some (p, 99, r', h') \<and>
    ptr_bytes h' p 11 = Some [5, 0, 0, 0, 10, 11, 12, 13, 14, 15, 16]"
proof -
  have "r_raw (packet_read 1 0) \<noteq> 0" "[5 :: byte, 0, 0, 0, 10, 11, 12, 13, 14, 15, 16] \<noteq> []"
    "bget heap_read (r_readbuf (packet_read 1 0)) =
       Some \<lparr>b_ref = \<lparr>rb_refcount = 2, rb_mt = 1, rb_destroyer = Some Buffer_destroy\<rparr>,
         b_capacity = 8, b_size = 8, b_next = 2, b_buf = [5, 0, 0, 0, 10, 11, 12, 13]\<rparr>"
    by (simp_all add: packet_read_def heap_read_def bget_def)
  note 1 = rpacket_raw_read_length [OF heap_read_facts(1) heap_read_facts(3) this, of 99]
  have "length [5 :: byte, 0, 0, 0, 10, 11, 12, 13, 14, 15, 16] = 11" by simp
  note 1 = 1 [unfolded this]
  then show ?thesis by (auto simp: packet_read_def)
qed

lemma rpacket_clone_overrun_witness:
  "\<exists>r h'. rpacket_create_by_rpacket heap_read (packet_read 0 4) = Some (r, h') \<and> r_data_remain r = 11 \<and>
    rpacket_read h' r 11 = None"
proof -
  have "[10, 11, 12, 13, 14, 15, 16] = drop (unat (r_rpos (packet_read 0 4))) (chain_data (bufs heap_read) [1, 2])"
    "length [10 :: byte, 11, 12, 13, 14, 15, 16] < unat (r_len (packet_read 0 4))" "avail heap_read \<noteq> 0"
    "bget heap_read (r_buf (packet_read 0 4)) \<noteq> None"
    "\<forall>a x. bufs heap_read a = Some x \<longrightarrow> 1 \<le> sint (rb_refcount (b_ref x)) \<and> sint (rb_refcount (b_ref x)) < 2 ^ 29"
    by (auto simp: heap_read_def packet_read_def chain_data_def cell_data_def bcontent_def bget_def split: if_splits)
  from rpacket_clone_overrun [OF heap_read_facts(2) this] show ?thesis by (simp add: packet_read_def)
qed

lemma rpacket_small_first_buffer_witness:
  "\<exists>w h w' h' r h2 r' h3. wpacket_create heap0 1 0 4 0 = Some (w, h) \<and>
    wpacket_write h w (replicate 6 7) 6 = Some (w', h') \<and>
    rpacket_create_by_wpacket h' 0 w' = Some (r, h2) \<and> rpacket_read_uint32 h2 r = Some (6, r', h3)"
proof -
  have g: "GetSize_of_pow2 4 = 4" by (simp add: GetSize_of_pow2_def is_pow_of_2_def)
  have av: "10 \<le> avail heap0" by (simp add: heap0_ok)
  have c: "unat (GetSize_of_pow2 4) < 2 ^ 32 - 32" "(0::u8) = 0 \<Longrightarrow> 4 \<le> unat (GetSize_of_pow2 4)"
    by (simp_all add: g)
  obtain w h where w: "wpacket_create heap0 1 0 4 0 = Some (w, h)" "wrepr h w [fresh heap0] []"
    "w_raw w = 0" "\<exists>x. bufs h (fresh heap0) = Some x \<and> b_capacity x = GetSize_of_pow2 4"
    "room h w + (if (0::u8) = 0 then 4 else 0) = unat (GetSize_of_pow2 4) + exp_room (ucast (GetSize_of_pow2 4))"
    "exp_count (w_factor w) \<le> avail h" "w_factor w = ucast (GetSize_of_pow2 4)" "avail h = 18"
    by (rule wpacket_create_repr [OF heap0_ok(1) av c]) (use heap0_ok(2) in \<open>auto intro: that\<close>)
  have "room h w = 248" using w(5) exp_room_pow [of 2] by (simp add: g)
  then have p: "unat (6 :: u32) \<le> length (replicate 6 (7::byte))" "unat (6 :: u32) \<le> room h w" "exp_count (w_factor w) \<le> avail h"
    "length (w_header w [] @ []) + unat (6 :: u32) < 2 ^ 32"
    using w(6) by (simp_all add: w_header_def)
  obtain h' w' qs where 1: "wpacket_write h w (replicate 6 7) 6 = Some (w', h')"
    "written h w [fresh heap0] [] (take (unat (6 :: u32)) (replicate 6 7)) h' w' qs"
    by (rule wpacket_write_repr [OF w(2) p]) (rule that)
  have 2: "wrepr h' w' ([fresh heap0] @ qs) (replicate 6 7)" "w_raw w' = 0" "avail h' \<noteq> 0"
    "w_buf w' = w_buf w" using 1(2) w(3,8) exp_count_le [of "w_factor w"] by (auto simp: written_def)
  have b: "w_buf w = 1" using w(2) heap0_ok(3) by (auto simp: wrepr_def split: option.splits)
  obtain x0 where "bufs h 1 = Some x0" "b_capacity x0 = 4" using w(4) heap0_ok(3) g by auto
  then obtain x where "bufs h' 1 = Some x" "b_capacity x = 4" using 1(2) by (fastforce simp: written_def)
  then have x: "bget h' (w_buf w') = Some x" "b_capacity x = 4" using 2(4) b by (simp_all add: bget_def)
  have "4 \<le> length (replicate 6 (7 :: byte))" by simp
  from rpacket_small_first_buffer [OF 2(1,2,3) x this, of 0] w(1) 1(1) show ?thesis by auto
qed

lemma wpacket_of_rpacket_write_crashes_witness:
  "\<exists>w h'. wpacket_create_by_rpacket heap_read 0 (packet_read 0 0) = Some (w, h') \<and> wpacket_write h' w [1, 2] 2 = None"
proof -
  obtain w h' where 1: "wpacket_create_by_rpacket heap_read 0 (packet_read 0 0) = Some (w, h')"
    by (auto simp: wpacket_create_by_rpacket_def obj_alloc_def heap_read_def packet_read_def buffer_acquire_def bget_def)
  from wpacket_of_rpacket_write_crashes [OF this, of "[1, 2]" 2] 1 show ?thesis by blast
qed

end
