(* ===== verification/Field_Stream.thy ===== *)
theory Field_Stream
  imports Prelude
begin

text \<open>
  The interface between a writer of typed fields and a reader of them: the writer appends the bytes
  of a field to a stream, the reader takes them off again.  The write packet and the read packet
  provide it.
\<close>

fun put_all :: "('s \<Rightarrow> 'f \<Rightarrow> 's option) \<Rightarrow> 's \<Rightarrow> 'f list \<Rightarrow> 's option" where
  "put_all put s [] = Some s"
| "put_all put s (f # fs) = Option.bind (put s f) (\<lambda>s. put_all put s fs)"

fun get_all :: "('r \<Rightarrow> 'k \<Rightarrow> ('f \<times> 'r) option) \<Rightarrow> 'r \<Rightarrow> 'k list \<Rightarrow> ('f list \<times> 'r) option" where
  "get_all get r [] = Some ([], r)"
| "get_all get r (k # ks) =
     Option.bind (get r k) (\<lambda>(f, r). Option.bind (get_all get r ks) (\<lambda>(fs, r). Some (f # fs, r)))"

text \<open>
  writes s bs m says that the writer s has written bs and still has room for m bytes; reads r bs that
  the bytes bs are in front of the reader r.
\<close>

locale field_stream =
  fixes put :: "'s \<Rightarrow> 'f \<Rightarrow> 's option"
    and get :: "'r \<Rightarrow> 'k \<Rightarrow> ('f \<times> 'r) option"
    and kind :: "'f \<Rightarrow> 'k"
    and enc :: "'f \<Rightarrow> byte list"
    and valid :: "'f \<Rightarrow> bool"
    and writes :: "'s \<Rightarrow> byte list \<Rightarrow> nat \<Rightarrow> bool"
    and reads :: "'r \<Rightarrow> byte list \<Rightarrow> bool"
  assumes put_ex: "writes s bs m \<Longrightarrow> valid f \<Longrightarrow> length (enc f) \<le> m \<Longrightarrow>
      \<exists>s'. put s f = Some s' \<and> writes s' (bs @ enc f) (m - length (enc f))"
    and get_ex: "reads r (enc f @ bs) \<Longrightarrow> valid f \<Longrightarrow> \<exists>r'. get r (kind f) = Some (f, r') \<and> reads r' bs"
begin

lemma put_all_ex:
  assumes "writes s bs m" and "list_all valid fs" and "length (concat (map enc fs)) \<le> m"
  shows "\<exists>s'. put_all put s fs = Some s' \<and> writes s' (bs @ concat (map enc fs)) (m - length (concat (map enc fs)))"
  using assms
proof (induction fs arbitrary: s bs m)
  case (Cons f fs)
  obtain s1 where 1: "put s f = Some s1" "writes s1 (bs @ enc f) (m - length (enc f))"
    using put_ex [OF Cons.prems(1), of f] Cons.prems by auto
  obtain s2 where "put_all put s1 fs = Some s2"
    "writes s2 ((bs @ enc f) @ concat (map enc fs)) (m - length (enc f) - length (concat (map enc fs)))"
  proof -
    have "list_all valid fs" "length (concat (map enc fs)) \<le> m - length (enc f)" using Cons.prems by auto
    from Cons.IH [OF 1(2) this] that show ?thesis by blast
  qed
  then show ?case using 1(1) by simp
qed simp

lemma get_all_ex:
  assumes "reads r (concat (map enc fs) @ bs)" and "list_all valid fs"
  shows "\<exists>r'. get_all get r (map kind fs) = Some (fs, r') \<and> reads r' bs"
  using assms
proof (induction fs arbitrary: r)
  case (Cons f fs)
  obtain r1 where 1: "get r (kind f) = Some (f, r1)" "reads r1 (concat (map enc fs) @ bs)"
    using get_ex [of r f "concat (map enc fs) @ bs"] Cons.prems by auto
  obtain r2 where "get_all get r1 (map kind fs) = Some (fs, r2)" "reads r2 bs"
    using Cons.IH [OF 1(2)] Cons.prems by auto
  then show ?case using 1(1) by simp
qed simp

end

text \<open>A stream whose reader is opened on what has been written.\<close>

locale field_channel = field_stream +
  fixes open_reader :: "'a \<Rightarrow> 'b option"
  assumes open_ex: "writes s bs m \<Longrightarrow> \<exists>r. open_reader s = Some r \<and> reads r bs"
begin

lemma round_trip:
  assumes "writes s [] m" and "list_all valid fs" and "length (concat (map enc fs)) \<le> m"
  shows "\<exists>s' r r'. put_all put s fs = Some s' \<and> open_reader s' = Some r \<and>
    get_all get r (map kind fs) = Some (fs, r') \<and> reads r' []"
proof -
  obtain s' m' where 1: "put_all put s fs = Some s'" "writes s' (concat (map enc fs)) m'"
    using put_all_ex [OF assms] by auto
  obtain r where "open_reader s' = Some r" "reads r (concat (map enc fs))" using open_ex [OF 1(2)] by blast
  then show ?thesis using 1(1) get_all_ex [of r fs "[]"] assms(2) by auto
qed

end

end
