(* ===== verification/Packet_Trip.thy ===== *)
theory Packet_Trip
  imports Rpacket Field_Stream
begin

text \<open>
  Packets as streams of typed fields: what wpacket.c writes and rpacket.c reads back.
\<close>

datatype field =
    F_uint8 u8 | F_uint16 u16 | F_uint32 u32 | F_uint64 u64 | F_double u64
  | F_binary "byte list" | F_string "byte list"

datatype field_kind = K_uint8 | K_uint16 | K_uint32 | K_uint64 | K_double | K_binary | K_string

primrec kind_of :: "field \<Rightarrow> field_kind" where
  "kind_of (F_uint8 _) = K_uint8"
| "kind_of (F_uint16 _) = K_uint16"
| "kind_of (F_uint32 _) = K_uint32"
| "kind_of (F_uint64 _) = K_uint64"
| "kind_of (F_double _) = K_double"
| "kind_of (F_binary _) = K_binary"
| "kind_of (F_string _) = K_string"

text \<open>The bytes of a field; a string goes out with its terminator.\<close>

primrec field_bytes :: "field \<Rightarrow> byte list" where
  "field_bytes (F_uint8 v) = le_bytes v"
| "field_bytes (F_uint16 v) = le_bytes v"
| "field_bytes (F_uint32 v) = le_bytes v"
| "field_bytes (F_uint64 v) = le_bytes v"
| "field_bytes (F_double v) = le_bytes v"
| "field_bytes (F_binary bs) = le_bytes (of_nat (length bs) :: u32) @ bs"
| "field_bytes (F_string s) = le_bytes (of_nat (length s + 1) :: u32) @ s @ [0]"

primrec field_ok :: "field \<Rightarrow> bool" where
  "field_ok (F_uint8 _) = True"
| "field_ok (F_uint16 _) = True"
| "field_ok (F_uint32 _) = True"
| "field_ok (F_uint64 _) = True"
| "field_ok (F_double _) = True"
| "field_ok (F_binary bs) = (length bs < 2 ^ 32)"
| "field_ok (F_string s) = (0 \<notin> set s \<and> length s + 1 < 2 ^ 32)"

text \<open>A call of the write function of the field's type, on a packet with its heap.\<close>

definition write_field :: "wpacket \<times> bheap \<Rightarrow> field \<Rightarrow> (wpacket \<times> bheap) option" where
  "write_field s f = (case s of (w, h) \<Rightarrow> (case f of
     F_uint8 v \<Rightarrow> wpacket_write_uint8 h w v
   | F_uint16 v \<Rightarrow> wpacket_write_uint16 h w v
   | F_uint32 v \<Rightarrow> wpacket_write_uint32 h w v
   | F_uint64 v \<Rightarrow> wpacket_write_uint64 h w v
   | F_double v \<Rightarrow> wpacket_write_double h w v
   | F_binary bs \<Rightarrow> wpacket_write_binary h w bs (of_nat (length bs))
   | F_string str \<Rightarrow> wpacket_write_string h w (str @ [0])))"

text \<open>The C string behind a pointer.\<close>

definition ptr_string :: "bheap \<Rightarrow> data_ptr \<Rightarrow> byte list option" where
  "ptr_string h p = (case p of None \<Rightarrow> None
     | Some (a, off) \<Rightarrow> do {
         x \<leftarrow> bget h a;
         n \<leftarrow> c_strlen (drop off (b_buf x));
         mem_read off n (b_buf x)
       })"

text \<open>
  A call of the read function, with what the caller finds behind the pointer it gets.
\<close>

definition read_field :: "rpacket \<times> bheap \<Rightarrow> field_kind \<Rightarrow> (field \<times> rpacket \<times> bheap) option" where
  "read_field s k = (case s of (r, h) \<Rightarrow> (case k of
     K_uint8 \<Rightarrow> do { (v, r, h) \<leftarrow> rpacket_read_uint8 h r; Some (F_uint8 v, r, h) }
   | K_uint16 \<Rightarrow> do { (v, r, h) \<leftarrow> rpacket_read_uint16 h r; Some (F_uint16 v, r, h) }
   | K_uint32 \<Rightarrow> do { (v, r, h) \<leftarrow> rpacket_read_uint32 h r; Some (F_uint32 v, r, h) }
   | K_uint64 \<Rightarrow> do { (v, r, h) \<leftarrow> rpacket_read_uint64 h r; Some (F_uint64 v, r, h) }
   | K_double \<Rightarrow> do { (v, r, h) \<leftarrow> rpacket_read_double h r; Some (F_double v, r, h) }
   | K_binary \<Rightarrow> do {
       (p, len, r, h) \<leftarrow> rpacket_read_binary h r 0;
       bs \<leftarrow> ptr_bytes h p (unat len);
       Some (F_binary bs, r, h)
     }
   | K_string \<Rightarrow> do {
       (p, r, h) \<leftarrow> rpacket_read_string h r;
       s \<leftarrow> ptr_string h p;
       Some (F_string s, r, h)
     }))"

text \<open>
  A writer that is not raw, has payload pl, room for m more bytes in total, memory for the buffers
  this takes, for a read packet and for that packet's own buffer.
\<close>

definition writer :: "wpacket \<times> bheap \<Rightarrow> byte list \<Rightarrow> nat \<Rightarrow> bool" where
  "writer s pl m \<longleftrightarrow> (case s of (w, h) \<Rightarrow>
     (\<exists>ps. wrepr h w ps pl) \<and> exp_count (w_factor w) + 2 \<le> avail h \<and> m \<le> room h w \<and>
     4 + length pl + m < 2 ^ 32 - 32 \<and> w_raw w = 0 \<and> roomy h w)"

definition reader :: "rpacket \<times> bheap \<Rightarrow> byte list \<Rightarrow> bool" where
  "reader s d \<longleftrightarrow> (case s of (r, h) \<Rightarrow> \<exists>qs. rview h r qs d \<and> bin_ok h r qs \<and> r_raw r = 0)"

lemma c_strlen_terminated: "0 \<notin> set s \<Longrightarrow> c_strlen (s @ 0 # t) = Some (length s)"
proof -
  assume "0 \<notin> set s"
  then have "takeWhile (\<lambda>c. c \<noteq> 0) (s @ 0 # t) = s"
    by (subst takeWhile_append2) auto
  then show ?thesis by (simp add: c_strlen_def)
qed

lemma wpacket_write_writer:
  assumes "writer (w, h) pl m" and "unat n = length bs" and "length bs \<le> m"
  shows "\<exists>w' h'. wpacket_write h w bs n = Some (w', h') \<and> writer (w', h') (pl @ bs) (m - length bs)"
proof -
  obtain ps where w: "wrepr h w ps pl" "exp_count (w_factor w) + 2 \<le> avail h" "m \<le> room h w"
    "4 + length pl + m < 2 ^ 32 - 32" "w_raw w = 0" "roomy h w"
    using assms(1) by (auto simp: writer_def)
  have lh: "length (w_header w pl) = 4" using w(5) by (simp add: w_header_def)
  have 1: "unat n \<le> length bs" "unat n \<le> room h w" "exp_count (w_factor w) \<le> avail h"
    "length (w_header w pl @ pl) + unat n < 2 ^ 32"
    using assms(2,3) w lh by auto
  from wpacket_write_repr [OF w(1) 1] obtain h' w' qs where
    2: "wpacket_write h w bs n = Some (w', h')" "written h w ps pl (take (unat n) bs) h' w' qs"
    by blast
  have 3: "wrepr h' w' (ps @ qs) (pl @ bs)" "room h' w' + length bs = room h w"
    "exp_count (w_factor w') + avail h = exp_count (w_factor w) + avail h'" "w_raw w' = w_raw w" "w_buf w' = w_buf w"
    "\<forall>a x. bufs h a = Some x \<longrightarrow> (\<exists>y. bufs h' a = Some y \<and> b_capacity y = b_capacity x)"
    using 2(2) assms(2) by (auto simp: written_def)
  have "roomy h' w'"
  proof -
    obtain x where x: "w_buf w \<noteq> NULL" "bufs h (w_buf w) = Some x" "4 < b_capacity x"
      using w(5,6) by (auto simp: roomy_def bget_Some)
    then obtain y where "bufs h' (w_buf w) = Some y" "b_capacity y = b_capacity x" using 3(6) by blast
    then show ?thesis using x 3(5) by (simp add: roomy_def bget_def)
  qed
  moreover have "4 + length (pl @ bs) + (m - length bs) < 2 ^ 32 - 32" using w(4) assms(3) by simp
  ultimately have "writer (w', h') (pl @ bs) (m - length bs)"
    using 3 w assms(3) by (auto simp: writer_def)
  then show ?thesis using 2(1) by blast
qed

lemma write_field_writer:
  assumes "writer s pl m" and "field_ok f" and "length (field_bytes f) \<le> m"
  shows "\<exists>s'. write_field s f = Some s' \<and> writer s' (pl @ field_bytes f) (m - length (field_bytes f))"
proof -
  obtain w h where s: "s = (w, h)" by (cases s)
  note wr = wpacket_write_writer [OF assms(1) [unfolded s]]
  have raw: "w_raw w = 0" using assms(1) s by (simp add: writer_def)
  have prefixed: "\<exists>w' h'. wpacket_write_binary h w bs (of_nat (length bs)) = Some (w', h') \<and>
      writer (w', h') (pl @ le_bytes (of_nat (length bs) :: u32) @ bs) (m - (4 + length bs))"
    if b: "length bs < 2 ^ 32" "4 + length bs \<le> m" for bs
  proof -
    obtain w1 h1 where 1: "wpacket_write_uint32 h w (of_nat (length bs)) = Some (w1, h1)"
      "writer (w1, h1) (pl @ le_bytes (of_nat (length bs) :: u32)) (m - 4)"
      using wr [of 4 "le_bytes (of_nat (length bs) :: u32)"] b(2) by (auto simp: wpacket_write_uint32_def)
    have "unat (of_nat (length bs) :: u32) = length bs" using b(1) by (simp add: unat_of_nat)
    then show ?thesis
      using wpacket_write_writer [OF 1(2), of "of_nat (length bs)" bs] b(2) 1(1) raw
      by (auto simp: wpacket_write_binary_def diff_diff_left)
  qed
  show ?thesis
  proof (cases f)
    case (F_uint8 v)
    then show ?thesis using wr [of 1 "le_bytes v"] assms(3) s
      by (auto simp: write_field_def wpacket_write_uint8_def)
  next
    case (F_binary bs)
    then show ?thesis using prefixed [of bs] assms(2,3) s by (auto simp: write_field_def)
  next
    case (F_string str)
    have l: "c_strlen (str @ [0]) = Some (length str)"
      using assms(2) F_string by (intro c_strlen_terminated) simp
    have "wpacket_write_string h w (str @ [0]) = wpacket_write_binary h w (str @ [0]) (of_nat (length (str @ [0])))"
      using raw l by (simp add: wpacket_write_string_def)
    then show ?thesis using prefixed [of "str @ [0]"] assms(2,3) s F_string by (auto simp: write_field_def)
  qed (use assms s wr [of 2] wr [of 4] wr [of 8] in
    \<open>auto simp: write_field_def wpacket_write_uint16_def wpacket_write_uint32_def
       wpacket_write_uint64_def wpacket_write_double_def\<close>)
qed


section \<open>Reading a field back\<close>

lemma reader_read:
  assumes "reader (r, h) (bs @ d)" and "unat n = length bs"
  shows "\<exists>r' h'. rpacket_read h r n = Some (0, bs, r', h') \<and> reader (r', h') d"
proof -
  obtain qs where q: "rview h r qs (bs @ d)" "bin_ok h r qs" "r_raw r = 0" using assms(1) by (auto simp: reader_def)
  from rpacket_read_reads [OF q(1,2) assms(2)] obtain r' h' qs' where
    "rpacket_read h r n = Some (0, bs, r', h')" "reads h r h' r' qs' d" by blast
  then show ?thesis using q(3) by (auto simp: reader_def reads_def)
qed

lemma reader_read_binary:
  assumes "reader (r, h) (le_bytes (of_nat (length bs) :: u32) @ bs @ d)" and "length bs < 2 ^ 32"
  shows "\<exists>p r' h'. rpacket_read_binary h r 0 = Some (p, of_nat (length bs), r', h') \<and>
    ptr_bytes h' p (length bs) = Some bs \<and> reader (r', h') d"
proof -
  obtain qs where q: "rview h r qs (le_bytes (of_nat (length bs) :: u32) @ bs @ d)" "bin_ok h r qs" "r_raw r = 0"
    using assms(1) by (auto simp: reader_def)
  have un: "unat (of_nat (length bs) :: u32) = length bs" using assms(2) by (simp add: unat_of_nat)
  then have le: "unat (of_nat (length bs) :: u32) \<le> length (bs @ d)" by simp
  let ?n = "of_nat (length bs) :: u32"
  obtain p r' h' qs' where 1: "rpacket_read_binary h r 0 = Some (p, ?n, r', h')"
    "ptr_bytes h' p (unat ?n) = Some (take (unat ?n) (bs @ d))" "reads h r h' r' qs' (drop (unat ?n) (bs @ d))"
    by (rule rpacket_read_binary_reads [OF q le]) (rule that)
  have "take (unat ?n) (bs @ d) = bs" "drop (unat ?n) (bs @ d) = d" by (simp_all add: un)
  then show ?thesis using q(3) 1 un by (auto simp: reader_def reads_def)
qed

lemma ptr_string_bytes:
  assumes "ptr_bytes h p (length s + 1) = Some (s @ [0])" and "0 \<notin> set s"
  shows "ptr_string h p = Some s"
proof -
  obtain a off where p: "p = Some (a, off)" using assms(1) by (cases p) (auto simp: ptr_bytes_def)
  obtain x where x: "bget h a = Some x" "mem_read off (length s + 1) (b_buf x) = Some (s @ [0])"
    using assms(1) p by (auto simp: ptr_bytes_def bind_eq_Some_conv)
  have le: "off + (length s + 1) \<le> length (b_buf x)" and tk: "take (length s + 1) (drop off (b_buf x)) = s @ [0]"
    using x(2) by (auto simp: mem_read_def split: if_splits)
  have "drop off (b_buf x) = s @ 0 # drop (length s + 1) (drop off (b_buf x))"
    using append_take_drop_id [of "length s + 1" "drop off (b_buf x)"] unfolding tk by simp
  then have "c_strlen (drop off (b_buf x)) = Some (length s)" using c_strlen_terminated [OF assms(2)] by metis
  moreover have "take (length s) (drop off (b_buf x)) = s"
    using arg_cong [OF tk, of "take (length s)"] by simp
  ultimately show ?thesis using x(1) le by (simp add: ptr_string_def p mem_read_def)
qed

lemma read_field_reader:
  assumes "reader s (field_bytes f @ d)" and "field_ok f"
  shows "\<exists>s'. read_field s (kind_of f) = Some (f, s') \<and> reader s' d"
proof -
  obtain r h where s: "s = (r, h)" by (cases s)
  have raw: "r_raw r = 0" using assms(1) s by (auto simp: reader_def)
  show ?thesis
  proof (cases f)
    case (F_uint8 v)
    then show ?thesis using reader_read [of r h "le_bytes v" d 1] assms(1) s
      by (auto simp: read_field_def rpacket_read_uint8_def)
  next
    case (F_uint16 v)
    then show ?thesis using reader_read [of r h "le_bytes v" d 2] assms(1) s
      by (auto simp: read_field_def rpacket_read_uint16_def)
  next
    case (F_uint32 v)
    then show ?thesis using reader_read [of r h "le_bytes v" d 4] assms(1) s
      by (auto simp: read_field_def rpacket_read_uint32_def)
  next
    case (F_uint64 v)
    then show ?thesis using reader_read [of r h "le_bytes v" d 8] assms(1) s
      by (auto simp: read_field_def rpacket_read_uint64_def)
  next
    case (F_double v)
    then show ?thesis using reader_read [of r h "le_bytes v" d 8] assms(1) s
      by (auto simp: read_field_def rpacket_read_double_def)
  next
    case (F_binary bs)
    have "unat (of_nat (length bs) :: u32) = length bs" using assms(2) F_binary by (simp add: unat_of_nat)
    then show ?thesis using reader_read_binary [of r h bs d] assms s F_binary
      by (auto simp: read_field_def)
  next
    case (F_string str)
    then obtain p r' h' where
      "rpacket_read_binary h r 0 = Some (p, of_nat (length (str @ [0])), r', h')"
      "ptr_bytes h' p (length (str @ [0])) = Some (str @ [0])" "reader (r', h') d"
      using reader_read_binary [of r h "str @ [0]" d] assms s by auto
    moreover from this have "ptr_string h' p = Some str"
      using ptr_string_bytes [of h' p str] assms(2) F_string by simp
    ultimately show ?thesis using raw s F_string
      by (auto simp: read_field_def rpacket_read_string_def)
  qed
qed

section \<open>Packets are channels of typed fields\<close>

definition open_packet :: "addr \<Rightarrow> wpacket \<times> bheap \<Rightarrow> (rpacket \<times> bheap) option" where
  "open_packet allo s = (case s of (w, h) \<Rightarrow> rpacket_create_by_wpacket h allo w)"

lemma open_packet_reader:
  assumes "writer s pl m"
  shows "\<exists>t. open_packet allo s = Some t \<and> reader t pl"
proof -
  obtain w h where s: "s = (w, h)" by (cases s)
  obtain ps where w: "wrepr h w ps pl" "2 \<le> avail h" "4 + length pl + m < 2 ^ 32 - 32" "w_raw w = 0" "roomy h w"
    using assms s by (auto simp: writer_def)
  have av: "avail h \<noteq> 0" using w(2) by simp
  obtain r h' where r: "rpacket_create_by_wpacket h allo w = Some (r, h')"
    "rview h' r ps (take (length pl) (drop (unat (start_pos h w)) (w_header w pl @ pl)))"
    "r_len r = of_nat (length pl)" "r_raw r = w_raw w" "r_binbuf r = NULL"
    "r_data_remain r = of_nat (length pl)" "heap_ok h'" "avail h' = avail h - 1"
    by (rule create_by_wpacket_view [OF w(1) av]) (rule that)
  have "rview h' r ps pl" using r(2) roomy_start [OF w(5)] by simp
  moreover have "unat (r_len r) < 2 ^ 32 - 32" using r(3) w(3) by (simp add: unat_of_nat)
  then have "bin_ok h' r ps" using r w(2) by (simp add: bin_ok_def)
  ultimately show ?thesis using r(1,4) w(4) s by (auto simp: open_packet_def reader_def)
qed

interpretation packet: field_channel write_field read_field kind_of field_bytes field_ok writer reader
    "open_packet allo" for allo
  by unfold_locales (blast intro: write_field_writer read_field_reader open_packet_reader)+

section \<open>The round trip\<close>

lemma created_writer:
  assumes "heap_ok h" and "12 \<le> avail h" and "GetSize_of_pow2 sz = 2 ^ k" and "3 \<le> k" and "k < 32"
  obtains s where "wpacket_create h mt allo sz 0 = Some s"
    "writer s [] ((if k < 8 then 256 - 2 ^ k else 2 ^ k) - 4)"
proof -
  let ?m = "(if k < 8 then 256 - 2 ^ k else 2 ^ k) :: nat"
  have k: "(2::nat) ^ k \<le> 2 ^ 31" "(2::nat) ^ 3 \<le> 2 ^ k" using assms(4,5) by (intro power_increasing; simp)+
  then have c: "unat (GetSize_of_pow2 sz) < 2 ^ 32 - 32" "4 < unat (GetSize_of_pow2 sz)"
    using assms(3,5) by (simp_all add: unat_2_power)
  then have c4: "(0::u8) = 0 \<Longrightarrow> 4 \<le> unat (GetSize_of_pow2 sz)" by simp
  have av: "10 \<le> avail h" using assms(2) by simp
  obtain w h' where w: "wpacket_create h mt allo sz 0 = Some (w, h')" "wrepr h' w [fresh h] []"
    "w_raw w = 0" "\<exists>x. bufs h' (fresh h) = Some x \<and> b_capacity x = GetSize_of_pow2 sz"
    "room h' w + (if (0::u8) = 0 then 4 else 0) =
       unat (GetSize_of_pow2 sz) + exp_room (ucast (GetSize_of_pow2 sz))" "avail h' = avail h - 2"
    by (rule wpacket_create_repr [OF assms(1) av c(1), of 0 mt allo]) (use c4 in \<open>auto intro: that\<close>)
  have rm: "room h' w + 4 = ?m" using w(5) assms(3) created_room [OF assms(5)] by simp
  have b: "w_buf w = fresh h" using w(2) by (auto simp: wrepr_def split: option.splits)
  obtain x where x: "bufs h' (w_buf w) = Some x" "b_capacity x = GetSize_of_pow2 sz" using w(4) b by auto
  have "w_buf w \<noteq> NULL" using w(2) bseg_dom [of "bufs h'" "w_buf w" "[fresh h]" NULL "fresh h"] b
    by (simp add: wrepr_def)
  then have "roomy h' w" using x c(2) by (auto simp: roomy_def bget_def word_less_nat_alt)
  moreover have "?m \<le> 2 ^ 31"
  proof -
    have "(256::nat) - 2 ^ k \<le> 256" by simp
    also have "(256::nat) \<le> 2 ^ 31" by simp
    finally show ?thesis using k(1) by simp
  qed
  moreover have "exp_count (w_factor w) + 2 \<le> avail h'"
    using exp_count_le [of "w_factor w"] assms(2) w(6) by simp
  ultimately have "writer (w, h') [] (?m - 4)"
    using w(2,3) rm unfolding writer_def by auto
  then show thesis using w(1) by (rule that [rotated])
qed



end
