(* ===== verification/Prio_Queue.thy ===== *)
theory Prio_Queue
  imports Prelude "HOL-Library.Multiset"
begin

text \<open>
  The interface of a queue of timed elements, which the timer heap provides: peek shows an element of
  least key, pop removes the element that peek shows.  Its client is the loop that takes off
  everything that is due.
\<close>

text \<open>Taking off, one after the other, the elements whose key is at most now.\<close>

inductive drains ::
    "('s \<Rightarrow> 'a option) \<Rightarrow> ('s \<Rightarrow> 's option) \<Rightarrow> ('a \<Rightarrow> int) \<Rightarrow> int \<Rightarrow> 's \<Rightarrow> 'a list \<Rightarrow> 's \<Rightarrow> bool"
  for peek pop key now where
  drains_empty: "peek s = None \<Longrightarrow> drains peek pop key now s [] s"
| drains_later: "peek s = Some x \<Longrightarrow> now < key x \<Longrightarrow> drains peek pop key now s [] s"
| drains_due: "peek s = Some x \<Longrightarrow> key x \<le> now \<Longrightarrow> pop s = Some s1 \<Longrightarrow>
    drains peek pop key now s1 xs s2 \<Longrightarrow> drains peek pop key now s (x # xs) s2"

inductive_cases drains_ConsE: "drains peek pop key now s (x # xs) s2"
inductive_cases drains_NilE: "drains peek pop key now s [] s2"

locale prio_queue =
  fixes inv :: "'s \<Rightarrow> bool"
    and elems :: "'s \<Rightarrow> 'a multiset"
    and key :: "'a \<Rightarrow> int"
    and peek :: "'s \<Rightarrow> 'a option"
    and pop :: "'s \<Rightarrow> 's option"
  assumes top_None: "inv s \<Longrightarrow> peek s = None \<longleftrightarrow> elems s = {#}"
    and top_min: "inv s \<Longrightarrow> peek s = Some x \<Longrightarrow> x \<in># elems s \<and> (\<forall>y\<in>#elems s. key x \<le> key y)"
    and pop_top: "inv s \<Longrightarrow> peek s = Some x \<Longrightarrow> \<exists>s'. pop s = Some s' \<and> inv s' \<and> elems s = add_mset x (elems s')"
begin

lemma drains_sound:
  assumes "drains peek pop key now s xs s'" and "inv s"
  shows "inv s' \<and> elems s = mset xs + elems s' \<and> sorted (map key xs) \<and>
    (\<forall>x\<in>set xs. key x \<le> now) \<and> (\<forall>y\<in>#elems s'. now < key y)"
  using assms
proof (induction rule: drains.induct)
  case (drains_empty s)
  then show ?case using top_None by simp
next
  case (drains_later s x)
  then have "\<forall>y\<in>#elems s. key x \<le> key y" using top_min by blast
  then show ?case using drains_later by fastforce
next
  case (drains_due s x s1 xs s2)
  have 1: "inv s1" "elems s = add_mset x (elems s1)"
    using pop_top [OF drains_due.prems drains_due.hyps(1)] drains_due.hyps(3) by auto
  have min: "\<forall>y\<in>#elems s. key x \<le> key y" using top_min [OF drains_due.prems drains_due.hyps(1)] by blast
  note IH = drains_due.IH [OF 1(1)]
  have "set xs \<subseteq> set_mset (elems s)" using IH 1(2) by auto
  then show ?case using IH 1(2) min drains_due.hyps(2) by auto
qed

lemma drains_total:
  assumes "inv s"
  shows "\<exists>xs s'. drains peek pop key now s xs s'"
  using assms
proof (induction "size (elems s)" arbitrary: s rule: less_induct)
  case less
  show ?case
  proof (cases "peek s")
    case None
    then show ?thesis using drains_empty by fast
  next
    case (Some x)
    show ?thesis
    proof (cases "now < key x")
      case True
      then show ?thesis using drains_later [of peek s x] Some by fast
    next
      case False
      obtain s1 where s1: "pop s = Some s1" "inv s1" "elems s = add_mset x (elems s1)"
        using pop_top [OF less.prems Some] by blast
      then obtain xs s' where "drains peek pop key now s1 xs s'" using less.hyps [of s1] by auto
      then show ?thesis using drains_due [of peek s x] Some s1(1) False by (meson not_less)
    qed
  qed
qed

end

end
