(* ===== verification/Time_Heap.thy ===== *)
theory Time_Heap
  imports Prio_Queue
begin

text \<open>
  The timer heap of src/timer.h.  Timers are objects of a store, because the array of the heap holds
  pointers to them that delete_timer and the owner of a timer alias; the array may hold stale pointers
  past its size.  None is an assertion that fails, an access outside the array, a use of a freed timer
  or an allocation that is refused.
\<close>

section \<open>State\<close>

record xbuffer_t =
  xb_buf :: addr
  xb_size :: u32
  xb_len :: u32

record cli_data =
  sockfd :: int
  address :: nat
  cd_buffer :: xbuffer_t

record heap_timer =
  expire :: int
  callback_func :: addr
  user_data :: cli_data

type_synonym timers = "addr \<rightharpoonup> heap_timer"

record time_heap =
  array :: "addr list"
  capacity_t :: int
  cur_size :: int

text \<open>The constructor of a timer; the code leaves the callback to be set by the caller.\<close>

definition heap_timer_new :: "int \<Rightarrow> int \<Rightarrow> addr \<Rightarrow> cli_data \<Rightarrow> heap_timer" where
  "heap_timer_new now delay cb ud = \<lparr>expire = now + delay, callback_func = cb, user_data = ud\<rparr>"

section \<open>Access\<close>

definition arr_get :: "addr list \<Rightarrow> int \<Rightarrow> addr option" where
  "arr_get arr i = (if 0 \<le> i \<and> i < int (length arr) then Some (arr ! nat i) else None)"

definition arr_set :: "addr list \<Rightarrow> int \<Rightarrow> addr \<Rightarrow> addr list option" where
  "arr_set arr i a = (if 0 \<le> i \<and> i < int (length arr) then Some (arr[nat i := a]) else None)"

definition timer_at :: "timers \<Rightarrow> addr \<Rightarrow> heap_timer option" where
  "timer_at st a = (if a = NULL then None else st a)"

definition expire_at :: "timers \<Rightarrow> addr \<Rightarrow> int option" where
  "expire_at st a = map_option expire (timer_at st a)"

text \<open>new of an array of pointers: a negative count is refused.\<close>

definition new_array :: "int \<Rightarrow> addr list option" where
  "new_array n = (if n < 0 then None else Some (replicate (nat n) NULL))"

section \<open>Percolation\<close>

text \<open>
  The loop of percolate; the hole moves down while the smaller child expires before the timer that is
  to be placed.  The hole is never negative.
\<close>

function percolate_loop :: "timers \<Rightarrow> addr list \<Rightarrow> int \<Rightarrow> addr \<Rightarrow> nat \<Rightarrow> (addr list \<times> nat) option" where
  "percolate_loop st arr n tmp hole_index =
     (if int (hole_index * 2 + 1) \<le> n - 1
      then let child = hole_index * 2 + 1
           in Option.bind
                (if int child < n - 1
                 then Option.bind (Option.bind (arr_get arr (int child + 1)) (expire_at st)) (\<lambda>e1.
                      Option.bind (Option.bind (arr_get arr (int child)) (expire_at st)) (\<lambda>e0.
                        Some (e1 < e0)))
                 else Some False)
                (\<lambda>right.
                   let child = (if right then child + 1 else child)
                   in Option.bind (arr_get arr (int child)) (\<lambda>a.
                      Option.bind (expire_at st a) (\<lambda>e.
                      Option.bind (expire_at st tmp) (\<lambda>et.
                        if e < et
                        then Option.bind (arr_set arr (int hole_index) a) (\<lambda>arr.
                               percolate_loop st arr n tmp child)
                        else Some (arr, hole_index)))))
      else Some (arr, hole_index))"
  by pat_completeness auto
termination
  by (relation "measure (\<lambda>(st, arr, n, tmp, hole). nat n - hole)") auto

declare percolate_loop.simps [simp del]

definition percolate :: "timers \<Rightarrow> time_heap \<Rightarrow> nat \<Rightarrow> time_heap option" where
  "percolate st th hole_index = do {
     tmp \<leftarrow> arr_get (array th) (int hole_index);
     (arr, hole_index) \<leftarrow> percolate_loop st (array th) (cur_size th) tmp hole_index;
     arr \<leftarrow> arr_set arr (int hole_index) tmp;
     Some (th\<lparr>array := arr\<rparr>)
   }"

section \<open>Construction\<close>

definition time_heap_new :: "int \<Rightarrow> time_heap option" where
  "time_heap_new capacity = do {
     arr \<leftarrow> new_array capacity;
     Some \<lparr>array = arr, capacity_t = capacity, cur_size = 0\<rparr>
   }"

text \<open>The first k entries of one array copied to another, from index i on.\<close>

fun copy_entries :: "addr list \<Rightarrow> addr list \<Rightarrow> int \<Rightarrow> nat \<Rightarrow> addr list option" where
  "copy_entries src dst i 0 = Some dst"
| "copy_entries src dst i (Suc k) = do {
     a \<leftarrow> arr_get src i;
     dst \<leftarrow> arr_set dst i a;
     copy_entries src dst (i + 1) k
   }"

fun heapify_loop :: "timers \<Rightarrow> time_heap \<Rightarrow> nat \<Rightarrow> time_heap option" where
  "heapify_loop st th 0 = percolate st th 0"
| "heapify_loop st th (Suc i) = do { th \<leftarrow> percolate st th (Suc i); heapify_loop st th i }"

definition time_heap_init :: "timers \<Rightarrow> addr list \<Rightarrow> int \<Rightarrow> int \<Rightarrow> time_heap option" where
  "time_heap_init st ini sz capacity = do {
     arr \<leftarrow> new_array capacity;
     if sz \<noteq> 0
     then do {
       arr \<leftarrow> copy_entries ini arr 0 (nat sz);
       let th = \<lparr>array = arr, capacity_t = capacity, cur_size = sz\<rparr>;
       if sz \<ge> 1 then heapify_loop st th (nat ((cur_size th - 1) div 2)) else Some th
     }
     else Some \<lparr>array = arr, capacity_t = capacity, cur_size = sz\<rparr>
   }"

definition delete_object :: "timers \<Rightarrow> addr \<Rightarrow> timers option" where
  "delete_object st a = (if a = NULL then Some st else case st a of None \<Rightarrow> None | Some _ \<Rightarrow> Some (st(a := None)))"

fun destroy_loop :: "timers \<Rightarrow> addr list \<Rightarrow> int \<Rightarrow> nat \<Rightarrow> timers option" where
  "destroy_loop st arr i 0 = Some st"
| "destroy_loop st arr i (Suc k) = do {
     a \<leftarrow> arr_get arr i;
     st \<leftarrow> delete_object st a;
     destroy_loop st arr (i + 1) k
   }"

definition time_heap_destroy :: "timers \<Rightarrow> time_heap \<Rightarrow> timers option" where
  "time_heap_destroy st th = destroy_loop st (array th) 0 (nat (cur_size th))"

section \<open>Operations\<close>

definition get_top :: "time_heap \<Rightarrow> addr option" where
  "get_top th = (if cur_size th = 0 then Some NULL else arr_get (array th) 0)"

text \<open>The capacity is an int: doubling it past the range of int is undefined.\<close>

definition resize_heap :: "time_heap \<Rightarrow> time_heap option" where
  "resize_heap th =
     (if 2 ^ 31 \<le> capacity_t th * 2 then None
      else do {
        tmp \<leftarrow> new_array (capacity_t th * 2);
        tmp \<leftarrow> copy_entries (array th) tmp 0 (nat (cur_size th));
        Some (th\<lparr>array := tmp, capacity_t := capacity_t th * 2\<rparr>)
      })"

function add_loop :: "timers \<Rightarrow> addr list \<Rightarrow> addr \<Rightarrow> nat \<Rightarrow> (addr list \<times> nat) option" where
  "add_loop st arr timer hole_index =
     (if hole_index > 0
      then let parent = (hole_index - 1) div 2
           in Option.bind (arr_get arr (int parent)) (\<lambda>a.
              Option.bind (expire_at st a) (\<lambda>e.
              Option.bind (expire_at st timer) (\<lambda>et.
                if e \<le> et then Some (arr, hole_index)
                else Option.bind (arr_set arr (int hole_index) a) (\<lambda>arr. add_loop st arr timer parent))))
      else Some (arr, hole_index))"
  by pat_completeness auto
termination
  by (relation "measure (\<lambda>(st, arr, timer, hole). hole)") auto

declare add_loop.simps [simp del]

definition add_timer :: "timers \<Rightarrow> time_heap \<Rightarrow> addr \<Rightarrow> time_heap option" where
  "add_timer st th timer =
     (if timer = NULL then None
      else do {
        th \<leftarrow> (if capacity_t th \<le> cur_size th then resize_heap th else Some th);
        let hole_index = cur_size th;
        let th = th\<lparr>cur_size := cur_size th + 1\<rparr>;
        (arr, hole_index) \<leftarrow> (if hole_index > 0
          then do { (arr, hole) \<leftarrow> add_loop st (array th) timer (nat hole_index); Some (arr, int hole) }
          else Some (array th, hole_index));
        arr \<leftarrow> arr_set arr hole_index timer;
        Some (th\<lparr>array := arr\<rparr>)
      })"

definition delete_timer :: "timers \<Rightarrow> addr \<Rightarrow> timers option" where
  "delete_timer st timer = do {
     t \<leftarrow> timer_at st timer;
     Some (st(timer \<mapsto> t\<lparr>callback_func := NULL\<rparr>))
   }"

definition pop_timer :: "timers \<Rightarrow> time_heap \<Rightarrow> (timers \<times> time_heap) option" where
  "pop_timer st th =
     (if cur_size th = 0 then Some (st, th)
      else do {
        a0 \<leftarrow> arr_get (array th) 0;
        if a0 \<noteq> NULL
        then do {
          st \<leftarrow> delete_object st a0;
          let th = th\<lparr>cur_size := cur_size th - 1\<rparr>;
          a \<leftarrow> arr_get (array th) (cur_size th);
          arr \<leftarrow> arr_set (array th) 0 a;
          th \<leftarrow> percolate st (th\<lparr>array := arr\<rparr>) 0;
          Some (st, th)
        }
        else Some (st, th)
      })"

text \<open>
  The loop of tick; the calls made are logged as pairs of the callback and the data it gets.  A
  callback works on its client's data, not on the heap.
\<close>

partial_function (option) tick_loop ::
    "timers \<Rightarrow> time_heap \<Rightarrow> int \<Rightarrow> addr \<Rightarrow> (addr \<times> cli_data) list \<Rightarrow>
     (timers \<times> time_heap \<times> (addr \<times> cli_data) list) option" where
  "tick_loop st th cur_time tmp log =
     (if cur_size th \<noteq> 0
      then if tmp = NULL then Some (st, th, log)
           else Option.bind (expire_at st tmp) (\<lambda>e.
             if e > cur_time then Some (st, th, log)
             else Option.bind (arr_get (array th) 0) (\<lambda>a.
                  Option.bind (timer_at st a) (\<lambda>t.
                    let log = (if callback_func t \<noteq> NULL then log @ [(callback_func t, user_data t)] else log)
                    in Option.bind (pop_timer st th) (\<lambda>(st, th).
                       Option.bind (arr_get (array th) 0) (\<lambda>tmp.
                         tick_loop st th cur_time tmp log)))))
      else Some (st, th, log))"

definition tick :: "timers \<Rightarrow> time_heap \<Rightarrow> int \<Rightarrow> (timers \<times> time_heap \<times> (addr \<times> cli_data) list) option" where
  "tick st th cur_time = do {
     tmp \<leftarrow> arr_get (array th) 0;
     tick_loop st th cur_time tmp []
   }"

section \<open>The heap order\<close>

definition live :: "timers \<Rightarrow> addr \<Rightarrow> bool" where
  "live st a \<longleftrightarrow> a \<noteq> NULL \<and> st a \<noteq> None"

definition due_at :: "timers \<Rightarrow> addr \<Rightarrow> int" where
  "due_at st a = expire (the (st a))"

text \<open>Every entry below n whose parent is at least k does not expire before its parent.\<close>

definition heap_from :: "timers \<Rightarrow> nat \<Rightarrow> nat \<Rightarrow> addr list \<Rightarrow> bool" where
  "heap_from st k n A \<longleftrightarrow>
     (\<forall>i. 0 < i \<longrightarrow> i < n \<longrightarrow> k \<le> (i - 1) div 2 \<longrightarrow> due_at st (A ! ((i - 1) div 2)) \<le> due_at st (A ! i))"

lemma live_expire: "live st a \<Longrightarrow> expire_at st a = Some (due_at st a)"
  by (auto simp: live_def expire_at_def timer_at_def due_at_def)

lemma arr_get_nat [simp]: "arr_get arr (int i) = (if i < length arr then Some (arr ! i) else None)"
  by (simp add: arr_get_def)

lemma arr_set_nat [simp]: "arr_set arr (int i) a = (if i < length arr then Some (arr[i := a]) else None)"
  by (simp add: arr_set_def)

lemma child_iff: "0 < i \<Longrightarrow> (i - 1) div 2 = h \<longleftrightarrow> i = 2 * h + 1 \<or> i = 2 * h + (2::nat)"
  by presburger

lemma mset_list_swap: "i < length A \<Longrightarrow> j < length A \<Longrightarrow> i \<noteq> j \<Longrightarrow> mset (A[i := A ! j, j := A ! i]) = mset A"
  using mset_swap [of j A i] by (simp add: list_update_swap)

text \<open>
  Placing a timer t in the hole h: what holds while the hole moves down.  Only the order between the
  hole and its children is open, and the children do not expire before the hole's parent.
\<close>

definition hole_down :: "timers \<Rightarrow> nat \<Rightarrow> nat \<Rightarrow> addr list \<Rightarrow> nat \<Rightarrow> bool" where
  "hole_down st k n A h \<longleftrightarrow> k \<le> h \<and> h < n \<and> n \<le> length A \<and> (\<forall>i<n. live st (A ! i)) \<and>
     (\<forall>i. 0 < i \<longrightarrow> i < n \<longrightarrow> k \<le> (i - 1) div 2 \<longrightarrow> (i - 1) div 2 \<noteq> h \<longrightarrow>
        due_at st (A ! ((i - 1) div 2)) \<le> due_at st (A ! i)) \<and>
     (\<forall>i. 0 < h \<longrightarrow> k \<le> (h - 1) div 2 \<longrightarrow> 0 < i \<longrightarrow> i < n \<longrightarrow> (i - 1) div 2 = h \<longrightarrow>
        due_at st (A ! ((h - 1) div 2)) \<le> due_at st (A ! i))"

lemma hole_down_end:
  assumes "hole_down st k n A h"
    and "\<And>i. 0 < i \<Longrightarrow> i < n \<Longrightarrow> (i - 1) div 2 = h \<Longrightarrow> due_at st (A ! h) \<le> due_at st (A ! i)"
  shows "heap_from st k n A"
  unfolding heap_from_def
proof (intro allI impI)
  fix i assume i: "0 < i" "i < n" "k \<le> (i - 1) div 2"
  show "due_at st (A ! ((i - 1) div 2)) \<le> due_at st (A ! i)"
  proof (cases "(i - 1) div 2 = h")
    case True then show ?thesis using assms(2) i by simp
  next
    case False then show ?thesis using assms(1) i by (simp add: hole_down_def)
  qed
qed

lemma hole_down_step:
  assumes d: "hole_down st k n A h" and c: "0 < c" "c < n" "(c - 1) div 2 = h"
    and lt: "due_at st (A ! c) \<le> due_at st (A ! h)"
    and min: "\<And>i. 0 < i \<Longrightarrow> i < n \<Longrightarrow> (i - 1) div 2 = h \<Longrightarrow> due_at st (A ! c) \<le> due_at st (A ! i)"
  shows "hole_down st k n (A[h := A ! c, c := A ! h]) c"
proof -
  let ?A = "A[h := A ! c, c := A ! h]"
  have hc: "h < c" "h \<noteq> c" "h < length A" "c < length A" using d c by (auto simp: hole_down_def)
  have nth: "?A ! i = (if i = c then A ! h else if i = h then A ! c else A ! i)" for i
    using hc by (simp add: nth_list_update)
  have "due_at st (?A ! ((i - 1) div 2)) \<le> due_at st (?A ! i)"
    if i: "0 < i" "i < n" "k \<le> (i - 1) div 2" "(i - 1) div 2 \<noteq> c" for i
  proof (cases "(i - 1) div 2 = h")
    case True
    then have "i \<noteq> h" using i(1) by auto
    then show ?thesis using True min [OF i(1,2) True] lt hc i(4) by (simp add: nth)
  next
    case False
    have ic: "i \<noteq> c" using False c(3) by auto
    show ?thesis
    proof (cases "i = h")
      case True
      then have "due_at st (A ! ((h - 1) div 2)) \<le> due_at st (A ! c)" using d c i by (simp add: hole_down_def)
      then show ?thesis using True i(4) False hc by (simp add: nth)
    next
      case 2: False
      then show ?thesis using False ic i d by (simp add: nth hole_down_def)
    qed
  qed
  moreover have "due_at st (?A ! ((c - 1) div 2)) \<le> due_at st (?A ! i)"
    if i: "0 < i" "i < n" "(i - 1) div 2 = c" for i
  proof -
    have "i \<noteq> h" "i \<noteq> c" using i hc by auto
    moreover have "due_at st (A ! c) \<le> due_at st (A ! i)"
      using d i hc unfolding hole_down_def by (metis le_trans less_imp_le_nat)
    ultimately show ?thesis using c(3) hc by (simp add: nth)
  qed
  moreover have "\<forall>i<n. live st (?A ! i)" using d c hc by (auto simp: nth hole_down_def)
  ultimately show ?thesis using d c hc by (auto simp: hole_down_def)
qed

lemma percolate_loop_ok:
  assumes "hole_down st k n (arr[h := tmp]) h"
  shows "\<exists>arr' h'. percolate_loop st arr (int n) tmp h = Some (arr', h') \<and> h' < n \<and> length arr' = length arr \<and>
    mset (arr'[h' := tmp]) = mset (arr[h := tmp]) \<and> heap_from st k n (arr'[h' := tmp]) \<and>
    (\<forall>i. n \<le> i \<longrightarrow> arr' ! i = arr ! i)"
  using assms
proof (induction "n - h" arbitrary: arr h rule: less_induct)
  case less
  let ?A = "arr[h := tmp]"
  have h: "h < n" "n \<le> length arr" "h < length arr" and lv: "\<And>i. i < n \<Longrightarrow> live st (?A ! i)"
    using less.prems by (auto simp: hole_down_def)
  have lt: "live st tmp" using lv [OF h(1)] h(3) by simp
  show ?case
  proof (cases "2 * h + 1 < n")
    case False
    have "heap_from st k n ?A"
      by (rule hole_down_end [OF less.prems]) (use False child_iff in auto)
    then show ?thesis using False h by (subst percolate_loop.simps) (auto simp: mult.commute)
  next
    case True
    define right where "right \<longleftrightarrow> 2 * h + 2 < n \<and> due_at st (arr ! (2 * h + 2)) < due_at st (arr ! (2 * h + 1))"
    define c where "c = (if right then 2 * h + 2 else 2 * h + 1)"
    have c: "c < n" "0 < c" "c \<noteq> h" "(c - 1) div 2 = h" using True by (auto simp: c_def right_def)
    have Ai: "?A ! i = arr ! i" if "i \<noteq> h" for i using that by simp
    have lc: "live st (arr ! i)" if "i < n" "i \<noteq> h" for i using lv [OF that(1)] Ai [OF that(2)] by simp
    have min: "due_at st (?A ! c) \<le> due_at st (?A ! i)" if "0 < i" "i < n" "(i - 1) div 2 = h" for i
    proof -
      have "i = 2 * h + 1 \<or> i = 2 * h + 2" using that child_iff by blast
      then show ?thesis using that(2) by (auto simp: c_def right_def)
    qed
    have rt: "(if int (h * 2 + 1) < int n - 1
        then Option.bind (Option.bind (arr_get arr (int (h * 2 + 1) + 1)) (expire_at st)) (\<lambda>e1.
             Option.bind (Option.bind (arr_get arr (int (h * 2 + 1))) (expire_at st)) (\<lambda>e0. Some (e1 < e0)))
        else Some False) = Some right"
    proof (cases "2 * h + 2 < n")
      case r: True
      have e: "int (2 * h + 1) + 1 = int (2 * h + 2)" "h * 2 + 1 = 2 * h + 1" by simp_all
      have "expire_at st (arr ! (2 * h + 2)) = Some (due_at st (arr ! (2 * h + 2)))"
        "expire_at st (arr ! (2 * h + 1)) = Some (due_at st (arr ! (2 * h + 1)))"
        using r True by (auto intro!: live_expire lc)
      then show ?thesis using r True h(2) unfolding e arr_get_nat by (simp add: right_def)
    next
      case False
      then show ?thesis using True by (auto simp: right_def)
    qed
    have cc: "(if right then h * 2 + 1 + 1 else h * 2 + 1) = c" by (simp add: c_def)
    have ec: "expire_at st (arr ! c) = Some (due_at st (arr ! c))" "expire_at st tmp = Some (due_at st tmp)"
      using lc [OF c(1,3)] lt by (auto intro: live_expire)
    have step: "percolate_loop st arr (int n) tmp h =
        (if due_at st (arr ! c) < due_at st tmp then percolate_loop st (arr[h := arr ! c]) (int n) tmp c
         else Some (arr, h))"
    proof -
      have cond: "int (h * 2 + 1) \<le> int n - 1" using True by simp
      have "percolate_loop st arr (int n) tmp h = Option.bind (arr_get arr (int c)) (\<lambda>a.
          Option.bind (expire_at st a) (\<lambda>e. Option.bind (expire_at st tmp) (\<lambda>et.
            if e < et then Option.bind (arr_set arr (int h) a) (\<lambda>arr. percolate_loop st arr (int n) tmp c)
            else Some (arr, h))))"
        by (subst percolate_loop.simps) (simp only: Let_def if_P [OF cond] rt Option.bind.simps cc)
      then show ?thesis using ec c(1) h by simp
    qed
    show ?thesis
    proof (cases "due_at st (arr ! c) < due_at st tmp")
      case False
      have "heap_from st k n ?A"
      proof (rule hole_down_end [OF less.prems])
        fix i assume "0 < i" "i < n" "(i - 1) div 2 = h"
        from min [OF this] show "due_at st (?A ! h) \<le> due_at st (?A ! i)" using False c(3) h(3) by simp
      qed
      then show ?thesis using step False h by simp
    next
      case lt: True
      let ?arr1 = "arr[h := arr ! c]"
      have sw: "?arr1[c := tmp] = ?A[h := ?A ! c, c := ?A ! h]"
        using c(3) h(3) by (simp add: list_update_swap)
      have hd1: "hole_down st k n (?arr1[c := tmp]) c"
        unfolding sw using c min lt h(3) by (intro hole_down_step [OF less.prems]) auto
      have "n - c < n - h" using c(1) True by (auto simp: c_def)
      from less.hyps [OF this hd1] obtain arr' h' where 1: "percolate_loop st ?arr1 (int n) tmp c = Some (arr', h')" "h' < n"
        "length arr' = length ?arr1" "mset (arr'[h' := tmp]) = mset (?arr1[c := tmp])"
        "heap_from st k n (arr'[h' := tmp])" "\<forall>i. n \<le> i \<longrightarrow> arr' ! i = ?arr1 ! i"
        using c(1) h by auto
      have "mset (?arr1[c := tmp]) = mset ?A" unfolding sw using c h by (intro mset_list_swap) auto
      then show ?thesis using step lt 1 h by (intro exI [of _ arr'] exI [of _ h']) auto
    qed
  qed
qed


definition heap_live :: "timers \<Rightarrow> nat \<Rightarrow> addr list \<Rightarrow> bool" where
  "heap_live st n A \<longleftrightarrow> n \<le> length A \<and> (\<forall>i<n. live st (A ! i)) \<and> distinct (take n A)"

lemma mset_take_eq:
  assumes "mset A = mset B" and "\<forall>i. n \<le> i \<longrightarrow> A ! i = B ! i"
  shows "mset (take n A) = mset (take n B)"
proof -
  have l: "length A = length B" using assms(1) mset_eq_length by blast
  have "drop n A = drop n B" using assms(2) l by (intro nth_equalityI) auto
  moreover have "mset A = mset (take n A) + mset (drop n A)" "mset B = mset (take n B) + mset (drop n B)"
    by (metis append_take_drop_id mset_append)+
  ultimately show ?thesis using assms(1) by simp
qed

lemma heap_live_mset:
  assumes "heap_live st n B" and "mset (take n A) = mset (take n B)" and "length A = length B"
  shows "heap_live st n A"
proof -
  have "distinct (take n A)" using assms by (metis heap_live_def mset_eq_imp_distinct_iff)
  moreover have "live st (A ! i)" if "i < n" for i
  proof -
    have "A ! i \<in> set (take n A)" using that assms by (auto simp: in_set_conv_nth heap_live_def intro!: exI [of _ i])
    then have "A ! i \<in> set (take n B)" using assms(2) mset_eq_setD by blast
    then show ?thesis using assms(1) by (auto simp: in_set_conv_nth heap_live_def)
  qed
  ultimately show ?thesis using assms by (simp add: heap_live_def)
qed

text \<open>percolate restores the heap order when it is open only below the hole.\<close>

lemma percolate_ok:
  assumes "hole_down st k n (array th) h" and "cur_size th = int n" and "distinct (take n (array th))"
  shows "\<exists>A. percolate st th h = Some (th\<lparr>array := A\<rparr>) \<and> length A = length (array th) \<and>
    mset (take n A) = mset (take n (array th)) \<and> heap_from st k n A \<and> heap_live st n A"
proof -
  let ?B = "array th" and ?t = "array th ! h"
  have h: "h < n" "n \<le> length ?B" and lv: "heap_live st n ?B"
    using assms by (auto simp: hole_down_def heap_live_def)
  have "hole_down st k n (?B[h := ?t]) h" using assms(1) by simp
  from percolate_loop_ok [OF this] obtain arr h' where
    1: "percolate_loop st ?B (int n) ?t h = Some (arr, h')" "h' < n" "length arr = length ?B"
    "mset (arr[h' := ?t]) = mset ?B" "heap_from st k n (arr[h' := ?t])" "\<forall>i. n \<le> i \<longrightarrow> arr ! i = ?B ! i"
    by auto
  let ?A = "arr[h' := ?t]"
  have m: "mset (take n ?A) = mset (take n ?B)"
    using 1(2,4,6) by (intro mset_take_eq) auto
  moreover have "percolate st th h = Some (th\<lparr>array := ?A\<rparr>)"
    using 1(1,2,3) h assms(2) by (simp add: percolate_def)
  moreover have "heap_live st n ?A" by (rule heap_live_mset [OF lv m]) (simp add: 1(3))
  ultimately show ?thesis using 1(3,5) by auto
qed

section \<open>The invariant\<close>

definition th_ok :: "timers \<Rightarrow> time_heap \<Rightarrow> bool" where
  "th_ok st th \<longleftrightarrow> int (length (array th)) = capacity_t th \<and> 0 \<le> cur_size th \<and> cur_size th \<le> capacity_t th \<and>
     heap_live st (nat (cur_size th)) (array th) \<and> heap_from st 0 (nat (cur_size th)) (array th)"

definition held :: "time_heap \<Rightarrow> addr list" where
  "held th = take (nat (cur_size th)) (array th)"

lemma th_ok_size:
  assumes "th_ok st th"
  obtains n where "cur_size th = int n" "n \<le> length (array th)" "heap_live st n (array th)"
    "heap_from st 0 n (array th)" "int (length (array th)) = capacity_t th"
proof -
  have "cur_size th = int (nat (cur_size th))" "nat (cur_size th) \<le> length (array th)"
    using assms by (auto simp: th_ok_def)
  then show thesis using that [of "nat (cur_size th)"] assms by (simp add: th_ok_def)
qed

lemma held_live: "th_ok st th \<Longrightarrow> a \<in> set (held th) \<Longrightarrow> live st a"
  by (auto simp: th_ok_def heap_live_def held_def in_set_conv_nth)

text \<open>The root does not expire after any other entry.\<close>

lemma heap_root_least:
  assumes "heap_from st 0 n A" and "i < n"
  shows "due_at st (A ! 0) \<le> due_at st (A ! i)"
  using assms(2)
proof (induction i rule: less_induct)
  case (less i)
  show ?case
  proof (cases "i = 0")
    case False
    then have "due_at st (A ! 0) \<le> due_at st (A ! ((i - 1) div 2))" using less by auto
    also have "\<dots> \<le> due_at st (A ! i)" using assms(1) less.prems False by (simp add: heap_from_def)
    finally show ?thesis .
  qed simp
qed

section \<open>Removing the root\<close>

lemma mset_root_last:
  assumes "n < length A" and "0 < n"
  shows "mset (take (Suc n) A) = add_mset (A ! 0) (mset (take n (A[0 := A ! n])))"
proof -
  let ?B = "take (Suc n) A"
  have l: "length ?B = Suc n" using assms by simp
  have "mset (?B[0 := ?B ! n, n := ?B ! 0]) = mset ?B" using assms by (intro mset_list_swap) auto
  moreover have "?B[0 := ?B ! n, n := ?B ! 0] = take n (A[0 := A ! n]) @ [A ! 0]"
  proof -
    have "0 < length A" using assms by linarith
    then show ?thesis using assms by (intro nth_equalityI) (auto simp: nth_append nth_list_update less_Suc_eq)
  qed
  ultimately show ?thesis by (metis mset_append mset.simps(2) add_mset_add_single mset_single_iff_right)
qed

lemma due_at_other: "b \<noteq> a \<Longrightarrow> due_at (st(a := v)) b = due_at st b"
  by (simp add: due_at_def)

lemma live_other: "b \<noteq> a \<Longrightarrow> live (st(a := v)) b = live st b"
  by (simp add: live_def)

lemma pop_timer_ok:
  assumes ok: "th_ok st th" and ne: "cur_size th \<noteq> 0"
  shows "\<exists>th'. pop_timer st th = Some (st(array th ! 0 := None), th') \<and> th_ok (st(array th ! 0 := None)) th' \<and>
    mset (held th) = add_mset (array th ! 0) (mset (held th')) \<and> array th ! 0 \<notin> set (held th') \<and>
    capacity_t th' = capacity_t th \<and> cur_size th' = cur_size th - 1"
proof -
  let ?A = "array th" and ?a = "array th ! 0"
  obtain m where m: "cur_size th = int m" "m \<le> length ?A" "heap_live st m ?A" "heap_from st 0 m ?A"
    "int (length ?A) = capacity_t th"
    by (rule th_ok_size [OF ok])
  then obtain n where n: "m = Suc n" using ne by (cases m) auto
  have la: "live st ?a" using m(3) n by (auto simp: heap_live_def)
  have A0: "0 < length ?A" using m(2) n by linarith
  let ?st = "st(?a := None)" and ?B = "?A[0 := ?A ! n]"
  let ?th = "th\<lparr>cur_size := int n, array := ?B\<rparr>"
  have fr: "delete_object st ?a = Some ?st" using la by (auto simp: delete_object_def live_def)
  have pop: "pop_timer st th = do { th \<leftarrow> percolate ?st ?th 0; Some (?st, th) }"
    using la fr m(1,2) n A0 arr_get_nat [of ?A 0] arr_set_nat [of ?A 0 "?A ! n"]
    by (simp add: pop_timer_def live_def)
  have hd: "held th = take (Suc n) ?A" unfolding held_def m(1) n nat_int by (rule refl)
  show ?thesis
  proof (cases "n = 0")
    case True
    have "percolate ?st ?th 0 = Some ?th"
      using True A0 arr_get_nat [of ?B 0] arr_set_nat [of ?B 0] by (simp add: percolate_def percolate_loop.simps)
    moreover have "mset (held th) = add_mset ?a (mset (held ?th))"
      unfolding hd using True A0 by (simp add: held_def take_Suc_conv_app_nth)
    moreover have "th_ok ?st ?th" using True m by (simp add: th_ok_def heap_live_def heap_from_def)
    ultimately show ?thesis using pop True m(1) n by (simp add: held_def)
  next
    case False
    have dm: "distinct (take (Suc n) ?A)" using m(3) n by (simp add: heap_live_def)
    have ms: "mset (take (Suc n) ?A) = add_mset ?a (mset (take n ?B))"
      using m(2) n False by (intro mset_root_last) auto
    have dB: "distinct (take n ?B)" and aB: "?a \<notin> set (take n ?B)"
    proof -
      have "distinct (?a # take n ?B)"
        using dm ms by (metis mset.simps(2) mset_eq_imp_distinct_iff)
      then show "distinct (take n ?B)" "?a \<notin> set (take n ?B)" by simp_all
    qed
    have Bn: "?B ! i \<noteq> ?a" if "i < n" for i
    proof -
      have "?B ! i \<in> set (take n ?B)" using that m(2) n by (auto simp: in_set_conv_nth intro!: exI [of _ i])
      then show ?thesis using aB by auto
    qed
    have Bi: "?B ! i = (if i = 0 then ?A ! n else ?A ! i)" for i using A0 by (simp add: nth_list_update)
    have "hole_down ?st 0 n ?B 0"
      unfolding hole_down_def
    proof (intro conjI allI impI)
      show "0 < n" "n \<le> length ?B" using False m(2) n by auto
      show "live ?st (?B ! i)" if "i < n" for i
        using Bn [OF that] m(3) n that by (auto simp: live_other heap_live_def Bi)
      show "due_at ?st (?B ! ((i - 1) div 2)) \<le> due_at ?st (?B ! i)"
        if i: "0 < i" "i < n" "0 \<le> (i - 1) div 2" "(i - 1) div 2 \<noteq> 0" for i
      proof -
        have "(i - 1) div 2 < n" using i by linarith
        then have "due_at ?st (?B ! ((i - 1) div 2)) = due_at st (?A ! ((i - 1) div 2))"
          "due_at ?st (?B ! i) = due_at st (?A ! i)"
          using Bn [of "(i - 1) div 2"] Bn [of i] i by (simp_all add: due_at_other Bi)
        then show ?thesis using m(4) n i by (simp add: heap_from_def)
      qed
    qed simp_all
    from percolate_ok [of ?st 0 n ?th 0] this dB obtain A' where
      A': "percolate ?st ?th 0 = Some (?th\<lparr>array := A'\<rparr>)" "length A' = length ?A"
      "mset (take n A') = mset (take n ?B)" "heap_from ?st 0 n A'" "heap_live ?st n A'"
      by auto
    let ?th' = "?th\<lparr>array := A'\<rparr>"
    have "th_ok ?st ?th'" using A' m n by (simp add: th_ok_def)
    moreover have "mset (held th) = add_mset ?a (mset (held ?th'))" unfolding hd using ms A'(3) by (simp add: held_def)
    moreover have "?a \<notin> set (held ?th')"
      using aB mset_eq_setD [OF A'(3)] by (simp add: held_def)
    ultimately show ?thesis using pop A'(1) m(1) n by simp
  qed
qed

section \<open>Adding a timer\<close>

lemma copy_entries_ok:
  assumes "i + k \<le> length src" and "i + k \<le> length dst"
  shows "\<exists>d. copy_entries src dst (int i) k = Some d \<and> length d = length dst \<and>
    (\<forall>j<length dst. d ! j = (if i \<le> j \<and> j < i + k then src ! j else dst ! j))"
  using assms
proof (induction k arbitrary: i dst)
  case (Suc k)
  have e: "int i + 1 = int (Suc i)" by simp
  obtain d where "copy_entries src (dst[i := src ! i]) (int (Suc i)) k = Some d" "length d = length dst"
    "\<forall>j<length dst. d ! j = (if Suc i \<le> j \<and> j < Suc i + k then src ! j else dst[i := src ! i] ! j)"
    using Suc.IH [of "Suc i" "dst[i := src ! i]"] Suc.prems by auto
  then show ?case using Suc.prems le_antisym [of i]
    by (auto simp: e nth_list_update not_less_eq_eq simp del: of_nat_Suc)
qed auto

lemma resize_heap_ok:
  assumes "th_ok st th" and "0 < capacity_t th" and "capacity_t th < 2 ^ 30"
  shows "\<exists>A. resize_heap th = Some (th\<lparr>array := A, capacity_t := capacity_t th * 2\<rparr>) \<and>
    th_ok st (th\<lparr>array := A, capacity_t := capacity_t th * 2\<rparr>) \<and> take (nat (cur_size th)) A = held th"
proof -
  obtain n where n: "cur_size th = int n" "n \<le> length (array th)" "heap_live st n (array th)"
    "heap_from st 0 n (array th)" "int (length (array th)) = capacity_t th"
    by (rule th_ok_size [OF assms(1)])
  let ?dst = "replicate (nat (capacity_t th * 2)) (NULL :: addr)"
  have ld: "length ?dst = 2 * length (array th)" using n(5) by simp
  obtain A where A: "copy_entries (array th) ?dst 0 n = Some A" "length A = length ?dst"
    "\<forall>j<length ?dst. A ! j = (if j < n then array th ! j else ?dst ! j)"
    using copy_entries_ok [of 0 n "array th" ?dst] n(2) ld by auto
  have t: "take n A = take n (array th)" using A(2,3) ld n(2) by (intro nth_equalityI) auto
  have nth: "A ! i = array th ! i" if "i < n" for i using A(3) that ld n(2) by simp
  have "heap_live st n A" using n(2,3) A(2) ld nth t by (simp add: heap_live_def)
  moreover have "heap_from st 0 n A" using n(4) nth by (simp add: heap_from_def)
  ultimately have "th_ok st (th\<lparr>array := A, capacity_t := capacity_t th * 2\<rparr>)"
    using assms n A(2) ld by (simp add: th_ok_def)
  moreover have "resize_heap th = Some (th\<lparr>array := A, capacity_t := capacity_t th * 2\<rparr>)"
    using assms(2,3) A(1) n(1) by (simp add: resize_heap_def new_array_def)
  ultimately show ?thesis using t n(1) by (auto simp: held_def)
qed

text \<open>While the hole moves up: only the order between the hole and its parent is open.\<close>

definition hole_up :: "timers \<Rightarrow> nat \<Rightarrow> addr list \<Rightarrow> nat \<Rightarrow> bool" where
  "hole_up st n A h \<longleftrightarrow> h < n \<and> n \<le> length A \<and> (\<forall>i<n. live st (A ! i)) \<and>
     (\<forall>i. 0 < i \<longrightarrow> i < n \<longrightarrow> i \<noteq> h \<longrightarrow> due_at st (A ! ((i - 1) div 2)) \<le> due_at st (A ! i)) \<and>
     (\<forall>i. 0 < h \<longrightarrow> 0 < i \<longrightarrow> i < n \<longrightarrow> (i - 1) div 2 = h \<longrightarrow>
        due_at st (A ! ((h - 1) div 2)) \<le> due_at st (A ! i))"

lemma hole_up_step:
  assumes u: "hole_up st n A h" and h: "0 < h" and p: "p = (h - 1) div 2"
    and lt: "due_at st (A ! h) < due_at st (A ! p)"
  shows "hole_up st n (A[h := A ! p, p := A ! h]) p"
proof -
  let ?A = "A[h := A ! p, p := A ! h]"
  have hp: "p < h" "h < n" "n \<le> length A" using u h p by (auto simp: hole_up_def)
  have nth: "?A ! i = (if i = p then A ! h else if i = h then A ! p else A ! i)" for i
    using hp by (simp add: nth_list_update)
  have up: "due_at st (A ! ((i - 1) div 2)) \<le> due_at st (A ! i)" if "0 < i" "i < n" "i \<noteq> h" for i
    using u that by (simp add: hole_up_def)
  have gp: "due_at st (A ! p) \<le> due_at st (A ! i)" if "0 < i" "i < n" "(i - 1) div 2 = h" for i
    using u that h p by (simp add: hole_up_def)
  have "due_at st (?A ! ((i - 1) div 2)) \<le> due_at st (?A ! i)" if i: "0 < i" "i < n" "i \<noteq> p" for i
  proof (cases "i = h")
    case True
    then show ?thesis using p lt hp by (simp add: nth)
  next
    case False
    have up_i: "due_at st (A ! ((i - 1) div 2)) \<le> due_at st (A ! i)" by (rule up [OF i(1,2) False])
    consider "(i - 1) div 2 = h" | "(i - 1) div 2 = p" | "(i - 1) div 2 \<noteq> h" "(i - 1) div 2 \<noteq> p" by blast
    then show ?thesis
    proof cases
      case 1 then show ?thesis using gp [OF i(1,2)] False i(3) hp by (simp add: nth)
    next
      case 2 then show ?thesis using up_i lt False i(3) by (simp add: nth)
    next
      case 3 then show ?thesis using up_i False i(3) by (simp add: nth)
    qed
  qed
  moreover have "due_at st (?A ! ((p - 1) div 2)) \<le> due_at st (?A ! i)"
    if i: "0 < p" "0 < i" "i < n" "(i - 1) div 2 = p" for i
  proof -
    have pp: "(p - 1) div 2 \<noteq> p" "(p - 1) div 2 \<noteq> h" "p < n" "p \<noteq> h" using i(1) hp by auto
    have gpar: "due_at st (A ! ((p - 1) div 2)) \<le> due_at st (A ! p)" by (rule up [OF i(1) pp(3,4)])
    have "i \<noteq> p" using i by auto
    show ?thesis
    proof (cases "i = h")
      case True then show ?thesis using gpar pp \<open>i \<noteq> p\<close> by (simp add: nth)
    next
      case False
      then have "due_at st (A ! p) \<le> due_at st (A ! i)" using up [OF i(2,3)] i(4) by simp
      then show ?thesis using gpar pp \<open>i \<noteq> p\<close> False by (simp add: nth)
    qed
  qed
  moreover have "\<forall>i<n. live st (?A ! i)" using u hp by (auto simp: nth hole_up_def)
  ultimately show ?thesis using hp by (auto simp: hole_up_def)
qed

lemma add_loop_ok:
  assumes "hole_up st n (arr[h := t]) h"
  shows "\<exists>arr' h'. add_loop st arr t h = Some (arr', h') \<and> h' < n \<and> length arr' = length arr \<and>
    mset (arr'[h' := t]) = mset (arr[h := t]) \<and> heap_from st 0 n (arr'[h' := t]) \<and> (\<forall>i. n \<le> i \<longrightarrow> arr' ! i = arr ! i)"
  using assms
proof (induction h arbitrary: arr rule: less_induct)
  case (less h)
  let ?A = "arr[h := t]" and ?p = "(h - 1) div 2"
  have h: "h < n" "n \<le> length arr" "h < length arr" and lv: "\<And>i. i < n \<Longrightarrow> live st (?A ! i)"
    using less.prems by (auto simp: hole_up_def)
  have up: "due_at st (?A ! ((i - 1) div 2)) \<le> due_at st (?A ! i)" if "0 < i" "i < n" "i \<noteq> h" for i
    using less.prems that by (simp add: hole_up_def)
  show ?case
  proof (cases "h = 0")
    case True
    then have "heap_from st 0 n ?A" using up by (simp add: heap_from_def)
    then show ?thesis using True h by (subst add_loop.simps) auto
  next
    case False
    have p: "?p < h" "?p \<noteq> h" "?p < length arr" using False h by auto
    have "live st (arr ! ?p)" "live st t" using lv [of ?p] lv [of h] p h by auto
    then have ex: "expire_at st (arr ! ?p) = Some (due_at st (arr ! ?p))" "expire_at st t = Some (due_at st t)"
      by (auto intro: live_expire)
    have h0: "0 < h" using False by simp
    have step: "add_loop st arr t h =
        (if due_at st (arr ! ?p) \<le> due_at st t then Some (arr, h) else add_loop st (arr[h := arr ! ?p]) t ?p)"
      using p(3) h(3)
      by (subst add_loop.simps)
        (simp only: Let_def arr_get_nat arr_set_nat if_P [OF h0] if_True ex Option.bind.simps)
    show ?thesis
    proof (cases "due_at st (arr ! ?p) \<le> due_at st t")
      case True
      have "heap_from st 0 n ?A"
        unfolding heap_from_def
      proof (intro allI impI)
        fix i assume i: "0 < i" "i < n"
        show "due_at st (?A ! ((i - 1) div 2)) \<le> due_at st (?A ! i)"
          using up [OF i] True p(2) h(3) by (cases "i = h") simp_all
      qed
      then show ?thesis using True step h by auto
    next
      case gt: False
      let ?arr1 = "arr[h := arr ! ?p]"
      have sw: "?arr1[?p := t] = ?A[h := ?A ! ?p, ?p := ?A ! h]"
        using p(2) h(3) by (simp add: list_update_swap)
      have "hole_up st n (?arr1[?p := t]) ?p"
        unfolding sw using gt False p(2) h(3) by (intro hole_up_step [OF less.prems]) auto
      from less.IH [OF p(1) this] obtain arr' h' where 1: "add_loop st ?arr1 t ?p = Some (arr', h')" "h' < n"
        "length arr' = length ?arr1" "mset (arr'[h' := t]) = mset (?arr1[?p := t])"
        "heap_from st 0 n (arr'[h' := t])" "\<forall>i. n \<le> i \<longrightarrow> arr' ! i = ?arr1 ! i"
        by auto
      have "mset (?arr1[?p := t]) = mset ?A" unfolding sw using p h by (intro mset_list_swap) auto
      then show ?thesis using step gt 1 h by (intro exI [of _ arr'] exI [of _ h']) auto
    qed
  qed
qed

lemma add_timer_ok:
  assumes ok: "th_ok st th" and t: "live st t" "t \<notin> set (held th)"
    and cap: "0 < capacity_t th" "cur_size th < capacity_t th \<or> capacity_t th < 2 ^ 30"
  shows "\<exists>th'. add_timer st th t = Some th' \<and> th_ok st th' \<and> mset (held th') = add_mset t (mset (held th)) \<and>
    cur_size th' = cur_size th + 1 \<and>
    capacity_t th' = (if capacity_t th \<le> cur_size th then capacity_t th * 2 else capacity_t th)"
proof -
  have "\<exists>th1. (if capacity_t th \<le> cur_size th then resize_heap th else Some th) = Some th1 \<and> th_ok st th1 \<and>
      held th1 = held th \<and> cur_size th1 = cur_size th \<and> cur_size th1 < capacity_t th1 \<and>
      capacity_t th1 = (if capacity_t th \<le> cur_size th then capacity_t th * 2 else capacity_t th)"
  proof (cases "capacity_t th \<le> cur_size th")
    case True
    obtain A where "resize_heap th = Some (th\<lparr>array := A, capacity_t := capacity_t th * 2\<rparr>)"
      "th_ok st (th\<lparr>array := A, capacity_t := capacity_t th * 2\<rparr>)" "take (nat (cur_size th)) A = held th"
      using resize_heap_ok [OF ok cap(1)] cap(2) True by (meson not_less)
    then show ?thesis using True ok cap by (auto simp: held_def th_ok_def)
  next
    case False
    then show ?thesis using ok by auto
  qed
  then obtain th1 where th1: "(if capacity_t th \<le> cur_size th then resize_heap th else Some th) = Some th1"
    "th_ok st th1" "held th1 = held th" "cur_size th1 = cur_size th" "cur_size th1 < capacity_t th1"
    "capacity_t th1 = (if capacity_t th \<le> cur_size th then capacity_t th * 2 else capacity_t th)"
    by blast
  obtain n where n: "cur_size th1 = int n" "n \<le> length (array th1)" "heap_live st n (array th1)"
    "heap_from st 0 n (array th1)" "int (length (array th1)) = capacity_t th1"
    by (rule th_ok_size [OF th1(2)])
  let ?arr = "array th1"
  have nl: "n < length ?arr" using n th1(5) by simp
  have hl: "held th1 = take n ?arr" by (simp add: held_def n(1))
  have "hole_up st (Suc n) (?arr[n := t]) n"
    using n(3,4) nl t(1) by (auto simp: hole_up_def heap_live_def heap_from_def less_Suc_eq nth_list_update)
  from add_loop_ok [OF this] obtain arr' h' where 1: "add_loop st ?arr t n = Some (arr', h')" "h' < Suc n"
    "length arr' = length ?arr" "mset (arr'[h' := t]) = mset (?arr[n := t])" "heap_from st 0 (Suc n) (arr'[h' := t])"
    "\<forall>i. Suc n \<le> i \<longrightarrow> arr' ! i = ?arr ! i"
    by blast
  let ?A = "arr'[h' := t]" and ?th' = "th1\<lparr>cur_size := int n + 1, array := arr'[h' := t]\<rparr>"
  have tk: "take (Suc n) (?arr[n := t]) = take n ?arr @ [t]" using nl by (simp add: take_Suc_conv_app_nth)
  have m: "mset (take (Suc n) ?A) = mset (take (Suc n) (?arr[n := t]))"
    using 1(2,4,6) by (intro mset_take_eq) auto
  have "heap_live st (Suc n) (?arr[n := t])"
    using n(3) nl t th1(3) hl unfolding heap_live_def tk by (auto simp: less_Suc_eq nth_list_update)
  then have "heap_live st (Suc n) ?A" using m by (rule heap_live_mset) (simp add: 1(3))
  moreover have sn: "nat (int n + 1) = Suc n" by simp
  ultimately have "th_ok st ?th'" using 1(3,5) n(5) nl by (simp add: th_ok_def)
  moreover have "mset (held ?th') = add_mset t (mset (held th))"
    using m unfolding held_def by (simp add: sn tk) (simp add: th1(3) flip: hl held_def)
  moreover have "add_timer st th t = Some ?th'"
  proof -
    have t0: "t \<noteq> NULL" and h': "h' < length arr'" using t(1) 1(2,3) nl by (auto simp: live_def)
    show ?thesis
    proof (cases "n = 0")
      case True
      then have "arr' = ?arr" "h' = 0" using 1(1) by (simp_all add: add_loop.simps)
      then show ?thesis using t0 h' n(1) True th1(1) unfolding add_timer_def by (simp add: Let_def arr_set_def)
    next
      case False
      then show ?thesis using 1(1) t0 h' n(1) th1(1) unfolding add_timer_def by (simp add: Let_def)
    qed
  qed
  ultimately show ?thesis using th1(4,6) n(1) by simp
qed

section \<open>Building a heap from an array\<close>

lemma heapify_loop_ok:
  assumes "heap_from st (Suc i) n (array th)" and "i < n" and "heap_live st n (array th)" and "cur_size th = int n"
  shows "\<exists>A. heapify_loop st th i = Some (th\<lparr>array := A\<rparr>) \<and> length A = length (array th) \<and>
    mset (take n A) = mset (take n (array th)) \<and> heap_from st 0 n A \<and> heap_live st n A"
  using assms
proof (induction i arbitrary: th)
  case 0
  have "hole_down st 0 n (array th) 0"
    using 0 by (auto simp: hole_down_def heap_live_def heap_from_def)
  then show ?case using percolate_ok [of st 0 n th 0] 0 by (simp add: heap_live_def)
next
  case (Suc i)
  have "hole_down st (Suc i) n (array th) (Suc i)"
    using Suc.prems by (auto simp: hole_down_def heap_live_def heap_from_def)
  then obtain A where A: "percolate st th (Suc i) = Some (th\<lparr>array := A\<rparr>)" "length A = length (array th)"
    "mset (take n A) = mset (take n (array th))" "heap_from st (Suc i) n A" "heap_live st n A"
    using percolate_ok [of st "Suc i" n th "Suc i"] Suc.prems by (auto simp: heap_live_def)
  obtain B where "heapify_loop st (th\<lparr>array := A\<rparr>) i = Some (th\<lparr>array := B\<rparr>)" "length B = length A"
    "mset (take n B) = mset (take n A)" "heap_from st 0 n B" "heap_live st n B"
    using Suc.IH [of "th\<lparr>array := A\<rparr>"] A Suc.prems by auto
  then show ?case using A by auto
qed

section \<open>The timer heap is a queue of timers\<close>

type_synonym heap_state = "timers \<times> time_heap"

definition th_inv :: "heap_state \<Rightarrow> bool" where
  "th_inv s = th_ok (fst s) (snd s)"

definition pending :: "heap_state \<Rightarrow> (addr \<times> heap_timer) multiset" where
  "pending s = image_mset (\<lambda>a. (a, the (fst s a))) (mset (held (snd s)))"

definition due :: "addr \<times> heap_timer \<Rightarrow> int" where
  "due x = expire (snd x)"

definition peek_timer :: "heap_state \<Rightarrow> (addr \<times> heap_timer) option" where
  "peek_timer s = (if cur_size (snd s) = 0 then None
     else Some (array (snd s) ! 0, the (fst s (array (snd s) ! 0))))"

definition pop_state :: "heap_state \<Rightarrow> heap_state option" where
  "pop_state s = pop_timer (fst s) (snd s)"

lemma peek_None:
  assumes "th_inv s"
  shows "peek_timer s = None \<longleftrightarrow> pending s = {#}"
proof -
  have ok: "th_ok (fst s) (snd s)" using assms by (simp add: th_inv_def)
  obtain n where "cur_size (snd s) = int n" "n \<le> length (array (snd s))" by (rule th_ok_size [OF ok])
  then show ?thesis by (auto simp: peek_timer_def pending_def held_def)
qed

lemma peek_min:
  assumes "th_inv s" and "peek_timer s = Some x"
  shows "x \<in># pending s \<and> (\<forall>y\<in>#pending s. due x \<le> due y)"
proof -
  have ok: "th_ok (fst s) (snd s)" using assms by (simp add: th_inv_def)
  obtain n where n: "cur_size (snd s) = int n" "n \<le> length (array (snd s))" "heap_from (fst s) 0 n (array (snd s))"
    by (rule th_ok_size [OF ok])
  have x: "n \<noteq> 0" "x = (array (snd s) ! 0, the (fst s (array (snd s) ! 0)))"
    using assms(2) n(1) by (auto simp: peek_timer_def split: if_splits)
  have "array (snd s) ! 0 \<in> set (held (snd s))"
    using x(1) n by (auto simp: held_def in_set_conv_nth intro!: exI [of _ 0])
  moreover have "due x \<le> due y" if y: "y \<in># pending s" for y
  proof -
    obtain a where a: "a \<in> set (held (snd s))" "y = (a, the (fst s a))" using y by (auto simp: pending_def)
    then obtain i where "i < n" "y = (array (snd s) ! i, the (fst s (array (snd s) ! i)))"
      using n(1,2) by (auto simp: held_def in_set_conv_nth)
    then show ?thesis using heap_root_least [OF n(3), of i] x(2) by (simp add: due_def due_at_def)
  qed
  ultimately show ?thesis using x(2) by (auto simp: pending_def)
qed

lemma pop_peek:
  assumes "th_inv s" and "peek_timer s = Some x"
  shows "pop_state s = Some ((fst s)(fst x := None), snd (the (pop_state s))) \<and>
    capacity_t (snd (the (pop_state s))) = capacity_t (snd s) \<and>
    th_inv (the (pop_state s)) \<and> pending s = add_mset x (pending (the (pop_state s)))"
proof -
  have ok: "th_ok (fst s) (snd s)" using assms by (simp add: th_inv_def)
  have x: "cur_size (snd s) \<noteq> 0" "x = (array (snd s) ! 0, the (fst s (array (snd s) ! 0)))"
    using assms(2) by (auto simp: peek_timer_def split: if_splits)
  let ?a = "array (snd s) ! 0"
  obtain th' where th': "pop_timer (fst s) (snd s) = Some ((fst s)(?a := None), th')" "th_ok ((fst s)(?a := None)) th'"
    "mset (held (snd s)) = add_mset ?a (mset (held th'))" "?a \<notin> set (held th')" "capacity_t th' = capacity_t (snd s)"
    using pop_timer_ok [OF ok x(1)] by blast
  have "image_mset (\<lambda>a. (a, the (((fst s)(?a := None)) a))) (mset (held th')) =
      image_mset (\<lambda>a. (a, the (fst s a))) (mset (held th'))"
    using th'(4) by (intro image_mset_cong) auto
  then show ?thesis using th' x(2) by (simp add: pop_state_def th_inv_def pending_def)
qed

interpretation timer_queue: prio_queue th_inv pending due peek_timer pop_state
proof
  show "peek_timer s = None \<longleftrightarrow> pending s = {#}" if "th_inv s" for s using that by (rule peek_None)
  show "x \<in># pending s \<and> (\<forall>y\<in>#pending s. due x \<le> due y)" if "th_inv s" "peek_timer s = Some x" for s x
    using that by (rule peek_min)
  show "\<exists>s'. pop_state s = Some s' \<and> th_inv s' \<and> pending s = add_mset x (pending s')"
    if "th_inv s" "peek_timer s = Some x" for s x
    using pop_peek [OF that] by (intro exI [of _ "the (pop_state s)"]) (metis option.sel)
qed

section \<open>tick takes off what is due\<close>

text \<open>The calls tick makes for the timers it takes off.\<close>

definition calls :: "(addr \<times> heap_timer) list \<Rightarrow> (addr \<times> cli_data) list" where
  "calls xs = map (\<lambda>x. (callback_func (snd x), user_data (snd x))) (filter (\<lambda>x. callback_func (snd x) \<noteq> NULL) xs)"

lemma calls_simps [simp]: "calls [] = []"
  "calls (x # xs) = (if callback_func (snd x) \<noteq> NULL then [(callback_func (snd x), user_data (snd x))] else []) @ calls xs"
  by (simp_all add: calls_def)

lemma tick_loop_drains:
  assumes "drains peek_timer pop_state due now s xs s'" and "th_inv s" and "0 < capacity_t (snd s)"
  shows "tick_loop (fst s) (snd s) now (array (snd s) ! 0) log = Some (fst s', snd s', log @ calls xs) \<and>
    fst s' = (fst s) |` (- fst ` set xs)"
  using assms
proof (induction arbitrary: log rule: drains.induct)
  case (drains_empty s)
  then have "cur_size (snd s) = 0" by (auto simp: peek_timer_def split: if_splits)
  then show ?case by (simp add: tick_loop.simps restrict_map_def)
next
  case (drains_later s x)
  have ok: "th_ok (fst s) (snd s)" using drains_later.prems by (simp add: th_inv_def)
  have x: "cur_size (snd s) \<noteq> 0" "x = (array (snd s) ! 0, the (fst s (array (snd s) ! 0)))"
    using drains_later.hyps(1) by (auto simp: peek_timer_def split: if_splits)
  have "fst x \<in># mset (held (snd s))"
    using peek_min [OF drains_later.prems(1) drains_later.hyps(1)] by (auto simp: pending_def)
  then have "live (fst s) (array (snd s) ! 0)" using held_live [OF ok] x(2) by simp
  then have "expire_at (fst s) (array (snd s) ! 0) = Some (due x)" "array (snd s) ! 0 \<noteq> NULL"
    using x(2) live_expire by (auto simp: due_def due_at_def live_def)
  then show ?case using x(1) drains_later.hyps(2) by (subst tick_loop.simps) (simp add: restrict_map_def)
next
  case (drains_due s x s1 xs s2)
  have ok: "th_ok (fst s) (snd s)" using drains_due.prems by (simp add: th_inv_def)
  let ?a = "array (snd s) ! 0"
  have x: "cur_size (snd s) \<noteq> 0" "x = (?a, the (fst s ?a))"
    using drains_due.hyps(1) by (auto simp: peek_timer_def split: if_splits)
  have "fst x \<in># mset (held (snd s))"
    using peek_min [OF drains_due.prems(1) drains_due.hyps(1)] by (auto simp: pending_def)
  then have lv: "live (fst s) ?a" using held_live [OF ok] x(2) by simp
  then have ex: "expire_at (fst s) ?a = Some (due x)" "?a \<noteq> NULL" "timer_at (fst s) ?a = Some (snd x)"
    using x(2) live_expire by (auto simp: due_def due_at_def live_def timer_at_def)
  have s1: "s1 = ((fst s)(fst x := None), snd s1)" "capacity_t (snd s1) = capacity_t (snd s)" "th_inv s1"
    using pop_peek [OF drains_due.prems(1) drains_due.hyps(1)] drains_due.hyps(3) by (auto simp: prod_eq_iff)
  have len: "0 < length (array (snd s))" "0 < length (array (snd s1))"
    using ok s1(2,3) drains_due.prems(2) by (auto simp: th_ok_def th_inv_def)
  have g: "arr_get (array (snd s)) 0 = Some ?a" "arr_get (array (snd s1)) 0 = Some (array (snd s1) ! 0)"
    using arr_get_nat [of _ 0] len by simp_all
  have pop: "pop_timer (fst s) (snd s) = Some (fst s1, snd s1)"
    using drains_due.hyps(3) by (simp add: pop_state_def)
  let ?log = "if callback_func (snd x) \<noteq> NULL then log @ [(callback_func (snd x), user_data (snd x))] else log"
  have "tick_loop (fst s) (snd s) now ?a log = tick_loop (fst s1) (snd s1) now (array (snd s1) ! 0) ?log"
    using x(1) ex drains_due.hyps(2) g pop
    by (subst tick_loop.simps) (simp add: Let_def case_prod_beta)
  moreover have "0 < capacity_t (snd s1)" using s1(2) drains_due.prems(2) by simp
  note IH = drains_due.IH [OF s1(3) this, of ?log]
  have f1: "fst s1 = (fst s)(fst x := None)" using s1(1) by (metis fst_conv)
  have "fst s1 |` (- fst ` set xs) = (fst s) |` (- fst ` set (x # xs))"
    unfolding f1 by (rule ext) (auto simp: restrict_map_def)
  ultimately show ?case using IH by (simp only: calls_simps) simp
qed

lemma drains_capacity:
  assumes "drains peek_timer pop_state due now s xs s'" and "th_inv s"
  shows "capacity_t (snd s') = capacity_t (snd s)"
  using assms
proof (induction rule: drains.induct)
  case (drains_due s x s1 xs s2)
  then have "th_inv s1" "capacity_t (snd s1) = capacity_t (snd s)"
    using pop_peek [OF drains_due.prems drains_due.hyps(1)] by auto
  then show ?case using drains_due.IH by simp
qed simp_all

lemma tick_ok:
  assumes "th_ok st th" and "0 < capacity_t th"
  shows "\<exists>xs st' th'. tick st th now = Some (st', th', calls xs) \<and> th_ok st' th' \<and>
    pending (st, th) = mset xs + pending (st', th') \<and> sorted (map due xs) \<and>
    (\<forall>x\<in>set xs. due x \<le> now) \<and> (\<forall>y\<in>#pending (st', th'). now < due y) \<and>
    st' = st |` (- fst ` set xs) \<and> capacity_t th' = capacity_t th"
proof -
  have inv: "th_inv (st, th)" using assms(1) by (simp add: th_inv_def)
  obtain xs st' th' where d: "drains peek_timer pop_state due now (st, th) xs (st', th')"
    using timer_queue.drains_total [OF inv] by (metis surj_pair)
  have s: "th_ok st' th'" "pending (st, th) = mset xs + pending (st', th')" "sorted (map due xs)"
    "\<forall>x\<in>set xs. due x \<le> now" "\<forall>y\<in>#pending (st', th'). now < due y"
    using timer_queue.drains_sound [OF d inv] by (simp_all add: th_inv_def)
  have l: "tick_loop st th now (array th ! 0) [] = Some (st', th', calls xs)" "st' = st |` (- fst ` set xs)"
    using tick_loop_drains [OF d inv, of "[]"] assms(2) by simp_all
  have "int (length (array th)) = capacity_t th" using assms(1) by (simp add: th_ok_def)
  then have "0 < length (array th)" using assms(2) by linarith
  then have "tick st th now = Some (st', th', calls xs)"
    using l(1) arr_get_nat [of "array th" 0] by (simp add: tick_def)
  then show ?thesis using s l(2) drains_capacity [OF d inv] by auto
qed

section \<open>Properties\<close>

text \<open>Adding a live timer that the heap does not hold keeps the invariant of the heap, adds exactly
  that timer, and doubles the capacity when the heap was full.\<close>

theorem add_timer_inserts:
  assumes "th_ok st th" and "t \<noteq> NULL" and "st t \<noteq> None" and "t \<notin> set (held th)"
    and "0 < capacity_t th" and "capacity_t th < 2 ^ 30"
  shows "\<exists>th'. add_timer st th t = Some th' \<and> th_ok st th' \<and> mset (held th') = add_mset t (mset (held th)) \<and>
    cur_size th' = cur_size th + 1 \<and>
    capacity_t th' = (if capacity_t th \<le> cur_size th then capacity_t th * 2 else capacity_t th)"
  using add_timer_ok [OF assms(1) _ assms(4,5)] assms(2,3,6) by (simp add: live_def)

text \<open>Popping a heap that is not empty frees the timer that get_top shows, which expires no later
  than any other, keeps every other timer and the invariant.\<close>

theorem pop_timer_removes_least:
  assumes "th_ok st th" and "cur_size th \<noteq> 0"
  shows "\<exists>a th'. get_top th = Some a \<and> pop_timer st th = Some (st(a := None), th') \<and>
    th_ok (st(a := None)) th' \<and> mset (held th) = add_mset a (mset (held th')) \<and>
    (\<forall>b\<in>set (held th). due_at st a \<le> due_at st b)"
proof -
  obtain th' where 1: "pop_timer st th = Some (st(array th ! 0 := None), th')" "th_ok (st(array th ! 0 := None)) th'"
    "mset (held th) = add_mset (array th ! 0) (mset (held th'))"
    using pop_timer_ok [OF assms] by blast
  obtain n where n: "cur_size th = int n" "n \<le> length (array th)" "heap_from st 0 n (array th)"
    by (rule th_ok_size [OF assms(1)])
  have "0 < length (array th)" using n assms(2) by linarith
  then have "get_top th = Some (array th ! 0)"
    using assms(2) arr_get_nat [of "array th" 0] by (simp add: get_top_def)
  moreover have "due_at st (array th ! 0) \<le> due_at st b" if "b \<in> set (held th)" for b
    using that n heap_root_least [OF n(3)] by (auto simp: held_def in_set_conv_nth)
  ultimately show ?thesis using 1 by blast
qed

text \<open>C5: tick takes off exactly the timers that are due, calls the callbacks of those that have one
  in the order they expire, with their data, frees them, and leaves a heap of the timers that are not
  due; it always returns.\<close>

theorem tick_runs_due_timers:
  assumes "th_ok st th" and "0 < capacity_t th"
  shows "\<exists>xs st' th'. tick st th now = Some (st', th', calls xs) \<and> th_ok st' th' \<and>
    pending (st, th) = mset xs + pending (st', th') \<and> sorted (map due xs) \<and>
    (\<forall>x\<in>set xs. due x \<le> now) \<and> (\<forall>y\<in>#pending (st', th'). now < due y) \<and>
    st' = st |` (- fst ` set xs)"
  using tick_ok [OF assms] by blast

lemma th_ok_cong:
  assumes "th_ok st th" and "\<And>a. live st a \<Longrightarrow> live st' a \<and> due_at st' a = due_at st a"
  shows "th_ok st' th"
proof -
  obtain n where n: "cur_size th = int n" "n \<le> length (array th)" "heap_live st n (array th)"
    "heap_from st 0 n (array th)" "int (length (array th)) = capacity_t th"
    by (rule th_ok_size [OF assms(1)])
  have lv: "live st' (array th ! i)" "due_at st' (array th ! i) = due_at st (array th ! i)" if "i < n" for i
    using assms(2) n(3) that by (auto simp: heap_live_def)
  have "heap_live st' n (array th)" using n(3) lv(1) by (simp add: heap_live_def)
  moreover have "heap_from st' 0 n (array th)"
    unfolding heap_from_def
  proof (intro allI impI)
    fix i assume i: "0 < i" "i < n"
    then have "(i - 1) div 2 < n" by linarith
    then show "due_at st' (array th ! ((i - 1) div 2)) \<le> due_at st' (array th ! i)"
      using n(4) i lv(2) by (simp add: heap_from_def)
  qed
  ultimately show ?thesis using n(1,2,5) by (simp add: th_ok_def)
qed

text \<open>What was taken off is what is due.\<close>

lemma taken_due:
  assumes "pending (st, th) = mset xs + pending s" and "\<forall>x\<in>set xs. due x \<le> now" and "\<forall>y\<in>#pending s. now < due y"
  shows "set xs = {(a, the (st a)) | a. a \<in> set (held th) \<and> due_at st a \<le> now}"
proof (rule set_eqI)
  fix x
  have "x \<in># pending (st, th) \<longleftrightarrow> (\<exists>a\<in>set (held th). x = (a, the (st a)))"
    by (auto simp: pending_def)
  moreover have "x \<in># pending (st, th) \<longleftrightarrow> x \<in> set xs \<or> x \<in># pending s" unfolding assms(1) by simp
  then have "x \<in> set xs \<longleftrightarrow> x \<in># pending (st, th) \<and> due x \<le> now"
    using assms(2,3) by (meson not_less)
  ultimately show "x \<in> set xs \<longleftrightarrow> x \<in> {(a, the (st a)) | a. a \<in> set (held th) \<and> due_at st a \<le> now}"
    by (auto simp: due_def due_at_def)
qed

text \<open>A deleted timer stays in the heap until it is due, but its callback is never called: a tick
  after the deletion calls exactly the callbacks of the other timers that are due, and frees the deleted
  one when it is due.\<close>

theorem delete_timer_silences:
  assumes "th_ok st th" and "0 < capacity_t th" and "t \<in> set (held th)"
  shows "\<exists>st' st2 th2 log. delete_timer st t = Some st' \<and> tick st' th now = Some (st2, th2, log) \<and>
    set log = {(callback_func x, user_data x) | a x. a \<in> set (held th) \<and> a \<noteq> t \<and> st a = Some x \<and>
      expire x \<le> now \<and> callback_func x \<noteq> NULL} \<and>
    (due_at st t \<le> now \<longrightarrow> st2 t = None)"
proof -
  have lt: "live st t" by (rule held_live [OF assms(1,3)])
  then obtain x0 where x0: "st t = Some x0" "t \<noteq> NULL" by (auto simp: live_def)
  let ?st = "st(t \<mapsto> x0\<lparr>callback_func := NULL\<rparr>)"
  have del: "delete_timer st t = Some ?st" using x0 by (simp add: delete_timer_def timer_at_def)
  have "th_ok ?st th" by (rule th_ok_cong [OF assms(1)]) (auto simp: live_def due_at_def x0)
  from tick_runs_due_timers [OF this assms(2), of now] obtain xs st2 th2 where
    1: "tick ?st th now = Some (st2, th2, calls xs)"
    "pending (?st, th) = mset xs + pending (st2, th2)" "\<forall>x\<in>set xs. due x \<le> now"
    "\<forall>y\<in>#pending (st2, th2). now < due y" "st2 = ?st |` (- fst ` set xs)"
    by blast
  have xs: "set xs = {(a, the (?st a)) | a. a \<in> set (held th) \<and> due_at ?st a \<le> now}"
    using 1(2,3,4) by (rule taken_due)
  have lv: "\<exists>x. st a = Some x" if "a \<in> set (held th)" for a
    using held_live [OF assms(1) that] by (auto simp: live_def)
  have "set (calls xs) = {(callback_func x, user_data x) | a x. a \<in> set (held th) \<and> a \<noteq> t \<and> st a = Some x \<and>
      expire x \<le> now \<and> callback_func x \<noteq> NULL}" (is "?L = ?R")
  proof
    show "?L \<subseteq> ?R"
    proof
      fix c assume "c \<in> ?L"
      then obtain a where a: "a \<in> set (held th)" "due_at ?st a \<le> now" "callback_func (the (?st a)) \<noteq> NULL"
        "c = (callback_func (the (?st a)), user_data (the (?st a)))"
        by (auto simp: calls_def xs)
      then have "a \<noteq> t" by auto
      moreover obtain x where "st a = Some x" using lv [OF a(1)] by blast
      ultimately have "st a = Some x" "expire x \<le> now" "callback_func x \<noteq> NULL"
        "c = (callback_func x, user_data x)" "a \<noteq> t"
        using a by (simp_all add: due_at_def)
      then show "c \<in> ?R" using a(1) by blast
    qed
    show "?R \<subseteq> ?L"
    proof
      fix c assume "c \<in> ?R"
      then obtain a x where a: "a \<in> set (held th)" "a \<noteq> t" "st a = Some x" "expire x \<le> now" "callback_func x \<noteq> NULL"
        "c = (callback_func x, user_data x)" by blast
      then have "(a, x) \<in> set xs" by (auto simp: xs due_at_def)
      then show "c \<in> ?L" using a by (auto simp: calls_def intro!: image_eqI [of _ _ "(a, x)"])
    qed
  qed
  moreover have "st2 t = None" if "due_at st t \<le> now"
  proof -
    have "due_at ?st t \<le> now" using that x0(1) by (simp add: due_at_def)
    then have "t \<in> fst ` set xs" using assms(3) by (force simp: xs)
    then show ?thesis using 1(5) by (simp add: restrict_map_def)
  qed
  ultimately have "delete_timer st t = Some ?st \<and> tick ?st th now = Some (st2, th2, calls xs) \<and>
      set (calls xs) = {(callback_func x, user_data x) | a x. a \<in> set (held th) \<and> a \<noteq> t \<and> st a = Some x \<and>
        expire x \<le> now \<and> callback_func x \<noteq> NULL} \<and> (due_at st t \<le> now \<longrightarrow> st2 t = None)"
    using del 1(1) by simp
  then show ?thesis by (intro exI)
qed

text \<open>The constructor from an array of distinct live timers returns a well-formed heap of exactly
  those timers, for every number of them that the capacity admits.\<close>

theorem time_heap_init_builds:
  assumes "n \<le> length ini" and "1 \<le> n" and "int n \<le> capacity" and "\<forall>a\<in>set (take n ini). a \<noteq> NULL \<and> st a \<noteq> None"
    and "distinct (take n ini)"
  shows "\<exists>th. time_heap_init st ini (int n) capacity = Some th \<and> th_ok st th \<and>
    mset (held th) = mset (take n ini) \<and> capacity_t th = capacity"
proof -
  let ?dst = "replicate (nat capacity) (NULL :: addr)"
  have ld: "n \<le> length ?dst" "int (length ?dst) = capacity" using assms(3) by auto
  obtain A where A: "copy_entries ini ?dst 0 n = Some A" "length A = length ?dst"
    "\<forall>j<length ?dst. A ! j = (if j < n then ini ! j else ?dst ! j)"
    using copy_entries_ok [of 0 n ini ?dst] assms(1) ld by auto
  have t: "take n A = take n ini" using A(2,3) ld assms(1) by (intro nth_equalityI) auto
  have lv: "heap_live st n A"
  proof -
    have "live st (A ! i)" if "i < n" for i
    proof -
      have "A ! i \<in> set (take n A)" using that ld A(2) by (auto simp: in_set_conv_nth intro!: exI [of _ i])
      then show ?thesis using assms(4) t by (simp add: live_def)
    qed
    then show ?thesis using ld A(2) t assms(5) by (simp add: heap_live_def)
  qed
  let ?th = "\<lparr>array = A, capacity_t = capacity, cur_size = int n\<rparr>" and ?i = "(n - 1) div 2"
  have "heap_from st (Suc ?i) n A" by (auto simp: heap_from_def)
  then obtain B where B: "heapify_loop st ?th ?i = Some (?th\<lparr>array := B\<rparr>)" "length B = length A"
    "mset (take n B) = mset (take n A)" "heap_from st 0 n B" "heap_live st n B"
  proof -
    have "?i < n" using assms(2) by linarith
    with heapify_loop_ok [of st ?i n ?th] \<open>heap_from st (Suc ?i) n A\<close> lv that show ?thesis by auto
  qed
  have "nat ((int n - 1) div 2) = ?i" using assms(2) by (simp add: nat_div_distrib flip: of_nat_diff)
  then have "time_heap_init st ini (int n) capacity = Some (?th\<lparr>array := B\<rparr>)"
    using A(1) B(1) assms(2,3) by (simp add: time_heap_init_def new_array_def)
  moreover have "th_ok st (?th\<lparr>array := B\<rparr>)" using B A(2) ld assms(3) by (simp add: th_ok_def)
  ultimately show ?thesis using B(3) t by (auto simp: held_def)
qed

text \<open>A heap created with capacity 0 never grows: every add to it stores outside its array.\<close>

theorem add_timer_zero_capacity:
  "\<exists>th. time_heap_new 0 = Some th \<and> add_timer st th t = None"
  by (simp add: time_heap_new_def new_array_def add_timer_def resize_heap_def arr_set_def Let_def)

text \<open>Three timers and the heap built of them.\<close>

definition timer_ex :: "int \<Rightarrow> addr \<Rightarrow> heap_timer" where
  "timer_ex e cb = \<lparr>expire = e, callback_func = cb, user_data = \<lparr>sockfd = e, address = 0,
     cd_buffer = \<lparr>xb_buf = NULL, xb_size = 0, xb_len = 0\<rparr>\<rparr>\<rparr>"

definition timers_ex :: timers where
  "timers_ex = [1 \<mapsto> timer_ex 30 7, 2 \<mapsto> timer_ex 10 8, 3 \<mapsto> timer_ex 20 9, 4 \<mapsto> timer_ex 5 7]"

definition th_ex :: time_heap where
  "th_ex = \<lparr>array = [2, 1, 3], capacity_t = 3, cur_size = 3\<rparr>"

lemma th_ex_ok: "th_ok timers_ex th_ex"
proof -
  have "heap_from timers_ex 0 3 [2, 1, 3]"
    unfolding heap_from_def
  proof (intro allI impI)
    fix i :: nat assume "0 < i" "i < 3"
    then have "i = 1 \<or> i = 2" by linarith
    then show "due_at timers_ex ([2, 1, 3] ! ((i - 1) div 2)) \<le> due_at timers_ex ([2, 1, 3] ! i)"
      by (auto simp: due_at_def timers_ex_def timer_ex_def)
  qed
  moreover have "heap_live timers_ex 3 [2, 1, 3]"
  proof -
    have "live timers_ex ([2, 1, 3] ! i)" if "i < 3" for i
    proof -
      have "i = 0 \<or> i = 1 \<or> i = 2" using that by linarith
      then show ?thesis by (auto simp: live_def timers_ex_def)
    qed
    then show ?thesis by (simp add: heap_live_def)
  qed
  ultimately show ?thesis by (simp add: th_ok_def th_ex_def)
qed

lemma held_ex: "held th_ex = [2, 1, 3]"
  by (simp add: held_def th_ex_def)

lemma add_timer_inserts_witness:
  "\<exists>th'. add_timer timers_ex th_ex 4 = Some th' \<and> mset (held th') = {#1, 2, 3, 4#} \<and> capacity_t th' = 6"
proof -
  have "(4 :: addr) \<noteq> NULL" "timers_ex 4 \<noteq> None" "4 \<notin> set (held th_ex)" "0 < capacity_t th_ex" "capacity_t th_ex < 2 ^ 30"
    by (simp_all add: timers_ex_def held_ex) (simp_all add: th_ex_def)
  from add_timer_inserts [OF th_ex_ok this] obtain th' where
    "add_timer timers_ex th_ex 4 = Some th'" "mset (held th') = add_mset 4 (mset (held th_ex))"
    "capacity_t th' = (if capacity_t th_ex \<le> cur_size th_ex then capacity_t th_ex * 2 else capacity_t th_ex)"
    by blast
  moreover have "capacity_t th_ex = 3" "cur_size th_ex = 3" by (simp_all add: th_ex_def)
  ultimately show ?thesis by (auto simp: held_ex add_mset_commute)
qed

lemma pop_timer_removes_least_witness:
  "\<exists>th'. pop_timer timers_ex th_ex = Some (timers_ex(2 := None), th') \<and> mset (held th') = {#1, 3#}"
proof -
  have "cur_size th_ex \<noteq> 0" by (simp add: th_ex_def)
  from pop_timer_removes_least [OF th_ex_ok this] obtain a th' where
    "get_top th_ex = Some a" "pop_timer timers_ex th_ex = Some (timers_ex(a := None), th')"
    "mset (held th_ex) = add_mset a (mset (held th'))" by blast
  moreover from this have "a = 2" by (simp add: get_top_def th_ex_def arr_get_def)
  ultimately show ?thesis by (auto simp: held_ex)
qed

lemma tick_runs_due_timers_witness:
  "\<exists>xs st' th'. tick timers_ex th_ex 25 = Some (st', th', calls xs) \<and> th_ok st' th' \<and>
    pending (timers_ex, th_ex) = mset xs + pending (st', th') \<and> sorted (map due xs) \<and>
    (\<forall>x\<in>set xs. due x \<le> 25) \<and> (\<forall>y\<in>#pending (st', th'). 25 < due y) \<and> st' = timers_ex |` (- fst ` set xs)"
  by (rule tick_runs_due_timers [OF th_ex_ok]) (simp add: th_ex_def)

lemma delete_timer_silences_witness:
  "\<exists>st' st2 th2 log. delete_timer timers_ex 2 = Some st' \<and> tick st' th_ex 25 = Some (st2, th2, log) \<and>
    (8, user_data (timer_ex 10 8)) \<notin> set log \<and> st2 2 = None"
proof -
  have "0 < capacity_t th_ex" "2 \<in> set (held th_ex)" by (simp_all add: held_ex) (simp add: th_ex_def)
  from delete_timer_silences [OF th_ex_ok this, of 25] obtain st' st2 th2 log where
    1: "delete_timer timers_ex 2 = Some st'" "tick st' th_ex 25 = Some (st2, th2, log)"
    "set log = {(callback_func x, user_data x) | a x. a \<in> set (held th_ex) \<and> a \<noteq> 2 \<and> timers_ex a = Some x \<and>
      expire x \<le> 25 \<and> callback_func x \<noteq> NULL}" "due_at timers_ex 2 \<le> 25 \<longrightarrow> st2 2 = None"
    by blast
  have "(8, user_data (timer_ex 10 8)) \<notin> set log"
    unfolding 1(3) by (auto simp: held_ex timers_ex_def timer_ex_def)
  moreover have "due_at timers_ex 2 \<le> 25" by (simp add: due_at_def timers_ex_def timer_ex_def)
  ultimately show ?thesis using 1 by blast
qed

lemma time_heap_init_builds_witness:
  "\<exists>th. time_heap_init timers_ex [1, 2, 3, 4] (int 4) 10 = Some th \<and> th_ok timers_ex th \<and>
    mset (held th) = mset (take 4 [1, 2, 3, 4]) \<and> capacity_t th = 10"
  by (rule time_heap_init_builds) (auto simp: timers_ex_def)

end
