(* ===== verification/Lockfree_Queue.thy ===== *)
theory Lockfree_Queue
  imports Prelude
begin

text \<open>
  The shared-memory queue of src/lockfreeQueue/lockfreeQueue.h and lockfreeQueue.c, as one thread runs
  it.  The memory block is its header, its size in bytes and its units; unit -1 is the dummy the list
  starts from.  A unit is in the block only if its bytes are: None is an access outside the block, a
  read past the caller's buffer, a division by zero or a loop that does not end.  Every
  compare-and-swap is kept with its retry loop.  The operating system's shared memory and calloc are
  parameters.
\<close>

section \<open>State\<close>

definition LIST_END :: int where
  "LIST_END = -1"

record unit_head =
  u_next :: int
  use_flag :: int
  u_data :: "byte list"

record queue_head =
  unit_size :: int
  max_unit_num :: int
  p_head :: int
  p_tail :: int
  w_tail :: int
  w_len :: int
  r_len :: int

record lock_free_queue =
  q_head :: queue_head
  q_bytes :: int
  q_units :: "int \<Rightarrow> unit_head"

definition sizeof_unit_head :: int where
  "sizeof_unit_head = 8"

definition sizeof_queue_head :: int where
  "sizeof_queue_head = 28"

definition in_block :: "lock_free_queue \<Rightarrow> int \<Rightarrow> bool" where
  "in_block q i \<longleftrightarrow>
     (let pos = sizeof_queue_head + (i + 1) * (unit_size (q_head q) + sizeof_unit_head)
      in 0 \<le> pos \<and> pos + unit_size (q_head q) + sizeof_unit_head \<le> q_bytes q)"

definition UNIT_HEAD :: "lock_free_queue \<Rightarrow> int \<Rightarrow> unit_head option" where
  "UNIT_HEAD q i = (if in_block q i then Some (q_units q i) else None)"

definition unit_put :: "lock_free_queue \<Rightarrow> int \<Rightarrow> unit_head \<Rightarrow> lock_free_queue" where
  "unit_put q i u = q\<lparr>q_units := (q_units q)(i := u)\<rparr>"

text \<open>The builtin: whether it swapped, and the value that is in memory afterwards.\<close>

definition compare_and_swap :: "int \<Rightarrow> int \<Rightarrow> int \<Rightarrow> bool \<times> int" where
  "compare_and_swap cur old new = (if cur = old then (True, new) else (False, cur))"

section \<open>Initialisation\<close>

text \<open>
  attach key size flag is the block the operating system maps, if it does; flag says whether it may
  create one.
\<close>

definition get_shm ::
    "(int \<Rightarrow> int \<Rightarrow> bool \<Rightarrow> lock_free_queue option) \<Rightarrow> int \<Rightarrow> int \<Rightarrow> int \<times> lock_free_queue option" where
  "get_shm attach key sz =
     (case attach key sz False of
        Some m \<Rightarrow> (0, Some m)
      | None \<Rightarrow> (case attach key sz True of Some m \<Rightarrow> (1, Some m) | None \<Rightarrow> (-1, None)))"

definition zero_block :: "int \<Rightarrow> lock_free_queue" where
  "zero_block bytes = \<lparr>q_head = \<lparr>unit_size = 0, max_unit_num = 0, p_head = 0, p_tail = 0, w_tail = 0,
     w_len = 0, r_len = 0\<rparr>, q_bytes = bytes, q_units = \<lambda>_. \<lparr>u_next = 0, use_flag = 0, u_data = []\<rparr>\<rparr>"

text \<open>The comparison of unit_size is unsigned, so a negative size is refused by it too.\<close>

definition lock_fQueue_init ::
    "(int \<Rightarrow> int \<Rightarrow> bool \<Rightarrow> lock_free_queue option) \<Rightarrow> (int \<Rightarrow> bool) \<Rightarrow>
     int \<Rightarrow> int \<Rightarrow> int \<Rightarrow> (int \<times> lock_free_queue option) option" where
  "lock_fQueue_init attach has_memory shm_key usz maxn =
     (if usz = 0 \<or> maxn = 0 then Some (-2, None)
      else if usz < 0 \<or> usz > 2 ^ 31 - 1 - sizeof_unit_head then Some (-3, None)
      else
        let unit_size_real = wrap32 (sizeof_unit_head + usz);
            max_unit_num_real = wrap32 (maxn + 2);
            mem_size = (sizeof_queue_head + wrap32 (unit_size_real * max_unit_num_real)) mod 2 ^ 64;
            (err, memory, old_shm) =
              (if shm_key \<noteq> 0 then
                 (case get_shm attach shm_key mem_size of (ret, m) \<Rightarrow>
                    if ret < 0 then (True, None, False) else (False, m, ret = 0))
               else if has_memory mem_size then (False, Some (zero_block mem_size), False)
               else (True, None, False))
        in if err then Some (-1, None)
           else (case memory of
             None \<Rightarrow> Some (-1, None)
           | Some q \<Rightarrow>
               if \<not> old_shm then do {
                 let q = q\<lparr>q_head := (q_head q)\<lparr>unit_size := usz, max_unit_num := maxn,
                             p_head := LIST_END, p_tail := LIST_END\<rparr>\<rparr>;
                 u \<leftarrow> UNIT_HEAD q LIST_END;
                 Some (0, Some (unit_put q LIST_END (u\<lparr>u_next := LIST_END\<rparr>)))
               }
               else Some (0, Some q)))"

section \<open>Push\<close>

text \<open>Reserving a place: whether there was one.\<close>

partial_function (option) push_reserve :: "lock_free_queue \<Rightarrow> (bool \<times> lock_free_queue) option" where
  "push_reserve q =
     (let len = w_len (q_head q)
      in if len \<ge> max_unit_num (q_head q) then Some (False, q)
         else let (ok, v) = compare_and_swap (w_len (q_head q)) len (len + 1)
              in if ok then Some (True, q\<lparr>q_head := (q_head q)\<lparr>w_len := v\<rparr>\<rparr>) else push_reserve q)"

text \<open>Taking the next unit of the ring that is not in use.\<close>

partial_function (option) push_slot :: "lock_free_queue \<Rightarrow> (int \<times> lock_free_queue) option" where
  "push_slot q =
     (let old_w_tail = w_tail (q_head q);
          n = wrap32 (max_unit_num (q_head q) + 1)
      in if n = 0 then None
         else let tail = old_w_tail mod n;
                  (ok, v) = compare_and_swap (w_tail (q_head q)) old_w_tail (tail + 1)
              in if \<not> ok then push_slot q
                 else let q = q\<lparr>q_head := (q_head q)\<lparr>w_tail := v\<rparr>\<rparr>
                      in Option.bind (UNIT_HEAD q tail) (\<lambda>u.
                           if use_flag u \<noteq> 0 then push_slot q else Some (tail, q)))"

text \<open>The last unit of the list that starts at unit i.\<close>

partial_function (option) push_chase :: "lock_free_queue \<Rightarrow> int \<Rightarrow> int option" where
  "push_chase q i =
     Option.bind (UNIT_HEAD q i) (\<lambda>u. if u_next u \<noteq> LIST_END then push_chase q (u_next u) else Some i)"

text \<open>Linking unit w behind the last one; the result is the tail that was read.\<close>

partial_function (option) push_link :: "lock_free_queue \<Rightarrow> int \<Rightarrow> nat \<Rightarrow> (int \<times> lock_free_queue) option" where
  "push_link q w try_times =
     (let old_p_tail = p_tail (q_head q);
          try_times = try_times + 1
      in Option.bind (if try_times \<ge> 3 then push_chase q old_p_tail else Some old_p_tail) (\<lambda>i.
         Option.bind (UNIT_HEAD q i) (\<lambda>u.
           let (ok, v) = compare_and_swap (u_next u) LIST_END w
           in if ok then Some (old_p_tail, unit_put q i (u\<lparr>u_next := v\<rparr>)) else push_link q w try_times)))"

definition lock_fQueue_push ::
    "lock_free_queue option \<Rightarrow> byte list option \<Rightarrow> (int \<times> lock_free_queue option) option" where
  "lock_fQueue_push queue unit =
     (case (queue, unit) of
        (Some q, Some bytes) \<Rightarrow> do {
          (ok, q) \<leftarrow> push_reserve q;
          if \<not> ok then Some (-1, Some q)
          else do {
            (w, q) \<leftarrow> push_slot q;
            u \<leftarrow> UNIT_HEAD q w;
            bs \<leftarrow> mem_read 0 (nat (unit_size (q_head q))) bytes;
            let q = unit_put q w (u\<lparr>u_next := LIST_END, use_flag := 1, u_data := bs\<rparr>);
            (old_p_tail, q) \<leftarrow> push_link q w 0;
            let q = q\<lparr>q_head := (q_head q)\<lparr>p_tail := snd (compare_and_swap (p_tail (q_head q)) old_p_tail w)\<rparr>\<rparr>;
            let q = q\<lparr>q_head := (q_head q)\<lparr>r_len := wrap32 (r_len (q_head q) + 1)\<rparr>\<rparr>;
            Some (0, Some q)
          }
        }
      | _ \<Rightarrow> Some (-2, queue))"

section \<open>Pop and length\<close>

partial_function (option) pop_reserve :: "lock_free_queue \<Rightarrow> (bool \<times> lock_free_queue) option" where
  "pop_reserve q =
     (let len = r_len (q_head q)
      in if len \<ge> 0 then Some (False, q)
         else let (ok, v) = compare_and_swap (r_len (q_head q)) len (wrap32 (len - 1))
              in if ok then Some (True, q\<lparr>q_head := (q_head q)\<lparr>r_len := v\<rparr>\<rparr>) else pop_reserve q)"

partial_function (option) pop_unlink :: "lock_free_queue \<Rightarrow> (unit_head \<times> lock_free_queue) option" where
  "pop_unlink q =
     (let head = p_head (q_head q)
      in Option.bind (UNIT_HEAD q head) (\<lambda>u.
           let (ok, v) = compare_and_swap (p_head (q_head q)) head (u_next u)
           in if ok then Some (u, q\<lparr>q_head := (q_head q)\<lparr>p_head := v\<rparr>\<rparr>) else pop_unlink q))"

text \<open>The bytes stored to the caller's unit are the third component.\<close>

definition lock_fQueue_pop ::
    "lock_free_queue option \<Rightarrow> bool \<Rightarrow> (int \<times> lock_free_queue option \<times> byte list) option" where
  "lock_fQueue_pop queue has_unit =
     (case queue of
        None \<Rightarrow> Some (-2, queue, [])
      | Some q \<Rightarrow>
          if \<not> has_unit then Some (-2, queue, [])
          else do {
            (ok, q) \<leftarrow> pop_reserve q;
            if \<not> ok then Some (-1, Some q, [])
            else do {
              (u, q) \<leftarrow> pop_unlink q;
              d \<leftarrow> UNIT_HEAD q (u_next u);
              let q = unit_put q (u_next u) (d\<lparr>use_flag := 0\<rparr>);
              let q = q\<lparr>q_head := (q_head q)\<lparr>w_len := wrap32 (w_len (q_head q) - 1)\<rparr>\<rparr>;
              Some (0, Some q, u_data d)
            }
          })"

definition lock_fQueue_len :: "lock_free_queue option \<Rightarrow> int" where
  "lock_fQueue_len queue = (case queue of None \<Rightarrow> -2 | Some q \<Rightarrow> r_len (q_head q))"

section \<open>A queue after some pushes\<close>

definition lq_inv :: "lock_free_queue \<Rightarrow> byte list list \<Rightarrow> bool" where
  "lq_inv q xs \<longleftrightarrow>
     (let hd = q_head q; n = int (length xs) in
        0 < unit_size hd \<and> 1 \<le> max_unit_num hd \<and> max_unit_num hd < 2 ^ 31 - 1 \<and> n \<le> max_unit_num hd \<and>
        w_len hd = n \<and> r_len hd = n \<and> w_tail hd = n \<and> p_tail hd = n - 1 \<and> p_head hd = -1 \<and>
        u_next (q_units q (-1)) = (if xs = [] then LIST_END else 0) \<and>
        (\<forall>i<length xs. use_flag (q_units q (int i)) = 1 \<and> u_data (q_units q (int i)) = xs ! i \<and>
           u_next (q_units q (int i)) = (if Suc i < length xs then int i + 1 else LIST_END)) \<and>
        (\<forall>i. n \<le> i \<longrightarrow> use_flag (q_units q i) = 0) \<and>
        (\<forall>i. -1 \<le> i \<longrightarrow> i \<le> max_unit_num hd \<longrightarrow> in_block q i))"

lemma in_block_cong: "q_bytes q' = q_bytes q \<Longrightarrow> unit_size (q_head q') = unit_size (q_head q) \<Longrightarrow> in_block q' i = in_block q i"
  by (simp add: in_block_def Let_def)

lemma unit_put_simps [simp]: "q_head (unit_put q i u) = q_head q" "q_bytes (unit_put q i u) = q_bytes q"
  "q_units (unit_put q i u) = (q_units q)(i := u)" "in_block (unit_put q i u) j = in_block q j"
  by (simp_all add: unit_put_def in_block_def Let_def)

lemma in_block_upd [simp]:
  "in_block (q\<lparr>q_head := (q_head q)\<lparr>w_len := a\<rparr>\<rparr>) i = in_block q i"
  "in_block (q\<lparr>q_head := (q_head q)\<lparr>w_tail := a\<rparr>\<rparr>) i = in_block q i"
  "in_block (q\<lparr>q_head := (q_head q)\<lparr>p_tail := a\<rparr>\<rparr>) i = in_block q i"
  "in_block (q\<lparr>q_head := (q_head q)\<lparr>r_len := a\<rparr>\<rparr>) i = in_block q i"
  by (simp_all add: in_block_def Let_def)


lemma cas_same [simp]: "compare_and_swap v v n = (True, n)"
  by (simp add: compare_and_swap_def)

text \<open>One push into a queue with room, and into a full one.\<close>

lemma push_ok:
  assumes inv: "lq_inv q xs" and room: "int (length xs) < max_unit_num (q_head q)"
    and len: "nat (unit_size (q_head q)) \<le> length unit"
  shows "\<exists>q'. lock_fQueue_push (Some q) (Some unit) = Some (0, Some q') \<and>
    lq_inv q' (xs @ [take (nat (unit_size (q_head q))) unit]) \<and>
    max_unit_num (q_head q') = max_unit_num (q_head q) \<and> unit_size (q_head q') = unit_size (q_head q)"
proof -
  let ?n = "int (length xs)" and ?hd = "q_head q" and ?usz = "unit_size (q_head q)"
  have f: "0 < ?usz" "1 \<le> max_unit_num ?hd" "max_unit_num ?hd < 2 ^ 31 - 1" "w_len ?hd = ?n" "r_len ?hd = ?n"
    "w_tail ?hd = ?n" "p_tail ?hd = ?n - 1" "p_head ?hd = -1"
    "u_next (q_units q (-1)) = (if xs = [] then LIST_END else 0)"
    "\<forall>i. ?n \<le> i \<longrightarrow> use_flag (q_units q i) = 0" "\<forall>i. -1 \<le> i \<longrightarrow> i \<le> max_unit_num ?hd \<longrightarrow> in_block q i"
    and units: "\<And>i. i < length xs \<Longrightarrow> use_flag (q_units q (int i)) = 1 \<and> u_data (q_units q (int i)) = xs ! i \<and>
           u_next (q_units q (int i)) = (if Suc i < length xs then int i + 1 else LIST_END)"
    using inv by (simp_all add: lq_inv_def Let_def)
  define q1 where "q1 = q\<lparr>q_head := ?hd\<lparr>w_len := ?n + 1\<rparr>\<rparr>"
  define q2 where "q2 = q1\<lparr>q_head := (q_head q1)\<lparr>w_tail := ?n + 1\<rparr>\<rparr>"
  define q3 where "q3 = unit_put q2 ?n ((q_units q ?n)\<lparr>u_next := LIST_END, use_flag := 1, u_data := take (nat ?usz) unit\<rparr>)"
  define q4 where "q4 = unit_put q3 (?n - 1) ((q_units q (?n - 1))\<lparr>u_next := ?n\<rparr>)"
  define q5 where "q5 = q4\<lparr>q_head := (q_head q4)\<lparr>p_tail := ?n\<rparr>\<rparr>"
  define q6 where "q6 = q5\<lparr>q_head := (q_head q5)\<lparr>r_len := ?n + 1\<rparr>\<rparr>"
  have e1: "push_reserve q = Some (True, q1)"
    using room f(4) by (subst push_reserve.simps) (simp add: Let_def q1_def)
  have ib: "in_block q i" if "-1 \<le> i" "i \<le> max_unit_num ?hd" for i using f(11) that by blast
  have ib': "in_block q1 i = in_block q i" "in_block q2 i = in_block q i" "in_block q3 i = in_block q i" for i
    by (auto intro!: in_block_cong simp: q1_def q2_def q3_def)
  have wr: "wrap32 (max_unit_num ?hd + 1) = max_unit_num ?hd + 1" using f(2,3) by (intro wrap32_id) auto
  have md: "?n mod (max_unit_num ?hd + 1) = ?n" using room by simp
  have e2: "push_slot q1 = Some (?n, q2)"
    using f(2,6,10) wr md room ib [of ?n] ib'(2)
    by (subst push_slot.simps) (simp add: Let_def UNIT_HEAD_def q2_def q1_def)
  have prev: "u_next (q_units q (?n - 1)) = LIST_END"
  proof (cases "xs = []")
    case True then show ?thesis using f(9) by simp
  next
    case False
    then have "int (length xs - 1) = ?n - 1" by (cases xs) auto
    then show ?thesis using units [of "length xs - 1"] False by (cases xs) auto
  qed
  have e3: "push_link q3 ?n 0 = Some (?n - 1, q4)"
    using f(7) prev room ib [of "?n - 1"]
    by (subst push_link.simps) (simp add: Let_def UNIT_HEAD_def q4_def ib', simp add: q3_def q2_def q1_def)
  have r32: "wrap32 (?n + 1) = ?n + 1" using room f(3) by (intro wrap32_id) auto
  have u2: "UNIT_HEAD q2 ?n = Some (q_units q ?n)"
    using ib [of ?n] room by (simp add: UNIT_HEAD_def ib') (simp add: q2_def q1_def)
  have rd: "mem_read 0 (nat ?usz) unit = Some (take (nat ?usz) unit)" using len by (simp add: mem_read_def)
  have h: "unit_size (q_head q2) = ?usz" "p_tail (q_head q4) = ?n - 1" "r_len (q_head q4) = ?n"
    using f(5,7) by (simp_all add: q5_def q4_def q3_def q2_def q1_def)
  have "lock_fQueue_push (Some q) (Some unit) = Some (0, Some q6)"
    using e1 e2 u2 rd h e3 r32 unfolding lock_fQueue_push_def
    by (simp add: Let_def q3_def [symmetric]) (simp add: q6_def q5_def)
  moreover have "lq_inv q6 (xs @ [take (nat ?usz) unit])"
  proof -
    have hd6: "q_head q6 = ?hd\<lparr>w_len := ?n + 1, w_tail := ?n + 1, p_tail := ?n, r_len := ?n + 1\<rparr>"
      by (simp add: q6_def q5_def q4_def q3_def q2_def q1_def)
    have un6: "q_units q6 = (q_units q)(?n := (q_units q ?n)\<lparr>u_next := LIST_END, use_flag := 1, u_data := take (nat ?usz) unit\<rparr>,
        ?n - 1 := (q_units q (?n - 1))\<lparr>u_next := ?n\<rparr>)"
      by (simp add: q6_def q5_def q4_def q3_def q2_def q1_def)
    have ib6: "in_block q6 i = in_block q i" for i
      by (rule in_block_cong) (simp_all add: q6_def q5_def q4_def q3_def q2_def q1_def)
    have "use_flag (q_units q6 (int i)) = 1 \<and> u_data (q_units q6 (int i)) = (xs @ [take (nat ?usz) unit]) ! i \<and>
        u_next (q_units q6 (int i)) = (if Suc i < length (xs @ [take (nat ?usz) unit]) then int i + 1 else LIST_END)"
      if i: "i < length (xs @ [take (nat ?usz) unit])" for i
    proof (cases "i = length xs")
      case True then show ?thesis by (simp add: un6)
    next
      case False
      then have "i < length xs" using i by simp
      then show ?thesis using units [of i] by (auto simp: un6 nth_append)
    qed
    moreover have "u_next (q_units q6 (-1)) = 0"
      using f(9) by (cases "xs = []") (auto simp: un6)
    moreover have "use_flag (q_units q6 i) = 0" if "?n + 1 \<le> i" for i using f(10) that by (simp add: un6)
    ultimately show ?thesis
      using f room ib6 unfolding lq_inv_def by (simp add: Let_def hd6)
  qed
  moreover have "max_unit_num (q_head q6) = max_unit_num ?hd" "unit_size (q_head q6) = ?usz"
    by (simp_all add: q6_def q5_def q4_def q3_def q2_def q1_def)
  ultimately show ?thesis by blast
qed

lemma push_full:
  assumes "lq_inv q xs" and "int (length xs) = max_unit_num (q_head q)"
  shows "lock_fQueue_push (Some q) (Some unit) = Some (-1, Some q)"
proof -
  have "push_reserve q = Some (False, q)"
    using assms by (subst push_reserve.simps) (simp add: Let_def lq_inv_def)
  then show ?thesis by (simp add: lock_fQueue_push_def)
qed

lemma pop_refuses:
  assumes "lq_inv q xs"
  shows "lock_fQueue_pop (Some q) True = Some (-1, Some q, [])"
proof -
  have "pop_reserve q = Some (False, q)"
    using assms by (subst pop_reserve.simps) (simp add: Let_def lq_inv_def)
  then show ?thesis by (simp add: lock_fQueue_pop_def)
qed

lemma init_ok:
  assumes "0 < usz" and "1 \<le> maxn" and "(usz + 8) * (maxn + 2) < 2 ^ 31"
    and "has_memory (28 + (usz + 8) * (maxn + 2))"
  shows "\<exists>q. lock_fQueue_init attach has_memory 0 usz maxn = Some (0, Some q) \<and> lq_inv q [] \<and>
    max_unit_num (q_head q) = maxn \<and> unit_size (q_head q) = usz"
proof -
  have "usz + 8 \<le> (usz + 8) * (maxn + 2)" "maxn + 2 \<le> (usz + 8) * (maxn + 2)"
    using assms(1,2) by (simp_all add: mult_le_cancel_left1 mult_le_cancel_right1)
  then have b: "usz + 8 < 2 ^ 31" "maxn + 2 < 2 ^ 31" using assms(3) by linarith+
  let ?m = "(usz + 8) * (maxn + 2)"
  have m0: "0 < ?m" using assms(1,2) by simp
  have w: "wrap32 (8 + usz) = usz + 8" "wrap32 (maxn + 2) = maxn + 2"
    using b assms by (simp_all add: wrap32_id add.commute)
  have w3: "wrap32 ?m = ?m" using m0 assms(3) by (intro wrap32_id) linarith+
  have ms: "(28 + ?m) mod 2 ^ 64 = 28 + ?m" using assms(3) m0 by simp
  define z where "z = zero_block (28 + ?m)"
  define q0 where "q0 = z\<lparr>q_head := (q_head z)\<lparr>unit_size := usz, max_unit_num := maxn,
      p_head := LIST_END, p_tail := LIST_END\<rparr>\<rparr>"
  have ib: "in_block q0 i" if "-1 \<le> i" "i \<le> maxn" for i
  proof -
    have "(i + 1) * (usz + 8) + (usz + 8) = (usz + 8) * (i + 2)" by (simp add: algebra_simps)
    also have "\<dots> \<le> ?m" using that assms(1) by (intro mult_left_mono) auto
    finally show ?thesis using that assms(1)
      by (simp add: in_block_def q0_def z_def zero_block_def sizeof_queue_head_def sizeof_unit_head_def)
  qed
  let ?q = "unit_put q0 LIST_END ((q_units q0 LIST_END)\<lparr>u_next := LIST_END\<rparr>)"
  have "UNIT_HEAD q0 LIST_END = Some (q_units q0 LIST_END)"
    using ib [of "-1"] assms(2) by (simp add: UNIT_HEAD_def LIST_END_def)
  then have "lock_fQueue_init attach has_memory 0 usz maxn = Some (0, Some ?q)"
    using assms b w w3 ms unfolding lock_fQueue_init_def sizeof_unit_head_def sizeof_queue_head_def
    by (simp add: Let_def z_def [symmetric] q0_def [symmetric])
  moreover have "lq_inv ?q []"
    using assms(1,2) b ib unfolding lq_inv_def by (simp add: Let_def q0_def z_def zero_block_def LIST_END_def)
  ultimately show ?thesis by (auto simp: q0_def)
qed

section \<open>Runs\<close>

datatype lq_op = Push "byte list" | Pop

fun lq_run :: "lock_free_queue \<Rightarrow> lq_op list \<Rightarrow> (int list \<times> lock_free_queue) option" where
  "lq_run q [] = Some ([], q)"
| "lq_run q (Push u # ops) = (case lock_fQueue_push (Some q) (Some u) of
     Some (r, Some q) \<Rightarrow> map_option (\<lambda>(rs, q). (r # rs, q)) (lq_run q ops) | _ \<Rightarrow> None)"
| "lq_run q (Pop # ops) = (case lock_fQueue_pop (Some q) True of
     Some (r, Some q, _) \<Rightarrow> map_option (\<lambda>(rs, q). (r # rs, q)) (lq_run q ops) | _ \<Rightarrow> None)"

text \<open>What the code returns: n pushes have been accepted so far.\<close>

fun lq_results :: "int \<Rightarrow> int \<Rightarrow> lq_op list \<Rightarrow> int list" where
  "lq_results m n [] = []"
| "lq_results m n (Push u # ops) = (if n < m then 0 # lq_results m (n + 1) ops else -1 # lq_results m n ops)"
| "lq_results m n (Pop # ops) = -1 # lq_results m n ops"

fun lq_pushed :: "nat \<Rightarrow> lq_op list \<Rightarrow> byte list list" where
  "lq_pushed usz [] = []"
| "lq_pushed usz (Push u # ops) = take usz u # lq_pushed usz ops"
| "lq_pushed usz (Pop # ops) = lq_pushed usz ops"

text \<open>The data of the units linked behind unit i, at most k of them.\<close>

fun linked :: "lock_free_queue \<Rightarrow> int \<Rightarrow> nat \<Rightarrow> byte list list" where
  "linked q i 0 = []"
| "linked q i (Suc k) = (let j = u_next (q_units q i)
     in if j = LIST_END then [] else u_data (q_units q j) # linked q j k)"

lemma linked_from:
  assumes "lq_inv q xs" and "i < length xs" and "length xs \<le> Suc i + k"
  shows "linked q (int i) k = drop (Suc i) xs"
  using assms(2,3)
proof (induction k arbitrary: i)
  case 0
  then show ?case by simp
next
  case (Suc k)
  have u: "u_next (q_units q (int i)) = (if Suc i < length xs then int i + 1 else LIST_END)"
    using assms(1) Suc.prems(1) by (simp add: lq_inv_def Let_def)
  show ?case
  proof (cases "Suc i < length xs")
    case False
    then show ?thesis using u by (simp add: Let_def)
  next
    case True
    have e: "int i + 1 = int (Suc i)" by simp
    have "u_data (q_units q (int (Suc i))) = xs ! Suc i" using assms(1) True by (simp add: lq_inv_def Let_def del: of_nat_Suc)
    moreover have "int (Suc i) \<noteq> LIST_END" by (simp add: LIST_END_def)
    ultimately show ?thesis
      using u True Suc.IH [OF True] Suc.prems(2) unfolding e by (simp add: Let_def Cons_nth_drop_Suc del: of_nat_Suc)
  qed
qed

lemma linked_all:
  assumes "lq_inv q xs" and "length xs \<le> k"
  shows "linked q LIST_END k = xs"
proof (cases xs)
  case Nil
  then have "u_next (q_units q LIST_END) = LIST_END" using assms(1) by (simp add: lq_inv_def Let_def LIST_END_def)
  then show ?thesis using Nil by (cases k) (simp_all add: Let_def)
next
  case (Cons x ys)
  then obtain k' where k: "k = Suc k'" using assms(2) by (cases k) auto
  have un: "u_next (q_units q LIST_END) = 0" using assms(1) Cons by (simp add: lq_inv_def Let_def LIST_END_def)
  have "\<forall>i<length xs. u_data (q_units q (int i)) = xs ! i" using assms(1) by (simp add: lq_inv_def Let_def)
  then have "u_data (q_units q (int 0)) = x" using Cons by fastforce
  then have "u_data (q_units q 0) = x" by simp
  note un = un this
  from un show ?thesis using linked_from [OF assms(1), of 0 k'] assms(2) Cons k
    by (simp add: Let_def LIST_END_def)
qed

lemma lq_run_ok:
  assumes "lq_inv q xs" and "\<forall>u. Push u \<in> set ops \<longrightarrow> nat (unit_size (q_head q)) \<le> length u"
  shows "\<exists>q'. lq_run q ops = Some (lq_results (max_unit_num (q_head q)) (int (length xs)) ops, q') \<and>
    lq_inv q' (take (nat (max_unit_num (q_head q))) (xs @ lq_pushed (nat (unit_size (q_head q))) ops))"
  using assms
proof (induction ops arbitrary: q xs)
  case Nil
  have "int (length xs) \<le> max_unit_num (q_head q)" using Nil by (simp add: lq_inv_def Let_def)
  then have "length xs \<le> nat (max_unit_num (q_head q))" by linarith
  then show ?case using Nil by simp
next
  case (Cons p ops)
  have le: "int (length xs) \<le> max_unit_num (q_head q)" using Cons.prems by (simp add: lq_inv_def Let_def)
  show ?case
  proof (cases p)
    case Pop
    have "\<forall>u. Push u \<in> set ops \<longrightarrow> nat (unit_size (q_head q)) \<le> length u" using Cons.prems(2) by simp
    from Cons.IH [OF Cons.prems(1) this] show ?thesis
      using Pop pop_refuses [OF Cons.prems(1)] by auto
  next
    case (Push u)
    show ?thesis
    proof (cases "int (length xs) < max_unit_num (q_head q)")
      case True
      obtain q1 where q1: "lock_fQueue_push (Some q) (Some u) = Some (0, Some q1)"
        "lq_inv q1 (xs @ [take (nat (unit_size (q_head q))) u])"
        "max_unit_num (q_head q1) = max_unit_num (q_head q)" "unit_size (q_head q1) = unit_size (q_head q)"
        using push_ok [OF Cons.prems(1) True, of u] Cons.prems(2) Push by auto
      have "\<forall>u. Push u \<in> set ops \<longrightarrow> nat (unit_size (q_head q1)) \<le> length u" using Cons.prems(2) q1(4) by simp
      from Cons.IH [OF q1(2) this] show ?thesis using q1 Push True by (auto simp: add.commute)
    next
      case False
      then have eq: "int (length xs) = max_unit_num (q_head q)" using le by simp
      then have n: "nat (max_unit_num (q_head q)) = length xs" by linarith
      have "\<forall>u. Push u \<in> set ops \<longrightarrow> nat (unit_size (q_head q)) \<le> length u" using Cons.prems(2) by simp
      from Cons.IH [OF Cons.prems(1) this] show ?thesis
        using push_full [OF Cons.prems(1) eq] Push eq n by auto
    qed
  qed
qed

section \<open>Properties\<close>

text \<open>C37: a queue for maxn units that has just been created accepts the first maxn pushes, links their
  units in the order of the pushes and keeps their first bytes, answers -1 to every later push, and
  answers -1 to every pop, wherever it stands: nothing pushed can ever be popped, because pop takes a
  length of at least 0 for empty.\<close>

theorem lock_fQueue_fills_and_never_pops:
  assumes "0 < usz" and "1 \<le> maxn" and "(usz + 8) * (maxn + 2) < 2 ^ 31"
    and "has_memory (28 + (usz + 8) * (maxn + 2))" and "\<forall>u. Push u \<in> set ops \<longrightarrow> nat usz \<le> length u"
  shows "\<exists>q q'. lock_fQueue_init attach has_memory 0 usz maxn = Some (0, Some q) \<and>
    lq_run q ops = Some (lq_results maxn 0 ops, q') \<and>
    linked q' LIST_END (nat maxn) = take (nat maxn) (lq_pushed (nat usz) ops) \<and>
    lock_fQueue_len (Some q') = int (length (take (nat maxn) (lq_pushed (nat usz) ops)))"
proof -
  obtain q where q: "lock_fQueue_init attach has_memory 0 usz maxn = Some (0, Some q)" "lq_inv q []"
    "max_unit_num (q_head q) = maxn" "unit_size (q_head q) = usz"
    using init_ok [where has_memory = has_memory, OF assms(1-4)] by blast
  have "\<forall>u. Push u \<in> set ops \<longrightarrow> nat (unit_size (q_head q)) \<le> length u" using assms(5) q(4) by simp
  from lq_run_ok [OF q(2) this] obtain q' where
    1: "lq_run q ops = Some (lq_results maxn 0 ops, q')" "lq_inv q' (take (nat maxn) (lq_pushed (nat usz) ops))"
    using q(3,4) by auto
  have "length (take (nat maxn) (lq_pushed (nat usz) ops)) \<le> nat maxn" by simp
  from linked_all [OF 1(2) this] have "linked q' LIST_END (nat maxn) = take (nat maxn) (lq_pushed (nat usz) ops)" .
  moreover have "lock_fQueue_len (Some q') = int (length (take (nat maxn) (lq_pushed (nat usz) ops)))"
    using 1(2) by (simp add: lock_fQueue_len_def lq_inv_def Let_def)
  ultimately show ?thesis using q(1) 1(1) by blast
qed

text \<open>The size of the block is computed in 32 bits without a check: for 65534 units of 65528 bytes
  it wraps around to that of the header alone, and initialising the queue stores outside the block it
  allocated.\<close>

theorem lock_fQueue_init_overflow:
  assumes "has_memory 28"
  shows "lock_fQueue_init attach has_memory 0 65528 65534 = None"
proof -
  have "wrap32 65536 = 65536" "wrap32 (65536 * 65536) = 0"
    by (simp_all add: wrap32_def signed_take_bit_eq_take_bit_shift take_bit_eq_mod)
  then show ?thesis using assms
    by (simp add: lock_fQueue_init_def sizeof_unit_head_def sizeof_queue_head_def zero_block_def UNIT_HEAD_def
        in_block_def LIST_END_def)
qed

lemma lock_fQueue_fills_and_never_pops_witness:
  "\<exists>q q'. lock_fQueue_init (\<lambda>_ _ _. None) (\<lambda>_. True) 0 2 2 = Some (0, Some q) \<and>
    lq_run q [Push [1, 2], Pop, Push [3, 4, 5], Push [6, 7], Pop] = Some ([0, -1, 0, -1, -1], q') \<and>
    linked q' LIST_END 2 = [[1, 2], [3, 4]] \<and> lock_fQueue_len (Some q') = 2"
  using lock_fQueue_fills_and_never_pops [of 2 2 "\<lambda>_. True" "[Push [1, 2], Pop, Push [3, 4, 5], Push [6, 7], Pop]"
      "\<lambda>_ _ _. None"]
  by (auto simp: numeral_2_eq_2)

lemma lock_fQueue_init_overflow_witness: "lock_fQueue_init (\<lambda>_ _ _. None) (\<lambda>_. True) 0 65528 65534 = None"
  by (rule lock_fQueue_init_overflow) simp

end
