(* ===== verification/Steps.thy ===== *)
theory Steps
  imports Prelude
begin

text \<open>
  The interface of the concurrent components: an initial state, a step relation over the interleaved
  accesses of the threads, and an invariant.  What the client gets is that the invariant holds in
  every state the threads can reach, and with it every consequence of the invariant.
\<close>

inductive reach :: "'s \<Rightarrow> ('s \<Rightarrow> 's \<Rightarrow> bool) \<Rightarrow> 's \<Rightarrow> bool" for init step where
  reach_init: "reach init step init"
| reach_step: "reach init step s \<Longrightarrow> step s s' \<Longrightarrow> reach init step s'"

lemma reach_steps: "step\<^sup>*\<^sup>* s s' \<Longrightarrow> reach init step s \<Longrightarrow> reach init step s'"
  by (induction rule: rtranclp_induct) (auto intro: reach_step)

locale invariant_system =
  fixes init :: 's
    and step :: "'s \<Rightarrow> 's \<Rightarrow> bool"
    and inv :: "'s \<Rightarrow> bool"
  assumes inv_init: "inv init"
    and inv_step: "inv s \<Longrightarrow> step s s' \<Longrightarrow> inv s'"
begin

lemma reach_inv: "reach init step s \<Longrightarrow> inv s"
  by (induction rule: reach.induct) (auto intro: inv_init inv_step)

end

text \<open>A system whose steps simulate those of an abstract machine, or leave its state alone.\<close>

locale simulation_system = invariant_system +
  fixes abstr :: "'a \<Rightarrow> 'b"
    and astep :: "'b \<Rightarrow> 'b \<Rightarrow> bool"
  assumes simulates: "inv s \<Longrightarrow> step s s' \<Longrightarrow> abstr s' = abstr s \<or> astep (abstr s) (abstr s')"
begin

lemma reach_abstr: "reach init step s \<Longrightarrow> reach (abstr init) astep (abstr s)"
proof (induction rule: reach.induct)
  case reach_init
  show ?case by (rule reach.reach_init)
next
  case (reach_step s s')
  then show ?case using simulates [OF reach_inv] by (metis reach.reach_step)
qed

end

text \<open>Runs of bounded length come to an end.\<close>

lemma bounded_run_ends:
  assumes "\<forall>m s'. (r ^^ m) s s' \<longrightarrow> m \<le> k"
  obtains s' where "r\<^sup>*\<^sup>* s s'" "\<nexists>s''. r s' s''"
proof -
  let ?P = "\<lambda>m. \<exists>s'. (r ^^ m) s s'"
  have P0: "?P 0" by auto
  have le: "\<forall>y. ?P y \<longrightarrow> y \<le> k" using assms by blast
  obtain s' where s': "(r ^^ Greatest ?P) s s'" using GreatestI_nat [of ?P 0 k, OF P0] le by blast
  have "\<not> r s' s''" for s''
  proof
    assume "r s' s''"
    then have "?P (Suc (Greatest ?P))" using s' by auto
    then have "Suc (Greatest ?P) \<le> Greatest ?P" using Greatest_le_nat [of ?P _ k] le by blast
    then show False by simp
  qed
  then show thesis using that [of s'] s' by (meson relpowp_imp_rtranclp)
qed

end
