(* ===== verification/Spinlock.thy ===== *)
theory Spinlock
  imports Steps
begin

text \<open>
  The reentrant spin lock of src/epoll_mutilthread/src/spinlock.c.  A state is the lock, where each
  thread is in the code (one entry per access to the lock: the check of the owner, the test and the
  compare-and-swap of the loop, the load and the store of the counter, and so on) and, as a ghost,
  how many of its calls of spin_lock have returned and not been matched by a spin_unlock that
  returned 0.  Threads are the non-zero values of pthread_self.
\<close>

section \<open>The lock\<close>

record spinlock =
  owner :: nat
  lock_count :: int

definition spin_create :: spinlock where
  "spin_create = \<lparr>owner = 0, lock_count = 0\<rparr>"

datatype spin_pc =
    Outside
  | Lock_check | Lock_test | Lock_cas | Lock_load | Lock_store int
  | Unlock_check | Unlock_load | Unlock_store int | Unlock_test | Unlock_clear

record spin_state =
  sp_lock :: spinlock
  sp_pc :: "nat \<Rightarrow> spin_pc"
  sp_depth :: "nat \<Rightarrow> nat"

definition spin_init :: spin_state where
  "spin_init = \<lparr>sp_lock = spin_create, sp_pc = \<lambda>_. Outside, sp_depth = \<lambda>_. 0\<rparr>"

definition goto :: "spin_state \<Rightarrow> nat \<Rightarrow> spin_pc \<Rightarrow> spin_state" where
  "goto s t p = s\<lparr>sp_pc := (sp_pc s)(t := p)\<rparr>"

section \<open>The code, access by access\<close>

text \<open>spin_lock: the next state when thread t, inside the call, makes its next access.\<close>

definition spin_lock :: "spin_state \<Rightarrow> nat \<Rightarrow> spin_state option" where
  "spin_lock s t =
     (case sp_pc s t of
        Lock_check \<Rightarrow> Some (goto s t (if t = owner (sp_lock s) then Lock_load else Lock_test))
      | Lock_test \<Rightarrow> Some (goto s t (if owner (sp_lock s) = 0 then Lock_cas else Lock_test))
      | Lock_cas \<Rightarrow>
          if owner (sp_lock s) = 0
          then Some (goto (s\<lparr>sp_lock := (sp_lock s)\<lparr>owner := t\<rparr>\<rparr>) t Lock_load)
          else Some (goto s t Lock_test)
      | Lock_load \<Rightarrow> Some (goto s t (Lock_store (lock_count (sp_lock s))))
      | Lock_store c \<Rightarrow>
          Some (goto (s\<lparr>sp_lock := (sp_lock s)\<lparr>lock_count := c + 1\<rparr>,
                        sp_depth := (sp_depth s)(t := sp_depth s t + 1)\<rparr>) t Outside)
      | _ \<Rightarrow> None)"

text \<open>spin_unlock, the same way.  A thread that is not the owner returns -1 at the check.\<close>

definition spin_unlock :: "spin_state \<Rightarrow> nat \<Rightarrow> spin_state option" where
  "spin_unlock s t =
     (case sp_pc s t of
        Unlock_check \<Rightarrow> Some (goto s t (if t = owner (sp_lock s) then Unlock_load else Outside))
      | Unlock_load \<Rightarrow> Some (goto s t (Unlock_store (lock_count (sp_lock s))))
      | Unlock_store c \<Rightarrow> Some (goto (s\<lparr>sp_lock := (sp_lock s)\<lparr>lock_count := c - 1\<rparr>\<rparr>) t Unlock_test)
      | Unlock_test \<Rightarrow>
          if lock_count (sp_lock s) = 0 then Some (goto s t Unlock_clear)
          else Some (goto (s\<lparr>sp_depth := (sp_depth s)(t := sp_depth s t - 1)\<rparr>) t Outside)
      | Unlock_clear \<Rightarrow>
          Some (goto (s\<lparr>sp_lock := (sp_lock s)\<lparr>owner := 0\<rparr>,
                        sp_depth := (sp_depth s)(t := sp_depth s t - 1)\<rparr>) t Outside)
      | _ \<Rightarrow> None)"

text \<open>Threads call the two functions at will, also spin_unlock without holding the lock.\<close>

inductive spin_step :: "spin_state \<Rightarrow> spin_state \<Rightarrow> bool" where
  call_lock: "t \<noteq> 0 \<Longrightarrow> sp_pc s t = Outside \<Longrightarrow> spin_step s (goto s t Lock_check)"
| call_unlock: "t \<noteq> 0 \<Longrightarrow> sp_pc s t = Outside \<Longrightarrow> spin_step s (goto s t Unlock_check)"
| in_lock: "spin_lock s t = Some s' \<Longrightarrow> spin_step s s'"
| in_unlock: "spin_unlock s t = Some s' \<Longrightarrow> spin_step s s'"

inductive_cases spin_stepE: "spin_step s s'"

section \<open>The invariant\<close>

text \<open>What holds of thread t, given the lock and its ghost depth d.\<close>

definition thread_ok :: "spinlock \<Rightarrow> nat \<Rightarrow> spin_pc \<Rightarrow> nat \<Rightarrow> bool" where
  "thread_ok l t p d \<longleftrightarrow>
     (t = 0 \<longrightarrow> p = Outside \<and> d = 0) \<and>
     (t \<noteq> 0 \<longrightarrow> t \<noteq> owner l \<longrightarrow> d = 0 \<and> p \<in> {Outside, Lock_check, Lock_test, Lock_cas, Unlock_check}) \<and>
     (t \<noteq> 0 \<longrightarrow> t = owner l \<longrightarrow>
        (case p of
           Outside \<Rightarrow> 0 < d \<and> lock_count l = int d
         | Lock_check \<Rightarrow> 0 < d \<and> lock_count l = int d
         | Unlock_check \<Rightarrow> 0 < d \<and> lock_count l = int d
         | Lock_load \<Rightarrow> lock_count l = int d
         | Lock_store c \<Rightarrow> lock_count l = int d \<and> c = int d
         | Unlock_load \<Rightarrow> 0 < d \<and> lock_count l = int d
         | Unlock_store c \<Rightarrow> 0 < d \<and> lock_count l = int d \<and> c = int d
         | Unlock_test \<Rightarrow> 0 < d \<and> lock_count l = int d - 1
         | Unlock_clear \<Rightarrow> d = 1 \<and> lock_count l = 0
         | _ \<Rightarrow> False))"

definition spin_inv :: "spin_state \<Rightarrow> bool" where
  "spin_inv s \<longleftrightarrow> (\<forall>t. thread_ok (sp_lock s) t (sp_pc s t) (sp_depth s t)) \<and>
     (owner (sp_lock s) = 0 \<longrightarrow> lock_count (sp_lock s) = 0)"

lemma goto_simps [simp]: "sp_lock (goto s t p) = sp_lock s" "sp_pc (goto s t p) = (sp_pc s)(t := p)"
  "sp_depth (goto s t p) = sp_depth s"
  by (simp_all add: goto_def)

lemma spin_inv_init: "spin_inv spin_init"
  by (simp add: spin_inv_def spin_init_def spin_create_def thread_ok_def)

lemma thread_ok_other:
  "thread_ok l u p d \<Longrightarrow> u \<noteq> t \<Longrightarrow> t = owner l \<or> owner l = 0 \<Longrightarrow> owner l' = t \<or> owner l' = 0 \<Longrightarrow> thread_ok l' u p d"
  by (auto simp: thread_ok_def)

lemma spin_inv_thread:
  assumes "spin_inv s"
  shows "thread_ok (sp_lock s) t (sp_pc s t) (sp_depth s t)"
  using assms by (simp add: spin_inv_def)

text \<open>A step changes at most its own thread's place and depth and, when it owns the lock or nobody
  does, the lock.\<close>

lemma spin_inv_upd:
  assumes "spin_inv s" and "thread_ok l t p d"
    and "l = sp_lock s \<or> (t = owner (sp_lock s) \<or> owner (sp_lock s) = 0) \<and> (owner l = t \<or> owner l = 0)"
    and "owner l = 0 \<longrightarrow> lock_count l = 0"
    and "sp_lock s' = l" and "sp_pc s' = (sp_pc s)(t := p)"
    and "sp_depth s' t = d" and "\<forall>u. u \<noteq> t \<longrightarrow> sp_depth s' u = sp_depth s u"
  shows "spin_inv s'"
proof -
  have "thread_ok l u (sp_pc s u) (sp_depth s u)" if "u \<noteq> t" for u
    using spin_inv_thread [OF assms(1), of u] assms(3) that by (auto intro: thread_ok_other)
  then show ?thesis using assms(2,4-8) by (auto simp: spin_inv_def)
qed

lemma spin_lock_cases [consumes 1, case_names check_mine check_other test cas fail load store]:
  assumes "spin_lock s t = Some s'"
  obtains "sp_pc s t = Lock_check" "t = owner (sp_lock s)" "s' = goto s t Lock_load"
    | "sp_pc s t = Lock_check" "t \<noteq> owner (sp_lock s)" "s' = goto s t Lock_test"
    | p where "sp_pc s t = Lock_test" "p = Lock_test \<or> p = Lock_cas" "s' = goto s t p"
    | "sp_pc s t = Lock_cas" "owner (sp_lock s) = 0" "s' = goto (s\<lparr>sp_lock := (sp_lock s)\<lparr>owner := t\<rparr>\<rparr>) t Lock_load"
    | "sp_pc s t = Lock_cas" "s' = goto s t Lock_test"
    | "sp_pc s t = Lock_load" "s' = goto s t (Lock_store (lock_count (sp_lock s)))"
    | c where "sp_pc s t = Lock_store c" "s' = goto (s\<lparr>sp_lock := (sp_lock s)\<lparr>lock_count := c + 1\<rparr>,
        sp_depth := (sp_depth s)(t := sp_depth s t + 1)\<rparr>) t Outside"
  using assms by (cases "sp_pc s t") (force simp: spin_lock_def split: if_splits)+

lemma spin_unlock_cases [consumes 1, case_names check_mine check_other load store test_more test_last clear]:
  assumes "spin_unlock s t = Some s'"
  obtains "sp_pc s t = Unlock_check" "t = owner (sp_lock s)" "s' = goto s t Unlock_load"
    | "sp_pc s t = Unlock_check" "t \<noteq> owner (sp_lock s)" "s' = goto s t Outside"
    | "sp_pc s t = Unlock_load" "s' = goto s t (Unlock_store (lock_count (sp_lock s)))"
    | c where "sp_pc s t = Unlock_store c" "s' = goto (s\<lparr>sp_lock := (sp_lock s)\<lparr>lock_count := c - 1\<rparr>\<rparr>) t Unlock_test"
    | "sp_pc s t = Unlock_test" "lock_count (sp_lock s) \<noteq> 0"
      "s' = goto (s\<lparr>sp_depth := (sp_depth s)(t := sp_depth s t - 1)\<rparr>) t Outside"
    | "sp_pc s t = Unlock_test" "lock_count (sp_lock s) = 0" "s' = goto s t Unlock_clear"
    | "sp_pc s t = Unlock_clear" "s' = goto (s\<lparr>sp_lock := (sp_lock s)\<lparr>owner := 0\<rparr>,
        sp_depth := (sp_depth s)(t := sp_depth s t - 1)\<rparr>) t Outside"
  using assms by (cases "sp_pc s t") (force simp: spin_unlock_def split: if_splits)+

lemma spin_inv_lock:
  assumes "spin_inv s" and "spin_lock s t = Some s'"
  shows "spin_inv s'"
proof -
  have ok: "thread_ok (sp_lock s) t (sp_pc s t) (sp_depth s t)" by (rule spin_inv_thread [OF assms(1)])
  have z: "owner (sp_lock s) = 0 \<longrightarrow> lock_count (sp_lock s) = 0" using assms(1) by (simp add: spin_inv_def)
  note upd = spin_inv_upd [OF assms(1)]
  from assms(2) show ?thesis
  proof (cases rule: spin_lock_cases)
    case check_mine
    show ?thesis by (rule upd [of "sp_lock s" t Lock_load "sp_depth s t"]) (use ok z check_mine in \<open>auto simp: thread_ok_def goto_def\<close>)
  next
    case check_other
    show ?thesis by (rule upd [of "sp_lock s" t Lock_test "sp_depth s t"]) (use ok z check_other in \<open>auto simp: thread_ok_def goto_def\<close>)
  next
    case (test p)
    show ?thesis by (rule upd [of "sp_lock s" t p "sp_depth s t"]) (use ok z test in \<open>auto simp: thread_ok_def goto_def\<close>)
  next
    case cas
    show ?thesis by (rule upd [of "(sp_lock s)\<lparr>owner := t\<rparr>" t Lock_load "sp_depth s t"]) (use ok z cas in \<open>auto simp: thread_ok_def goto_def\<close>)
  next
    case fail
    show ?thesis by (rule upd [of "sp_lock s" t Lock_test "sp_depth s t"]) (use ok z fail in \<open>auto simp: thread_ok_def goto_def\<close>)
  next
    case load
    show ?thesis by (rule upd [of "sp_lock s" t "Lock_store (lock_count (sp_lock s))" "sp_depth s t"])
        (use ok z load in \<open>auto simp: thread_ok_def goto_def\<close>)
  next
    case (store c)
    show ?thesis by (rule upd [of "(sp_lock s)\<lparr>lock_count := c + 1\<rparr>" t Outside "sp_depth s t + 1"])
        (use ok z store in \<open>auto simp: thread_ok_def goto_def\<close>)
  qed
qed

lemma spin_inv_unlock:
  assumes "spin_inv s" and "spin_unlock s t = Some s'"
  shows "spin_inv s'"
proof -
  have ok: "thread_ok (sp_lock s) t (sp_pc s t) (sp_depth s t)" by (rule spin_inv_thread [OF assms(1)])
  have z: "owner (sp_lock s) = 0 \<longrightarrow> lock_count (sp_lock s) = 0" using assms(1) by (simp add: spin_inv_def)
  note upd = spin_inv_upd [OF assms(1)]
  from assms(2) show ?thesis
  proof (cases rule: spin_unlock_cases)
    case check_mine
    show ?thesis by (rule upd [of "sp_lock s" t Unlock_load "sp_depth s t"]) (use ok z check_mine in \<open>auto simp: thread_ok_def goto_def\<close>)
  next
    case check_other
    show ?thesis by (rule upd [of "sp_lock s" t Outside "sp_depth s t"]) (use ok z check_other in \<open>auto simp: thread_ok_def goto_def\<close>)
  next
    case load
    show ?thesis by (rule upd [of "sp_lock s" t "Unlock_store (lock_count (sp_lock s))" "sp_depth s t"])
        (use ok z load in \<open>auto simp: thread_ok_def goto_def\<close>)
  next
    case (store c)
    show ?thesis by (rule upd [of "(sp_lock s)\<lparr>lock_count := c - 1\<rparr>" t Unlock_test "sp_depth s t"])
        (use ok z store in \<open>auto simp: thread_ok_def goto_def\<close>)
  next
    case test_more
    show ?thesis by (rule upd [of "sp_lock s" t Outside "sp_depth s t - 1"])
        (use ok z test_more in \<open>auto simp: thread_ok_def goto_def\<close>)
  next
    case test_last
    show ?thesis by (rule upd [of "sp_lock s" t Unlock_clear "sp_depth s t"])
        (use ok z test_last in \<open>auto simp: thread_ok_def goto_def\<close>)
  next
    case clear
    show ?thesis by (rule upd [of "(sp_lock s)\<lparr>owner := 0\<rparr>" t Outside "sp_depth s t - 1"])
        (use ok z clear in \<open>auto simp: thread_ok_def goto_def\<close>)
  qed
qed

lemma spin_inv_step:
  assumes "spin_inv s" and "spin_step s s'"
  shows "spin_inv s'"
  using assms(2)
proof cases
  case (call_lock t)
  show ?thesis
    by (rule spin_inv_upd [OF assms(1), of "sp_lock s" t Lock_check "sp_depth s t"])
      (use spin_inv_thread [OF assms(1), of t] assms(1) call_lock in \<open>auto simp: thread_ok_def goto_def spin_inv_def\<close>)
next
  case (call_unlock t)
  show ?thesis
    by (rule spin_inv_upd [OF assms(1), of "sp_lock s" t Unlock_check "sp_depth s t"])
      (use spin_inv_thread [OF assms(1), of t] assms(1) call_unlock in \<open>auto simp: thread_ok_def goto_def spin_inv_def\<close>)
qed (use assms(1) spin_inv_lock spin_inv_unlock in blast)+

section \<open>The abstract lock\<close>

text \<open>Holder and number of holds; (0, 0) when it is free.\<close>

inductive lock_spec :: "nat \<times> nat \<Rightarrow> nat \<times> nat \<Rightarrow> bool" where
  spec_take: "t \<noteq> 0 \<Longrightarrow> lock_spec (0, 0) (t, 1)"
| spec_again: "t \<noteq> 0 \<Longrightarrow> 0 < n \<Longrightarrow> lock_spec (t, n) (t, n + 1)"
| spec_drop: "t \<noteq> 0 \<Longrightarrow> 0 < n \<Longrightarrow> lock_spec (t, n + 1) (t, n)"
| spec_free: "t \<noteq> 0 \<Longrightarrow> lock_spec (t, 1) (0, 0)"

inductive_simps lock_spec_simps: "lock_spec (t, n) (u, m)"

definition lock_of :: "spin_state \<Rightarrow> nat \<times> nat" where
  "lock_of s = (if 0 < sp_depth s (owner (sp_lock s))
     then (owner (sp_lock s), sp_depth s (owner (sp_lock s))) else (0, 0))"

lemma spin_simulates:
  assumes "spin_inv s" and "spin_step s s'"
  shows "lock_of s' = lock_of s \<or> lock_spec (lock_of s) (lock_of s')"
  using assms(2)
proof cases
  case (in_lock t)
  have ok: "thread_ok (sp_lock s) t (sp_pc s t) (sp_depth s t)"
    and ok0: "thread_ok (sp_lock s) 0 (sp_pc s 0) (sp_depth s 0)"
    by (rule spin_inv_thread [OF assms(1)])+
  from in_lock show ?thesis
  proof (cases rule: spin_lock_cases)
    case cas
    then have "sp_depth s t = 0" "sp_depth s 0 = 0" using ok ok0 by (auto simp: thread_ok_def)
    then show ?thesis using cas by (simp add: lock_of_def)
  next
    case (store c)
    then have t: "t = owner (sp_lock s)" "t \<noteq> 0" using ok by (auto simp: thread_ok_def)
    then show ?thesis using store by (auto simp: lock_of_def lock_spec_simps)
  qed (auto simp: lock_of_def)
next
  case (in_unlock t)
  have ok: "thread_ok (sp_lock s) t (sp_pc s t) (sp_depth s t)"
    and ok0: "thread_ok (sp_lock s) 0 (sp_pc s 0) (sp_depth s 0)"
    by (rule spin_inv_thread [OF assms(1)])+
  from in_unlock show ?thesis
  proof (cases rule: spin_unlock_cases)
    case test_more
    then have t: "t = owner (sp_lock s)" "t \<noteq> 0" "1 < sp_depth s t" using ok by (auto simp: thread_ok_def)
    then obtain n where "sp_depth s t = n + 1" "0 < n" by (metis Suc_eq_plus1 Suc_lessE less_Suc_eq_0_disj One_nat_def)
    then show ?thesis using test_more t by (auto simp: lock_of_def lock_spec_simps)
  next
    case clear
    then have t: "t = owner (sp_lock s)" "t \<noteq> 0" "sp_depth s t = 1" using ok by (auto simp: thread_ok_def)
    moreover have "sp_depth s 0 = 0" using ok0 by (simp add: thread_ok_def)
    ultimately show ?thesis using clear by (auto simp: lock_of_def lock_spec_simps)
  qed (auto simp: lock_of_def)
qed (simp_all add: lock_of_def)

interpretation spin: simulation_system spin_init spin_step spin_inv lock_of lock_spec
  by unfold_locales (blast intro: spin_inv_init spin_inv_step dest: spin_simulates)+

section \<open>Properties\<close>


text \<open>The lock is reentrant and keeps count: when the owner is outside the two functions, the
  counter is the number of its calls of spin_lock that have not been undone, and when nobody owns the
  lock the counter is 0.\<close>

theorem spinlock_counts_holds:
  assumes "reach spin_init spin_step s" and "sp_pc s (owner (sp_lock s)) = Outside"
  shows "lock_count (sp_lock s) = int (sp_depth s (owner (sp_lock s)))"
proof -
  have inv: "spin_inv s" by (rule spin.reach_inv [OF assms(1)])
  have ok: "thread_ok (sp_lock s) (owner (sp_lock s)) (sp_pc s (owner (sp_lock s))) (sp_depth s (owner (sp_lock s)))"
    by (rule spin_inv_thread [OF inv])
  show ?thesis
  proof (cases "owner (sp_lock s) = 0")
    case True
    then show ?thesis using ok inv by (simp add: thread_ok_def spin_inv_def)
  next
    case False
    then show ?thesis using ok assms(2) by (simp add: thread_ok_def)
  qed
qed


text \<open>Thread 5 takes the lock while thread 6 spins.\<close>

definition spin_ex :: spin_state where
  "spin_ex = \<lparr>sp_lock = \<lparr>owner = 5, lock_count = 1\<rparr>, sp_pc = (\<lambda>_. Outside)(6 := Lock_test),
     sp_depth = (\<lambda>_. 0)(5 := 1)\<rparr>"

lemma spin_ex_reach: "reach spin_init spin_step spin_ex"
proof -
  let ?s1 = "goto spin_init 5 Lock_check"
  let ?s2 = "goto ?s1 5 Lock_test"
  let ?s3 = "goto ?s2 5 Lock_cas"
  let ?s4 = "goto (?s3\<lparr>sp_lock := (sp_lock ?s3)\<lparr>owner := 5\<rparr>\<rparr>) 5 Lock_load"
  let ?s5 = "goto ?s4 5 (Lock_store 0)"
  let ?s6 = "goto (?s5\<lparr>sp_lock := (sp_lock ?s5)\<lparr>lock_count := 0 + 1\<rparr>, sp_depth := (sp_depth ?s5)(5 := 0 + 1)\<rparr>) 5 Outside"
  let ?s7 = "goto ?s6 6 Lock_check"
  let ?s8 = "goto ?s7 6 Lock_test"
  note d = spin_init_def spin_create_def
  have "spin_step spin_init ?s1" by (rule call_lock) (simp_all add: d)
  moreover have "spin_step ?s1 ?s2" by (rule in_lock [of _ 5]) (simp add: spin_lock_def d goto_def)
  moreover have "spin_step ?s2 ?s3" by (rule in_lock [of _ 5]) (simp add: spin_lock_def d goto_def)
  moreover have "spin_step ?s3 ?s4" by (rule in_lock [of _ 5]) (simp add: spin_lock_def d goto_def)
  moreover have "spin_step ?s4 ?s5" by (rule in_lock [of _ 5]) (simp add: spin_lock_def d goto_def)
  moreover have "spin_step ?s5 ?s6" by (rule in_lock [of _ 5]) (simp add: spin_lock_def d goto_def)
  moreover have "spin_step ?s6 ?s7" by (rule call_lock) (simp_all add: d)
  moreover have "spin_step ?s7 ?s8" by (rule in_lock [of _ 6]) (simp add: spin_lock_def d goto_def)
  ultimately have "reach spin_init spin_step ?s8" by (meson reach.intros)
  moreover have "?s8 = spin_ex" by (simp add: spin_ex_def goto_def d fun_eq_iff)
  ultimately show ?thesis by simp
qed


lemma spinlock_counts_holds_witness: "lock_count (sp_lock spin_ex) = 1"
  using spinlock_counts_holds [OF spin_ex_reach] by (simp add: spin_ex_def)


end
