(* ===== verification/Double_Link.thy ===== *)
theory Double_Link
  imports Node_Queue
begin

text \<open>
  The intrusive double linked list of src/epoll_mutilthread/include/double_link.h.  A node has a
  pre and a next pointer; a list is the two sentinel nodes embedded in \<^verbatim>\<open>struct double_link\<close>, whose
  addresses the header record holds.  Every statement of the code is one read or one write of the
  heap, in the order of the code; an access outside the heap is the value None.
\<close>

section \<open>State\<close>

record dl_node =
  dl_pre :: addr
  dl_next :: addr

type_synonym dheap = "addr \<rightharpoonup> dl_node"

record double_link =
  dl_head :: addr
  dl_tail :: addr

definition dl_get :: "dheap \<Rightarrow> addr \<Rightarrow> dl_node option" where
  "dl_get h a = (if a = NULL then None else h a)"

definition dl_set_pre :: "dheap \<Rightarrow> addr \<Rightarrow> addr \<Rightarrow> dheap option" where
  "dl_set_pre h a v = do { n \<leftarrow> dl_get h a; Some (h(a \<mapsto> n\<lparr>dl_pre := v\<rparr>)) }"

definition dl_set_next :: "dheap \<Rightarrow> addr \<Rightarrow> addr \<Rightarrow> dheap option" where
  "dl_set_next h a v = do { n \<leftarrow> dl_get h a; Some (h(a \<mapsto> n\<lparr>dl_next := v\<rparr>)) }"

section \<open>Operations\<close>

definition double_link_empty :: "dheap \<Rightarrow> double_link \<Rightarrow> bool option" where
  "double_link_empty h dl = do { n \<leftarrow> dl_get h (dl_head dl); Some (dl_next n = dl_tail dl) }"

definition double_link_first :: "dheap \<Rightarrow> double_link \<Rightarrow> addr option" where
  "double_link_first h dl = do {
     e \<leftarrow> double_link_empty h dl;
     if e then Some NULL
     else do { n \<leftarrow> dl_get h (dl_head dl); Some (dl_next n) }
   }"

definition double_link_last :: "dheap \<Rightarrow> double_link \<Rightarrow> addr option" where
  "double_link_last h dl = do {
     e \<leftarrow> double_link_empty h dl;
     if e then Some NULL
     else do { n \<leftarrow> dl_get h (dl_tail dl); Some (dl_pre n) }
   }"

definition double_link_remove :: "dheap \<Rightarrow> addr \<Rightarrow> (int \<times> dheap) option" where
  "double_link_remove h dln = do {
     n \<leftarrow> dl_get h dln;
     if dl_pre n = NULL \<or> dl_next n = NULL then Some (-1, h)
     else do {
       h \<leftarrow> dl_set_next h (dl_pre n) (dl_next n);
       n \<leftarrow> dl_get h dln;
       h \<leftarrow> dl_set_pre h (dl_next n) (dl_pre n);
       h \<leftarrow> dl_set_next h dln NULL;
       h \<leftarrow> dl_set_pre h dln NULL;
       Some (0, h)
     }
   }"

definition double_link_pop :: "dheap \<Rightarrow> double_link \<Rightarrow> (addr \<times> dheap) option" where
  "double_link_pop h dl = do {
     e \<leftarrow> double_link_empty h dl;
     if e then Some (NULL, h)
     else do {
       hd \<leftarrow> dl_get h (dl_head dl);
       let n = dl_next hd;
       (_, h) \<leftarrow> double_link_remove h n;
       Some (n, h)
     }
   }"

definition double_link_push :: "dheap \<Rightarrow> double_link \<Rightarrow> addr \<Rightarrow> (int \<times> dheap) option" where
  "double_link_push h dl dln = do {
     n \<leftarrow> dl_get h dln;
     if dl_pre n \<noteq> NULL \<or> dl_next n \<noteq> NULL then Some (-1, h)
     else do {
       t \<leftarrow> dl_get h (dl_tail dl);
       h \<leftarrow> dl_set_next h (dl_pre t) dln;
       t \<leftarrow> dl_get h (dl_tail dl);
       h \<leftarrow> dl_set_pre h dln (dl_pre t);
       h \<leftarrow> dl_set_pre h (dl_tail dl) dln;
       h \<leftarrow> dl_set_next h dln (dl_tail dl);
       Some (0, h)
     }
   }"

definition double_link_clear :: "dheap \<Rightarrow> double_link \<Rightarrow> dheap option" where
  "double_link_clear h dl = do {
     h \<leftarrow> dl_set_next h (dl_tail dl) NULL;
     h \<leftarrow> dl_set_pre h (dl_head dl) NULL;
     h \<leftarrow> dl_set_next h (dl_head dl) (dl_tail dl);
     dl_set_pre h (dl_tail dl) (dl_head dl)
   }"

lemmas [list_ops] = dl_get_def dl_set_pre_def dl_set_next_def double_link_empty_def double_link_first_def double_link_last_def
  double_link_remove_def double_link_pop_def double_link_push_def double_link_clear_def

section \<open>Abstraction\<close>

text \<open>
  The nodes of a list, between the sentinels, form a chain in which each pair of neighbours is
  linked both ways.
\<close>

fun dl_linked :: "dheap \<Rightarrow> addr list \<Rightarrow> bool" where
  "dl_linked h (a # b # as) =
     ((case (h a, h b) of (Some x, Some y) \<Rightarrow> dl_next x = b \<and> dl_pre y = a | _ \<Rightarrow> False) \<and>
      dl_linked h (b # as))"
| "dl_linked h _ = True"

definition dl_repr :: "dheap \<Rightarrow> double_link \<Rightarrow> addr list \<Rightarrow> bool" where
  "dl_repr h dl xs \<longleftrightarrow>
     (let ns = dl_head dl # xs @ [dl_tail dl]
      in dl_linked h ns \<and> distinct ns \<and> NULL \<notin> set ns)"

definition dl_free :: "dheap \<Rightarrow> addr \<Rightarrow> bool" where
  "dl_free h n \<longleftrightarrow> n \<noteq> NULL \<and> h n = Some \<lparr>dl_pre = NULL, dl_next = NULL\<rparr>"

definition dl_foot :: "double_link \<Rightarrow> addr set" where
  "dl_foot dl = {dl_head dl, dl_tail dl}"

lemma dl_linked_append:
  "dl_linked h (as @ a # bs) \<longleftrightarrow> dl_linked h (as @ [a]) \<and> dl_linked h (a # bs)"
proof (induction as)
  case Nil
  then show ?case by (cases bs) auto
next
  case (Cons x xs)
  then show ?case by (cases xs) auto
qed

lemma dl_linked_cong: "\<lbrakk>\<And>a. a \<in> set ns \<Longrightarrow> h' a = h a\<rbrakk> \<Longrightarrow> dl_linked h' ns = dl_linked h ns"
  by (induction h ns rule: dl_linked.induct) (auto split: option.splits)

lemma dl_linked_upd: "n \<notin> set ns \<Longrightarrow> dl_linked (h(n := v)) ns = dl_linked h ns"
  by (rule dl_linked_cong) auto

lemma dl_linked_front_cong:
  assumes "\<And>x. x \<in> set as \<Longrightarrow> h' x = h x" and "map_option dl_pre (h' a) = map_option dl_pre (h a)"
  shows "dl_linked h' (as @ [a]) = dl_linked h (as @ [a])"
proof (cases as rule: rev_cases)
  case (snoc bs b)
  have "dl_linked h' (bs @ [b]) = dl_linked h (bs @ [b])"
    using assms(1) snoc by (intro dl_linked_cong) auto
  moreover have "dl_linked h' [b, a] = dl_linked h [b, a]"
    using assms snoc by (cases "h' a"; cases "h a") (auto split: option.splits)
  ultimately show ?thesis using snoc dl_linked_append [of _ bs b "[a]"] by simp
qed simp

lemma dl_linked_back_cong:
  assumes "\<And>x. x \<in> set bs \<Longrightarrow> h' x = h x" and "map_option dl_next (h' a) = map_option dl_next (h a)"
  shows "dl_linked h' (a # bs) = dl_linked h (a # bs)"
proof (cases bs)
  case (Cons b cs)
  have "dl_linked h' (b # cs) = dl_linked h (b # cs)"
    using assms(1) Cons by (intro dl_linked_cong) auto
  then show ?thesis
    using assms Cons by (cases "h' a"; cases "h a") (auto split: option.splits)
qed simp

lemma dl_linked_pair:
  "dl_linked h (as @ a # b # bs) \<Longrightarrow> \<exists>x y. h a = Some x \<and> h b = Some y \<and> dl_next x = b \<and> dl_pre y = a"
  by (subst (asm) dl_linked_append) (auto split: option.splits)

lemma dl_repr_ns:
  "dl_head dl # xs @ [dl_tail dl] = ns \<Longrightarrow>
     dl_repr h dl xs \<longleftrightarrow> dl_linked h ns \<and> distinct ns \<and> NULL \<notin> set ns"
  by (simp add: dl_repr_def Let_def)

text \<open>The nodes around an inner node, and around the end of the list.\<close>

lemma dl_repr_split:
  assumes "dl_repr h dl (xs @ n # ys)"
  obtains A p q B where "dl_head dl # xs @ n # ys @ [dl_tail dl] = A @ p # n # q # B"
    "A @ [p] = dl_head dl # xs" "q # B = ys @ [dl_tail dl]"
proof -
  obtain A p where A: "dl_head dl # xs = A @ [p]" by (metis append_butlast_last_id list.distinct(1))
  obtain q B where B: "ys @ [dl_tail dl] = q # B" by (cases "ys @ [dl_tail dl]") auto
  have "dl_head dl # xs @ n # ys @ [dl_tail dl] = (dl_head dl # xs) @ n # (ys @ [dl_tail dl])" by simp
  also have "\<dots> = A @ p # n # q # B" by (simp only: A B) simp
  finally show thesis using that A B by metis
qed

lemma double_link_remove_repr:
  assumes r: "dl_repr h dl (xs @ n # ys)"
  obtains h' where "double_link_remove h n = Some (0, h')" "dl_repr h' dl (xs @ ys)" "dl_free h' n"
    "\<And>m. m \<notin> set (xs @ n # ys) \<union> dl_foot dl \<Longrightarrow> h' m = h m" "dom h' = dom h"
proof -
  obtain A p q B where s: "dl_head dl # xs @ n # ys @ [dl_tail dl] = A @ p # n # q # B"
    and A: "A @ [p] = dl_head dl # xs" and B: "q # B = ys @ [dl_tail dl]"
    by (rule dl_repr_split [OF r])
  have l: "dl_linked h (A @ p # n # q # B)" and d: "distinct (A @ p # n # q # B)"
    and nn: "NULL \<notin> set (A @ p # n # q # B)"
    using r s by (simp_all add: dl_repr_def Let_def)
  obtain P N where pn: "h p = Some P" "h n = Some N" "dl_next P = n" "dl_pre N = p"
    using dl_linked_pair [OF l] by auto
  obtain Q where nq: "h q = Some Q" "dl_next N = q" "dl_pre Q = n"
    using dl_linked_pair [of h "A @ [p]" n q B] l pn(2) by auto
  let ?h = "h(p \<mapsto> P\<lparr>dl_next := q\<rparr>, q \<mapsto> Q\<lparr>dl_pre := p\<rparr>, n \<mapsto> \<lparr>dl_pre = NULL, dl_next = NULL\<rparr>)"
  have "double_link_remove h n = Some (0, ?h)"
    using pn nq d nn
    by (auto simp: double_link_remove_def dl_get_def dl_set_next_def dl_set_pre_def fun_upd_twist)
  moreover have "dl_linked ?h (A @ p # q # B)"
  proof -
    have lf: "dl_linked h (A @ [p])" and lb: "dl_linked h (q # B)"
      using l dl_linked_append [of h A p "n # q # B"] dl_linked_append [of h "A @ [p, n]" q B] by auto
    have "dl_linked ?h (A @ [p])"
      using lf d pn by (subst dl_linked_front_cong [of A ?h h p]) auto
    moreover have "dl_linked ?h (q # B)"
      using lb d nq by (subst dl_linked_back_cong [of B ?h h q]) auto
    moreover have "(case (?h p, ?h q) of (Some x, Some y) \<Rightarrow> dl_next x = q \<and> dl_pre y = p | _ \<Rightarrow> False)"
      using d by auto
    ultimately show ?thesis using dl_linked_append [of ?h A p "q # B"] by auto
  qed
  moreover have ns: "dl_head dl # (xs @ ys) @ [dl_tail dl] = A @ p # q # B"
    using A B by (metis append.assoc append_Cons append_Nil)
  moreover have "dl_free ?h n" using nn by (auto simp: dl_free_def)
  moreover have "m \<notin> {p, q, n}" if "m \<notin> set (xs @ n # ys) \<union> dl_foot dl" for m
  proof -
    have "p \<in> set (dl_head dl # xs)" by (simp only: A [symmetric]) simp
    moreover have "q \<in> set (ys @ [dl_tail dl])" by (simp only: B [symmetric]) simp
    ultimately show ?thesis using that by (auto simp: dl_foot_def)
  qed
  ultimately show thesis
    using d nn pn(1,2) nq(1) by (intro that [of ?h]) (auto simp: dl_repr_def Let_def simp flip: append_assoc)
qed

lemma double_link_empty_repr:
  assumes "dl_repr h dl xs"
  shows "double_link_empty h dl = Some (xs = [])"
    and "double_link_first h dl = Some (case xs of [] \<Rightarrow> NULL | x # _ \<Rightarrow> x)"
    and "double_link_last h dl = Some (if xs = [] then NULL else last xs)"
proof -
  have head: "\<exists>x. dl_get h (dl_head dl) = Some x \<and> dl_next x = hd (xs @ [dl_tail dl])"
    using assms dl_linked_pair [of h "[]" "dl_head dl" "hd (xs @ [dl_tail dl])" "tl (xs @ [dl_tail dl])"]
    by (auto simp: dl_repr_def Let_def dl_get_def)
  obtain A p where A: "dl_head dl # xs = A @ [p]" by (metis append_butlast_last_id list.distinct(1))
  have ns: "dl_head dl # xs @ [dl_tail dl] = A @ p # [dl_tail dl]"
    using A by (metis append.assoc append_Cons append_Nil)
  have "dl_linked h (A @ p # [dl_tail dl])" using assms dl_repr_ns [OF ns] by blast
  then have "\<exists>x. h (dl_tail dl) = Some x \<and> dl_pre x = p" using dl_linked_pair by blast
  moreover have "p = last (dl_head dl # xs)" by (simp only: A) simp
  ultimately have tail: "\<exists>x. dl_get h (dl_tail dl) = Some x \<and> dl_pre x = last (dl_head dl # xs)"
    using assms by (auto simp: dl_repr_def Let_def dl_get_def)
  have ne: "hd (xs @ [dl_tail dl]) = dl_tail dl \<longleftrightarrow> xs = []"
    using assms by (cases xs) (auto simp: dl_repr_def Let_def)
  show 1: "double_link_empty h dl = Some (xs = [])"
    using head ne by (auto simp: double_link_empty_def)
  show "double_link_first h dl = Some (case xs of [] \<Rightarrow> NULL | x # _ \<Rightarrow> x)"
    using head by (auto simp: double_link_first_def 1 split: list.splits)
  show "double_link_last h dl = Some (if xs = [] then NULL else last xs)"
    using tail by (auto simp: double_link_last_def 1)
qed

lemma double_link_pop_repr:
  assumes r: "dl_repr h dl (x # xs)"
  obtains h' where "double_link_pop h dl = Some (x, h')" "dl_repr h' dl xs" "dl_free h' x"
    "\<And>m. m \<notin> set (x # xs) \<union> dl_foot dl \<Longrightarrow> h' m = h m" "dom h' = dom h"
proof -
  obtain h' where h': "double_link_remove h x = Some (0, h')" "dl_repr h' dl xs" "dl_free h' x"
    "\<And>m. m \<notin> set (x # xs) \<union> dl_foot dl \<Longrightarrow> h' m = h m" "dom h' = dom h"
    using double_link_remove_repr [of h dl "[]" x xs] r by auto
  have hd: "\<exists>d. dl_get h (dl_head dl) = Some d \<and> dl_next d = x"
    using r dl_linked_pair [of h "[]" "dl_head dl" x "xs @ [dl_tail dl]"]
    by (auto simp: dl_repr_def Let_def dl_get_def)
  have "double_link_pop h dl = Some (x, h')"
    using hd h'(1) by (auto simp: double_link_pop_def double_link_empty_repr(1) [OF r])
  with h' that show thesis by blast
qed

lemma double_link_push_repr:
  assumes r: "dl_repr h dl xs" and n: "dl_free h n" "n \<notin> set xs" "n \<notin> dl_foot dl"
  obtains h' where "double_link_push h dl n = Some (0, h')" "dl_repr h' dl (xs @ [n])"
    "\<And>m. m \<notin> insert n (set xs) \<union> dl_foot dl \<Longrightarrow> h' m = h m" "dom h' = dom h"
proof -
  let ?t = "dl_tail dl"
  obtain A p where A: "dl_head dl # xs = A @ [p]" by (metis append_butlast_last_id list.distinct(1))
  have ns: "dl_head dl # xs @ [?t] = A @ p # [?t]" using A by (metis append.assoc append_Cons append_Nil)
  have l: "dl_linked h (A @ p # [?t])" and d: "distinct (A @ p # [?t])" and nn: "NULL \<notin> set (A @ p # [?t])"
    using r ns by (simp_all add: dl_repr_def Let_def)
  have nA: "n \<notin> set (A @ p # [?t])" using n(2,3) by (simp only: ns [symmetric]) (auto simp: dl_foot_def)
  obtain P T where pt: "h p = Some P" "h ?t = Some T" "dl_next P = ?t" "dl_pre T = p"
    using dl_linked_pair [OF l] by auto
  let ?h = "h(p \<mapsto> P\<lparr>dl_next := n\<rparr>, ?t \<mapsto> T\<lparr>dl_pre := n\<rparr>, n \<mapsto> \<lparr>dl_pre = p, dl_next = ?t\<rparr>)"
  have push: "double_link_push h dl n = Some (0, ?h)"
    using pt d nn nA n(1)
    by (auto simp: double_link_push_def dl_get_def dl_set_next_def dl_set_pre_def dl_free_def fun_upd_twist)
  have "dl_linked ?h (A @ p # n # [?t])"
  proof -
    have "dl_linked h (A @ [p])" using l dl_linked_append [of h A p "[?t]"] by auto
    then have "dl_linked ?h (A @ [p])"
      using d pt nA by (subst dl_linked_front_cong [of A ?h h p]) auto
    moreover have "dl_linked ?h [p, n, ?t]" using d nA by auto
    ultimately show ?thesis using dl_linked_append [of ?h A p "[n, ?t]"] by auto
  qed
  moreover have ns': "dl_head dl # (xs @ [n]) @ [?t] = A @ p # n # [?t]" using A by simp
  ultimately have "dl_repr ?h dl (xs @ [n])" using d nn nA n(1) by (auto simp: dl_repr_ns [OF ns'] dl_free_def)
  moreover note push
  moreover have "m \<notin> {p, ?t, n}" if "m \<notin> insert n (set xs) \<union> dl_foot dl" for m
  proof -
    have "p \<in> set (dl_head dl # xs)" by (simp only: A) simp
    then show ?thesis using that by (auto simp: dl_foot_def)
  qed
  ultimately show thesis
    using n(1) pt(1,2) by (intro that [of ?h]) (auto simp: dl_free_def)
qed

lemma double_link_push_linked:
  assumes "dl_get h n = Some x" and "dl_pre x \<noteq> NULL \<or> dl_next x \<noteq> NULL"
  shows "double_link_push h dl n = Some (-1, h)"
  using assms by (auto simp: double_link_push_def)

lemma double_link_remove_free: "dl_free h n \<Longrightarrow> double_link_remove h n = Some (-1, h)"
  by (simp add: double_link_remove_def dl_free_def dl_get_def)

lemma dl_repr_linked:
  assumes "dl_repr h dl xs" and "n \<in> set xs"
  obtains x where "dl_get h n = Some x" "dl_pre x \<noteq> NULL" "dl_next x \<noteq> NULL"
proof -
  obtain ys zs where xs: "xs = ys @ n # zs" using assms(2) using split_list by metis
  have r: "dl_repr h dl (ys @ n # zs)" using assms(1) xs by simp
  obtain A p q B where s: "dl_head dl # ys @ n # zs @ [dl_tail dl] = A @ p # n # q # B"
    by (rule dl_repr_split [OF r])
  have l: "dl_linked h (A @ p # n # q # B)" and nn: "NULL \<notin> set (A @ p # n # q # B)"
    using r s by (simp_all add: dl_repr_def Let_def)
  obtain N where N: "h n = Some N" "dl_pre N = p" using dl_linked_pair [OF l] by blast
  have "dl_linked h ((A @ [p]) @ n # q # B)" using l by simp
  then have "dl_next N = q" using dl_linked_pair [of h "A @ [p]" n q B] N(1) by (metis option.inject)
  with N nn show thesis by (intro that [of N]) (simp_all add: dl_get_def)
qed

lemma dl_repr_dom: "dl_repr h dl xs \<Longrightarrow> set xs \<union> dl_foot dl \<subseteq> dom h"
proof -
  assume r: "dl_repr h dl xs"
  let ?ns = "dl_head dl # xs @ [dl_tail dl]"
  have l: "dl_linked h ?ns" using r by (simp add: dl_repr_def Let_def)
  have "a \<in> dom h" if "a \<in> set ?ns" for a
  proof -
    obtain as bs where s: "?ns = as @ a # bs" using split_list [OF \<open>a \<in> set ?ns\<close>] by blast
    show ?thesis
    proof (cases bs)
      case (Cons b cs)
      then have "dl_linked h (as @ a # b # cs)" using l s by simp
      from dl_linked_pair [OF this] show ?thesis by auto
    next
      case Nil
      then obtain as' p where as: "as = as' @ [p]" using s by (cases as rule: rev_cases) auto
      then have "dl_linked h (as' @ p # a # [])" using l s Nil by simp
      from dl_linked_pair [OF this] show ?thesis by auto
    qed
  qed
  then show ?thesis by (auto simp: dl_foot_def)
qed

lemma double_link_clear_repr:
  assumes "dl_head dl \<in> dom h" "dl_tail dl \<in> dom h" "dl_head dl \<noteq> NULL" "dl_tail dl \<noteq> NULL"
    "dl_head dl \<noteq> dl_tail dl"
  obtains h' where "double_link_clear h dl = Some h'" "dl_repr h' dl []"
    "\<And>m. m \<notin> dl_foot dl \<Longrightarrow> h' m = h m" "dom h' = dom h"
proof -
  obtain x y where "h (dl_head dl) = Some x" "h (dl_tail dl) = Some y" using assms by blast
  with assms that show thesis
    by (auto simp: double_link_clear_def dl_set_next_def dl_set_pre_def dl_get_def dl_repr_def dl_foot_def)
qed

section \<open>The list as a node queue\<close>

definition dl_push_node :: "dheap \<Rightarrow> double_link \<Rightarrow> addr \<Rightarrow> (dheap \<times> double_link) option" where
  "dl_push_node h dl n = do { (_, h) \<leftarrow> double_link_push h dl n; Some (h, dl) }"

definition dl_pop_node :: "dheap \<Rightarrow> double_link \<Rightarrow> (addr \<times> dheap \<times> double_link) option" where
  "dl_pop_node h dl = do { (n, h) \<leftarrow> double_link_pop h dl; Some (n, h, dl) }"

interpretation dlq: node_queue dl_repr dl_foot dl_free "\<lambda>_. True" dl_push_node dl_pop_node
proof unfold_locales
  fix h h' :: dheap and q xs
  assume r: "dl_repr h q xs" and eq: "\<And>a. a \<in> set xs \<union> dl_foot q \<Longrightarrow> h' a = h a"
  have "dl_linked h' (dl_head q # xs @ [dl_tail q]) = dl_linked h (dl_head q # xs @ [dl_tail q])"
    by (rule dl_linked_cong) (auto simp: eq dl_foot_def)
  with r show "dl_repr h' q xs" by (simp add: dl_repr_def Let_def)
next
  fix h q xs n
  assume a: "dl_repr h q xs" "dl_free h n" "n \<notin> set xs" "n \<notin> dl_foot q"
  obtain h' where "double_link_push h q n = Some (0, h')" "dl_repr h' q (xs @ [n])"
    "\<And>m. m \<notin> insert n (set xs) \<union> dl_foot q \<Longrightarrow> h' m = h m"
    by (rule double_link_push_repr [OF a]) blast
  then show "\<exists>h' q'. dl_push_node h q n = Some (h', q') \<and> dl_repr h' q' (xs @ [n]) \<and> dl_foot q' = dl_foot q \<and>
      (\<forall>m. m \<notin> insert n (set xs) \<union> dl_foot q \<longrightarrow> h' m = h m)"
    by (auto simp: dl_push_node_def)
next
  fix h q x xs
  assume a: "dl_repr h q (x # xs)"
  obtain h' where "double_link_pop h q = Some (x, h')" "dl_repr h' q xs" "dl_free h' x"
    "\<And>m. m \<notin> set (x # xs) \<union> dl_foot q \<Longrightarrow> h' m = h m"
    by (rule double_link_pop_repr [OF a]) blast
  then show "\<exists>h' q'. dl_pop_node h q = Some (x, h', q') \<and> dl_repr h' q' xs \<and> dl_free h' x \<and>
      dl_foot q' = dl_foot q \<and> (\<forall>m. m \<notin> set (x # xs) \<union> dl_foot q \<longrightarrow> h' m = h m)"
    by (auto simp: dl_pop_node_def)
next
  fix h q assume "dl_repr h q []"
  then show "dl_pop_node h q = Some (NULL, h, q)"
    by (simp add: dl_pop_node_def double_link_pop_def double_link_empty_repr)
qed (auto simp: dl_free_def dl_repr_def Let_def dl_foot_def)

text \<open>The operations of the code on a family of lists; the headers stay where they are.\<close>

lemma double_link_push_family:
  assumes "dlq.family h I q xs" and "i \<in> I" and "dl_free h n" and "\<And>j. j \<in> I \<Longrightarrow> n \<notin> set (xs j) \<union> dl_foot (q j)"
  obtains h' where "double_link_push h (q i) n = Some (0, h')" "dlq.family h' I q (xs(i := xs i @ [n]))"
    "\<And>m. m \<notin> insert n (set (xs i)) \<union> dl_foot (q i) \<Longrightarrow> h' m = h m" "dom h' = dom h"
proof -
  have r: "dl_repr h (q i) (xs i)" by (rule dlq.family_repr [OF assms(1,2)])
  obtain h' where 1: "double_link_push h (q i) n = Some (0, h')" "dl_repr h' (q i) (xs i @ [n])"
    "\<And>m. m \<notin> insert n (set (xs i)) \<union> dl_foot (q i) \<Longrightarrow> h' m = h m" "dom h' = dom h"
    by (rule double_link_push_repr [OF r assms(3)]) (use assms(2,4) in auto)
  have "dlq.family h' I (q(i := q i)) (xs(i := xs i @ [n]))"
    by (rule dlq.family_upd [OF assms(1,2) 1(2), of "{n}"]) (use 1(3) assms(4) in auto)
  with 1 that show thesis by simp
qed

lemma double_link_remove_family:
  assumes "dlq.family h I q xs" and "i \<in> I" and "xs i = as @ n # bs"
  obtains h' where "double_link_remove h n = Some (0, h')" "dlq.family h' I q (xs(i := as @ bs))" "dl_free h' n"
    "\<And>j. j \<in> I \<Longrightarrow> n \<notin> set ((xs(i := as @ bs)) j) \<union> dl_foot (q j)"
    "\<And>m. m \<notin> set (xs i) \<union> dl_foot (q i) \<Longrightarrow> h' m = h m" "dom h' = dom h"
proof -
  have r: "dl_repr h (q i) (as @ n # bs)" using dlq.family_repr [OF assms(1,2)] assms(3) by simp
  obtain h' where 1: "double_link_remove h n = Some (0, h')" "dl_repr h' (q i) (as @ bs)" "dl_free h' n"
    "\<And>m. m \<notin> set (as @ n # bs) \<union> dl_foot (q i) \<Longrightarrow> h' m = h m" "dom h' = dom h"
    by (rule double_link_remove_repr [OF r]) blast
  have fm: "dlq.family h' I (q(i := q i)) (xs(i := as @ bs))"
    by (rule dlq.family_upd [OF assms(1,2) 1(2), of "{}"]) (use 1(4) assms(3) in auto)
  have "n \<notin> set (as @ bs) \<union> dl_foot (q i)" using dlq.repr_distinct [OF r] by auto
  moreover have "n \<notin> set (xs j) \<union> dl_foot (q j)" if "j \<in> I" "j \<noteq> i" for j
    using dlq.family_disjoint [OF assms(1,2) that(1), of n] that(2) assms(3) by auto
  ultimately have "n \<notin> set ((xs(i := as @ bs)) j) \<union> dl_foot (q j)" if "j \<in> I" for j
    using that by (cases "j = i") auto
  with 1 fm that [of h'] assms(3) show thesis by simp
qed

lemma double_link_pop_family:
  assumes "dlq.family h I q xs" and "i \<in> I" and "xs i = n # bs"
  obtains h' where "double_link_pop h (q i) = Some (n, h')" "dlq.family h' I q (xs(i := bs))" "dl_free h' n"
    "\<And>j. j \<in> I \<Longrightarrow> n \<notin> set ((xs(i := bs)) j) \<union> dl_foot (q j)"
    "\<And>m. m \<notin> set (xs i) \<union> dl_foot (q i) \<Longrightarrow> h' m = h m" "dom h' = dom h"
proof -
  have r: "dl_repr h (q i) (n # bs)" using dlq.family_repr [OF assms(1,2)] assms(3) by simp
  obtain h' where 1: "double_link_pop h (q i) = Some (n, h')" "dl_repr h' (q i) bs" "dl_free h' n"
    "\<And>m. m \<notin> set (n # bs) \<union> dl_foot (q i) \<Longrightarrow> h' m = h m" "dom h' = dom h"
    by (rule double_link_pop_repr [OF r]) blast
  have fm: "dlq.family h' I (q(i := q i)) (xs(i := bs))"
    by (rule dlq.family_upd [OF assms(1,2) 1(2), of "{}"]) (use 1(4) assms(3) in auto)
  have "n \<notin> set bs \<union> dl_foot (q i)" using dlq.repr_distinct [OF r] by auto
  moreover have "n \<notin> set (xs j) \<union> dl_foot (q j)" if "j \<in> I" "j \<noteq> i" for j
    using dlq.family_disjoint [OF assms(1,2) that(1), of n] that(2) assms(3) by auto
  ultimately have "n \<notin> set ((xs(i := bs)) j) \<union> dl_foot (q j)" if "j \<in> I" for j
    using that by (cases "j = i") auto
  with 1 fm that [of h'] assms(3) show thesis by simp
qed

lemma double_link_pop_family_nil:
  "dlq.family h I q xs \<Longrightarrow> i \<in> I \<Longrightarrow> xs i = [] \<Longrightarrow> double_link_pop h (q i) = Some (NULL, h)"
  using dlq.family_repr [of h I q xs i] by (simp add: double_link_pop_def double_link_empty_repr)

lemmas double_link_family_simps = double_link_empty_repr [OF dlq.family_repr]

section \<open>Runs of operations\<close>

datatype dl_op = DPush addr | DPop | DRemove addr

text \<open>The result of an operation: the code's int for push and remove, the node for pop.\<close>

datatype dl_result = Code int | Node addr

fun dl_exec :: "dheap \<Rightarrow> double_link \<Rightarrow> dl_op \<Rightarrow> (dl_result \<times> dheap) option" where
  "dl_exec h dl (DPush n) = do { (r, h) \<leftarrow> double_link_push h dl n; Some (Code r, h) }"
| "dl_exec h dl DPop = do { (n, h) \<leftarrow> double_link_pop h dl; Some (Node n, h) }"
| "dl_exec h dl (DRemove n) = do { (r, h) \<leftarrow> double_link_remove h n; Some (Code r, h) }"

fun dl_run :: "dheap \<Rightarrow> double_link \<Rightarrow> dl_op list \<Rightarrow> (dl_result list \<times> dheap) option" where
  "dl_run h dl [] = Some ([], h)"
| "dl_run h dl (p # ps) = do {
     (r, h) \<leftarrow> dl_exec h dl p;
     (rs, h) \<leftarrow> dl_run h dl ps;
     Some (r # rs, h)
   }"

fun dl_spec :: "addr list \<Rightarrow> dl_op \<Rightarrow> dl_result \<times> addr list" where
  "dl_spec xs (DPush n) = (if n \<in> set xs then (Code (-1), xs) else (Code 0, xs @ [n]))"
| "dl_spec xs DPop = (case xs of [] \<Rightarrow> (Node NULL, []) | x # ys \<Rightarrow> (Node x, ys))"
| "dl_spec xs (DRemove n) = (if n \<in> set xs then (Code 0, remove1 n xs) else (Code (-1), xs))"

fun dl_spec_run :: "addr list \<Rightarrow> dl_op list \<Rightarrow> dl_result list \<times> addr list" where
  "dl_spec_run xs [] = ([], xs)"
| "dl_spec_run xs (p # ps) =
     (let (r, ys) = dl_spec xs p; (rs, zs) = dl_spec_run ys ps in (r # rs, zs))"

fun dl_op_nodes :: "dl_op \<Rightarrow> addr set" where
  "dl_op_nodes (DPush n) = {n}"
| "dl_op_nodes DPop = {}"
| "dl_op_nodes (DRemove n) = {n}"

text \<open>Every node of the program is in the list or unlinked.\<close>

definition dl_inv :: "dheap \<Rightarrow> double_link \<Rightarrow> addr list \<Rightarrow> bool" where
  "dl_inv h dl xs \<longleftrightarrow> dl_repr h dl xs \<and> set xs \<subseteq> dom h \<and>
     (\<forall>n \<in> dom h - dl_foot dl. n \<notin> set xs \<longrightarrow> dl_free h n)"

lemma dl_inv_drop:
  assumes "dl_inv h dl xs" and "dl_repr h' dl ys" and "set ys = set xs - {n}" and "dl_free h' n"
    and fr: "\<And>m. m \<notin> set xs \<union> dl_foot dl \<Longrightarrow> h' m = h m" and "dom h' = dom h"
  shows "dl_inv h' dl ys"
proof -
  have "dl_free h' m" if "m \<in> dom h" "m \<notin> dl_foot dl" "m \<notin> set ys" for m
  proof (cases "m = n")
    case False
    with that assms(3) have m: "m \<notin> set xs" by blast
    then have "h' m = h m" using fr that(2) by blast
    moreover have "dl_free h m" using assms(1) m that by (simp add: dl_inv_def)
    ultimately show ?thesis by (simp add: dl_free_def)
  qed (simp add: assms(4))
  then show ?thesis using assms(1-3,6) by (auto simp: dl_inv_def)
qed

lemma dl_exec_refines:
  assumes inv: "dl_inv h dl xs" and ok: "dl_op_nodes p \<subseteq> dom h - dl_foot dl" and sp: "dl_spec xs p = (r, ys)"
  shows "\<exists>h'. dl_exec h dl p = Some (r, h') \<and> dl_inv h' dl ys \<and> dom h' = dom h"
proof (cases p)
  case (DPush n)
  have rep: "dl_repr h dl xs" using inv by (simp add: dl_inv_def)
  show ?thesis
  proof (cases "n \<in> set xs")
    case True
    then obtain x where "dl_get h n = Some x" "dl_pre x \<noteq> NULL" by (rule dl_repr_linked [OF rep])
    then show ?thesis using True DPush sp inv by (auto simp: double_link_push_linked)
  next
    case False
    have fr: "dl_free h n" "n \<notin> dl_foot dl" using inv ok DPush False by (auto simp: dl_inv_def)
    obtain h' where h': "double_link_push h dl n = Some (0, h')" "dl_repr h' dl (xs @ [n])"
      "\<And>m. m \<notin> insert n (set xs) \<union> dl_foot dl \<Longrightarrow> h' m = h m" "dom h' = dom h"
      by (rule double_link_push_repr [OF rep fr(1) False fr(2)]) blast
    have "dl_inv h' dl (xs @ [n])"
      using inv ok DPush h'(2,4) h'(3) by (auto simp: dl_inv_def dl_free_def)
    then show ?thesis using DPush False sp h' by auto
  qed
next
  case DPop
  show ?thesis
  proof (cases xs)
    case Nil
    then show ?thesis using DPop sp inv by (auto simp: dl_inv_def double_link_pop_def double_link_empty_repr)
  next
    case (Cons x zs)
    have rep: "dl_repr h dl (x # zs)" using inv Cons by (simp add: dl_inv_def)
    obtain h' where h': "double_link_pop h dl = Some (x, h')" "dl_repr h' dl zs" "dl_free h' x"
      "\<And>m. m \<notin> set (x # zs) \<union> dl_foot dl \<Longrightarrow> h' m = h m" "dom h' = dom h"
      by (rule double_link_pop_repr [OF rep]) blast
    have "dl_inv h' dl zs"
      using Cons rep h' by (intro dl_inv_drop [OF inv, of h' zs x]) (auto simp: dl_repr_def Let_def)
    then show ?thesis using DPop Cons sp h' by auto
  qed
next
  case (DRemove n)
  show ?thesis
  proof (cases "n \<in> set xs")
    case True
    then obtain us vs where xs: "xs = us @ n # vs" "n \<notin> set us" by (meson split_list_first)
    have rep: "dl_repr h dl (us @ n # vs)" using inv xs by (simp add: dl_inv_def)
    obtain h' where h': "double_link_remove h n = Some (0, h')" "dl_repr h' dl (us @ vs)" "dl_free h' n"
      "\<And>m. m \<notin> set (us @ n # vs) \<union> dl_foot dl \<Longrightarrow> h' m = h m" "dom h' = dom h"
      by (rule double_link_remove_repr [OF rep]) blast
    have "dl_inv h' dl (us @ vs)"
      using xs rep h' by (intro dl_inv_drop [OF inv, of h' "us @ vs" n]) (auto simp: dl_repr_def Let_def)
    moreover have "remove1 n xs = us @ vs" using xs by (simp add: remove1_append)
    ultimately show ?thesis using DRemove True sp h' by auto
  next
    case False
    then have "dl_free h n" using inv ok DRemove by (auto simp: dl_inv_def)
    then show ?thesis using DRemove False sp inv by (auto simp: double_link_remove_free)
  qed
qed

section \<open>Properties\<close>

text \<open>C21: any sequence of push, pop and remove on the double linked list, over nodes of the program,
  runs without a crash, returns exactly the codes and nodes of the same sequence on a list of
  distinct nodes (-1 for pushing a node that is in the list or removing one that is not), and ends
  in a heap that links the resulting list both ways with every other node unlinked.\<close>

theorem double_link_run_refines:
  assumes "dl_inv h dl xs" and "\<forall>p\<in>set ps. dl_op_nodes p \<subseteq> dom h - dl_foot dl"
    and "dl_spec_run xs ps = (rs, ys)"
  shows "\<exists>h'. dl_run h dl ps = Some (rs, h') \<and> dl_inv h' dl ys \<and> dom h' = dom h"
  using assms
proof (induction ps arbitrary: h xs rs)
  case Nil
  then show ?case by simp
next
  case (Cons p ps)
  obtain r zs where sp: "dl_spec xs p = (r, zs)" by fastforce
  with Cons.prems(3) obtain rs' where rs: "rs = r # rs'" "dl_spec_run zs ps = (rs', ys)"
    by (auto split: prod.splits)
  obtain h1 where 1: "dl_exec h dl p = Some (r, h1)" "dl_inv h1 dl zs" "dom h1 = dom h"
    using dl_exec_refines [OF Cons.prems(1) _ sp] Cons.prems(2) by auto
  have "\<forall>p\<in>set ps. dl_op_nodes p \<subseteq> dom h1 - dl_foot dl" using Cons.prems(2) 1(3) by simp
  from Cons.IH [OF 1(2) this rs(2)] show ?case using 1(1,3) rs(1) by auto
qed

definition dl_heap5 :: dheap where
  "dl_heap5 = [1 \<mapsto> \<lparr>dl_pre = 0, dl_next = 2\<rparr>, 2 \<mapsto> \<lparr>dl_pre = 1, dl_next = 0\<rparr>,
     3 \<mapsto> \<lparr>dl_pre = 0, dl_next = 0\<rparr>, 4 \<mapsto> \<lparr>dl_pre = 0, dl_next = 0\<rparr>, 5 \<mapsto> \<lparr>dl_pre = 0, dl_next = 0\<rparr>]"

lemma double_link_run_refines_witness:
  "\<exists>h'. dl_run dl_heap5 \<lparr>dl_head = 1, dl_tail = 2\<rparr>
      [DPush 3, DPush 4, DPush 3, DPush 5, DRemove 4, DRemove 4, DPop, DPush 3]
    = Some ([Code 0, Code 0, Code (-1), Code 0, Code 0, Code (-1), Node 3, Code 0], h') \<and>
    dl_inv h' \<lparr>dl_head = 1, dl_tail = 2\<rparr> [5, 3] \<and> dom h' = dom dl_heap5"
  by (rule double_link_run_refines [where xs = "[]"])
     (auto simp: dl_heap5_def dl_inv_def dl_repr_def dl_foot_def dl_free_def)

end
