(* ===== verification/Sync.thy ===== *)
theory Sync
  imports Steps
begin

text \<open>
  src/epoll_mutilthread/src/sync.c: the mutex and the condition over the pthread calls, and the
  barrier on top of them.  The mutex is the recursive one the code asks for; a condition is the set
  of the threads that wait on it.  The barrier is a step relation over the accesses of any number of
  threads.
\<close>

section \<open>Mutex and condition\<close>

record mutex =
  holder :: nat
  holds :: nat

definition mutex_create :: mutex where
  "mutex_create = \<lparr>holder = 0, holds = 0\<rparr>"

text \<open>None while the call blocks.\<close>

definition mutex_lock :: "mutex \<Rightarrow> nat \<Rightarrow> mutex option" where
  "mutex_lock m t =
     (if holder m = 0 then Some \<lparr>holder = t, holds = 1\<rparr>
      else if holder m = t then Some (m\<lparr>holds := holds m + 1\<rparr>)
      else None)"

definition EBUSY :: int where
  "EBUSY = 16"

definition EPERM :: int where
  "EPERM = 1"

definition mutex_try_lock :: "mutex \<Rightarrow> nat \<Rightarrow> int \<times> mutex" where
  "mutex_try_lock m t = (case mutex_lock m t of Some m \<Rightarrow> (0, m) | None \<Rightarrow> (EBUSY, m))"

definition mutex_unlock :: "mutex \<Rightarrow> nat \<Rightarrow> int \<times> mutex" where
  "mutex_unlock m t =
     (if holder m \<noteq> t \<or> holds m = 0 then (EPERM, m)
      else if holds m = 1 then (0, \<lparr>holder = 0, holds = 0\<rparr>)
      else (0, m\<lparr>holds := holds m - 1\<rparr>))"

record condition =
  waiting :: "nat set"

definition condition_create :: condition where
  "condition_create = \<lparr>waiting = {}\<rparr>"

text \<open>
  A wait gives the mutex back and joins the waiters in one step, and returns with the mutex taken
  again once the thread is not a waiter any more.  A signal wakes one of the waiters, whichever; a
  waiter can also wake up for no reason.
\<close>

definition condition_wait :: "condition \<Rightarrow> mutex \<Rightarrow> nat \<Rightarrow> condition \<times> mutex" where
  "condition_wait c m t = (c\<lparr>waiting := insert t (waiting c)\<rparr>, snd (mutex_unlock m t))"

definition condition_return :: "condition \<Rightarrow> mutex \<Rightarrow> nat \<Rightarrow> mutex option" where
  "condition_return c m t = (if t \<in> waiting c then None else mutex_lock m t)"

definition condition_wake :: "condition \<Rightarrow> nat \<Rightarrow> condition" where
  "condition_wake c t = c\<lparr>waiting := waiting c - {t}\<rparr>"

definition condition_signal :: "condition \<Rightarrow> nat \<Rightarrow> condition option" where
  "condition_signal c t =
     (if waiting c = {} then Some c else if t \<in> waiting c then Some (condition_wake c t) else None)"

definition condition_broadcast :: "condition \<Rightarrow> condition" where
  "condition_broadcast c = c\<lparr>waiting := {}\<rparr>"

text \<open>A timed wait: its deadline, in seconds and nanoseconds, from the time of day, and the wait.  The ms
  the caller gives are not used.  A waiter whose deadline passes is woken like any other, and its call
  returns ETIMEDOUT.\<close>

definition ETIMEDOUT :: int where
  "ETIMEDOUT = 110"

definition condition_timedwait ::
    "int \<times> int \<Rightarrow> condition \<Rightarrow> mutex \<Rightarrow> int \<Rightarrow> nat \<Rightarrow> (int \<times> int) \<times> condition \<times> mutex" where
  "condition_timedwait now c m ms t =
     (let ts = (fst now + 5, snd now * 1000)
      in (ts, condition_wait c m t))"

lemmas [sync_ops] = mutex_create_def mutex_lock_def mutex_try_lock_def mutex_unlock_def condition_create_def condition_wait_def
  condition_return_def condition_wake_def condition_signal_def condition_broadcast_def condition_timedwait_def

section \<open>Threads that hold a mutex\<close>

text \<open>The threads whose program counter satisfies H are those that hold the mutex m, once.\<close>

definition lock_excl :: "('p \<Rightarrow> bool) \<Rightarrow> (nat \<Rightarrow> 'p) \<Rightarrow> mutex \<Rightarrow> bool" where
  "lock_excl H at m \<longleftrightarrow> (\<forall>t. H (at t) \<longrightarrow> t \<noteq> 0 \<and> holder m = t) \<and>
     (holder m \<noteq> 0 \<longrightarrow> H (at (holder m)) \<and> holds m = 1)"

lemma lock_excl_create: "(\<And>t. \<not> H (at t)) \<Longrightarrow> lock_excl H at mutex_create"
  by (simp add: lock_excl_def mutex_create_def)

lemma lock_excl_holder:
  assumes "lock_excl H at m" and "H (at t)"
  shows "holder m = t" and "t \<noteq> 0" and "holds m = 1"
  using assms by (auto simp: lock_excl_def)

lemma lock_excl_unique: "lock_excl H at m \<Longrightarrow> H (at t) \<Longrightarrow> H (at u) \<Longrightarrow> u = t"
  by (auto simp: lock_excl_def)

lemma lock_excl_free:
  assumes "lock_excl H at m" and "mutex_lock m t = Some m'" and "\<not> H (at t)" and "t \<noteq> 0"
  shows "\<not> H (at u)" and "m' = \<lparr>holder = t, holds = 1\<rparr>"
proof -
  have "holder m \<noteq> t" using assms(1,3,4) unfolding lock_excl_def by metis
  then have h: "holder m = 0" and m: "m' = \<lparr>holder = t, holds = 1\<rparr>"
    using assms(2) by (auto simp: mutex_lock_def split: if_splits)
  show "\<not> H (at u)" using assms(1) h unfolding lock_excl_def by metis
  show "m' = \<lparr>holder = t, holds = 1\<rparr>" by (rule m)
qed

lemma lock_excl_take:
  assumes "lock_excl H at m" and "mutex_lock m t = Some m'" and "\<not> H (at t)" and "t \<noteq> 0" and "H p"
  shows "lock_excl H (at(t := p)) m'"
  using lock_excl_free [OF assms(1-4)] assms(4,5) by (simp add: lock_excl_def)

lemma lock_excl_give:
  assumes "lock_excl H at m" and "H (at t)" and "\<not> H p"
  shows "lock_excl H (at(t := p)) (snd (mutex_unlock m t))"
  using assms by (auto simp: lock_excl_def mutex_unlock_def)

lemma lock_excl_keep:
  assumes "lock_excl H at m" and "H p = H (at t)"
  shows "lock_excl H (at(t := p)) m"
  using assms by (auto simp: lock_excl_def)

section \<open>Barrier\<close>

record barrior =
  bar_cond :: condition
  bar_mtx :: mutex
  wait_count :: int

definition barrior_create :: "int \<Rightarrow> barrior" where
  "barrior_create waitcount =
     \<lparr>bar_cond = condition_create, bar_mtx = mutex_create, wait_count = waitcount\<rparr>"

datatype bar_pc =
  Bar_outside | Bar_lock | Bar_count | Bar_test | Bar_broadcast | Bar_loop | Bar_waiting | Bar_unlock

text \<open>The barrier, where each thread is, and as ghosts how many threads have counted themselves in
  and how many calls have returned.\<close>

record bar_state =
  bar :: barrior
  bar_at :: "nat \<Rightarrow> bar_pc"
  bar_arrived :: nat
  bar_left :: nat

definition bar_init :: "int \<Rightarrow> bar_state" where
  "bar_init n = \<lparr>bar = barrior_create n, bar_at = \<lambda>_. Bar_outside, bar_arrived = 0, bar_left = 0\<rparr>"

definition bar_goto :: "bar_state \<Rightarrow> nat \<Rightarrow> barrior \<Rightarrow> bar_pc \<Rightarrow> bar_state" where
  "bar_goto s t b p = s\<lparr>bar := b, bar_at := (bar_at s)(t := p)\<rparr>"

definition barrior_wait :: "bar_state \<Rightarrow> nat \<Rightarrow> bar_state option" where
  "barrior_wait s t = (let b = bar s in
     case bar_at s t of
       Bar_outside \<Rightarrow> None
     | Bar_lock \<Rightarrow>
         (case mutex_lock (bar_mtx b) t of
            None \<Rightarrow> None
          | Some m \<Rightarrow> Some (bar_goto s t (b\<lparr>bar_mtx := m\<rparr>) Bar_count))
     | Bar_count \<Rightarrow>
         Some ((bar_goto s t (b\<lparr>wait_count := wrap32 (wait_count b - 1)\<rparr>) Bar_test)
                 \<lparr>bar_arrived := bar_arrived s + 1\<rparr>)
     | Bar_test \<Rightarrow> Some (bar_goto s t b (if wait_count b = 0 then Bar_broadcast else Bar_loop))
     | Bar_broadcast \<Rightarrow>
         Some (bar_goto s t (b\<lparr>bar_cond := condition_broadcast (bar_cond b)\<rparr>) Bar_unlock)
     | Bar_loop \<Rightarrow>
         if wait_count b > 0
         then (case condition_wait (bar_cond b) (bar_mtx b) t of
                 (c, m) \<Rightarrow> Some (bar_goto s t (b\<lparr>bar_cond := c, bar_mtx := m\<rparr>) Bar_waiting))
         else Some (bar_goto s t b Bar_unlock)
     | Bar_waiting \<Rightarrow>
         (case condition_return (bar_cond b) (bar_mtx b) t of
            None \<Rightarrow> None
          | Some m \<Rightarrow> Some (bar_goto s t (b\<lparr>bar_mtx := m\<rparr>) Bar_loop))
     | Bar_unlock \<Rightarrow>
         Some ((bar_goto s t (b\<lparr>bar_mtx := snd (mutex_unlock (bar_mtx b) t)\<rparr>) Bar_outside)
                 \<lparr>bar_left := bar_left s + 1\<rparr>))"

text \<open>What happens inside the calls: the code, and waiters that wake up by themselves.\<close>

inductive bar_run :: "bar_state \<Rightarrow> bar_state \<Rightarrow> bool" where
  bar_code: "barrior_wait s t = Some s' \<Longrightarrow> bar_run s s'"
| bar_spurious: "t \<in> waiting (bar_cond (bar s)) \<Longrightarrow>
    bar_run s (s\<lparr>bar := (bar s)\<lparr>bar_cond := condition_wake (bar_cond (bar s)) t\<rparr>\<rparr>)"

inductive bar_step :: "bar_state \<Rightarrow> bar_state \<Rightarrow> bool" where
  bar_call: "t \<noteq> 0 \<Longrightarrow> bar_at s t = Bar_outside \<Longrightarrow> bar_step s (bar_goto s t (bar s) Bar_lock)"
| bar_inside: "bar_run s s' \<Longrightarrow> bar_step s s'"

section \<open>The invariant of the barrier\<close>

definition holding :: "bar_pc \<Rightarrow> bool" where
  "holding p \<longleftrightarrow> p \<in> {Bar_count, Bar_test, Bar_broadcast, Bar_loop, Bar_unlock}"

definition bar_excl :: "bar_state \<Rightarrow> bool" where
  "bar_excl s \<longleftrightarrow> bar_at s 0 = Bar_outside \<and>
     lock_excl holding (bar_at s) (bar_mtx (bar s))"

definition bar_counts :: "int \<Rightarrow> bar_state \<Rightarrow> bool" where
  "bar_counts n s \<longleftrightarrow> wait_count (bar s) = wrap32 (n - int (bar_arrived s)) \<and>
     (0 < bar_left s \<longrightarrow> n \<le> int (bar_arrived s)) \<and>
     (\<forall>t. bar_at s t \<in> {Bar_broadcast, Bar_unlock} \<longrightarrow> n \<le> int (bar_arrived s))"

definition bar_waiters :: "bar_state \<Rightarrow> bool" where
  "bar_waiters s \<longleftrightarrow> (\<forall>t \<in> waiting (bar_cond (bar s)). bar_at s t = Bar_waiting) \<and>
     (waiting (bar_cond (bar s)) = {} \<or> 0 < wait_count (bar s) \<or>
        (\<exists>t. bar_at s t = Bar_broadcast \<or> bar_at s t = Bar_test \<and> wait_count (bar s) = 0))"

definition bar_inv :: "int \<Rightarrow> bar_state \<Rightarrow> bool" where
  "bar_inv n s \<longleftrightarrow> bar_excl s \<and> bar_counts n s \<and> bar_waiters s"

lemma holding_simps [simp]:
  "holding Bar_count" "holding Bar_test" "holding Bar_broadcast" "holding Bar_loop" "holding Bar_unlock"
  "\<not> holding Bar_outside" "\<not> holding Bar_lock" "\<not> holding Bar_waiting"
  by (simp_all add: holding_def)

lemma bar_goto_simps [simp]: "bar (bar_goto s t b p) = b" "bar_at (bar_goto s t b p) = (bar_at s)(t := p)"
  "bar_arrived (bar_goto s t b p) = bar_arrived s" "bar_left (bar_goto s t b p) = bar_left s"
  by (simp_all add: bar_goto_def)

lemma bar_inv_init: "- (2 ^ 31) \<le> n \<Longrightarrow> n < 2 ^ 31 \<Longrightarrow> bar_inv n (bar_init n)"
  by (simp add: bar_inv_def bar_excl_def bar_counts_def bar_waiters_def bar_init_def barrior_create_def lock_excl_create condition_create_def wrap32_id)

text \<open>The counter of a barrier for n threads is positive until n threads have arrived.\<close>

lemma wrap32_arrived: "n < 2 ^ 31 \<Longrightarrow> wrap32 (n - int a) \<le> 0 \<Longrightarrow> n \<le> int a"
  using wrap32_id [of "n - int a"] by (cases "n \<le> int a") auto

lemma barrior_wait_cases [consumes 1, case_names lock count test broadcast wait pass return unlock]:
  assumes "barrior_wait s t = Some s'"
  obtains m where "bar_at s t = Bar_lock" "mutex_lock (bar_mtx (bar s)) t = Some m"
      "s' = bar_goto s t ((bar s)\<lparr>bar_mtx := m\<rparr>) Bar_count"
    | "bar_at s t = Bar_count" "s' = (bar_goto s t ((bar s)\<lparr>wait_count := wrap32 (wait_count (bar s) - 1)\<rparr>) Bar_test)
        \<lparr>bar_arrived := bar_arrived s + 1\<rparr>"
    | "bar_at s t = Bar_test" "s' = bar_goto s t (bar s) (if wait_count (bar s) = 0 then Bar_broadcast else Bar_loop)"
    | "bar_at s t = Bar_broadcast"
      "s' = bar_goto s t ((bar s)\<lparr>bar_cond := condition_broadcast (bar_cond (bar s))\<rparr>) Bar_unlock"
    | "bar_at s t = Bar_loop" "wait_count (bar s) > 0"
      "s' = bar_goto s t ((bar s)\<lparr>bar_cond := fst (condition_wait (bar_cond (bar s)) (bar_mtx (bar s)) t),
         bar_mtx := snd (condition_wait (bar_cond (bar s)) (bar_mtx (bar s)) t)\<rparr>) Bar_waiting"
    | "bar_at s t = Bar_loop" "wait_count (bar s) \<le> 0" "s' = bar_goto s t (bar s) Bar_unlock"
    | m where "bar_at s t = Bar_waiting" "condition_return (bar_cond (bar s)) (bar_mtx (bar s)) t = Some m"
      "s' = bar_goto s t ((bar s)\<lparr>bar_mtx := m\<rparr>) Bar_loop"
    | "bar_at s t = Bar_unlock"
      "s' = (bar_goto s t ((bar s)\<lparr>bar_mtx := snd (mutex_unlock (bar_mtx (bar s)) t)\<rparr>) Bar_outside)
        \<lparr>bar_left := bar_left s + 1\<rparr>"
  using assms
  by (cases "bar_at s t") (force simp: barrior_wait_def Let_def split: if_splits option.splits prod.splits)+

lemma bar_excl_not0: "bar_excl s \<Longrightarrow> bar_at s t \<noteq> Bar_outside \<Longrightarrow> t \<noteq> 0"
  by (cases "t = 0") (auto simp: bar_excl_def)

lemma bar_excl_run:
  assumes inv: "bar_excl s" and run: "bar_run s s'"
  shows "bar_excl s'"
  using run
proof cases
  case (bar_spurious t)
  then show ?thesis using inv by (simp add: bar_excl_def)
next
  case (bar_code t)
  have l: "lock_excl holding (bar_at s) (bar_mtx (bar s))" using inv by (simp add: bar_excl_def)
  have t0: "t \<noteq> 0" if "bar_at s t \<noteq> Bar_outside" using bar_excl_not0 [OF inv that] .
  from bar_code show ?thesis
  proof (cases rule: barrior_wait_cases)
    case (lock m)
    then show ?thesis using lock_excl_take [OF l lock(2)] t0 inv by (simp add: bar_excl_def)
  next
    case wait
    then show ?thesis using lock_excl_give [OF l, of t Bar_waiting] t0 inv by (simp add: bar_excl_def condition_wait_def)
  next
    case (return m)
    then show ?thesis
      using lock_excl_take [OF l, of t m Bar_loop] t0 inv by (simp add: bar_excl_def condition_return_def split: if_splits)
  next
    case unlock
    then show ?thesis using lock_excl_give [OF l, of t Bar_outside] t0 inv by (simp add: bar_excl_def)
  qed (use lock_excl_keep [OF l, of _ t] t0 inv in \<open>simp_all add: bar_excl_def\<close>)
qed

lemma bar_counts_run:
  assumes inv: "bar_counts n s" and n: "n < 2 ^ 31" and run: "bar_run s s'"
  shows "bar_counts n s'"
  using run
proof cases
  case (bar_spurious t)
  then show ?thesis using inv by (simp add: bar_counts_def)
next
  case (bar_code t)
  have p: "wait_count (bar s) \<le> 0 \<Longrightarrow> n \<le> int (bar_arrived s)"
    using inv wrap32_arrived [OF n] by (simp add: bar_counts_def)
  from bar_code show ?thesis
  proof (cases rule: barrior_wait_cases)
    case count
    have "wrap32 (wait_count (bar s) - 1) = wrap32 (n - int (bar_arrived s + 1))"
      using inv by (simp add: bar_counts_def wrap32_wrap32_diff algebra_simps)
    then show ?thesis using count inv by (auto simp: bar_counts_def)
  qed (use p inv in \<open>auto simp: bar_counts_def\<close>)
qed

lemma bar_waitersI:
  "(\<And>u. u \<in> waiting (bar_cond (bar s)) \<Longrightarrow> bar_at s u = Bar_waiting) \<Longrightarrow>
     waiting (bar_cond (bar s)) = {} \<or> 0 < wait_count (bar s) \<Longrightarrow> bar_waiters s"
  by (auto simp: bar_waiters_def)

lemma bar_waiters_run:
  assumes inv: "bar_inv n s" and run: "bar_run s s'"
  shows "bar_waiters s'"
  using run
proof cases
  case (bar_spurious t)
  then show ?thesis using inv by (auto simp: bar_inv_def bar_waiters_def condition_wake_def)
next
  case (bar_code t)
  have ex: "bar_excl s" and w: "bar_waiters s" using inv by (auto simp: bar_inv_def)
  have only: "u = t" if "holding (bar_at s t)" "holding (bar_at s u)" for u
    using lock_excl_unique [of holding "bar_at s" _ t u] ex that by (auto simp: bar_excl_def)
  have asleep: "t \<notin> waiting (bar_cond (bar s))" if "bar_at s t \<noteq> Bar_waiting"
    using that w by (auto simp: bar_waiters_def)
  from bar_code show ?thesis
  proof (cases rule: barrior_wait_cases)
    case (lock m)
    then show ?thesis using w asleep
      by (auto simp: bar_waiters_def) (metis bar_pc.distinct)+
  next
    case count
    have "bar_at s u \<noteq> Bar_broadcast" "bar_at s u \<noteq> Bar_test" for u
      using only [of u] count by auto
    then have e: "waiting (bar_cond (bar s)) = {} \<or> 0 < wait_count (bar s)"
      using w by (simp add: bar_waiters_def)
    have r: "wait_count (bar s) < 2 ^ 31"
      using inv wrap32_range(2) [of "n - int (bar_arrived s)"] by (simp add: bar_inv_def bar_counts_def)
    then have "wrap32 (wait_count (bar s) - 1) = wait_count (bar s) - 1" if "0 < wait_count (bar s)"
      using that by (intro wrap32_id) auto
    then show ?thesis using count asleep w e by (auto simp: bar_waiters_def)
  next
    case test
    have "bar_at s u \<noteq> Bar_broadcast" for u
      using only [of u] test by auto
    moreover have "bar_at s u = Bar_test \<Longrightarrow> u = t" for u
      using only [of u] test by auto
    ultimately have "waiting (bar_cond (bar s)) = {} \<or> 0 < wait_count (bar s) \<or> wait_count (bar s) = 0"
      using w by (auto simp: bar_waiters_def)
    then show ?thesis using test asleep w
      by (cases "wait_count (bar s) = 0") (auto simp: bar_waiters_def)
  next
    case broadcast
    then show ?thesis by (simp add: bar_waiters_def condition_broadcast_def)
  next
    case wait
    then show ?thesis using w by (auto simp: bar_waiters_def condition_wait_def)
  next
    case pass
    have "bar_at s u \<noteq> Bar_broadcast" "bar_at s u \<noteq> Bar_test" for u
      using only [of u] pass by auto
    then have "waiting (bar_cond (bar s)) = {} \<or> 0 < wait_count (bar s)"
      using w by (auto simp: bar_waiters_def)
    then show ?thesis using pass w asleep by (intro bar_waitersI) (auto simp: bar_waiters_def)
  next
    case (return m)
    then have "t \<notin> waiting (bar_cond (bar s))" by (simp add: condition_return_def split: if_splits)
    then show ?thesis using return w by (auto simp: bar_waiters_def) (metis bar_pc.distinct)+
  next
    case unlock
    have "bar_at s u \<noteq> Bar_broadcast" "bar_at s u \<noteq> Bar_test" for u
      using only [of u] unlock by auto
    then have "waiting (bar_cond (bar s)) = {} \<or> 0 < wait_count (bar s)"
      using w by (auto simp: bar_waiters_def)
    then show ?thesis using unlock w asleep by (intro bar_waitersI) (auto simp: bar_waiters_def)
  qed
qed

lemma bar_inv_run: "bar_inv n s \<Longrightarrow> n < 2 ^ 31 \<Longrightarrow> bar_run s s' \<Longrightarrow> bar_inv n s'"
  using bar_excl_run bar_counts_run bar_waiters_run by (auto simp: bar_inv_def)

lemma bar_inv_step:
  assumes inv: "bar_inv n s" and "n < 2 ^ 31" and "bar_step s s'"
  shows "bar_inv n s'"
  using assms(3)
proof cases
  case (bar_call t)
  have ex: "bar_excl s" and cs: "bar_counts n s" and w: "bar_waiters s" using inv by (auto simp: bar_inv_def)
  have "lock_excl holding (bar_at s) (bar_mtx (bar s))" using ex by (simp add: bar_excl_def)
  from lock_excl_keep [OF this, of Bar_lock t] have "bar_excl s'"
    using ex bar_call by (simp add: bar_excl_def)
  moreover have "bar_counts n s'" using cs bar_call by (auto simp: bar_counts_def)
  moreover have "t \<notin> waiting (bar_cond (bar s))" using w bar_call by (auto simp: bar_waiters_def)
  then have "bar_waiters s'" using w bar_call by (auto simp: bar_waiters_def) (metis bar_pc.distinct)+
  ultimately show ?thesis by (simp add: bar_inv_def)
next
  case bar_inside
  then show ?thesis using assms(1,2) by (rule_tac bar_inv_run)
qed

section \<open>The barrier as an invariant system\<close>

interpretation bar: invariant_system "bar_init n" bar_step
    "\<lambda>s. - (2 ^ 31) \<le> n \<and> n < 2 ^ 31 \<longrightarrow> bar_inv n s" for n
  by unfold_locales (auto intro: bar_inv_init bar_inv_step)

lemma bar_reach_inv:
  "reach (bar_init n) bar_step s \<Longrightarrow> - (2 ^ 31) \<le> n \<Longrightarrow> n < 2 ^ 31 \<Longrightarrow> bar_inv n s"
  using bar.reach_inv by blast

section \<open>Everyone leaves\<close>

text \<open>How far a thread is from the end of its call once the barrier is open; a waiter that has been
  woken up is nearer than one that has not.\<close>

fun bar_rank :: "bar_pc \<Rightarrow> bool \<Rightarrow> nat" where
  "bar_rank Bar_outside _ = 0"
| "bar_rank Bar_unlock _ = 1"
| "bar_rank Bar_loop _ = 2"
| "bar_rank Bar_waiting False = 3"
| "bar_rank Bar_waiting True = 4"
| "bar_rank Bar_broadcast _ = 4"
| "bar_rank Bar_test _ = 5"
| "bar_rank Bar_count _ = 6"
| "bar_rank Bar_lock _ = 7"

definition bar_dist :: "bar_state \<Rightarrow> nat \<Rightarrow> nat" where
  "bar_dist s t = bar_rank (bar_at s t) (t \<in> waiting (bar_cond (bar s)))"

text \<open>The barrier is open for the threads of T: the counter has got to 0, and stays below it however
  many of them still count themselves in.\<close>

definition bar_open :: "int \<Rightarrow> nat set \<Rightarrow> bar_state \<Rightarrow> bool" where
  "bar_open n T s \<longleftrightarrow> bar_inv n s \<and> finite T \<and> (\<forall>t. t \<notin> T \<longrightarrow> bar_at s t = Bar_outside) \<and>
     wait_count (bar s) \<le> 0 \<and>
     - (2 ^ 31) + int (card {t \<in> T. bar_at s t \<in> {Bar_lock, Bar_count}}) \<le> wait_count (bar s)"

lemma sum_dist_less:
  assumes "finite T" and "t \<in> T" and "f t < g t" and "\<And>u. u \<in> T \<Longrightarrow> f u \<le> (g u :: nat)"
  shows "sum f T < sum g T"
  using assms by (intro sum_strict_mono_ex1) auto

lemma bar_run_at:
  assumes "bar_run s s'"
  obtains t where "bar_at s t \<noteq> Bar_outside" "\<And>u. u \<noteq> t \<Longrightarrow> bar_at s' u = bar_at s u"
    "\<And>u. u \<noteq> t \<Longrightarrow> u \<in> waiting (bar_cond (bar s')) \<Longrightarrow> u \<in> waiting (bar_cond (bar s))"
    "barrior_wait s t = Some s'"
  | t where "t \<in> waiting (bar_cond (bar s))" "bar_at s' = bar_at s" "wait_count (bar s') = wait_count (bar s)"
    "waiting (bar_cond (bar s')) = waiting (bar_cond (bar s)) - {t}"
  using assms
proof cases
  case (bar_code t)
  have "bar_at s t \<noteq> Bar_outside" using bar_code by (auto simp: barrior_wait_def)
  moreover from bar_code have "\<forall>u. u \<noteq> t \<longrightarrow> bar_at s' u = bar_at s u \<and>
      (u \<in> waiting (bar_cond (bar s')) \<longrightarrow> u \<in> waiting (bar_cond (bar s)))"
    by (cases rule: barrior_wait_cases) (auto simp: condition_wait_def condition_broadcast_def)
  ultimately show thesis using bar_code by (intro that(1) [of t]) auto
next
  case (bar_spurious t)
  then show thesis by (intro that(2) [of t]) (auto simp: condition_wake_def)
qed

lemma bar_rank_mono: "(b \<Longrightarrow> c) \<Longrightarrow> bar_rank p b \<le> bar_rank p c"
  by (cases p; cases b; cases c) auto

lemma barrior_wait_rank:
  assumes "barrior_wait s t = Some s'" and "wait_count (bar s) \<le> 0" and "bar_waiters s"
  shows "bar_dist s' t < bar_dist s t"
  using assms(1)
proof (cases rule: barrior_wait_cases)
  case (return m)
  then show ?thesis by (auto simp: bar_dist_def condition_return_def split: if_splits)
qed (use assms(2,3) in \<open>auto simp: bar_dist_def bar_waiters_def condition_broadcast_def\<close>)

lemma barrior_wait_frame:
  assumes "barrior_wait s t = Some s'" and "bar_at s t \<noteq> Bar_count"
  shows "wait_count (bar s') = wait_count (bar s)"
    and "bar_at s' t \<in> {Bar_lock, Bar_count} \<Longrightarrow> bar_at s t \<in> {Bar_lock, Bar_count}"
proof -
  have "wait_count (bar s') = wait_count (bar s) \<and>
      (bar_at s' t \<in> {Bar_lock, Bar_count} \<longrightarrow> bar_at s t \<in> {Bar_lock, Bar_count})"
    using assms(1) by (cases rule: barrior_wait_cases) (use assms(2) in auto)
  then show "wait_count (bar s') = wait_count (bar s)"
    and "bar_at s' t \<in> {Bar_lock, Bar_count} \<Longrightarrow> bar_at s t \<in> {Bar_lock, Bar_count}" by blast+
qed

lemma bar_open_run:
  assumes op: "bar_open n T s" and n: "n < 2 ^ 31" and run: "bar_run s s'"
  shows "bar_open n T s' \<and> sum (bar_dist s') T < sum (bar_dist s) T"
proof -
  have inv: "bar_inv n s" and w: "bar_waiters s" and wc: "wait_count (bar s) \<le> 0" and fin: "finite T"
    and out: "\<And>t. t \<notin> T \<Longrightarrow> bar_at s t = Bar_outside"
    and low: "- (2 ^ 31) + int (card {t \<in> T. bar_at s t \<in> {Bar_lock, Bar_count}}) \<le> wait_count (bar s)"
    using op by (auto simp: bar_open_def bar_inv_def)
  have inv': "bar_inv n s'" by (rule bar_inv_run [OF inv n run])
  from run show ?thesis
  proof (cases rule: bar_run_at)
    case (1 t)
    have tT: "t \<in> T" using 1(1) out by auto
    have less: "sum (bar_dist s') T < sum (bar_dist s) T"
    proof (rule sum_dist_less [OF fin tT])
      show d: "bar_dist s' t < bar_dist s t" by (rule barrior_wait_rank [OF 1(4) wc w])
      show "bar_dist s' u \<le> bar_dist s u" for u
        using d 1(2,3) by (cases "u = t") (auto simp: bar_dist_def intro!: bar_rank_mono)
    qed
    have c: "wait_count (bar s') \<le> 0 \<and>
      - (2 ^ 31) + int (card {u \<in> T. bar_at s' u \<in> {Bar_lock, Bar_count}}) \<le> wait_count (bar s')"
    proof (cases "bar_at s t = Bar_count")
      case True
      then have s': "bar_at s' t = Bar_test" "wait_count (bar s') = wrap32 (wait_count (bar s) - 1)"
        using 1(4) by (auto simp: barrior_wait_def Let_def)
      have at': "bar_at s' = (bar_at s)(t := Bar_test)" using 1(2) s'(1) by (intro ext) auto
      let ?C = "{u \<in> T. bar_at s u \<in> {Bar_lock, Bar_count}}"
      have "{u \<in> T. bar_at s' u \<in> {Bar_lock, Bar_count}} = ?C - {t}"
        using True by (auto simp: at')
      moreover have tC: "t \<in> ?C" "finite ?C" using True tT fin by auto
      ultimately have "card {u \<in> T. bar_at s' u \<in> {Bar_lock, Bar_count}} = card ?C - 1" "0 < card ?C"
        by (auto simp: card_gt_0_iff)
      moreover have "wrap32 (wait_count (bar s) - 1) = wait_count (bar s) - 1"
        using low wc \<open>0 < card ?C\<close> by (intro wrap32_id) auto
      ultimately show ?thesis using low wc s'(2) by auto
    next
      case False
      note fr = barrior_wait_frame [OF 1(4) False]
      have "{u \<in> T. bar_at s' u \<in> {Bar_lock, Bar_count}} \<subseteq> {u \<in> T. bar_at s u \<in> {Bar_lock, Bar_count}}"
      proof
        fix u assume "u \<in> {u \<in> T. bar_at s' u \<in> {Bar_lock, Bar_count}}"
        then show "u \<in> {u \<in> T. bar_at s u \<in> {Bar_lock, Bar_count}}"
          using 1(2) [of u] fr(2) by (cases "u = t") auto
      qed
      then have "card {u \<in> T. bar_at s' u \<in> {Bar_lock, Bar_count}} \<le> card {u \<in> T. bar_at s u \<in> {Bar_lock, Bar_count}}"
        using fin by (intro card_mono) auto
      then show ?thesis using low wc fr(1) by linarith
    qed
    have "bar_at s' u = Bar_outside" if "u \<notin> T" for u
      using 1(2) [of u] out [OF that] tT that by (cases "u = t") auto
    then show ?thesis using less c inv' fin by (auto simp: bar_open_def)
  next
    case (2 t)
    have at: "bar_at s t = Bar_waiting" using w 2(1) by (auto simp: bar_waiters_def)
    then have tT: "t \<in> T" using out [of t] by auto
    have "sum (bar_dist s') T < sum (bar_dist s) T"
      by (rule sum_dist_less [OF fin tT]) (use at 2 in \<open>auto simp: bar_dist_def intro!: bar_rank_mono\<close>)
    then show ?thesis using 2 op inv' by (auto simp: bar_open_def)
  qed
qed

text \<open>Someone can always go on.\<close>

lemma bar_open_progress:
  assumes op: "bar_open n T s" and "bar_at s t \<noteq> Bar_outside"
  shows "\<exists>s'. bar_run s s'"
proof -
  have ex: "bar_excl s" and w: "bar_waiters s" and wc: "wait_count (bar s) \<le> 0"
    using op by (auto simp: bar_open_def bar_inv_def)
  show ?thesis
  proof (cases "holder (bar_mtx (bar s)) = 0")
    case True
    then have no: "\<not> holding (bar_at s u)" for u using ex unfolding bar_excl_def lock_excl_def by metis
    then have "bar_at s u \<noteq> Bar_broadcast" "bar_at s u \<noteq> Bar_test" for u
      using no [of u] by (auto simp: holding_def)
    then have e: "waiting (bar_cond (bar s)) = {}" using w wc by (auto simp: bar_waiters_def)
    have "bar_at s t = Bar_lock \<or> bar_at s t = Bar_waiting" using no [of t] assms(2) by (cases "bar_at s t") auto
    then have "\<exists>s'. barrior_wait s t = Some s'"
      using True e by (auto simp: barrior_wait_def Let_def mutex_lock_def condition_return_def)
    then show ?thesis by (auto intro: bar_code)
  next
    case False
    let ?u = "holder (bar_mtx (bar s))"
    have "holding (bar_at s ?u)" using ex False by (simp add: bar_excl_def lock_excl_def)
    then have "\<exists>s'. barrior_wait s ?u = Some s'"
      by (cases "bar_at s ?u") (auto simp: barrior_wait_def Let_def split: prod.splits)
    then show ?thesis by (auto intro: bar_code)
  qed
qed

lemma bar_open_runs:
  assumes "bar_open n T s" and "n < 2 ^ 31" and "(bar_run ^^ m) s s'"
  shows "bar_open n T s' \<and> m + sum (bar_dist s') T \<le> sum (bar_dist s) T"
  using assms(3)
proof (induction m arbitrary: s')
  case 0
  then show ?case using assms(1) by simp
next
  case (Suc m)
  then obtain s1 where 1: "(bar_run ^^ m) s s1" "bar_run s1 s'" by auto
  show ?case using Suc.IH [OF 1(1)] bar_open_run [OF _ assms(2) 1(2)] by fastforce
qed

section \<open>Properties\<close>

text \<open>C17: no call of barrior_wait on a barrier for n threads returns before n threads have counted
  themselves in, however the accesses of the threads interleave and whoever wakes up without being
  signalled; this holds beyond the overflow of the counter.\<close>

theorem barrier_holds_back:
  assumes "reach (bar_init n) bar_step s" and "- (2 ^ 31) \<le> n" and "n < 2 ^ 31" and "0 < bar_left s"
  shows "n \<le> int (bar_arrived s)"
  using bar_reach_inv [OF assms(1-3)] assms(4) by (simp add: bar_inv_def bar_counts_def)

text \<open>C29: once the counter of the barrier has got to 0, every call returns: whatever the threads in
  the calls and the spurious wake-ups do, they come to an end after a bounded number of accesses, and
  where they end no thread is left inside.  No wake-up is lost.\<close>

theorem barrier_opens:
  assumes "reach (bar_init n) bar_step s" and "- (2 ^ 31) \<le> n" and "n < 2 ^ 31"
    and "wait_count (bar s) \<le> 0" and "finite T" and "\<And>t. t \<notin> T \<Longrightarrow> bar_at s t = Bar_outside"
    and "- (2 ^ 31) + int (card T) \<le> wait_count (bar s)"
  shows "(\<exists>k. \<forall>m s'. (bar_run ^^ m) s s' \<longrightarrow> m \<le> k) \<and>
    (\<forall>s'. bar_run\<^sup>*\<^sup>* s s' \<and> (\<nexists>s''. bar_run s' s'') \<longrightarrow> (\<forall>t. bar_at s' t = Bar_outside))"
proof -
  have "card {t \<in> T. bar_at s t \<in> {Bar_lock, Bar_count}} \<le> card T" using assms(5) by (intro card_mono) auto
  then have op: "bar_open n T s"
    using bar_reach_inv [OF assms(1-3)] assms(4-7) by (auto simp: bar_open_def)
  have "m \<le> sum (bar_dist s) T" if "(bar_run ^^ m) s s'" for m s'
    using bar_open_runs [OF op assms(3) that] by linarith
  moreover have "bar_at s' t = Bar_outside" if r: "bar_run\<^sup>*\<^sup>* s s'" and st: "\<nexists>s''. bar_run s' s''" for s' t
  proof -
    obtain m where "(bar_run ^^ m) s s'" using rtranclp_imp_relpowp [OF r] by blast
    then have "bar_open n T s'" using bar_open_runs [OF op assms(3)] by blast
    then show ?thesis using bar_open_progress st by blast
  qed
  ultimately show ?thesis by blast
qed

section \<open>Witnesses\<close>

text \<open>Running the threads in a given order; a thread outside makes a new call.\<close>

fun bar_sched :: "bar_state \<Rightarrow> nat list \<Rightarrow> bar_state option" where
  "bar_sched s [] = Some s"
| "bar_sched s (t # ts) =
     (case (if bar_at s t = Bar_outside then Some (bar_goto s t (bar s) Bar_lock) else barrior_wait s t) of
        None \<Rightarrow> None
      | Some s' \<Rightarrow> bar_sched s' ts)"

lemma bar_sched_reach:
  "bar_sched s ts = Some s' \<Longrightarrow> 0 \<notin> set ts \<Longrightarrow> reach i bar_step s \<Longrightarrow> reach i bar_step s'"
proof (induction ts arbitrary: s)
  case (Cons t ts)
  from Cons.prems(1) obtain s1 where s1: "bar_sched s1 ts = Some s'"
    "bar_at s t = Bar_outside \<and> s1 = bar_goto s t (bar s) Bar_lock \<or> barrior_wait s t = Some s1"
    by (auto split: if_splits option.splits)
  then have "bar_step s s1" using Cons.prems(2) by (auto intro: bar_step.intros bar_run.intros)
  then show ?case using Cons.IH [OF s1(1)] Cons.prems(2,3) by (auto intro: reach_step)
qed simp

lemmas bar_exec_simps = barrior_wait_def bar_goto_def bar_init_def barrior_create_def mutex_create_def
  condition_create_def mutex_lock_def mutex_unlock_def condition_wait_def condition_return_def
  condition_broadcast_def wrap32_def Let_def

definition bar_two :: "nat list \<Rightarrow> bar_state" where
  "bar_two ts = the (bar_sched (bar_init 2) ts)"

lemma bar_two_runs:
  "bar_sched (bar_init 2) [1,1,1,1,1,2,2,2] \<noteq> None"
  "bar_sched (bar_init 2) [1,1,1,1,1,2,2,2,2,2,2] \<noteq> None"
  by (simp_all add: bar_exec_simps)

lemma barrier_holds_back_witness:
  "2 \<le> int (bar_arrived (bar_two [1,1,1,1,1,2,2,2,2,2,2]))"
proof (rule barrier_holds_back)
  show "reach (bar_init 2) bar_step (bar_two [1,1,1,1,1,2,2,2,2,2,2])"
    using bar_two_runs(2) by (auto simp: bar_two_def intro: bar_sched_reach reach_init simp del: bar_sched.simps)
qed (simp_all add: bar_two_def bar_exec_simps)

theorem barrier_opens_witness:
  "\<exists>s'. bar_run\<^sup>*\<^sup>* (bar_two [1,1,1,1,1,2,2,2]) s' \<and> (\<nexists>s''. bar_run s' s'') \<and> (\<forall>t. bar_at s' t = Bar_outside)"
proof -
  let ?s = "bar_two [1,1,1,1,1,2,2,2]"
  have "reach (bar_init 2) bar_step ?s"
    using bar_two_runs(1) by (auto simp: bar_two_def intro: bar_sched_reach reach_init simp del: bar_sched.simps)
  then have *: "(\<exists>k. \<forall>m s'. (bar_run ^^ m) ?s s' \<longrightarrow> m \<le> k) \<and>
    (\<forall>s'. bar_run\<^sup>*\<^sup>* ?s s' \<and> (\<nexists>s''. bar_run s' s'') \<longrightarrow> (\<forall>t. bar_at s' t = Bar_outside))"
    by (rule barrier_opens [where n = 2 and T = "{1, 2}"]) (auto simp: bar_two_def bar_exec_simps)
  then obtain k where "\<forall>m s'. (bar_run ^^ m) ?s s' \<longrightarrow> m \<le> k" by blast
  then obtain s' where "bar_run\<^sup>*\<^sup>* ?s s'" "\<nexists>s''. bar_run s' s''" by (rule bounded_run_ends)
  with * show ?thesis by blast
qed

end
