(* ===== verification/Block_Allocator.thy ===== *)
theory Block_Allocator
  imports Link_List Double_Link Pow2
begin

text \<open>
  The block allocator of src/epoll_mutilthread/src/block_obj_allocator.c.  Objects of one size are
  cut from blocks; every thread keeps lists of free objects (mem_lists), full mem_lists go to a
  central list.  The memory is one heap per kind of structure: the first words of objects, the list
  nodes of mem_lists and of the sentinels inside the allocators, the mem_lists, the thread
  allocators and their next pointers, the block records and their next pointers.  Memory does not run
  out.  A null or stray access, and an assert that fails, is the value None.
\<close>

section \<open>State\<close>

record mem_list =
  init_size :: u32
  objs_of :: link_list

record thread_allocator =
  ta_free_list :: double_link
  ta_empty_list :: double_link
  free_size :: u32

record block_obj_allocator =
  central_free_list :: double_link
  memory_blocks :: link_list
  thread_allocators :: link_list
  has_mtx :: bool
  t_key :: "nat \<Rightarrow> addr"
  obj_size :: u32

record al_state =
  words :: nheap
  dnodes :: dheap
  memlists :: "addr \<rightharpoonup> mem_list"
  tas :: "addr \<rightharpoonup> thread_allocator"
  ta_nodes :: nheap
  block_nodes :: nheap
  block_mem :: "addr \<rightharpoonup> addr"
  brk :: addr
  central :: block_obj_allocator

definition DEFAULT_BLOCK_SIZE :: nat where
  "DEFAULT_BLOCK_SIZE = 1024 * 1024"

definition al_calloc :: "al_state \<Rightarrow> nat \<Rightarrow> addr \<times> al_state" where
  "al_calloc s n = (brk s, s\<lparr>brk := brk s + n\<rparr>)"

definition null_dnode :: dl_node where
  "null_dnode = \<lparr>dl_pre = NULL, dl_next = NULL\<rparr>"

section \<open>Lists of objects\<close>

definition set_objs :: "al_state \<Rightarrow> addr \<Rightarrow> nheap \<Rightarrow> link_list \<Rightarrow> al_state" where
  "set_objs s m h l = s\<lparr>words := h, memlists := (memlists s)(m := map_option (\<lambda>x. x\<lparr>objs_of := l\<rparr>) (memlists s m))\<rparr>"

definition init_mem_block :: "al_state \<Rightarrow> addr \<Rightarrow> addr \<Rightarrow> u32 \<Rightarrow> al_state option" where
  "init_mem_block s m mb osz = do {
     ml \<leftarrow> memlists s m;
     mem \<leftarrow> block_mem s mb;
     (h, l) \<leftarrow> push_all link_list_push_back (words s) (objs_of ml)
                 (map (\<lambda>i. mem + i * unat osz) [0..<unat (init_size ml)]);
     Some (set_objs s m h l)
   }"

definition create_memlist :: "al_state \<Rightarrow> u32 \<Rightarrow> addr \<times> al_state" where
  "create_memlist s sz =
     (let (m, s) = al_calloc s 48
      in (m, s\<lparr>dnodes := (dnodes s)(m \<mapsto> null_dnode),
               memlists := (memlists s)(m \<mapsto> \<lparr>init_size = of_nat DEFAULT_BLOCK_SIZE div sz,
                                            objs_of = create_link_list\<rparr>)\<rparr>))"

text \<open>A mem_list of the central list, or NULL and a new block, with its memory cleared.\<close>

definition central_get_memlist :: "al_state \<Rightarrow> (addr \<times> addr \<times> al_state) option" where
  "central_get_memlist s = do {
     (m, d) \<leftarrow> double_link_pop (dnodes s) (central_free_list (central s));
     let s = s\<lparr>dnodes := d\<rparr>;
     if m = NULL then do {
       let (mb, s) = al_calloc s 16;
       let (mem, s) = al_calloc s DEFAULT_BLOCK_SIZE;
       let s = s\<lparr>words := (\<lambda>a. if mem \<le> a \<and> a < mem + DEFAULT_BLOCK_SIZE then Some NULL else words s a),
                 block_nodes := (block_nodes s)(mb \<mapsto> NULL), block_mem := (block_mem s)(mb \<mapsto> mem)\<rparr>;
       (h, l) \<leftarrow> link_list_push_back (block_nodes s) (memory_blocks (central s)) mb;
       Some (NULL, mb, s\<lparr>block_nodes := h, central := (central s)\<lparr>memory_blocks := l\<rparr>\<rparr>)
     }
     else Some (m, NULL, s)
   }"

definition give_back_to_central :: "al_state \<Rightarrow> addr \<Rightarrow> al_state option" where
  "give_back_to_central s m = do {
     (_, d) \<leftarrow> double_link_push (dnodes s) (central_free_list (central s)) m;
     Some (s\<lparr>dnodes := d\<rparr>)
   }"

section \<open>The allocator of a thread\<close>

definition set_free_size :: "al_state \<Rightarrow> addr \<Rightarrow> u32 \<Rightarrow> al_state" where
  "set_free_size s a n = s\<lparr>tas := (tas s)(a := map_option (\<lambda>t. t\<lparr>free_size := n\<rparr>) (tas s a))\<rparr>"

text \<open>A mem_list that is empty, from the thread's list of empty ones or new.\<close>

definition empty_memlist :: "al_state \<Rightarrow> addr \<Rightarrow> (addr \<times> al_state) option" where
  "empty_memlist s a = do {
     t \<leftarrow> tas s a;
     (m, d) \<leftarrow> double_link_pop (dnodes s) (ta_empty_list t);
     let s = s\<lparr>dnodes := d\<rparr>;
     if m = NULL then Some (create_memlist s (obj_size (central s))) else Some (m, s)
   }"

text \<open>Getting objects when the thread has none.\<close>

definition thread_allocator_refill :: "al_state \<Rightarrow> addr \<Rightarrow> (addr \<times> al_state) option" where
  "thread_allocator_refill s a = do {
     (m, mb, s) \<leftarrow> central_get_memlist s;
     (m, s) \<leftarrow> (if m = NULL then do {
                  (m, s) \<leftarrow> empty_memlist s a;
                  s \<leftarrow> init_mem_block s m mb (obj_size (central s));
                  Some (m, s)
                } else Some (m, s));
     t \<leftarrow> tas s a;
     (_, d) \<leftarrow> double_link_push (dnodes s) (ta_free_list t) m;
     ml \<leftarrow> memlists s m;
     Some (m, set_free_size (s\<lparr>dnodes := d\<rparr>) a (free_size t + ll_size (objs_of ml)))
   }"

text \<open>Taking an object off a mem_list.\<close>

definition thread_allocator_take :: "al_state \<Rightarrow> addr \<Rightarrow> addr \<Rightarrow> (addr \<times> al_state) option" where
  "thread_allocator_take s a m = do {
     ml \<leftarrow> memlists s m;
     (ptr, h, l) \<leftarrow> link_list_pop (words s) (objs_of ml);
     let s = set_objs s m h l;
     t \<leftarrow> tas s a;
     let s = set_free_size s a (free_size t - 1);
     if ptr = NULL then None
     else if ll_size l = 0 then do {
       (_, d) \<leftarrow> double_link_remove (dnodes s) m;
       (_, d) \<leftarrow> double_link_push d (ta_empty_list t) m;
       Some (ptr, s\<lparr>dnodes := d\<rparr>)
     }
     else Some (ptr, s)
   }"

definition thread_allocator_alloc :: "al_state \<Rightarrow> addr \<Rightarrow> (addr \<times> al_state) option" where
  "thread_allocator_alloc s a = do {
     t \<leftarrow> tas s a;
     (m, s) \<leftarrow> (if free_size t = 0 then thread_allocator_refill s a
                else do { m \<leftarrow> double_link_first (dnodes s) (ta_free_list t); Some (m, s) });
     thread_allocator_take s a m
   }"

text \<open>The last mem_list of the free list that is not full, looked for from the end.\<close>

partial_function (option) dealloc_find :: "al_state \<Rightarrow> addr \<Rightarrow> addr \<Rightarrow> addr option" where
  "dealloc_find s sentinel dl =
     (if dl = sentinel then Some NULL
      else do {
        ml \<leftarrow> memlists s dl;
        if ll_size (objs_of ml) < init_size ml then Some dl
        else do { n \<leftarrow> dl_get (dnodes s) dl; dealloc_find s sentinel (dl_pre n) }
      })"

definition dealloc_memlist :: "al_state \<Rightarrow> addr \<Rightarrow> (addr \<times> al_state) option" where
  "dealloc_memlist s a = do {
     t \<leftarrow> tas s a;
     dl \<leftarrow> double_link_last (dnodes s) (ta_free_list t);
     m \<leftarrow> (if dl \<noteq> NULL then dealloc_find s (dl_head (ta_free_list t)) dl else Some NULL);
     if m = NULL then do {
       (m, s) \<leftarrow> empty_memlist s a;
       (_, d) \<leftarrow> double_link_push (dnodes s) (ta_free_list t) m;
       Some (m, s\<lparr>dnodes := d\<rparr>)
     }
     else Some (m, s)
   }"

definition thread_allocator_dealloc :: "al_state \<Rightarrow> addr \<Rightarrow> addr \<Rightarrow> al_state option" where
  "thread_allocator_dealloc s a ptr = do {
     (m, s) \<leftarrow> dealloc_memlist s a;
     ml \<leftarrow> memlists s m;
     (h, l) \<leftarrow> link_list_push_back (words s) (objs_of ml) ptr;
     let s = set_objs s m h l;
     t \<leftarrow> tas s a;
     let s = set_free_size s a (free_size t + 1);
     if ll_size l = init_size ml \<and> free_size t + 1 \<ge> init_size ml * 2 then do {
       let s = set_free_size s a (free_size t + 1 - ll_size l);
       (_, d) \<leftarrow> double_link_remove (dnodes s) m;
       give_back_to_central (s\<lparr>dnodes := d\<rparr>) m
     }
     else Some s
   }"

definition create_thread_allocator :: "al_state \<Rightarrow> (addr \<times> al_state) option" where
  "create_thread_allocator s = do {
     let (a, s) = al_calloc s 88;
     let t = \<lparr>ta_free_list = \<lparr>dl_head = a + 16, dl_tail = a + 32\<rparr>,
              ta_empty_list = \<lparr>dl_head = a + 48, dl_tail = a + 64\<rparr>, free_size = 0\<rparr>;
     let d = (dnodes s)(a + 16 \<mapsto> null_dnode, a + 32 \<mapsto> null_dnode, a + 48 \<mapsto> null_dnode, a + 64 \<mapsto> null_dnode);
     d \<leftarrow> double_link_clear d (ta_free_list t);
     d \<leftarrow> double_link_clear d (ta_empty_list t);
     (h, l) \<leftarrow> link_list_push_back ((ta_nodes s)(a \<mapsto> NULL)) (thread_allocators (central s)) a;
     Some (a, s\<lparr>dnodes := d, tas := (tas s)(a \<mapsto> t), ta_nodes := h,
               central := (central s)\<lparr>thread_allocators := l\<rparr>\<rparr>)
   }"

section \<open>The allocator\<close>

text \<open>The allocator of thread t, made when it is missing.\<close>

definition thread_cache :: "al_state \<Rightarrow> nat \<Rightarrow> (addr \<times> al_state) option" where
  "thread_cache s t =
     (if has_mtx (central s) then
        (if t_key (central s) t = NULL then do {
           (a, s) \<leftarrow> create_thread_allocator s;
           Some (a, s\<lparr>central := (central s)\<lparr>t_key := (t_key (central s))(t := a)\<rparr>\<rparr>)
         }
         else Some (t_key (central s) t, s))
      else
        (if link_list_head (thread_allocators (central s)) = NULL then create_thread_allocator s
         else Some (link_list_head (thread_allocators (central s)), s)))"

definition block_obj_al_alloc :: "al_state \<Rightarrow> nat \<Rightarrow> (addr \<times> al_state) option" where
  "block_obj_al_alloc s t = do { (a, s) \<leftarrow> thread_cache s t; thread_allocator_alloc s a }"

text \<open>Without a lock, giving an object back to an allocator that never gave one out fails the
  assertion.\<close>

definition block_obj_al_dealloc :: "al_state \<Rightarrow> nat \<Rightarrow> addr \<Rightarrow> al_state option" where
  "block_obj_al_dealloc s t ptr = do {
     (a, s) \<leftarrow> (if has_mtx (central s) then thread_cache s t
                else Some (link_list_head (thread_allocators (central s)), s));
     if a = NULL then None else thread_allocator_dealloc s a ptr
   }"

definition create_block_obj_allocator :: "bool \<Rightarrow> u32 \<Rightarrow> addr \<Rightarrow> al_state option" where
  "create_block_obj_allocator mt osz brk0 = do {
     let osz = (if osz < 8 then 8 else osz);
     let k = GetK osz;
     let osz = push_bit (unat k) (1 :: u32);
     let fl = \<lparr>dl_head = brk0 + 32, dl_tail = brk0 + 48\<rparr>;
     d \<leftarrow> double_link_clear [brk0 + 32 \<mapsto> null_dnode, brk0 + 48 \<mapsto> null_dnode] fl;
     Some \<lparr>words = Map.empty, dnodes = d, memlists = Map.empty, tas = Map.empty, ta_nodes = Map.empty,
       block_nodes = Map.empty, block_mem = Map.empty, brk = brk0 + 96,
       central = \<lparr>central_free_list = fl, memory_blocks = create_link_list,
         thread_allocators = create_link_list, has_mtx = mt, t_key = \<lambda>_. NULL, obj_size = osz\<rparr>\<rparr>
   }"

section \<open>Where the mem_lists are\<close>

text \<open>The list of the central allocator, and the two of each thread.\<close>

datatype dlid = Cen | Fr addr | Em addr

definition dl_ids :: "al_state \<Rightarrow> dlid set" where
  "dl_ids s = insert Cen (Fr ` dom (tas s) \<union> Em ` dom (tas s))"

definition dl_hdr :: "al_state \<Rightarrow> dlid \<Rightarrow> double_link" where
  "dl_hdr s i = (case i of Cen \<Rightarrow> central_free_list (central s)
     | Fr a \<Rightarrow> ta_free_list (the (tas s a)) | Em a \<Rightarrow> ta_empty_list (the (tas s a)))"

text \<open>Every mem_list is in exactly one list, or is one of P, on its way between two lists.\<close>

definition al_lists :: "al_state \<Rightarrow> (dlid \<Rightarrow> addr list) \<Rightarrow> addr set \<Rightarrow> bool" where
  "al_lists s L P \<longleftrightarrow> dlq.family (dnodes s) (dl_ids s) (dl_hdr s) L \<and>
     dom (memlists s) = P \<union> (\<Union>i\<in>dl_ids s. set (L i)) \<and>
     (\<forall>m\<in>P. dl_free (dnodes s) m \<and> (\<forall>i\<in>dl_ids s. m \<notin> set (L i) \<union> dl_foot (dl_hdr s i)))"

lemma dl_ids_simps [simp]: "Cen \<in> dl_ids s" "Fr a \<in> dl_ids s \<longleftrightarrow> a \<in> dom (tas s)" "Em a \<in> dl_ids s \<longleftrightarrow> a \<in> dom (tas s)"
  by (auto simp: dl_ids_def)

lemma dl_hdr_simps [simp]: "dl_hdr s Cen = central_free_list (central s)"
  "dl_hdr s (Fr a) = ta_free_list (the (tas s a))" "dl_hdr s (Em a) = ta_empty_list (the (tas s a))"
  by (simp_all add: dl_hdr_def)

lemma al_lists_cong:
  "al_lists s L P \<Longrightarrow> dnodes s' = dnodes s \<Longrightarrow> dl_ids s' = dl_ids s \<Longrightarrow> dl_hdr s' = dl_hdr s \<Longrightarrow>
     dom (memlists s') = dom (memlists s) \<Longrightarrow> al_lists s' L P"
  by (simp add: al_lists_def)

lemma al_set_simps [simp]:
  "dnodes (set_objs s m h l) = dnodes s" "tas (set_objs s m h l) = tas s" "central (set_objs s m h l) = central s"
  "dl_ids (set_objs s m h l) = dl_ids s" "dl_hdr (set_objs s m h l) = dl_hdr s"
  "dom (memlists (set_objs s m h l)) = dom (memlists s)" "words (set_objs s m h l) = h"
  "brk (set_objs s m h l) = brk s" "ta_nodes (set_objs s m h l) = ta_nodes s"
  "block_nodes (set_objs s m h l) = block_nodes s" "block_mem (set_objs s m h l) = block_mem s"
  "dnodes (set_free_size s a n) = dnodes s" "central (set_free_size s a n) = central s"
  "memlists (set_free_size s a n) = memlists s" "words (set_free_size s a n) = words s"
  "brk (set_free_size s a n) = brk s" "ta_nodes (set_free_size s a n) = ta_nodes s"
  "block_nodes (set_free_size s a n) = block_nodes s" "block_mem (set_free_size s a n) = block_mem s"
  "dom (tas (set_free_size s a n)) = dom (tas s)"
  by (auto simp: set_objs_def set_free_size_def dl_ids_def dl_hdr_def fun_eq_iff split: dlid.splits if_splits)

lemma dl_free_size_simps [simp]:
  "dl_ids (set_free_size s a n) = dl_ids s" "dl_hdr (set_free_size s a n) = dl_hdr s"
proof -
  show "dl_ids (set_free_size s a n) = dl_ids s" by (simp add: dl_ids_def)
  show "dl_hdr (set_free_size s a n) = dl_hdr s"
  proof
    fix i show "dl_hdr (set_free_size s a n) i = dl_hdr s i"
      by (cases i; cases "tas s a") (auto simp: dl_hdr_def set_free_size_def)
  qed
qed

lemma dl_dnodes_simps [simp]: "dl_ids (s\<lparr>dnodes := d\<rparr>) = dl_ids s" "dl_hdr (s\<lparr>dnodes := d\<rparr>) = dl_hdr s"
  by (auto simp: dl_ids_def dl_hdr_def fun_eq_iff split: dlid.splits)

lemma al_lists_in:
  assumes "al_lists s L P" and "i \<in> dl_ids s" and "m \<in> set (L i)"
  shows "m \<in> dom (memlists s)" and "m \<noteq> NULL" and "m \<notin> P" and "\<And>j. j \<in> dl_ids s \<Longrightarrow> m \<in> set (L j) \<Longrightarrow> j = i"
proof -
  have f: "dlq.family (dnodes s) (dl_ids s) (dl_hdr s) L" using assms(1) by (simp add: al_lists_def)
  show "m \<in> dom (memlists s)" using assms by (auto simp: al_lists_def)
  show "m \<noteq> NULL" using dlq.repr_distinct [OF dlq.family_repr [OF f assms(2)]] assms(3) by auto
  show "m \<notin> P" using assms by (auto simp: al_lists_def)
  show "j = i" if "j \<in> dl_ids s" "m \<in> set (L j)" for j
    using dlq.family_disjoint [OF f that(1) assms(2), of m] that assms(3) by auto
qed

lemma al_lists_distinct: "al_lists s L P \<Longrightarrow> i \<in> dl_ids s \<Longrightarrow> distinct (L i)"
  unfolding al_lists_def by (metis dlq.family_repr dlq.repr_distinct)

lemma UN_lists_upd:
  assumes "i \<in> I" and "set (L i) = insert m (set ys)"
  shows "(\<Union>j\<in>I. set (L j)) = {m} \<union> (\<Union>j\<in>I. set ((L(i := ys)) j))"
proof -
  have "(\<Union>j\<in>I. set (L' j)) = set (L' i) \<union> (\<Union>j\<in>I - {i}. set (L' j))" for L' :: "'a \<Rightarrow> 'b list"
    using assms(1) by blast
  from this [of L] this [of "L(i := ys)"] show ?thesis using assms(2) by auto
qed

lemma al_lists_remove:
  assumes l: "al_lists s L {}" and i: "i \<in> dl_ids s" and m: "L i = as @ m # bs"
  obtains d where "double_link_remove (dnodes s) m = Some (0, d)"
    "al_lists (s\<lparr>dnodes := d\<rparr>) (L(i := as @ bs)) {m}" "dom d = dom (dnodes s)"
proof -
  have f: "dlq.family (dnodes s) (dl_ids s) (dl_hdr s) L" and dm: "dom (memlists s) = (\<Union>i\<in>dl_ids s. set (L i))"
    using l by (simp_all add: al_lists_def)
  obtain d where 1: "double_link_remove (dnodes s) m = Some (0, d)" "dlq.family d (dl_ids s) (dl_hdr s) (L(i := as @ bs))"
    "dl_free d m" "\<And>j. j \<in> dl_ids s \<Longrightarrow> m \<notin> set ((L(i := as @ bs)) j) \<union> dl_foot (dl_hdr s j)" "dom d = dom (dnodes s)"
    by (rule double_link_remove_family [OF f i m]) blast
  have "dom (memlists s) = {m} \<union> (\<Union>j\<in>dl_ids s. set ((L(i := as @ bs)) j))"
    using dm m by (subst UN_lists_upd [OF i, symmetric]) auto
  then have "al_lists (s\<lparr>dnodes := d\<rparr>) (L(i := as @ bs)) {m}"
    using 1(2-4) unfolding al_lists_def by simp
  with 1 that show thesis by blast
qed

lemma al_lists_pop:
  assumes l: "al_lists s L {}" and i: "i \<in> dl_ids s" and m: "L i = m # bs"
  obtains d where "double_link_pop (dnodes s) (dl_hdr s i) = Some (m, d)"
    "al_lists (s\<lparr>dnodes := d\<rparr>) (L(i := bs)) {m}" "dom d = dom (dnodes s)"
proof -
  have f: "dlq.family (dnodes s) (dl_ids s) (dl_hdr s) L" and dm: "dom (memlists s) = (\<Union>i\<in>dl_ids s. set (L i))"
    using l by (simp_all add: al_lists_def)
  obtain d where 1: "double_link_pop (dnodes s) (dl_hdr s i) = Some (m, d)" "dlq.family d (dl_ids s) (dl_hdr s) (L(i := bs))"
    "dl_free d m" "\<And>j. j \<in> dl_ids s \<Longrightarrow> m \<notin> set ((L(i := bs)) j) \<union> dl_foot (dl_hdr s j)" "dom d = dom (dnodes s)"
    by (rule double_link_pop_family [OF f i m]) blast
  have "dom (memlists s) = {m} \<union> (\<Union>j\<in>dl_ids s. set ((L(i := bs)) j))"
    using dm m by (subst UN_lists_upd [OF i, symmetric]) auto
  then have "al_lists (s\<lparr>dnodes := d\<rparr>) (L(i := bs)) {m}"
    using 1(2-4) unfolding al_lists_def by simp
  with 1 that show thesis by blast
qed

lemma al_lists_pop_nil:
  "al_lists s L P \<Longrightarrow> i \<in> dl_ids s \<Longrightarrow> L i = [] \<Longrightarrow> double_link_pop (dnodes s) (dl_hdr s i) = Some (NULL, dnodes s)"
  by (auto simp: al_lists_def intro: double_link_pop_family_nil)

lemma al_lists_push:
  assumes l: "al_lists s L {m}" and i: "i \<in> dl_ids s"
  obtains d where "double_link_push (dnodes s) (dl_hdr s i) m = Some (0, d)"
    "al_lists (s\<lparr>dnodes := d\<rparr>) (L(i := L i @ [m])) {}" "dom d = dom (dnodes s)"
proof -
  have f: "dlq.family (dnodes s) (dl_ids s) (dl_hdr s) L" and dm: "dom (memlists s) = {m} \<union> (\<Union>i\<in>dl_ids s. set (L i))"
    and m: "dl_free (dnodes s) m" "\<And>i. i \<in> dl_ids s \<Longrightarrow> m \<notin> set (L i) \<union> dl_foot (dl_hdr s i)"
    using l by (simp_all add: al_lists_def)
  obtain d where 1: "double_link_push (dnodes s) (dl_hdr s i) m = Some (0, d)"
    "dlq.family d (dl_ids s) (dl_hdr s) (L(i := L i @ [m]))" "dom d = dom (dnodes s)"
    by (rule double_link_push_family [OF f i m]) blast+
  have "dom (memlists s) = (\<Union>j\<in>dl_ids s. set ((L(i := L i @ [m])) j))"
    using dm i by (auto split: if_splits)
  then have "al_lists (s\<lparr>dnodes := d\<rparr>) (L(i := L i @ [m])) {}"
    using 1(2) by (simp add: al_lists_def)
  with 1 that show thesis by blast
qed

section \<open>Where the objects are\<close>

definition ol :: "al_state \<Rightarrow> addr \<Rightarrow> link_list" where
  "ol s m = objs_of (the (memlists s m))"

text \<open>Every object is in the hands of the program or in exactly one mem_list; objects lie in the
  allocator's memory and do not overlap.\<close>

definition al_objs :: "al_state \<Rightarrow> (addr \<Rightarrow> addr list) \<Rightarrow> nat \<Rightarrow> addr set \<Rightarrow> bool" where
  "al_objs s Q sz live \<longleftrightarrow>
     ll.family (words s) (dom (memlists s)) (ol s) Q \<and> finite live \<and> finite (dom (memlists s)) \<and>
     (\<forall>m\<in>dom (memlists s). live \<inter> set (Q m) = {}) \<and>
     (\<forall>p\<in>live \<union> (\<Union>m\<in>dom (memlists s). set (Q m)).
        p \<noteq> NULL \<and> {p..<p + sz} \<subseteq> dom (words s) \<and>
        (\<forall>q\<in>live \<union> (\<Union>m\<in>dom (memlists s). set (Q m)). p \<noteq> q \<longrightarrow> p + sz \<le> q \<or> q + sz \<le> p))"

lemma al_objs_cong:
  "al_objs s Q sz live \<Longrightarrow> words s' = words s \<Longrightarrow> ol s' = ol s \<Longrightarrow> dom (memlists s') = dom (memlists s) \<Longrightarrow>
     al_objs s' Q sz live"
  by (simp add: al_objs_def)

lemma ol_set_objs: "m \<in> dom (memlists s) \<Longrightarrow> ol (set_objs s m h l) = (ol s)(m := l)"
  by (auto simp: ol_def set_objs_def fun_eq_iff)

lemma ol_simps [simp]: "ol (set_free_size s a n) = ol s" "ol (s\<lparr>dnodes := d\<rparr>) = ol s"
  by (simp_all add: ol_def fun_eq_iff)

lemma al_objs_repr: "al_objs s Q sz live \<Longrightarrow> m \<in> dom (memlists s) \<Longrightarrow> ll_repr (words s) (ol s m) (Q m)"
  by (auto simp: al_objs_def dest: ll.family_repr)

lemma al_objs_size:
  assumes "al_objs s Q sz live" and "m \<in> dom (memlists s)"
  shows "ll_size (ol s m) = of_nat (length (Q m))" and "length (Q m) < 2 ^ 31"
  using al_objs_repr [OF assms] by (simp_all add: ll_repr_def)

lemma link_list_pop_other: "link_list_pop h l = Some (x, h', l') \<Longrightarrow> q \<noteq> x \<Longrightarrow> h' q = h q"
  by (auto simp: link_list_pop_def node_get_def node_set_def Let_def split: bind_splits if_splits option.splits)

lemma al_objs_take:
  assumes o: "al_objs s Q sz live" and m: "m \<in> dom (memlists s)" and p: "Q m = p # ps"
  obtains h l where "link_list_pop (words s) (ol s m) = Some (p, h, l)"
    "al_objs (set_objs s m h l) (Q(m := ps)) sz (insert p live)" "p \<notin> live" "p \<noteq> NULL"
    "ll_size l = of_nat (length ps)" "ll_size l = 0 \<longleftrightarrow> ps = []" "h p = Some NULL" "dom h = dom (words s)"
    "\<And>q. q \<noteq> p \<Longrightarrow> h q = words s q"
proof -
  have f: "ll.family (words s) (dom (memlists s)) (ol s) Q" using o by (simp add: al_objs_def)
  obtain h l where 1: "link_list_pop (words s) (ol s m) = Some (p, h, l)" "ll_free h p"
    "ll.family h (dom (memlists s)) ((ol s)(m := l)) (Q(m := ps))"
    "\<And>j. j \<in> dom (memlists s) \<Longrightarrow> p \<notin> set ((Q(m := ps)) j)"
    by (rule ll.family_pop [OF f m p]) auto
  have r: "ll_repr h l ps" using ll.family_repr [OF 1(3) m] by simp
  have d: "dom h = dom (words s)" using ll_push_dom(3) [OF 1(1)] .
  have pm: "p \<in> set (Q m)" using p by simp
  have un: "insert p live \<union> (\<Union>j\<in>dom (memlists s). set ((Q(m := ps)) j)) = live \<union> (\<Union>j\<in>dom (memlists s). set (Q j))"
    using UN_lists_upd [OF m, of Q p ps] p by auto
  have "insert p live \<inter> set ((Q(m := ps)) j) = {}" if "j \<in> dom (memlists s)" for j
  proof -
    have "live \<inter> set (Q j) = {}" using o that by (simp add: al_objs_def)
    moreover have "set ((Q(m := ps)) j) \<subseteq> set (Q j)" using p by auto
    ultimately show ?thesis using 1(4) [OF that] by blast
  qed
  then have "al_objs (set_objs s m h l) (Q(m := ps)) sz (insert p live)"
    using o 1(3) m un d unfolding al_objs_def by (simp only: al_set_simps ol_set_objs [OF m]) simp
  moreover have "p \<notin> live" using o m pm unfolding al_objs_def by blast
  ultimately show thesis
    using that 1(1,2) r d ll_repr_size [OF r] link_list_pop_other [OF 1(1)] by (auto simp: ll_free_def ll_repr_def)
qed

lemma al_objs_put:
  assumes o: "al_objs s Q sz live" and m: "m \<in> dom (memlists s)" and p: "p \<in> live" "words s p = Some NULL"
    and len: "Suc (length (Q m)) < 2 ^ 31"
  obtains h l where "link_list_push_back (words s) (ol s m) p = Some (h, l)"
    "al_objs (set_objs s m h l) (Q(m := Q m @ [p])) sz (live - {p})"
    "ll_size l = of_nat (Suc (length (Q m)))" "dom h = dom (words s)" "\<And>q. q \<in> live - {p} \<Longrightarrow> h q = words s q"
proof -
  have f: "ll.family (words s) (dom (memlists s)) (ol s) Q" using o by (simp add: al_objs_def)
  have dis: "live \<inter> set (Q j) = {}" if "j \<in> dom (memlists s)" for j using o that by (simp add: al_objs_def)
  have fr: "ll_free (words s) p" using o p by (simp add: al_objs_def ll_free_def)
  have rm: "ll_room (Suc (length (Q m)))" using len by (simp add: ll_room_def)
  have np: "p \<notin> set (Q j) \<union> {}" if "j \<in> dom (memlists s)" for j
    using dis [OF that] p(1) by blast
  obtain h l where 1: "link_list_push_back (words s) (ol s m) p = Some (h, l)"
    "ll.family h (dom (memlists s)) ((ol s)(m := l)) (Q(m := Q m @ [p]))"
    "\<And>q. q \<notin> insert p (set (Q m)) \<Longrightarrow> h q = words s q"
    by (rule ll.family_push [OF f m fr np rm]) auto
  have r: "ll_repr h l (Q m @ [p])" using ll.family_repr [OF 1(2) m] by simp
  have d: "dom h = dom (words s)" using ll_push_dom(1) [OF 1(1)] .
  have "(\<Union>j\<in>dom (memlists s). set ((Q(m := Q m @ [p])) j)) = {p} \<union> (\<Union>j\<in>dom (memlists s). set (Q j))"
    using UN_lists_upd [OF m, of "Q(m := Q m @ [p])" p "Q m"] by simp
  then have un: "(live - {p}) \<union> (\<Union>j\<in>dom (memlists s). set ((Q(m := Q m @ [p])) j)) = live \<union> (\<Union>j\<in>dom (memlists s). set (Q j))"
    using p(1) by auto
  have "(live - {p}) \<inter> set ((Q(m := Q m @ [p])) j) = {}" if "j \<in> dom (memlists s)" for j
    using dis [OF that] by auto
  then have "al_objs (set_objs s m h l) (Q(m := Q m @ [p])) sz (live - {p})"
    using o 1(2) m un d unfolding al_objs_def by (simp only: al_set_simps ol_set_objs [OF m]) simp
  moreover have "h q = words s q" if "q \<in> live - {p}" for q
    using 1(3) [of q] dis [OF m] that by blast
  ultimately show thesis using that 1(1) r d by (auto simp: ll_repr_def)
qed

text \<open>The objects of a block.\<close>

lemma block_objs_sep:
  fixes b sz n :: nat
  assumes "p \<in> (\<lambda>i. b + i * sz) ` {0..<n}" and "q \<in> (\<lambda>i. b + i * sz) ` {0..<n}" and "p \<noteq> q"
  shows "p + sz \<le> q \<or> q + sz \<le> p"
proof -
  have le: "b + i * sz + sz \<le> b + j * sz" if "i < j" for i j :: nat
    using mult_le_mono1 [of "Suc i" j sz] that by simp
  obtain i where "p = b + i * sz" using assms(1) by (rule imageE)
  moreover obtain j where "q = b + j * sz" using assms(2) by (rule imageE)
  ultimately show ?thesis using assms(3) le [of i j] le [of j i] by (cases i j rule: linorder_cases) auto
qed

lemma block_objs_in:
  fixes b sz n K :: nat
  assumes "p \<in> (\<lambda>i. b + i * sz) ` {0..<n}" and "n * sz \<le> K"
  shows "b \<le> p \<and> p + sz \<le> b + K"
proof -
  obtain i where i0: "p = b + i * sz" "i \<in> {0..<n}" using assms(1) by (rule imageE)
  then have i: "p = b + i * sz" "i < n" by simp_all
  then have "Suc i * sz \<le> n * sz" by (intro mult_le_mono1) simp
  with i assms(2) show ?thesis by simp
qed

lemma UN_lists_fill:
  assumes "i \<in> I" and "L i = []"
  shows "(\<Union>j\<in>I. set ((L(i := ys)) j)) = set ys \<union> (\<Union>j\<in>I. set (L j))"
proof -
  have "(\<Union>j\<in>I. set (L' j)) = set (L' i) \<union> (\<Union>j\<in>I - {i}. set (L' j))" for L' :: "'a \<Rightarrow> 'b list"
    using assms(1) by blast
  from this [of L] this [of "L(i := ys)"] show ?thesis using assms(2) by auto
qed

lemma ll_push_all_dom: "push_all link_list_push_back h l ns = Some (h', l') \<Longrightarrow> dom h' = dom h"
proof (induction ns arbitrary: h l)
  case (Cons n ns)
  then obtain h1 l1 where 1: "link_list_push_back h l n = Some (h1, l1)"
    "push_all link_list_push_back h1 l1 ns = Some (h', l')"
    by (auto split: bind_splits)
  then show ?case using Cons.IH ll_push_dom(1) by metis
qed simp

text \<open>Filling an empty mem_list from a block of memory that has just been added.\<close>

lemma al_objs_fill:
  assumes o: "al_objs s Q sz live" and m: "m \<in> dom (memlists s)" and e: "Q m = []"
    and mem: "dom (words s) \<subseteq> {..<b}" "0 < b" and n: "0 < sz" "n * sz \<le> K" "n < 2 ^ 31"
    and w: "w = (\<lambda>a. if b \<le> a \<and> a < b + K then Some NULL else words s a)"
  obtains h l where "push_all link_list_push_back w (ol s m) (map (\<lambda>i. b + i * sz) [0..<n]) = Some (h, l)"
    "al_objs (set_objs s m h l) (Q(m := map (\<lambda>i. b + i * sz) [0..<n])) sz live"
    "dom h \<subseteq> {..<b + K}" "\<And>q. q \<in> live \<Longrightarrow> h q = words s q"
proof -
  let ?ns = "map (\<lambda>i. b + i * sz) [0..<n]"
  let ?M = "dom (memlists s)"
  let ?A = "live \<union> (\<Union>j\<in>?M. set (Q j))"
  have f0: "ll.family (words s) ?M (ol s) Q" using o by (simp add: al_objs_def)
  have A: "p \<noteq> NULL \<and> {p..<p + sz} \<subseteq> dom (words s) \<and> (\<forall>q\<in>?A. p \<noteq> q \<longrightarrow> p + sz \<le> q \<or> q + sz \<le> p)"
    if "p \<in> ?A" for p
    using o that by (simp only: al_objs_def) blast
  have oldb: "p + sz \<le> b" if "p \<in> ?A" for p
  proof -
    have "p + sz - 1 \<in> {p..<p + sz}" using n(1) by auto
    then have "p + sz - 1 \<in> dom (words s)" using A [OF that] by (elim conjE) (rule subsetD)
    then have "p + sz - 1 < b" using mem(1) by auto
    then show ?thesis by linarith
  qed
  have old: "p < b" if "p \<in> ?A" for p
    using oldb [OF that] n(1) by linarith
  have new: "b \<le> p \<and> p + sz \<le> b + K" if "p \<in> set ?ns" for p
    using block_objs_in [of p b sz n K] that n(2) by auto
  have f: "ll.family w ?M (ol s) Q"
  proof (rule ll.family_cong [OF f0])
    fix i a assume "i \<in> ?M" "a \<in> set (Q i) \<union> {}"
    then have "a < b" using old [of a] by blast
    then show "w a = words s a" by (simp add: w)
  qed simp_all
  have r0: "ll_repr w (ol s m) []" using ll.family_repr [OF f m] e by simp
  have d: "distinct ?ns" using n(1) by (auto simp: distinct_map inj_on_def)
  have frees: "\<forall>p\<in>set ?ns. ll_free w p"
  proof
    fix p assume "p \<in> set ?ns"
    then have "b \<le> p \<and> p < b + K" using new n(1) by fastforce
    then show "ll_free w p" using mem(2) by (simp add: ll_free_def w)
  qed
  obtain h l where 1: "push_all link_list_push_back w (ol s m) ?ns = Some (h, l)" "ll_repr h l ?ns"
    "\<And>a. a \<notin> set ?ns \<Longrightarrow> h a = w a"
    using ll.push_all_ex [OF r0 frees d] n(3) by (auto simp: ll_room_def)
  have far: "set ?ns \<inter> set (Q j) = {}" if "j \<in> ?M" for j
    using new old that by fastforce
  have fam: "ll.family h ?M ((ol s)(m := l)) (Q(m := ?ns))"
    by (rule ll.family_upd [OF f m 1(2), of "set ?ns"]) (use 1(3) far in auto)
  have dh: "dom h = dom w" by (rule ll_push_all_dom [OF 1(1)])
  have dw: "dom w = dom (words s) \<union> {b..<b + K}" by (auto simp: w split: if_splits)
  have un: "live \<union> (\<Union>j\<in>?M. set ((Q(m := ?ns)) j)) = ?A \<union> set ?ns"
    using UN_lists_fill [OF m, of Q ?ns] e by auto
  have good: "p \<noteq> NULL \<and> {p..<p + sz} \<subseteq> dom h \<and> (\<forall>q\<in>?A \<union> set ?ns. p \<noteq> q \<longrightarrow> p + sz \<le> q \<or> q + sz \<le> p)"
    if p: "p \<in> ?A \<union> set ?ns" for p
  proof (cases "p \<in> ?A")
    case True
    have "p + sz \<le> q" if "q \<in> set ?ns" for q using new [OF that] oldb [OF True] by linarith
    moreover have "{p..<p + sz} \<subseteq> dom h" unfolding dh dw using A [OF True] by (intro le_supI1) simp
    ultimately show ?thesis using A [OF True] by (simp only: Un_iff) blast
  next
    case False
    then have pn: "p \<in> set ?ns" using p by blast
    have "q + sz \<le> p" if "q \<in> ?A" for q
      using new [OF pn] oldb [OF that] by linarith
    moreover have "p + sz \<le> q \<or> q + sz \<le> p" if "q \<in> set ?ns" "p \<noteq> q" for q
      using block_objs_sep [of p b sz n q] pn that by auto
    moreover have "{p..<p + sz} \<subseteq> dom h" using new [OF pn] dh dw by auto
    moreover have "p \<noteq> NULL" using new [OF pn] mem(2) by auto
    ultimately show ?thesis by (simp only: Un_iff) blast
  qed
  have fin: "finite live" "finite ?M" using o by (simp_all add: al_objs_def)
  have lv: "live \<inter> set ((Q(m := ?ns)) j) = {}" if "j \<in> ?M" for j
  proof (cases "j = m")
    case True
    then show ?thesis using new old by fastforce
  next
    case False
    then show ?thesis using o that by (simp add: al_objs_def)
  qed
  have "al_objs (set_objs s m h l) (Q(m := ?ns)) sz live"
    unfolding al_objs_def al_set_simps ol_set_objs [OF m] un
    by (intro conjI fam fin ballI [OF lv] ballI [OF good])
  moreover have "dom h \<subseteq> {..<b + K}" using dh dw mem(1) by auto
  moreover have "h q = words s q" if "q \<in> live" for q
  proof -
    have "q < b" using old that by blast
    then have "q \<notin> set ?ns" using new by fastforce
    then show ?thesis using 1(3) \<open>q < b\<close> by (simp add: w)
  qed
  ultimately show thesis using that [OF 1(1)] by simp
qed

section \<open>How much is where\<close>

text \<open>The free objects of a thread.\<close>

definition cached :: "(dlid \<Rightarrow> addr list) \<Rightarrow> (addr \<Rightarrow> addr list) \<Rightarrow> addr \<Rightarrow> nat" where
  "cached L Q a = (\<Sum>m\<leftarrow>L (Fr a). length (Q m))"

text \<open>
  A mem_list holds at most N objects; those of the central list are full; a thread's free list has at
  most two, none of them empty but possibly the one X that is about to get an object, and its
  free_size is the number of objects in them, fewer than 2 N.
\<close>

definition al_caps :: "al_state \<Rightarrow> (dlid \<Rightarrow> addr list) \<Rightarrow> (addr \<Rightarrow> addr list) \<Rightarrow> nat \<Rightarrow> addr \<Rightarrow> bool" where
  "al_caps s L Q N X \<longleftrightarrow>
     (\<forall>m\<in>dom (memlists s). init_size (the (memlists s m)) = of_nat N \<and> length (Q m) \<le> N) \<and>
     (\<forall>m\<in>set (L Cen). length (Q m) = N) \<and>
     (\<forall>a\<in>dom (tas s).
        (\<forall>m\<in>set (L (Em a)). Q m = []) \<and> (\<forall>m\<in>set (L (Fr a)). Q m = [] \<longrightarrow> m = X) \<and>
        length (L (Fr a)) \<le> 2 \<and> free_size (the (tas s a)) = of_nat (cached L Q a) \<and> cached L Q a < 2 * N)"

lemma cached_cong: "L' (Fr a) = L (Fr a) \<Longrightarrow> (\<And>m. m \<in> set (L (Fr a)) \<Longrightarrow> Q' m = Q m) \<Longrightarrow> cached L' Q' a = cached L Q a"
  by (simp add: cached_def cong: map_cong)

lemma al_caps_thread:
  assumes "al_caps s L Q N X" and "tas s a = Some t"
  shows "\<And>m. m \<in> set (L (Em a)) \<Longrightarrow> Q m = []" and "\<And>m. m \<in> set (L (Fr a)) \<Longrightarrow> Q m = [] \<Longrightarrow> m = X"
    and "length (L (Fr a)) \<le> 2" and "free_size t = of_nat (cached L Q a)" and "cached L Q a < 2 * N"
proof -
  have "a \<in> dom (tas s)" using assms(2) by auto
  with assms(1) have *: "(\<forall>m\<in>set (L (Em a)). Q m = []) \<and> (\<forall>m\<in>set (L (Fr a)). Q m = [] \<longrightarrow> m = X) \<and>
      length (L (Fr a)) \<le> 2 \<and> free_size (the (tas s a)) = of_nat (cached L Q a) \<and> cached L Q a < 2 * N"
    unfolding al_caps_def by (elim conjE) (rule bspec)
  then show "length (L (Fr a)) \<le> 2" "free_size t = of_nat (cached L Q a)" "cached L Q a < 2 * N"
    using assms(2) by simp_all
  show "Q m = []" if "m \<in> set (L (Em a))" for m using * that by blast
  show "m = X" if "m \<in> set (L (Fr a))" "Q m = []" for m using * that by blast
qed

lemma al_caps_memlist:
  assumes "al_caps s L Q N X" and "m \<in> dom (memlists s)"
  shows "init_size (the (memlists s m)) = of_nat N" and "length (Q m) \<le> N"
  using assms unfolding al_caps_def by blast+

lemma al_caps_central: "al_caps s L Q N X \<Longrightarrow> m \<in> set (L Cen) \<Longrightarrow> length (Q m) = N"
  by (simp add: al_caps_def)

text \<open>What an operation on the lists and objects leaves alone.\<close>

definition al_same :: "al_state \<Rightarrow> al_state \<Rightarrow> bool" where
  "al_same s s' \<longleftrightarrow> central s' = central s \<and> brk s' = brk s \<and> ta_nodes s' = ta_nodes s \<and>
     block_nodes s' = block_nodes s \<and> block_mem s' = block_mem s \<and> dom (tas s') = dom (tas s) \<and>
     dom (words s') = dom (words s) \<and> dom (memlists s') = dom (memlists s) \<and> dom (dnodes s') = dom (dnodes s)"

lemma al_same_refl: "al_same s s"
  by (simp add: al_same_def)

lemma al_same_trans: "al_same s s' \<Longrightarrow> al_same s' s'' \<Longrightarrow> al_same s s''"
  by (simp add: al_same_def)

lemma memlist_set_objs [simp]:
  "memlists s m = Some x \<Longrightarrow> memlists (set_objs s m h l) m = Some (x\<lparr>objs_of := l\<rparr>)"
  "k \<noteq> m \<Longrightarrow> memlists (set_objs s m h l) k = memlists s k"
  by (simp_all add: set_objs_def)

lemma tas_set_free_size [simp]:
  "tas s a = Some t \<Longrightarrow> tas (set_free_size s a n) a = Some (t\<lparr>free_size := n\<rparr>)"
  "b \<noteq> a \<Longrightarrow> tas (set_free_size s a n) b = tas s b"
  by (simp_all add: set_free_size_def)

lemma init_size_set_objs [simp]:
  "k \<in> dom (memlists s) \<Longrightarrow> init_size (the (memlists (set_objs s m h l) k)) = init_size (the (memlists s k))"
  by (cases "k = m") (auto simp: set_objs_def)

text \<open>Capacities after the mem_lists of one thread a, or their contents, have changed.\<close>

lemma al_caps_upd:
  assumes c: "al_caps s L Q N X" and a: "a \<in> dom (tas s)"
    and dom: "dom (memlists s') = dom (memlists s)" "dom (tas s') = dom (tas s)"
    and ini: "\<And>k. k \<in> dom (memlists s) \<Longrightarrow> init_size (the (memlists s' k)) = init_size (the (memlists s k))"
    and tas: "\<And>b. b \<noteq> a \<Longrightarrow> tas s' b = tas s b"
    and L: "\<And>b. b \<noteq> a \<Longrightarrow> L' (Fr b) = L (Fr b) \<and> L' (Em b) = L (Em b)"
    and Q: "\<And>b k. b \<noteq> a \<Longrightarrow> b \<in> dom (tas s) \<Longrightarrow> k \<in> set (L (Fr b)) \<union> set (L (Em b)) \<Longrightarrow> Q' k = Q k \<and> k \<noteq> X"
    and len: "\<And>k. k \<in> dom (memlists s) \<Longrightarrow> length (Q' k) \<le> N"
    and cen: "\<And>k. k \<in> set (L' Cen) \<Longrightarrow> length (Q' k) = N"
    and own: "\<And>k. k \<in> set (L' (Em a)) \<Longrightarrow> Q' k = []" "\<And>k. k \<in> set (L' (Fr a)) \<Longrightarrow> Q' k = [] \<Longrightarrow> k = X'"
      "length (L' (Fr a)) \<le> 2" "free_size (the (tas s' a)) = of_nat (cached L' Q' a)" "cached L' Q' a < 2 * N"
  shows "al_caps s' L' Q' N X'"
proof -
  have other: "(\<forall>m\<in>set (L' (Em b)). Q' m = []) \<and> (\<forall>m\<in>set (L' (Fr b)). Q' m = [] \<longrightarrow> m = X') \<and>
      length (L' (Fr b)) \<le> 2 \<and> free_size (the (tas s' b)) = of_nat (cached L' Q' b) \<and> cached L' Q' b < 2 * N"
    if b: "b \<in> dom (tas s)" "b \<noteq> a" for b
  proof -
    have "cached L' Q' b = cached L Q b" using L [OF b(2)] Q [OF b(2,1)] by (intro cached_cong) auto
    moreover obtain t where t: "tas s b = Some t" using b(1) by auto
    note th = al_caps_thread [OF c t]
    have "m = X'" if "m \<in> set (L (Fr b))" "Q m = []" for m using th(2) [OF that] Q [OF b(2,1), of m] that(1) by blast
    ultimately show ?thesis using th t tas [OF b(2)] L [OF b(2)] Q [OF b(2,1)] by auto
  qed
  show ?thesis
    unfolding al_caps_def dom
  proof (intro conjI ballI)
    fix m assume m: "m \<in> dom (memlists s)"
    show "init_size (the (memlists s' m)) = of_nat N" using ini [OF m] c m by (simp add: al_caps_def)
    show "length (Q' m) \<le> N" by (rule len [OF m])
  next
    fix m assume "m \<in> set (L' Cen)" then show "length (Q' m) = N" by (rule cen)
  next
    fix b assume b: "b \<in> dom (tas s)"
    show "length (L' (Fr b)) \<le> 2" "free_size (the (tas s' b)) = of_nat (cached L' Q' b)" "cached L' Q' b < 2 * N"
      using other [OF b] own(3-5) by (cases "b = a"; blast)+
    show "Q' m = []" if "m \<in> set (L' (Em b))" for m using other [OF b] own(1) that by (cases "b = a") blast+
    show "Q' m = [] \<longrightarrow> m = X'" if "m \<in> set (L' (Fr b))" for m using other [OF b] own(2) that by (cases "b = a") blast+
  qed
qed

lemma thread_allocator_take_ok:
  assumes l: "al_lists s L {}" and o: "al_objs s Q sz live" and c: "al_caps s L Q N NULL" and N: "N < 2 ^ 31"
    and a: "a \<in> dom (tas s)" and m: "L (Fr a) = m # ms"
  obtains p s' L' where "thread_allocator_take s a m = Some (p, s')" "p \<notin> live" "al_lists s' L' {}"
    "al_objs s' (Q(m := tl (Q m))) sz (insert p live)" "al_caps s' L' (Q(m := tl (Q m))) N NULL" "al_same s s'"
    "Q m \<noteq> []" "m \<in> dom (memlists s)" "words s' p = Some NULL" "\<And>q. q \<noteq> p \<Longrightarrow> words s' q = words s q"
proof -
  have mF: "m \<in> set (L (Fr a))" and fr: "Fr a \<in> dl_ids s" and em: "Em a \<in> dl_ids s" using m a by auto
  note min = al_lists_in [OF l fr mF]
  have Qm: "Q m \<noteq> []" using c a mF min(2) by (auto simp: al_caps_def)
  then obtain p ps where ps: "Q m = p # ps" by (cases "Q m") auto
  obtain ml where ml: "memlists s m = Some ml" using min(1) by auto
  obtain t where t: "tas s a = Some t" using a by auto
  obtain h lk where 1: "link_list_pop (words s) (ol s m) = Some (p, h, lk)"
    "al_objs (set_objs s m h lk) (Q(m := ps)) sz (insert p live)" "p \<notin> live" "p \<noteq> NULL"
    "ll_size lk = 0 \<longleftrightarrow> ps = []" "h p = Some NULL" "dom h = dom (words s)" "\<And>q. q \<noteq> p \<Longrightarrow> h q = words s q"
    by (rule al_objs_take [OF o min(1) ps]) blast
  have pop: "link_list_pop (words s) (objs_of ml) = Some (p, h, lk)" using 1(1) ml by (simp add: ol_def)
  define s1 where "s1 = set_free_size (set_objs s m h lk) a (free_size t - 1)"
  have l1: "al_lists s1 L {}" by (rule al_lists_cong [OF l]) (simp_all add: s1_def)
  have o1: "al_objs s1 (Q(m := ps)) sz (insert p live)" by (rule al_objs_cong [OF 1(2)]) (simp_all add: s1_def)
  have same1: "al_same s s1" using 1(7) by (simp add: al_same_def s1_def)
  have w1: "words s1 p = Some NULL" "\<And>q. q \<noteq> p \<Longrightarrow> words s1 q = words s q" using 1(6,8) by (simp_all add: s1_def)
  have notm: "m \<notin> set ms" using al_lists_distinct [OF l fr] m by simp
  have oth: "k \<noteq> m" if "i \<in> dl_ids s" "i \<noteq> Fr a" "k \<in> set (L i)" for i k
    using min(4) [OF that(1)] that(2,3) by blast
  have cz: "cached L Q a = Suc (length ps) + (\<Sum>k\<leftarrow>ms. length (Q k))" using m ps by (simp add: cached_def)
  have cm: "(\<Sum>k\<leftarrow>ms. length ((Q(m := ps)) k)) = (\<Sum>k\<leftarrow>ms. length (Q k))"
    using notm by (auto intro!: arg_cong [where f = sum_list] map_cong)
  have fs: "free_size t = of_nat (cached L Q a)" and c2: "cached L Q a < 2 * N" and l2: "length (L (Fr a)) \<le> 2"
    and lenN: "\<And>k. k \<in> dom (memlists s) \<Longrightarrow> length (Q k) \<le> N"
    and cenN: "\<And>k. k \<in> set (L Cen) \<Longrightarrow> length (Q k) = N"
    and emp: "\<And>k. k \<in> set (L (Em a)) \<Longrightarrow> Q k = []" and full: "\<And>k. k \<in> set (L (Fr a)) \<Longrightarrow> Q k = [] \<Longrightarrow> k = NULL"
    using al_caps_thread [OF c t] al_caps_memlist(2) [OF c] al_caps_central [OF c] by auto
  have free1: "tas s1 a = Some (t\<lparr>free_size := of_nat (cached L Q a - 1)\<rparr>)"
    using t fs cz by (simp add: s1_def)
  have take: "thread_allocator_take s a m = (if ps = [] then do {
       (_, d) \<leftarrow> double_link_remove (dnodes s1) m;
       (_, d) \<leftarrow> double_link_push d (ta_empty_list t) m;
       Some (p, s1\<lparr>dnodes := d\<rparr>) } else Some (p, s1))"
    using ml t pop 1(4,5) by (simp add: thread_allocator_take_def s1_def Let_def)
  have caps: "al_caps s' L' (Q(m := ps)) N NULL"
    if s': "memlists s' = memlists s1" "tas s' = tas s1" and L': "\<And>i. i \<noteq> Fr a \<Longrightarrow> i \<noteq> Em a \<Longrightarrow> L' i = L i"
      and E: "set (L' (Em a)) \<subseteq> set (L (Em a)) \<union> (if ps = [] then {m} else {})"
      and F: "set (L' (Fr a)) \<subseteq> set (L (Fr a)) - (if ps = [] then {m} else {})" "length (L' (Fr a)) \<le> 2"
        "cached L' (Q(m := ps)) a = cached L Q a - 1"
    for s' L'
  proof (rule al_caps_upd [OF c a])
    show "dom (memlists s') = dom (memlists s)" "dom (tas s') = dom (tas s)" using s' by (simp_all add: s1_def)
    show "init_size (the (memlists s' k)) = init_size (the (memlists s k))" if "k \<in> dom (memlists s)" for k
      using s'(1) that by (simp add: s1_def)
    show "tas s' b = tas s b" if "b \<noteq> a" for b using s'(2) that by (simp add: s1_def)
    show "L' (Fr b) = L (Fr b) \<and> L' (Em b) = L (Em b)" if "b \<noteq> a" for b using L' that by simp
    show "(Q(m := ps)) k = Q k \<and> k \<noteq> NULL" if "b \<noteq> a" "b \<in> dom (tas s)" "k \<in> set (L (Fr b)) \<union> set (L (Em b))" for b k
      using that oth [of "Fr b" k] oth [of "Em b" k] al_lists_in(2) [OF l, of "Fr b" k] al_lists_in(2) [OF l, of "Em b" k] by auto
    show "length ((Q(m := ps)) k) \<le> N" if "k \<in> dom (memlists s)" for k
      using lenN [OF that] ps by (cases "k = m") auto
    show "length ((Q(m := ps)) k) = N" if "k \<in> set (L' Cen)" for k
      using that L' [of Cen] cenN oth [of Cen k] by auto
    show "(Q(m := ps)) k = []" if "k \<in> set (L' (Em a))" for k
      using that E emp oth [OF em, of k] by (auto split: if_splits)
    show "k = NULL" if "k \<in> set (L' (Fr a))" "(Q(m := ps)) k = []" for k
      using that F(1) full [of k] by (cases "k = m") (auto split: if_splits)
    show "length (L' (Fr a)) \<le> 2" by (rule F(2))
    show "free_size (the (tas s' a)) = of_nat (cached L' (Q(m := ps)) a)" using s'(2) free1 F(3) by simp
    show "cached L' (Q(m := ps)) a < 2 * N" using F(3) c2 by simp
  qed
  have Qu: "Q(m := ps) = Q(m := tl (Q m))" using ps by simp
  show thesis
  proof (cases "ps = []")
    case False
    have "al_caps s1 L (Q(m := ps)) N NULL"
      by (rule caps) (use False l2 cz cm m in \<open>auto simp: cached_def\<close>)
    then show thesis
      using that [of p s1 L] take False 1(3) l1 o1 same1 Qm min(1) w1 by (simp add: Qu)
  next
    case True
    have fr1: "Fr a \<in> dl_ids s1" and em1: "Em a \<in> dl_ids s1" using a same1 by (auto simp: al_same_def)
    obtain d1 where d1: "double_link_remove (dnodes s1) m = Some (0, d1)"
      "al_lists (s1\<lparr>dnodes := d1\<rparr>) (L(Fr a := ms)) {m}" "dom d1 = dom (dnodes s1)"
      by (rule al_lists_remove [OF l1 fr1, of "[]" m ms]) (use m in auto)
    have em2: "Em a \<in> dl_ids (s1\<lparr>dnodes := d1\<rparr>)" using em1 by simp
    have hdr: "dl_hdr (s1\<lparr>dnodes := d1\<rparr>) (Em a) = ta_empty_list t" using free1 by simp
    define L' where "L' = L(Fr a := ms, Em a := L (Em a) @ [m])"
    obtain d2 where d2: "double_link_push d1 (ta_empty_list t) m = Some (0, d2)"
      "al_lists (s1\<lparr>dnodes := d2\<rparr>) L' {}" "dom d2 = dom d1"
      using al_lists_push [OF d1(2) em2] unfolding hdr L'_def by auto
    have "al_caps (s1\<lparr>dnodes := d2\<rparr>) L' (Q(m := ps)) N NULL"
      by (rule caps) (use True l2 cz cm m notm in \<open>auto simp: cached_def L'_def\<close>)
    moreover have "al_objs (s1\<lparr>dnodes := d2\<rparr>) (Q(m := ps)) sz (insert p live)"
      by (rule al_objs_cong [OF o1]) simp_all
    moreover have "al_same s (s1\<lparr>dnodes := d2\<rparr>)" using same1 d1(3) d2(3) by (simp add: al_same_def)
    moreover have "thread_allocator_take s a m = Some (p, s1\<lparr>dnodes := d2\<rparr>)"
      using take True d1(1) d2(1) by simp
    ultimately show thesis
      using that [of p "s1\<lparr>dnodes := d2\<rparr>" L'] 1(3) d2(2) Qm min(1) w1 by (simp add: Qu)
  qed
qed

section \<open>Memory, and the lists of blocks and thread allocators\<close>

text \<open>Everything in use lies below brk, and not at NULL.\<close>

definition al_mem :: "al_state \<Rightarrow> bool" where
  "al_mem s \<longleftrightarrow> 0 < brk s \<and> dom (words s) \<subseteq> {..<brk s} \<and> dom (dnodes s) \<subseteq> {..<brk s} \<and>
     dom (memlists s) \<subseteq> {..<brk s} \<and> dom (tas s) \<subseteq> {..<brk s} \<and> dom (ta_nodes s) \<subseteq> {..<brk s} \<and>
     dom (block_nodes s) \<subseteq> {..<brk s}"

definition al_dirs :: "al_state \<Rightarrow> addr list \<Rightarrow> addr list \<Rightarrow> bool" where
  "al_dirs s TL BL \<longleftrightarrow>
     ll_repr (ta_nodes s) (thread_allocators (central s)) TL \<and> set TL = dom (tas s) \<and>
     (if has_mtx (central s) then \<forall>t. t_key (central s) t = NULL \<or> t_key (central s) t \<in> dom (tas s)
      else length TL \<le> 1) \<and>
     ll_repr (block_nodes s) (memory_blocks (central s)) BL \<and> dom (block_mem s) = set BL"

text \<open>The number of free objects.\<close>

definition al_total :: "al_state \<Rightarrow> (addr \<Rightarrow> addr list) \<Rightarrow> nat" where
  "al_total s Q = (\<Sum>m\<in>dom (memlists s). length (Q m))"

lemma al_same_mem: "al_same s s' \<Longrightarrow> al_mem s \<Longrightarrow> al_mem s'"
  by (simp add: al_same_def al_mem_def)

lemma al_same_dirs: "al_same s s' \<Longrightarrow> al_dirs s TL BL \<Longrightarrow> al_dirs s' TL BL"
  by (auto simp: al_same_def al_dirs_def)

lemma ll_repr_dom: "ll_repr h l xs \<Longrightarrow> set xs \<subseteq> dom h"
  by (auto simp: ll_repr_def dest: ll_seg_dom)

lemma al_dirs_new_block:
  assumes d: "al_dirs s TL BL" and m: "al_mem s" and len: "Suc (length BL) < 2 ^ 31"
  obtains h l where "link_list_push_back ((block_nodes s)(brk s \<mapsto> NULL)) (memory_blocks (central s)) (brk s) = Some (h, l)"
    "ll_repr h l (BL @ [brk s])" "dom h = insert (brk s) (dom (block_nodes s))"
proof -
  have r: "ll_repr (block_nodes s) (memory_blocks (central s)) BL" using d by (simp add: al_dirs_def)
  have fresh: "brk s \<notin> set BL" 
  proof
    assume "brk s \<in> set BL"
    then have "brk s \<in> dom (block_nodes s)" using ll_repr_dom [OF r] by blast
    then show False using m unfolding al_mem_def by blast
  qed
  have r': "ll_repr ((block_nodes s)(brk s \<mapsto> NULL)) (memory_blocks (central s)) BL"
    using r fresh by (subst ll_repr_cong [of BL _ "block_nodes s"]) auto
  have fr: "ll_free ((block_nodes s)(brk s \<mapsto> NULL)) (brk s)" using m by (simp add: ll_free_def al_mem_def)
  obtain h l where 1: "link_list_push_back ((block_nodes s)(brk s \<mapsto> NULL)) (memory_blocks (central s)) (brk s) = Some (h, l)"
    "ll_repr h l (BL @ [brk s])"
    by (rule link_list_push_back_repr [OF r' fr fresh]) (use len in \<open>simp add: ll_room_def\<close>)
  with that ll_push_dom(1) [OF 1(1)] show thesis by simp
qed

section \<open>An empty mem_list\<close>

lemma al_objs_new_memlist:
  assumes o: "al_objs s Q sz live" and m: "m \<notin> dom (memlists s)"
  shows "al_objs (s\<lparr>memlists := (memlists s)(m \<mapsto> \<lparr>init_size = n, objs_of = create_link_list\<rparr>)\<rparr>) (Q(m := [])) sz live"
proof -
  let ?s = "s\<lparr>memlists := (memlists s)(m \<mapsto> \<lparr>init_size = n, objs_of = create_link_list\<rparr>)\<rparr>"
  have f: "ll.family (words s) (dom (memlists s)) (ol s) Q" using o by (simp add: al_objs_def)
  have "ll.family (words s) (insert m (dom (memlists s))) ((ol s)(m := create_link_list)) (Q(m := []))"
    by (rule ll.family_add [OF f m ll_repr_empty]) auto
  moreover have "(ol s)(m := create_link_list) = ol ?s" by (auto simp: ol_def)
  ultimately have "ll.family (words ?s) (dom (memlists ?s)) (ol ?s) (Q(m := []))" by simp
  moreover have "(\<Union>j\<in>dom (memlists ?s). set ((Q(m := [])) j)) = (\<Union>j\<in>dom (memlists s). set (Q j))"
  proof -
    have "(\<Union>j\<in>dom (memlists s). set ((Q(m := [])) j)) = (\<Union>j\<in>dom (memlists s). set (Q j))"
      by (rule SUP_cong) (use m in auto)
    then show ?thesis by simp
  qed
  ultimately show ?thesis using o m unfolding al_objs_def by simp
qed

lemma al_lists_new_memlist:
  assumes l: "al_lists s L {}" and mem: "al_mem s" and x: "s' = snd (create_memlist s z)"
  shows "al_lists s' L {brk s}" and "al_mem s'"
proof -
  have f: "dlq.family (dnodes s) (dl_ids s) (dl_hdr s) L" using l by (simp add: al_lists_def)
  have bound: "a < brk s" if "i \<in> dl_ids s" "a \<in> set (L i) \<union> dl_foot (dl_hdr s i)" for i a
  proof -
    have "dl_repr (dnodes s) (dl_hdr s i) (L i)" by (rule dlq.family_repr [OF f that(1)])
    then have "a \<in> dom (dnodes s)" using that(2) dl_repr_dom by blast
    then show ?thesis using mem by (auto simp: al_mem_def)
  qed
  have s': "dnodes s' = (dnodes s)(brk s \<mapsto> null_dnode)" "dl_ids s' = dl_ids s" "dl_hdr s' = dl_hdr s"
    "dom (memlists s') = insert (brk s) (dom (memlists s))"
    by (auto simp: x create_memlist_def al_calloc_def Let_def dl_ids_def dl_hdr_def fun_eq_iff split: dlid.splits)
  have "dlq.family (dnodes s') (dl_ids s) (dl_hdr s) L"
    by (rule dlq.family_cong [OF f]) (use bound in \<open>auto simp: s'(1)\<close>)
  then show "al_lists s' L {brk s}"
    using l bound mem unfolding al_lists_def s' by (auto simp: dl_free_def null_dnode_def al_mem_def)
  show "al_mem s'" using mem by (auto simp: x create_memlist_def al_calloc_def Let_def al_mem_def)
qed

text \<open>The objects of one allocator have a size of at least 8 bytes, and at least one of them fits in a
  block.\<close>

definition per_block :: "al_state \<Rightarrow> nat" where
  "per_block s = DEFAULT_BLOCK_SIZE div unat (obj_size (central s))"

definition al_sizes :: "al_state \<Rightarrow> bool" where
  "al_sizes s \<longleftrightarrow> 8 \<le> unat (obj_size (central s)) \<and> unat (obj_size (central s)) \<le> DEFAULT_BLOCK_SIZE"

lemma per_block_bounds:
  assumes "al_sizes s"
  shows "0 < per_block s" and "per_block s \<le> 2 ^ 17" and "per_block s * unat (obj_size (central s)) \<le> DEFAULT_BLOCK_SIZE"
proof -
  let ?z = "unat (obj_size (central s))"
  have z: "8 \<le> ?z" "?z \<le> DEFAULT_BLOCK_SIZE" using assms by (simp_all add: al_sizes_def)
  then show "0 < per_block s" by (simp add: per_block_def div_greater_zero_iff)
  have "per_block s \<le> DEFAULT_BLOCK_SIZE div 8" unfolding per_block_def by (rule div_le_mono2) (use z in auto)
  then show "per_block s \<le> 2 ^ 17" by (simp add: DEFAULT_BLOCK_SIZE_def)
  show "per_block s * ?z \<le> DEFAULT_BLOCK_SIZE" by (simp add: per_block_def)
qed

lemma per_block_init_size:
  "of_nat DEFAULT_BLOCK_SIZE div obj_size (central s) = of_nat (per_block s)"
proof -
  have "unat (of_nat DEFAULT_BLOCK_SIZE :: u32) = DEFAULT_BLOCK_SIZE"
    by (simp add: DEFAULT_BLOCK_SIZE_def)
  then have "unat (of_nat DEFAULT_BLOCK_SIZE div obj_size (central s)) = per_block s"
    by (simp add: unat_div per_block_def)
  then have "of_nat (unat (of_nat DEFAULT_BLOCK_SIZE div obj_size (central s))) = (of_nat (per_block s) :: u32)" by simp
  then show ?thesis by simp
qed

lemma unat_per_block: "al_sizes s \<Longrightarrow> unat (of_nat (per_block s) :: u32) = per_block s"
  using per_block_bounds(2) [of s] by (simp add: unat_of_nat)

text \<open>An empty mem_list of thread a, taken off its list or new.\<close>

lemma empty_memlist_ok:
  assumes l: "al_lists s L {}" and o: "al_objs (s\<lparr>words := w\<rparr>) Q sz live" and c: "al_caps s L Q (per_block s) NULL"
    and mem: "al_mem s" and a: "tas s a = Some t"
  obtains m s' L' where "empty_memlist s a = Some (m, s')" "al_lists s' L' {m}" "L' = L(Em a := tl (L (Em a)))"
    "al_objs (s'\<lparr>words := w\<rparr>) (Q(m := [])) sz live" "m \<in> dom (memlists s')" "m \<noteq> NULL" "al_mem s'"
    "dom (memlists s') = insert m (dom (memlists s))" "brk s \<le> brk s'"
    "init_size (the (memlists s' m)) = of_nat (per_block s)" "ll_repr (words s') (ol s' m) []"
    "\<And>k. k \<noteq> m \<Longrightarrow> memlists s' k = memlists s k" "m \<in> dom (memlists s) \<Longrightarrow> Q m = []"
    "tas s' = tas s" "words s' = words s" "central s' = central s" "ta_nodes s' = ta_nodes s"
    "block_nodes s' = block_nodes s" "block_mem s' = block_mem s"
proof (cases "L (Em a)")
  case Nil
  have em: "Em a \<in> dl_ids s" using a by auto
  have pop: "double_link_pop (dnodes s) (ta_empty_list t) = Some (NULL, dnodes s)"
    using al_lists_pop_nil [OF l em Nil] a by simp
  define s' where "s' = snd (create_memlist s (obj_size (central s)))"
  let ?m = "brk s"
  have e: "empty_memlist s a = Some (?m, s')"
    using a pop by (simp add: empty_memlist_def s'_def create_memlist_def al_calloc_def Let_def)
  have s': "memlists s' = (memlists s)(?m \<mapsto> \<lparr>init_size = of_nat (per_block s), objs_of = create_link_list\<rparr>)"
    "words s' = words s" "tas s' = tas s" "central s' = central s" "ta_nodes s' = ta_nodes s"
    "block_nodes s' = block_nodes s" "block_mem s' = block_mem s" "brk s' = brk s + 48"
    by (simp_all add: s'_def create_memlist_def al_calloc_def Let_def per_block_init_size)
  note n = al_lists_new_memlist [OF l mem s'_def]
  have fresh: "?m \<notin> dom (memlists s)" using mem unfolding al_mem_def by blast
  have "al_objs (s'\<lparr>words := w\<rparr>) (Q(?m := [])) sz live"
    by (rule al_objs_cong [OF al_objs_new_memlist [OF o, of ?m "of_nat (per_block s)"]])
       (use fresh in \<open>auto simp: s' ol_def fun_eq_iff\<close>)
  moreover have "L = L(Em a := tl (L (Em a)))" using Nil by auto
  moreover have "?m \<noteq> NULL" using mem by (simp add: al_mem_def)
  moreover have "ll_repr (words s') (ol s' ?m) []" by (simp add: s' ol_def ll_repr_empty)
  ultimately show thesis
    using e n fresh by (intro that [of ?m s' L]) (simp_all add: s' domIff)
next
  case (Cons m ms)
  have em: "Em a \<in> dl_ids s" using a by auto
  have mE: "m \<in> set (L (Em a))" using Cons by simp
  note min = al_lists_in [OF l em mE]
  obtain d where d: "double_link_pop (dnodes s) (dl_hdr s (Em a)) = Some (m, d)"
    "al_lists (s\<lparr>dnodes := d\<rparr>) (L(Em a := ms)) {m}" "dom d = dom (dnodes s)"
    by (rule al_lists_pop [OF l em Cons]) blast
  have e: "empty_memlist s a = Some (m, s\<lparr>dnodes := d\<rparr>)"
    using a d(1) min(2) by (simp add: empty_memlist_def)
  have Qm: "Q m = []" using al_caps_thread(1) [OF c a mE] .
  have "al_objs (s\<lparr>dnodes := d, words := w\<rparr>) Q sz live"
    by (rule al_objs_cong [OF o]) (auto simp: ol_def)
  moreover have "Q(m := []) = Q" using Qm by auto
  moreover have "ll_repr w (ol s m) (Q m)" using al_objs_repr [OF o, of m] min(1) by (simp add: ol_def)
  then have "ll_repr (words s) (ol s m) []" using Qm ll_repr_cong [of "[]" "words s" w] by simp
  ultimately show thesis
    using e d(2,3) min(1,2) Cons mem al_caps_memlist(1) [OF c min(1)]
    by (intro that [of m "s\<lparr>dnodes := d\<rparr>" "L(Em a := ms)"]) (auto simp: al_mem_def Qm)
qed

section \<open>The invariant\<close>

text \<open>
  All of it, with the objects of the program, the thread allocators and the blocks: the objects the
  program has and the free ones make up the blocks.
\<close>

definition al_inv :: "al_state \<Rightarrow> (dlid \<Rightarrow> addr list) \<Rightarrow> (addr \<Rightarrow> addr list) \<Rightarrow> addr \<Rightarrow> addr set \<Rightarrow>
    addr list \<Rightarrow> addr list \<Rightarrow> bool" where
  "al_inv s L Q X live TL BL \<longleftrightarrow>
     al_lists s L {} \<and> al_objs s Q (unat (obj_size (central s))) live \<and> al_caps s L Q (per_block s) X \<and>
     al_mem s \<and> al_dirs s TL BL \<and> al_sizes s \<and> card live + al_total s Q = length BL * per_block s"

definition al_static :: "al_state \<Rightarrow> al_state \<Rightarrow> bool" where
  "al_static s s' \<longleftrightarrow> has_mtx (central s') = has_mtx (central s) \<and> obj_size (central s') = obj_size (central s) \<and>
     t_key (central s') = t_key (central s) \<and> dom (tas s') = dom (tas s)"

lemma al_static_trans: "al_static s s' \<Longrightarrow> al_static s' s'' \<Longrightarrow> al_static s s''"
  by (simp add: al_static_def)

lemma al_same_static: "al_same s s' \<Longrightarrow> al_static s s'"
  by (simp add: al_same_def al_static_def)

lemma al_static_sizes: "al_static s s' \<Longrightarrow> al_sizes s \<Longrightarrow> al_sizes s'" "al_static s s' \<Longrightarrow> per_block s' = per_block s"
  by (simp_all add: al_static_def al_sizes_def per_block_def)

lemma al_inv_parts:
  assumes "al_inv s L Q X live TL BL"
  shows "al_lists s L {}" "al_objs s Q (unat (obj_size (central s))) live" "al_caps s L Q (per_block s) X"
    "al_mem s" "al_dirs s TL BL" "al_sizes s" "card live + al_total s Q = length BL * per_block s"
  using assms by (simp_all add: al_inv_def)

lemma sum_list_eq_0: "(\<Sum>x\<leftarrow>xs. f x) = (0 :: nat) \<longleftrightarrow> (\<forall>x\<in>set xs. f x = 0)"
  by (induction xs) auto

lemma free_size_0:
  assumes i: "al_inv s L Q NULL live TL BL" and t: "tas s a = Some t"
  shows "free_size t = 0 \<longleftrightarrow> L (Fr a) = []"
proof -
  note c = al_caps_thread [OF al_inv_parts(3) [OF i] t]
  have "cached L Q a < 2 ^ 32" using c(5) per_block_bounds(2) [OF al_inv_parts(6) [OF i]] by simp
  then have "free_size t = 0 \<longleftrightarrow> cached L Q a = 0"
    using c(4) by (auto simp: word_of_nat_eq_0_iff dest: nat_dvd_not_less)
  also have "\<dots> \<longleftrightarrow> (\<forall>m\<in>set (L (Fr a)). Q m = [])" by (simp add: cached_def sum_list_eq_0)
  also have "\<dots> \<longleftrightarrow> L (Fr a) = []"
  proof (cases "L (Fr a)")
    case (Cons m ms)
    have "m \<noteq> NULL" using al_lists_in(2) [OF al_inv_parts(1) [OF i], of "Fr a" m] t Cons by auto
    then have "Q m \<noteq> []" using c(2) [of m] Cons by auto
    then show ?thesis using Cons by auto
  qed simp
  finally show ?thesis .
qed

lemma refill_central:
  assumes i: "al_inv s L Q NULL live TL BL" and t: "tas s a = Some t" and fs: "free_size t = 0"
    and cen: "L Cen = m # ms"
  obtains s' L' where "thread_allocator_refill s a = Some (m, s')" "al_inv s' L' Q NULL live TL BL"
    "L' (Fr a) = [m]" "al_static s s'" "words s' = words s"
proof -
  note p = al_inv_parts [OF i]
  have Fr0: "L (Fr a) = []" using free_size_0 [OF i t] fs by simp
  have mC: "m \<in> set (L Cen)" using cen by simp
  have ci: "Cen \<in> dl_ids s" by simp
  note min = al_lists_in [OF p(1) ci mC]
  obtain ml where ml: "memlists s m = Some ml" using min(1) by auto
  obtain d1 where d1: "double_link_pop (dnodes s) (dl_hdr s Cen) = Some (m, d1)"
    "al_lists (s\<lparr>dnodes := d1\<rparr>) (L(Cen := ms)) {m}" "dom d1 = dom (dnodes s)"
    by (rule al_lists_pop [OF p(1) ci cen]) blast
  have fi: "Fr a \<in> dl_ids (s\<lparr>dnodes := d1\<rparr>)" using t by auto
  obtain d2 where d2: "double_link_push d1 (ta_free_list t) m = Some (0, d2)"
    "al_lists (s\<lparr>dnodes := d2\<rparr>) (L(Cen := ms, Fr a := [m])) {}" "dom d2 = dom d1"
    using al_lists_push [OF d1(2) fi] t Fr0 by auto
  define L' where "L' = L(Cen := ms, Fr a := [m])"
  define s' where "s' = set_free_size (s\<lparr>dnodes := d2\<rparr>) a (0 + ll_size (objs_of ml))"
  have full: "length (Q m) = per_block s" using al_caps_central [OF p(3) mC] .
  have sz: "ll_size (objs_of ml) = of_nat (per_block s)"
    using al_objs_size(1) [OF p(2) min(1)] ml full by (simp add: ol_def)
  have r: "thread_allocator_refill s a = Some (m, s')"
    using t fs d1(1) d2(1) ml min(2) by (simp add: thread_allocator_refill_def central_get_memlist_def s'_def Let_def)
  have same: "al_same s s'" using d1(3) d2(3) by (simp add: al_same_def s'_def)
  have ca: "cached L' Q a = per_block s" using full by (simp add: cached_def L'_def)
  have Qm: "Q m \<noteq> []" using full per_block_bounds(1) [OF p(6)] by auto
  have notm: "m \<notin> set ms" using al_lists_distinct [OF p(1) ci] cen by simp
  have caps: "al_caps s' L' Q (per_block s) NULL"
  proof (rule al_caps_upd [OF p(3)])
    show "a \<in> dom (tas s)" using t by auto
    show "Q k = Q k \<and> k \<noteq> NULL" if "b \<noteq> a" "b \<in> dom (tas s)" "k \<in> set (L (Fr b)) \<union> set (L (Em b))" for b k
      using that al_lists_in(2) [OF p(1), of "Fr b" k] al_lists_in(2) [OF p(1), of "Em b" k] by auto
    show "length (Q k) = per_block s" if "k \<in> set (L' Cen)" for k
      using that al_caps_central [OF p(3), of k] cen by (auto simp: L'_def)
    show "Q k = []" if "k \<in> set (L' (Em a))" for k using that al_caps_thread(1) [OF p(3) t] by (simp add: L'_def)
    show "k = NULL" if "k \<in> set (L' (Fr a))" "Q k = []" for k using that Qm by (simp add: L'_def)
    show "free_size (the (tas s' a)) = of_nat (cached L' Q a)" using ca sz t by (simp add: s'_def)
    show "cached L' Q a < 2 * per_block s" using ca per_block_bounds(1) [OF p(6)] by simp
    show "length (L' (Fr a)) \<le> 2" by (simp add: L'_def)
    show "dom (memlists s') = dom (memlists s)" "dom (tas s') = dom (tas s)"
      using same by (simp_all add: al_same_def)
    show "init_size (the (memlists s' k)) = init_size (the (memlists s k))" for k by (simp add: s'_def)
    show "tas s' b = tas s b" if "b \<noteq> a" for b using that by (simp add: s'_def)
    show "L' (Fr b) = L (Fr b) \<and> L' (Em b) = L (Em b)" if "b \<noteq> a" for b using that by (simp add: L'_def)
    show "length (Q k) \<le> per_block s" if "k \<in> dom (memlists s)" for k using al_caps_memlist(2) [OF p(3) that] .
  qed
  have l': "al_lists s' L' {}" by (rule al_lists_cong [OF d2(2) [folded L'_def]]) (simp_all add: s'_def)
  have o': "al_objs s' Q (unat (obj_size (central s))) live" by (rule al_objs_cong [OF p(2)]) (simp_all add: s'_def)
  note st = al_same_static [OF same]
  have "al_inv s' L' Q NULL live TL BL"
    using l' o' caps al_same_mem [OF same p(4)] al_same_dirs [OF same p(5)] al_static_sizes [OF st] p(6,7) same
    by (simp add: al_inv_def al_same_def al_total_def)
  moreover have "words s' = words s" by (simp add: s'_def)
  ultimately show thesis using r st that [of s' L'] by (simp add: L'_def)
qed

text \<open>A mem_list that was empty or did not exist is given the objects xs and put at the end of the
  free list of thread a.\<close>

lemma al_caps_adopt:
  assumes c: "al_caps s L Q N NULL" and l: "al_lists s L {}" and a: "tas s a = Some t"
    and l2: "al_lists s2 L2 {m}" and L2: "L2 = L(Em a := tl (L (Em a)))" and ids: "dl_ids s2 = dl_ids s"
    and dom: "dom (memlists s') = insert m (dom (memlists s))"
    and ini: "init_size (the (memlists s' m)) = of_nat N"
      "\<And>k. k \<noteq> m \<Longrightarrow> init_size (the (memlists s' k)) = init_size (the (memlists s k))"
    and tas: "tas s' = (tas s)(a \<mapsto> t\<lparr>free_size := of_nat (cached L Q a + length xs)\<rparr>)"
    and L': "L' = L2(Fr a := L2 (Fr a) @ [m])" and Q': "Q' = Q(m := xs)"
    and xs: "length xs \<le> N" "xs = [] \<Longrightarrow> X = m" "length (L (Fr a)) \<le> 1" "cached L Q a + length xs < 2 * N"
  shows "al_caps s' L' Q' N X"
proof -
  have mnew: "m \<notin> set (L2 i)" if "i \<in> dl_ids s" for i
    using l2 that ids unfolding al_lists_def by blast
  have L2a: "L2 (Fr b) = L (Fr b)" "L2 Cen = L Cen" for b by (simp_all add: L2)
  have sub: "set (L2 (Em b)) \<subseteq> set (L (Em b))" for b
    unfolding L2 by (cases "b = a"; cases "L (Em a)") auto
  have Qsame: "Q' k = Q k" if "i \<in> dl_ids s" "k \<in> set (L2 i)" for i k
    using mnew [OF that(1)] that(2) by (auto simp: Q')
  show ?thesis
    unfolding al_caps_def
  proof (intro conjI ballI)
    fix k assume "k \<in> dom (memlists s')"
    then have k: "k = m \<or> k \<in> dom (memlists s)" using dom by simp
    show "init_size (the (memlists s' k)) = of_nat N" "length (Q' k) \<le> N"
      using k ini xs(1) al_caps_memlist [OF c, of k] by (cases "k = m"; simp add: Q')+
  next
    fix k assume "k \<in> set (L' Cen)"
    then have "k \<in> set (L2 Cen)" by (simp add: L')
    then show "length (Q' k) = N" using Qsame [of Cen k] al_caps_central [OF c] L2a(2) by simp
  next
    fix b assume "b \<in> dom (tas s')"
    then have bd: "b \<in> dom (tas s)" using tas a by auto
    then obtain tb where tb: "tas s b = Some tb" by auto
    note cb = al_caps_thread [OF c tb]
    have fi: "Fr b \<in> dl_ids s" "Em b \<in> dl_ids s" using bd by auto
    have old: "Q' k = Q k" if "k \<in> set (L (Fr b))" for k using Qsame [OF fi(1)] that L2a by simp
    have "cached L2 Q' b = cached L Q b" by (rule cached_cong) (use old L2a in auto)
    then have cab: "cached L' Q' b = cached L Q b + (if b = a then length xs else 0)"
      by (auto simp: cached_def L' Q')
    show "length (L' (Fr b)) \<le> 2" using cb(3) xs(3) L2a by (simp add: L')
    show "cached L' Q' b < 2 * N" using cab cb(5) xs(4) by auto
    show "free_size (the (tas s' b)) = of_nat (cached L' Q' b)" using cab cb(4) tas tb by auto
    show "Q' k = []" if "k \<in> set (L' (Em b))" for k
      using that Qsame [OF fi(2), of k] cb(1) sub by (auto simp: L')
    show "Q' k = [] \<longrightarrow> k = X" if "k \<in> set (L' (Fr b))" for k
    proof (cases "k = m")
      case True
      then show ?thesis using xs(2) by (simp add: Q')
    next
      case False
      then have kb: "k \<in> set (L (Fr b))" using that L2a by (auto simp: L' split: if_splits)
      then have "Q k \<noteq> []" using cb(2) [OF kb] al_lists_in(2) [OF l fi(1) kb] by auto
      then show ?thesis using old [OF kb] by simp
    qed
  qed
qed

lemma al_total_adopt:
  assumes "finite (dom (memlists s))" and "dom (memlists s') = insert m (dom (memlists s))"
    and "m \<in> dom (memlists s) \<Longrightarrow> Q m = []"
  shows "al_total s' (Q(m := xs)) = al_total s Q + length xs"
proof -
  have r: "(\<Sum>k\<in>dom (memlists s) - {m}. length ((Q(m := xs)) k)) = (\<Sum>k\<in>dom (memlists s) - {m}. length (Q k))"
    by (rule sum.cong) auto
  have "al_total s Q = (\<Sum>k\<in>dom (memlists s) - {m}. length (Q k))"
    unfolding al_total_def using assms(1,3) by (intro sum.mono_neutral_right) auto
  then show ?thesis
    unfolding al_total_def assms(2) sum.insert_remove [OF assms(1)] r by simp
qed

lemma refill_block:
  assumes i: "al_inv s L Q NULL live TL BL" and t: "tas s a = Some t" and fs: "free_size t = 0"
    and cen: "L Cen = []" and len: "Suc (length BL) < 2 ^ 31"
  obtains m s' L' Q' BL' where "thread_allocator_refill s a = Some (m, s')" "al_inv s' L' Q' NULL live TL BL'"
    "L' (Fr a) = [m]" "al_static s s'" "length BL' = Suc (length BL)" "\<And>q. q \<in> live \<Longrightarrow> words s' q = words s q"
proof -
  note p = al_inv_parts [OF i]
  note pb = per_block_bounds [OF p(6)]
  let ?z = "unat (obj_size (central s))" and ?K = DEFAULT_BLOCK_SIZE and ?n = "per_block s"
  have Fr0: "L (Fr a) = []" using free_size_0 [OF i t] fs by simp
  have pop: "double_link_pop (dnodes s) (central_free_list (central s)) = Some (NULL, dnodes s)"
    using al_lists_pop_nil [OF p(1) _ cen] by simp
  obtain h l where b: "link_list_push_back ((block_nodes s)(brk s \<mapsto> NULL)) (memory_blocks (central s)) (brk s) = Some (h, l)"
    "ll_repr h l (BL @ [brk s])" "dom h = insert (brk s) (dom (block_nodes s))"
    by (rule al_dirs_new_block [OF p(5,4) len])
  define mem where "mem = brk s + 16"
  define w where "w = (\<lambda>x. if mem \<le> x \<and> x < mem + ?K then Some NULL else words s x)"
  define s1 where "s1 = s\<lparr>brk := mem + ?K, words := w, block_mem := (block_mem s)(brk s \<mapsto> mem), block_nodes := h,
    central := (central s)\<lparr>memory_blocks := l\<rparr>\<rparr>"
  have get: "central_get_memlist s = Some (NULL, brk s, s1)"
    using pop b(1) by (simp add: central_get_memlist_def al_calloc_def Let_def s1_def w_def mem_def cong: if_cong)
  have ids: "dl_ids s1 = dl_ids s" "dl_hdr s1 = dl_hdr s"
    by (auto simp: s1_def dl_ids_def dl_hdr_def fun_eq_iff split: dlid.splits)
  have mem1: "al_mem s1"
  proof -
    have "dom w = dom (words s) \<union> {mem..<mem + ?K}" by (auto simp: w_def split: if_splits)
    moreover have "dom (words s) \<subseteq> {..<brk s}" using p(4) by (simp add: al_mem_def)
    ultimately have "dom w \<subseteq> {..<mem + ?K}" by (auto simp: mem_def)
    then show ?thesis using p(4) b(3) by (auto simp: s1_def al_mem_def mem_def)
  qed
  have l1: "al_lists s1 L {}" by (rule al_lists_cong [OF p(1) _ ids]) (simp_all add: s1_def)
  have sz1: "per_block s1 = ?n" "al_sizes s1" using p(6) by (simp_all add: s1_def per_block_def al_sizes_def)
  have c1: "al_caps s1 L Q (per_block s1) NULL" using p(3) sz1(1) by (simp add: s1_def al_caps_def)
  have o1: "al_objs (s1\<lparr>words := words s\<rparr>) Q ?z live"
    by (rule al_objs_cong [OF p(2)]) (simp_all add: s1_def ol_def fun_eq_iff)
  have t1: "tas s1 a = Some t" using t by (simp add: s1_def)
  obtain m s2 L2 where e: "empty_memlist s1 a = Some (m, s2)" "al_lists s2 L2 {m}" "L2 = L(Em a := tl (L (Em a)))"
    "al_objs (s2\<lparr>words := words s\<rparr>) (Q(m := [])) ?z live" "m \<in> dom (memlists s2)" "m \<noteq> NULL" "al_mem s2"
    "dom (memlists s2) = insert m (dom (memlists s1))" "brk s1 \<le> brk s2"
    "init_size (the (memlists s2 m)) = of_nat ?n" "\<And>k. k \<noteq> m \<Longrightarrow> memlists s2 k = memlists s1 k"
    "m \<in> dom (memlists s1) \<Longrightarrow> Q m = []"
    "tas s2 = tas s1" "words s2 = words s1" "central s2 = central s1" "ta_nodes s2 = ta_nodes s1"
    "block_nodes s2 = block_nodes s1" "block_mem s2 = block_mem s1"
    by (rule empty_memlist_ok [OF l1 o1 c1 mem1 t1]) (use sz1(1) in auto)
  define ns where "ns = map (\<lambda>i. mem + i * ?z) [0..<?n]"
  have dw0: "dom (words (s2\<lparr>words := words s\<rparr>)) \<subseteq> {..<mem}" "0 < mem"
    using p(4) by (auto simp: al_mem_def mem_def)
  have zn: "0 < ?z" "?n * ?z \<le> ?K" "?n < 2 ^ 31" using p(6) pb by (simp_all add: al_sizes_def)
  have w0: "w = (\<lambda>a. if mem \<le> a \<and> a < mem + ?K then Some NULL else words (s2\<lparr>words := words s\<rparr>) a)"
    by (simp add: w_def cong: if_cong)
  have m2: "m \<in> dom (memlists (s2\<lparr>words := words s\<rparr>))" "(Q(m := [])) m = []" using e(5) by simp_all
  obtain h2 l2 where f0: "push_all link_list_push_back w (ol (s2\<lparr>words := words s\<rparr>) m) (map (\<lambda>i. mem + i * ?z) [0..<?n]) = Some (h2, l2)"
      "al_objs (set_objs (s2\<lparr>words := words s\<rparr>) m h2 l2) ((Q(m := []))(m := map (\<lambda>i. mem + i * ?z) [0..<?n])) ?z live"
      "dom h2 \<subseteq> {..<mem + ?K}" "\<And>q. q \<in> live \<Longrightarrow> h2 q = words (s2\<lparr>words := words s\<rparr>) q"
    by (rule al_objs_fill [OF e(4) m2 dw0 zn w0]) (rule that)
  have f: "push_all link_list_push_back w (ol s2 m) ns = Some (h2, l2)"
    "al_objs (set_objs s2 m h2 l2) (Q(m := ns)) ?z live" "dom h2 \<subseteq> {..<mem + ?K}"
    using f0 by (simp_all add: ns_def ol_def set_objs_def)
  define s3 where "s3 = set_objs s2 m h2 l2"
  obtain ml where ml2: "memlists s2 m = Some ml" using e(5) by auto
  have init: "init_mem_block s2 m (brk s) (obj_size (central s)) = Some s3"
  proof -
    have "unat (init_size (the (memlists s2 m))) = ?n" using e(10) unat_per_block [OF p(6)] by simp
    then have "push_all link_list_push_back (words s2) (objs_of (the (memlists s2 m)))
        (map (\<lambda>i. mem + i * ?z) [0..<unat (init_size (the (memlists s2 m)))]) = Some (h2, l2)"
      using f(1) e(14) by (simp add: ns_def ol_def s1_def)
    moreover have "block_mem s2 (brk s) = Some mem" using e(18) by (simp add: s1_def)
    ultimately show ?thesis using ml2 by (subst init_mem_block_def) (simp add: s3_def)
  qed
  have s3: "tas s3 = tas s" "central s3 = (central s)\<lparr>memory_blocks := l\<rparr>" "dl_ids s3 = dl_ids s2" "dl_hdr s3 = dl_hdr s2"
    "dom (memlists s3) = insert m (dom (memlists s))" "m \<in> dom (memlists s3)"
    using e(5,8,13,15) by (simp_all add: s3_def s1_def)
  have l3: "al_lists s3 L2 {m}" by (rule al_lists_cong [OF e(2)]) (simp_all add: s3_def)
  have fi: "Fr a \<in> dl_ids s3" using t s3(1) by auto
  obtain d where d: "double_link_push (dnodes s3) (ta_free_list t) m = Some (0, d)"
    "al_lists (s3\<lparr>dnodes := d\<rparr>) (L2(Fr a := L2 (Fr a) @ [m])) {}" "dom d = dom (dnodes s3)"
    using al_lists_push [OF l3 fi] t s3(1) by auto
  define L' where "L' = L2(Fr a := [m])"
  define Q' where "Q' = Q(m := ns)"
  have L2a: "L2 (Fr a) @ [m] = [m]" using Fr0 e(3) by simp
  have lns: "length ns = ?n" by (simp add: ns_def)
  have o3: "al_objs s3 Q' ?z live" using f(2) by (simp add: s3_def Q'_def)
  have szm: "ll_size (objs_of (the (memlists s3 m))) = of_nat ?n"
    using al_objs_size(1) [OF o3 s3(6)] lns by (simp add: ol_def Q'_def)
  define s' where "s' = set_free_size (s3\<lparr>dnodes := d\<rparr>) a (of_nat ?n)"
  have cs1: "obj_size (central s1) = obj_size (central s)" by (simp add: s1_def)
  obtain ml' where ml3: "memlists s3 m = Some ml'" using s3(6) by auto
  have r: "thread_allocator_refill s a = Some (m, s')"
    using get e(1) init d(1) t ml3 szm s3(1) fs e(15) cs1
    by (simp add: thread_allocator_refill_def s'_def)
  have st: "al_static s s'" using s3(1,2) by (simp add: al_static_def s'_def)
  have l': "al_lists s' L' {}"
    by (rule al_lists_cong [OF d(2) [unfolded L2a, folded L'_def]]) (simp_all add: s'_def)
  have o': "al_objs s' Q' ?z live" by (rule al_objs_cong [OF o3]) (simp_all add: s'_def)
  have mem': "al_mem s'"
    using e(7,9) f(3) d(3) s3(1) unfolding al_mem_def s'_def
    by (auto simp: s3_def s1_def)
  have dirs': "al_dirs s' TL (BL @ [brk s])"
    using p(5) b(2) s3(1,2) e(16-18) by (auto simp: al_dirs_def s'_def s3_def s1_def)
  have ca: "cached L Q a = 0" using Fr0 by (simp add: cached_def)
  have inis: "init_size (the (memlists s' k)) = init_size (the (memlists s k))" if "k \<noteq> m" for k
    using e(11) [OF that] that by (simp add: s'_def s3_def s1_def)
  have inim: "init_size (the (memlists s' m)) = of_nat ?n" using e(10) ml2 by (simp add: s'_def s3_def)
  have caps: "al_caps s' L' Q' ?n NULL"
  proof (rule al_caps_adopt [OF p(3,1) t e(2,3)])
    show "tas s' = (tas s)(a \<mapsto> t\<lparr>free_size := of_nat (cached L Q a + length ns)\<rparr>)"
      using t s3(1) lns ca by (simp add: s'_def set_free_size_def)
    show "L' = L2(Fr a := L2 (Fr a) @ [m])" using L2a by (simp add: L'_def)
    show "ns = [] \<Longrightarrow> NULL = m" using lns pb(1) by simp
  qed (use e(13) ids(1) inis inim lns ca Fr0 s3(5) pb(1) in \<open>simp_all add: dl_ids_def Q'_def s'_def\<close>)
  have fin: "finite (dom (memlists s))" using p(2) by (simp add: al_objs_def)
  have tot: "al_total s' Q' = al_total s Q + ?n"
    unfolding Q'_def lns [symmetric] by (rule al_total_adopt) (use fin s3(5) e(12) in \<open>simp_all add: s'_def s1_def\<close>)
  have "al_inv s' L' Q' NULL live TL (BL @ [brk s])"
    using l' o' caps mem' dirs' al_static_sizes [OF st] p(6,7) tot st
    by (simp add: al_inv_def al_static_def)
  moreover have "words s' q = words s q" if "q \<in> live" for q using f0(4) [OF that] by (simp add: s'_def s3_def)
  ultimately show thesis using that [of m s' L' Q' "BL @ [brk s]"] r st by (simp add: L'_def)
qed

section \<open>Allocation\<close>

lemma al_lists_repr: "al_lists s L P \<Longrightarrow> i \<in> dl_ids s \<Longrightarrow> dl_repr (dnodes s) (dl_hdr s i) (L i)"
  unfolding al_lists_def by (metis dlq.family_repr)

lemma al_total_upd:
  assumes "finite (dom (memlists s))" and "m \<in> dom (memlists s)"
  shows "al_total s (Q(m := xs)) + length (Q m) = al_total s Q + length xs"
proof -
  have r: "(\<Sum>k\<in>dom (memlists s). f k) = f m + (\<Sum>k\<in>dom (memlists s) - {m}. f k)" for f :: "addr \<Rightarrow> nat"
    using assms by (rule sum.remove)
  have "(\<Sum>k\<in>dom (memlists s) - {m}. length ((Q(m := xs)) k)) = (\<Sum>k\<in>dom (memlists s) - {m}. length (Q k))"
    by (rule sum.cong) auto
  then show ?thesis using r [of "\<lambda>k. length ((Q(m := xs)) k)"] r [of "\<lambda>k. length (Q k)"]
    by (simp add: al_total_def)
qed

lemma al_inv_take:
  assumes i: "al_inv s L Q NULL live TL BL" and t: "tas s a = Some t" and m: "L (Fr a) = m # ms"
  obtains p s' L' Q' where "thread_allocator_take s a m = Some (p, s')" "p \<notin> live"
    "al_inv s' L' Q' NULL (insert p live) TL BL" "al_static s s'" "words s' p = Some NULL"
    "\<And>q. q \<noteq> p \<Longrightarrow> words s' q = words s q"
proof -
  note q = al_inv_parts [OF i]
  have a: "a \<in> dom (tas s)" using t by auto
  have N: "per_block s < 2 ^ 31" using per_block_bounds(2) [OF q(6)] by simp
  let ?Q = "Q(m := tl (Q m))"
  obtain p s' L' where 1: "thread_allocator_take s a m = Some (p, s')" "p \<notin> live" "al_lists s' L' {}"
    "al_objs s' ?Q (unat (obj_size (central s))) (insert p live)" "al_caps s' L' ?Q (per_block s) NULL"
    "al_same s s'" "Q m \<noteq> []" "m \<in> dom (memlists s)" "words s' p = Some NULL"
    "\<And>q. q \<noteq> p \<Longrightarrow> words s' q = words s q"
    by (rule thread_allocator_take_ok [OF q(1-3) N a m]) (rule that)
  note st = al_same_static [OF 1(6)]
  have fin: "finite live" "finite (dom (memlists s))" using q(2) by (simp_all add: al_objs_def)
  have "al_total s' ?Q = al_total s ?Q" using 1(6) by (simp add: al_total_def al_same_def)
  then have "al_total s' ?Q + 1 = al_total s Q" using al_total_upd [OF fin(2) 1(8), of Q "tl (Q m)"] 1(7) by (cases "Q m") auto
  then have "card (insert p live) + al_total s' ?Q = length BL * per_block s" using fin(1) 1(2) q(7) by simp
  then have "al_inv s' L' ?Q NULL (insert p live) TL BL"
    using 1(3-5) al_same_mem [OF 1(6) q(4)] al_same_dirs [OF 1(6) q(5)] al_static_sizes [OF st] q(6) st
    by (simp add: al_inv_def al_static_def)
  with 1(1,2,9,10) st that show thesis by blast
qed

lemma thread_allocator_alloc_ok:
  assumes i: "al_inv s L Q NULL live TL BL" and t: "tas s a = Some t" and len: "Suc (length BL) < 2 ^ 31"
  obtains p s' L' Q' BL' where "thread_allocator_alloc s a = Some (p, s')" "p \<notin> live"
    "al_inv s' L' Q' NULL (insert p live) TL BL'" "al_static s s'" "words s' p = Some NULL" "length BL' \<le> Suc (length BL)"
    "\<And>q. q \<in> live \<Longrightarrow> words s' q = words s q"
proof (cases "free_size t = 0")
  case True
  obtain m s1 L1 Q1 BL1 where 1: "thread_allocator_refill s a = Some (m, s1)" "al_inv s1 L1 Q1 NULL live TL BL1"
    "L1 (Fr a) = [m]" "al_static s s1" "length BL1 \<le> Suc (length BL)" "\<And>q. q \<in> live \<Longrightarrow> words s1 q = words s q"
  proof (cases "L Cen")
    case Nil
    show thesis by (rule refill_block [OF i t True Nil len]) (use that in fastforce)
  next
    case (Cons m ms)
    show thesis by (rule refill_central [OF i t True Cons]) (use that in fastforce)
  qed
  have "a \<in> dom (tas s1)" using 1(4) t by (auto simp: al_static_def)
  then obtain t1 where t1: "tas s1 a = Some t1" by auto
  obtain p s' L' Q' where 2: "thread_allocator_take s1 a m = Some (p, s')" "p \<notin> live"
    "al_inv s' L' Q' NULL (insert p live) TL BL1" "al_static s1 s'" "words s' p = Some NULL"
    "\<And>q. q \<noteq> p \<Longrightarrow> words s' q = words s1 q"
    by (rule al_inv_take [OF 1(2) t1 1(3)]) (rule that)
  have "thread_allocator_alloc s a = Some (p, s')"
    using t True 1(1) 2(1) by (simp add: thread_allocator_alloc_def)
  moreover have "words s' q = words s q" if "q \<in> live" for q
    using 2(2) that by (subst 2(6)) (auto intro: 1(6))
  ultimately show thesis using that [of p s' L' Q' BL1] 2(2-5) 1(5) al_static_trans [OF 1(4) 2(4)] by blast
next
  case False
  then have ne: "L (Fr a) \<noteq> []" using free_size_0 [OF i t] by simp
  then obtain m ms where m: "L (Fr a) = m # ms" by (cases "L (Fr a)") auto
  have fi: "Fr a \<in> dl_ids s" using t by auto
  have fst: "double_link_first (dnodes s) (ta_free_list t) = Some m"
    using double_link_empty_repr(2) [OF al_lists_repr [OF al_inv_parts(1) [OF i] fi]] m t by simp
  obtain p s' L' Q' where 2: "thread_allocator_take s a m = Some (p, s')" "p \<notin> live"
    "al_inv s' L' Q' NULL (insert p live) TL BL" "al_static s s'" "words s' p = Some NULL"
    "\<And>q. q \<noteq> p \<Longrightarrow> words s' q = words s q"
    by (rule al_inv_take [OF i t m]) (rule that)
  have "thread_allocator_alloc s a = Some (p, s')"
    using t False fst 2(1) by (simp add: thread_allocator_alloc_def)
  moreover have "words s' q = words s q" if "q \<in> live" for q
    using 2(2) that by (subst 2(6)) auto
  ultimately show thesis using that [of p s' L' Q' BL] 2(2-5) by simp
qed

section \<open>Giving back\<close>

definition not_full :: "al_state \<Rightarrow> addr \<Rightarrow> bool" where
  "not_full s m \<longleftrightarrow> ll_size (objs_of (the (memlists s m))) < init_size (the (memlists s m))"

text \<open>The search from the end of a list: its result, and that it ends.\<close>

lemma dealloc_find_end:
  assumes r: "dl_repr (dnodes s) dl (ys @ zs)" and d: "set (ys @ zs) \<subseteq> dom (memlists s)"
  shows "dealloc_find s (dl_head dl) (last (dl_head dl # ys)) =
    Some (case filter (not_full s) ys of [] \<Rightarrow> NULL | ms \<Rightarrow> last ms)"
  using assms
proof (induction ys arbitrary: zs rule: rev_induct)
  case Nil
  then show ?case by (simp add: dealloc_find.simps)
next
  case (snoc y ys)
  have r': "dl_repr (dnodes s) dl (ys @ y # zs)" using snoc.prems(1) by simp
  obtain A p q B where s: "dl_head dl # ys @ y # zs @ [dl_tail dl] = A @ p # y # q # B" "A @ [p] = dl_head dl # ys"
    by (rule dl_repr_split [OF r'])
  have l: "dl_linked (dnodes s) (A @ p # y # q # B)" using r' s(1) by (simp add: dl_repr_def Let_def)
  obtain n where n: "dnodes s y = Some n" "dl_pre n = p" using dl_linked_pair [OF l] by blast
  have p: "p = last (dl_head dl # ys)" using s(2) by (metis last_snoc)
  have y: "y \<noteq> NULL" "y \<noteq> dl_head dl" using r' by (auto simp: dl_repr_def Let_def)
  obtain ml where ml: "memlists s y = Some ml" using snoc.prems(2) by auto
  have IH: "dealloc_find s (dl_head dl) p = Some (case filter (not_full s) ys of [] \<Rightarrow> NULL | ms \<Rightarrow> last ms)"
    unfolding p by (rule snoc.IH [of "y # zs"]) (use r' snoc.prems(2) in auto)
  show ?case
  proof (cases "not_full s y")
    case True
    then have "dealloc_find s (dl_head dl) y = Some y"
      using y ml by (subst dealloc_find.simps) (simp add: not_full_def)
    then show ?thesis using True by (cases "filter (not_full s) ys") auto
  next
    case False
    then have "dealloc_find s (dl_head dl) y = dealloc_find s (dl_head dl) p"
      using y ml n by (subst dealloc_find.simps) (simp add: not_full_def dl_get_def)
    then show ?thesis using False IH by simp
  qed
qed

lemma not_full_iff:
  assumes i: "al_inv s L Q X live TL BL" and m: "m \<in> dom (memlists s)"
  shows "not_full s m \<longleftrightarrow> length (Q m) < per_block s"
proof -
  note p = al_inv_parts [OF i]
  have b: "length (Q m) \<le> per_block s" "per_block s \<le> 2 ^ 17"
    using al_caps_memlist(2) [OF p(3) m] per_block_bounds(2) [OF p(6)] by simp_all
  have "unat (of_nat (length (Q m)) :: u32) = length (Q m)" using b by (simp add: unat_of_nat)
  then show ?thesis
    using al_objs_size(1) [OF p(2) m] al_caps_memlist(1) [OF p(3) m] unat_per_block [OF p(6)]
    by (simp add: not_full_def word_less_nat_alt ol_def)
qed

text \<open>The mem_list an object is put on: in the thread's free list, and not full.\<close>

lemma dealloc_memlist_ok:
  assumes i: "al_inv s L Q NULL live TL BL" and t: "tas s a = Some t"
  obtains m s' L' Q' where "dealloc_memlist s a = Some (m, s')" "al_inv s' L' Q' m live TL BL"
    "m \<in> set (L' (Fr a))" "length (Q' m) < per_block s'" "al_static s s'" "words s' = words s"
proof -
  note p = al_inv_parts [OF i]
  have fi: "Fr a \<in> dl_ids s" using t by auto
  have rep: "dl_repr (dnodes s) (ta_free_list t) (L (Fr a))" using al_lists_repr [OF p(1) fi] t by simp
  have nn: "m \<noteq> NULL" "m \<in> dom (memlists s)" if "m \<in> set (L (Fr a))" for m
    using al_lists_in(1,2) [OF p(1) fi that] by auto
  let ?f = "filter (not_full s) (L (Fr a))"
  have last: "double_link_last (dnodes s) (ta_free_list t) = Some (if L (Fr a) = [] then NULL else last (L (Fr a)))"
    by (rule double_link_empty_repr(3) [OF rep])
  have find: "dealloc_find s (dl_head (ta_free_list t)) (last (dl_head (ta_free_list t) # L (Fr a))) =
      Some (case ?f of [] \<Rightarrow> NULL | ms \<Rightarrow> last ms)"
    by (rule dealloc_find_end [of s _ "L (Fr a)" "[]"]) (use rep nn in auto)
  define found where "found = (case ?f of [] \<Rightarrow> NULL | ms \<Rightarrow> last ms)"
  have body: "dealloc_memlist s a = (if found = NULL then do {
       (m, s) \<leftarrow> empty_memlist s a;
       (_, d) \<leftarrow> double_link_push (dnodes s) (ta_free_list t) m;
       Some (m, s\<lparr>dnodes := d\<rparr>) } else Some (found, s))"
  proof (cases "L (Fr a) = []")
    case True
    then show ?thesis using t last by (simp add: dealloc_memlist_def found_def)
  next
    case False
    then have "double_link_last (dnodes s) (ta_free_list t) = Some (last (L (Fr a)))"
      "dealloc_find s (dl_head (ta_free_list t)) (last (L (Fr a))) = Some found" "last (L (Fr a)) \<noteq> NULL"
      using last find nn(1) [of "last (L (Fr a))"] by (simp_all add: found_def)
    then show ?thesis using t by (simp add: dealloc_memlist_def)
  qed
  show thesis
  proof (cases "?f = []")
    case False
    define m where "m = last ?f"
    have mf: "m \<in> set ?f" using False unfolding m_def by (rule last_in_set)
    then have m: "m \<in> set (L (Fr a))" "not_full s m" by auto
    have "dealloc_memlist s a = Some (m, s)"
    proof -
      have "found = m" using False unfolding found_def m_def by (cases ?f) simp_all
      then show ?thesis using nn(1) [OF m(1)] by (simp add: body)
    qed
    moreover have "al_caps s L Q (per_block s) m"
      unfolding al_caps_def
    proof (intro conjI ballI)
      fix b assume "b \<in> dom (tas s)"
      then obtain tb where tb: "tas s b = Some tb" by auto
      note cb = al_caps_thread [OF p(3) tb]
      have fb: "Fr b \<in> dl_ids s" using tb by auto
      show "Q k = [] \<longrightarrow> k = m" if "k \<in> set (L (Fr b))" for k
        using cb(2) [OF that] al_lists_in(2) [OF p(1) fb that] by auto
      show "Q k = []" if "k \<in> set (L (Em b))" for k by (rule cb(1) [OF that])
      show "length (L (Fr b)) \<le> 2" "free_size (the (tas s b)) = of_nat (cached L Q b)" "cached L Q b < 2 * per_block s"
        using cb tb by simp_all
    qed (use al_caps_memlist [OF p(3)] al_caps_central [OF p(3)] in auto)
    then have "al_inv s L Q m live TL BL" using p by (simp add: al_inv_def)
    ultimately show thesis
      using that m(1) not_full_iff [OF i nn(2) [OF m(1)]] m(2) by (auto simp: al_static_def)
  next
    case True
    have full: "length (Q k) = per_block s" if "k \<in> set (L (Fr a))" for k
    proof -
      have "\<not> not_full s k" using True that by (auto simp: filter_empty_conv)
      then show ?thesis using not_full_iff [OF i nn(2) [OF that]] al_caps_memlist(2) [OF p(3) nn(2) [OF that]] by simp
    qed
    then have "cached L Q a = length (L (Fr a)) * per_block s"
      by (simp add: cached_def sum_list_triv cong: map_cong)
    then have short: "length (L (Fr a)) \<le> 1" using al_caps_thread(5) [OF p(3) t] by auto
    have o0: "al_objs (s\<lparr>words := words s\<rparr>) Q (unat (obj_size (central s))) live" using p(2) by simp
    obtain m s2 L2 where e: "empty_memlist s a = Some (m, s2)" "al_lists s2 L2 {m}" "L2 = L(Em a := tl (L (Em a)))"
      "al_objs (s2\<lparr>words := words s\<rparr>) (Q(m := [])) (unat (obj_size (central s))) live" "m \<in> dom (memlists s2)" "al_mem s2"
      "dom (memlists s2) = insert m (dom (memlists s))"
      "init_size (the (memlists s2 m)) = of_nat (per_block s)" "\<And>k. k \<noteq> m \<Longrightarrow> memlists s2 k = memlists s k"
      "m \<in> dom (memlists s) \<Longrightarrow> Q m = []"
      "tas s2 = tas s" "words s2 = words s" "central s2 = central s" "ta_nodes s2 = ta_nodes s"
      "block_nodes s2 = block_nodes s" "block_mem s2 = block_mem s"
      by (rule empty_memlist_ok [OF p(1) o0 p(3,4) t]) blast
    have fi2: "Fr a \<in> dl_ids s2" using t e(11) by auto
    obtain d where d: "double_link_push (dnodes s2) (ta_free_list t) m = Some (0, d)"
      "al_lists (s2\<lparr>dnodes := d\<rparr>) (L2(Fr a := L2 (Fr a) @ [m])) {}" "dom d = dom (dnodes s2)"
      using al_lists_push [OF e(2) fi2] t e(11) by auto
    define s' where "s' = s2\<lparr>dnodes := d\<rparr>"
    define L' where "L' = L2(Fr a := L2 (Fr a) @ [m])"
    define Q' where "Q' = Q(m := [])"
    have "dealloc_memlist s a = Some (m, s')"
      using True e(1) d(1) by (simp add: body found_def s'_def)
    moreover have "al_caps s' L' Q' (per_block s) m"
    proof (rule al_caps_adopt [OF p(3,1) t e(2,3)])
      show "tas s' = (tas s)(a \<mapsto> t\<lparr>free_size := of_nat (cached L Q a + length [])\<rparr>)"
        using t e(11) al_caps_thread(4) [OF p(3) t] by (auto simp: s'_def)
    qed (use e(7-9,11) short al_caps_thread(5) [OF p(3) t] in \<open>simp_all add: s'_def L'_def Q'_def dl_ids_def\<close>)
    moreover have "al_objs s' Q' (unat (obj_size (central s))) live"
      by (rule al_objs_cong [OF e(4) [folded Q'_def]]) (simp_all add: s'_def e(12) ol_def fun_eq_iff)
    moreover have "al_total s' Q' = al_total s Q"
      using al_total_adopt [of s s' m Q "[]"] e(7,10) p(2) by (simp add: Q'_def s'_def al_objs_def)
    moreover have "al_mem s'" using e(6) d(3) by (simp add: al_mem_def s'_def)
    moreover have "al_dirs s' TL BL" using p(5) e(11,13-16) by (auto simp: al_dirs_def s'_def)
    moreover have st: "al_static s s'" using e(11,13) by (simp add: al_static_def s'_def)
    ultimately have "al_inv s' L' Q' m live TL BL"
      using d(2) p(6,7) al_static_sizes [OF st] e(13) by (simp add: al_inv_def s'_def L'_def)
    moreover have "length (Q' m) < per_block s'" using per_block_bounds(1) [OF p(6)] al_static_sizes(2) [OF st] by (simp add: Q'_def)
    ultimately show thesis
      using that [of m s' L' Q'] \<open>dealloc_memlist s a = Some (m, s')\<close> st e(12) by (simp add: L'_def s'_def)
  qed
qed

text \<open>Giving an object back whose first word is NULL.\<close>

lemma thread_allocator_dealloc_ok:
  assumes i0: "al_inv s0 L0 Q0 NULL live TL BL" and t0: "tas s0 a = Some t0"
    and p: "ptr \<in> live" "words s0 ptr = Some NULL"
  obtains s' L' Q' where "thread_allocator_dealloc s0 a ptr = Some s'" "al_inv s' L' Q' NULL (live - {ptr}) TL BL"
    "al_static s0 s'" "\<And>q. q \<in> live - {ptr} \<Longrightarrow> words s' q = words s0 q"
proof -
  obtain m s L Q where 1: "dealloc_memlist s0 a = Some (m, s)" "al_inv s L Q m live TL BL" "m \<in> set (L (Fr a))"
    "length (Q m) < per_block s" "al_static s0 s" "words s = words s0"
    by (rule dealloc_memlist_ok [OF i0 t0])
  note q = al_inv_parts [OF 1(2)]
  note pb = per_block_bounds [OF q(6)]
  let ?N = "per_block s" and ?z = "unat (obj_size (central s))"
  have "a \<in> dom (tas s)" using 1(5) t0 by (auto simp: al_static_def)
  then obtain t where t: "tas s a = Some t" by auto
  have fi: "Fr a \<in> dl_ids s" using t by auto
  note min = al_lists_in [OF q(1) fi 1(3)]
  obtain ml where ml: "memlists s m = Some ml" using min(1) by auto
  note ca = al_caps_thread [OF q(3) t]
  have len: "Suc (length (Q m)) < 2 ^ 31" using 1(4) pb(2) by simp
  obtain h l where f: "link_list_push_back (words s) (ol s m) ptr = Some (h, l)"
    "al_objs (set_objs s m h l) (Q(m := Q m @ [ptr])) ?z (live - {ptr})"
    "ll_size l = of_nat (Suc (length (Q m)))" "dom h = dom (words s)" "\<And>q. q \<in> live - {ptr} \<Longrightarrow> h q = words s q"
    by (rule al_objs_put [OF q(2) min(1) p(1) _ len]) (use p(2) 1(6) in auto)
  define Q1 where "Q1 = Q(m := Q m @ [ptr])"
  define s1 where "s1 = set_free_size (set_objs s m h l) a (free_size t + 1)"
  have l1: "al_lists s1 L {}" by (rule al_lists_cong [OF q(1)]) (simp_all add: s1_def)
  have o1: "al_objs s1 Q1 ?z (live - {ptr})" by (rule al_objs_cong [OF f(2) [folded Q1_def]]) (simp_all add: s1_def)
  have same1: "al_same s s1" using f(4) by (simp add: al_same_def s1_def)
  have dist: "distinct (L (Fr a))" by (rule al_lists_distinct [OF q(1) fi])
  have ca1: "cached L Q1 a = Suc (cached L Q a)"
  proof -
    obtain as bs where s: "L (Fr a) = as @ m # bs" using split_list [OF 1(3)] by blast
    have "(\<Sum>k\<leftarrow>xs. length (Q1 k)) = (\<Sum>k\<leftarrow>xs. length (Q k))" if "m \<notin> set xs" for xs
      using that by (auto simp: Q1_def intro!: arg_cong [where f = sum_list] map_cong)
    then show ?thesis using dist s by (simp add: cached_def Q1_def)
  qed
  have t1: "tas s1 a = Some (t\<lparr>free_size := of_nat (cached L Q1 a)\<rparr>)"
    using t ca(4) ca1 by (simp add: s1_def)
  have fr: "link_list_push_back (words s) (objs_of ml) ptr = Some (h, l)" using f(1) ml by (simp add: ol_def)
  have ini: "init_size ml = of_nat ?N" using al_caps_memlist(1) [OF q(3) min(1)] ml by simp
  have tot1: "al_total s1 Q1 = Suc (al_total s Q)"
    using al_total_upd [of s m Q "Q m @ [ptr]"] min(1) q(2) same1
    by (simp add: Q1_def al_total_def al_same_def al_objs_def)
  have fin: "finite live" using q(2) by (simp add: al_objs_def)
  then have card1: "card (live - {ptr}) + al_total s1 Q1 = length BL * ?N"
    using q(7) p(1) tot1 card_Suc_Diff1 [OF fin p(1)] by simp
  have oth: "k \<noteq> m" if "i \<in> dl_ids s" "i \<noteq> Fr a" "k \<in> set (L i)" for i k
    using min(4) [OF that(1)] that(2,3) by blast
  have caps: "al_caps s' L' Q1 ?N NULL"
    if s': "memlists s' = memlists s1" "\<And>b. b \<noteq> a \<Longrightarrow> tas s' b = tas s1 b" "dom (tas s') = dom (tas s1)"
      and L': "\<And>b. b \<noteq> a \<Longrightarrow> L' (Fr b) = L (Fr b)" "\<And>b. L' (Em b) = L (Em b)"
      and cen: "\<And>k. k \<in> set (L' Cen) \<Longrightarrow> length (Q1 k) = ?N"
      and F: "set (L' (Fr a)) \<subseteq> set (L (Fr a))" "length (L' (Fr a)) \<le> 2"
        "free_size (the (tas s' a)) = of_nat (cached L' Q1 a)" "cached L' Q1 a < 2 * ?N" for s' L'
  proof (rule al_caps_upd [OF q(3)])
    show "a \<in> dom (tas s)" using t by auto
    show "dom (memlists s') = dom (memlists s)" "dom (tas s') = dom (tas s)" using s' by (simp_all add: s1_def)
    show "init_size (the (memlists s' k)) = init_size (the (memlists s k))" if "k \<in> dom (memlists s)" for k
      using s'(1) that by (simp add: s1_def)
    show "tas s' b = tas s b" if "b \<noteq> a" for b using s'(2) that by (simp add: s1_def)
    show "L' (Fr b) = L (Fr b) \<and> L' (Em b) = L (Em b)" if "b \<noteq> a" for b using L' that by simp
    show "Q1 k = Q k \<and> k \<noteq> m" if "b \<noteq> a" "b \<in> dom (tas s)" "k \<in> set (L (Fr b)) \<union> set (L (Em b))" for b k
      using that oth [of "Fr b" k] oth [of "Em b" k] by (auto simp: Q1_def)
    show "length (Q1 k) \<le> ?N" if "k \<in> dom (memlists s)" for k
      using al_caps_memlist(2) [OF q(3) that] 1(4) by (simp add: Q1_def)
    show "length (Q1 k) = ?N" if "k \<in> set (L' Cen)" for k by (rule cen [OF that])
    show "Q1 k = []" if "k \<in> set (L' (Em a))" for k
      using that L'(2) ca(1) oth [of "Em a" k] t by (auto simp: Q1_def)
    show "k = NULL" if "k \<in> set (L' (Fr a))" "Q1 k = []" for k
      using that F(1) ca(2) [of k] by (auto simp: Q1_def split: if_splits)
  qed (use F in auto)
  have inv': "al_inv s' L' Q1 NULL (live - {ptr}) TL BL"
    if "al_lists s' L' {}" "al_caps s' L' Q1 ?N NULL" "al_same s1 s'" "words s' = words s1" "memlists s' = memlists s1" for s' L'
  proof -
    have ss: "al_same s s'" by (rule al_same_trans [OF same1 that(3)])
    have "al_objs s' Q1 ?z (live - {ptr})" by (rule al_objs_cong [OF o1]) (simp_all add: that ol_def fun_eq_iff)
    moreover have "al_total s' Q1 = al_total s1 Q1" using that(5) by (simp add: al_total_def)
    ultimately show ?thesis
      using that al_same_mem [OF ss q(4)] al_same_dirs [OF ss q(5)] al_static_sizes [OF al_same_static [OF ss]] q(6) card1 ss
      by (simp add: al_inv_def al_same_def)
  qed
  have st1: "al_static s0 s'" if "al_same s1 s'" for s'
    using al_static_trans [OF 1(5) al_same_static [OF al_same_trans [OF same1 that]]] .
  let ?give = "ll_size l = init_size ml \<and> init_size ml * 2 \<le> free_size t + 1"
  have small: "Suc (cached L Q a) < 2 ^ 32" "2 * ?N < 2 ^ 32" using ca(5) pb(2) by simp_all
  have give_iff: "?give \<longleftrightarrow> Suc (length (Q m)) = ?N \<and> 2 * ?N \<le> Suc (cached L Q a)"
  proof -
    have "ll_size l = init_size ml \<longleftrightarrow> Suc (length (Q m)) = ?N"
    proof -
      have "unat (ll_size l) = Suc (length (Q m))" "unat (init_size ml) = ?N"
        using f(3) ini len pb(2) by (simp_all add: unat_of_nat del: of_nat_Suc)
      then show ?thesis by (metis word_unat_eq_iff)
    qed
    moreover have "unat (free_size t + 1) = Suc (cached L Q a)"
    proof -
      have "free_size t + 1 = of_nat (Suc (cached L Q a))" using ca(4) by simp
      then show ?thesis using small by (simp add: unat_of_nat del: of_nat_Suc)
    qed
    moreover have "unat (init_size ml * 2) = 2 * ?N"
    proof -
      have "init_size ml * 2 = of_nat (2 * ?N)" using ini by (simp add: mult.commute)
      then show ?thesis using small by (simp add: unat_of_nat del: of_nat_mult)
    qed
    ultimately show ?thesis by (simp add: word_le_nat_alt)
  qed
  have body: "thread_allocator_dealloc s0 a ptr = (if ?give then do {
       let s2 = set_free_size s1 a (free_size t + 1 - ll_size l);
       (_, d) \<leftarrow> double_link_remove (dnodes s2) m;
       give_back_to_central (s2\<lparr>dnodes := d\<rparr>) m } else Some s1)"
    using 1(1) ml fr t by (simp add: thread_allocator_dealloc_def s1_def Let_def)
  show thesis
  proof (cases ?give)
    case False
    have lt: "cached L Q1 a < 2 * ?N"
    proof (rule ccontr)
      assume "\<not> cached L Q1 a < 2 * ?N"
      then have c2: "Suc (cached L Q a) = 2 * ?N" using ca1 ca(5) by simp
      then have "Suc (length (Q m)) < ?N" using False give_iff 1(4) by auto
      moreover have "cached L Q a \<le> length (Q m) + ?N"
      proof -
        obtain as bs where s: "L (Fr a) = as @ m # bs" using split_list [OF 1(3)] by blast
        then have "length (as @ bs) \<le> 1" using ca(3) by simp
        then have "as @ bs = [] \<or> (\<exists>k. as @ bs = [k])" by (cases "as @ bs") auto
        moreover have "length (Q k) \<le> ?N" if "k \<in> set (L (Fr a))" for k
          using al_caps_memlist(2) [OF q(3)] al_lists_in(1) [OF q(1) fi that] by blast
        ultimately have "(\<Sum>k\<leftarrow>as @ bs. length (Q k)) \<le> ?N" using s by (auto simp: append_eq_Cons_conv)
        then show ?thesis using s by (simp add: cached_def)
      qed
      ultimately show False using c2 by simp
    qed
    have "al_inv s1 L Q1 NULL (live - {ptr}) TL BL"
    proof (rule inv' [OF l1 caps])
      show "length (Q1 k) = ?N" if "k \<in> set (L Cen)" for k
        using al_caps_central [OF q(3) that] oth [of Cen k] that by (simp add: Q1_def)
    qed (use lt t1 ca(3) al_same_refl in auto)
    moreover have "words s1 q = words s0 q" if "q \<in> live - {ptr}" for q using f(5) [OF that] 1(6) by (simp add: s1_def)
    ultimately show thesis using that [of s1 L Q1] body False st1 [OF al_same_refl] by auto
  next
    case True
    obtain as bs where s: "L (Fr a) = as @ m # bs" using split_list [OF 1(3)] by blast
    have lm: "length (Q1 m) = ?N" using True give_iff by (simp add: Q1_def)
    define s2 where "s2 = set_free_size s1 a (free_size t + 1 - ll_size l)"
    have same2: "al_same s1 s2" by (simp add: al_same_def s2_def)
    have l2: "al_lists s2 L {}" by (rule al_lists_cong [OF l1]) (simp_all add: s2_def)
    have fi2: "Fr a \<in> dl_ids s2" using t1 by (auto simp: s2_def)
    obtain d1 where d1: "double_link_remove (dnodes s2) m = Some (0, d1)"
      "al_lists (s2\<lparr>dnodes := d1\<rparr>) (L(Fr a := as @ bs)) {m}" "dom d1 = dom (dnodes s2)"
      by (rule al_lists_remove [OF l2 fi2 s])
    have ci: "Cen \<in> dl_ids (s2\<lparr>dnodes := d1\<rparr>)" by simp
    obtain d2 where d2: "double_link_push d1 (central_free_list (central s2)) m = Some (0, d2)"
      "al_lists (s2\<lparr>dnodes := d2\<rparr>) (L(Fr a := as @ bs, Cen := L Cen @ [m])) {}" "dom d2 = dom d1"
      using al_lists_push [OF d1(2) ci] by auto
    define s' where "s' = s2\<lparr>dnodes := d2\<rparr>"
    define L' where "L' = L(Fr a := as @ bs, Cen := L Cen @ [m])"
    have run: "thread_allocator_dealloc s0 a ptr = Some s'"
      using body True d1(1) d2(1) by (simp add: Let_def give_back_to_central_def s2_def s'_def)
    have ca': "cached L' Q1 a + ?N = cached L Q1 a" using s lm by (simp add: cached_def L'_def)
    have sz: "free_size t + 1 - ll_size l = of_nat (cached L' Q1 a)"
    proof -
      have "free_size t + 1 = of_nat (cached L' Q1 a + ?N)" using ca(4) ca1 ca' by simp
      moreover have "ll_size l = of_nat ?N" using True ini by simp
      ultimately show ?thesis by simp
    qed
    have same3: "al_same s1 s'" using same2 d1(3) d2(3) by (simp add: al_same_def s'_def)
    have "al_inv s' L' Q1 NULL (live - {ptr}) TL BL"
    proof (rule inv' [OF d2(2) [folded L'_def s'_def] caps same3])
      show "length (Q1 k) = ?N" if "k \<in> set (L' Cen)" for k
        using that al_caps_central [OF q(3)] oth [of Cen k] lm by (auto simp: L'_def Q1_def)
      show "cached L' Q1 a < 2 * ?N" using ca' ca1 ca(5) pb(1) by simp
      show "free_size (the (tas s' a)) = of_nat (cached L' Q1 a)" using sz t1 by (simp add: s'_def s2_def)
      show "length (L' (Fr a)) \<le> 2" "set (L' (Fr a)) \<subseteq> set (L (Fr a))" using ca(3) s by (auto simp: L'_def)
    qed (auto simp: s'_def s2_def L'_def)
    moreover have "words s' q = words s0 q" if "q \<in> live - {ptr}" for q using f(5) [OF that] 1(6) by (simp add: s'_def s2_def s1_def)
    ultimately show thesis using that [of s' L' Q1] run st1 [OF same3] by blast
  qed
qed

section \<open>The allocator of a thread is made when it is needed\<close>

lemma al_lists_below:
  assumes "al_lists s L P" and "al_mem s" and "i \<in> dl_ids s" and "x \<in> set (L i) \<union> dl_foot (dl_hdr s i)"
  shows "x < brk s"
proof -
  have "x \<in> dom (dnodes s)" using dl_repr_dom [OF al_lists_repr [OF assms(1,3)]] assms(4) by blast
  then show ?thesis using assms(2) unfolding al_mem_def by blast
qed

text \<open>The two lists of a new thread allocator at address a.\<close>

lemma new_lists_family:
  assumes l: "al_lists s L {}" and mem: "al_mem s" and a: "a = brk s"
    and d: "d = (dnodes s)(a + 16 \<mapsto> null_dnode, a + 32 \<mapsto> null_dnode, a + 48 \<mapsto> null_dnode, a + 64 \<mapsto> null_dnode)"
    and fl: "fl = \<lparr>dl_head = a + 16, dl_tail = a + 32\<rparr>" and el: "el = \<lparr>dl_head = a + 48, dl_tail = a + 64\<rparr>"
  obtains d1 d2 where "double_link_clear d fl = Some d1" "double_link_clear d1 el = Some d2"
    "dlq.family d2 (insert (Em a) (insert (Fr a) (dl_ids s))) ((dl_hdr s)(Fr a := fl, Em a := el)) (L(Fr a := [], Em a := []))"
    "dom d2 = dom (dnodes s) \<union> {a + 16, a + 32, a + 48, a + 64}"
proof -
  have f: "dlq.family (dnodes s) (dl_ids s) (dl_hdr s) L" using l by (simp add: al_lists_def)
  have foot: "dl_foot fl = {a + 16, a + 32}" "dl_foot el = {a + 48, a + 64}" by (simp_all add: fl el dl_foot_def)
  have below: "x < a" if "i \<in> dl_ids s" "x \<in> set (L i) \<union> dl_foot (dl_hdr s i)" for i x
    using al_lists_below [OF l mem that] a by simp
  have tid: "a \<notin> dom (tas s)" using mem a unfolding al_mem_def by blast
  obtain d1 where d1: "double_link_clear d fl = Some d1" "dl_repr d1 fl []" "\<And>m. m \<notin> dl_foot fl \<Longrightarrow> d1 m = d m" "dom d1 = dom d"
    by (rule double_link_clear_repr [of fl d]) (auto simp: d fl a)
  have f1: "dlq.family d1 (insert (Fr a) (dl_ids s)) ((dl_hdr s)(Fr a := fl)) (L(Fr a := []))"
  proof (rule dlq.family_add [OF f _ d1(2)])
    show "Fr a \<notin> dl_ids s" using tid by simp
    show "dl_foot fl \<inter> (set (L j) \<union> dl_foot (dl_hdr s j)) = {}" if "j \<in> dl_ids s" for j
      using below [OF that] foot by fastforce
    show "d1 m = dnodes s m" if "j \<in> dl_ids s" "m \<in> set (L j) \<union> dl_foot (dl_hdr s j)" for j m
      using below [OF that] d1(3) [of m] foot by (simp add: d)
  qed
  obtain d2 where d2: "double_link_clear d1 el = Some d2" "dl_repr d2 el []" "\<And>m. m \<notin> dl_foot el \<Longrightarrow> d2 m = d1 m" "dom d2 = dom d1"
    by (rule double_link_clear_repr [of el d1]) (auto simp: d1(4) d el a)
  have f2: "dlq.family d2 (insert (Em a) (insert (Fr a) (dl_ids s))) ((dl_hdr s)(Fr a := fl, Em a := el)) (L(Fr a := [], Em a := []))"
  proof (rule dlq.family_add [OF f1 _ d2(2)])
    show "Em a \<notin> insert (Fr a) (dl_ids s)" using tid by simp
    have b: "x < a \<or> x \<in> {a + 16, a + 32}"
      if "j \<in> insert (Fr a) (dl_ids s)" "x \<in> set ((L(Fr a := [])) j) \<union> dl_foot (((dl_hdr s)(Fr a := fl)) j)" for j x
      using that below [of j x] foot(1) by (cases "j = Fr a") auto
    show "dl_foot el \<inter> (set ((L(Fr a := [])) j) \<union> dl_foot (((dl_hdr s)(Fr a := fl)) j)) = {}"
      if "j \<in> insert (Fr a) (dl_ids s)" for j
      using b [OF that] foot(2) by fastforce
    show "d2 m = d1 m" if "j \<in> insert (Fr a) (dl_ids s)" "m \<in> set ((L(Fr a := [])) j) \<union> dl_foot (((dl_hdr s)(Fr a := fl)) j)" for j m
      using b [OF that] foot(2) by (intro d2(3)) auto
  qed
  have "dom d2 = dom (dnodes s) \<union> {a + 16, a + 32, a + 48, a + 64}" using d1(4) d2(4) by (auto simp: d)
  with d1(1) d2(1) f2 that show thesis by blast
qed

lemma al_dirs_key:
  "al_dirs s TL BL \<Longrightarrow> has_mtx (central s) \<Longrightarrow> t_key (central s) t = NULL \<or> t_key (central s) t \<in> dom (tas s)"
  unfolding al_dirs_def by metis

lemma create_thread_allocator_ok:
  assumes i: "al_inv s L Q NULL live TL BL" and len: "Suc (length TL) < 2 ^ 31" and one: "\<not> has_mtx (central s) \<Longrightarrow> TL = []"
  obtains s' L' l where "create_thread_allocator s = Some (brk s, s')" "al_inv s' L' Q NULL live (TL @ [brk s]) BL"
    "central s' = (central s)\<lparr>thread_allocators := l\<rparr>" "dom (tas s') = insert (brk s) (dom (tas s))" "words s' = words s"
proof -
  note p = al_inv_parts [OF i]
  let ?a = "brk s"
  define fl where "fl = \<lparr>dl_head = ?a + 16, dl_tail = ?a + 32\<rparr>"
  define el where "el = \<lparr>dl_head = ?a + 48, dl_tail = ?a + 64\<rparr>"
  define d where "d = (dnodes s)(?a + 16 \<mapsto> null_dnode, ?a + 32 \<mapsto> null_dnode, ?a + 48 \<mapsto> null_dnode, ?a + 64 \<mapsto> null_dnode)"
  obtain d1 d2 where d12: "double_link_clear d fl = Some d1" "double_link_clear d1 el = Some d2"
    "dlq.family d2 (insert (Em ?a) (insert (Fr ?a) (dl_ids s))) ((dl_hdr s)(Fr ?a := fl, Em ?a := el)) (L(Fr ?a := [], Em ?a := []))"
    "dom d2 = dom (dnodes s) \<union> {?a + 16, ?a + 32, ?a + 48, ?a + 64}"
    by (rule new_lists_family [OF p(1,4) refl d_def fl_def el_def])
  have below: "x < ?a" if "x \<in> dom (tas s) \<union> dom (ta_nodes s)" for x using p(4) that unfolding al_mem_def by blast
  have tid: "?a \<notin> dom (tas s)" and tn: "?a \<notin> dom (ta_nodes s)" using below by blast+
  have r: "ll_repr (ta_nodes s) (thread_allocators (central s)) TL" "set TL = dom (tas s)" using p(5) by (simp_all add: al_dirs_def)
  have fresh: "?a \<notin> set TL" using r(2) tid by simp
  have r': "ll_repr ((ta_nodes s)(?a \<mapsto> NULL)) (thread_allocators (central s)) TL"
    using r(1) fresh by (subst ll_repr_cong [of TL _ "ta_nodes s"]) auto
  have fr: "ll_free ((ta_nodes s)(?a \<mapsto> NULL)) ?a" using p(4) by (simp add: ll_free_def al_mem_def)
  obtain h l where b: "link_list_push_back ((ta_nodes s)(?a \<mapsto> NULL)) (thread_allocators (central s)) ?a = Some (h, l)"
    "ll_repr h l (TL @ [?a])"
    by (rule link_list_push_back_repr [OF r' fr fresh]) (use len in \<open>simp add: ll_room_def\<close>)
  have dh: "dom h = insert ?a (dom (ta_nodes s))" using ll_push_dom(1) [OF b(1)] by simp
  define t where "t = \<lparr>ta_free_list = fl, ta_empty_list = el, free_size = 0\<rparr>"
  define s' where "s' = s\<lparr>brk := ?a + 88, dnodes := d2, tas := (tas s)(?a \<mapsto> t), ta_nodes := h,
    central := (central s)\<lparr>thread_allocators := l\<rparr>\<rparr>"
  define L' where "L' = L(Fr ?a := [], Em ?a := [])"
  have run: "create_thread_allocator s = Some (?a, s')"
    using d12(1,2) b(1) by (simp add: create_thread_allocator_def al_calloc_def Let_def fl_def el_def d_def t_def s'_def)
  have ids: "dl_ids s' = insert (Em ?a) (insert (Fr ?a) (dl_ids s))" by (auto simp: dl_ids_def s'_def)
  have hdr: "dl_hdr s' = (dl_hdr s)(Fr ?a := fl, Em ?a := el)"
  proof
    fix i show "dl_hdr s' i = ((dl_hdr s)(Fr ?a := fl, Em ?a := el)) i"
      by (cases i) (auto simp: s'_def t_def)
  qed
  have un: "(\<Union>j\<in>dl_ids s'. set (L' j)) = (\<Union>j\<in>dl_ids s. set (L j))"
  proof -
    have "set (L' j) = set (L j)" if "j \<in> dl_ids s" for j using that tid by (auto simp: L'_def)
    then show ?thesis unfolding ids by (simp add: L'_def)
  qed
  have l': "al_lists s' L' {}"
    using d12(3) p(1) un unfolding al_lists_def ids hdr L'_def by (simp add: s'_def)
  have o': "al_objs s' Q (unat (obj_size (central s))) live"
    by (rule al_objs_cong [OF p(2)]) (simp_all add: s'_def ol_def fun_eq_iff)
  have caps: "al_caps s' L' Q (per_block s) NULL"
    unfolding al_caps_def
  proof (intro conjI ballI)
    fix k assume "k \<in> dom (memlists s')"
    then have "k \<in> dom (memlists s)" by (simp add: s'_def)
    then show "init_size (the (memlists s' k)) = of_nat (per_block s)" "length (Q k) \<le> per_block s"
      using al_caps_memlist [OF p(3)] by (simp_all add: s'_def)
  next
    fix k assume "k \<in> set (L' Cen)" then show "length (Q k) = per_block s"
      using al_caps_central [OF p(3)] by (simp add: L'_def)
  next
    fix b assume bd: "b \<in> dom (tas s')"
    have old: "length (L' (Fr b)) \<le> 2 \<and> free_size (the (tas s' b)) = of_nat (cached L' Q b) \<and> cached L' Q b < 2 * per_block s \<and>
        (\<forall>k\<in>set (L' (Em b)). Q k = []) \<and> (\<forall>k\<in>set (L' (Fr b)). Q k = [] \<longrightarrow> k = NULL)"
    proof (cases "b = ?a")
      case True
      then show ?thesis using per_block_bounds(1) [OF p(6)] by (simp add: s'_def L'_def t_def cached_def)
    next
      case False
      then obtain tb where tb: "tas s b = Some tb" using bd by (auto simp: s'_def)
      have "cached L' Q b = cached L Q b" by (rule cached_cong) (use False in \<open>simp_all add: L'_def\<close>)
      then show ?thesis using al_caps_thread [OF p(3) tb] tb False by (simp add: s'_def L'_def)
    qed
    then show "length (L' (Fr b)) \<le> 2" "free_size (the (tas s' b)) = of_nat (cached L' Q b)" "cached L' Q b < 2 * per_block s" by blast+
    show "Q k = []" if "k \<in> set (L' (Em b))" for k using old that by blast
    show "Q k = [] \<longrightarrow> k = NULL" if "k \<in> set (L' (Fr b))" for k using old that by blast
  qed
  have mem: "al_mem s'"
    using p(4) d12(4) dh by (auto simp: al_mem_def s'_def)
  have "al_dirs s' (TL @ [?a]) BL"
  proof (cases "has_mtx (central s)")
    case True
    have "dom (tas s) \<subseteq> dom (tas s')" by (auto simp: s'_def)
    then have "t_key (central s) u = NULL \<or> t_key (central s) u \<in> dom (tas s')" for u
      using al_dirs_key [OF p(5) True, of u] by (elim disjE) (simp_all add: subsetD)
    then show ?thesis using p(5) b(2) True unfolding al_dirs_def by (simp add: s'_def)
  next
    case False
    then show ?thesis using p(5) b(2) one by (simp add: al_dirs_def s'_def)
  qed
  then have "al_inv s' L' Q NULL live (TL @ [?a]) BL"
    using l' o' caps mem p(6,7) by (simp add: al_inv_def s'_def per_block_def al_sizes_def al_total_def)
  with run that [of s' L' l] show thesis by (simp add: s'_def)
qed

text \<open>Setting the key of a thread.\<close>

lemma al_inv_key:
  assumes i: "al_inv s L Q X live TL BL" and a: "a \<in> dom (tas s)"
  shows "al_inv (s\<lparr>central := (central s)\<lparr>t_key := (t_key (central s))(t := a)\<rparr>\<rparr>) L Q X live TL BL"
proof -
  let ?s = "s\<lparr>central := (central s)\<lparr>t_key := (t_key (central s))(t := a)\<rparr>\<rparr>"
  note p = al_inv_parts [OF i]
  have ids: "dl_ids ?s = dl_ids s" "dl_hdr ?s = dl_hdr s"
    by (auto simp: dl_ids_def dl_hdr_def fun_eq_iff split: dlid.splits)
  have "al_lists ?s L {}" by (rule al_lists_cong [OF p(1) _ ids]) simp_all
  moreover have "al_objs ?s Q (unat (obj_size (central s))) live" by (rule al_objs_cong [OF p(2)]) (simp_all add: ol_def fun_eq_iff)
  moreover have "al_dirs ?s TL BL" using p(5) a by (auto simp: al_dirs_def)
  ultimately show ?thesis
    using p by (simp add: al_inv_def al_caps_def al_mem_def al_sizes_def per_block_def al_total_def)
qed

lemma thread_cache_ok:
  assumes i: "al_inv s L Q NULL live TL BL" and len: "Suc (length TL) < 2 ^ 31"
  obtains a s' L' TL' where "thread_cache s t = Some (a, s')" "al_inv s' L' Q NULL live TL' BL" "a \<in> dom (tas s')"
    "has_mtx (central s') = has_mtx (central s)" "obj_size (central s') = obj_size (central s)" "words s' = words s"
    "length TL' \<le> Suc (length TL)" "dom (tas s) \<subseteq> dom (tas s')"
proof -
  note p = al_inv_parts [OF i]
  have head: "link_list_head (thread_allocators (central s)) = (case TL of [] \<Rightarrow> NULL | x # _ \<Rightarrow> x)"
    using p(5) by (intro ll_repr_head [of "ta_nodes s"]) (simp add: al_dirs_def)
  have "ll_repr (ta_nodes s) (thread_allocators (central s)) TL" using p(5) by (simp add: al_dirs_def)
  from ll_repr_NULL [OF this] have TL: "set TL = dom (tas s)" "NULL \<notin> set TL" using p(5) by (auto simp: al_dirs_def)
  show thesis
  proof (cases "has_mtx (central s)")
    case True
    show thesis
    proof (cases "t_key (central s) t = NULL")
      case k: True
      obtain s1 L1 l where 1: "create_thread_allocator s = Some (brk s, s1)" "al_inv s1 L1 Q NULL live (TL @ [brk s]) BL"
        "central s1 = (central s)\<lparr>thread_allocators := l\<rparr>" "dom (tas s1) = insert (brk s) (dom (tas s))" "words s1 = words s"
        by (rule create_thread_allocator_ok [OF i len]) (use True in auto)
      let ?s = "s1\<lparr>central := (central s1)\<lparr>t_key := (t_key (central s1))(t := brk s)\<rparr>\<rparr>"
      have "al_inv ?s L1 Q NULL live (TL @ [brk s]) BL" by (rule al_inv_key [OF 1(2)]) (use 1(4) in simp)
      moreover have "thread_cache s t = Some (brk s, ?s)" using True k 1(1) by (simp add: thread_cache_def)
      ultimately show thesis using that [of "brk s" ?s L1 "TL @ [brk s]"] 1(3-5) by auto
    next
      case False
      then have "t_key (central s) t \<in> dom (tas s)" using al_dirs_key [OF p(5) True, of t] by (elim disjE) simp_all
      then show thesis using that [of "t_key (central s) t" s L TL] True False i by (auto simp: thread_cache_def)
    qed
  next
    case False
    show thesis
    proof (cases TL)
      case Nil
      obtain s1 L1 l where 1: "create_thread_allocator s = Some (brk s, s1)" "al_inv s1 L1 Q NULL live (TL @ [brk s]) BL"
        "central s1 = (central s)\<lparr>thread_allocators := l\<rparr>" "dom (tas s1) = insert (brk s) (dom (tas s))" "words s1 = words s"
        by (rule create_thread_allocator_ok [OF i len]) (use Nil in auto)
      then show thesis using that [of "brk s" s1 L1 "TL @ [brk s]"] False head Nil by (auto simp: thread_cache_def)
    next
      case (Cons x xs)
      then have "x \<noteq> NULL" "x \<in> dom (tas s)" using TL by auto
      then show thesis using that [of x s L TL] False head Cons i by (auto simp: thread_cache_def)
    qed
  qed
qed

section \<open>The client\<close>

text \<open>
  The objects the program holds, each with the first word it has written to it, after n operations:
  it allocates from any thread, writes the first word of its objects, and gives back, to any thread,
  objects whose first word it has cleared.
\<close>

inductive al_client :: "al_state \<Rightarrow> (addr \<rightharpoonup> addr) \<Rightarrow> nat \<Rightarrow> bool" where
  client_start: "create_block_obj_allocator mt osz b = Some s \<Longrightarrow> unat osz \<le> DEFAULT_BLOCK_SIZE \<Longrightarrow> 0 < b \<Longrightarrow>
     al_client s Map.empty 0"
| client_alloc: "al_client s held n \<Longrightarrow> block_obj_al_alloc s t = Some (p, s') \<Longrightarrow>
     al_client s' (held(p \<mapsto> NULL)) (Suc n)"
| client_write: "al_client s held n \<Longrightarrow> p \<in> dom held \<Longrightarrow>
     al_client (s\<lparr>words := (words s)(p \<mapsto> v)\<rparr>) (held(p \<mapsto> v)) (Suc n)"
| client_free: "al_client s held n \<Longrightarrow> held p = Some NULL \<Longrightarrow> block_obj_al_dealloc s t p = Some s' \<Longrightarrow>
     al_client s' (held(p := None)) (Suc n)"

definition al_good :: "al_state \<Rightarrow> (addr \<rightharpoonup> addr) \<Rightarrow> nat \<Rightarrow> bool" where
  "al_good s held n \<longleftrightarrow> (\<forall>p\<in>dom held. words s p = held p) \<and>
     (\<exists>L Q TL BL. al_inv s L Q NULL (dom held) TL BL \<and> length TL \<le> n \<and> length BL \<le> n \<and>
        (TL = [] \<longrightarrow> held = Map.empty))"

lemma GetK_size:
  assumes "1 \<le> unat sz" and "unat sz \<le> 2 ^ m" and "m < 31"
  obtains k where "k \<le> m" "unat (GetK sz) = k" "unat sz \<le> 2 ^ k"
proof (cases "is_pow_of_2 sz")
  case True
  with assms(1) obtain k where k: "k < 32" "sz = 2 ^ k" by (auto simp: is_pow_of_2_iff)
  then have "(2::nat) ^ k \<le> 2 ^ m" using assms(2) by (simp add: unat_2_power)
  then have "k \<le> m" by simp
  then show thesis using that [of k] k by (simp add: GetK_pow unat_2_power unat_of_nat)
next
  case False
  obtain n where n: "n < 32" "2 ^ n < unat sz" "unat sz < 2 ^ Suc n" by (rule GetSize_of_pow2_not_pow [OF False])
  have "(2::nat) ^ n < 2 ^ m" using n(2) assms(2) by linarith
  then have nm: "n < m" by simp
  then have "GetK sz = of_nat (Suc n)" using GetK_not_pow [OF False n(2,3)] assms(3) by simp
  then have "unat (GetK sz) = Suc n" using nm assms(3) by (simp add: unat_of_nat del: of_nat_Suc)
  then show thesis using that [of "Suc n"] n(3) nm by simp
qed

lemma create_block_obj_allocator_good:
  assumes c: "create_block_obj_allocator mt osz b = Some s" and z: "unat osz \<le> DEFAULT_BLOCK_SIZE" and b: "0 < b"
  shows "al_good s Map.empty 0"
proof -
  define z8 where "z8 = (if osz < 8 then 8 else osz)"
  have z8: "8 \<le> unat z8" "unat z8 \<le> 2 ^ 20"
    using z by (auto simp: z8_def word_less_nat_alt DEFAULT_BLOCK_SIZE_def split: if_splits)
  obtain k where k: "k \<le> 20" "unat (GetK z8) = k" "unat z8 \<le> 2 ^ k"
    using GetK_size [of z8 20] z8 by auto
  define fl where "fl = \<lparr>dl_head = b + 32, dl_tail = b + 48\<rparr>"
  obtain d where d: "double_link_clear [b + 32 \<mapsto> null_dnode, b + 48 \<mapsto> null_dnode] fl = Some d" "dl_repr d fl []"
    "dom d = {b + 32, b + 48}"
    by (rule double_link_clear_repr [of fl "[b + 32 \<mapsto> null_dnode, b + 48 \<mapsto> null_dnode]"]) (auto simp: fl_def)
  have s: "s = \<lparr>words = Map.empty, dnodes = d, memlists = Map.empty, tas = Map.empty, ta_nodes = Map.empty,
       block_nodes = Map.empty, block_mem = Map.empty, brk = b + 96,
       central = \<lparr>central_free_list = fl, memory_blocks = create_link_list,
         thread_allocators = create_link_list, has_mtx = mt, t_key = \<lambda>_. NULL, obj_size = push_bit k 1\<rparr>\<rparr>"
    using c d(1) k(2) by (simp add: create_block_obj_allocator_def z8_def [symmetric] fl_def Let_def)
  have osz: "unat (push_bit k (1 :: u32)) = 2 ^ k" using k(1) by (simp add: push_bit_eq_mult unat_2_power)
  have two: "(2::nat) ^ k \<le> 2 ^ 20" using k(1) by (intro power_increasing) auto
  have ids: "dl_ids s = {Cen}" by (simp add: dl_ids_def s)
  let ?L = "\<lambda>_ :: dlid. [] :: addr list" and ?Q = "\<lambda>_ :: addr. [] :: addr list"
  have "al_lists s ?L {}" using d(2) unfolding al_lists_def ids by (auto simp: dlq.family_def s dl_hdr_def)
  moreover have "al_objs s ?Q (unat (obj_size (central s))) {}" by (simp add: al_objs_def ll.family_def s)
  moreover have "al_caps s ?L ?Q (per_block s) NULL" by (simp add: al_caps_def s)
  moreover have "al_mem s" using b d(3) by (auto simp: al_mem_def s)
  moreover have "al_dirs s [] []" by (simp add: al_dirs_def s ll_repr_empty)
  moreover have "al_sizes s" using osz two k(3) z8(1) by (simp add: al_sizes_def s DEFAULT_BLOCK_SIZE_def)
  moreover have "al_total s ?Q = 0" by (simp add: al_total_def)
  ultimately have "al_inv s ?L ?Q NULL {} [] []" by (simp add: al_inv_def)
  then show ?thesis unfolding al_good_def by force
qed

lemma al_inv_live_words:
  assumes i: "al_inv s L Q X live TL BL" and p: "p \<in> live"
  shows "al_inv (s\<lparr>words := (words s)(p \<mapsto> v)\<rparr>) L Q X live TL BL"
proof -
  let ?s = "s\<lparr>words := (words s)(p \<mapsto> v)\<rparr>"
  note q = al_inv_parts [OF i]
  have sz: "0 < unat (obj_size (central s))" using q(6) by (simp add: al_sizes_def)
  have pd: "p \<in> dom (words s)"
  proof -
    have "{p..<p + unat (obj_size (central s))} \<subseteq> dom (words s)" using q(2) p unfolding al_objs_def by blast
    then show ?thesis using sz by (meson atLeastLessThan_iff le_refl less_add_same_cancel1 subsetD)
  qed
  then have dw: "dom ((words s)(p \<mapsto> v)) = dom (words s)" by auto
  have ids: "dl_ids ?s = dl_ids s" "dl_hdr ?s = dl_hdr s"
    by (auto simp: dl_ids_def dl_hdr_def fun_eq_iff split: dlid.splits)
  have olp: "ol ?s = ol s" by (simp add: ol_def fun_eq_iff)
  have "al_lists ?s L {}" by (rule al_lists_cong [OF q(1) _ ids]) simp_all
  moreover have "ll.family ((words s)(p \<mapsto> v)) (dom (memlists s)) (ol s) Q"
  proof (rule ll.family_cong)
    show "ll.family (words s) (dom (memlists s)) (ol s) Q" using q(2) by (simp add: al_objs_def)
    show "((words s)(p \<mapsto> v)) x = words s x" if "i \<in> dom (memlists s)" "x \<in> set (Q i) \<union> {}" for i x
    proof -
      have "live \<inter> set (Q i) = {}" using q(2) that(1) by (simp add: al_objs_def)
      then have "x \<noteq> p" using p that(2) by blast
      then show ?thesis by simp
    qed
  qed simp_all
  then have "al_objs ?s Q (unat (obj_size (central s))) live"
    using q(2) unfolding al_objs_def olp by (simp add: dw del: dom_fun_upd)
  moreover have "al_dirs ?s TL BL" using q(5) by (auto simp: al_dirs_def)
  ultimately show ?thesis
    using q(3,4,6,7) dw by (simp add: al_inv_def al_caps_def al_mem_def al_sizes_def per_block_def al_total_def)
qed

lemma al_dirs_NULL: "al_dirs s TL BL \<Longrightarrow> NULL \<notin> set TL"
  using ll_repr_NULL [of "ta_nodes s" "thread_allocators (central s)" TL] by (simp add: al_dirs_def)

lemma al_good_alloc:
  assumes g: "al_good s held n" and n: "Suc n < 2 ^ 31"
  obtains p s' where "block_obj_al_alloc s t = Some (p, s')" "p \<notin> dom held" "p \<noteq> NULL"
    "\<And>q. q \<in> dom held \<Longrightarrow> p + unat (obj_size (central s)) \<le> q \<or> q + unat (obj_size (central s)) \<le> p"
    "al_good s' (held(p \<mapsto> NULL)) (Suc n)"
proof -
  obtain L Q TL BL where i: "al_inv s L Q NULL (dom held) TL BL" and len: "length TL \<le> n" "length BL \<le> n"
    and w: "\<And>p. p \<in> dom held \<Longrightarrow> words s p = held p"
    using g by (auto simp: al_good_def)
  obtain a s1 L1 TL1 where 1: "thread_cache s t = Some (a, s1)" "al_inv s1 L1 Q NULL (dom held) TL1 BL" "a \<in> dom (tas s1)"
    "has_mtx (central s1) = has_mtx (central s)" "obj_size (central s1) = obj_size (central s)" "words s1 = words s"
    "length TL1 \<le> Suc (length TL)" "dom (tas s) \<subseteq> dom (tas s1)"
    by (rule thread_cache_ok [OF i, of t]) (use len n that in auto)
  obtain ta where ta: "tas s1 a = Some ta" using 1(3) by auto
  have lb: "Suc (length BL) < 2 ^ 31" using len n by simp
  obtain p s' L' Q' BL' where 2: "thread_allocator_alloc s1 a = Some (p, s')" "p \<notin> dom held"
    "al_inv s' L' Q' NULL (insert p (dom held)) TL1 BL'" "al_static s1 s'" "words s' p = Some NULL"
    "length BL' \<le> Suc (length BL)" "\<And>q. q \<in> dom held \<Longrightarrow> words s' q = words s1 q"
    by (rule thread_allocator_alloc_ok [OF 1(2) ta lb]) (rule that)
  have o: "al_objs s' Q' (unat (obj_size (central s))) (insert p (dom held))"
    using al_inv_parts(2) [OF 2(3)] 2(4) 1(5) by (simp add: al_static_def)
  then have sep: "p \<noteq> NULL" "\<And>q. q \<in> dom held \<Longrightarrow> p \<noteq> q \<Longrightarrow>
      p + unat (obj_size (central s)) \<le> q \<or> q + unat (obj_size (central s)) \<le> p"
    unfolding al_objs_def by blast+
  have "a \<in> set TL1" using al_inv_parts(5) [OF 1(2)] 1(3) by (simp add: al_dirs_def)
  then have "TL1 \<noteq> []" by auto
  then have "al_good s' (held(p \<mapsto> NULL)) (Suc n)"
    unfolding al_good_def using 2(2,3,5-7) 1(6,7) len w
    by (intro conjI exI [of _ L'] exI [of _ Q'] exI [of _ TL1] exI [of _ BL']) auto
  moreover have "block_obj_al_alloc s t = Some (p, s')" using 1(1) 2(1) by (simp add: block_obj_al_alloc_def)
  ultimately show thesis using that 2(2) sep by blast
qed

lemma al_good_dealloc:
  assumes g: "al_good s held n" and n: "Suc n < 2 ^ 31" and p: "held p = Some NULL"
  obtains s' where "block_obj_al_dealloc s t p = Some s'" "al_good s' (held(p := None)) (Suc n)"
proof -
  obtain L Q TL BL where i: "al_inv s L Q NULL (dom held) TL BL" and len: "length TL \<le> n" "length BL \<le> n"
    and w: "\<And>p. p \<in> dom held \<Longrightarrow> words s p = held p" and ne: "TL \<noteq> []"
    using g p by (auto simp: al_good_def)
  have d: "ll_repr (ta_nodes s) (thread_allocators (central s)) TL" "set TL = dom (tas s)"
    using al_inv_parts(5) [OF i] by (simp_all add: al_dirs_def)
  have hd: "link_list_head (thread_allocators (central s)) = hd TL" "hd TL \<noteq> NULL" "hd TL \<in> dom (tas s)"
    using ll_repr_head [OF d(1)] ll_repr_NULL [OF d(1)] ne d(2) by (cases TL; auto)+
  obtain a s1 L1 TL1 where 1: "(if has_mtx (central s) then thread_cache s t
      else Some (link_list_head (thread_allocators (central s)), s)) = Some (a, s1)"
    "al_inv s1 L1 Q NULL (dom held) TL1 BL" "a \<in> dom (tas s1)" "words s1 = words s" "length TL1 \<le> Suc (length TL)"
  proof (cases "has_mtx (central s)")
    case True
    show thesis by (rule thread_cache_ok [OF i, of t]) (use len n True in \<open>auto intro: that\<close>)
  next
    case False
    then show thesis using that [of "hd TL" s L TL] hd i by simp
  qed
  obtain ta where ta: "tas s1 a = Some ta" using 1(3) by auto
  have pd: "p \<in> dom held" "words s1 p = Some NULL" using p w [of p] 1(4) by auto
  obtain s' L' Q' where 2: "thread_allocator_dealloc s1 a p = Some s'" "al_inv s' L' Q' NULL (dom held - {p}) TL1 BL"
    "al_static s1 s'" "\<And>q. q \<in> dom held - {p} \<Longrightarrow> words s' q = words s1 q"
    by (rule thread_allocator_dealloc_ok [OF 1(2) ta pd]) (rule that)
  have aT: "a \<in> set TL1" "NULL \<notin> set TL1"
    using al_inv_parts(5) [OF 1(2)] 1(3) al_dirs_NULL [OF al_inv_parts(5) [OF 1(2)]] by (simp_all add: al_dirs_def)
  then have "a \<noteq> NULL" "TL1 \<noteq> []" by (metis, auto)
  then have "block_obj_al_dealloc s t p = Some s'" using 1(1) 2(1) by (simp add: block_obj_al_dealloc_def)
  moreover have "al_good s' (held(p := None)) (Suc n)"
    unfolding al_good_def
  proof (intro conjI exI)
    show "al_inv s' L' Q' NULL (dom (held(p := None))) TL1 BL" using 2(2) by simp
    show "\<forall>q\<in>dom (held(p := None)). words s' q = (held(p := None)) q" using 2(4) w 1(4) by auto
  qed (use len 1(5) \<open>TL1 \<noteq> []\<close> in auto)
  ultimately show thesis by (rule that)
qed

lemma al_good_write:
  assumes g: "al_good s held n" and p: "p \<in> dom held"
  shows "al_good (s\<lparr>words := (words s)(p \<mapsto> v)\<rparr>) (held(p \<mapsto> v)) (Suc n)"
proof -
  obtain L Q TL BL where i: "al_inv s L Q NULL (dom held) TL BL" and len: "length TL \<le> n" "length BL \<le> n"
    and w: "\<And>p. p \<in> dom held \<Longrightarrow> words s p = held p" and ne: "TL = [] \<longrightarrow> held = Map.empty"
    using g by (auto simp: al_good_def)
  have "dom (held(p \<mapsto> v)) = dom held" using p by auto
  then have "al_inv (s\<lparr>words := (words s)(p \<mapsto> v)\<rparr>) L Q NULL (dom (held(p \<mapsto> v))) TL BL"
    using al_inv_live_words [OF i p, of v] by (simp del: dom_fun_upd)
  then show ?thesis
    unfolding al_good_def using len ne p w
    by (intro conjI exI [of _ L] exI [of _ Q] exI [of _ TL] exI [of _ BL]) auto
qed

lemma al_client_good: "al_client s held n \<Longrightarrow> n < 2 ^ 31 \<Longrightarrow> al_good s held n"
proof (induction rule: al_client.induct)
  case (client_start mt osz b s)
  then show ?case by (auto intro: create_block_obj_allocator_good)
next
  case (client_alloc s held n t p s')
  then have g: "al_good s held n" and n: "Suc n < 2 ^ 31" by simp_all
  show ?case by (rule al_good_alloc [OF g n, of t]) (use client_alloc.hyps(2) in \<open>simp del: fun_upd_apply\<close>)
next
  case (client_write s held n p v)
  then have "al_good s held n" by simp
  then show ?case by (rule al_good_write) (rule client_write.hyps(2))
next
  case (client_free s held n p t s')
  then have g: "al_good s held n" and n: "Suc n < 2 ^ 31" by simp_all
  show ?case by (rule al_good_dealloc [OF g n client_free.hyps(2), of t]) (use client_free.hyps(3) in \<open>simp del: fun_upd_apply\<close>)
qed

section \<open>Properties\<close>



text \<open>The steps of a first allocation, for any size of the objects.\<close>

lemma create_block_obj_allocator_ex:
  assumes "0 < b" and "unat osz \<le> 2 ^ 31" and "1 \<le> unat osz"
  obtains s k where "create_block_obj_allocator mt osz b = Some s" "obj_size (central s) = push_bit k 1"
    "k \<le> 31" "unat osz \<le> 2 ^ k"
proof -
  define z8 where "z8 = (if osz < 8 then 8 else osz)"
  have z8: "1 \<le> unat z8" "unat z8 \<le> 2 ^ 31" "unat osz \<le> unat z8"
    using assms(2,3) by (auto simp: z8_def word_less_nat_alt)
  obtain k where k: "k \<le> 31" "unat (GetK z8) = k" "unat z8 \<le> 2 ^ k"
  proof (cases "is_pow_of_2 z8")
    case True
    then obtain k where "k < 32" "z8 = 2 ^ k" using z8(1) by (auto simp: is_pow_of_2_iff)
    then show thesis using that [of k] by (simp add: GetK_pow unat_of_nat unat_2_power)
  next
    case False
    obtain n where n: "n < 32" "2 ^ n < unat z8" "unat z8 < 2 ^ Suc n" by (rule GetSize_of_pow2_not_pow [OF False])
    have "(2::nat) ^ n < 2 ^ 31" using n(2) z8(2) by linarith
    then have n31: "n < 31" by (rule power_less_imp_less_exp [rotated]) simp
    then show thesis using that [of "Suc n"] GetK_not_pow [OF False n(2,3) n31] n(3)
      by (simp add: unat_of_nat del: of_nat_Suc)
  qed
  define fl where "fl = \<lparr>dl_head = b + 32, dl_tail = b + 48\<rparr>"
  obtain d where d: "double_link_clear [b + 32 \<mapsto> null_dnode, b + 48 \<mapsto> null_dnode] fl = Some d"
    by (rule double_link_clear_repr [of fl "[b + 32 \<mapsto> null_dnode, b + 48 \<mapsto> null_dnode]"]) (auto simp: fl_def)
  have "\<exists>s. create_block_obj_allocator mt osz b = Some s \<and> obj_size (central s) = push_bit k 1"
    using d k(2) by (simp add: create_block_obj_allocator_def z8_def [symmetric] fl_def Let_def)
  then show thesis using that k(1,3) z8(3) by fastforce
qed

section \<open>Two ways to crash\<close>

lemma empty_memlist_tas: "empty_memlist s a = Some (m, s') \<Longrightarrow> tas s' = tas s \<and> central s' = central s"
  by (auto simp: empty_memlist_def create_memlist_def al_calloc_def Let_def split: Option.bind_splits if_splits)

lemma dealloc_memlist_tas: "dealloc_memlist s a = Some (m, s') \<Longrightarrow> tas s' = tas s \<and> central s' = central s"
  by (auto simp: dealloc_memlist_def split: Option.bind_splits if_splits dest!: empty_memlist_tas)

lemma set_objs_same: "memlists s m = Some ml \<Longrightarrow> set_objs s m (words s) (objs_of ml) = s"
  by (simp add: set_objs_def fun_upd_idem)

lemma create_thread_allocator_brk: "create_thread_allocator s = Some (a, s1) \<Longrightarrow> brk s1 = brk s + 88"
  by (auto simp: create_thread_allocator_def al_calloc_def Let_def split: Option.bind_splits)

text \<open>A thread that has a cache finds the same one again.\<close>

lemma thread_cache_again:
  assumes st: "al_static s s'" and c: "thread_cache s t = Some (a, s)"
    and hd: "link_list_head (thread_allocators (central s')) = link_list_head (thread_allocators (central s))"
  shows "thread_cache s' t = Some (a, s')" and "\<not> has_mtx (central s) \<Longrightarrow> link_list_head (thread_allocators (central s)) = a"
proof -
  have br: "create_thread_allocator s \<noteq> Some (b, s)" for b
    using create_thread_allocator_brk [of s b s] by auto
  have mt: "t_key (central s) t = a \<and> a \<noteq> NULL" if m: "has_mtx (central s)"
  proof (cases "t_key (central s) t = NULL")
    case True
    then obtain s1 where 1: "create_thread_allocator s = Some (a, s1)"
      "s = s1\<lparr>central := (central s1)\<lparr>t_key := (t_key (central s1))(t := a)\<rparr>\<rparr>"
      using c m by (auto simp: thread_cache_def split: Option.bind_splits)
    from arg_cong [OF 1(2), of brk] create_thread_allocator_brk [OF 1(1)] show ?thesis by simp
  qed (use c m in \<open>simp add: thread_cache_def\<close>)
  have nomt: "link_list_head (thread_allocators (central s)) = a \<and> a \<noteq> NULL" if m: "\<not> has_mtx (central s)"
    using c m br by (cases "link_list_head (thread_allocators (central s)) = NULL") (auto simp: thread_cache_def)
  show "thread_cache s' t = Some (a, s')"
    using st hd mt nomt by (cases "has_mtx (central s)") (simp_all add: thread_cache_def al_static_def)
  show "link_list_head (thread_allocators (central s)) = a" if "\<not> has_mtx (central s)"
    using nomt that by simp
qed

lemma thread_allocator_alloc_lost:
  assumes l: "al_lists s L {}" and o: "al_objs s Q sz live" and t: "tas s a = Some t" and fs: "free_size t = 1"
    and m: "L (Fr a) = [m]" "Q m = []"
  shows "thread_allocator_alloc s a = None"
proof -
  have fi: "Fr a \<in> dl_ids s" using t by auto
  have mF: "m \<in> set (L (Fr a))" using m by simp
  note min = al_lists_in [OF l fi mF]
  obtain ml where ml: "memlists s m = Some ml" using min(1) by auto
  have "dl_repr (dnodes s) (ta_free_list t) [m]" using al_lists_repr [OF l fi] t m by simp
  from double_link_empty_repr(2) [OF this] have f: "double_link_first (dnodes s) (ta_free_list t) = Some m" by simp
  have "ll_repr (words s) (objs_of ml) []" using al_objs_repr [OF o min(1)] ml m(2) by (simp add: ol_def)
  from link_list_pop_empty [OF this] have pop: "link_list_pop (words s) (objs_of ml) = Some (NULL, words s, objs_of ml)" .
  show ?thesis using t fs f pop ml by (simp add: thread_allocator_alloc_def thread_allocator_take_def)
qed


text \<open>Giving back an object whose first word the program has not cleared, to a thread cache that is
  empty, returns, but puts the object on no list, and the next allocation by the thread fails the
  assertion of thread_allocator_alloc: the cache counts an object that it does not have.\<close>

theorem allocator_dirty_free_aborts:
  assumes "al_client s held n" and "n < 2 ^ 31" and "held p = Some v" and "v \<noteq> NULL"
    and "thread_cache s t = Some (a, s)" and "tas s a = Some ta" and "free_size ta = 0"
  shows "\<exists>s'. block_obj_al_dealloc s t p = Some s' \<and> block_obj_al_alloc s' t = None"
proof -
  have "al_good s held n" by (rule al_client_good [OF assms(1,2)])
  then obtain L Q TL BL where i: "al_inv s L Q NULL (dom held) TL BL" and w: "\<forall>p\<in>dom held. words s p = held p"
    unfolding al_good_def by blast
  have pd: "p \<in> dom held" using assms(3) by auto
  have wp: "words s p = Some v" using bspec [OF w pd] assms(3) by simp
  have pN: "p \<noteq> NULL" using al_inv_parts(2) [OF i] pd unfolding al_objs_def by blast
  obtain m s1 L1 Q1 where 1: "dealloc_memlist s a = Some (m, s1)" "al_inv s1 L1 Q1 m (dom held) TL BL" "m \<in> set (L1 (Fr a))"
    "length (Q1 m) < per_block s1" "al_static s s1" "words s1 = words s"
    by (rule dealloc_memlist_ok [OF i assms(6)])
  note q = al_inv_parts [OF 1(2)]
  note pb = per_block_bounds [OF q(6)]
  have s1: "tas s1 = tas s" "central s1 = central s" using dealloc_memlist_tas [OF 1(1)] by simp_all
  have ta: "tas s1 a = Some ta" using s1 assms(6) by simp
  note c = al_caps_thread [OF q(3) ta]
  have "cached L1 Q1 a = 0"
    using c(4,5) assms(7) pb(2) by (auto simp: word_of_nat_eq_0_iff dest: nat_dvd_not_less)
  then have em: "\<forall>k\<in>set (L1 (Fr a)). Q1 k = []" by (simp add: cached_def sum_list_eq_0)
  then have "set (L1 (Fr a)) \<subseteq> {m}" using c(2) by blast
  moreover have "distinct (L1 (Fr a))" by (rule al_lists_distinct [OF q(1)]) (use ta in auto)
  ultimately have Lm: "L1 (Fr a) = [m]" "Q1 m = []"
    using 1(3) em by (cases "L1 (Fr a)"; cases "tl (L1 (Fr a))"; auto)+
  have min: "m \<in> dom (memlists s1)" by (rule al_lists_in(1) [OF q(1) _ 1(3)]) (use ta in auto)
  then obtain ml where ml: "memlists s1 m = Some ml" by auto
  have lk: "link_list_push_back (words s1) (objs_of ml) p = Some (words s1, objs_of ml)"
    by (rule link_list_push_linked(1) [where q = v]) (use pN wp 1(6) assms(4) in auto)
  have sz: "ll_size (objs_of ml) = 0" "init_size ml = of_nat (per_block s1)"
    using al_objs_size(1) [OF q(2) min] al_caps_memlist(1) [OF q(3) min] ml Lm(2) by (simp_all add: ol_def)
  have "init_size ml \<noteq> 0" using sz(2) pb(1,2) by (auto simp: word_of_nat_eq_0_iff dest: nat_dvd_not_less)
  then have d: "thread_allocator_dealloc s a p = Some (set_free_size s1 a 1)"
    using 1(1) ml lk ta sz(1) assms(7) by (simp add: thread_allocator_dealloc_def set_objs_same)
  let ?s = "set_free_size s1 a 1"
  have st: "al_static s ?s" using 1(5) by (simp add: al_static_def)
  have tc: "thread_cache ?s t = Some (a, ?s)" by (rule thread_cache_again(1) [OF st assms(5)]) (simp add: s1)
  have "a \<noteq> NULL"
    using al_inv_parts(5) [OF i] assms(6) al_dirs_NULL [OF al_inv_parts(5) [OF i]] by (metis al_dirs_def domI)
  then have "block_obj_al_dealloc s t p = Some ?s"
    using thread_cache_again(2) [OF st assms(5)] assms(5) d s1 by (simp add: block_obj_al_dealloc_def)
  moreover have "thread_allocator_alloc ?s a = None"
  proof -
    have "al_lists ?s L1 {}" by (rule al_lists_cong [OF q(1)]) simp_all
    moreover have "al_objs ?s Q1 (unat (obj_size (central s1))) (dom held)" by (rule al_objs_cong [OF q(2)]) simp_all
    ultimately show ?thesis using thread_allocator_alloc_lost ta Lm by simp
  qed
  then have "block_obj_al_alloc ?s t = None" using tc by (simp add: block_obj_al_alloc_def)
  ultimately show ?thesis by blast
qed

text \<open>An allocator whose objects do not fit in a block has nothing to take.\<close>

lemma thread_allocator_alloc_none:
  assumes t: "tas s a = Some t" "free_size t = 0" and m: "memlists s = Map.empty"
    and z: "of_nat DEFAULT_BLOCK_SIZE div obj_size (central s) = 0"
  shows "thread_allocator_alloc s a = None"
proof (cases "thread_allocator_refill s a")
  case None
  then show ?thesis using t by (simp add: thread_allocator_alloc_def)
next
  case (Some r)
  obtain k s' where r: "r = (k, s')" by (cases r)
  have "memlists s' = [k \<mapsto> \<lparr>init_size = 0, objs_of = create_link_list\<rparr>]"
    using Some m z unfolding r
    by (auto simp: thread_allocator_refill_def central_get_memlist_def empty_memlist_def init_mem_block_def
        create_memlist_def al_calloc_def set_objs_def Let_def split: Option.bind_splits if_splits)
  then have "thread_allocator_take s' a k = None"
    by (simp add: thread_allocator_take_def link_list_pop_def create_link_list_def split: Option.bind_split)
  then show ?thesis using t Some r by (simp add: thread_allocator_alloc_def)
qed

text \<open>An allocator for objects larger than a block is made, but its first allocation never returns an
  object: no object fits in a block, so the assertion of thread_allocator_alloc fails.\<close>

theorem allocator_oversized_aborts:
  assumes "create_block_obj_allocator mt osz b = Some s" and "DEFAULT_BLOCK_SIZE < unat osz" and "unat osz \<le> 2 ^ 31"
  shows "block_obj_al_alloc s t = None"
proof -
  have z8: "(if osz < 8 then 8 else osz) = osz"
    using assms(2) by (simp add: word_less_nat_alt DEFAULT_BLOCK_SIZE_def)
  have s: "memlists s = Map.empty" "thread_allocators (central s) = create_link_list"
    "t_key (central s) = (\<lambda>_. NULL)" "obj_size (central s) = push_bit (unat (GetK osz)) 1"
    using assms(1) by (auto simp: create_block_obj_allocator_def z8 Let_def split: Option.bind_splits)
  have sz: "DEFAULT_BLOCK_SIZE < unat (obj_size (central s))"
  proof (cases "is_pow_of_2 osz")
    case True
    then obtain k where k: "k < 32" "osz = 2 ^ k" using assms(2) by (auto simp: is_pow_of_2_iff)
    then have "obj_size (central s) = osz" by (simp add: s(4) GetK_pow unat_of_nat push_bit_eq_mult)
    then show ?thesis using assms(2) by simp
  next
    case False
    obtain n where n: "n < 32" "2 ^ n < unat osz" "unat osz < 2 ^ Suc n" by (rule GetSize_of_pow2_not_pow [OF False])
    have "(2::nat) ^ n < 2 ^ 31" using n(2) assms(3) by linarith
    then have n31: "n < 31" by (rule power_less_imp_less_exp [rotated]) simp
    then have "unat (GetK osz) = Suc n" using GetK_not_pow [OF False n(2,3) n31] by (simp add: unat_of_nat del: of_nat_Suc)
    then have "unat (obj_size (central s)) = 2 ^ Suc n"
      using n31 by (simp add: s(4) push_bit_eq_mult unat_2_power del: power_Suc)
    then show ?thesis using n(3) assms(2) by simp
  qed
  have "unat (of_nat DEFAULT_BLOCK_SIZE :: u32) = DEFAULT_BLOCK_SIZE" by (simp add: DEFAULT_BLOCK_SIZE_def)
  then have z: "of_nat DEFAULT_BLOCK_SIZE div obj_size (central s) = 0" using sz by (simp add: unat_eq_zero [symmetric] unat_div)
  have n: "thread_allocator_alloc s' a = None"
    if c: "create_thread_allocator s = Some (a, s1)" "tas s' = tas s1" "memlists s' = memlists s1"
      "obj_size (central s') = obj_size (central s1)" for a s1 s'
  proof -
    have "memlists s1 = memlists s" "obj_size (central s1) = obj_size (central s)" "\<exists>t. tas s1 a = Some t \<and> free_size t = 0"
      using c(1) by (auto simp: create_thread_allocator_def al_calloc_def Let_def split: Option.bind_splits)
    then show ?thesis using thread_allocator_alloc_none [of s' a] c s(1) z by auto
  qed
  show ?thesis
    using s by (auto simp: block_obj_al_alloc_def thread_cache_def link_list_head_def create_link_list_def
        split: Option.bind_splits intro: n)
qed

theorem allocator_oversized_aborts_witness:
  "\<exists>s. create_block_obj_allocator False (2 ^ 20 + 1) 16 = Some s \<and> block_obj_al_alloc s 1 = None"
proof -
  obtain s where "create_block_obj_allocator False (2 ^ 20 + 1) 16 = Some s"
    by (rule create_block_obj_allocator_ex [of 16 "2 ^ 20 + 1" False]) (simp_all add: DEFAULT_BLOCK_SIZE_def)
  moreover from this have "block_obj_al_alloc s 1 = None"
    by (rule allocator_oversized_aborts) (simp_all add: DEFAULT_BLOCK_SIZE_def)
  ultimately show ?thesis by blast
qed


text \<open>An allocator whose blocks hold one object, after one allocation.\<close>

lemma allocator_one_object:
  obtains s p s1 a t where "create_block_obj_allocator True (2 ^ 20) 16 = Some s" "block_obj_al_alloc s 1 = Some (p, s1)"
    "has_mtx (central s1)" "t_key (central s1) 1 = a" "a \<noteq> NULL" "tas s1 a = Some t" "free_size t = 0"
proof -
  have k: "GetK 1048576 = 20" using GetK_pow [of 20] by simp
  define c where "c = \<lparr>central_free_list = \<lparr>dl_head = 48, dl_tail = 64\<rparr>, memory_blocks = create_link_list,
    thread_allocators = create_link_list, has_mtx = True, t_key = \<lambda>_. NULL, obj_size = 1048576\<rparr>"
  define s where "s = \<lparr>words = Map.empty,
    dnodes = [48 \<mapsto> \<lparr>dl_pre = NULL, dl_next = 64\<rparr>, 64 \<mapsto> \<lparr>dl_pre = 48, dl_next = NULL\<rparr>],
    memlists = Map.empty, tas = Map.empty, ta_nodes = Map.empty, block_nodes = Map.empty, block_mem = Map.empty,
    brk = 112, central = c\<rparr>"
  have s: "create_block_obj_allocator True (2 ^ 20) 16 = Some s"
    by (simp add: create_block_obj_allocator_def k list_ops null_dnode_def s_def c_def push_bit_eq_mult)
  have "map_option (\<lambda>(p, s1). (has_mtx (central s1), t_key (central s1) 1, map_option free_size (tas s1 112)))
      (block_obj_al_alloc s 1) = Some (True, 112, Some 0)"
    by (simp add: block_obj_al_alloc_def thread_allocator_alloc_def thread_cache_def create_thread_allocator_def al_calloc_def
        s_def c_def list_ops null_dnode_def thread_allocator_refill_def central_get_memlist_def DEFAULT_BLOCK_SIZE_def empty_memlist_def
        create_memlist_def init_mem_block_def set_objs_def set_free_size_def thread_allocator_take_def Let_def)
  then obtain p s1 where "block_obj_al_alloc s 1 = Some (p, s1)" "has_mtx (central s1)" "t_key (central s1) 1 = 112"
    "map_option free_size (tas s1 112) = Some 0" by auto
  then show thesis using that [OF s, of p s1 112] by auto
qed

theorem allocator_dirty_free_aborts_witness:
  "\<exists>s p s1 s2. create_block_obj_allocator True (2 ^ 20) 16 = Some s \<and> block_obj_al_alloc s 1 = Some (p, s1) \<and>
     block_obj_al_dealloc (s1\<lparr>words := (words s1)(p \<mapsto> 7)\<rparr>) 1 p = Some s2 \<and> block_obj_al_alloc s2 1 = None"
proof -
  obtain s p s1 a t where 1: "create_block_obj_allocator True (2 ^ 20) 16 = Some s" "block_obj_al_alloc s 1 = Some (p, s1)"
    "has_mtx (central s1)" "t_key (central s1) 1 = a" "a \<noteq> NULL" "tas s1 a = Some t" "free_size t = 0" by (rule allocator_one_object)
  have "al_client s Map.empty 0" by (rule client_start [OF 1(1)]) (simp_all add: DEFAULT_BLOCK_SIZE_def)
  then have "al_client s1 [p \<mapsto> NULL] 1" using client_alloc [OF _ 1(2)] by fastforce
  then have c: "al_client (s1\<lparr>words := (words s1)(p \<mapsto> 7)\<rparr>) [p \<mapsto> 7] 2"
    using client_write [of s1 "[p \<mapsto> NULL]" 1 p 7] by (simp add: numeral_2_eq_2)
  have "\<exists>s2. block_obj_al_dealloc (s1\<lparr>words := (words s1)(p \<mapsto> 7)\<rparr>) 1 p = Some s2 \<and> block_obj_al_alloc s2 1 = None"
    by (rule allocator_dirty_free_aborts [OF c, of p 7 1 a t]) (use 1 in \<open>simp_all add: thread_cache_def\<close>)
  then show ?thesis using 1(1,2) by blast
qed


end
