(* ===== verification/Allocator_Destroy.thy ===== *)
theory Allocator_Destroy
  imports Block_Allocator
begin

text \<open>
  Destroying the block allocator: release_memlist, destroy_thread_allocator and destroy_block_obj_al of
  src/epoll_mutilthread/src/block_obj_allocator.c, over the state of Block_Allocator.  Freeing what is not
  allocated is the value None.
\<close>

section \<open>Operations\<close>

text \<open>Freeing a mem_list, with the node at its front.\<close>

definition free_memlist :: "al_state \<Rightarrow> addr \<Rightarrow> al_state option" where
  "free_memlist s m =
     (if memlists s m = None then None
      else Some (s\<lparr>memlists := (memlists s)(m := None), dnodes := (dnodes s)(m := None)\<rparr>))"

partial_function (option) release_memlist :: "al_state \<Rightarrow> double_link \<Rightarrow> al_state option" where
  "release_memlist s l = do {
     (n, d) \<leftarrow> double_link_pop (dnodes s) l;
     if n = NULL then Some (s\<lparr>dnodes := d\<rparr>)
     else do { s \<leftarrow> free_memlist (s\<lparr>dnodes := d\<rparr>) n; release_memlist s l }
   }"

definition free_sentinels :: "double_link \<Rightarrow> dheap \<Rightarrow> dheap" where
  "free_sentinels l d = d(dl_head l := None, dl_tail l := None)"

definition destroy_thread_allocator :: "al_state \<Rightarrow> addr \<Rightarrow> al_state option" where
  "destroy_thread_allocator s a = do {
     t \<leftarrow> tas s a;
     s \<leftarrow> release_memlist s (ta_free_list t);
     s \<leftarrow> release_memlist s (ta_empty_list t);
     Some (s\<lparr>tas := (tas s)(a := None), ta_nodes := (ta_nodes s)(a := None),
       dnodes := free_sentinels (ta_free_list t) (free_sentinels (ta_empty_list t) (dnodes s))\<rparr>)
   }"

partial_function (option) destroy_threads :: "al_state \<Rightarrow> al_state option" where
  "destroy_threads s = do {
     (a, h, l) \<leftarrow> link_list_pop (ta_nodes s) (thread_allocators (central s));
     let s = s\<lparr>ta_nodes := h, central := (central s)\<lparr>thread_allocators := l\<rparr>\<rparr>;
     if a = NULL then Some s
     else do { s \<leftarrow> destroy_thread_allocator s a; destroy_threads s }
   }"

text \<open>Freeing a block: its memory, then its record.\<close>

definition block_range :: "addr \<Rightarrow> addr set" where
  "block_range mem = {mem..<mem + DEFAULT_BLOCK_SIZE}"

definition free_block :: "al_state \<Rightarrow> addr \<Rightarrow> al_state option" where
  "free_block s mb = do {
     mem \<leftarrow> block_mem s mb;
     if \<not> block_range mem \<subseteq> dom (words s) then None
     else Some (s\<lparr>words := words s |` (- block_range mem), block_mem := (block_mem s)(mb := None),
       block_nodes := (block_nodes s)(mb := None)\<rparr>)
   }"

partial_function (option) destroy_blocks :: "al_state \<Rightarrow> al_state option" where
  "destroy_blocks s = do {
     (mb, h, l) \<leftarrow> link_list_pop (block_nodes s) (memory_blocks (central s));
     let s = s\<lparr>block_nodes := h, central := (central s)\<lparr>memory_blocks := l\<rparr>\<rparr>;
     if mb = NULL then Some s
     else do { s \<leftarrow> free_block s mb; destroy_blocks s }
   }"

text \<open>The allocator itself, with its sentinels, goes last.\<close>

definition destroy_block_obj_al :: "al_state \<Rightarrow> al_state option" where
  "destroy_block_obj_al s = do {
     s \<leftarrow> destroy_threads s;
     s \<leftarrow> destroy_blocks s;
     s \<leftarrow> release_memlist s (central_free_list (central s));
     Some (s\<lparr>dnodes := free_sentinels (central_free_list (central s)) (dnodes s)\<rparr>)
   }"

section \<open>The memory of the blocks\<close>

text \<open>The words of objects are those of the blocks, which do not overlap.\<close>

definition al_blocks :: "al_state \<Rightarrow> bool" where
  "al_blocks s \<longleftrightarrow> dom (words s) = (\<Union>mem \<in> ran (block_mem s). block_range mem) \<and> dom (words s) \<subseteq> {..<brk s} \<and>
     dom (block_mem s) \<subseteq> {..<brk s} \<and>
     (\<forall>a b m m'. block_mem s a = Some m \<longrightarrow> block_mem s b = Some m' \<longrightarrow> a \<noteq> b \<longrightarrow> block_range m \<inter> block_range m' = {})"

definition al_keeps :: "al_state \<Rightarrow> al_state \<Rightarrow> bool" where
  "al_keeps s s' \<longleftrightarrow> dom (words s') = dom (words s) \<and> block_mem s' = block_mem s \<and> brk s \<le> brk s'"

lemma al_keeps_trans [trans]: "al_keeps s s' \<Longrightarrow> al_keeps s' s'' \<Longrightarrow> al_keeps s s''"
  by (simp add: al_keeps_def)

lemma al_keeps_refl [simp]: "al_keeps s s"
  by (simp add: al_keeps_def)

lemma al_blocks_keeps: "al_blocks s \<Longrightarrow> al_keeps s s' \<Longrightarrow> al_blocks s'"
  unfolding al_blocks_def al_keeps_def by (auto 0 3 dest: subsetD intro: less_le_trans)

lemma al_keeps_simps [simp]:
  "al_keeps s (s'\<lparr>dnodes := d\<rparr>) = al_keeps s s'" "al_keeps s (set_free_size s' a n) = al_keeps s s'"
  "al_keeps s (s'\<lparr>central := c\<rparr>) = al_keeps s s'"
  by (simp_all add: al_keeps_def)

lemma al_keeps_objs:
  "link_list_push_back (words s) l p = Some (h, l') \<Longrightarrow> al_keeps s (set_objs s m h l')"
  "link_list_pop (words s) l = Some (p, h, l') \<Longrightarrow> al_keeps s (set_objs s m h l')"
  "push_all link_list_push_back (words s) l ps = Some (h, l') \<Longrightarrow> al_keeps s (set_objs s m h l')"
  using ll_push_dom(1) [of "words s" l p h l'] ll_push_dom(3) [of "words s" l p h l'] ll_push_all_dom [of "words s" l ps h l']
  by (simp_all add: al_keeps_def)

lemma create_memlist_keeps: "create_memlist s z = (m, s') \<Longrightarrow> al_keeps s s'"
  by (auto simp: create_memlist_def al_calloc_def al_keeps_def)

lemma empty_memlist_keeps: "empty_memlist s a = Some (m, s') \<Longrightarrow> al_keeps s s'"
  using create_memlist_keeps by (fastforce simp: empty_memlist_def Let_def al_keeps_def split: bind_splits if_splits)

lemma init_mem_block_keeps: "init_mem_block s m mb z = Some s' \<Longrightarrow> al_keeps s s'"
  by (auto simp: init_mem_block_def intro: al_keeps_objs split: bind_splits)

lemma create_thread_allocator_keeps: "create_thread_allocator s = Some (a, s') \<Longrightarrow> al_keeps s s'"
  by (auto simp: create_thread_allocator_def al_calloc_def Let_def al_keeps_def split: bind_splits)

lemma thread_cache_keeps: "thread_cache s t = Some (a, s') \<Longrightarrow> al_keeps s s'"
  by (auto simp: thread_cache_def split: bind_splits if_splits dest: create_thread_allocator_keeps)

lemma thread_allocator_take_keeps: "thread_allocator_take s a m = Some (p, s') \<Longrightarrow> al_keeps s s'"
  by (auto simp: thread_allocator_take_def Let_def dest!: al_keeps_objs split: bind_splits if_splits)

lemma dealloc_memlist_keeps: "dealloc_memlist s a = Some (m, s') \<Longrightarrow> al_keeps s s'"
  by (auto simp: dealloc_memlist_def split: bind_splits if_splits dest!: empty_memlist_keeps)

lemma thread_allocator_dealloc_keeps:
  assumes "thread_allocator_dealloc s a p = Some s'"
  shows "al_keeps s s'"
proof -
  obtain m s1 where 1: "dealloc_memlist s a = Some (m, s1)"
    using assms by (auto simp: thread_allocator_dealloc_def split: bind_splits)
  have "al_keeps s1 s'"
    using assms 1 by (auto simp: thread_allocator_dealloc_def give_back_to_central_def Let_def dest!: al_keeps_objs
        split: bind_splits if_splits)
  with dealloc_memlist_keeps [OF 1] show ?thesis by (rule al_keeps_trans)
qed

lemma block_range_le: "block_range m \<subseteq> {..<b} \<Longrightarrow> m + DEFAULT_BLOCK_SIZE \<le> b"
proof -
  assume "block_range m \<subseteq> {..<b}"
  moreover have "m + 1048575 \<in> block_range m" by (simp add: block_range_def DEFAULT_BLOCK_SIZE_def)
  ultimately have "m + 1048575 < b" by blast
  then show ?thesis by (simp add: DEFAULT_BLOCK_SIZE_def)
qed

text \<open>A new block lies past all there is.\<close>

lemma central_get_memlist_blocks:
  assumes b: "al_blocks s" and r: "central_get_memlist s = Some (m, mb, s')"
  shows "al_blocks s'"
proof -
  obtain x d where d: "double_link_pop (dnodes s) (central_free_list (central s)) = Some (x, d)"
    using r by (auto simp: central_get_memlist_def split: bind_splits)
  show ?thesis
  proof (cases "x = NULL")
    case False
    then have "al_keeps s s'" using r d by (auto simp: central_get_memlist_def)
    with b show ?thesis by (rule al_blocks_keeps)
  next
    case True
    let ?mem = "brk s + 16"
    have w: "words s' = (\<lambda>a. if ?mem \<le> a \<and> a < ?mem + DEFAULT_BLOCK_SIZE then Some NULL else words s a)"
      "block_mem s' = (block_mem s)(brk s \<mapsto> ?mem)" "brk s' = ?mem + DEFAULT_BLOCK_SIZE"
      using r d True by (auto simp: central_get_memlist_def al_calloc_def Let_def split: bind_splits)
    have old: "block_mem s (brk s) = None" using b by (auto simp: al_blocks_def)
    have bound: "block_range m \<subseteq> {..<brk s}" if "block_mem s a = Some m" for a m
      using b that by (auto simp: al_blocks_def ran_def)
    have dw: "dom (words s') = dom (words s) \<union> block_range ?mem" by (auto simp: w(1) block_range_def dom_def)
    have rn: "ran (block_mem s') = insert ?mem (ran (block_mem s))" using old by (simp add: w(2))
    have "block_range m \<inter> block_range m' = {}" if "block_mem s' a = Some m" "block_mem s' b = Some m'" "a \<noteq> b" for a b m m'
    proof -
      have new: "block_range m \<inter> block_range ?mem = {}" if "block_mem s a = Some m" for a m
        using block_range_le [OF bound [OF that]] by (auto simp: block_range_def)
      show ?thesis
        using that b new [of a m] new [of b m'] by (auto simp: w(2) al_blocks_def split: if_splits)
    qed
    moreover have "dom (block_mem s') \<subseteq> {..<brk s'}" using b by (auto simp: al_blocks_def w(2,3))
    moreover have "dom (words s') \<subseteq> {..<brk s'}"
    proof -
      have "{..<brk s} \<subseteq> {..<brk s'}" and n: "block_range ?mem \<subseteq> {..<brk s'}" by (auto simp: block_range_def w(3))
      moreover have "dom (words s) \<subseteq> {..<brk s}" using b unfolding al_blocks_def by (elim conjE)
      ultimately have "dom (words s) \<subseteq> {..<brk s'}" by (metis subset_trans)
      then show ?thesis unfolding dw using n by (rule Un_least)
    qed
    moreover have "dom (words s') = (\<Union>mem \<in> ran (block_mem s'). block_range mem)"
      using b unfolding dw rn by (simp add: al_blocks_def Un_commute)
    ultimately show ?thesis unfolding al_blocks_def by blast
  qed
qed

lemma thread_allocator_alloc_blocks:
  assumes b: "al_blocks s" and r: "thread_allocator_alloc s a = Some (p, s')"
  shows "al_blocks s'"
proof -
  have refill: "al_blocks s2" if f: "thread_allocator_refill s a = Some (m, s2)" for m s2
  proof -
    obtain m1 mb s1 where 1: "central_get_memlist s = Some (m1, mb, s1)"
      using f by (auto simp: thread_allocator_refill_def split: bind_splits)
    have "al_keeps s1 s2"
      using f 1 by (auto simp: thread_allocator_refill_def split: bind_splits if_splits
          dest!: empty_memlist_keeps init_mem_block_keeps) (rule al_keeps_trans)
    then show ?thesis using central_get_memlist_blocks [OF b 1] al_blocks_keeps by blast
  qed
  obtain m s2 where 2: "s2 = s \<or> thread_allocator_refill s a = Some (m, s2)" "thread_allocator_take s2 a m = Some (p, s')"
    using r by (auto simp: thread_allocator_alloc_def split: bind_splits if_splits)
  then have "al_blocks s2" using b refill by blast
  then show ?thesis using thread_allocator_take_keeps [OF 2(2)] al_blocks_keeps by blast
qed

lemma al_client_blocks: "al_client s held n \<Longrightarrow> n < 2 ^ 31 \<Longrightarrow> al_blocks s"
proof (induction rule: al_client.induct)
  case (client_start mt osz b s)
  then show ?case by (auto simp: create_block_obj_allocator_def Let_def al_blocks_def split: bind_splits)
next
  case (client_alloc s held n t p s')
  then obtain a s1 where 1: "thread_cache s t = Some (a, s1)" "thread_allocator_alloc s1 a = Some (p, s')"
    by (auto simp: block_obj_al_alloc_def split: bind_splits)
  have "al_blocks s1" using client_alloc al_blocks_keeps [OF _ thread_cache_keeps [OF 1(1)]] by simp
  then show ?case using 1(2) by (rule thread_allocator_alloc_blocks)
next
  case (client_write s held n p v)
  then have g: "al_good s held n" using al_client_good [OF client_write.hyps(1)] by simp
  have "p \<in> dom (words s)" using g client_write.hyps(2) unfolding al_good_def by (metis domD domI)
  then have "dom ((words s)(p \<mapsto> v)) = dom (words s)" by auto
  then have "al_keeps s (s\<lparr>words := (words s)(p \<mapsto> v)\<rparr>)" by (simp add: al_keeps_def del: dom_fun_upd)
  then show ?case using client_write al_blocks_keeps by simp
next
  case (client_free s held n p t s')
  obtain a s1 where 1: "al_keeps s s1" "thread_allocator_dealloc s1 a p = Some s'"
  proof (cases "has_mtx (central s)")
    case True
    then show thesis using client_free.hyps(3) that
      by (auto simp: block_obj_al_dealloc_def split: bind_splits if_splits dest!: thread_cache_keeps)
  next
    case False
    then show thesis using client_free.hyps(3) that [OF al_keeps_refl] by (auto simp: block_obj_al_dealloc_def split: if_splits)
  qed
  have "al_blocks s" using client_free by simp
  then have "al_blocks s1" using 1(1) by (rule al_blocks_keeps)
  then show ?case using thread_allocator_dealloc_keeps [OF 1(2)] al_blocks_keeps by blast
qed

section \<open>Releasing a list of mem_lists\<close>

lemma dl_repr_drop: "dl_repr d l xs \<Longrightarrow> n \<notin> set xs \<union> dl_foot l \<Longrightarrow> dl_repr (d(n := None)) l xs"
  by (rule dlq.repr_cong [of d]) auto

lemma release_memlist_ok:
  assumes "dl_repr (dnodes s) l xs" and "set xs \<subseteq> dom (memlists s)"
  shows "\<exists>d. release_memlist s l = Some (s\<lparr>dnodes := d, memlists := memlists s |` (- set xs)\<rparr>) \<and>
    (\<forall>a. a \<notin> set xs \<union> dl_foot l \<longrightarrow> d a = dnodes s a)"
  using assms
proof (induction xs arbitrary: s)
  case Nil
  then have "double_link_pop (dnodes s) l = Some (NULL, dnodes s)" by (simp add: double_link_pop_def double_link_empty_repr)
  then show ?case by (intro exI [of _ "dnodes s"]) (simp add: release_memlist.simps [of s])
next
  case (Cons x xs)
  obtain h where h: "double_link_pop (dnodes s) l = Some (x, h)" "dl_repr h l xs"
    "\<And>m. m \<notin> set (x # xs) \<union> dl_foot l \<Longrightarrow> h m = dnodes s m"
    by (rule double_link_pop_repr [OF Cons.prems(1)]) blast
  have x: "x \<notin> set xs \<union> dl_foot l" "x \<noteq> NULL" using dlq.repr_distinct [OF Cons.prems(1)] by auto
  define s1 where "s1 = s\<lparr>dnodes := h(x := None), memlists := (memlists s)(x := None)\<rparr>"
  have f: "free_memlist (s\<lparr>dnodes := h\<rparr>) x = Some s1"
    using Cons.prems(2) by (auto simp: free_memlist_def s1_def)
  have "dl_repr (dnodes s1) l xs" using dl_repr_drop [OF h(2) x(1)] by (simp add: s1_def)
  moreover have "set xs \<subseteq> dom (memlists s1)" using Cons.prems(2) x(1) by (auto simp: s1_def)
  ultimately obtain d where d: "release_memlist s1 l = Some (s1\<lparr>dnodes := d, memlists := memlists s1 |` (- set xs)\<rparr>)"
    "\<And>a. a \<notin> set xs \<union> dl_foot l \<Longrightarrow> d a = dnodes s1 a"
    using Cons.IH by blast
  have "release_memlist s l = release_memlist s1 l" using h(1) f x(2) by (simp add: release_memlist.simps [of s])
  moreover have "memlists s1 |` (- set xs) = memlists s |` (- set (x # xs))"
    using x(1) by (auto simp: s1_def restrict_map_def fun_eq_iff)
  ultimately have "release_memlist s l = Some (s\<lparr>dnodes := d, memlists := memlists s |` (- set (x # xs))\<rparr>)"
    using d(1) by (simp add: s1_def)
  moreover have "d a = dnodes s a" if "a \<notin> set (x # xs) \<union> dl_foot l" for a
    using d(2) [of a] h(3) [OF that] that by (simp add: s1_def)
  ultimately show ?case by blast
qed

section \<open>Destroying the allocators of the threads\<close>

text \<open>The mem_lists are in the central list and in those of the threads that are left.\<close>

definition dying :: "al_state \<Rightarrow> (dlid \<Rightarrow> addr list) \<Rightarrow> addr list \<Rightarrow> bool" where
  "dying s L TL \<longleftrightarrow> al_lists s L {} \<and> ll_repr (ta_nodes s) (thread_allocators (central s)) TL \<and> set TL = dom (tas s)"

definition keeps_blocks :: "al_state \<Rightarrow> al_state \<Rightarrow> bool" where
  "keeps_blocks s s' \<longleftrightarrow> words s' = words s \<and> block_mem s' = block_mem s \<and> block_nodes s' = block_nodes s \<and>
     memory_blocks (central s') = memory_blocks (central s) \<and> central_free_list (central s') = central_free_list (central s) \<and> brk s' = brk s"

lemma keeps_blocks_trans: "keeps_blocks s s' \<Longrightarrow> keeps_blocks s' s'' \<Longrightarrow> keeps_blocks s s''"
  by (simp add: keeps_blocks_def)

lemma family_restrict: "dlq.family h I q xs \<Longrightarrow> J \<subseteq> I \<Longrightarrow> dlq.family h J q xs"
  unfolding dlq.family_def by blast

lemma destroy_thread_allocator_ok:
  assumes d: "dying s L (a # TL)" and s1: "s1 = s\<lparr>ta_nodes := h, central := (central s)\<lparr>thread_allocators := l\<rparr>\<rparr>"
    and h: "ll_repr h l TL" "a \<notin> set TL"
  shows "\<exists>s'. destroy_thread_allocator s1 a = Some s' \<and> dying s' L TL \<and> keeps_blocks s1 s'"
proof -
  obtain t where t: "tas s a = Some t" using d by (auto simp: dying_def)
  let ?I = "dl_ids s" and ?q = "dl_hdr s"
  have f: "dlq.family (dnodes s) ?I ?q L" and ml: "dom (memlists s) = (\<Union>i\<in>?I. set (L i))"
    using d by (simp_all add: dying_def al_lists_def)
  have hd: "?q (Fr a) = ta_free_list t" "?q (Em a) = ta_empty_list t" "Fr a \<in> ?I" "Em a \<in> ?I" using t by auto
  note dj = dlq.family_disjoint [OF f]
  have r1: "dl_repr (dnodes s1) (ta_free_list t) (L (Fr a))" using dlq.family_repr [OF f hd(3)] by (simp add: s1 t)
  have m1: "set (L (Fr a)) \<subseteq> dom (memlists s1)" using ml hd(3) unfolding s1 by (simp, blast)
  obtain d1 where d1: "release_memlist s1 (ta_free_list t) = Some (s1\<lparr>dnodes := d1, memlists := memlists s1 |` (- set (L (Fr a)))\<rparr>)"
    "\<And>x. x \<notin> set (L (Fr a)) \<union> dl_foot (ta_free_list t) \<Longrightarrow> d1 x = dnodes s x"
    using release_memlist_ok [OF r1 m1] by (auto simp: s1)
  define s2 where "s2 = s1\<lparr>dnodes := d1, memlists := memlists s1 |` (- set (L (Fr a)))\<rparr>"
  have em: "x \<notin> set (L (Fr a)) \<union> dl_foot (ta_free_list t)" if "x \<in> set (L (Em a)) \<union> dl_foot (ta_empty_list t)" for x
    using dj [OF hd(4,3), of x] that hd(1,2) by auto
  have r2: "dl_repr (dnodes s2) (ta_empty_list t) (L (Em a))"
    by (rule dlq.repr_cong [of "dnodes s"]) (use dlq.family_repr [OF f hd(4)] d1(2) em t in \<open>auto simp: s2_def\<close>)
  have m2: "set (L (Em a)) \<subseteq> dom (memlists s2)" 
  proof
    fix x assume x: "x \<in> set (L (Em a))"
    then have "x \<in> dom (memlists s)" "x \<notin> set (L (Fr a))" using ml hd(4) em by blast+
    then show "x \<in> dom (memlists s2)" by (simp add: s2_def s1)
  qed
  obtain d2 where d2: "release_memlist s2 (ta_empty_list t) = Some (s2\<lparr>dnodes := d2, memlists := memlists s2 |` (- set (L (Em a)))\<rparr>)"
    "\<And>x. x \<notin> set (L (Em a)) \<union> dl_foot (ta_empty_list t) \<Longrightarrow> d2 x = dnodes s2 x"
    using release_memlist_ok [OF r2 m2] by blast
  define s' where "s' = s2\<lparr>memlists := memlists s2 |` (- set (L (Em a))), tas := (tas s)(a := None), ta_nodes := h(a := None),
    dnodes := free_sentinels (ta_free_list t) (free_sentinels (ta_empty_list t) d2)\<rparr>"
  have ds: "destroy_thread_allocator s1 a = Some s'"
    using t d1(1) d2(1) by (simp add: destroy_thread_allocator_def s'_def s2_def s1)
  let ?A = "set (L (Fr a)) \<union> dl_foot (ta_free_list t) \<union> set (L (Em a)) \<union> dl_foot (ta_empty_list t)"
  have fr: "dnodes s' x = dnodes s x" if "x \<notin> ?A" for x
    using that d1(2) [of x] d2(2) [of x] by (auto simp: s'_def s2_def free_sentinels_def dl_foot_def)
  have ids: "dl_ids s' = ?I - {Fr a, Em a}" by (auto simp: dl_ids_def s'_def)
  have hds: "dl_hdr s' i = ?q i" if "i \<in> dl_ids s'" for i
    using that by (auto simp: dl_hdr_def s'_def s2_def s1 dl_ids_def split: dlid.splits)
  have out: "x \<notin> ?A" if "i \<in> dl_ids s'" "x \<in> set (L i) \<union> dl_foot (?q i)" for i x
  proof
    assume "x \<in> ?A"
    then consider "x \<in> set (L (Fr a)) \<union> dl_foot (?q (Fr a))" | "x \<in> set (L (Em a)) \<union> dl_foot (?q (Em a))" using hd(1,2) by auto
    then show False using dj [of i "Fr a" x] dj [of i "Em a" x] that ids hd(3,4) by cases auto
  qed
  have "dlq.family (dnodes s') (dl_ids s') (dl_hdr s') L"
    by (rule dlq.family_cong [OF family_restrict [OF f]]) (use ids fr out hds in auto)
  moreover have "dom (memlists s') = (\<Union>i\<in>dl_ids s'. set (L i))"
  proof -
    have "dom (memlists s') = dom (memlists s) - set (L (Fr a)) - set (L (Em a))"
      by (auto simp: s'_def s2_def s1 restrict_map_def split: if_splits)
    also have "\<dots> = (\<Union>i\<in>dl_ids s'. set (L i))"
      using ml hd(3,4) out by (auto simp: ids)
    finally show ?thesis .
  qed
  moreover have "ll_repr (h(a := None)) l TL = ll_repr h l TL" by (rule ll_repr_cong) (use h(2) in auto)
  then have "ll_repr (ta_nodes s') (thread_allocators (central s')) TL" using h(1) by (simp add: s'_def s2_def s1)
  moreover have "set TL = dom (tas s')" using d h(2) by (auto simp: dying_def s'_def)
  ultimately have "dying s' L TL" by (simp add: dying_def al_lists_def)
  then show ?thesis using ds by (auto simp: keeps_blocks_def s'_def s2_def)
qed

lemma destroy_threads_ok:
  "dying s L TL \<Longrightarrow> \<exists>s'. destroy_threads s = Some s' \<and> dying s' L [] \<and> keeps_blocks s s'"
proof (induction TL arbitrary: s)
  case Nil
  then have r: "ll_repr (ta_nodes s) (thread_allocators (central s)) []" by (simp add: dying_def)
  have "destroy_threads s = Some s"
    using link_list_pop_empty [OF r] by (simp add: destroy_threads.simps [of s])
  then show ?case using Nil by (auto simp: keeps_blocks_def)
next
  case (Cons a TL)
  have r: "ll_repr (ta_nodes s) (thread_allocators (central s)) (a # TL)" using Cons.prems by (simp add: dying_def)
  obtain h l where h: "link_list_pop (ta_nodes s) (thread_allocators (central s)) = Some (a, h, l)" "ll_repr h l TL" "ll_free h a"
    by (rule link_list_pop_repr [OF r]) blast
  have a: "a \<notin> set TL" "a \<noteq> NULL" using r by (auto simp: ll_repr_def)
  let ?s1 = "s\<lparr>ta_nodes := h, central := (central s)\<lparr>thread_allocators := l\<rparr>\<rparr>"
  obtain s2 where s2: "destroy_thread_allocator ?s1 a = Some s2" "dying s2 L TL" "keeps_blocks ?s1 s2"
    using destroy_thread_allocator_ok [OF Cons.prems refl h(2) a(1)] by blast
  obtain s' where s': "destroy_threads s2 = Some s'" "dying s' L []" "keeps_blocks s2 s'" using Cons.IH [OF s2(2)] by blast
  have "destroy_threads s = Some s'" using h(1) a(2) s2(1) s'(1) by (simp add: destroy_threads.simps [of s])
  moreover have "keeps_blocks s ?s1" by (simp add: keeps_blocks_def)
  ultimately show ?case using s'(2) keeps_blocks_trans [OF _ keeps_blocks_trans [OF s2(3) s'(3)]] by blast
qed

section \<open>Freeing the blocks\<close>

definition keeps_lists :: "al_state \<Rightarrow> al_state \<Rightarrow> bool" where
  "keeps_lists s s' \<longleftrightarrow> dnodes s' = dnodes s \<and> memlists s' = memlists s \<and> tas s' = tas s \<and>
     central_free_list (central s') = central_free_list (central s)"

lemma free_block_blocks:
  assumes b: "al_blocks s" and m: "block_mem s mb = Some mem"
  shows "\<exists>s'. free_block s mb = Some s' \<and> al_blocks s' \<and> block_mem s' = (block_mem s)(mb := None) \<and>
    block_nodes s' = (block_nodes s)(mb := None) \<and> central s' = central s \<and> keeps_lists s s'"
proof -
  have dw: "dom (words s) = (\<Union>mem \<in> ran (block_mem s). block_range mem)" using b unfolding al_blocks_def by (elim conjE)
  have lt: "dom (words s) \<subseteq> {..<brk s}" using b unfolding al_blocks_def by (elim conjE)
  have db: "dom (block_mem s) \<subseteq> {..<brk s}" using b unfolding al_blocks_def by (elim conjE)
  have dj: "block_range m1 \<inter> block_range m2 = {}"
    if "block_mem s x = Some m1" "block_mem s y = Some m2" "x \<noteq> y" for x y m1 m2
    using b that unfolding al_blocks_def by (elim conjE) (erule allE [of _ x], erule allE [of _ y], simp)
  have "mem \<in> ran (block_mem s)" using m by (rule ranI)
  then have sub: "block_range mem \<subseteq> dom (words s)" unfolding dw by (rule UN_upper)
  define s' where "s' = s\<lparr>words := words s |` (- block_range mem), block_mem := (block_mem s)(mb := None),
    block_nodes := (block_nodes s)(mb := None)\<rparr>"
  have f: "free_block s mb = Some s'" using m sub by (simp add: free_block_def s'_def)
  have "dom (words s') = dom (words s) - block_range mem" by (auto simp: s'_def restrict_map_def split: if_splits)
  also have "\<dots> = (\<Union>x \<in> ran (block_mem s'). block_range x)"
  proof (intro set_eqI iffI)
    fix a assume a: "a \<in> dom (words s) - block_range mem"
    then obtain y m2 where y: "block_mem s y = Some m2" "a \<in> block_range m2" unfolding dw ran_def by blast
    then have "y \<noteq> mb" using a m by auto
    then have "block_mem s' y = Some m2" using y by (simp add: s'_def)
    then show "a \<in> (\<Union>x \<in> ran (block_mem s'). block_range x)" using y(2) by (auto intro: ranI)
  next
    fix a assume "a \<in> (\<Union>x \<in> ran (block_mem s'). block_range x)"
    then obtain y m2 where y: "block_mem s' y = Some m2" "a \<in> block_range m2" by (auto simp: ran_def)
    then have y': "block_mem s y = Some m2" "y \<noteq> mb" by (auto simp: s'_def split: if_splits)
    then have "a \<in> dom (words s)" unfolding dw using y(2) by (auto intro: ranI)
    then show "a \<in> dom (words s) - block_range mem" using dj [OF y'(1) m y'(2)] y(2) by blast
  qed
  finally have dw': "dom (words s') = (\<Union>x \<in> ran (block_mem s'). block_range x)" .
  have "dom (words s') \<subseteq> dom (words s)" by (auto simp: s'_def restrict_map_def split: if_splits)
  then have "dom (words s') \<subseteq> {..<brk s'}" using lt by (metis s'_def subset_trans al_state.select_convs(8) al_state.surjective al_state.update_convs(1,6,7))
  moreover have "dom (block_mem s') \<subseteq> {..<brk s'}" using db by (auto simp: s'_def)
  moreover have "\<forall>x y m1 m2. block_mem s' x = Some m1 \<longrightarrow> block_mem s' y = Some m2 \<longrightarrow> x \<noteq> y \<longrightarrow> block_range m1 \<inter> block_range m2 = {}"
    using dj by (simp add: s'_def)
  ultimately have "al_blocks s'" using dw' unfolding al_blocks_def by (intro conjI)
  then show ?thesis using f by (auto simp: s'_def keeps_lists_def)
qed

lemma destroy_blocks_ok:
  assumes "al_blocks s" and "ll_repr (block_nodes s) (memory_blocks (central s)) BL" and "dom (block_mem s) = set BL"
  shows "\<exists>s'. destroy_blocks s = Some s' \<and> block_mem s' = Map.empty \<and> words s' = Map.empty \<and> keeps_lists s s'"
  using assms
proof (induction BL arbitrary: s)
  case Nil
  have "destroy_blocks s = Some s" using link_list_pop_empty [OF Nil.prems(2)] by (simp add: destroy_blocks.simps [of s])
  moreover have e: "block_mem s = Map.empty" using Nil.prems(3) by simp
  moreover have "dom (words s) = {}" using Nil.prems(1) e unfolding al_blocks_def by (elim conjE) simp
  ultimately show ?case by (simp add: keeps_lists_def)
next
  case (Cons mb BL)
  obtain h l where h: "link_list_pop (block_nodes s) (memory_blocks (central s)) = Some (mb, h, l)" "ll_repr h l BL"
    by (rule link_list_pop_repr [OF Cons.prems(2)]) blast
  have n: "mb \<notin> set BL" "mb \<noteq> NULL" using Cons.prems(2) by (auto simp: ll_repr_def)
  let ?s1 = "s\<lparr>block_nodes := h, central := (central s)\<lparr>memory_blocks := l\<rparr>\<rparr>"
  obtain mem where m: "block_mem ?s1 mb = Some mem" using Cons.prems(3) by auto
  have "al_keeps s ?s1" by (simp add: al_keeps_def)
  then have "al_blocks ?s1" by (rule al_blocks_keeps [OF Cons.prems(1)])
  then obtain s2 where s2: "free_block ?s1 mb = Some s2" "al_blocks s2" "block_mem s2 = (block_mem ?s1)(mb := None)"
    "block_nodes s2 = (block_nodes ?s1)(mb := None)" "central s2 = central ?s1" "keeps_lists ?s1 s2"
    using free_block_blocks m by blast
  have "ll_repr (h(mb := None)) l BL = ll_repr h l BL" by (rule ll_repr_cong) (use n in auto)
  then have "ll_repr (block_nodes s2) (memory_blocks (central s2)) BL" using h(2) by (simp add: s2(4,5))
  moreover have "dom (block_mem s2) = set BL" using Cons.prems(3) n(1) by (simp add: s2(3))
  ultimately obtain s' where s': "destroy_blocks s2 = Some s'" "block_mem s' = Map.empty" "words s' = Map.empty" "keeps_lists s2 s'"
    using Cons.IH [OF s2(2)] by blast
  have "destroy_blocks s = Some s'" using h(1) n(2) s2(1) s'(1) by (simp add: destroy_blocks.simps [of s])
  then show ?case using s' s2(6) by (simp add: keeps_lists_def)
qed

section \<open>Properties\<close>

text \<open>C34: whatever a client has done with the allocator, destroying it returns, and frees every mem_list, every
  allocator of a thread and every block with its memory exactly once: nothing is left and nothing is freed
  that is not allocated.\<close>

theorem allocator_destroy_frees_all:
  assumes "al_client s held n" and "n < 2 ^ 31"
  shows "\<exists>s'. destroy_block_obj_al s = Some s' \<and> memlists s' = Map.empty \<and> tas s' = Map.empty \<and>
    block_mem s' = Map.empty \<and> words s' = Map.empty"
proof -
  have "al_good s held n" by (rule al_client_good [OF assms])
  then obtain L Q TL BL where i: "al_inv s L Q NULL (dom held) TL BL" by (auto simp: al_good_def)
  note p = al_inv_parts [OF i]
  have "dying s L TL" using p(1,5) by (simp add: dying_def al_dirs_def)
  then obtain s1 where s1: "destroy_threads s = Some s1" "dying s1 L []" "keeps_blocks s s1" using destroy_threads_ok by blast
  have "ll_repr (block_nodes s1) (memory_blocks (central s1)) BL" "dom (block_mem s1) = set BL"
    using p(5) s1(3) by (simp_all add: al_dirs_def keeps_blocks_def)
  moreover have "al_keeps s s1" using s1(3) by (simp add: keeps_blocks_def al_keeps_def)
  then have "al_blocks s1" by (rule al_blocks_keeps [OF al_client_blocks [OF assms]])
  ultimately obtain s2 where s2: "destroy_blocks s1 = Some s2" "block_mem s2 = Map.empty" "words s2 = Map.empty" "keeps_lists s1 s2"
    using destroy_blocks_ok by blast
  have "dom (tas s1) = {}" using s1(2) by (simp add: dying_def)
  then have t: "tas s1 = Map.empty" by (simp only: dom_eq_empty_conv)
  then have ids: "dl_ids s1 = {Cen}" by (simp add: dl_ids_def)
  have "dl_repr (dnodes s1) (central_free_list (central s1)) (L Cen)" "dom (memlists s1) = set (L Cen)"
    using s1(2) dlq.family_repr [of "dnodes s1" "{Cen}" "dl_hdr s1" L Cen] by (simp_all add: dying_def al_lists_def ids)
  then have r: "dl_repr (dnodes s2) (central_free_list (central s2)) (L Cen)" "dom (memlists s2) = set (L Cen)"
    using s2(4) by (simp_all add: keeps_lists_def)
  then obtain d where "release_memlist s2 (central_free_list (central s2)) =
      Some (s2\<lparr>dnodes := d, memlists := memlists s2 |` (- set (L Cen))\<rparr>)"
    using release_memlist_ok [OF r(1)] by blast
  moreover have "memlists s2 |` (- set (L Cen)) = Map.empty"
    unfolding r(2) [symmetric] by (auto simp: restrict_map_def fun_eq_iff domIff)
  ultimately show ?thesis using s1(1) s2 t by (simp add: destroy_block_obj_al_def keeps_lists_def)
qed

lemma allocator_destroy_frees_all_witness:
  "\<exists>s p1 s1 s2. create_block_obj_allocator True 100 16 = Some s \<and> block_obj_al_alloc s 1 = Some (p1, s1) \<and> 0 < p1 \<and>
     destroy_block_obj_al s1 = Some s2 \<and> block_mem s2 = Map.empty"
proof -
  obtain s where s: "create_block_obj_allocator True 100 16 = Some s"
    by (rule create_block_obj_allocator_ex [of 16 100 True]) simp_all
  have c0: "al_client s Map.empty 0" by (rule client_start [OF s]) (simp_all add: DEFAULT_BLOCK_SIZE_def)
  have g: "al_good s Map.empty 0" by (rule al_client_good [OF c0]) simp
  obtain p1 s1 where 1: "block_obj_al_alloc s 1 = Some (p1, s1)" "p1 \<noteq> NULL"
    by (rule al_good_alloc [OF g, of 1]) simp_all
  have c1: "al_client s1 [p1 \<mapsto> NULL] 1" using client_alloc [OF c0 1(1)] by simp
  then obtain s2 where "destroy_block_obj_al s1 = Some s2" "block_mem s2 = Map.empty"
    using allocator_destroy_frees_all [OF c1] by auto
  then show ?thesis using s 1 by auto
qed

end
