(* ===== verification/Thread_Ctl.thy ===== *)
theory Thread_Ctl
  imports Sync
begin

text \<open>
  src/epoll_mutilthread/src/thread.c: a thread suspends itself until another resumes it or, when it
  gives a time, until a deadline passes.  The calls are a step relation over their accesses to the
  thread structure, for any number of threads that resume.
\<close>

section \<open>State\<close>

record thread =
  threadid :: nat
  is_suspend :: int
  joinable :: int
  thr_mtx :: mutex
  thr_cond :: condition

text \<open>The structure comes from malloc: its threadid holds any value i until start_run sets it.\<close>

definition create_thread :: "nat \<Rightarrow> int \<Rightarrow> thread" where
  "create_thread i j =
     \<lparr>threadid = i, is_suspend = 0, joinable = j, thr_mtx = mutex_create, thr_cond = condition_create\<rparr>"

text \<open>The new thread's id, from pthread_create, is stored; the second result is whether the thread is
  made joinable.\<close>

definition start_run :: "thread option \<Rightarrow> nat \<Rightarrow> (thread \<times> bool) option" where
  "start_run t new = (case t of
     None \<Rightarrow> None
   | Some t \<Rightarrow> Some (t\<lparr>threadid := new\<rparr>, joinable t \<noteq> 0))"

text \<open>The result of a thread, r from pthread_join.\<close>

definition join :: "thread \<Rightarrow> nat \<Rightarrow> nat" where
  "join t r = (if joinable t \<noteq> 0 then r else 0)"

datatype thr_pc =
  Thr_outside
| Su_lock int | Su_set int | Su_loop | Su_waiting | Su_timed int | Su_timed_waiting "int \<times> int" | Su_clear | Su_unlock bool
| Re_lock | Re_test | Re_clear | Re_signal | Re_unlock

text \<open>As ghosts, how many untimed calls of thread_suspend have returned, and how many calls of
  thread_resume have found the thread suspended.\<close>

record thr_state =
  thr :: thread
  thr_at :: "nat \<Rightarrow> thr_pc"
  thr_returned :: nat
  thr_resumed :: nat

definition thr_init :: "thread \<Rightarrow> thr_state" where
  "thr_init t = \<lparr>thr = t, thr_at = \<lambda>_. Thr_outside, thr_returned = 0, thr_resumed = 0\<rparr>"

definition thr_goto :: "thr_state \<Rightarrow> nat \<Rightarrow> thread \<Rightarrow> thr_pc \<Rightarrow> thr_state" where
  "thr_goto s t x p = s\<lparr>thr := x, thr_at := (thr_at s)(t := p)\<rparr>"

section \<open>Suspending\<close>

definition thread_suspend_call :: "thr_state \<Rightarrow> nat \<Rightarrow> int \<Rightarrow> thr_state" where
  "thread_suspend_call s self ms = (if self \<noteq> threadid (thr s) then s else thr_goto s self (thr s) (Su_lock ms))"

text \<open>The next access of thread t in the call, at the time of day now.\<close>

definition thread_suspend :: "thr_state \<Rightarrow> nat \<Rightarrow> int \<times> int \<Rightarrow> thr_state option" where
  "thread_suspend s t now = (let x = thr s in
     case thr_at s t of
       Su_lock ms \<Rightarrow> map_option (\<lambda>m. thr_goto s t (x\<lparr>thr_mtx := m\<rparr>) (Su_set ms)) (mutex_lock (thr_mtx x) t)
     | Su_set ms \<Rightarrow> Some (thr_goto s t (x\<lparr>is_suspend := 1\<rparr>) (if 0 \<ge> ms then Su_loop else Su_timed ms))
     | Su_loop \<Rightarrow>
         (if is_suspend x \<noteq> 0
          then let (c, m) = condition_wait (thr_cond x) (thr_mtx x) t
               in Some (thr_goto s t (x\<lparr>thr_cond := c, thr_mtx := m\<rparr>) Su_waiting)
          else Some (thr_goto s t x (Su_unlock True)))
     | Su_waiting \<Rightarrow>
         map_option (\<lambda>m. thr_goto s t (x\<lparr>thr_mtx := m\<rparr>) Su_loop) (condition_return (thr_cond x) (thr_mtx x) t)
     | Su_timed ms \<Rightarrow>
         (let (ts, c, m) = condition_timedwait now (thr_cond x) (thr_mtx x) ms t
          in Some (thr_goto s t (x\<lparr>thr_cond := c, thr_mtx := m\<rparr>) (Su_timed_waiting ts)))
     | Su_timed_waiting ts \<Rightarrow>
         map_option (\<lambda>m. thr_goto s t (x\<lparr>thr_mtx := m\<rparr>) Su_clear) (condition_return (thr_cond x) (thr_mtx x) t)
     | Su_clear \<Rightarrow> Some (thr_goto s t (x\<lparr>is_suspend := 0\<rparr>) (Su_unlock False))
     | Su_unlock untimed \<Rightarrow>
         Some ((thr_goto s t (x\<lparr>thr_mtx := snd (mutex_unlock (thr_mtx x) t)\<rparr>) Thr_outside)
                 \<lparr>thr_returned := thr_returned s + of_bool untimed\<rparr>)
     | _ \<Rightarrow> None)"

section \<open>Resuming\<close>

definition thread_resume_call :: "thr_state \<Rightarrow> nat \<Rightarrow> thr_state" where
  "thread_resume_call s self = (if self = threadid (thr s) then s else thr_goto s self (thr s) Re_lock)"

text \<open>The next access of thread t in the call; a signal wakes the waiter w.\<close>

definition thread_resume :: "thr_state \<Rightarrow> nat \<Rightarrow> nat \<Rightarrow> thr_state option" where
  "thread_resume s t w = (let x = thr s in
     case thr_at s t of
       Re_lock \<Rightarrow> map_option (\<lambda>m. thr_goto s t (x\<lparr>thr_mtx := m\<rparr>) Re_test) (mutex_lock (thr_mtx x) t)
     | Re_test \<Rightarrow> Some (thr_goto s t x (if is_suspend x \<noteq> 0 then Re_clear else Re_unlock))
     | Re_clear \<Rightarrow> Some ((thr_goto s t (x\<lparr>is_suspend := 0\<rparr>) Re_signal)\<lparr>thr_resumed := thr_resumed s + 1\<rparr>)
     | Re_signal \<Rightarrow> map_option (\<lambda>c. thr_goto s t (x\<lparr>thr_cond := c\<rparr>) Re_unlock) (condition_signal (thr_cond x) w)
     | Re_unlock \<Rightarrow> Some (thr_goto s t (x\<lparr>thr_mtx := snd (mutex_unlock (thr_mtx x) t)\<rparr>) Thr_outside)
     | _ \<Rightarrow> None)"

text \<open>A waiter wakes up without a signal: because its deadline has passed, or for no reason.\<close>

inductive thr_step :: "thr_state \<Rightarrow> thr_state \<Rightarrow> bool" where
  thr_suspend_call: "t \<noteq> 0 \<Longrightarrow> thr_at s t = Thr_outside \<Longrightarrow> thr_step s (thread_suspend_call s t ms)"
| thr_resume_call: "t \<noteq> 0 \<Longrightarrow> thr_at s t = Thr_outside \<Longrightarrow> thr_step s (thread_resume_call s t)"
| thr_suspend: "thread_suspend s t now = Some s' \<Longrightarrow> thr_step s s'"
| thr_resume: "thread_resume s t w = Some s' \<Longrightarrow> thr_step s s'"
| thr_wake: "t \<in> waiting (thr_cond (thr s)) \<Longrightarrow>
    thr_step s (s\<lparr>thr := (thr s)\<lparr>thr_cond := condition_wake (thr_cond (thr s)) t\<rparr>\<rparr>)"

inductive_cases thr_stepE: "thr_step s s'"

section \<open>Invariant\<close>

fun thr_holding :: "thr_pc \<Rightarrow> bool" where
  "thr_holding Thr_outside = False"
| "thr_holding (Su_lock ms) = False"
| "thr_holding Su_waiting = False"
| "thr_holding (Su_timed_waiting ts) = False"
| "thr_holding Re_lock = False"
| "thr_holding p = True"

fun suspending :: "thr_pc \<Rightarrow> bool" where
  "suspending Thr_outside = False"
| "suspending Re_lock = False"
| "suspending Re_test = False"
| "suspending Re_clear = False"
| "suspending Re_signal = False"
| "suspending Re_unlock = False"
| "suspending p = True"

text \<open>Where each thread is: only the thread itself is in thread_suspend, and only it waits.\<close>

definition thr_places :: "thr_state \<Rightarrow> bool" where
  "thr_places s \<longleftrightarrow> thr_at s 0 = Thr_outside \<and> lock_excl thr_holding (thr_at s) (thr_mtx (thr s)) \<and>
     (\<forall>t. thr_at s t \<noteq> Thr_outside \<longrightarrow> (suspending (thr_at s t) \<longleftrightarrow> t = threadid (thr s))) \<and>
     (\<forall>t\<in>waiting (thr_cond (thr s)). thr_at s t = Su_waiting \<or> (\<exists>ts. thr_at s t = Su_timed_waiting ts))"

text \<open>A resumed thread that waits is about to be signalled; the untimed calls that have returned, or that
  are past their loop or bound to leave it, are no more than the resumes that found the thread
  suspended.\<close>

definition thr_counts :: "thr_state \<Rightarrow> bool" where
  "thr_counts s \<longleftrightarrow> (let me = thr_at s (threadid (thr s)); f = is_suspend (thr s) in
     (\<forall>t. thr_at s t = Re_clear \<longrightarrow> f \<noteq> 0) \<and>
     (\<forall>ms. me = Su_timed ms \<longrightarrow> f \<noteq> 0) \<and>
     (f = 0 \<and> waiting (thr_cond (thr s)) \<noteq> {} \<longrightarrow> (\<exists>t. thr_at s t = Re_signal)) \<and>
     thr_returned s + (if me = Su_unlock True \<or> (me = Su_loop \<or> me = Su_waiting) \<and> f = 0 then 1 else 0) \<le> thr_resumed s)"

lemma thr_goto_simps [simp]:
  "thr (thr_goto s t x p) = x" "thr_at (thr_goto s t x p) = (thr_at s)(t := p)"
  "thr_returned (thr_goto s t x p) = thr_returned s" "thr_resumed (thr_goto s t x p) = thr_resumed s"
  by (simp_all add: thr_goto_def)

lemmas thr_acts = thread_suspend_def thread_resume_def thread_suspend_call_def thread_resume_call_def Let_def
  condition_wait_def condition_timedwait_def

lemma thr_places_inside:
  assumes p: "thr_places s" and t: "thr_at s t \<noteq> Thr_outside"
  shows "t \<noteq> 0" and "suspending (thr_at s t) \<longleftrightarrow> t = threadid (thr s)"
    and "lock_excl thr_holding (thr_at s) (thr_mtx (thr s))"
  using p t unfolding thr_places_def by metis+

lemma thr_places_ghost [simp]:
  "thr_places (s\<lparr>thr_returned := n\<rparr>) = thr_places s" "thr_places (s\<lparr>thr_resumed := n\<rparr>) = thr_places s"
  by (simp_all add: thr_places_def)

lemma thr_places_goto:
  assumes p: "thr_places s" and t: "t \<noteq> 0" and l: "lock_excl thr_holding ((thr_at s)(t := q)) (thr_mtx x)"
    and me: "threadid x = threadid (thr s)" "q = Thr_outside \<or> (suspending q \<longleftrightarrow> t = threadid (thr s))"
    and w: "waiting (thr_cond x) \<subseteq> insert t (waiting (thr_cond (thr s)))"
      "t \<in> waiting (thr_cond x) \<Longrightarrow> q = Su_waiting \<or> (\<exists>ts. q = Su_timed_waiting ts)"
  shows "thr_places (thr_goto s t x q)"
  using assms unfolding thr_places_def by (auto simp: subset_iff)

lemma thr_places_asleep:
  "thr_places s \<Longrightarrow> t \<in> waiting (thr_cond (thr s)) \<Longrightarrow> thr_at s t = Su_waiting \<or> (\<exists>ts. thr_at s t = Su_timed_waiting ts)"
  unfolding thr_places_def by blast

lemma thr_places_suspend:
  assumes p: "thr_places s" and s': "thread_suspend s t now = Some s'"
  shows "thr_places s'"
proof -
  have i: "thr_at s t \<noteq> Thr_outside" using s' by (auto simp: thr_acts)
  note q = thr_places_inside [OF p i]
  have me: "t = threadid (thr s)" using s' q(2) by (cases "thr_at s t") (auto simp: thr_acts)
  note take = lock_excl_take [OF q(3) _ _ q(1)] and give = lock_excl_give [OF q(3)] and keep = lock_excl_keep [OF q(3)]
  note go = thr_places_goto [OF p q(1)] and asleep = thr_places_asleep [OF p, of t]
  show ?thesis
  proof (cases "thr_at s t")
    case (Su_lock ms)
    then show ?thesis using s' asleep by (auto simp: thr_acts eqTrueI [OF me] intro!: go take)
  next
    case (Su_set ms)
    then show ?thesis using s' asleep by (auto simp: thr_acts eqTrueI [OF me] intro!: go keep)
  next
    case Su_loop
    then show ?thesis using s' asleep by (auto simp: thr_acts eqTrueI [OF me] intro!: go give keep split: if_splits)
  next
    case Su_waiting
    then show ?thesis using s' by (auto simp: thr_acts eqTrueI [OF me] condition_return_def intro!: go take split: if_splits)
  next
    case (Su_timed ms)
    then show ?thesis using s' asleep by (auto simp: thr_acts eqTrueI [OF me] intro!: go give)
  next
    case (Su_timed_waiting ts)
    then show ?thesis using s' by (auto simp: thr_acts eqTrueI [OF me] condition_return_def intro!: go take split: if_splits)
  next
    case Su_clear
    then show ?thesis using s' asleep by (auto simp: thr_acts eqTrueI [OF me] intro!: go keep)
  next
    case (Su_unlock b)
    then show ?thesis using s' asleep by (auto simp: thr_acts eqTrueI [OF me] intro!: go give)
  qed (use s' in \<open>simp_all add: thr_acts\<close>)
qed

lemma thr_places_resume:
  assumes p: "thr_places s" and s': "thread_resume s t w = Some s'"
  shows "thr_places s'"
proof -
  have i: "thr_at s t \<noteq> Thr_outside" using s' by (auto simp: thr_acts)
  note q = thr_places_inside [OF p i]
  have me: "t \<noteq> threadid (thr s)" using s' q(2) by (cases "thr_at s t") (auto simp: thr_acts)
  note take = lock_excl_take [OF q(3) _ _ q(1)] and give = lock_excl_give [OF q(3)] and keep = lock_excl_keep [OF q(3)]
  note go = thr_places_goto [OF p q(1)] and asleep = thr_places_asleep [OF p, of t]
  show ?thesis
  proof (cases "thr_at s t")
    case Re_lock
    then show ?thesis using s' asleep me by (auto simp: thr_acts intro!: go take)
  next
    case Re_test
    then show ?thesis using s' asleep me by (auto simp: thr_acts intro!: go keep split: if_splits)
  next
    case Re_clear
    then show ?thesis using s' asleep me by (auto simp: thr_acts intro!: go keep)
  next
    case Re_signal
    then show ?thesis using s' asleep me
      by (auto simp: thr_acts condition_signal_def condition_wake_def intro!: go keep split: if_splits)
  next
    case Re_unlock
    then show ?thesis using s' asleep me by (auto simp: thr_acts intro!: go give)
  qed (use s' in \<open>simp_all add: thr_acts\<close>)
qed

lemma thr_places_step:
  assumes p: "thr_places s" and s': "thr_step s s'"
  shows "thr_places s'"
  using s'
proof cases
  case (thr_suspend_call t ms)
  have "lock_excl thr_holding ((thr_at s)(t := Su_lock ms)) (thr_mtx (thr s))"
    by (rule lock_excl_keep) (use p thr_suspend_call in \<open>simp_all add: thr_places_def\<close>)
  then show ?thesis
    using thr_suspend_call p thr_places_asleep [OF p, of t] by (auto simp: thr_acts intro!: thr_places_goto)
next
  case (thr_resume_call t)
  have "lock_excl thr_holding ((thr_at s)(t := Re_lock)) (thr_mtx (thr s))"
    by (rule lock_excl_keep) (use p thr_resume_call in \<open>simp_all add: thr_places_def\<close>)
  then show ?thesis
    using thr_resume_call p thr_places_asleep [OF p, of t] by (auto simp: thr_acts intro!: thr_places_goto)
next
  case (thr_wake t)
  then show ?thesis using p by (auto simp: thr_places_def condition_wake_def)
qed (use p thr_places_suspend thr_places_resume in blast)+

lemma thr_waiting_me: "thr_places s \<Longrightarrow> waiting (thr_cond (thr s)) \<subseteq> {threadid (thr s)}"
proof
  fix u assume p: "thr_places s" and u: "u \<in> waiting (thr_cond (thr s))"
  have "thr_at s u \<noteq> Thr_outside \<and> suspending (thr_at s u)" using thr_places_asleep [OF p u] by auto
  then show "u \<in> {threadid (thr s)}" using thr_places_inside(2) [OF p, of u] by simp
qed

lemma thr_counts_parts:
  assumes "thr_counts s"
  shows "thr_at s t = Re_clear \<Longrightarrow> is_suspend (thr s) \<noteq> 0" and "thr_at s (threadid (thr s)) = Su_timed ms \<Longrightarrow> is_suspend (thr s) \<noteq> 0"
    and "is_suspend (thr s) = 0 \<Longrightarrow> waiting (thr_cond (thr s)) \<noteq> {} \<Longrightarrow> \<exists>u. thr_at s u = Re_signal"
    and "thr_returned s + (if thr_at s (threadid (thr s)) = Su_unlock True \<or>
      (thr_at s (threadid (thr s)) = Su_loop \<or> thr_at s (threadid (thr s)) = Su_waiting) \<and> is_suspend (thr s) = 0 then 1 else 0)
      \<le> thr_resumed s"
  using assms by (auto simp: thr_counts_def Let_def)

text \<open>A step of thread t in thread_suspend or thread_resume, when the flag and the waiters change.\<close>

lemma thr_counts_set:
  assumes "thr_at s' = (thr_at s)(t := q)" and "\<And>u. u \<noteq> t \<Longrightarrow> thr_at s u = Re_clear \<Longrightarrow> is_suspend (thr s') \<noteq> 0"
    and "q = Re_clear \<Longrightarrow> is_suspend (thr s') \<noteq> 0"
    and "\<And>ms. thr_at s' (threadid (thr s')) = Su_timed ms \<Longrightarrow> is_suspend (thr s') \<noteq> 0"
    and "is_suspend (thr s') = 0 \<Longrightarrow> waiting (thr_cond (thr s')) \<noteq> {} \<Longrightarrow> \<exists>u. thr_at s' u = Re_signal"
    and "thr_returned s' + (if thr_at s' (threadid (thr s')) = Su_unlock True \<or>
      (thr_at s' (threadid (thr s')) = Su_loop \<or> thr_at s' (threadid (thr s')) = Su_waiting) \<and> is_suspend (thr s') = 0 then 1 else 0)
      \<le> thr_resumed s'"
  shows "thr_counts s'"
  unfolding thr_counts_def Let_def using assms by (intro conjI allI impI) (auto split: if_splits)

lemma thr_counts_suspend:
  assumes p: "thr_places s" and c: "thr_counts s" and s': "thread_suspend s t now = Some s'"
  shows "thr_counts s'"
proof -
  have i: "thr_at s t \<noteq> Thr_outside" using s' by (auto simp: thr_acts)
  note q = thr_places_inside [OF p i]
  have me: "threadid (thr s) = t" using s' q(2) by (cases "thr_at s t") (auto simp: thr_acts)
  have nw: "waiting (thr_cond (thr s)) = {}" if "thr_at s t \<noteq> Su_waiting" "\<forall>ts. thr_at s t \<noteq> Su_timed_waiting ts"
    using thr_waiting_me [OF p] thr_places_asleep [OF p, of t] that me by (auto simp: subset_singleton_iff)
  have ww: "waiting (thr_cond (thr s)) \<subseteq> {t}" using thr_waiting_me [OF p] me by simp
  have rc: "thr_at s u \<noteq> Re_clear" if "thr_holding (thr_at s t)" "u \<noteq> t" for u
    using lock_excl_unique [OF q(3), of t u] that by auto
  note c' = thr_counts_parts [OF c, unfolded me]
  show ?thesis
  proof (cases "thr_at s t")
    case (Su_lock ms)
    then show ?thesis using s' nw c'(1,4) by (auto simp: thr_acts me intro!: thr_counts_set)
  next
    case (Su_set ms)
    then show ?thesis using s' nw c'(4) by (auto simp: thr_acts me intro!: thr_counts_set)
  next
    case Su_loop
    then show ?thesis using s' nw rc c'(1,4) by (auto simp: thr_acts me intro!: thr_counts_set split: if_splits)
  next
    case Su_waiting
    then show ?thesis using s' ww c'(1,4)
      by (auto simp: thr_acts me condition_return_def intro!: thr_counts_set split: if_splits)
  next
    case (Su_timed ms)
    then show ?thesis using s' nw c' by (auto simp: thr_acts me intro!: thr_counts_set)
  next
    case (Su_timed_waiting ts)
    then show ?thesis using s' ww c'(1,4)
      by (auto simp: thr_acts me condition_return_def intro!: thr_counts_set split: if_splits)
  next
    case Su_clear
    then show ?thesis using s' nw rc c'(4) by (auto simp: thr_acts me intro!: thr_counts_set)
  next
    case (Su_unlock b)
    then show ?thesis using s' nw c'(1,4) by (cases b) (auto simp: thr_acts me intro!: thr_counts_set)
  qed (use s' in \<open>simp_all add: thr_acts\<close>)
qed

lemma thr_counts_keep:
  assumes "thr_counts s" and "threadid (thr s) \<noteq> t" and "thr_at s t \<noteq> Re_signal" and "q = Re_clear \<Longrightarrow> is_suspend (thr s) \<noteq> 0"
    and "threadid x = threadid (thr s)" "is_suspend x = is_suspend (thr s)" "thr_cond x = thr_cond (thr s)"
  shows "thr_counts (thr_goto s t x q)"
proof (rule thr_counts_set)
  show "\<exists>u. thr_at (thr_goto s t x q) u = Re_signal"
    if "is_suspend (thr (thr_goto s t x q)) = 0" "waiting (thr_cond (thr (thr_goto s t x q))) \<noteq> {}"
    using thr_counts_parts(3) [OF assms(1)] that assms(3,6,7) by auto
qed (use thr_counts_parts [OF assms(1)] assms(2,4-6) in \<open>auto simp del: not_gr_zero\<close>)

lemma thr_counts_resume:
  assumes p: "thr_places s" and c: "thr_counts s" and s': "thread_resume s t w = Some s'"
  shows "thr_counts s'"
proof -
  have i: "thr_at s t \<noteq> Thr_outside" using s' by (auto simp: thr_acts)
  note q = thr_places_inside [OF p i]
  have me: "threadid (thr s) \<noteq> t" using s' q(2) by (cases "thr_at s t") (auto simp: thr_acts)
  have ww: "waiting (thr_cond (thr s)) \<subseteq> {threadid (thr s)}" by (rule thr_waiting_me [OF p])
  have h: "\<not> thr_holding (thr_at s u)" if "thr_holding (thr_at s t)" "u \<noteq> t" for u
    using lock_excl_unique [OF q(3), of t u] that by auto
  have rc: "thr_at s u \<noteq> Re_clear" "thr_at s u \<noteq> Su_timed ms" if "thr_holding (thr_at s t)" "u \<noteq> t" for u ms using h [OF that] by auto
  note c' = thr_counts_parts [OF c]
  show ?thesis
  proof (cases "thr_at s t")
    case Re_lock
    then show ?thesis using s' me c by (auto simp: thr_acts intro!: thr_counts_keep split: if_splits)
  next
    case Re_test
    then show ?thesis using s' me c by (auto simp: thr_acts intro!: thr_counts_keep split: if_splits)
  next
    case Re_clear
    then show ?thesis using s' me rc c'(4) by (auto simp: thr_acts intro!: thr_counts_set split: if_splits)
  next
    case Re_signal
    have "waiting (thr_cond (thr s)) = {} \<or> waiting (thr_cond (thr s)) = {w} \<or> w \<notin> waiting (thr_cond (thr s))" using ww by blast
    with Re_signal have "waiting (thr_cond (thr s')) = {} \<and> thr s' = (thr s)\<lparr>thr_cond := thr_cond (thr s')\<rparr>"
      using s' ww by (auto simp: thr_acts condition_signal_def condition_wake_def split: if_splits)
    then show ?thesis using s' me c' Re_signal by (auto simp: thr_acts intro!: thr_counts_set)
  next
    case Re_unlock
    then show ?thesis using s' me c by (auto simp: thr_acts intro!: thr_counts_keep split: if_splits)
  qed (use s' in \<open>simp_all add: thr_acts\<close>)
qed

lemma thr_counts_step:
  assumes p: "thr_places s" and c: "thr_counts s" and s': "thr_step s s'"
  shows "thr_counts s'"
  using s'
proof cases
  case (thr_suspend_call t ms)
  have "waiting (thr_cond (thr s)) = {}" if "threadid (thr s) = t"
    using thr_waiting_me [OF p] thr_places_asleep [OF p, of t] thr_suspend_call(3) that by (auto simp: subset_singleton_iff)
  then show ?thesis using thr_suspend_call c thr_counts_parts [OF c] by (auto simp: thr_acts intro!: thr_counts_set)
next
  case (thr_resume_call t)
  then show ?thesis using c by (auto simp: thr_acts intro!: thr_counts_keep)
next
  case (thr_wake t)
  then show ?thesis using c by (auto simp: thr_counts_def condition_wake_def Let_def)
qed (use p c thr_counts_suspend thr_counts_resume in blast)+

definition thr_inv :: "thr_state \<Rightarrow> bool" where
  "thr_inv s \<longleftrightarrow> thr_places s \<and> thr_counts s"

text \<open>A thread structure whose thread is me.\<close>

definition thr_started :: "nat \<Rightarrow> int \<Rightarrow> nat \<Rightarrow> thr_state" where
  "thr_started i j me = thr_init (fst (the (start_run (Some (create_thread i j)) me)))"

lemma thr_inv_init: "thr_inv (thr_started i j me)"
  by (simp add: thr_inv_def thr_places_def thr_counts_def thr_started_def start_run_def thr_init_def create_thread_def
      lock_excl_create condition_create_def)

interpretation thr: invariant_system "thr_started i j me" thr_step thr_inv for i j me
  by unfold_locales (use thr_inv_init thr_places_step thr_counts_step in \<open>auto simp: thr_inv_def\<close>)

section \<open>Properties\<close>

text \<open>C35: however the calls interleave, and whoever wakes up by itself: an untimed thread_suspend returns only
  for a call of thread_resume of its own that found the thread suspended; and no resume is lost: when
  the flag is down and the thread still waits, a signal is on its way.\<close>

theorem thread_suspend_until_resumed:
  assumes "reach (thr_started i j me) thr_step s"
  shows "thr_returned s \<le> thr_resumed s \<and>
    (is_suspend (thr s) = 0 \<and> waiting (thr_cond (thr s)) \<noteq> {} \<longrightarrow> (\<exists>t. thr_at s t = Re_signal))"
proof -
  have "thr_counts s" using thr.reach_inv [OF assms] by (simp add: thr_inv_def)
  from thr_counts_parts(3,4) [OF this] show ?thesis by (auto split: if_splits)
qed

text \<open>A schedule: the threads that take the next access, thread me in untimed calls of thread_suspend and
  the others in calls of thread_resume.\<close>

definition thr_act :: "thr_state \<Rightarrow> nat \<Rightarrow> thr_state option" where
  "thr_act s t =
     (if thr_at s t = Thr_outside
      then Some (if t = threadid (thr s) then thread_suspend_call s t 0 else thread_resume_call s t)
      else case thread_suspend s t (0, 0) of Some s' \<Rightarrow> Some s' | None \<Rightarrow> thread_resume s t (threadid (thr s)))"

primrec thr_sched :: "thr_state \<Rightarrow> nat list \<Rightarrow> thr_state option" where
  "thr_sched s [] = Some s"
| "thr_sched s (t # ts) = do { s \<leftarrow> thr_act s t; thr_sched s ts }"

lemma thr_act_step: "thr_act s t = Some s' \<Longrightarrow> t \<noteq> 0 \<Longrightarrow> thr_step s s'"
  by (auto simp: thr_act_def split: if_splits option.splits intro: thr_step.intros)

lemma thr_sched_reach: "thr_sched s ts = Some s' \<Longrightarrow> 0 \<notin> set ts \<Longrightarrow> reach i thr_step s \<Longrightarrow> reach i thr_step s'"
  by (induction ts arbitrary: s) (auto split: Option.bind_splits dest: thr_act_step intro: reach_step)

lemma thread_suspend_until_resumed_witness:
  "\<exists>s. thr_sched (thr_started 0 0 1) [1, 1, 1, 1, 2, 2, 2, 2, 2, 2, 1, 1, 1] = Some s \<and>
     thr_returned s = 1 \<and> 1 \<le> thr_resumed s"
proof -
  have "map_option thr_returned (thr_sched (thr_started 0 0 1) [1, 1, 1, 1, 2, 2, 2, 2, 2, 2, 1, 1, 1]) = Some 1"
    by (simp add: thr_act_def thr_acts thr_started_def start_run_def thr_init_def create_thread_def sync_ops)
  then obtain s where s: "thr_sched (thr_started 0 0 1) [1, 1, 1, 1, 2, 2, 2, 2, 2, 2, 1, 1, 1] = Some s"
    "thr_returned s = 1" by auto
  have "reach (thr_started 0 0 1) thr_step s" by (rule thr_sched_reach [OF s(1) _ reach_init]) simp
  then have "thr_returned s \<le> thr_resumed s" by (rule thread_suspend_until_resumed [THEN conjunct1])
  with s show ?thesis by auto
qed

end
