(* ===== verification/Msg_Queue.thy ===== *)
theory Msg_Queue
  imports Link_List Double_Link Sync
begin

text \<open>
  src/epoll_mutilthread/src/mq.c: message queues between threads.  A thread pushes to a list of its own
  that is swapped onto the shared list of the queue when it is long enough, and pops from another
  list of its own that it refills from the shared list, waiting for it when it is empty.  The parts of
  the calls that touch shared memory are the steps of a relation, for any number of queues and threads;
  the parts a thread does on its own structures are one step.  Memory does not run out, and a block from
  calloc holds at least two pointers, as with the allocator of the C library: mq_push_local asks for one
  and stores two.
\<close>

section \<open>State\<close>

record per_thread_struct =
  local_push_q :: link_list
  local_pop_q :: link_list
  pt_cond :: condition
  is_associate :: int

record mq =
  push_size :: u32
  mq_key :: "nat \<Rightarrow> addr"
  mq_mtx :: mutex
  blocks :: double_link
  share_list :: link_list
  local_lists :: link_list

record mq_system =
  sys_key :: "nat \<Rightarrow> addr"
  sys_mtx :: mutex
  thread_mqs :: link_list

text \<open>The memory: the messages, the structures of the threads with their next pointers and block nodes,
  the queues, the lists of associated queues of the threads and the elements of those lists.\<close>

record mq_world =
  msgs :: nheap
  pts :: "addr \<rightharpoonup> per_thread_struct"
  pt_nodes :: nheap
  blks :: dheap
  mqs :: "addr \<rightharpoonup> mq"
  tmqs :: "addr \<rightharpoonup> link_list"
  tmq_nodes :: nheap
  elems :: "addr \<rightharpoonup> addr"
  elem_nodes :: nheap
  g_mq_system :: mq_system
  mq_brk :: addr

definition mq_calloc :: "mq_world \<Rightarrow> nat \<Rightarrow> addr \<times> mq_world" where
  "mq_calloc w n = (mq_brk w, w\<lparr>mq_brk := mq_brk w + n\<rparr>)"

definition unlinked :: dl_node where
  "unlinked = \<lparr>dl_pre = NULL, dl_next = NULL\<rparr>"

definition init_mq_system :: "nheap \<Rightarrow> addr \<Rightarrow> mq_world" where
  "init_mq_system h b =
     \<lparr>msgs = h, pts = Map.empty, pt_nodes = Map.empty, blks = Map.empty, mqs = Map.empty, tmqs = Map.empty,
      tmq_nodes = Map.empty, elems = Map.empty, elem_nodes = Map.empty,
      g_mq_system = \<lparr>sys_key = \<lambda>_. NULL, sys_mtx = mutex_create, thread_mqs = create_link_list\<rparr>, mq_brk = b\<rparr>"

text \<open>The block node of a thread's structure comes after its next pointer.\<close>

definition block_of :: "addr \<Rightarrow> addr" where
  "block_of p = p + 8"

definition per_thread_create :: "mq_world \<Rightarrow> addr \<times> mq_world" where
  "per_thread_create w =
     (let (p, w) = mq_calloc w 56
      in (p, w\<lparr>pts := (pts w)(p \<mapsto> \<lparr>local_push_q = create_link_list, local_pop_q = create_link_list,
                                pt_cond = condition_create, is_associate = 0\<rparr>),
               pt_nodes := (pt_nodes w)(p \<mapsto> NULL), blks := (blks w)(block_of p \<mapsto> unlinked)\<rparr>))"

definition create_mq :: "mq_world \<Rightarrow> u32 \<Rightarrow> (addr \<times> mq_world) option" where
  "create_mq w ps = do {
     let (m, w) = mq_calloc w 80;
     let bl = \<lparr>dl_head = m + 16, dl_tail = m + 32\<rparr>;
     d \<leftarrow> double_link_clear ((blks w)(m + 16 \<mapsto> unlinked, m + 32 \<mapsto> unlinked)) bl;
     Some (m, w\<lparr>blks := d, mqs := (mqs w)(m \<mapsto> \<lparr>push_size = ps, mq_key = \<lambda>_. NULL, mq_mtx = mutex_create, blocks = bl,
       share_list = create_link_list, local_lists = create_link_list\<rparr>)\<rparr>)
   }"

section \<open>What a thread does on its own\<close>

text \<open>The structure of thread t for queue m, made when it is missing.\<close>

definition thread_pts :: "mq_world \<Rightarrow> nat \<Rightarrow> addr \<Rightarrow> (addr \<times> mq_world) option" where
  "thread_pts w t m = do {
     M \<leftarrow> mqs w m;
     if mq_key M t \<noteq> NULL then Some (mq_key M t, w)
     else do {
       let (p, w) = per_thread_create w;
       (h, l) \<leftarrow> link_list_push_back (pt_nodes w) (local_lists M) p;
       Some (p, w\<lparr>pt_nodes := h, mqs := (mqs w)(m \<mapsto> M\<lparr>local_lists := l, mq_key := (mq_key M)(t := p)\<rparr>)\<rparr>)
     }
   }"

text \<open>The list of the queues that thread t has pushed to.\<close>

definition thread_tmq :: "mq_world \<Rightarrow> nat \<Rightarrow> (addr \<times> mq_world) option" where
  "thread_tmq w t = (let g = g_mq_system w in
     if sys_key g t \<noteq> NULL then Some (sys_key g t, w)
     else do {
       let (q, w) = mq_calloc w 16;
       mx \<leftarrow> mutex_lock (sys_mtx g) t;
       (h, l) \<leftarrow> link_list_push_back ((tmq_nodes w)(q \<mapsto> NULL)) (thread_mqs g) q;
       let mx = snd (mutex_unlock mx t);
       Some (q, w\<lparr>tmqs := (tmqs w)(q \<mapsto> create_link_list), tmq_nodes := h,
         g_mq_system := g\<lparr>thread_mqs := l, sys_mtx := mx, sys_key := (sys_key g)(t := q)\<rparr>\<rparr>)
     })"

definition mq_associate :: "mq_world \<Rightarrow> nat \<Rightarrow> addr \<Rightarrow> addr \<Rightarrow> mq_world option" where
  "mq_associate w t m p = do {
     P \<leftarrow> pts w p;
     if is_associate P \<noteq> 0 then Some w
     else do {
       (q, w) \<leftarrow> thread_tmq w t;
       let (e, w) = mq_calloc w 16;
       l \<leftarrow> tmqs w q;
       (h, l) \<leftarrow> link_list_push_back ((elem_nodes w)(e \<mapsto> NULL)) l e;
       Some (w\<lparr>elem_nodes := h, elems := (elems w)(e \<mapsto> m), tmqs := (tmqs w)(q \<mapsto> l),
               pts := (pts w)(p \<mapsto> P\<lparr>is_associate := 1\<rparr>)\<rparr>)
     }
   }"

definition mq_push_local :: "mq_world \<Rightarrow> nat \<Rightarrow> addr \<Rightarrow> addr \<Rightarrow> (addr \<times> mq_world) option" where
  "mq_push_local w t m msg = do {
     (p, w) \<leftarrow> thread_pts w t m;
     w \<leftarrow> mq_associate w t m p;
     P \<leftarrow> pts w p;
     (h, l) \<leftarrow> link_list_push_back (msgs w) (local_push_q P) msg;
     Some (p, w\<lparr>msgs := h, pts := (pts w)(p \<mapsto> P\<lparr>local_push_q := l\<rparr>)\<rparr>)
   }"

section \<open>What threads do under the lock of a queue\<close>

text \<open>The thread's list goes onto the shared list; when that was empty, one blocked thread is taken off
  the list of the blocked ones, to be woken.\<close>

definition sync_push_swap :: "mq_world \<Rightarrow> addr \<Rightarrow> addr \<Rightarrow> (addr \<times> mq_world) option" where
  "sync_push_swap w m p = do {
     M \<leftarrow> mqs w m;
     P \<leftarrow> pts w p;
     let empty = link_list_is_empty (share_list M);
     (h, sh, l) \<leftarrow> link_list_swap (msgs w) (share_list M) (local_push_q P);
     let w = w\<lparr>msgs := h, mqs := (mqs w)(m \<mapsto> M\<lparr>share_list := sh\<rparr>), pts := (pts w)(p \<mapsto> P\<lparr>local_push_q := l\<rparr>)\<rparr>;
     if empty then do {
       (l, d) \<leftarrow> double_link_pop (blks w) (blocks M);
       Some (if l \<noteq> NULL then l - 8 else NULL, w\<lparr>blks := d\<rparr>)
     }
     else Some (NULL, w)
   }"

definition sync_pop_swap :: "mq_world \<Rightarrow> addr \<Rightarrow> addr \<Rightarrow> mq_world option" where
  "sync_pop_swap w m p = do {
     M \<leftarrow> mqs w m;
     P \<leftarrow> pts w p;
     (h, l, sh) \<leftarrow> link_list_swap (msgs w) (local_pop_q P) (share_list M);
     Some (w\<lparr>msgs := h, mqs := (mqs w)(m \<mapsto> M\<lparr>share_list := sh\<rparr>), pts := (pts w)(p \<mapsto> P\<lparr>local_pop_q := l\<rparr>)\<rparr>)
   }"

section \<open>The calls, step by step\<close>

text \<open>
  Where a thread is.  Sp_ are the places in mq_sync_push, on queue m with the thread's structure p; the
  last argument is the element mq_flush has got to, NULL when the call is mq_push or mq_push_now.  Pp_
  are the places in mq_sync_pop and after it; the flag is true in mq_push_list.  Fl_ are those of
  mq_flush.
\<close>

datatype mq_pc =
  Mq_outside
| Sp_lock addr addr addr | Sp_swap addr addr addr | Sp_unlock addr addr addr | Sp_signal addr addr
| Pp_lock addr addr u32 bool | Pp_test addr addr u32 bool | Pp_loop addr addr u32 bool
| Pp_waiting addr addr u32 bool "int \<times> int" | Pp_woken addr addr u32 bool
| Pp_swap addr addr bool | Pp_unlock addr addr bool | Pp_take addr addr bool
| Fl_test addr | Fl_next addr

text \<open>
  What the lists mean: per queue and thread, the messages pushed and not yet shared (pend), received and
  not yet popped (recv), pushed ever and popped ever; per queue, the shared messages with the thread that
  pushed them, and the log of who received what from whom; per thread, the messages of the list that
  mq_push_list has filled.
\<close>

record mq_spec =
  pend :: "addr \<Rightarrow> nat \<Rightarrow> addr list"
  tags :: "addr \<Rightarrow> (nat \<times> addr) list"
  recv :: "addr \<Rightarrow> nat \<Rightarrow> addr list"
  log :: "addr \<Rightarrow> (nat \<times> nat \<times> addr) list"
  pushed :: "addr \<Rightarrow> nat \<Rightarrow> addr list"
  popped :: "addr \<Rightarrow> nat \<Rightarrow> addr list"
  taken :: "nat \<Rightarrow> addr list"
  held :: "addr set"

record mq_state =
  wd :: mq_world
  own :: "nat \<Rightarrow> link_list"
  mq_at :: "nat \<Rightarrow> mq_pc"
  mq_ret :: "nat \<Rightarrow> int"
  sp :: mq_spec

definition upd2 :: "('a \<Rightarrow> 'b \<Rightarrow> 'c) \<Rightarrow> 'a \<Rightarrow> 'b \<Rightarrow> 'c \<Rightarrow> 'a \<Rightarrow> 'b \<Rightarrow> 'c" where
  "upd2 f a b v = f(a := (f a)(b := v))"

definition spec_push :: "mq_spec \<Rightarrow> addr \<Rightarrow> nat \<Rightarrow> addr \<Rightarrow> mq_spec" where
  "spec_push g m t a = g\<lparr>pend := upd2 (pend g) m t (pend g m t @ [a]), pushed := upd2 (pushed g) m t (pushed g m t @ [a]),
     held := held g - {a}\<rparr>"

definition spec_share :: "mq_spec \<Rightarrow> addr \<Rightarrow> nat \<Rightarrow> mq_spec" where
  "spec_share g m t = g\<lparr>pend := upd2 (pend g) m t [], tags := (tags g)(m := tags g m @ map (Pair t) (pend g m t))\<rparr>"

definition spec_receive :: "mq_spec \<Rightarrow> addr \<Rightarrow> nat \<Rightarrow> mq_spec" where
  "spec_receive g m t = g\<lparr>recv := upd2 (recv g) m t (recv g m t @ map snd (tags g m)), tags := (tags g)(m := []),
     log := (log g)(m := log g m @ map (\<lambda>(p, a). (p, t, a)) (tags g m))\<rparr>"

text \<open>Message a, what the code returned, is out.\<close>

definition spec_pop :: "mq_spec \<Rightarrow> addr \<Rightarrow> nat \<Rightarrow> addr \<Rightarrow> mq_spec" where
  "spec_pop g m t a = g\<lparr>recv := upd2 (recv g) m t (tl (recv g m t)), popped := upd2 (popped g) m t (popped g m t @ [a]),
     held := insert a (held g)\<rparr>"

definition spec_pop_list :: "mq_spec \<Rightarrow> addr \<Rightarrow> nat \<Rightarrow> mq_spec" where
  "spec_pop_list g m t = g\<lparr>recv := upd2 (recv g) m t [], popped := upd2 (popped g) m t (popped g m t @ recv g m t),
     taken := (taken g)(t := taken g t @ recv g m t)\<rparr>"

definition spec_take :: "mq_spec \<Rightarrow> nat \<Rightarrow> addr \<Rightarrow> mq_spec" where
  "spec_take g t a = g\<lparr>taken := (taken g)(t := tl (taken g t)), held := insert a (held g)\<rparr>"

definition mq_goto :: "mq_state \<Rightarrow> nat \<Rightarrow> mq_world \<Rightarrow> mq_pc \<Rightarrow> mq_state" where
  "mq_goto s t w p = s\<lparr>wd := w, mq_at := (mq_at s)(t := p)\<rparr>"

definition after_push :: "addr \<Rightarrow> mq_pc" where
  "after_push n = (if n = NULL then Mq_outside else Fl_next n)"

definition mq_set_mtx :: "mq_world \<Rightarrow> addr \<Rightarrow> mutex \<Rightarrow> mq_world" where
  "mq_set_mtx w m x = w\<lparr>mqs := (mqs w)(m := map_option (\<lambda>M. M\<lparr>mq_mtx := x\<rparr>) (mqs w m))\<rparr>"

definition pts_set_cond :: "mq_world \<Rightarrow> addr \<Rightarrow> condition \<Rightarrow> mq_world" where
  "pts_set_cond w p c = w\<lparr>pts := (pts w)(p := map_option (\<lambda>P. P\<lparr>pt_cond := c\<rparr>) (pts w p))\<rparr>"

text \<open>mq_push, and mq_push_now when now is true.\<close>

definition mq_push :: "mq_state \<Rightarrow> nat \<Rightarrow> addr \<Rightarrow> addr \<Rightarrow> bool \<Rightarrow> mq_state option" where
  "mq_push s t m msg now = do {
     (p, w) \<leftarrow> mq_push_local (wd s) t m msg;
     P \<leftarrow> pts w p;
     M \<leftarrow> mqs w m;
     Some ((mq_goto s t w (if now \<or> link_list_size (local_push_q P) \<ge> push_size M then Sp_lock m p NULL else Mq_outside))
             \<lparr>sp := spec_push (sp s) m t msg\<rparr>)
   }"

text \<open>The next step of thread t in mq_sync_push; a signal wakes the waiter u.\<close>

definition mq_sync_push :: "mq_state \<Rightarrow> nat \<Rightarrow> nat \<Rightarrow> mq_state option" where
  "mq_sync_push s t u = (let w = wd s in
     case mq_at s t of
       Sp_lock m p n \<Rightarrow> do {
         M \<leftarrow> mqs w m;
         x \<leftarrow> mutex_lock (mq_mtx M) t;
         Some (mq_goto s t (mq_set_mtx w m x) (Sp_swap m p n))
       }
     | Sp_swap m p n \<Rightarrow> do {
         (b, w) \<leftarrow> sync_push_swap w m p;
         Some ((mq_goto s t w (Sp_unlock m b n))\<lparr>sp := spec_share (sp s) m t\<rparr>)
       }
     | Sp_unlock m b n \<Rightarrow> do {
         M \<leftarrow> mqs w m;
         let w = mq_set_mtx w m (snd (mutex_unlock (mq_mtx M) t));
         Some (mq_goto s t w (if b \<noteq> NULL then Sp_signal b n else after_push n))
       }
     | Sp_signal b n \<Rightarrow> do {
         P \<leftarrow> pts w b;
         c \<leftarrow> condition_signal (pt_cond P) u;
         Some ((mq_goto s t (pts_set_cond w b c) (after_push n))
                 \<lparr>mq_ret := (if waiting (pt_cond P) = {} then mq_ret s else (mq_ret s)(u := 0))\<rparr>)
       }
     | _ \<Rightarrow> None)"

text \<open>mq_pop, and mq_push_list when out is true.\<close>

definition mq_pop :: "mq_state \<Rightarrow> nat \<Rightarrow> addr \<Rightarrow> u32 \<Rightarrow> bool \<Rightarrow> mq_state option" where
  "mq_pop s t m timeout out = do {
     (p, w) \<leftarrow> thread_pts (wd s) t m;
     P \<leftarrow> pts w p;
     Some (mq_goto s t w (if link_list_is_empty (local_pop_q P) then Pp_lock m p timeout out else Pp_take m p out))
   }"

text \<open>The next step of thread t in mq_sync_pop, at the time of day now.\<close>

definition mq_sync_pop :: "mq_state \<Rightarrow> nat \<Rightarrow> int \<times> int \<Rightarrow> mq_state option" where
  "mq_sync_pop s t now = (let w = wd s in
     case mq_at s t of
       Pp_lock m p timeout out \<Rightarrow> do {
         M \<leftarrow> mqs w m;
         x \<leftarrow> mutex_lock (mq_mtx M) t;
         Some (mq_goto s t (mq_set_mtx w m x) (Pp_test m p timeout out))
       }
     | Pp_test m p timeout out \<Rightarrow> do {
         M \<leftarrow> mqs w m;
         Some (mq_goto s t w (if link_list_is_empty (share_list M) \<and> timeout \<noteq> 0 then Pp_loop m p timeout out
                              else Pp_swap m p out))
       }
     | Pp_loop m p timeout out \<Rightarrow> do {
         M \<leftarrow> mqs w m;
         P \<leftarrow> pts w p;
         if link_list_is_empty (share_list M) then do {
           (_, d) \<leftarrow> double_link_push (blks w) (blocks M) (block_of p);
           let (ts, c, x) = condition_timedwait now (pt_cond P) (mq_mtx M) (uint timeout) t;
           Some (mq_goto s t (pts_set_cond (mq_set_mtx (w\<lparr>blks := d\<rparr>) m x) p c) (Pp_waiting m p timeout out ts))
         }
         else Some (mq_goto s t w (Pp_swap m p out))
       }
     | Pp_waiting m p timeout out ts \<Rightarrow> do {
         M \<leftarrow> mqs w m;
         P \<leftarrow> pts w p;
         x \<leftarrow> condition_return (pt_cond P) (mq_mtx M) t;
         Some (mq_goto s t (mq_set_mtx w m x) (Pp_woken m p timeout out))
       }
     | Pp_woken m p timeout out \<Rightarrow>
         if mq_ret s t \<noteq> 0 then do {
           (_, d) \<leftarrow> double_link_remove (blks w) (block_of p);
           Some (mq_goto s t (w\<lparr>blks := d\<rparr>) (Pp_swap m p out))
         }
         else Some (mq_goto s t w (Pp_loop m p timeout out))
     | Pp_swap m p out \<Rightarrow> do {
         w \<leftarrow> sync_pop_swap w m p;
         Some ((mq_goto s t w (Pp_unlock m p out))\<lparr>sp := spec_receive (sp s) m t\<rparr>)
       }
     | Pp_unlock m p out \<Rightarrow> do {
         M \<leftarrow> mqs w m;
         Some (mq_goto s t (mq_set_mtx w m (snd (mutex_unlock (mq_mtx M) t))) (Pp_take m p out))
       }
     | _ \<Rightarrow> None)"

text \<open>The end of mq_pop: the message it returns, NULL when there is none; and of mq_push_list.\<close>

definition mq_pop_take :: "mq_state \<Rightarrow> nat \<Rightarrow> (addr \<times> mq_state) option" where
  "mq_pop_take s t = (let w = wd s in
     case mq_at s t of
       Pp_take m p False \<Rightarrow> do {
         P \<leftarrow> pts w p;
         (a, h, l) \<leftarrow> link_list_pop (msgs w) (local_pop_q P);
         let s = mq_goto s t (w\<lparr>msgs := h, pts := (pts w)(p \<mapsto> P\<lparr>local_pop_q := l\<rparr>)\<rparr>) Mq_outside;
         Some (a, if a = NULL then s else s\<lparr>sp := spec_pop (sp s) m t a\<rparr>)
       }
     | _ \<Rightarrow> None)"

definition mq_push_list_take :: "mq_state \<Rightarrow> nat \<Rightarrow> mq_state option" where
  "mq_push_list_take s t = (let w = wd s in
     case mq_at s t of
       Pp_take m p True \<Rightarrow> do {
         P \<leftarrow> pts w p;
         (h, o', l) \<leftarrow> link_list_swap (msgs w) (own s t) (local_pop_q P);
         Some ((mq_goto s t (w\<lparr>msgs := h, pts := (pts w)(p \<mapsto> P\<lparr>local_pop_q := l\<rparr>)\<rparr>) Mq_outside)
                 \<lparr>own := (own s)(t := o'), sp := spec_pop_list (sp s) m t\<rparr>)
       }
     | _ \<Rightarrow> None)"

section \<open>Flushing\<close>

definition mq_flush :: "mq_state \<Rightarrow> nat \<Rightarrow> mq_state option" where
  "mq_flush s t = (let w = wd s; q = sys_key (g_mq_system w) t in
     if q \<noteq> NULL then do { l \<leftarrow> tmqs w q; Some (mq_goto s t w (Fl_test (link_list_head l))) } else Some s)"

definition mq_force_sync :: "mq_state \<Rightarrow> nat \<Rightarrow> mq_state option" where
  "mq_force_sync s t = (let w = wd s in
     case mq_at s t of
       Fl_test n \<Rightarrow>
         if n = NULL then Some (mq_goto s t w Mq_outside)
         else do {
           m \<leftarrow> elems w n;
           M \<leftarrow> mqs w m;
           P \<leftarrow> pts w (mq_key M t);
           Some (mq_goto s t w (if \<not> link_list_is_empty (local_push_q P) then Sp_lock m (mq_key M t) n else Fl_next n))
         }
     | Fl_next n \<Rightarrow> do { n' \<leftarrow> node_get (elem_nodes w) n; Some (mq_goto s t w (Fl_test n')) }
     | _ \<Rightarrow> None)"

section \<open>The threads\<close>

text \<open>
  Threads create queues, call the operations with messages they hold, take messages off the lists that
  mq_push_list has filled, and wake up when a deadline passes or for no reason.
\<close>

inductive mq_step :: "mq_state \<Rightarrow> mq_state \<Rightarrow> bool" where
  mq_new: "create_mq (wd s) ps = Some (m, w) \<Longrightarrow> mq_step s (s\<lparr>wd := w\<rparr>)"
| mq_call_push: "t \<noteq> 0 \<Longrightarrow> mq_at s t = Mq_outside \<Longrightarrow> msg \<in> held (sp s) \<Longrightarrow> mq_push s t m msg now = Some s' \<Longrightarrow>
    mq_step s s'"
| mq_call_pop: "t \<noteq> 0 \<Longrightarrow> mq_at s t = Mq_outside \<Longrightarrow> mq_pop s t m timeout out = Some s' \<Longrightarrow> mq_step s s'"
| mq_call_flush: "t \<noteq> 0 \<Longrightarrow> mq_at s t = Mq_outside \<Longrightarrow> mq_flush s t = Some s' \<Longrightarrow> mq_step s s'"
| mq_in_push: "mq_sync_push s t u = Some s' \<Longrightarrow> mq_step s s'"
| mq_in_pop: "mq_sync_pop s t now = Some s' \<Longrightarrow> mq_step s s'"
| mq_in_take: "mq_pop_take s t = Some (a, s') \<Longrightarrow> mq_step s s'"
| mq_in_take_list: "mq_push_list_take s t = Some s' \<Longrightarrow> mq_step s s'"
| mq_in_flush: "mq_force_sync s t = Some s' \<Longrightarrow> mq_step s s'"
| mq_own_take: "link_list_pop (msgs (wd s)) (own s t) = Some (a, h, l) \<Longrightarrow> a \<noteq> NULL \<Longrightarrow>
    mq_step s (s\<lparr>wd := (wd s)\<lparr>msgs := h\<rparr>, own := (own s)(t := l), sp := spec_take (sp s) t a\<rparr>)"
| mq_wake: "pts (wd s) p = Some P \<Longrightarrow> t \<in> waiting (pt_cond P) \<Longrightarrow> r \<in> {0, ETIMEDOUT} \<Longrightarrow>
    mq_step s (s\<lparr>wd := pts_set_cond (wd s) p (condition_wake (pt_cond P) t), mq_ret := (mq_ret s)(t := r)\<rparr>)"

inductive_cases mq_stepE: "mq_step s s'"

section \<open>The log\<close>

text \<open>The messages of a log that thread t sent, and those it received; the shared ones it sent.\<close>

definition sent_by :: "nat \<Rightarrow> (nat \<times> nat \<times> addr) list \<Rightarrow> addr list" where
  "sent_by t l = map (\<lambda>(p, c, a). a) (filter (\<lambda>(p, c, a). p = t) l)"

definition got_by :: "nat \<Rightarrow> (nat \<times> nat \<times> addr) list \<Rightarrow> addr list" where
  "got_by t l = map (\<lambda>(p, c, a). a) (filter (\<lambda>(p, c, a). c = t) l)"

definition shared_by :: "nat \<Rightarrow> (nat \<times> addr) list \<Rightarrow> addr list" where
  "shared_by t l = map snd (filter (\<lambda>(p, a). p = t) l)"

definition mq_log :: "mq_spec \<Rightarrow> bool" where
  "mq_log g \<longleftrightarrow> (\<forall>m t. sent_by t (log g m) @ shared_by t (tags g m) @ pend g m t = pushed g m t \<and>
     got_by t (log g m) = popped g m t @ recv g m t)"

lemma by_append [simp]: "sent_by t (xs @ ys) = sent_by t xs @ sent_by t ys" "got_by t (xs @ ys) = got_by t xs @ got_by t ys"
  "shared_by t (us @ vs) = shared_by t us @ shared_by t vs"
  by (simp_all add: sent_by_def got_by_def shared_by_def)

lemma by_Nil [simp]: "sent_by t [] = []" "got_by t [] = []" "shared_by t [] = []"
  by (simp_all add: sent_by_def got_by_def shared_by_def)

lemma shared_by_Pair [simp]: "shared_by t (map (Pair u) xs) = (if u = t then xs else [])"
  by (simp add: shared_by_def filter_map o_def)

lemma by_receive [simp]: "sent_by t (map (\<lambda>(p, a). (p, c, a)) xs) = shared_by t xs"
  "got_by t (map (\<lambda>(p, a). (p, c, a)) xs) = (if c = t then map snd xs else [])"
  by (induction xs) (auto simp: sent_by_def got_by_def shared_by_def)

lemma upd2_simps [simp]: "upd2 f a b v a b = v" "upd2 f a b v x y = (if x = a \<and> y = b then v else f x y)"
  by (auto simp: upd2_def)

lemmas spec_defs = spec_push_def spec_share_def spec_receive_def spec_pop_def spec_pop_list_def spec_take_def

lemma mq_log_spec:
  assumes "mq_log g"
  shows "mq_log (spec_push g m t a)" and "mq_log (spec_share g m t)" and "mq_log (spec_receive g m t)"
    and "recv g m t = a # r \<Longrightarrow> mq_log (spec_pop g m t a)" and "mq_log (spec_pop_list g m t)" and "mq_log (spec_take g t a)"
proof -
  have *: "sent_by t (log g m) @ shared_by t (tags g m) @ pend g m t = pushed g m t"
    "got_by t (log g m) = popped g m t @ recv g m t" for m t
    using assms by (simp_all add: mq_log_def)
  show "mq_log (spec_push g m t a)" using * [symmetric] by (simp add: mq_log_def spec_defs)
  show "mq_log (spec_share g m t)" using * [symmetric] by (simp add: mq_log_def spec_defs)
  show "mq_log (spec_receive g m t)" using * [symmetric] by (simp add: mq_log_def spec_defs)
  show "mq_log (spec_pop g m t a)" if "recv g m t = a # r" using * that by (simp add: mq_log_def spec_defs)
  show "mq_log (spec_pop_list g m t)" using * by (simp add: mq_log_def spec_defs)
  show "mq_log (spec_take g t a)" using * by (simp add: mq_log_def spec_defs)
qed

section \<open>The lists of a state\<close>

datatype qid = Sh addr | Pu addr nat | Po addr nat | Ow nat

definition key :: "mq_world \<Rightarrow> addr \<Rightarrow> nat \<Rightarrow> addr" where
  "key w m t = (case mqs w m of None \<Rightarrow> NULL | Some M \<Rightarrow> mq_key M t)"

primrec is_qid :: "mq_world \<Rightarrow> qid \<Rightarrow> bool" where
  "is_qid w (Sh m) \<longleftrightarrow> m \<in> dom (mqs w)"
| "is_qid w (Pu m t) \<longleftrightarrow> key w m t \<noteq> NULL"
| "is_qid w (Po m t) \<longleftrightarrow> key w m t \<noteq> NULL"
| "is_qid w (Ow t) \<longleftrightarrow> True"

primrec q_hdr :: "mq_world \<Rightarrow> (nat \<Rightarrow> link_list) \<Rightarrow> qid \<Rightarrow> link_list" where
  "q_hdr w o' (Sh m) = share_list (the (mqs w m))"
| "q_hdr w o' (Pu m t) = local_push_q (the (pts w (key w m t)))"
| "q_hdr w o' (Po m t) = local_pop_q (the (pts w (key w m t)))"
| "q_hdr w o' (Ow t) = o' t"

primrec q_list :: "mq_spec \<Rightarrow> qid \<Rightarrow> addr list" where
  "q_list g (Sh m) = map snd (tags g m)"
| "q_list g (Pu m t) = pend g m t"
| "q_list g (Po m t) = recv g m t"
| "q_list g (Ow t) = taken g t"

text \<open>The messages are in the lists, or held by the program.\<close>

definition mq_rep :: "mq_world \<Rightarrow> (nat \<Rightarrow> link_list) \<Rightarrow> mq_spec \<Rightarrow> bool" where
  "mq_rep w o' g \<longleftrightarrow> ll.family (msgs w) (Collect (is_qid w)) (q_hdr w o') (q_list g) \<and>
     (\<forall>i. \<not> is_qid w i \<longrightarrow> q_list g i = []) \<and>
     (\<forall>a\<in>held g. ll_free (msgs w) a \<and> (\<forall>i. a \<notin> set (q_list g i))) \<and>
     finite (dom (msgs w)) \<and> card (dom (msgs w)) < 2 ^ 31"

definition mq_keys :: "mq_world \<Rightarrow> bool" where
  "mq_keys w \<longleftrightarrow> 0 < mq_brk w \<and> dom (pts w) \<subseteq> {0<..<mq_brk w} \<and> dom (mqs w) \<subseteq> {..<mq_brk w} \<and>
     (\<forall>m t. key w m t \<noteq> NULL \<longrightarrow> key w m t \<in> dom (pts w)) \<and>
     (\<forall>m t m' t'. key w m t \<noteq> NULL \<and> key w m t = key w m' t' \<longrightarrow> m = m' \<and> t = t')"

text \<open>A change that leaves the lists of messages as they are, but for new ones that are empty.\<close>

definition grows :: "mq_world \<Rightarrow> mq_world \<Rightarrow> bool" where
  "grows w w' \<longleftrightarrow> mq_keys w' \<and> msgs w' = msgs w \<and> (\<forall>m t. key w m t \<noteq> NULL \<longrightarrow> key w' m t = key w m t) \<and>
     (\<forall>i. is_qid w i \<longrightarrow> is_qid w' i \<and> (\<forall>o'. q_hdr w' o' i = q_hdr w o' i)) \<and>
     (\<forall>i. is_qid w' i \<and> \<not> is_qid w i \<longrightarrow> (\<forall>o'. q_hdr w' o' i = create_link_list))"

lemma grows_refl: "mq_keys w \<Longrightarrow> grows w w"
  by (simp add: grows_def)

lemma grows_trans: "grows w w' \<Longrightarrow> grows w' w'' \<Longrightarrow> grows w w''"
  unfolding grows_def by metis

lemma ll_repr_new: "ll_repr h create_link_list []"
  by (simp add: ll_repr_def create_link_list_def)

lemma rep_grows:
  assumes r: "mq_rep w o' g" and g: "grows w w'"
  shows "mq_rep w' o' g"
proof -
  have f: "ll.family (msgs w) (Collect (is_qid w)) (q_hdr w o') (q_list g)" and e: "\<And>i. \<not> is_qid w i \<Longrightarrow> q_list g i = []"
    using r by (simp_all add: mq_rep_def)
  have old: "is_qid w' i" "q_hdr w' o' i = q_hdr w o' i" if "is_qid w i" for i using g that by (simp_all add: grows_def)
  have new: "q_hdr w' o' i = create_link_list" if "is_qid w' i" "\<not> is_qid w i" for i using g that unfolding grows_def by metis
  have "ll.family (msgs w') (Collect (is_qid w')) (q_hdr w' o') (q_list g)"
    unfolding ll.family_def
  proof (intro conjI ballI impI)
    fix i assume i: "i \<in> Collect (is_qid w')"
    show "ll_repr (msgs w') (q_hdr w' o' i) (q_list g i)"
    proof (cases "is_qid w i")
      case True
      then show ?thesis using ll.family_repr [OF f, of i] old g by (simp add: grows_def)
    qed (use i new e ll_repr_new in simp)
    fix j assume "j \<in> Collect (is_qid w')" "i \<noteq> j"
    then have "set (q_list g i) \<inter> set (q_list g j) = {}"
      using f e unfolding ll.family_def by (cases "is_qid w i \<and> is_qid w j") auto
    then show "(set (q_list g i) \<union> {}) \<inter> (set (q_list g j) \<union> {}) = {}" by simp
  qed
  moreover have "msgs w' = msgs w" using g by (simp add: grows_def)
  moreover have "\<not> is_qid w' i \<Longrightarrow> q_list g i = []" for i using e old by blast
  ultimately show ?thesis using r unfolding mq_rep_def by auto
qed

lemma mq_keysD:
  assumes "mq_keys w"
  shows "0 < mq_brk w" "dom (pts w) \<subseteq> {0<..<mq_brk w}" "dom (mqs w) \<subseteq> {..<mq_brk w}"
    "key w m t \<noteq> NULL \<Longrightarrow> key w m t \<in> dom (pts w)"
    "key w m t \<noteq> NULL \<Longrightarrow> key w m t = key w m' t' \<Longrightarrow> m = m' \<and> t = t'"
  using assms unfolding mq_keys_def by metis+

text \<open>A change that keeps the lists, the keys and the structures there are.\<close>

lemma is_qid_cong: "key w' = key w \<Longrightarrow> dom (mqs w') = dom (mqs w) \<Longrightarrow> is_qid w' i = is_qid w i"
  by (cases i) simp_all

lemma grows_keeps:
  assumes "mq_keys w" and "msgs w' = msgs w" and "key w' = key w" and "mq_brk w \<le> mq_brk w'"
    and "dom (mqs w') = dom (mqs w)" and "dom (pts w') = dom (pts w)"
    and "\<And>m. m \<in> dom (mqs w) \<Longrightarrow> share_list (the (mqs w' m)) = share_list (the (mqs w m))"
    and "\<And>p. p \<in> dom (pts w) \<Longrightarrow> local_push_q (the (pts w' p)) = local_push_q (the (pts w p)) \<and>
      local_pop_q (the (pts w' p)) = local_pop_q (the (pts w p))"
  shows "grows w w'"
proof -
  have "dom (pts w) \<subseteq> {0<..<mq_brk w'}" "dom (mqs w) \<subseteq> {..<mq_brk w'}" "0 < mq_brk w'"
    using mq_keysD(1-3) [OF assms(1)] assms(4) by (fastforce intro: less_le_trans)+
  then have "mq_keys w'" using mq_keysD(4,5) [OF assms(1)] unfolding mq_keys_def assms(3,5,6) by metis
  moreover have "q_hdr w' o' i = q_hdr w o' i" if "is_qid w i" for i o'
  proof (cases i)
    case (Pu m t)
    have "key w m t \<in> dom (pts w)" using mq_keysD(4) [OF assms(1)] that Pu by simp
    then show ?thesis using assms(3,8) Pu by simp
  next
    case (Po m t)
    have "key w m t \<in> dom (pts w)" using mq_keysD(4) [OF assms(1)] that Po by simp
    then show ?thesis using assms(3,8) Po by simp
  qed (use that assms(7) in simp_all)
  ultimately show ?thesis using assms(2,3) is_qid_cong [OF assms(3,5)] by (simp add: grows_def)
qed

lemma key_set_mtx [simp]: "key (mq_set_mtx w m x) = key w"
  by (auto simp: key_def mq_set_mtx_def fun_eq_iff split: option.splits)

lemma key_same [simp]: "key (w\<lparr>msgs := h\<rparr>) = key w" "key (w\<lparr>pts := p\<rparr>) = key w" "key (w\<lparr>pt_nodes := h\<rparr>) = key w"
  "key (w\<lparr>blks := d\<rparr>) = key w" "key (w\<lparr>tmqs := q\<rparr>) = key w" "key (w\<lparr>tmq_nodes := h\<rparr>) = key w"
  "key (w\<lparr>elems := e\<rparr>) = key w" "key (w\<lparr>elem_nodes := h\<rparr>) = key w" "key (w\<lparr>g_mq_system := g\<rparr>) = key w"
  "key (w\<lparr>mq_brk := b\<rparr>) = key w" "key (pts_set_cond w a c) = key w"
  by (simp_all add: key_def fun_eq_iff pts_set_cond_def)

lemma set_mtx_same [simp]: "msgs (mq_set_mtx w m x) = msgs w" "pts (mq_set_mtx w m x) = pts w" "mq_brk (mq_set_mtx w m x) = mq_brk w"
  "dom (mqs (mq_set_mtx w m x)) = dom (mqs w)"
  by (auto simp: mq_set_mtx_def split: if_splits)

lemma grows_set_mtx: "mq_keys w \<Longrightarrow> grows w (mq_set_mtx w m x)"
  by (rule grows_keeps) (simp_all, auto simp: mq_set_mtx_def)

lemma grows_set_cond: "mq_keys w \<Longrightarrow> grows w (pts_set_cond w p c)"
  by (rule grows_keeps) (auto simp: pts_set_cond_def)

lemma grows_blks: "mq_keys w \<Longrightarrow> grows w (w\<lparr>blks := d\<rparr>)"
  by (rule grows_keeps) simp_all

lemma grows_create:
  assumes k: "mq_keys w" and c: "create_mq w ps = Some (m, w')"
  shows "grows w w'"
proof -
  have "\<exists>M. mqs w' = (mqs w)(m \<mapsto> M) \<and> mq_key M = (\<lambda>_. NULL) \<and> share_list M = create_link_list"
    using c by (auto simp: create_mq_def mq_calloc_def Let_def split: Option.bind_splits)
  then obtain M where M: "mqs w' = (mqs w)(m \<mapsto> M)" "mq_key M = (\<lambda>_. NULL)" "share_list M = create_link_list" by blast
  have w': "mq_brk w' = mq_brk w + 80" "m = mq_brk w" "pts w' = pts w" "msgs w' = msgs w"
    using c by (auto simp: create_mq_def mq_calloc_def Let_def split: Option.bind_splits)
  have m: "m \<notin> dom (mqs w)" using mq_keysD(3) [OF k] w'(2) by auto
  then have key: "key w' = key w" using M by (auto simp: key_def fun_eq_iff split: option.splits)
  have "dom (pts w') \<subseteq> {0<..<mq_brk w'}" "dom (mqs w') \<subseteq> {..<mq_brk w'}" "0 < mq_brk w'"
  proof -
    show "0 < mq_brk w'" using mq_keysD(1) [OF k] w'(1) by simp
    show "dom (pts w') \<subseteq> {0<..<mq_brk w'}" using mq_keysD(2) [OF k] unfolding w'(1,3) by fastforce
    have d: "dom (mqs w') = insert (mq_brk w) (dom (mqs w))" unfolding M(1) w'(2) by simp
    have "x < mq_brk w + 80" if "x \<in> insert (mq_brk w) (dom (mqs w))" for x
      using that mq_keysD(3) [OF k] by (cases "x = mq_brk w") (simp, fastforce)
    then show "dom (mqs w') \<subseteq> {..<mq_brk w'}" unfolding d w'(1) by blast
  qed
  then have "mq_keys w'" using mq_keysD(4,5) [OF k] w'(3) unfolding mq_keys_def key by metis
  moreover have "is_qid w' i \<longleftrightarrow> is_qid w i \<or> i = Sh m" for i using key M(1) by (cases i) auto
  moreover have "q_hdr w' o' i = (if i = Sh m then create_link_list else q_hdr w o' i)" for i o'
    using key M w' by (cases i) auto
  moreover have "\<not> is_qid w (Sh m)" using m by simp
  ultimately show ?thesis using key w'(4) by (auto simp: grows_def)
qed

lemma grows_thread_pts:
  assumes k: "mq_keys w" and c: "thread_pts w t m = Some (p, w')"
  shows "grows w w'" and "p = key w' m t" and "p \<noteq> NULL"
proof -
  obtain M where M: "mqs w m = Some M" using c by (auto simp: thread_pts_def split: Option.bind_splits)
  have "grows w w' \<and> p = key w' m t \<and> p \<noteq> NULL"
  proof (cases "mq_key M t = NULL")
    case False
    then show ?thesis using c M grows_refl [OF k] by (auto simp: thread_pts_def key_def)
  next
    case True
    have "\<exists>l. mqs w' = (mqs w)(m \<mapsto> M\<lparr>local_lists := l, mq_key := (mq_key M)(t := p)\<rparr>)"
      using c M True by (auto simp: thread_pts_def per_thread_create_def mq_calloc_def Let_def split: Option.bind_splits)
    then obtain l where M': "mqs w' = (mqs w)(m \<mapsto> M\<lparr>local_lists := l, mq_key := (mq_key M)(t := p)\<rparr>)" by blast
    have w': "mq_brk w' = mq_brk w + 56" "p = mq_brk w" "msgs w' = msgs w"
      "pts w' = (pts w)(p \<mapsto> \<lparr>local_push_q = create_link_list, local_pop_q = create_link_list,
         pt_cond = condition_create, is_associate = 0\<rparr>)"
      using c M True by (auto simp: thread_pts_def per_thread_create_def mq_calloc_def Let_def split: Option.bind_splits)
    have p: "p \<noteq> NULL" "p \<notin> dom (pts w)" using mq_keysD(1,2) [OF k] w'(2) by auto
    have key: "key w' = upd2 (key w) m t p" using M' M by (auto simp: key_def fun_eq_iff split: option.splits)
    have k0: "key w m t = NULL" using M True by (simp add: key_def)
    have fresh: "key w m' t' \<noteq> p" for m' t' using mq_keysD(4) [OF k, of m' t'] p by auto
    have "dom (pts w') \<subseteq> {0<..<mq_brk w'}" "dom (mqs w') \<subseteq> {..<mq_brk w'}" "0 < mq_brk w'"
      using mq_keysD(1-3) [OF k] w'(1,2,4) M' M by (auto simp: subset_iff)
    moreover have "key w' m1 t1 \<in> dom (pts w')" if "key w' m1 t1 \<noteq> NULL" for m1 t1
      using mq_keysD(4) [OF k, of m1 t1] that key w'(4) by auto
    moreover have "m1 = m2 \<and> t1 = t2" if "key w' m1 t1 \<noteq> NULL" "key w' m1 t1 = key w' m2 t2" for m1 t1 m2 t2
      using mq_keysD(5) [OF k, of m1 t1 m2 t2] that key fresh [of m1 t1] fresh [of m2 t2] by (auto split: if_splits)
    ultimately have "mq_keys w'" unfolding mq_keys_def by blast
    moreover have "is_qid w' i \<longleftrightarrow> is_qid w i \<or> i = Pu m t \<or> i = Po m t" for i using key M' M p(1) by (cases i) auto
    moreover have "q_hdr w' o' i = (if i = Pu m t \<or> i = Po m t then create_link_list else q_hdr w o' i)" for i o'
      using key w'(4) M' M fresh by (cases i) auto
    moreover have "\<not> is_qid w (Pu m t)" "\<not> is_qid w (Po m t)" using k0 by simp_all
    ultimately show ?thesis using key p(1) k0 w'(3) by (auto simp: grows_def)
  qed
  then show "grows w w'" "p = key w' m t" "p \<noteq> NULL" by simp_all
qed

lemma grows_thread_tmq:
  assumes k: "mq_keys w" and c: "thread_tmq w t = Some (q, w')"
  shows "grows w w'" and "pts w' = pts w"
proof -
  have "mqs w' = mqs w \<and> pts w' = pts w \<and> mq_brk w \<le> mq_brk w' \<and> msgs w' = msgs w"
    using c by (auto simp: thread_tmq_def mq_calloc_def Let_def split: Option.bind_splits if_splits)
  then show "grows w w'" "pts w' = pts w" by (auto simp: key_def fun_eq_iff intro!: grows_keeps [OF k])
qed

lemma grows_associate:
  assumes k: "mq_keys w" and c: "mq_associate w t m p = Some w'"
  shows "grows w w'"
proof -
  obtain P where P: "pts w p = Some P" using c by (auto simp: mq_associate_def split: Option.bind_splits)
  show ?thesis
  proof (cases "is_associate P = 0")
    case False
    then show ?thesis using c P grows_refl [OF k] by (simp add: mq_associate_def)
  next
    case True
    obtain q w1 where 1: "thread_tmq w t = Some (q, w1)"
      using c P True by (auto simp: mq_associate_def split: Option.bind_splits)
    note g = grows_thread_tmq [OF k 1]
    have k1: "mq_keys w1" using g by (simp add: grows_def)
    have "mqs w' = mqs w1 \<and> pts w' = (pts w)(p \<mapsto> P\<lparr>is_associate := 1\<rparr>) \<and> mq_brk w1 \<le> mq_brk w' \<and> msgs w' = msgs w1"
      using c P True 1 g(2) by (auto simp: mq_associate_def mq_calloc_def Let_def split: Option.bind_splits)
    then have s: "mqs w' = mqs w1" "pts w' = (pts w)(p \<mapsto> P\<lparr>is_associate := 1\<rparr>)" "mq_brk w1 \<le> mq_brk w'" "msgs w' = msgs w1" by simp_all
    have "grows w1 w'"
      by (rule grows_keeps [OF k1]) (use s g(2) P in \<open>auto simp: key_def fun_eq_iff dom_def\<close>)
    with g show ?thesis by (blast intro: grows_trans)
  qed
qed

section \<open>Moving messages\<close>

lemma mq_repD:
  assumes "mq_rep w o' g"
  shows "ll.family (msgs w) (Collect (is_qid w)) (q_hdr w o') (q_list g)" "\<not> is_qid w i \<Longrightarrow> q_list g i = []"
    "a \<in> held g \<Longrightarrow> ll_free (msgs w) a" "a \<in> held g \<Longrightarrow> a \<notin> set (q_list g i)"
    "finite (dom (msgs w))" "card (dom (msgs w)) < 2 ^ 31"
  using assms by (auto simp: mq_rep_def)

lemma rep_upd:
  assumes r: "mq_rep w o' g" and f: "ll.family h (Collect (is_qid w)) q' xs'" and d: "dom h = dom (msgs w)" and w': "msgs w' = h"
    and ids: "\<And>i. is_qid w' i = is_qid w i"
    and new: "\<And>i. is_qid w i \<Longrightarrow> q_hdr w' o'' i = q' i" "\<And>i. is_qid w i \<Longrightarrow> q_list g' i = xs' i"
      "\<And>i. \<not> is_qid w i \<Longrightarrow> q_list g' i = q_list g i"
    and h: "\<And>a. a \<in> held g' \<Longrightarrow> ll_free h a" "\<And>a i. a \<in> held g' \<Longrightarrow> is_qid w i \<Longrightarrow> a \<notin> set (xs' i)"
  shows "mq_rep w' o'' g'"
proof -
  have "Collect (is_qid w') = Collect (is_qid w)" using ids by auto
  then have "ll.family (msgs w') (Collect (is_qid w')) (q_hdr w' o'') (q_list g')"
    using w' new(1,2) by (auto intro: ll.family_cong [OF f])
  moreover have "a \<notin> set (q_list g' i)" if "a \<in> held g'" for a i
    using h(2) [OF that, of i] new(2,3) [of i] mq_repD(2) [OF r, of i] by (cases "is_qid w i") auto
  moreover have "q_list g' i = []" if "\<not> is_qid w' i" for i using that ids new(3) mq_repD(2) [OF r, of i] by simp
  ultimately show ?thesis using r d w' h(1) unfolding mq_rep_def by simp
qed

lemma rep_in:
  assumes r: "mq_rep w o' g" and i: "is_qid w i"
  shows "set (q_list g i) \<subseteq> dom (msgs w)" "distinct (q_list g i)"
proof -
  have "ll_repr (msgs w) (q_hdr w o' i) (q_list g i)" by (rule ll.family_repr [OF mq_repD(1) [OF r]]) (simp add: i)
  then show "set (q_list g i) \<subseteq> dom (msgs w)" "distinct (q_list g i)"
    by (auto simp: ll_repr_def dest: ll_seg_dom)
qed

lemma rep_room:
  assumes r: "mq_rep w o' g"
  shows "is_qid w i \<Longrightarrow> a \<in> held g \<Longrightarrow> Suc (length (q_list g i)) < 2 ^ 31"
    and "is_qid w i \<Longrightarrow> is_qid w j \<Longrightarrow> i \<noteq> j \<Longrightarrow> length (q_list g i) + length (q_list g j) < 2 ^ 31"
proof -
  note p = mq_repD [OF r]
  show "Suc (length (q_list g i)) < 2 ^ 31" if "is_qid w i" "a \<in> held g"
  proof -
    have "insert a (set (q_list g i)) \<subseteq> dom (msgs w)" using rep_in(1) [OF r that(1)] p(3) [OF that(2)] by (auto simp: ll_free_def)
    from card_mono [OF p(5) this] show ?thesis
      using p(6) p(4) [OF that(2), of i] distinct_card [OF rep_in(2) [OF r that(1)]] by simp
  qed
  show "length (q_list g i) + length (q_list g j) < 2 ^ 31" if "is_qid w i" "is_qid w j" "i \<noteq> j"
  proof -
    have d: "set (q_list g i) \<inter> set (q_list g j) = {}"
      using ll.family_disjoint [OF p(1), of i j] that by auto
    have "set (q_list g i) \<union> set (q_list g j) \<subseteq> dom (msgs w)" using rep_in(1) [OF r] that by blast
    from card_mono [OF p(5) this] show ?thesis
      using p(6) distinct_card [OF rep_in(2) [OF r that(1)]] distinct_card [OF rep_in(2) [OF r that(2)]] card_Un_disjoint [OF _ _ d]
      by simp
  qed
qed

text \<open>Changing the lists of one queue and of one thread's structure.\<close>

definition stored :: "mq_world \<Rightarrow> addr \<Rightarrow> mq \<Rightarrow> addr \<Rightarrow> per_thread_struct \<Rightarrow> mq_world \<Rightarrow> bool" where
  "stored w m M' p P' w' \<longleftrightarrow> mqs w' = (mqs w)(m \<mapsto> M') \<and> pts w' = (pts w)(p \<mapsto> P') \<and> mq_brk w' = mq_brk w \<and>
     mq_key M' = mq_key (the (mqs w m))"

lemma stored_hdr:
  assumes k: "mq_keys w" and p: "p = key w m t" "p \<noteq> NULL" and st: "stored w m M' p P' w'"
  shows "key w' = key w" and "mq_keys w'" and "is_qid w' i = is_qid w i"
    and "is_qid w i \<Longrightarrow> q_hdr w' o' i =
      ((q_hdr w o')(Sh m := share_list M', Pu m t := local_push_q P', Po m t := local_pop_q P')) i"
proof -
  have s: "mqs w' = (mqs w)(m \<mapsto> M')" "pts w' = (pts w)(p \<mapsto> P')" "mq_brk w' = mq_brk w" "mq_key M' = mq_key (the (mqs w m))"
    using st by (simp_all add: stored_def)
  have m: "m \<in> dom (mqs w)" using p by (auto simp: key_def split: option.splits)
  then show key: "key w' = key w" using s(1,4) by (auto simp: key_def fun_eq_iff split: option.splits)
  have d: "dom (mqs w') = dom (mqs w)" "dom (pts w') = dom (pts w)"
    using s(1,2) m mq_keysD(4) [OF k, of m t] p by auto
  show "mq_keys w'" using k unfolding mq_keys_def d key s(3) .
  show "is_qid w' i = is_qid w i" by (rule is_qid_cong [OF key d(1)])
  show "q_hdr w' o' i = ((q_hdr w o')(Sh m := share_list M', Pu m t := local_push_q P', Po m t := local_pop_q P')) i"
    if i: "is_qid w i"
  proof (cases i)
    case (Pu m' t')
    then show ?thesis using mq_keysD(5) [OF k, of m t m' t'] p i by (auto simp: key s(2))
  next
    case (Po m' t')
    then show ?thesis using mq_keysD(5) [OF k, of m t m' t'] p i by (auto simp: key s(2))
  qed (simp_all add: s(1))
qed

lemma key_mqs: "key w m t \<noteq> NULL \<Longrightarrow> m \<in> dom (mqs w)"
  by (auto simp: key_def split: option.splits)

text \<open>Pushing a message on the list of a thread.\<close>

lemma push_local_rep:
  assumes r: "mq_rep w o' g" and k: "mq_keys w" and p: "p = key w m t" "p \<noteq> NULL" "pts w p = Some P" and a: "a \<in> held g"
    and pu: "link_list_push_back (msgs w) (local_push_q P) a = Some (h, l)"
    and w': "w' = w\<lparr>msgs := h, pts := (pts w)(p \<mapsto> P\<lparr>local_push_q := l\<rparr>)\<rparr>"
  shows "mq_rep w' o' (spec_push g m t a)" and "mq_keys w'" and "key w' = key w"
proof -
  obtain M where M: "mqs w m = Some M" using key_mqs [of w m t] p by auto
  have st: "stored w m M p (P\<lparr>local_push_q := l\<rparr>) w'" using M w' by (auto simp: stored_def)
  note s = stored_hdr [OF k p(1,2) st]
  show "mq_keys w'" "key w' = key w" by (rule s)+
  let ?i = "Pu m t"
  have i: "is_qid w ?i" "q_hdr w o' ?i = local_push_q P" using p by simp_all
  note q = mq_repD [OF r]
  obtain h' l' where 1: "link_list_push_back (msgs w) (q_hdr w o' ?i) a = Some (h', l')"
    "ll.family h' (Collect (is_qid w)) ((q_hdr w o')(?i := l')) ((q_list g)(?i := q_list g ?i @ [a]))"
    "\<And>x. x \<notin> insert a (set (q_list g ?i)) \<union> {} \<Longrightarrow> h' x = msgs w x"
    by (rule ll.family_push [OF q(1), of ?i a]) (use i q(3,4) [OF a] rep_room(1) [OF r i(1) a] in \<open>auto simp: ll_room_def\<close>)
  have h: "h' = h" "l' = l" using 1(1) pu i(2) by simp_all
  have d: "dom h = dom (msgs w)" by (rule ll_push_dom(1) [OF pu])
  show "mq_rep w' o' (spec_push g m t a)"
  proof (rule rep_upd [OF r 1(2)])
    show "dom h' = dom (msgs w)" "msgs w' = h'" using d h w' by simp_all
    show "q_hdr w' o' i = ((q_hdr w o')(?i := l')) i" if "is_qid w i" for i
      using s(4) [OF that, of o'] M p h by (cases i) auto
    show "q_list (spec_push g m t a) i = ((q_list g)(?i := q_list g ?i @ [a])) i" for i by (cases i) (auto simp: spec_push_def)
    show "q_list (spec_push g m t a) i = q_list g i" if "\<not> is_qid w i" for i using that p by (cases i) (auto simp: spec_push_def)
    show "ll_free h' b" if "b \<in> held (spec_push g m t a)" for b
    proof -
      have "b \<in> held g" "b \<noteq> a" using that by (auto simp: spec_push_def)
      then show ?thesis using 1(3) [of b] q(3) [of b] q(4) [of b ?i] by (auto simp: ll_free_def)
    qed
    show "b \<notin> set (((q_list g)(?i := q_list g ?i @ [a])) i)" if "b \<in> held (spec_push g m t a)" for b i
      using that q(4) [of b i] by (auto simp: spec_push_def)
  qed (rule s(3))
qed

text \<open>Swapping a list onto another, and popping a message.\<close>

lemma swap_rep:
  assumes r: "mq_rep w o' g" and i: "is_qid w i" and j: "is_qid w j" "i \<noteq> j"
    and sw: "link_list_swap (msgs w) (q_hdr w o' i) (q_hdr w o' j) = Some (h, li, lj)"
    and w': "msgs w' = h" "\<And>x. is_qid w' x = is_qid w x"
    and hdr: "\<And>x. is_qid w x \<Longrightarrow> q_hdr w' o'' x = ((q_hdr w o')(i := li, j := lj)) x"
    and ls: "\<And>x. q_list g' x = ((q_list g)(i := q_list g i @ q_list g j, j := [])) x" and hl: "held g' = held g"
  shows "mq_rep w' o'' g'"
proof -
  note q = mq_repD [OF r]
  obtain h' qi qj where 1: "link_list_swap (msgs w) (q_hdr w o' i) (q_hdr w o' j) = Some (h', qi, qj)"
    "ll.family h' (Collect (is_qid w)) ((q_hdr w o')(i := qi, j := qj)) ((q_list g)(i := q_list g i @ q_list g j, j := []))"
    "\<And>m. m \<notin> set (q_list g i) \<Longrightarrow> h' m = msgs w m" "dom h' = dom (msgs w)"
    by (rule link_list_swap_family [OF q(1), of i j]) (use i j rep_room(2) [OF r i j] in auto)
  have e: "h' = h" "qi = li" "qj = lj" using 1(1) sw by simp_all
  show ?thesis
  proof (rule rep_upd [OF r 1(2,4)])
    show "q_list g' x = q_list g x" if "\<not> is_qid w x" for x using that i j ls [of x] by auto
    show "ll_free h' a" if "a \<in> held g'" for a
      using that q(3) [of a] q(4) [of a i] 1(3) [of a] hl by (auto simp: ll_free_def)
    show "a \<notin> set (((q_list g)(i := q_list g i @ q_list g j, j := [])) x)" if "a \<in> held g'" for a x
      using that q(4) [of a] hl by auto
  qed (use w' hdr ls e in auto)
qed

lemma pop_rep:
  assumes r: "mq_rep w o' g" and i: "is_qid w i"
    and po: "link_list_pop (msgs w) (q_hdr w o' i) = Some (a, h, l)"
    and w': "msgs w' = h" "\<And>x. is_qid w' x = is_qid w x"
    and hdr: "\<And>x. is_qid w x \<Longrightarrow> q_hdr w' o'' x = ((q_hdr w o')(i := l)) x"
    and ls: "a \<noteq> NULL \<Longrightarrow> q_list g' = (q_list g)(i := tl (q_list g i))" "a \<noteq> NULL \<Longrightarrow> held g' = insert a (held g)" "a = NULL \<Longrightarrow> g' = g"
  shows "mq_rep w' o'' g'" and "a = NULL \<and> q_list g i = [] \<or> a \<noteq> NULL \<and> q_list g i = a # tl (q_list g i)"
proof -
  note q = mq_repD [OF r]
  have rep: "ll_repr (msgs w) (q_hdr w o' i) (q_list g i)" by (rule ll.family_repr [OF q(1)]) (simp add: i)
  have "mq_rep w' o'' g' \<and> (a = NULL \<and> q_list g i = [] \<or> a \<noteq> NULL \<and> q_list g i = a # tl (q_list g i))"
  proof (cases "q_list g i")
    case Nil
    then have e: "a = NULL" "h = msgs w" "l = q_hdr w o' i" using link_list_pop_empty [of "msgs w" "q_hdr w o' i"] rep po by simp_all
    have "mq_rep w' o'' g'"
      by (rule rep_upd [OF r q(1)]) (use w' hdr ls(3) e q in auto)
    then show ?thesis using e Nil by simp
  next
    case (Cons b bs)
    have aN: "b \<noteq> NULL" using ll_repr_NULL [OF rep] Cons by auto
    obtain h' l' where 1: "link_list_pop (msgs w) (q_hdr w o' i) = Some (b, h', l')" "ll_free h' b"
      "ll.family h' (Collect (is_qid w)) ((q_hdr w o')(i := l')) ((q_list g)(i := bs))"
      "\<And>j. j \<in> Collect (is_qid w) \<Longrightarrow> b \<notin> set (((q_list g)(i := bs)) j) \<union> {}" "\<And>m. m \<notin> set (q_list g i) \<union> {} \<Longrightarrow> h' m = msgs w m"
      by (rule ll.family_pop [OF q(1), of i b bs]) (use i Cons in auto)
    have e: "a = b" "h' = h" "l' = l" using 1(1) po by simp_all
    have g': "q_list g' = (q_list g)(i := bs)" "held g' = insert b (held g)" using ls(1,2) aN e Cons by simp_all
    have "mq_rep w' o'' g'"
    proof (rule rep_upd [OF r 1(3)])
      show "dom h' = dom (msgs w)" by (rule ll_push_dom(3) [OF 1(1)])
      show "q_list g' x = q_list g x" if "\<not> is_qid w x" for x using that i g' by auto
      show "ll_free h' x" if "x \<in> held g'" for x
        using that q(3) [of x] q(4) [of x i] 1(2) 1(5) [of x] g' by (auto simp: ll_free_def)
      show "x \<notin> set (((q_list g)(i := bs)) y)" if "x \<in> held g'" "is_qid w y" for x y
        using that q(4) [of x y] 1(4) [of y] g' Cons by (cases "y = i") auto
    qed (use w' hdr g' e in auto)
    then show ?thesis using e aN Cons by simp
  qed
  then show "mq_rep w' o'' g'" "a = NULL \<and> q_list g i = [] \<or> a \<noteq> NULL \<and> q_list g i = a # tl (q_list g i)" by simp_all
qed

section \<open>The invariant\<close>

text \<open>The queue and the thread's structure a place in a call is about.\<close>

fun pc_pts :: "mq_pc \<Rightarrow> (addr \<times> addr) option" where
  "pc_pts (Sp_lock m p n) = Some (m, p)"
| "pc_pts (Sp_swap m p n) = Some (m, p)"
| "pc_pts (Pp_lock m p k b) = Some (m, p)"
| "pc_pts (Pp_test m p k b) = Some (m, p)"
| "pc_pts (Pp_loop m p k b) = Some (m, p)"
| "pc_pts (Pp_waiting m p k b ts) = Some (m, p)"
| "pc_pts (Pp_woken m p k b) = Some (m, p)"
| "pc_pts (Pp_swap m p b) = Some (m, p)"
| "pc_pts (Pp_unlock m p b) = Some (m, p)"
| "pc_pts (Pp_take m p b) = Some (m, p)"
| "pc_pts _ = None"

definition pc_ok :: "mq_world \<Rightarrow> nat \<Rightarrow> mq_pc \<Rightarrow> bool" where
  "pc_ok w t pc \<longleftrightarrow> (\<forall>m p. pc_pts pc = Some (m, p) \<longrightarrow> p = key w m t \<and> p \<noteq> NULL)"

definition mq_inv :: "mq_state \<Rightarrow> bool" where
  "mq_inv s \<longleftrightarrow> mq_keys (wd s) \<and> mq_rep (wd s) (own s) (sp s) \<and> mq_log (sp s) \<and> (\<forall>t. pc_ok (wd s) t (mq_at s t))"

lemma mq_goto_simps [simp]: "wd (mq_goto s t w p) = w" "own (mq_goto s t w p) = own s" "mq_ret (mq_goto s t w p) = mq_ret s"
  "sp (mq_goto s t w p) = sp s" "mq_at (mq_goto s t w p) = (mq_at s)(t := p)"
  by (simp_all add: mq_goto_def)

lemma mq_inv_ret [simp]: "mq_inv (s\<lparr>mq_ret := r\<rparr>) = mq_inv s"
  by (simp add: mq_inv_def)

lemma mq_invD:
  assumes "mq_inv s"
  shows "mq_keys (wd s)" "mq_rep (wd s) (own s) (sp s)" "mq_log (sp s)" "pc_ok (wd s) t (mq_at s t)"
  using assms by (simp_all add: mq_inv_def)

lemma grows_pc: "grows w w' \<Longrightarrow> pc_ok w t pc \<Longrightarrow> pc_ok w' t pc"
  by (auto simp: pc_ok_def grows_def)

lemma pc_okD: "pc_ok w t pc \<Longrightarrow> pc_pts pc = Some (m, p) \<Longrightarrow> p = key w m t \<and> p \<noteq> NULL"
  by (simp add: pc_ok_def)

lemma pc_ok_none: "pc_pts pc = None \<Longrightarrow> pc_ok w t pc"
  by (simp add: pc_ok_def)

lemma pc_ok_pts: "pc_ok w t pc \<Longrightarrow> pc_pts pc' = pc_pts pc \<Longrightarrow> pc_ok w t pc'"
  by (simp add: pc_ok_def)

text \<open>A step that moves no messages.\<close>

lemma mq_inv_goto:
  assumes i: "mq_inv s" and g: "grows (wd s) w" and p: "pc_ok w t p"
  shows "mq_inv (mq_goto s t w p)"
proof -
  have "mq_keys w" using g by (simp add: grows_def)
  then show ?thesis
    using rep_grows [OF mq_invD(2) [OF i] g] mq_invD(3) [OF i] grows_pc [OF g mq_invD(4) [OF i]] p by (simp add: mq_inv_def)
qed

text \<open>A step that moves messages: the keys stay.\<close>

lemma mq_inv_move:
  assumes i: "mq_inv s" and k: "mq_keys w" "key w = key (wd s)" and r: "mq_rep w o' g" and l: "mq_log g" and p: "pc_ok (wd s) t p"
    and s': "wd s' = w" "own s' = o'" "sp s' = g" "mq_at s' = (mq_at s)(t := p)"
  shows "mq_inv s'"
proof -
  have "pc_ok w u pc = pc_ok (wd s) u pc" for u pc using k(2) by (simp add: pc_ok_def)
  then show ?thesis using i k(1) r l p s' by (simp add: mq_inv_def)
qed

lemma mq_inv_new: "mq_inv s \<Longrightarrow> create_mq (wd s) ps = Some (m, w) \<Longrightarrow> mq_inv (s\<lparr>wd := w\<rparr>)"
  using grows_create [of "wd s" ps m w] rep_grows [of "wd s" "own s" "sp s" w] grows_pc [of "wd s" w]
  by (auto simp: mq_inv_def grows_def)

lemma mq_inv_wake: "mq_inv s \<Longrightarrow> mq_inv (s\<lparr>wd := pts_set_cond (wd s) p c, mq_ret := r\<rparr>)"
  using grows_set_cond [of "wd s" p c] rep_grows [of "wd s" "own s" "sp s" "pts_set_cond (wd s) p c"]
    grows_pc [of "wd s" "pts_set_cond (wd s) p c"]
  by (auto simp: mq_inv_def grows_def)

lemma mq_inv_flush: "mq_inv s \<Longrightarrow> mq_flush s t = Some s' \<Longrightarrow> mq_inv s'"
  by (auto simp: mq_flush_def Let_def intro!: mq_inv_goto grows_refl mq_invD(1) pc_ok_none split: if_splits Option.bind_splits)

lemma mq_inv_pop:
  assumes i: "mq_inv s" and s': "mq_pop s t m k b = Some s'"
  shows "mq_inv s'"
proof -
  obtain p w P where 1: "thread_pts (wd s) t m = Some (p, w)" "pts w p = Some P"
    "s' = mq_goto s t w (if link_list_is_empty (local_pop_q P) then Pp_lock m p k b else Pp_take m p b)"
    using s' by (auto simp: mq_pop_def split: Option.bind_splits)
  note g = grows_thread_pts [OF mq_invD(1) [OF i] 1(1)]
  show ?thesis unfolding 1(3) by (rule mq_inv_goto [OF i g(1)]) (use g in \<open>auto simp: pc_ok_def\<close>)
qed

lemma mq_inv_force_sync:
  assumes i: "mq_inv s" and s': "mq_force_sync s t = Some s'"
  shows "mq_inv s'"
proof -
  note g = grows_refl [OF mq_invD(1) [OF i]]
  have k: "key (wd s) m t = mq_key M t \<and> mq_key M t \<noteq> NULL" if "mqs (wd s) m = Some M" "pts (wd s) (mq_key M t) = Some P" for m M P
    using that mq_keysD(2) [OF mq_invD(1) [OF i]] by (fastforce simp: key_def)
  show ?thesis
    using s' k by (cases "mq_at s t")
      (auto simp: mq_force_sync_def Let_def pc_ok_def intro!: mq_inv_goto [OF i g] split: if_splits Option.bind_splits)
qed

lemma after_push_none [simp]: "pc_pts (after_push n) = None"
  by (simp add: after_push_def)

lemma mq_inv_push:
  assumes i: "mq_inv s" and a: "a \<in> held (sp s)" and s': "mq_push s t m a now = Some s'"
  shows "mq_inv s'"
proof -
  obtain p w P M where 1: "mq_push_local (wd s) t m a = Some (p, w)" "pts w p = Some P" "mqs w m = Some M"
    "s' = (mq_goto s t w (if now \<or> link_list_size (local_push_q P) \<ge> push_size M then Sp_lock m p NULL else Mq_outside))
       \<lparr>sp := spec_push (sp s) m t a\<rparr>"
    using s' by (auto simp: mq_push_def split: Option.bind_splits)
  obtain w1 w2 P2 h l where 2: "thread_pts (wd s) t m = Some (p, w1)" "mq_associate w1 t m p = Some w2" "pts w2 p = Some P2"
    "link_list_push_back (msgs w2) (local_push_q P2) a = Some (h, l)"
    "w = w2\<lparr>msgs := h, pts := (pts w2)(p \<mapsto> P2\<lparr>local_push_q := l\<rparr>)\<rparr>"
    using 1(1) by (auto simp: mq_push_local_def split: Option.bind_splits)
  note g1 = grows_thread_pts [OF mq_invD(1) [OF i] 2(1)]
  have k1: "mq_keys w1" using g1(1) by (simp add: grows_def)
  have g2: "grows w1 w2" by (rule grows_associate [OF k1 2(2)])
  have g: "grows (wd s) w2" by (rule grows_trans [OF g1(1) g2])
  have k2: "mq_keys w2" "p = key w2 m t" using g2 g1(2,3) by (simp_all add: grows_def)
  let ?s = "mq_goto s t w2 Mq_outside"
  have i2: "mq_inv ?s" by (rule mq_inv_goto [OF i g]) (simp add: pc_ok_def)
  note r = push_local_rep [OF rep_grows [OF mq_invD(2) [OF i] g] k2(1,2) g1(3) 2(3) a 2(4,5)]
  show ?thesis
    by (rule mq_inv_move [OF i2 r(2) _ r(1) mq_log_spec(1) [OF mq_invD(3) [OF i]], where p =
        "if now \<or> link_list_size (local_push_q P) \<ge> push_size M then Sp_lock m p NULL else Mq_outside"])
      (use r(3) k2 g1(3) in \<open>auto simp: 1(4) pc_ok_def\<close>)
qed

lemma pc_ok_same [simp]: "pc_ok (mq_set_mtx w m x) = pc_ok w" "pc_ok (pts_set_cond w p c) = pc_ok w" "pc_ok (w\<lparr>blks := d\<rparr>) = pc_ok w"
  by (simp_all add: pc_ok_def fun_eq_iff)

lemma mq_inv_sync_push:
  assumes i: "mq_inv s" and s': "mq_sync_push s t u = Some s'"
  shows "mq_inv s'"
proof (cases "mq_at s t")
  case (Sp_lock m p n)
  then show ?thesis using s' mq_invD(4) [OF i, of t]
    by (auto simp: mq_sync_push_def Let_def split: Option.bind_splits intro!: mq_inv_goto [OF i] grows_set_mtx mq_invD(1) [OF i]
        elim!: pc_ok_pts)
next
  case (Sp_swap m p n)
  note k = mq_invD(1) [OF i] and p = pc_okD [OF mq_invD(4) [OF i, of t], unfolded Sp_swap, OF pc_pts.simps(2)]
  obtain b w where 1: "sync_push_swap (wd s) m p = Some (b, w)"
    "s' = (mq_goto s t w (Sp_unlock m b n))\<lparr>sp := spec_share (sp s) m t\<rparr>"
    using s' Sp_swap by (auto simp: mq_sync_push_def Let_def split: Option.bind_splits)
  obtain M P h sh l where 2: "mqs (wd s) m = Some M" "pts (wd s) p = Some P"
    "link_list_swap (msgs (wd s)) (share_list M) (local_push_q P) = Some (h, sh, l)"
    using 1(1) by (auto simp: sync_push_swap_def split: Option.bind_splits)
  have w: "msgs w = h" "mqs w = (mqs (wd s))(m \<mapsto> M\<lparr>share_list := sh\<rparr>)" "pts w = (pts (wd s))(p \<mapsto> P\<lparr>local_push_q := l\<rparr>)"
    "mq_brk w = mq_brk (wd s)"
    using 1(1) 2 by (auto simp: sync_push_swap_def Let_def split: Option.bind_splits if_splits)
  have st: "stored (wd s) m (M\<lparr>share_list := sh\<rparr>) p (P\<lparr>local_push_q := l\<rparr>) w" using 2 w by (simp add: stored_def)
  note h = stored_hdr [OF k conjunct1 [OF p] conjunct2 [OF p] st]
  have pp: "key (wd s) m t = p" "p \<noteq> NULL" using p by simp_all
  have "mq_rep w (own s) (spec_share (sp s) m t)"
  proof (rule swap_rep [OF mq_invD(2) [OF i], of "Sh m" "Pu m t"])
    show "q_hdr w (own s) x = ((q_hdr (wd s) (own s))(Sh m := sh, Pu m t := l)) x" if "is_qid (wd s) x" for x
      using h(4) [OF that, of "own s"] 2(2) pp by (cases x) auto
    show "q_list (spec_share (sp s) m t) x = ((q_list (sp s))(Sh m := q_list (sp s) (Sh m) @ q_list (sp s) (Pu m t), Pu m t := [])) x" for x
      by (cases x) (auto simp: spec_share_def o_def)
  qed (use 2 w pp h(3) in \<open>auto simp: spec_share_def\<close>)
  then show ?thesis
    by (rule mq_inv_move [OF i h(2,1) _ mq_log_spec(2) [OF mq_invD(3) [OF i]], where p = "Sp_unlock m b n"])
      (auto simp: 1(2) pc_ok_def)
next
  case (Sp_unlock m b n)
  then show ?thesis using s'
    by (auto simp: mq_sync_push_def Let_def split: Option.bind_splits intro!: mq_inv_goto [OF i] grows_set_mtx mq_invD(1) [OF i] pc_ok_none)
next
  case (Sp_signal b n)
  then show ?thesis using s'
    by (auto simp: mq_sync_push_def Let_def split: Option.bind_splits intro!: mq_inv_goto [OF i] grows_set_cond mq_invD(1) [OF i] pc_ok_none)
qed (use s' in \<open>simp_all add: mq_sync_push_def\<close>)

lemma mq_inv_sync_pop:
  assumes i: "mq_inv s" and s': "mq_sync_pop s t now = Some s'"
  shows "mq_inv s'"
proof (cases "mq_at s t")
  case (Pp_swap m p b)
  note k = mq_invD(1) [OF i] and p = pc_okD [OF mq_invD(4) [OF i, of t], unfolded Pp_swap, OF pc_pts.simps(8)]
  obtain w where 1: "sync_pop_swap (wd s) m p = Some w"
    "s' = (mq_goto s t w (Pp_unlock m p b))\<lparr>sp := spec_receive (sp s) m t\<rparr>"
    using s' Pp_swap by (auto simp: mq_sync_pop_def Let_def split: Option.bind_splits)
  obtain M P h sh l where 2: "mqs (wd s) m = Some M" "pts (wd s) p = Some P"
    "link_list_swap (msgs (wd s)) (local_pop_q P) (share_list M) = Some (h, l, sh)"
    using 1(1) by (auto simp: sync_pop_swap_def split: Option.bind_splits)
  have w: "msgs w = h" "mqs w = (mqs (wd s))(m \<mapsto> M\<lparr>share_list := sh\<rparr>)" "pts w = (pts (wd s))(p \<mapsto> P\<lparr>local_pop_q := l\<rparr>)"
    "mq_brk w = mq_brk (wd s)"
    using 1(1) 2 by (auto simp: sync_pop_swap_def Let_def split: Option.bind_splits if_splits)
  have st: "stored (wd s) m (M\<lparr>share_list := sh\<rparr>) p (P\<lparr>local_pop_q := l\<rparr>) w" using 2 w by (simp add: stored_def)
  note h = stored_hdr [OF k conjunct1 [OF p] conjunct2 [OF p] st]
  have pp: "key (wd s) m t = p" "p \<noteq> NULL" using p by simp_all
  have "mq_rep w (own s) (spec_receive (sp s) m t)"
  proof (rule swap_rep [OF mq_invD(2) [OF i], of "Po m t" "Sh m"])
    show "q_hdr w (own s) x = ((q_hdr (wd s) (own s))(Po m t := l, Sh m := sh)) x" if "is_qid (wd s) x" for x
      using h(4) [OF that, of "own s"] 2(2) pp by (cases x) auto
    show "q_list (spec_receive (sp s) m t) x = ((q_list (sp s))(Po m t := q_list (sp s) (Po m t) @ q_list (sp s) (Sh m), Sh m := [])) x" for x
      by (cases x) (auto simp: spec_receive_def)
  qed (use 2 w pp h(3) in \<open>auto simp: spec_receive_def\<close>)
  then show ?thesis
    by (rule mq_inv_move [OF i h(2,1) _ mq_log_spec(3) [OF mq_invD(3) [OF i]], where p = "Pp_unlock m p b"])
      (use p in \<open>auto simp: 1(2) pc_ok_def\<close>)
next
  case (Pp_loop m p k b)
  note ok = mq_invD(4) [OF i, of t, unfolded Pp_loop]
  obtain M P where 1: "mqs (wd s) m = Some M" "pts (wd s) p = Some P"
    using s' Pp_loop by (auto simp: mq_sync_pop_def Let_def split: Option.bind_splits)
  show ?thesis
  proof (cases "link_list_is_empty (share_list M)")
    case True
    obtain d c x ts where "s' = mq_goto s t (pts_set_cond (mq_set_mtx (wd s\<lparr>blks := d\<rparr>) m x) p c) (Pp_waiting m p k b ts)"
      using s' Pp_loop 1 True by (auto simp: mq_sync_pop_def Let_def split: Option.bind_splits prod.splits)
    moreover have "grows (wd s) (pts_set_cond (mq_set_mtx (wd s\<lparr>blks := d\<rparr>) m x) p c)"
    proof -
      have g: "grows (wd s) (wd s\<lparr>blks := d\<rparr>)" by (rule grows_blks [OF mq_invD(1) [OF i]])
      then have "mq_keys (wd s\<lparr>blks := d\<rparr>)" by (simp add: grows_def)
      then have g': "grows (wd s\<lparr>blks := d\<rparr>) (mq_set_mtx (wd s\<lparr>blks := d\<rparr>) m x)" by (rule grows_set_mtx)
      then have "mq_keys (mq_set_mtx (wd s\<lparr>blks := d\<rparr>) m x)" by (simp add: grows_def)
      from grows_trans [OF grows_trans [OF g g'] grows_set_cond [OF this]] show ?thesis .
    qed
    ultimately show ?thesis using ok by (auto intro!: mq_inv_goto [OF i] elim!: pc_ok_pts)
  next
    case False
    then have "s' = mq_goto s t (wd s) (Pp_swap m p b)" using s' Pp_loop 1 by (simp add: mq_sync_pop_def Let_def)
    then show ?thesis using ok by (auto intro!: mq_inv_goto [OF i] grows_refl mq_invD(1) [OF i] elim!: pc_ok_pts)
  qed
next
  case (Pp_lock m p k b)
  then show ?thesis using s' mq_invD(4) [OF i, of t]
    by (auto simp: mq_sync_pop_def Let_def split: Option.bind_splits intro!: mq_inv_goto [OF i] grows_set_mtx mq_invD(1) [OF i]
        elim!: pc_ok_pts)
next
  case (Pp_test m p k b)
  then show ?thesis using s' mq_invD(4) [OF i, of t]
    by (auto simp: mq_sync_pop_def Let_def split: Option.bind_splits if_splits intro!: mq_inv_goto [OF i] grows_refl mq_invD(1) [OF i]
        elim!: pc_ok_pts)
next
  case (Pp_waiting m p k b ts)
  then show ?thesis using s' mq_invD(4) [OF i, of t]
    by (auto simp: mq_sync_pop_def Let_def split: Option.bind_splits prod.splits intro!: mq_inv_goto [OF i] grows_set_mtx mq_invD(1) [OF i]
        elim!: pc_ok_pts)
next
  case (Pp_woken m p k b)
  then show ?thesis using s' mq_invD(4) [OF i, of t]
    by (auto simp: mq_sync_pop_def Let_def split: Option.bind_splits if_splits intro!: mq_inv_goto [OF i] grows_refl grows_blks mq_invD(1) [OF i]
        elim!: pc_ok_pts)
next
  case (Pp_unlock m p b)
  then show ?thesis using s' mq_invD(4) [OF i, of t]
    by (auto simp: mq_sync_pop_def Let_def split: Option.bind_splits intro!: mq_inv_goto [OF i] grows_set_mtx mq_invD(1) [OF i]
        elim!: pc_ok_pts)
qed (use s' in \<open>simp_all add: mq_sync_pop_def\<close>)

text \<open>The queue and structure at the end of a call.\<close>

lemma mq_inv_pop_take:
  assumes i: "mq_inv s" and s': "mq_pop_take s t = Some (a, s')"
  shows "mq_inv s'"
proof (cases "mq_at s t")
  case (Pp_take m p b)
  note k = mq_invD(1) [OF i] and p = pc_okD [OF mq_invD(4) [OF i, of t], unfolded Pp_take, OF pc_pts.simps(10)]
  obtain P h l w where 1: "\<not> b" "pts (wd s) p = Some P" "link_list_pop (msgs (wd s)) (local_pop_q P) = Some (a, h, l)"
    "w = (wd s)\<lparr>msgs := h, pts := (pts (wd s))(p \<mapsto> P\<lparr>local_pop_q := l\<rparr>)\<rparr>"
    "s' = (if a = NULL then mq_goto s t w Mq_outside else (mq_goto s t w Mq_outside)\<lparr>sp := spec_pop (sp s) m t a\<rparr>)"
    using s' Pp_take by (auto simp: mq_pop_take_def Let_def split: Option.bind_splits bool.splits)
  have pp: "key (wd s) m t = p" "p \<noteq> NULL" using p by simp_all
  obtain M where M: "mqs (wd s) m = Some M" using key_mqs [of "wd s" m t] pp by auto
  have st: "stored (wd s) m M p (P\<lparr>local_pop_q := l\<rparr>) w" using M 1(4) by (auto simp: stored_def)
  note h = stored_hdr [OF k conjunct1 [OF p] conjunct2 [OF p] st]
  let ?g = "if a = NULL then sp s else spec_pop (sp s) m t a"
  have po: "link_list_pop (msgs (wd s)) (q_hdr (wd s) (own s) (Po m t)) = Some (a, h, l)" using 1(2,3) pp by simp
  have hdr: "q_hdr w (own s) x = ((q_hdr (wd s) (own s))(Po m t := l)) x" if "is_qid (wd s) x" for x
    using h(4) [OF that, of "own s"] 1(2) M pp by (cases x) auto
  have ls: "q_list ?g = (q_list (sp s))(Po m t := tl (q_list (sp s) (Po m t)))" "held ?g = insert a (held (sp s))" if "a \<noteq> NULL"
  proof
    show "q_list ?g x = ((q_list (sp s))(Po m t := tl (q_list (sp s) (Po m t)))) x" for x
      using that by (cases x) (auto simp: spec_pop_def)
  qed (use that in \<open>simp add: spec_pop_def\<close>)
  have r: "mq_rep w (own s) ?g" and l: "a = NULL \<and> recv (sp s) m t = [] \<or> a \<noteq> NULL \<and> recv (sp s) m t = a # tl (recv (sp s) m t)"
    using pop_rep [OF mq_invD(2) [OF i] _ po _ h(3) hdr ls] 1(4) pp by auto
  have "mq_log ?g" using mq_log_spec(4) [OF mq_invD(3) [OF i]] mq_invD(3) [OF i] l by (auto split: if_splits)
  from mq_inv_move [OF i h(2,1) r this, of t Mq_outside s'] show ?thesis by (simp add: 1(5) pc_ok_def)
qed (use s' in \<open>simp_all add: mq_pop_take_def\<close>)

lemma mq_inv_push_list_take:
  assumes i: "mq_inv s" and s': "mq_push_list_take s t = Some s'"
  shows "mq_inv s'"
proof (cases "mq_at s t")
  case (Pp_take m p b)
  note k = mq_invD(1) [OF i] and p = pc_okD [OF mq_invD(4) [OF i, of t], unfolded Pp_take, OF pc_pts.simps(10)]
  obtain P h l w l' where 1: "b" "pts (wd s) p = Some P" "link_list_swap (msgs (wd s)) (own s t) (local_pop_q P) = Some (h, l', l)"
    "w = (wd s)\<lparr>msgs := h, pts := (pts (wd s))(p \<mapsto> P\<lparr>local_pop_q := l\<rparr>)\<rparr>"
    "s' = (mq_goto s t w Mq_outside)\<lparr>own := (own s)(t := l'), sp := spec_pop_list (sp s) m t\<rparr>"
    using s' Pp_take by (auto simp: mq_push_list_take_def Let_def split: Option.bind_splits bool.splits)
  have pp: "key (wd s) m t = p" "p \<noteq> NULL" using p by simp_all
  obtain M where M: "mqs (wd s) m = Some M" using key_mqs [of "wd s" m t] pp by auto
  have st: "stored (wd s) m M p (P\<lparr>local_pop_q := l\<rparr>) w" using M 1(4) by (auto simp: stored_def)
  note h = stored_hdr [OF k conjunct1 [OF p] conjunct2 [OF p] st]
  have "mq_rep w ((own s)(t := l')) (spec_pop_list (sp s) m t)"
  proof (rule swap_rep [OF mq_invD(2) [OF i], of "Ow t" "Po m t"])
    show "q_hdr w ((own s)(t := l')) x = ((q_hdr (wd s) (own s))(Ow t := l', Po m t := l)) x" if "is_qid (wd s) x" for x
      using h(4) [OF that, of "(own s)(t := l')"] 1(2) M pp by (cases x) auto
    show "q_list (spec_pop_list (sp s) m t) x = ((q_list (sp s))(Ow t := q_list (sp s) (Ow t) @ q_list (sp s) (Po m t), Po m t := [])) x" for x
      by (cases x) (auto simp: spec_pop_list_def)
  qed (use 1 pp h(3) in \<open>auto simp: spec_pop_list_def\<close>)
  then show ?thesis
    by (rule mq_inv_move [OF i h(2,1) _ mq_log_spec(5) [OF mq_invD(3) [OF i]], where p = Mq_outside])
      (auto simp: 1(5) pc_ok_def)
qed (use s' in \<open>simp_all add: mq_push_list_take_def\<close>)

lemma mq_keys_msgs: "mq_keys (w\<lparr>msgs := h\<rparr>) = mq_keys w"
proof -
  have "mq_brk (w\<lparr>msgs := h\<rparr>) = mq_brk w" "pts (w\<lparr>msgs := h\<rparr>) = pts w" "mqs (w\<lparr>msgs := h\<rparr>) = mqs w" by simp_all
  then show ?thesis unfolding mq_keys_def key_same by (simp only:)
qed

lemma mq_inv_own_take:
  assumes i: "mq_inv s" and po: "link_list_pop (msgs (wd s)) (own s t) = Some (a, h, l)" and a: "a \<noteq> NULL"
  shows "mq_inv (s\<lparr>wd := (wd s)\<lparr>msgs := h\<rparr>, own := (own s)(t := l), sp := spec_take (sp s) t a\<rparr>)"
proof -
  let ?w = "(wd s)\<lparr>msgs := h\<rparr>"
  have kk: "mq_keys ?w" using mq_invD(1) [OF i] by (simp only: mq_keys_msgs)
  have q: "is_qid ?w x = is_qid (wd s) x" for x by (rule is_qid_cong) simp_all
  have "mq_rep ?w ((own s)(t := l)) (spec_take (sp s) t a)"
  proof (rule pop_rep(1) [OF mq_invD(2) [OF i], of "Ow t"])
    show "q_hdr ?w ((own s)(t := l)) x = ((q_hdr (wd s) (own s))(Ow t := l)) x" for x by (cases x) auto
    show "q_list (spec_take (sp s) t a) = (q_list (sp s))(Ow t := tl (q_list (sp s) (Ow t)))"
    proof
      show "q_list (spec_take (sp s) t a) x = ((q_list (sp s))(Ow t := tl (q_list (sp s) (Ow t)))) x" for x
        by (cases x) (auto simp: spec_take_def)
    qed
  qed (use po a q in \<open>auto simp: spec_take_def\<close>)
  then show ?thesis
    by (rule mq_inv_move [OF i kk key_same(1) _ mq_log_spec(6) [OF mq_invD(3) [OF i]] mq_invD(4) [OF i, of t], where o' = "(own s)(t := l)"]) simp_all
qed

lemma mq_inv_step:
  assumes i: "mq_inv s" and st: "mq_step s s'"
  shows "mq_inv s'"
  using st
proof cases
  case mq_new
  then show ?thesis using mq_inv_new [OF i] by simp
next
  case mq_call_push
  then show ?thesis using mq_inv_push [OF i] by blast
next
  case mq_call_pop
  then show ?thesis using mq_inv_pop [OF i] by blast
next
  case mq_call_flush
  then show ?thesis using mq_inv_flush [OF i] by blast
next
  case mq_own_take
  then show ?thesis using mq_inv_own_take [OF i] by simp
next
  case mq_wake
  then show ?thesis using mq_inv_wake [OF i] by simp
qed (use mq_inv_sync_push mq_inv_sync_pop mq_inv_pop_take mq_inv_push_list_take mq_inv_force_sync i in blast)+

text \<open>The program starts with the messages at the addresses as, all its own, and no queue.\<close>

definition mq_start :: "addr list \<Rightarrow> addr \<Rightarrow> mq_state" where
  "mq_start as b =
     \<lparr>wd = init_mq_system (map_of (map (\<lambda>a. (a, NULL)) as)) b, own = \<lambda>_. create_link_list, mq_at = \<lambda>_. Mq_outside,
      mq_ret = \<lambda>_. 0,
      sp = \<lparr>pend = \<lambda>_ _. [], tags = \<lambda>_. [], recv = \<lambda>_ _. [], log = \<lambda>_. [], pushed = \<lambda>_ _. [], popped = \<lambda>_ _. [],
            taken = \<lambda>_. [], held = set as\<rparr>\<rparr>"

lemma mq_inv_start:
  assumes "NULL \<notin> set as" and "length as < 2 ^ 31" and "0 < b"
  shows "mq_inv (mq_start as b)"
proof -
  let ?h = "map_of (map (\<lambda>a. (a, NULL)) as)"
  have h: "?h a = (if a \<in> set as then Some NULL else None)" for a by (induction as) auto
  then have d: "dom ?h = set as" by (auto split: if_splits)
  have "card (set as) < 2 ^ 31" using card_length [of as] assms(2) by linarith
  moreover have q: "q_list (sp (mq_start as b)) i = []" for i by (cases i) (simp_all add: mq_start_def)
  moreover have "ll_repr hh (q_hdr (wd (mq_start as b)) (own (mq_start as b)) i) []" if "is_qid (wd (mq_start as b)) i" for i hh
    using that ll_repr_new by (cases i) (auto simp: mq_start_def init_mq_system_def key_def)
  ultimately have "mq_rep (wd (mq_start as b)) (own (mq_start as b)) (sp (mq_start as b))"
    using h d assms(1) unfolding mq_rep_def ll.family_def
    by (auto simp: q) (auto simp: mq_start_def init_mq_system_def ll_free_def)
  moreover have "mq_keys (wd (mq_start as b))" using assms(3) by (simp add: mq_keys_def mq_start_def init_mq_system_def key_def)
  ultimately show ?thesis by (simp add: mq_inv_def) (simp add: mq_log_def pc_ok_def mq_start_def)
qed

interpretation mq: invariant_system "mq_start as b" mq_step
    "\<lambda>s. NULL \<notin> set as \<and> length as < 2 ^ 31 \<and> 0 < b \<longrightarrow> mq_inv s" for as b
  by unfold_locales (auto intro: mq_inv_start mq_inv_step)

section \<open>Schedules\<close>

datatype mq_action = Do_new u32 | Do_push nat addr addr bool | Do_pop nat addr u32 bool | Do_flush nat | Do_step nat | Do_signal nat nat | Do_wake nat addr

definition mq_act :: "mq_state \<Rightarrow> mq_action \<Rightarrow> mq_state option" where
  "mq_act s a = (case a of
     Do_new ps \<Rightarrow> map_option (\<lambda>(m, w). s\<lparr>wd := w\<rparr>) (create_mq (wd s) ps)
   | Do_push t m msg now \<Rightarrow> if mq_at s t = Mq_outside \<and> msg \<in> held (sp s) then mq_push s t m msg now else None
   | Do_pop t m k out \<Rightarrow> if mq_at s t = Mq_outside then mq_pop s t m k out else None
   | Do_flush t \<Rightarrow> if mq_at s t = Mq_outside then mq_flush s t else None
   | Do_step t \<Rightarrow>
       (case mq_sync_push s t t of Some s' \<Rightarrow> Some s'
        | None \<Rightarrow> (case mq_sync_pop s t (0, 0) of Some s' \<Rightarrow> Some s'
          | None \<Rightarrow> (case mq_pop_take s t of Some (a, s') \<Rightarrow> Some s'
            | None \<Rightarrow> (case mq_push_list_take s t of Some s' \<Rightarrow> Some s' | None \<Rightarrow> mq_force_sync s t))))
   | Do_signal t u \<Rightarrow> mq_sync_push s t u
   | Do_wake t p \<Rightarrow>
       (case pts (wd s) p of None \<Rightarrow> None
        | Some P \<Rightarrow> if t \<in> waiting (pt_cond P)
                    then Some (s\<lparr>wd := pts_set_cond (wd s) p (condition_wake (pt_cond P) t), mq_ret := (mq_ret s)(t := 0)\<rparr>)
                    else None))"

text \<open>The thread that takes the step.\<close>

primrec actors :: "mq_action \<Rightarrow> nat set" where
  "actors (Do_new ps) = {}"
| "actors (Do_push t m msg now) = {t}"
| "actors (Do_pop t m k out) = {t}"
| "actors (Do_flush t) = {t}"
| "actors (Do_step t) = {t}"
| "actors (Do_signal t u) = {t}"
| "actors (Do_wake t p) = {}"

primrec mq_sched :: "mq_state \<Rightarrow> mq_action list \<Rightarrow> mq_state option" where
  "mq_sched s [] = Some s"
| "mq_sched s (a # as) = do { s \<leftarrow> mq_act s a; mq_sched s as }"

lemma mq_act_step: "mq_act s a = Some s' \<Longrightarrow> 0 \<notin> actors a \<Longrightarrow> mq_step s s'"
  by (cases a) (auto simp: mq_act_def split: if_splits option.splits prod.splits intro: mq_step.intros)

lemma mq_act_at: "mq_act s a = Some s' \<Longrightarrow> t \<notin> actors a \<Longrightarrow> mq_at s' t = mq_at s t"
  by (cases a) (auto simp: mq_act_def mq_push_def mq_pop_def mq_flush_def mq_sync_push_def mq_sync_pop_def mq_pop_take_def
      mq_push_list_take_def mq_force_sync_def Let_def split: if_splits option.splits prod.splits Option.bind_splits mq_pc.splits bool.splits)

text \<open>Two threads wait; a message is pushed, and the signal is meant for the first of them, but the
  second wakes by itself, takes the message and leaves its block node on the list.\<close>

definition lost_wakeup :: "mq_action list" where
  "lost_wakeup =
     [Do_new 4, Do_pop 1 1 10 False, Do_step 1, Do_step 1, Do_step 1, Do_pop 2 1 10 False, Do_step 2, Do_step 2, Do_step 2,
      Do_push 3 1 1000 True, Do_step 3, Do_step 3, Do_step 3, Do_signal 3 1,
      Do_wake 2 137, Do_step 2, Do_step 2, Do_step 2, Do_step 2, Do_step 2, Do_step 2,
      Do_step 1, Do_step 1, Do_step 1,
      Do_push 3 1 1100 True, Do_step 3, Do_step 3, Do_step 3, Do_step 3]"

lemmas mq_exec = list_ops sync_ops mq_act_def mq_start_def init_mq_system_def create_mq_def mq_calloc_def Let_def mq_pop_def
  thread_pts_def per_thread_create_def mq_sync_push_def mq_sync_pop_def mq_push_def mq_push_local_def mq_associate_def
  thread_tmq_def sync_push_swap_def sync_pop_swap_def mq_pop_take_def unlinked_def mq_set_mtx_def pts_set_cond_def mq_goto_def
  after_push_def block_of_def spec_defs upd2_def

lemma lost_wakeup_run:
  "map_option (\<lambda>s. (mq_at s 1, mq_at s 2, mq_at s 3, link_list_is_empty (share_list (the (mqs (wd s) 1))),
      1 \<in> waiting (pt_cond (the (pts (wd s) 81))))) (mq_sched (mq_start [1000, 1100] 1) lost_wakeup) =
   Some (Pp_waiting 1 81 10 False (5, 0), Mq_outside, Mq_outside, False, True)"
  by (simp add: lost_wakeup_def mq_exec)

definition mq_ends :: "mq_state" where
  "mq_ends = the (mq_sched (mq_start [1000, 1100] 1) lost_wakeup)"

lemma mq_sched_reach:
  "mq_sched s as = Some s' \<Longrightarrow> 0 \<notin> \<Union> (actors ` set as) \<Longrightarrow> reach i mq_step s \<Longrightarrow> reach i mq_step s'"
proof (induction as arbitrary: s)
  case (Cons a as)
  then obtain s1 where 1: "mq_act s a = Some s1" "mq_sched s1 as = Some s'" by (auto split: Option.bind_splits)
  have "mq_step s s1" by (rule mq_act_step [OF 1(1)]) (use Cons.prems(2) in simp)
  then show ?case by (intro Cons.IH [OF 1(2)] reach_step [OF Cons.prems(3)]) (use Cons.prems(2) in simp_all)
qed simp

lemma mq_sched_at: "mq_sched s as = Some s' \<Longrightarrow> t \<notin> \<Union> (actors ` set as) \<Longrightarrow> mq_at s' t = mq_at s t"
  by (induction as arbitrary: s) (auto split: Option.bind_splits dest!: mq_act_at [where t = t])

lemma mq_ends_run:
  "mq_sched (mq_start [1000, 1100] 1) lost_wakeup = Some mq_ends" "reach (mq_start [1000, 1100] 1) mq_step mq_ends"
  "mq_at mq_ends 1 = Pp_waiting 1 81 10 False (5, 0)" "t \<noteq> 1 \<Longrightarrow> mq_at mq_ends t = Mq_outside"
  "\<not> link_list_is_empty (share_list (the (mqs (wd mq_ends) 1)))" "1 \<in> waiting (pt_cond (the (pts (wd mq_ends) 81)))"
proof -
  obtain s where s: "mq_sched (mq_start [1000, 1100] 1) lost_wakeup = Some s" "mq_at s 1 = Pp_waiting 1 81 10 False (5, 0)"
    "mq_at s 2 = Mq_outside" "mq_at s 3 = Mq_outside" "\<not> link_list_is_empty (share_list (the (mqs (wd s) 1)))"
    "1 \<in> waiting (pt_cond (the (pts (wd s) 81)))"
    using lost_wakeup_run by auto
  have e: "mq_ends = s" using s(1) by (simp add: mq_ends_def)
  show "mq_sched (mq_start [1000, 1100] 1) lost_wakeup = Some mq_ends" "mq_at mq_ends 1 = Pp_waiting 1 81 10 False (5, 0)"
    "\<not> link_list_is_empty (share_list (the (mqs (wd mq_ends) 1)))" "1 \<in> waiting (pt_cond (the (pts (wd mq_ends) 81)))"
    using s by (simp_all add: e)
  show "reach (mq_start [1000, 1100] 1) mq_step mq_ends"
    unfolding e by (rule mq_sched_reach [OF s(1) _ reach_init]) (simp add: lost_wakeup_def)
  show "mq_at mq_ends t = Mq_outside" if "t \<noteq> 1"
  proof (cases "t \<in> \<Union> (actors ` set lost_wakeup)")
    case True
    then have "t \<in> {2, 3}" using that by (auto simp: lost_wakeup_def)
    then show ?thesis using s(3,4) by (auto simp: e)
  next
    case False
    then show ?thesis using mq_sched_at [OF s(1) False] by (simp add: e mq_start_def)
  qed
qed

section \<open>Properties\<close>

text \<open>C4: whatever the threads do with the queues, for each queue and thread: the messages it has pushed are,
  in order, those that have been received from it, those on the shared list and those still on its own
  list; the messages it has received are, in order, those it has popped and those it can pop next.  So
  none is lost, duplicated or overtaken by a later one of the same thread; and the lists in memory hold
  exactly these messages.\<close>

theorem mq_delivers_in_order:
  assumes "reach (mq_start as b) mq_step s" and "NULL \<notin> set as" and "length as < 2 ^ 31" and "0 < b"
  shows "(\<forall>m t. sent_by t (log (sp s) m) @ shared_by t (tags (sp s) m) @ pend (sp s) m t = pushed (sp s) m t \<and>
       got_by t (log (sp s) m) = popped (sp s) m t @ recv (sp s) m t) \<and>
    (\<forall>m M. mqs (wd s) m = Some M \<longrightarrow> ll_repr (msgs (wd s)) (share_list M) (map snd (tags (sp s) m)) \<and>
       (\<forall>t. mq_key M t \<noteq> NULL \<longrightarrow> (\<exists>P. pts (wd s) (mq_key M t) = Some P \<and>
          ll_repr (msgs (wd s)) (local_push_q P) (pend (sp s) m t) \<and> ll_repr (msgs (wd s)) (local_pop_q P) (recv (sp s) m t))))"
proof -
  have i: "mq_inv s" using mq.reach_inv [OF assms(1)] assms(2-4) by simp
  have f: "ll_repr (msgs (wd s)) (q_hdr (wd s) (own s) x) (q_list (sp s) x)" if "is_qid (wd s) x" for x
    by (rule ll.family_repr [OF mq_repD(1) [OF mq_invD(2) [OF i]]]) (use that in simp)
  have "ll_repr (msgs (wd s)) (share_list M) (map snd (tags (sp s) m))" if "mqs (wd s) m = Some M" for m M
    using f [of "Sh m"] that by (simp add: domI)
  moreover have "\<exists>P. pts (wd s) (mq_key M t) = Some P \<and> ll_repr (msgs (wd s)) (local_push_q P) (pend (sp s) m t) \<and>
      ll_repr (msgs (wd s)) (local_pop_q P) (recv (sp s) m t)" if "mqs (wd s) m = Some M" "mq_key M t \<noteq> NULL" for m M t
  proof -
    have k: "key (wd s) m t = mq_key M t" using that(1) by (simp add: key_def)
    then have "mq_key M t \<in> dom (pts (wd s))" using mq_keysD(4) [OF mq_invD(1) [OF i], of m t] that(2) by simp
    then show ?thesis using f [of "Pu m t"] f [of "Po m t"] k that(2) by auto
  qed
  ultimately show ?thesis using mq_invD(3) [OF i] unfolding mq_log_def by blast
qed

lemma mq_delivers_in_order_witness:
  "mq_sched (mq_start [1000, 1100] 1) lost_wakeup = Some mq_ends \<and>
   got_by 2 (log (sp mq_ends) 1) = popped (sp mq_ends) 1 2 @ recv (sp mq_ends) 1 2 \<and>
   sent_by 3 (log (sp mq_ends) 1) @ shared_by 3 (tags (sp mq_ends) 1) @ pend (sp mq_ends) 1 3 = pushed (sp mq_ends) 1 3"
  using mq_ends_run(1) mq_delivers_in_order [OF mq_ends_run(2)] by simp


end
