(* ===== verification/Mq_Destroy.thy ===== *)
theory Mq_Destroy
  imports Msg_Queue
begin

text \<open>
  Destroying a message queue: destroy_mq of src/epoll_mutilthread/src/mq.c with its helpers, over the state of
  Msg_Queue.  The destroyer of the items is an argument, None when the queue has none; a run gives the items
  it was called for, in order.
\<close>

section \<open>Operations\<close>

type_synonym item_destroyer = "addr \<Rightarrow> nheap \<Rightarrow> nheap"

definition default_mq_item_destroyer :: item_destroyer where
  "default_mq_item_destroyer item h = h(item := None)"

partial_function (option) destroy_q_loop :: "item_destroyer \<Rightarrow> nheap \<Rightarrow> link_list \<Rightarrow> (addr list \<times> nheap \<times> link_list) option" where
  "destroy_q_loop f h l = do {
     (n, h, l) \<leftarrow> link_list_pop h l;
     if n = NULL then Some ([], h, l)
     else do { (ns, h, l) \<leftarrow> destroy_q_loop f (f n h) l; Some (n # ns, h, l) }
   }"

definition destroy_q_item :: "item_destroyer option \<Rightarrow> nheap \<Rightarrow> link_list \<Rightarrow> (addr list \<times> nheap \<times> link_list) option" where
  "destroy_q_item d h l = (case d of None \<Rightarrow> Some ([], h, l) | Some f \<Rightarrow> destroy_q_loop f h l)"

definition per_thread_destroy :: "mq_world \<Rightarrow> addr \<Rightarrow> mq_world option" where
  "per_thread_destroy w p =
     (if pts w p = None then None
      else Some (w\<lparr>pts := (pts w)(p := None), pt_nodes := (pt_nodes w)(p := None), blks := (blks w)(block_of p := None)\<rparr>))"

text \<open>The loop over the structures of the threads; the next one is read before one is freed.\<close>

partial_function (option) destroy_locals :: "item_destroyer option \<Rightarrow> mq_world \<Rightarrow> addr \<Rightarrow> (addr list \<times> mq_world) option" where
  "destroy_locals d w l =
     (if l = NULL then Some ([], w)
      else do {
        P \<leftarrow> pts w l;
        (a, h, _) \<leftarrow> destroy_q_item d (msgs w) (local_push_q P);
        (b, h, _) \<leftarrow> destroy_q_item d h (local_pop_q P);
        next \<leftarrow> node_get (pt_nodes w) l;
        w \<leftarrow> per_thread_destroy (w\<lparr>msgs := h\<rparr>) l;
        (c, w) \<leftarrow> destroy_locals d w next;
        Some (a @ b @ c, w)
      })"

definition destroy_mq :: "item_destroyer option \<Rightarrow> mq_world \<Rightarrow> addr \<Rightarrow> (addr list \<times> mq_world) option" where
  "destroy_mq d w m = do {
     M \<leftarrow> mqs w m;
     (a, h, _) \<leftarrow> destroy_q_item d (msgs w) (share_list M);
     (b, w) \<leftarrow> destroy_locals d (w\<lparr>msgs := h\<rparr>) (link_list_head (local_lists M));
     Some (a @ b, w\<lparr>mqs := (mqs w)(m := None), blks := (blks w)(dl_head (blocks M) := None, dl_tail (blocks M) := None)\<rparr>)
   }"

section \<open>What it frees\<close>

text \<open>A destroyer works on its item only.\<close>

definition local_destroyer :: "item_destroyer \<Rightarrow> bool" where
  "local_destroyer f \<longleftrightarrow> (\<forall>n h a. a \<noteq> n \<longrightarrow> f n h a = h a)"

lemma destroy_q_loop_ok:
  assumes f: "local_destroyer f" and r: "ll_repr h l xs"
  shows "\<exists>h' l'. destroy_q_loop f h l = Some (xs, h', l') \<and> (\<forall>a. a \<notin> set xs \<longrightarrow> h' a = h a)"
  using r
proof (induction xs arbitrary: h l)
  case Nil
  then show ?case using link_list_pop_empty [OF Nil] by (simp add: destroy_q_loop.simps [of f h l])
next
  case (Cons x xs)
  obtain h1 l1 where 1: "link_list_pop h l = Some (x, h1, l1)" "ll_repr h1 l1 xs" "\<And>m. m \<noteq> x \<Longrightarrow> h1 m = h m"
    by (rule link_list_pop_repr [OF Cons.prems]) blast
  have x: "x \<notin> set xs" "x \<noteq> NULL" using Cons.prems by (auto simp: ll_repr_def)
  have fr: "f x h1 a = h a" if "a \<noteq> x" for a using f that 1(3) by (simp add: local_destroyer_def)
  have "ll_repr (f x h1) l1 xs = ll_repr h1 l1 xs"
    by (rule ll_repr_cong) (use f x in \<open>metis local_destroyer_def\<close>)
  then obtain h' l' where 2: "destroy_q_loop f (f x h1) l1 = Some (xs, h', l')" "\<forall>a. a \<notin> set xs \<longrightarrow> h' a = f x h1 a"
    using Cons.IH 1(2) by blast
  have "destroy_q_loop f h l = Some (x # xs, h', l')" using 1(1) 2(1) x(2) by (simp add: destroy_q_loop.simps [of f h l])
  then show ?case using 2(2) fr by (intro exI conjI) auto
qed

lemma destroy_q_item_ok:
  assumes "local_destroyer f" and "ll_repr h l xs"
  obtains h' l' where "destroy_q_item (Some f) h l = Some (xs, h', l')" "\<And>a. a \<notin> set xs \<Longrightarrow> h' a = h a"
  using destroy_q_loop_ok [OF assms] by (auto simp: destroy_q_item_def)

lemma destroy_locals_ok:
  assumes f: "local_destroyer f" and "ll_seg (pt_nodes w) p ks NULL" and "distinct ks"
    and "\<And>k. k \<in> set ks \<Longrightarrow> k \<noteq> NULL \<and> (\<exists>P. pts w k = Some P \<and> ll_repr (msgs w) (local_push_q P) (A k) \<and> ll_repr (msgs w) (local_pop_q P) (B k))"
    and "distinct (concat (map (\<lambda>k. A k @ B k) ks))"
  shows "\<exists>w'. destroy_locals (Some f) w p = Some (concat (map (\<lambda>k. A k @ B k) ks), w') \<and>
    pts w' = pts w |` (- set ks) \<and> mqs w' = mqs w \<and> (\<forall>a. a \<notin> set (concat (map (\<lambda>k. A k @ B k) ks)) \<longrightarrow> msgs w' a = msgs w a)"
  using assms(2-)
proof (induction ks arbitrary: w p)
  case Nil
  then show ?case by (intro exI [of _ w]) (simp add: destroy_locals.simps [of "Some f" w NULL])
next
  case (Cons k ks)
  obtain n where n: "p = k" "pt_nodes w k = Some n" "ll_seg (pt_nodes w) n ks NULL" "k \<noteq> NULL"
    using Cons.prems(1,3) by (auto split: option.splits)
  obtain P where P: "pts w k = Some P" "ll_repr (msgs w) (local_push_q P) (A k)" "ll_repr (msgs w) (local_pop_q P) (B k)"
    using Cons.prems(3) [of k] by auto
  have d: "set (A k) \<inter> set (B k) = {}" "\<And>x. x \<in> set ks \<Longrightarrow> (set (A k) \<union> set (B k)) \<inter> (set (A x) \<union> set (B x)) = {}"
    using Cons.prems(4) by auto
  obtain h1 l1 where 1: "destroy_q_item (Some f) (msgs w) (local_push_q P) = Some (A k, h1, l1)" "\<And>a. a \<notin> set (A k) \<Longrightarrow> h1 a = msgs w a"
    by (rule destroy_q_item_ok [OF f P(2)]) blast
  have "ll_repr h1 (local_pop_q P) (B k) = ll_repr (msgs w) (local_pop_q P) (B k)"
    by (rule ll_repr_cong) (use d(1) 1(2) in blast)
  then have rB: "ll_repr h1 (local_pop_q P) (B k)" using P(3) by simp
  obtain h2 l2 where 2: "destroy_q_item (Some f) h1 (local_pop_q P) = Some (B k, h2, l2)" "\<And>a. a \<notin> set (B k) \<Longrightarrow> h2 a = h1 a"
    by (rule destroy_q_item_ok [OF f rB]) blast
  have h2: "h2 a = msgs w a" if "a \<notin> set (A k) \<union> set (B k)" for a using 1(2) [of a] 2(2) [of a] that by simp
  define w1 where "w1 = w\<lparr>msgs := h2, pts := (pts w)(k := None), pt_nodes := (pt_nodes w)(k := None), blks := (blks w)(block_of k := None)\<rparr>"
  have pd: "per_thread_destroy (w\<lparr>msgs := h2\<rparr>) k = Some w1" using P(1) by (simp add: per_thread_destroy_def w1_def)
  have kn: "k \<notin> set ks" using Cons.prems(2) by simp
  have "ll_seg (pt_nodes w1) n ks NULL" using n(3) kn by (simp add: w1_def ll_seg_upd)
  moreover have "x \<noteq> NULL \<and> (\<exists>Q. pts w1 x = Some Q \<and> ll_repr (msgs w1) (local_push_q Q) (A x) \<and> ll_repr (msgs w1) (local_pop_q Q) (B x))"
    if x: "x \<in> set ks" for x
  proof -
    obtain Q where Q: "x \<noteq> NULL" "pts w x = Some Q" "ll_repr (msgs w) (local_push_q Q) (A x)" "ll_repr (msgs w) (local_pop_q Q) (B x)"
      using Cons.prems(3) [of x] x by auto
    have "ll_repr h2 (local_push_q Q) (A x) = ll_repr (msgs w) (local_push_q Q) (A x)"
      "ll_repr h2 (local_pop_q Q) (B x) = ll_repr (msgs w) (local_pop_q Q) (B x)"
      by (rule ll_repr_cong; use d(2) [OF x] h2 in blast)+
    then show ?thesis using Q kn x by (auto simp: w1_def)
  qed
  ultimately obtain w' where w': "destroy_locals (Some f) w1 n = Some (concat (map (\<lambda>k. A k @ B k) ks), w')"
    "pts w' = pts w1 |` (- set ks)" "mqs w' = mqs w1" "\<And>a. a \<notin> set (concat (map (\<lambda>k. A k @ B k) ks)) \<Longrightarrow> msgs w' a = msgs w1 a"
    using Cons.IH [of w1 n] Cons.prems(2,4) by auto
  have "destroy_locals (Some f) w p = Some (concat (map (\<lambda>k. A k @ B k) (k # ks)), w')"
    using n P(1) 1(1) 2(1) pd w'(1) by (simp add: destroy_locals.simps [of "Some f" w k] node_get_def)
  moreover have "pts w' = pts w |` (- set (k # ks))" by (auto simp: w'(2) w1_def restrict_map_def fun_eq_iff)
  moreover have "mqs w' = mqs w" by (simp add: w'(3) w1_def)
  ultimately show ?case using w'(4) h2 by (intro exI [of _ w']) (simp add: w1_def)
qed

section \<open>The structures of the threads\<close>

text \<open>The lists of structures of the queues, with the threads they are for, in the order of their first calls.\<close>

definition lists_of :: "mq_world \<Rightarrow> addr \<Rightarrow> link_list" where
  "lists_of w m = local_lists (the (mqs w m))"

definition users :: "mq_world \<Rightarrow> addr \<Rightarrow> nat set" where
  "users w m = {t. key w m t \<noteq> NULL}"

definition locals_ok :: "mq_world \<Rightarrow> (addr \<Rightarrow> nat list) \<Rightarrow> bool" where
  "locals_ok w T \<longleftrightarrow> dom (pt_nodes w) \<subseteq> {..<mq_brk w} \<and>
     ll.family (pt_nodes w) (dom (mqs w)) (lists_of w) (\<lambda>m. map (key w m) (T m)) \<and>
     (\<forall>m\<in>dom (mqs w). distinct (T m) \<and> set (T m) = users w m)"

text \<open>What most steps leave alone.\<close>

definition locals_same :: "mq_world \<Rightarrow> mq_world \<Rightarrow> bool" where
  "locals_same w w' \<longleftrightarrow> pt_nodes w' = pt_nodes w \<and> dom (mqs w') = dom (mqs w) \<and> key w' = key w \<and>
     (\<forall>m\<in>dom (mqs w). lists_of w' m = lists_of w m) \<and> mq_brk w \<le> mq_brk w'"

lemma locals_same_refl [simp]: "locals_same w w"
  by (simp add: locals_same_def)

lemma locals_same_trans: "locals_same w w' \<Longrightarrow> locals_same w' w'' \<Longrightarrow> locals_same w w''"
  by (auto simp: locals_same_def)

lemma locals_ok_same: "locals_ok w T \<Longrightarrow> locals_same w w' \<Longrightarrow> locals_ok w' T"
  unfolding locals_ok_def locals_same_def users_def
  by (elim conjE, intro conjI) (auto intro: ll.family_cong)

lemma locals_same_rest:
  "mqs w' = mqs w \<Longrightarrow> pt_nodes w' = pt_nodes w \<Longrightarrow> mq_brk w \<le> mq_brk w' \<Longrightarrow> locals_same w w'"
  by (auto simp: locals_same_def key_def lists_of_def fun_eq_iff)

lemma locals_same_share:
  assumes "mqs w m = Some M" and "mqs w' = (mqs w)(m \<mapsto> M\<lparr>share_list := l\<rparr>)" and "pt_nodes w' = pt_nodes w" and "mq_brk w \<le> mq_brk w'"
  shows "locals_same w w'"
proof -
  have "key w' = key w" by (rule ext)+ (simp add: key_def assms(1,2))
  moreover have "dom (mqs w') = dom (mqs w)" using assms(1) by (auto simp: assms(2))
  ultimately show ?thesis using assms by (simp add: locals_same_def lists_of_def)
qed

lemma mq_set_mtx_locals [simp]: "lists_of (mq_set_mtx w m x) k = lists_of w k" "pt_nodes (mq_set_mtx w m x) = pt_nodes w"
proof -
  show "lists_of (mq_set_mtx w m x) k = lists_of w k" by (cases "mqs w m") (simp_all add: lists_of_def mq_set_mtx_def)
qed (simp_all add: mq_set_mtx_def)

lemma locals_same_mtx [simp]: "locals_same w (mq_set_mtx w' m x) = locals_same w w'"
  unfolding locals_same_def by simp

lemma locals_same_cond [simp]: "locals_same w (pts_set_cond w' p c) = locals_same w w'"
  by (simp add: locals_same_def key_def lists_of_def pts_set_cond_def fun_eq_iff)

lemma locals_same_blks [simp]: "locals_same w (w'\<lparr>blks := d\<rparr>) = locals_same w w'"
  by (auto simp: locals_same_def key_def lists_of_def)

lemma thread_tmq_keeps:
  assumes "thread_tmq w t = Some (q, w')"
  shows "mqs w' = mqs w" and "pt_nodes w' = pt_nodes w" and "mq_brk w \<le> mq_brk w'"
proof -
  have "mqs w' = mqs w \<and> pt_nodes w' = pt_nodes w \<and> mq_brk w \<le> mq_brk w'"
    using assms by (auto simp: thread_tmq_def mq_calloc_def Let_def split: Option.bind_splits if_splits)
  then show "mqs w' = mqs w" "pt_nodes w' = pt_nodes w" "mq_brk w \<le> mq_brk w'" by simp_all
qed

lemma mq_associate_same:
  assumes a: "mq_associate w t m p = Some w'"
  shows "locals_same w w'"
proof -
  obtain P where P: "pts w p = Some P" using a by (auto simp: mq_associate_def split: bind_splits)
  show ?thesis
  proof (cases "is_associate P = 0")
    case True
    then obtain q w1 where 1: "thread_tmq w t = Some (q, w1)" using a P by (auto simp: mq_associate_def split: bind_splits)
    have "mqs w' = mqs w1" "pt_nodes w' = pt_nodes w1" "mq_brk w1 \<le> mq_brk w'"
      using a P True 1 by (auto simp: mq_associate_def mq_calloc_def Let_def split: bind_splits)
    then show ?thesis using thread_tmq_keeps [OF 1] by (intro locals_same_rest) simp_all
  qed (use a P in \<open>simp add: mq_associate_def\<close>)
qed

lemma sync_push_swap_same: "sync_push_swap w m p = Some (b, w') \<Longrightarrow> locals_same w w'"
  by (auto simp: sync_push_swap_def Let_def split: bind_splits if_splits intro!: locals_same_share)

lemma sync_pop_swap_same: "sync_pop_swap w m p = Some w' \<Longrightarrow> locals_same w w'"
  by (auto simp: sync_pop_swap_def Let_def split: bind_splits if_splits intro!: locals_same_share)

lemma mq_sync_push_same: "mq_sync_push s t u = Some s' \<Longrightarrow> locals_same (wd s) (wd s')"
  by (auto simp: mq_sync_push_def Let_def split: mq_pc.splits bind_splits if_splits dest: sync_push_swap_same)

lemma mq_sync_pop_same: "mq_sync_pop s t now = Some s' \<Longrightarrow> locals_same (wd s) (wd s')"
proof (cases "mq_at s t")
  case (Pp_swap m p out)
  then show "mq_sync_pop s t now = Some s' \<Longrightarrow> locals_same (wd s) (wd s')"
    by (auto simp: mq_sync_pop_def dest: sync_pop_swap_same split: bind_splits)
qed (auto simp: mq_sync_pop_def Let_def split: bind_splits if_splits prod.splits)

lemma mq_take_same:
  "mq_pop_take s t = Some (a, s') \<Longrightarrow> locals_same (wd s) (wd s')"
  "mq_push_list_take s t = Some s' \<Longrightarrow> locals_same (wd s) (wd s')"
  "mq_force_sync s t = Some s' \<Longrightarrow> locals_same (wd s) (wd s')"
  "mq_flush s t = Some s' \<Longrightarrow> locals_same (wd s) (wd s')"
  by (auto simp: mq_pop_take_def mq_push_list_take_def mq_force_sync_def mq_flush_def Let_def
      split: mq_pc.splits bool.splits bind_splits if_splits intro!: locals_same_rest)


text \<open>A new structure, for the first call of a thread.\<close>

lemma locals_ok_keys:
  assumes k: "mq_keys w" and l: "locals_ok w T" and m: "m \<in> dom (mqs w)"
  shows "set (map (key w m) (T m)) \<subseteq> {0<..<mq_brk w}" and "length (T m) < mq_brk w"
proof -
  have T: "distinct (T m)" "set (T m) = users w m" using l m by (auto simp: locals_ok_def)
  show s: "set (map (key w m) (T m)) \<subseteq> {0<..<mq_brk w}"
  proof
    fix x assume "x \<in> set (map (key w m) (T m))"
    then obtain t where "t \<in> users w m" "x = key w m t" using T(2) by auto
    then have "x \<in> dom (pts w)" using mq_keysD(4) [OF k] by (simp add: users_def)
    then show "x \<in> {0<..<mq_brk w}" using mq_keysD(2) [OF k] by blast
  qed
  have "inj_on (key w m) (set (T m))"
    using mq_keysD(5) [OF k] by (auto simp: inj_on_def T(2) users_def)
  then have "distinct (map (key w m) (T m))" using T(1) by (simp add: distinct_map)
  then have "length (T m) = card (set (map (key w m) (T m)))" using distinct_card by fastforce
  also have "\<dots> \<le> card {0<..<mq_brk w}" by (rule card_mono [OF _ s]) simp
  finally show "length (T m) < mq_brk w" using mq_keysD(1) [OF k] by simp
qed

lemma thread_pts_locals:
  assumes k: "mq_keys w" and l: "locals_ok w T" and r: "thread_pts w t m = Some (p, w')" and b: "mq_brk w' < 2 ^ 31"
  shows "\<exists>T'. locals_ok w' T'"
proof -
  obtain M where M: "mqs w m = Some M" using r by (auto simp: thread_pts_def split: bind_splits)
  then have md: "m \<in> dom (mqs w)" by auto
  show ?thesis
  proof (cases "mq_key M t = NULL")
    case False
    then show ?thesis using r M l by (auto simp: thread_pts_def)
  next
    case True
    let ?p = "mq_brk w" and ?I = "dom (mqs w)" and ?xs = "\<lambda>m. map (key w m) (T m)"
    have T: "distinct (T m)" "set (T m) = users w m" using l md by (auto simp: locals_ok_def)
    have dn: "dom (pt_nodes w) \<subseteq> {..<?p}" and f: "ll.family (pt_nodes w) ?I (lists_of w) ?xs" using l by (simp_all add: locals_ok_def)
    have old: "x \<noteq> ?p" if "x \<in> set (?xs j)" "j \<in> ?I" for x j
      using locals_ok_keys(1) [OF k l that(2)] that(1) by auto
    have f1: "ll.family ((pt_nodes w)(?p \<mapsto> NULL)) ?I (lists_of w) ?xs"
      by (rule ll.family_cong [OF f]) (use old in auto)
    have fr: "ll_free ((pt_nodes w)(?p \<mapsto> NULL)) ?p" using mq_keysD(1) [OF k] by (simp add: ll_free_def)
    have bw: "mq_brk w' = ?p + 56" using r M True by (auto simp: thread_pts_def per_thread_create_def mq_calloc_def Let_def split: bind_splits)
    have room: "ll_room (Suc (length (?xs m)))" using locals_ok_keys(2) [OF k l md] b bw by (simp add: ll_room_def)
    obtain h q where h: "link_list_push_back ((pt_nodes w)(?p \<mapsto> NULL)) (lists_of w m) ?p = Some (h, q)"
      "ll.family h ?I ((lists_of w)(m := q)) (?xs(m := ?xs m @ [?p]))"
      by (rule ll.family_push [OF f1 md fr _ room]) (use old in blast)+
    have w': "w' = (snd (per_thread_create w))\<lparr>pt_nodes := h, mqs := (mqs w)(m \<mapsto> M\<lparr>local_lists := q, mq_key := (mq_key M)(t := ?p)\<rparr>)\<rparr>"
      using r M True h(1) by (auto simp: thread_pts_def per_thread_create_def mq_calloc_def Let_def lists_of_def)
    have key: "key w' = (key w)(m := (key w m)(t := ?p))"
      by (rule ext)+ (simp add: key_def w' M)
    have tn: "t \<notin> set (T m)" using True M by (simp add: T(2) users_def key_def)
    let ?T = "T(m := T m @ [t])"
    have dm: "dom (mqs w') = ?I" using md by (auto simp: w' M)
    have "map (key w' j) (?T j) = (?xs(m := ?xs m @ [?p])) j" for j using tn by (auto simp: key)
    moreover have "lists_of w' j = ((lists_of w)(m := q)) j" for j by (simp add: lists_of_def w')
    ultimately have "ll.family (pt_nodes w') ?I (lists_of w') (\<lambda>j. map (key w' j) (?T j))"
      by (intro ll.family_cong [OF h(2)]) (simp_all add: w')
    moreover have "dom h \<subseteq> {..<mq_brk w'}" using ll_push_dom(1) [OF h(1)] dn by (auto simp: bw)
    then have "dom (pt_nodes w') \<subseteq> {..<mq_brk w'}" by (simp add: w')
    moreover have "distinct (?T j) \<and> set (?T j) = users w' j" if "j \<in> ?I" for j
    proof (cases "j = m")
      case True
      then show ?thesis using T tn mq_keysD(1) [OF k] by (auto simp: users_def key)
    next
      case False
      then show ?thesis using l that by (simp add: locals_ok_def users_def key)
    qed
    ultimately have "locals_ok w' ?T" unfolding locals_ok_def dm by blast
    then show ?thesis by (rule exI [of _ ?T])
  qed
qed

lemma create_mq_locals:
  assumes k: "mq_keys w" and l: "locals_ok w T" and r: "create_mq w ps = Some (m, w')"
  shows "locals_ok w' (T(m := []))"
proof -
  have m: "m = mq_brk w" "pt_nodes w' = pt_nodes w" "mq_brk w' = mq_brk w + 80"
    using r by (auto simp: create_mq_def mq_calloc_def Let_def split: Option.bind_splits)
  obtain bl where w': "mqs w' = (mqs w)(m \<mapsto> \<lparr>push_size = ps, mq_key = \<lambda>_. NULL, mq_mtx = mutex_create, blocks = bl,
       share_list = create_link_list, local_lists = create_link_list\<rparr>)"
    using r by (auto simp: create_mq_def mq_calloc_def Let_def split: Option.bind_splits)
  have new: "m \<notin> dom (mqs w)" using mq_keysD(3) [OF k] by (auto simp: m(1))
  have f: "ll.family (pt_nodes w) (dom (mqs w)) (lists_of w) (\<lambda>m. map (key w m) (T m))" using l by (simp add: locals_ok_def)
  have key: "key w' j = (if j = m then (\<lambda>_. NULL) else key w j)" for j by (rule ext) (simp add: key_def w')
  have "ll.family (pt_nodes w') (insert m (dom (mqs w))) ((lists_of w)(m := create_link_list)) ((\<lambda>m. map (key w m) (T m))(m := []))"
    by (rule ll.family_add [OF f new ll_repr_new]) (simp_all add: m(2))
  note g = this
  have dm: "dom (mqs w') = insert m (dom (mqs w))" by (simp add: w')
  have "ll.family (pt_nodes w') (dom (mqs w')) (lists_of w') (\<lambda>j. map (key w' j) ((T(m := [])) j))"
    unfolding dm by (rule ll.family_cong [OF g]) (auto simp: lists_of_def w' key)
  moreover have "dom (pt_nodes w') \<subseteq> {..<mq_brk w'}" using l by (auto simp: locals_ok_def m(2,3))
  moreover have "distinct ((T(m := [])) j) \<and> set ((T(m := [])) j) = users w' j" if "j \<in> dom (mqs w')" for j
    using that l by (auto simp: users_def key locals_ok_def w' split: if_splits)
  ultimately show ?thesis unfolding locals_ok_def by blast
qed

lemma mq_push_parts:
  assumes r: "mq_push s t m msg now = Some s'"
  obtains p w1 where "thread_pts (wd s) t m = Some (p, w1)" and "locals_same w1 (wd s')"
proof -
  obtain p w1 w2 where 1: "thread_pts (wd s) t m = Some (p, w1)" "mq_associate w1 t m p = Some w2"
    using r by (auto simp: mq_push_def mq_push_local_def split: bind_splits)
  then have "locals_same w2 (wd s')" using r by (auto simp: mq_push_def mq_push_local_def split: bind_splits intro!: locals_same_rest)
  then show thesis using that [OF 1(1)] locals_same_trans [OF mq_associate_same [OF 1(2)]] by blast
qed

lemma mq_push_locals:
  assumes k: "mq_keys (wd s)" and l: "locals_ok (wd s) T" and r: "mq_push s t m msg now = Some s'" and b: "mq_brk (wd s') < 2 ^ 31"
  shows "\<exists>T'. locals_ok (wd s') T'"
proof -
  obtain p w1 where 1: "thread_pts (wd s) t m = Some (p, w1)" and s: "locals_same w1 (wd s')"
    by (rule mq_push_parts [OF r])
  then have "mq_brk w1 < 2 ^ 31" using b by (simp add: locals_same_def)
  then obtain T' where "locals_ok w1 T'" using thread_pts_locals [OF k l 1] by blast
  then show ?thesis using locals_ok_same [OF _ s] by blast
qed

lemma mq_pop_locals:
  assumes k: "mq_keys (wd s)" and l: "locals_ok (wd s) T" and r: "mq_pop s t m timeout out = Some s'" and b: "mq_brk (wd s') < 2 ^ 31"
  shows "\<exists>T'. locals_ok (wd s') T'"
proof -
  obtain p where "thread_pts (wd s) t m = Some (p, wd s')" using r by (auto simp: mq_pop_def split: bind_splits)
  then show ?thesis using thread_pts_locals [OF k l _ b] by blast
qed

lemma locals_step:
  assumes i: "mq_inv s" and st: "mq_step s s'" and l: "locals_ok (wd s) T" and b: "mq_brk (wd s') < 2 ^ 31"
  shows "\<exists>T'. locals_ok (wd s') T'"
proof -
  have *: "locals_same (wd s) (wd s') \<Longrightarrow> ?thesis" using locals_ok_same [OF l] by blast
  show ?thesis using st
  proof cases
    case (mq_new ps m w)
    then show ?thesis using create_mq_locals [OF mq_invD(1) [OF i] l mq_new(2)] by auto
  next
    case (mq_call_push t msg m now)
    then show ?thesis using mq_push_locals [OF mq_invD(1) [OF i] l _ b] by blast
  next
    case (mq_call_pop t m timeout out)
    then show ?thesis using mq_pop_locals [OF mq_invD(1) [OF i] l _ b] by blast
  next
    case mq_own_take
    show ?thesis by (rule *, rule locals_same_rest) (simp_all add: mq_own_take(1))
  next
    case mq_wake
    show ?thesis by (rule *) (simp add: mq_wake(1))
  qed (rule *, (erule mq_sync_push_same | erule mq_sync_pop_same | erule mq_take_same))+
qed

lemma thread_pts_brk: "thread_pts w t m = Some (p, w') \<Longrightarrow> mq_brk w \<le> mq_brk w'"
  by (auto simp: thread_pts_def per_thread_create_def mq_calloc_def Let_def split: bind_splits if_splits)

lemma mq_brk_mono:
  assumes st: "mq_step s s'"
  shows "mq_brk (wd s) \<le> mq_brk (wd s')"
proof -
  have *: "locals_same (wd s) (wd s') \<Longrightarrow> ?thesis" by (simp add: locals_same_def)
  show ?thesis using st
  proof cases
    case (mq_new ps m w)
    then show ?thesis by (auto simp: create_mq_def mq_calloc_def Let_def split: Option.bind_splits)
  next
    case (mq_call_push t msg m now)
    obtain p w1 where "thread_pts (wd s) t m = Some (p, w1)" "locals_same w1 (wd s')" by (rule mq_push_parts [OF mq_call_push(4)])
    then show ?thesis using thread_pts_brk [of "wd s" t m p w1] by (simp add: locals_same_def)
  next
    case (mq_call_pop t m timeout out)
    then show ?thesis using thread_pts_brk by (auto simp: mq_pop_def split: bind_splits)
  next
    case mq_own_take
    then show ?thesis by simp
  next
    case mq_wake
    then show ?thesis by (simp add: pts_set_cond_def)
  qed (rule *, (erule mq_sync_push_same | erule mq_sync_pop_same | erule mq_take_same))+
qed

interpretation mq_locals: invariant_system "mq_start as b" mq_step
    "\<lambda>s. NULL \<notin> set as \<and> length as < 2 ^ 31 \<and> 0 < b \<longrightarrow> mq_inv s \<and> (mq_brk (wd s) < 2 ^ 31 \<longrightarrow> (\<exists>T. locals_ok (wd s) T))" for as b
proof unfold_locales
  have "locals_ok (wd (mq_start as b)) (\<lambda>_. [])"
    by (simp add: locals_ok_def mq_start_def init_mq_system_def ll.family_def)
  then show "NULL \<notin> set as \<and> length as < 2 ^ 31 \<and> 0 < b \<longrightarrow> mq_inv (mq_start as b) \<and>
      (mq_brk (wd (mq_start as b)) < 2 ^ 31 \<longrightarrow> (\<exists>T. locals_ok (wd (mq_start as b)) T))"
    using mq_inv_start by blast
next
  fix s s' assume a: "NULL \<notin> set as \<and> length as < 2 ^ 31 \<and> 0 < b \<longrightarrow> mq_inv s \<and> (mq_brk (wd s) < 2 ^ 31 \<longrightarrow> (\<exists>T. locals_ok (wd s) T))"
    and st: "mq_step s s'"
  show "NULL \<notin> set as \<and> length as < 2 ^ 31 \<and> 0 < b \<longrightarrow> mq_inv s' \<and> (mq_brk (wd s') < 2 ^ 31 \<longrightarrow> (\<exists>T. locals_ok (wd s') T))"
  proof (intro impI conjI)
    assume c: "NULL \<notin> set as \<and> length as < 2 ^ 31 \<and> 0 < b"
    then have i: "mq_inv s" using a by blast
    then show "mq_inv s'" using st by (rule mq_inv_step)
    assume "mq_brk (wd s') < 2 ^ 31"
    moreover from this have "mq_brk (wd s) < 2 ^ 31" using mq_brk_mono [OF st] by (rule le_less_trans [rotated])
    ultimately show "\<exists>T. locals_ok (wd s') T" using a c locals_step [OF i st] by blast
  qed
qed

lemma distinct_concat_map:
  "distinct ts \<Longrightarrow> (\<And>t. t \<in> set ts \<Longrightarrow> distinct (F t)) \<Longrightarrow>
     (\<And>t u. t \<in> set ts \<Longrightarrow> u \<in> set ts \<Longrightarrow> t \<noteq> u \<Longrightarrow> set (F t) \<inter> set (F u) = {}) \<Longrightarrow> distinct (concat (map F ts))"
proof (induction ts)
  case (Cons t ts)
  have "set (F t) \<inter> set (F u) = {}" if "u \<in> set ts" for u using Cons.prems(3) [of t u] Cons.prems(1) that by auto
  then have "set (F t) \<inter> set (concat (map F ts)) = {}" by auto
  then show ?case using Cons by simp
qed simp

text \<open>The messages of a queue, in the order in which it is destroyed.\<close>

definition items :: "mq_spec \<Rightarrow> addr \<Rightarrow> nat list \<Rightarrow> addr list" where
  "items g m ts = map snd (tags g m) @ concat (map (\<lambda>t. pend g m t @ recv g m t) ts)"

lemma items_distinct:
  assumes r: "mq_rep w o' g" and m: "m \<in> dom (mqs w)" and ts: "distinct ts" "set ts = users w m"
  shows "distinct (items g m ts)"
    and "\<And>x. is_qid w x \<Longrightarrow> x \<noteq> Sh m \<Longrightarrow> (\<forall>t. x \<noteq> Pu m t \<and> x \<noteq> Po m t) \<Longrightarrow> set (q_list g x) \<inter> set (items g m ts) = {}"
proof -
  note f = mq_repD(1) [OF r]
  have rd: "distinct (q_list g x)" if "is_qid w x" for x
    using ll.repr_distinct [OF ll.family_repr [OF f, of x]] that by simp
  have dj: "set (q_list g x) \<inter> set (q_list g y) = {}" if "is_qid w x" "is_qid w y" "x \<noteq> y" for x y
    using ll.family_disjoint [OF f, of x y] that by auto
  have qs: "is_qid w (Sh m)" "\<And>t. t \<in> set ts \<Longrightarrow> is_qid w (Pu m t) \<and> is_qid w (Po m t)" using m ts(2) by (simp_all add: users_def)
  have away: "set (q_list g x) \<inter> set (concat (map (\<lambda>t. pend g m t @ recv g m t) ts)) = {}"
    if "is_qid w x" "\<forall>t. x \<noteq> Pu m t \<and> x \<noteq> Po m t" for x
  proof -
    have "set (q_list g x) \<inter> set (pend g m t @ recv g m t) = {}" if "t \<in> set ts" for t
      using \<open>is_qid w x\<close> \<open>\<forall>t. _ t\<close> dj [of x "Pu m t"] dj [of x "Po m t"] qs(2) [OF that] by (simp add: Int_Un_distrib)
    then show ?thesis by auto
  qed
  have "distinct (concat (map (\<lambda>t. pend g m t @ recv g m t) ts))"
  proof (rule distinct_concat_map [OF ts(1)])
    show "distinct (pend g m t @ recv g m t)" if "t \<in> set ts" for t
      using qs(2) [OF that] rd [of "Pu m t"] rd [of "Po m t"] dj [of "Pu m t" "Po m t"] by simp
    show "set (pend g m t @ recv g m t) \<inter> set (pend g m u @ recv g m u) = {}" if "t \<in> set ts" "u \<in> set ts" "t \<noteq> u" for t u
      using qs(2) [OF that(1)] qs(2) [OF that(2)] that(3) dj [of "Pu m t" "Pu m u"] dj [of "Pu m t" "Po m u"] dj [of "Po m t" "Pu m u"]
        dj [of "Po m t" "Po m u"] by (simp add: Int_Un_distrib Int_Un_distrib2)
  qed
  then show "distinct (items g m ts)" using rd [OF qs(1)] away [OF qs(1)] by (simp add: items_def)
  fix x assume x: "is_qid w x" "x \<noteq> Sh m" "\<forall>t. x \<noteq> Pu m t \<and> x \<noteq> Po m t"
  have a: "set (q_list g x) \<inter> set (map snd (tags g m)) = {}" using dj [OF x(1) qs(1) x(2)] by simp
  show "set (q_list g x) \<inter> set (items g m ts) = {}"
    unfolding items_def set_append [of "map snd (tags g m)"] Int_Un_distrib a away [OF x(1,3)] by simp
qed

text \<open>The lists of the other queues after one has gone.\<close>

lemma other_lists_kept:
  assumes k: "mq_keys w" and r: "mq_rep w o' g" and m: "m \<in> dom (mqs w)" and ts: "distinct ts" "set ts = users w m"
    and w': "mqs w' = (mqs w)(m := None)" "pts w' = pts w |` (- key w m ` set ts)"
    and fr: "\<And>a. a \<notin> set (items g m ts) \<Longrightarrow> msgs w' a = msgs w a" and x: "is_qid w' x"
  shows "ll_repr (msgs w') (q_hdr w' o' x) (q_list g x)"
proof -
  have key': "key w' j t = (if j = m then NULL else key w j t)" for j t by (simp add: key_def w'(1))
  have q: "is_qid w x" "x \<noteq> Sh m" "\<forall>t. x \<noteq> Pu m t \<and> x \<noteq> Po m t"
    using x by (cases x; auto simp: key' w'(1) split: if_splits)+
  have "pts w' (key w j t) = pts w (key w j t)" if "j \<noteq> m" "key w j t \<noteq> NULL" for j t
  proof -
    have "key w j t \<notin> key w m ` set ts" using mq_keysD(5) [OF k, of j t m] that by auto
    then show ?thesis by (simp add: w'(2) restrict_map_def)
  qed
  then have "q_hdr w' o' x = q_hdr w o' x" using x q by (cases x) (auto simp: key' w'(1) split: if_splits)
  moreover have "ll_repr (msgs w') (q_hdr w o' x) (q_list g x) = ll_repr (msgs w) (q_hdr w o' x) (q_list g x)"
    by (rule ll_repr_cong, rule fr) (use items_distinct(2) [OF r m ts q] in blast)
  ultimately show ?thesis using ll.family_repr [OF mq_repD(1) [OF r], of x] q(1) by simp
qed

text \<open>Destroying the structures of the threads, given by the threads.\<close>

lemma destroy_users_ok:
  assumes f: "local_destroyer f" and ts: "ll_repr (pt_nodes w) l (map K ts)" "inj_on K (set ts)"
    and sk: "\<And>t. t \<in> set ts \<Longrightarrow> \<exists>P. pts w (K t) = Some P \<and> ll_repr (msgs w) (local_push_q P) (A t) \<and> ll_repr (msgs w) (local_pop_q P) (B t)"
    and d: "distinct (concat (map (\<lambda>t. A t @ B t) ts))"
  obtains w' where "destroy_locals (Some f) w (link_list_head l) = Some (concat (map (\<lambda>t. A t @ B t) ts), w')"
    "pts w' = pts w |` (- K ` set ts)" "mqs w' = mqs w"
    "\<And>a. a \<notin> set (concat (map (\<lambda>t. A t @ B t) ts)) \<Longrightarrow> msgs w' a = msgs w a"
proof -
  define u where "u = the_inv_into (set ts) K"
  have u: "u (K t) = t" if "t \<in> set ts" for t unfolding u_def by (rule the_inv_into_f_f [OF ts(2) that])
  have mu: "map (\<lambda>k. A (u k) @ B (u k)) (map K ts) = map (\<lambda>t. A t @ B t) ts" using u by simp
  have "\<exists>w'. destroy_locals (Some f) w (link_list_head l) = Some (concat (map (\<lambda>k. A (u k) @ B (u k)) (map K ts)), w') \<and>
      pts w' = pts w |` (- set (map K ts)) \<and> mqs w' = mqs w \<and>
      (\<forall>a. a \<notin> set (concat (map (\<lambda>k. A (u k) @ B (u k)) (map K ts))) \<longrightarrow> msgs w' a = msgs w a)"
  proof (rule destroy_locals_ok [OF f])
    show "ll_seg (pt_nodes w) (link_list_head l) (map K ts) NULL" "distinct (map K ts)"
      using ts(1) by (simp_all add: ll_repr_def link_list_head_def)
    show "distinct (concat (map (\<lambda>k. A (u k) @ B (u k)) (map K ts)))" unfolding mu by (rule d)
    fix k assume k: "k \<in> set (map K ts)"
    then obtain t where "t \<in> set ts" "k = K t" by auto
    moreover have "k \<noteq> NULL" using k ll_repr_NULL [OF ts(1)] by metis
    ultimately show "k \<noteq> NULL \<and> (\<exists>P. pts w k = Some P \<and> ll_repr (msgs w) (local_push_q P) (A (u k)) \<and> ll_repr (msgs w) (local_pop_q P) (B (u k)))"
      using sk u by simp
  qed
  then show thesis using that unfolding mu by auto
qed

lemma destroy_mq_ok:
  assumes i: "mq_inv s" and T: "locals_ok (wd s) T" and M: "mqs (wd s) m = Some M" and f: "local_destroyer f"
  shows "\<exists>w'. destroy_mq (Some f) (wd s) m = Some (items (sp s) m (T m), w') \<and> mqs w' = (mqs (wd s))(m := None) \<and>
    pts w' = pts (wd s) |` (- mq_key M ` set (T m)) \<and> (\<forall>a. a \<notin> set (items (sp s) m (T m)) \<longrightarrow> msgs w' a = msgs (wd s) a)"
proof -
  let ?w = "wd s" and ?g = "sp s" and ?ts = "T m" and ?K = "mq_key M"
  note k = mq_invD(1) [OF i] and r = mq_invD(2) [OF i]
  have md: "m \<in> dom (mqs ?w)" using M by auto
  have key: "key ?w m = ?K" using M by (simp add: key_def fun_eq_iff)
  have ts: "distinct ?ts" "set ?ts = users ?w m" using T md by (auto simp: locals_ok_def)
  have ks: "ll_repr (pt_nodes ?w) (local_lists M) (map ?K ?ts)"
    using T ll.family_repr [of "pt_nodes ?w" "dom (mqs ?w)" "lists_of ?w" "\<lambda>m. map (key ?w m) (T m)", OF _ md] M
    by (simp add: locals_ok_def lists_of_def key)
  have rp: "ll_repr (msgs ?w) (q_hdr ?w (own s) x) (q_list ?g x)" if "is_qid ?w x" for x
    by (rule ll.family_repr [OF mq_repD(1) [OF r]]) (use that in simp)
  have di: "distinct (items ?g m ?ts)" by (rule items_distinct [OF r md ts])
  have "ll_repr (msgs ?w) (share_list M) (map snd (tags ?g m))" using rp [of "Sh m"] M md by simp
  then obtain h1 l1 where 1: "destroy_q_item (Some f) (msgs ?w) (share_list M) = Some (map snd (tags ?g m), h1, l1)"
    "\<And>a. a \<notin> set (map snd (tags ?g m)) \<Longrightarrow> h1 a = msgs ?w a"
    using destroy_q_item_ok [OF f] by metis
  have inj: "inj_on ?K (set ?ts)" using mq_keysD(5) [OF k, of m _ m] by (auto simp: inj_on_def ts(2) users_def key)
  have sk: "\<exists>P. pts ?w (?K t) = Some P \<and> ll_repr h1 (local_push_q P) (pend ?g m t) \<and> ll_repr h1 (local_pop_q P) (recv ?g m t)"
    if t: "t \<in> set ?ts" for t
  proof -
    have n: "key ?w m t \<noteq> NULL" using t ts(2) by (simp add: users_def)
    then have "?K t \<in> dom (pts ?w)" using mq_keysD(4) [OF k, of m t] by (simp add: key)
    then obtain P where P: "pts ?w (?K t) = Some P" by auto
    have "set (map snd (tags ?g m)) \<inter> set (pend ?g m t @ recv ?g m t) = {}" using di t by (auto simp: items_def)
    then have e: "h1 a = msgs ?w a" if "a \<in> set (pend ?g m t @ recv ?g m t)" for a using 1(2) that by blast
    have "ll_repr h1 l (pend ?g m t) = ll_repr (msgs ?w) l (pend ?g m t)" "ll_repr h1 l (recv ?g m t) = ll_repr (msgs ?w) l (recv ?g m t)" for l
      by (rule ll_repr_cong, rule e, simp)+
    then show ?thesis using P rp [of "Pu m t"] rp [of "Po m t"] n key by simp
  qed
  obtain w2 where w2: "destroy_locals (Some f) (?w\<lparr>msgs := h1\<rparr>) (link_list_head (local_lists M)) =
      Some (concat (map (\<lambda>t. pend ?g m t @ recv ?g m t) ?ts), w2)"
    "pts w2 = pts ?w |` (- ?K ` set ?ts)" "mqs w2 = mqs ?w"
    "\<And>a. a \<notin> set (concat (map (\<lambda>t. pend ?g m t @ recv ?g m t) ?ts)) \<Longrightarrow> msgs w2 a = h1 a"
  proof (rule destroy_users_ok [OF f, of "?w\<lparr>msgs := h1\<rparr>" "local_lists M" ?K ?ts "pend ?g m" "recv ?g m"])
    show "ll_repr (pt_nodes (?w\<lparr>msgs := h1\<rparr>)) (local_lists M) (map ?K ?ts)" using ks by simp
    show "inj_on ?K (set ?ts)" by (rule inj)
    show "distinct (concat (map (\<lambda>t. pend ?g m t @ recv ?g m t) ?ts))" using di by (simp add: items_def)
    show "\<exists>P. pts (?w\<lparr>msgs := h1\<rparr>) (?K t) = Some P \<and> ll_repr (msgs (?w\<lparr>msgs := h1\<rparr>)) (local_push_q P) (pend ?g m t) \<and>
        ll_repr (msgs (?w\<lparr>msgs := h1\<rparr>)) (local_pop_q P) (recv ?g m t)" if "t \<in> set ?ts" for t using sk [OF that] by simp
  qed (simp_all add: that)
  show ?thesis
    using M 1 w2 by (simp add: destroy_mq_def items_def)
qed

section \<open>Properties\<close>


text \<open>A thread that has pushed to a queue crashes when it flushes its queues after the queue has been destroyed.\<close>

lemma flush_after_destroy_crashes:
  assumes "destroy_mq d w m = Some (fs, w')" and "elems w' n = Some m" and "mq_at s t = Fl_test n" and "n \<noteq> NULL" and "wd s = w'"
  shows "mq_force_sync s t = None"
proof -
  have "mqs w' m = None" using assms(1) by (auto simp: destroy_mq_def split: bind_splits)
  then show ?thesis using assms by (simp add: mq_force_sync_def)
qed

definition one_push :: "mq_action list" where
  "one_push = [Do_new 4, Do_push 3 1 1000 False]"

lemma one_push_run:
  "map_option (\<lambda>s. (mq_brk (wd s), mqs (wd s) 1 = None, mq_key (the (mqs (wd s) 1)) 3, pend (sp s) 1 3))
     (mq_sched (mq_start [1000, 1100] 1) one_push) = Some (169, False, 81, [1000])"
  by (simp add: one_push_def mq_exec)


end
