(* ===== verification/Socket_Io.thy ===== *)
theory Socket_Io
  imports Link_List Steps
begin

text \<open>
  The asynchronous I/O of src/epoll_mutilthread: WSARecv and WSASend of src/KendyNet.c, the functions
  of include/Socket_comp.h that do the I/O and put requests back, and the event loop of src/epoll.c.
  Reading and writing are the same code on two sets of fields; a side of a socket is one of them.  The
  sections under the spin lock of a side are one step each.  The kernel is a parameter of the steps: what
  readv or writev returns, when the descriptor becomes ready, and the edge-triggered event that epoll
  then has for it.
\<close>

section \<open>State\<close>

text \<open>A request of the program: st_io without its buffers.\<close>

record st_io =
  bytes_transfer :: int
  error_code :: int

text \<open>One side of a socket: readable, active_read_count and pending_recv, or writeable,
  active_write_count and pending_send.\<close>

record io_side =
  io_ready :: int
  active_count :: int
  pending :: link_list

text \<open>The fields of a side that create_socket and InitSocket set.\<close>

definition InitSocket :: io_side where
  "InitSocket = \<lparr>io_ready = 0, active_count = 0, pending = link_list_clear create_link_list\<rparr>"

datatype io_pc =
  Io_outside
| Io_submit addr
| Io_active
| Io_transfer addr int bool
| Io_again addr int bool
| Io_notify addr

text \<open>
  The memory, the side, where the threads are, and the kernel: k_ready says whether a transfer would
  go on now, k_edge whether epoll has an event for the descriptor.  As ghosts, the requests of the
  pending list, those submitted, those put in the event queue, those that a call has returned as done,
  and the number of events handled.
\<close>

record io_state =
  nodes :: nheap
  reqs :: "addr \<Rightarrow> st_io"
  sd :: io_side
  io_at :: "nat \<Rightarrow> io_pc"
  k_ready :: bool
  k_edge :: bool
  waiting_reqs :: "addr list"
  io_submitted :: "addr list"
  io_events :: "addr list"
  io_returned :: "(addr \<times> int) list"
  io_edges :: nat

definition io_goto :: "io_state \<Rightarrow> nat \<Rightarrow> io_pc \<Rightarrow> io_state" where
  "io_goto s t p = s\<lparr>io_at := (io_at s)(t := p)\<rparr>"

section \<open>Submitting a request\<close>

text \<open>WSARecv and WSASend up to the unlock: the request goes to the end of the pending list; when the side
  is ready, the first pending request is taken to be done at once.\<close>

definition io_submit :: "io_state \<Rightarrow> nat \<Rightarrow> io_state option" where
  "io_submit s t = (case io_at s t of
     Io_submit io \<Rightarrow> do {
       (h, l) \<leftarrow> link_list_push_back (nodes s) (pending (sd s)) io;
       let s = s\<lparr>nodes := h, sd := (sd s)\<lparr>pending := l\<rparr>, waiting_reqs := waiting_reqs s @ [io]\<rparr>;
       if io_ready (sd s) \<noteq> 0 then do {
         (io, h, l) \<leftarrow> link_list_pop (nodes s) (pending (sd s));
         let s = s\<lparr>nodes := h, sd := (sd s)\<lparr>pending := l\<rparr>, waiting_reqs := tl (waiting_reqs s)\<rparr>;
         Some (io_goto s t (if io \<noteq> NULL then Io_transfer io (active_count (sd s)) False else Io_outside))
       }
       else Some (io_goto s t Io_outside)
     }
   | _ \<Rightarrow> None)"

definition io_call :: "io_state \<Rightarrow> nat \<Rightarrow> addr \<Rightarrow> io_state" where
  "io_call s t io = (io_goto s t (Io_submit io))\<lparr>io_submitted := io_submitted s @ [io]\<rparr>"

section \<open>Doing the I/O\<close>

text \<open>on_read_active and on_write_active, called by the event loop.\<close>

definition on_active :: "io_state \<Rightarrow> nat \<Rightarrow> io_state option" where
  "on_active s t = (case io_at s t of
     Io_active \<Rightarrow> do {
       let c = wrap32 (active_count (sd s) + 1);
       let s = s\<lparr>sd := (sd s)\<lparr>io_ready := 1, active_count := c\<rparr>, io_edges := io_edges s + 1\<rparr>;
       (req, h, l) \<leftarrow> link_list_pop (nodes s) (pending (sd s));
       let s = s\<lparr>nodes := h, sd := (sd s)\<lparr>pending := l\<rparr>, waiting_reqs := tl (waiting_reqs s)\<rparr>;
       Some (io_goto s t (if req \<noteq> NULL then Io_transfer req c True else Io_outside))
     }
   | _ \<Rightarrow> None)"

text \<open>What readv or writev does, after its retries when it is interrupted.\<close>

datatype io_result = Io_bytes nat | Io_eagain | Io_errno int

text \<open>The transfer in _recv and _send: its result is stored in the request; the call goes on, when it would
  have to wait, or ends, with an event when notify is set.\<close>

definition io_transfer :: "io_state \<Rightarrow> nat \<Rightarrow> io_result \<Rightarrow> io_state option" where
  "io_transfer s t res = (case io_at s t of
     Io_transfer io c notify \<Rightarrow>
       (let bytes = (case res of Io_bytes n \<Rightarrow> int n | _ \<Rightarrow> -1);
            err = (case res of Io_errno e \<Rightarrow> e | _ \<Rightarrow> 0);
            s = s\<lparr>reqs := (reqs s)(io := \<lparr>bytes_transfer = bytes, error_code = err\<rparr>)\<rparr>;
            ret = (if bytes = 0 then -1 else bytes)
        in if res = Io_eagain then Some (io_goto s t (Io_again io c notify))
           else if notify then Some (io_goto s t (Io_notify io))
           else Some ((io_goto s t Io_outside)\<lparr>io_returned := io_returned s @ [(io, ret)]\<rparr>))
   | _ \<Rightarrow> None)"

text \<open>The lock section of _recv and _send after EAGAIN: try again if the side has become active since, else
  put the request back at the front.\<close>

definition io_put_back :: "io_state \<Rightarrow> nat \<Rightarrow> io_state option" where
  "io_put_back s t = (case io_at s t of
     Io_again io c notify \<Rightarrow>
       if c \<noteq> active_count (sd s) then Some (io_goto s t (Io_transfer io (active_count (sd s)) notify))
       else do {
         (h, l) \<leftarrow> link_list_push_front (nodes s) (pending (sd s)) io;
         Some ((io_goto s t Io_outside)
                 \<lparr>nodes := h, sd := (sd s)\<lparr>io_ready := 0, pending := l\<rparr>, waiting_reqs := io # waiting_reqs s\<rparr>)
       }
   | _ \<Rightarrow> None)"

definition io_notify :: "io_state \<Rightarrow> nat \<Rightarrow> io_state option" where
  "io_notify s t = (case io_at s t of
     Io_notify io \<Rightarrow> Some ((io_goto s t Io_outside)\<lparr>io_events := io_events s @ [io]\<rparr>)
   | _ \<Rightarrow> None)"

section \<open>The threads and the kernel\<close>

text \<open>The requests that are on their way: pending, or with a thread.\<close>

fun io_with :: "io_pc \<Rightarrow> addr option" where
  "io_with (Io_submit io) = Some io"
| "io_with (Io_transfer io c n) = Some io"
| "io_with (Io_again io c n) = Some io"
| "io_with (Io_notify io) = Some io"
| "io_with _ = None"

definition io_idle :: "io_state \<Rightarrow> addr \<Rightarrow> bool" where
  "io_idle s io \<longleftrightarrow> io \<notin> set (waiting_reqs s) \<and> (\<forall>t. io_with (io_at s t) \<noteq> Some io)"

text \<open>
  Threads submit requests that are not on their way, the event loop of any thread handles an event, and
  the descriptor becomes ready, which makes an event.  A transfer meets EAGAIN exactly when the
  descriptor is not ready; otherwise it may leave it ready or not.
\<close>

inductive io_step :: "io_state \<Rightarrow> io_state \<Rightarrow> bool" where
  io_start: "io_at s t = Io_outside \<Longrightarrow> io_idle s io \<Longrightarrow> ll_free (nodes s) io \<Longrightarrow> io_step s (io_call s t io)"
| io_in_submit: "io_submit s t = Some s' \<Longrightarrow> io_step s s'"
| io_event: "io_at s t = Io_outside \<Longrightarrow> k_edge s \<Longrightarrow> io_step s ((io_goto s t Io_active)\<lparr>k_edge := False\<rparr>)"
| io_in_active: "on_active s t = Some s' \<Longrightarrow> io_step s s'"
| io_in_transfer: "io_transfer s t res = Some s' \<Longrightarrow> res = Io_eagain \<longleftrightarrow> \<not> k_ready s \<Longrightarrow> r \<longrightarrow> k_ready s \<Longrightarrow>
    io_step s (s'\<lparr>k_ready := r\<rparr>)"
| io_in_put_back: "io_put_back s t = Some s' \<Longrightarrow> io_step s s'"
| io_in_notify: "io_notify s t = Some s' \<Longrightarrow> io_step s s'"
| io_becomes_ready: "io_step s (s\<lparr>k_ready := True, k_edge := True\<rparr>)"

inductive_cases io_stepE: "io_step s s'"

fun_cases io_withE: "io_with p = Some io"

section \<open>Requests\<close>

text \<open>Every request on its way is in one place only, its node is free unless it is pending, and it has been
  submitted once more than it has been completed.\<close>

definition io_places :: "io_state \<Rightarrow> bool" where
  "io_places s \<longleftrightarrow> ll_repr (nodes s) (pending (sd s)) (waiting_reqs s) \<and> finite (dom (nodes s)) \<and> card (dom (nodes s)) < 2 ^ 31 \<and>
     (\<forall>t io. io_with (io_at s t) = Some io \<longrightarrow> ll_free (nodes s) io \<and> io \<notin> set (waiting_reqs s) \<and>
        (\<forall>u. io_with (io_at s u) = Some io \<longrightarrow> u = t))"

definition io_done :: "io_state \<Rightarrow> addr \<Rightarrow> nat" where
  "io_done s io = count_list (io_events s) io + count_list (map fst (io_returned s)) io"

definition io_counts :: "io_state \<Rightarrow> bool" where
  "io_counts s \<longleftrightarrow> (\<forall>io. count_list (io_submitted s) io = io_done s io + of_bool (\<not> io_idle s io))"

text \<open>A step that changes where thread t is, for a request that is with t before and after it.\<close>

lemma io_goto_simps [simp]:
  "nodes (io_goto s t p) = nodes s" "sd (io_goto s t p) = sd s" "io_at (io_goto s t p) = (io_at s)(t := p)"
  "waiting_reqs (io_goto s t p) = waiting_reqs s" "k_ready (io_goto s t p) = k_ready s" "k_edge (io_goto s t p) = k_edge s"
  "io_submitted (io_goto s t p) = io_submitted s" "io_events (io_goto s t p) = io_events s"
  "io_returned (io_goto s t p) = io_returned s" "io_edges (io_goto s t p) = io_edges s"
  by (simp_all add: io_goto_def)

lemma io_placesD:
  assumes "io_places s"
  shows "ll_repr (nodes s) (pending (sd s)) (waiting_reqs s)" "finite (dom (nodes s))" "card (dom (nodes s)) < 2 ^ 31"
    "io_with (io_at s t) = Some io \<Longrightarrow> ll_free (nodes s) io"
    "io_with (io_at s t) = Some io \<Longrightarrow> io \<notin> set (waiting_reqs s)"
    "io_with (io_at s t) = Some io \<Longrightarrow> io_with (io_at s u) = Some io \<Longrightarrow> u = t"
  using assms unfolding io_places_def by blast+

lemma io_places_keep:
  assumes p: "io_places s" and "nodes s' = nodes s" "pending (sd s') = pending (sd s)" "waiting_reqs s' = waiting_reqs s"
    and "io_at s' = (io_at s)(t := q)" "io_with q = None \<or> io_with q = io_with (io_at s t)"
  shows "io_places s'"
proof -
  note d = io_placesD [OF p]
  have w: "io_with (io_at s u) = Some io" if "io_with (io_at s' u) = Some io" for u io
    using that assms(5,6) by (cases "u = t") auto
  have "ll_free (nodes s) io \<and> io \<notin> set (waiting_reqs s) \<and> (\<forall>v. io_with (io_at s' v) = Some io \<longrightarrow> v = u)"
    if r: "io_with (io_at s' u) = Some io" for u io
    using d(4,5) [OF w [OF r]] d(6) [OF w [OF r]] w by blast
  then show ?thesis using d(1-3) assms(2-4) unfolding io_places_def by simp
qed

lemma io_idle_keep:
  assumes "waiting_reqs s' = waiting_reqs s" and "io_at s' = (io_at s)(t := q)" and "io_with q = io_with (io_at s t)"
  shows "io_idle s' io = io_idle s io"
  using assms unfolding io_idle_def by (metis fun_upd_apply)

text \<open>There is room for one more request on the pending list.\<close>

lemma io_room:
  assumes p: "io_places s" and f: "ll_free (nodes s) io" "io \<notin> set (waiting_reqs s)"
  shows "ll_room (Suc (length (waiting_reqs s)))"
proof -
  have r: "ll_repr (nodes s) (pending (sd s)) (waiting_reqs s)" by (rule io_placesD [OF p])
  then have "insert io (set (waiting_reqs s)) \<subseteq> dom (nodes s)" using f by (auto simp: ll_repr_def ll_free_def dest: ll_seg_dom)
  from card_mono [OF io_placesD(2) [OF p] this] have "Suc (length (waiting_reqs s)) \<le> card (dom (nodes s))"
    using f r by (simp add: ll_repr_def distinct_card)
  then show ?thesis using io_placesD(3) [OF p] by (simp add: ll_room_def)
qed

text \<open>Pushing the request of a thread, and popping one for a thread.\<close>

lemma io_places_push:
  assumes p: "io_places s" and w: "io_with (io_at s t) = Some io"
    and h: "dom h = dom (nodes s)" "ll_repr h l xs" "set xs = insert io (set (waiting_reqs s))"
      "\<And>m. m \<notin> insert io (set (waiting_reqs s)) \<Longrightarrow> h m = nodes s m"
    and s': "nodes s' = h" "pending (sd s') = l" "waiting_reqs s' = xs" "io_at s' = (io_at s)(t := q)" "io_with q = None"
  shows "io_places s'"
proof -
  note d = io_placesD [OF p]
  have "ll_free h r \<and> r \<notin> set xs \<and> (\<forall>v. io_with (io_at s' v) = Some r \<longrightarrow> v = u)"
    if r: "io_with (io_at s' u) = Some r" for u r
  proof -
    have u: "u \<noteq> t" "io_with (io_at s u) = Some r" using r s'(4,5) by (auto split: if_splits)
    then have "r \<noteq> io" using d(6) [OF w] by auto
    then have "h r = nodes s r" "r \<notin> set xs" using h(3,4) d(5) [OF u(2)] by auto
    then show ?thesis using d(4) [OF u(2)] d(6) [OF u(2)] s'(4,5) by (auto simp: ll_free_def split: if_splits)
  qed
  then show ?thesis using h(1,2) d(2,3) s'(1-3) unfolding io_places_def by simp
qed

lemma io_places_pop:
  assumes p: "io_places s" and w: "io_with (io_at s t) = None" and po: "link_list_pop (nodes s) (pending (sd s)) = Some (io, h, l)"
    and s': "nodes s' = h" "pending (sd s') = l" "waiting_reqs s' = tl (waiting_reqs s)" "io_at s' = (io_at s)(t := q)"
      "io_with q = (if io = NULL then None else Some io)"
  shows "io_places s'" and "waiting_reqs s = (if io = NULL then [] else io # tl (waiting_reqs s))"
proof -
  note d = io_placesD [OF p]
  have "io_places s' \<and> waiting_reqs s = (if io = NULL then [] else io # tl (waiting_reqs s))"
  proof (cases "waiting_reqs s")
    case Nil
    then have e: "io = NULL" "h = nodes s" "l = pending (sd s)" using link_list_pop_empty [of "nodes s" "pending (sd s)"] d(1) po by simp_all
    then show ?thesis using io_places_keep [OF p, of s' t q] s' Nil by simp
  next
    case (Cons x xs)
    obtain h' l' where 1: "link_list_pop (nodes s) (pending (sd s)) = Some (x, h', l')" "ll_repr h' l' xs" "ll_free h' x"
      "\<And>m. m \<noteq> x \<Longrightarrow> h' m = nodes s m"
      by (rule link_list_pop_repr [of "nodes s" "pending (sd s)" x xs]) (use d(1) Cons in auto)
    have e: "io = x" "h = h'" "l = l'" "x \<noteq> NULL" using 1(1,3) po by (auto simp: ll_free_def)
    have x: "x \<notin> set xs" using d(1) Cons by (simp add: ll_repr_def)
    have "ll_free h r \<and> r \<notin> set xs \<and> (\<forall>v. io_with (io_at s' v) = Some r \<longrightarrow> v = u)"
      if r: "io_with (io_at s' u) = Some r" for u r
    proof (cases "u = t")
      case True
      then have "r = x" using r s'(4,5) e by simp
      moreover have "v = t" if "io_with (io_at s' v) = Some x" for v
        using that s'(4) d(5) [of v x] Cons by (auto split: if_splits)
      ultimately show ?thesis using 1(3) e(2) x True by auto
    next
      case False
      then have u: "io_with (io_at s u) = Some r" using r s'(4) by simp
      then have "r \<noteq> x" "r \<notin> set xs" using d(5) [OF u] Cons by auto
      then show ?thesis using d(4) [OF u] d(6) [OF u] s'(4,5) 1(4) [of r] e by (auto simp: ll_free_def split: if_splits)
    qed
    then show ?thesis using 1(2) e d(2,3) ll_push_dom(3) [OF po] s'(1-3) Cons unfolding io_places_def by simp
  qed
  then show "io_places s'" "waiting_reqs s = (if io = NULL then [] else io # tl (waiting_reqs s))" by simp_all
qed

definition on_way :: "io_state \<Rightarrow> addr set" where
  "on_way s = set (waiting_reqs s) \<union> {io. \<exists>t. io_with (io_at s t) = Some io}"

lemma io_idle_on_way: "io_idle s io \<longleftrightarrow> io \<notin> on_way s"
  by (auto simp: io_idle_def on_way_def)

lemma withs_upd:
  "f t = None \<Longrightarrow> {y. \<exists>u. (f(t := v)) u = Some y} = set_option v \<union> {y. \<exists>u. f u = Some y}"
  "f t = Some x \<Longrightarrow> (\<And>u. f u = Some x \<Longrightarrow> u = t) \<Longrightarrow>
     {y. \<exists>u. (f(t := v)) u = Some y} = set_option v \<union> ({y. \<exists>u. f u = Some y} - {x})"
proof -
  have "(\<exists>u. (f(t := v)) u = Some y) \<longleftrightarrow> v = Some y \<or> (\<exists>u. u \<noteq> t \<and> f u = Some y)" for y by auto
  then have *: "{y. \<exists>u. (f(t := v)) u = Some y} = set_option v \<union> {y. \<exists>u. u \<noteq> t \<and> f u = Some y}" by auto
  show "{y. \<exists>u. (f(t := v)) u = Some y} = set_option v \<union> {y. \<exists>u. f u = Some y}" if "f t = None"
  proof -
    have "(\<exists>u. u \<noteq> t \<and> f u = Some y) \<longleftrightarrow> (\<exists>u. f u = Some y)" for y using that by (metis option.distinct(1))
    then show ?thesis using * by simp
  qed
  show "{y. \<exists>u. (f(t := v)) u = Some y} = set_option v \<union> ({y. \<exists>u. f u = Some y} - {x})"
    if "f t = Some x" "\<And>u. f u = Some x \<Longrightarrow> u = t"
  proof -
    have "(\<exists>u. u \<noteq> t \<and> f u = Some y) \<longleftrightarrow> (\<exists>u. f u = Some y) \<and> y \<noteq> x" for y using that by (metis option.inject)
    then have "{y. \<exists>u. u \<noteq> t \<and> f u = Some y} = {y. \<exists>u. f u = Some y} - {x}" by auto
    then show ?thesis using * by simp
  qed
qed

lemma on_way_upd:
  assumes "io_at s' = (io_at s)(t := q)" and "waiting_reqs s' = waiting_reqs s"
  shows "on_way s' = set (waiting_reqs s) \<union> {io. \<exists>u. ((\<lambda>u. io_with (io_at s u))(t := io_with q)) u = Some io}"
proof -
  have "io_with (io_at s' u) = ((\<lambda>u. io_with (io_at s u))(t := io_with q)) u" for u using assms(1) by simp
  then show ?thesis using assms(2) by (simp only: on_way_def)
qed

lemma on_way_none:
  assumes "io_with (io_at s t) = None" and "io_at s' = (io_at s)(t := q)" and "waiting_reqs s' = waiting_reqs s"
  shows "on_way s' = set_option (io_with q) \<union> on_way s"
  by (simp only: on_way_upd [OF assms(2,3)] withs_upd(1) [of "\<lambda>u. io_with (io_at s u)", OF assms(1)], simp only: on_way_def, blast)

lemma on_way_some:
  assumes p: "io_places s" and w: "io_with (io_at s t) = Some io" and s': "io_at s' = (io_at s)(t := q)" "waiting_reqs s' = waiting_reqs s"
  shows "on_way s' = set_option (io_with q) \<union> (on_way s - {io})"
  by (simp only: on_way_upd [OF s'] withs_upd(2) [of "\<lambda>u. io_with (io_at s u)", OF w io_placesD(6) [OF p w]], simp only: on_way_def)
    (use io_placesD(5) [OF p w] in blast)

text \<open>What a step does to the counts.\<close>

lemma io_counts_same:
  assumes "io_counts s" and "on_way s' = on_way s" and "io_submitted s' = io_submitted s" "io_events s' = io_events s"
    "io_returned s' = io_returned s"
  shows "io_counts s'"
  using assms by (simp add: io_counts_def io_done_def io_idle_on_way)

lemma io_counts_finish:
  assumes "io_counts s" and "io \<in> on_way s" and "on_way s' = on_way s - {io}" and "io_submitted s' = io_submitted s"
    and "io_events s' = io_events s @ [io] \<and> io_returned s' = io_returned s \<or>
      io_events s' = io_events s \<and> io_returned s' = io_returned s @ [(io, ret)]"
  shows "io_counts s'"
  using assms by (auto simp: io_counts_def io_done_def io_idle_on_way)

definition io_ok :: "io_state \<Rightarrow> bool" where
  "io_ok s \<longleftrightarrow> io_places s \<and> io_counts s"

lemma io_ok_call:
  assumes ok: "io_ok s" and t: "io_at s t = Io_outside" and io: "io_idle s io" "ll_free (nodes s) io"
  shows "io_ok (io_call s t io)"
proof -
  let ?s = "io_call s t io"
  have p: "io_places s" and c: "io_counts s" using ok by (simp_all add: io_ok_def)
  note d = io_placesD [OF p]
  have "ll_free (nodes s) r \<and> r \<notin> set (waiting_reqs s) \<and> (\<forall>v. io_with (io_at ?s v) = Some r \<longrightarrow> v = u)"
    if r: "io_with (io_at ?s u) = Some r" for u r
  proof (cases "u = t")
    case True
    then show ?thesis using r io by (auto simp: io_call_def io_idle_def)
  next
    case False
    then have u: "io_with (io_at s u) = Some r" using r by (simp add: io_call_def)
    then have "r \<noteq> io" using io(1) by (auto simp: io_idle_def)
    then show ?thesis using d(4,5,6) [OF u] by (auto simp: io_call_def)
  qed
  moreover have f: "nodes ?s = nodes s" "sd ?s = sd s" "waiting_reqs ?s = waiting_reqs s" by (simp_all add: io_call_def)
  ultimately have "io_places ?s" using d(1-3) unfolding io_places_def f by blast
  moreover have ow: "on_way ?s = insert io (on_way s)" using on_way_none [of s t ?s "Io_submit io"] t by (simp add: io_call_def)
  have "io_counts ?s"
    unfolding io_counts_def
  proof
    fix r
    have "count_list (io_submitted ?s) r = count_list (io_submitted s) r + of_bool (r = io)" "io_done ?s r = io_done s r"
      by (simp_all add: io_call_def io_done_def)
    moreover have "io_idle ?s r \<longleftrightarrow> io_idle s r \<and> r \<noteq> io" by (auto simp: io_idle_on_way ow)
    ultimately show "count_list (io_submitted ?s) r = io_done ?s r + of_bool (\<not> io_idle ?s r)"
      using c io(1) by (simp add: io_counts_def)
  qed
  ultimately show ?thesis by (simp add: io_ok_def)
qed

lemma io_ok_pop:
  assumes ok: "io_ok s" and w: "io_with (io_at s t) = None" and po: "link_list_pop (nodes s) (pending (sd s)) = Some (io, h, l)"
    and s': "nodes s' = h" "pending (sd s') = l" "waiting_reqs s' = tl (waiting_reqs s)" "io_at s' = (io_at s)(t := q)"
      "io_with q = (if io = NULL then None else Some io)"
    and g: "io_submitted s' = io_submitted s" "io_events s' = io_events s" "io_returned s' = io_returned s"
  shows "io_ok s'"
proof -
  have p: "io_places s" and c: "io_counts s" using ok by (simp_all add: io_ok_def)
  note r = io_places_pop [OF p w po s']
  have "on_way s' = on_way s"
  proof (cases "io = NULL")
    case True
    then show ?thesis using on_way_none [OF w s'(4)] r(2) s'(3,5) by simp
  next
    case False
    let ?s = "s\<lparr>waiting_reqs := tl (waiting_reqs s)\<rparr>"
    have "on_way s' = insert io (on_way ?s)" using on_way_none [of ?s t s' q] w s'(3-5) False by simp
    moreover have "set (waiting_reqs s) = insert io (set (tl (waiting_reqs s)))" using r(2) False by (metis list.simps(15))
    ultimately show ?thesis by (auto simp: on_way_def)
  qed
  then show ?thesis using r(1) io_counts_same [OF c _ g] by (simp add: io_ok_def)
qed

lemma io_ok_submit:
  assumes ok: "io_ok s" and s': "io_submit s t = Some s'"
  shows "io_ok s'" 
proof -
  have p: "io_places s" and c: "io_counts s" using ok by (simp_all add: io_ok_def)
  note d = io_placesD [OF p]
  obtain io where t: "io_at s t = Io_submit io" using s' by (auto simp: io_submit_def split: io_pc.splits)
  have w: "io_with (io_at s t) = Some io" using t by simp
  obtain h l where pu: "link_list_push_back (nodes s) (pending (sd s)) io = Some (h, l)"
    using s' t by (auto simp: io_submit_def split: Option.bind_splits)
  obtain h' l' where 1: "link_list_push_back (nodes s) (pending (sd s)) io = Some (h', l')"
    "ll_repr h' l' (waiting_reqs s @ [io])" "\<And>m. m \<notin> insert io (set (waiting_reqs s)) \<Longrightarrow> h' m = nodes s m"
    by (rule link_list_push_back_repr [OF d(1) d(4) [OF w] d(5) [OF w] io_room [OF p d(4) [OF w] d(5) [OF w]]]) (rule that)
  define s1 where "s1 = io_goto (s\<lparr>nodes := h, sd := (sd s)\<lparr>pending := l\<rparr>, waiting_reqs := waiting_reqs s @ [io]\<rparr>) t Io_outside"
  have s1: "nodes s1 = h" "pending (sd s1) = l" "waiting_reqs s1 = waiting_reqs s @ [io]" "io_at s1 = (io_at s)(t := Io_outside)"
    "io_submitted s1 = io_submitted s" "io_events s1 = io_events s" "io_returned s1 = io_returned s"
    by (simp_all add: s1_def)
  have p1: "io_places s1"
    by (rule io_places_push [OF p w ll_push_dom(1) [OF pu] _ _ _ s1(1-4)]) (use 1 pu in auto)
  have ow1: "on_way s1 = on_way s"
  proof -
    have "on_way (io_goto s t Io_outside) = on_way s - {io}" using on_way_some [OF p w, of "io_goto s t Io_outside" Io_outside] by simp
    moreover have "on_way s1 = insert io (on_way (io_goto s t Io_outside))" by (auto simp: on_way_def s1(3) s1_def)
    moreover have "io \<in> on_way s" using w by (auto simp: on_way_def)
    ultimately show ?thesis by auto
  qed
  have c1: "io_counts s1" by (rule io_counts_same [OF c ow1 s1(5-7)])
  show ?thesis
  proof (cases "io_ready (sd s) = 0")
    case True
    then have "s' = s1" using s' t pu by (simp add: io_submit_def s1_def io_goto_def)
    then show ?thesis using p1 c1 by (simp add: io_ok_def)
  next
    case False
    have "\<exists>x h2 l2. link_list_pop h l = Some (x, h2, l2) \<and>
      s' = io_goto (s1\<lparr>nodes := h2, sd := (sd s1)\<lparr>pending := l2\<rparr>, waiting_reqs := tl (waiting_reqs s1)\<rparr>) t
        (if x \<noteq> NULL then Io_transfer x (active_count (sd s)) False else Io_outside)"
      using s' t pu False by (auto simp: io_submit_def Let_def s1_def io_goto_def split: Option.bind_splits)
    then obtain x h2 l2 where po: "link_list_pop h l = Some (x, h2, l2)"
      and e: "s' = io_goto (s1\<lparr>nodes := h2, sd := (sd s1)\<lparr>pending := l2\<rparr>, waiting_reqs := tl (waiting_reqs s1)\<rparr>) t
        (if x \<noteq> NULL then Io_transfer x (active_count (sd s)) False else Io_outside)" by blast
    have "io_ok s1" using p1 c1 by (simp add: io_ok_def)
    then show ?thesis by (rule io_ok_pop [where t = t]) (use po s1 in \<open>auto simp: e\<close>)
  qed
qed

lemma io_ok_active:
  assumes ok: "io_ok s" and s': "on_active s t = Some s'"
  shows "io_ok s'"
proof -
  have t: "io_at s t = Io_active" using s' by (auto simp: on_active_def split: io_pc.splits)
  obtain x h l where "link_list_pop (nodes s) (pending (sd s)) = Some (x, h, l)"
    "nodes s' = h" "pending (sd s') = l" "waiting_reqs s' = tl (waiting_reqs s)"
    "io_at s' = (io_at s)(t := if x \<noteq> NULL then Io_transfer x (wrap32 (active_count (sd s) + 1)) True else Io_outside)"
    "io_submitted s' = io_submitted s" "io_events s' = io_events s" "io_returned s' = io_returned s"
    using s' t by (auto simp: on_active_def Let_def split: Option.bind_splits)
  then show ?thesis using t by (intro io_ok_pop [OF ok, where t = t and io = x]) auto
qed

lemma io_ok_keep:
  assumes ok: "io_ok s" and "nodes s' = nodes s" "pending (sd s') = pending (sd s)" "waiting_reqs s' = waiting_reqs s"
    and "io_at s' = (io_at s)(t := q)" "io_with q = io_with (io_at s t)"
    and "io_submitted s' = io_submitted s" "io_events s' = io_events s" "io_returned s' = io_returned s"
  shows "io_ok s'"
proof -
  have p: "io_places s" and c: "io_counts s" using ok by (simp_all add: io_ok_def)
  have "io_places s'" by (rule io_places_keep [OF p assms(2-5)]) (simp add: assms(6))
  moreover have "io_idle s' io = io_idle s io" for io by (rule io_idle_keep [OF assms(4-6)])
  then have "on_way s' = on_way s" using io_idle_on_way by blast
  ultimately show ?thesis using io_counts_same [OF c _ assms(7-9)] by (simp add: io_ok_def)
qed

lemma io_ok_finish:
  assumes ok: "io_ok s" and w: "io_with (io_at s t) = Some io"
    and "nodes s' = nodes s" "pending (sd s') = pending (sd s)" "waiting_reqs s' = waiting_reqs s"
    and "io_at s' = (io_at s)(t := q)" "io_with q = None" and "io_submitted s' = io_submitted s"
    and "io_events s' = io_events s @ [io] \<and> io_returned s' = io_returned s \<or>
      io_events s' = io_events s \<and> io_returned s' = io_returned s @ [(io, ret)]"
  shows "io_ok s'"
proof -
  have p: "io_places s" and c: "io_counts s" using ok by (simp_all add: io_ok_def)
  have "io_places s'" by (rule io_places_keep [OF p assms(3-6)]) (simp add: assms(7))
  moreover have "on_way s' = on_way s - {io}" using on_way_some [OF p w assms(6,5)] assms(7) by simp
  moreover have "io \<in> on_way s" using w by (auto simp: on_way_def)
  ultimately show ?thesis using io_counts_finish [OF c _ _ assms(8,9)] by (simp add: io_ok_def)
qed

lemma io_ok_transfer:
  assumes ok: "io_ok s" and s': "io_transfer s t res = Some s'"
  shows "io_ok (s'\<lparr>k_ready := r\<rparr>)"
proof -
  obtain io c n where t: "io_at s t = Io_transfer io c n" using s' by (auto simp: io_transfer_def split: io_pc.splits)
  consider "res = Io_eagain" | "res \<noteq> Io_eagain" "n" | "res \<noteq> Io_eagain" "\<not> n" by blast
  then show ?thesis
  proof cases
    case 1
    then show ?thesis using s' t by (intro io_ok_keep [OF ok, where t = t]) (auto simp: io_transfer_def Let_def)
  next
    case 2
    then show ?thesis using s' t by (intro io_ok_keep [OF ok, where t = t]) (auto simp: io_transfer_def Let_def)
  next
    case 3
    have "io_with (io_at s t) = Some io" using t by simp
    then show ?thesis using s' t 3 by (rule_tac io_ok_finish [OF ok]) (auto simp: io_transfer_def Let_def)
  qed
qed

lemma io_ok_put_back:
  assumes ok: "io_ok s" and s': "io_put_back s t = Some s'"
  shows "io_ok s'"
proof -
  have p: "io_places s" and c: "io_counts s" using ok by (simp_all add: io_ok_def)
  note d = io_placesD [OF p]
  obtain io k n where t: "io_at s t = Io_again io k n" using s' by (auto simp: io_put_back_def split: io_pc.splits)
  have w: "io_with (io_at s t) = Some io" using t by simp
  show ?thesis
  proof (cases "k = active_count (sd s)")
    case False
    then show ?thesis using s' t by (intro io_ok_keep [OF ok, where t = t]) (auto simp: io_put_back_def)
  next
    case True
    obtain h' l' where 1: "link_list_push_front (nodes s) (pending (sd s)) io = Some (h', l')"
      "ll_repr h' l' (io # waiting_reqs s)" "\<And>m. m \<notin> insert io (set (waiting_reqs s)) \<Longrightarrow> h' m = nodes s m"
      by (rule link_list_push_front_repr [OF d(1) d(4) [OF w] d(5) [OF w] io_room [OF p d(4) [OF w] d(5) [OF w]]]) (rule that)
    have s1: "nodes s' = h'" "pending (sd s') = l'" "waiting_reqs s' = io # waiting_reqs s" "io_at s' = (io_at s)(t := Io_outside)"
      "io_submitted s' = io_submitted s" "io_events s' = io_events s" "io_returned s' = io_returned s"
      using s' t True 1(1) by (auto simp: io_put_back_def)
    have "io_places s'"
      by (rule io_places_push [OF p w ll_push_dom(2) [OF 1(1)] _ _ _ s1(1-4)]) (use 1 in auto)
    moreover have "on_way s' = on_way s"
    proof -
      have "on_way (io_goto s t Io_outside) = on_way s - {io}" using on_way_some [OF p w, of "io_goto s t Io_outside" Io_outside] by simp
      moreover have "on_way s' = insert io (on_way (io_goto s t Io_outside))" by (auto simp: on_way_def s1(3,4))
      moreover have "io \<in> on_way s" using w by (auto simp: on_way_def)
      ultimately show ?thesis by auto
    qed
    ultimately show ?thesis using io_counts_same [OF c _ s1(5-7)] by (simp add: io_ok_def)
  qed
qed

lemma io_ok_notify:
  assumes ok: "io_ok s" and s': "io_notify s t = Some s'"
  shows "io_ok s'"
proof -
  obtain io where t: "io_at s t = Io_notify io" using s' by (auto simp: io_notify_def split: io_pc.splits)
  then have "io_with (io_at s t) = Some io" by simp
  then show ?thesis using s' t by (rule_tac io_ok_finish [OF ok]) (auto simp: io_notify_def)
qed

lemma io_ok_step: "io_ok s \<Longrightarrow> io_step s s' \<Longrightarrow> io_ok s'"
proof (erule io_step.cases)
  fix s0 t assume ok: "io_ok s" and e: "s = s0" "s' = (io_goto s0 t Io_active)\<lparr>k_edge := False\<rparr>" and t: "io_at s0 t = Io_outside"
  show "io_ok s'" using ok e t by (intro io_ok_keep [of s s' t Io_active]) auto
next
  fix s0 assume ok: "io_ok s" and e: "s = s0" "s' = s0\<lparr>k_ready := True, k_edge := True\<rparr>"
  show "io_ok s'" using ok e by (intro io_ok_keep [of s s' undefined "io_at s undefined"]) auto
qed (auto intro: io_ok_call io_ok_submit io_ok_active io_ok_transfer io_ok_put_back io_ok_notify)

section \<open>Readiness\<close>

text \<open>
  While the descriptor is ready, there is an event for it, or one being handled, or the side is marked
  ready; and a thread that is about to put its request back, because it has met EAGAIN in the current
  count, sees the descriptor ready only when there is an event to come.
\<close>

definition io_flags :: "io_state \<Rightarrow> bool" where
  "io_flags s \<longleftrightarrow> active_count (sd s) = int (io_edges s) \<and>
     (k_ready s \<longrightarrow> k_edge s \<or> (\<exists>t. io_at s t = Io_active) \<or> io_ready (sd s) \<noteq> 0) \<and>
     (\<forall>t io c n. io_at s t = Io_again io c n \<and> c = active_count (sd s) \<and> k_ready s \<longrightarrow>
        k_edge s \<or> (\<exists>u. io_at s u = Io_active)) \<and>
     (\<forall>t io c n. io_at s t = Io_transfer io c n \<or> io_at s t = Io_again io c n \<longrightarrow> c \<le> active_count (sd s))"

lemma io_flagsD:
  assumes "io_flags s"
  shows "active_count (sd s) = int (io_edges s)"
    "k_ready s \<Longrightarrow> k_edge s \<or> (\<exists>t. io_at s t = Io_active) \<or> io_ready (sd s) \<noteq> 0"
    "io_at s t = Io_again io (active_count (sd s)) n \<Longrightarrow> k_ready s \<Longrightarrow> k_edge s \<or> (\<exists>u. io_at s u = Io_active)"
    "io_at s t = Io_transfer io c n \<or> io_at s t = Io_again io c n \<Longrightarrow> c \<le> active_count (sd s)"
  using assms unfolding io_flags_def by blast+

text \<open>A step of thread t that leaves the flags and the kernel alone, or only makes the descriptor less ready.\<close>

lemma io_flags_keep:
  assumes f: "io_flags s" and "io_edges s' = io_edges s" "active_count (sd s') = active_count (sd s)" "io_ready (sd s') = io_ready (sd s)"
    and k: "k_ready s' \<longrightarrow> k_ready s" "k_edge s' = k_edge s" and at: "io_at s' = (io_at s)(t := q)" "io_at s t \<noteq> Io_active"
    and q: "\<And>io c n. q = Io_again io c n \<Longrightarrow> c \<le> active_count (sd s) \<and> \<not> k_ready s'"
      "\<And>io c n. q = Io_transfer io c n \<Longrightarrow> c \<le> active_count (sd s)"
  shows "io_flags s'"
proof -
  note d = io_flagsD [OF f]
  have act: "(\<exists>u. io_at s u = Io_active) \<longrightarrow> (\<exists>u. io_at s' u = Io_active)" using at by (metis fun_upd_apply)
  have "k_edge s' \<or> (\<exists>u. io_at s' u = Io_active)"
    if "io_at s' u = Io_again io (active_count (sd s')) n" "k_ready s'" for u io n
  proof -
    have "u \<noteq> t" using that q(1) at(1) by auto
    then have "k_edge s \<or> (\<exists>u. io_at s u = Io_active)" using d(3) [of u io n] that k at(1) assms(3) by simp
    then show ?thesis using act k(2) by blast
  qed
  moreover have "c \<le> active_count (sd s')" if "io_at s' u = Io_transfer io c n \<or> io_at s' u = Io_again io c n" for u io c n
    using that d(4) [of u io c n] q at(1) assms(3) by (cases "u = t") auto
  moreover have "k_ready s' \<longrightarrow> k_edge s' \<or> (\<exists>u. io_at s' u = Io_active) \<or> io_ready (sd s') \<noteq> 0"
    using d(2) k act assms(4) by auto
  ultimately show ?thesis using d(1) assms(2,3) unfolding io_flags_def by metis
qed

lemma io_flags_active:
  assumes f: "io_flags s" and b: "Suc (io_edges s) < 2 ^ 31" and s': "on_active s t = Some s'"
  shows "io_flags s'"
proof -
  note d = io_flagsD [OF f]
  have t: "io_at s t = Io_active" using s' by (auto simp: on_active_def split: io_pc.splits)
  have w: "wrap32 (active_count (sd s) + 1) = active_count (sd s) + 1" using d(1) b by (intro wrap32_id) auto
  obtain x where e: "io_edges s' = Suc (io_edges s)" "active_count (sd s') = active_count (sd s) + 1" "io_ready (sd s') = 1"
    "io_at s' = (io_at s)(t := if x \<noteq> NULL then Io_transfer x (active_count (sd s) + 1) True else Io_outside)"
    using s' t w by (auto simp: on_active_def Let_def split: Option.bind_splits)
  have "c \<le> active_count (sd s)" if "io_at s' u = Io_again io c n" for u io c n
    using that d(4) [of u io c n] e(4) by (cases "u = t") (auto split: if_splits)
  then have a: "io_at s' u \<noteq> Io_again io (active_count (sd s')) n" for u io n using e(2) by force
  have "c \<le> active_count (sd s')" if "io_at s' u = Io_transfer io c n \<or> io_at s' u = Io_again io c n" for u io c n
    using that d(4) [of u io c n] e(2,4) by (cases "u = t") (auto split: if_splits)
  then show ?thesis using a d(1) e(1-3) unfolding io_flags_def by force
qed

lemma io_flags_put_back:
  assumes f: "io_flags s" and s': "io_put_back s t = Some s'"
  shows "io_flags s'"
proof -
  note d = io_flagsD [OF f]
  obtain io c n where t: "io_at s t = Io_again io c n" using s' by (auto simp: io_put_back_def split: io_pc.splits)
  show ?thesis
  proof (cases "c = active_count (sd s)")
    case False
    then show ?thesis using s' t by (intro io_flags_keep [OF f, where t = t]) (auto simp: io_put_back_def)
  next
    case True
    have e: "io_at s' = (io_at s)(t := Io_outside)" "active_count (sd s') = active_count (sd s)" "io_edges s' = io_edges s"
      "k_ready s' = k_ready s" "k_edge s' = k_edge s"
      using s' t True by (auto simp: io_put_back_def split: Option.bind_splits)
    have act: "(\<exists>u. io_at s u = Io_active) \<longrightarrow> (\<exists>u. io_at s' u = Io_active)" using e(1) t by (metis fun_upd_apply io_pc.distinct(21))
    have "k_edge s' \<or> (\<exists>u. io_at s' u = Io_active)" if "k_ready s'"
    proof -
      have "k_edge s \<or> (\<exists>u. io_at s u = Io_active)" using d(3) [of t io n] t True that e(4) by simp
      then show ?thesis using act e(5) by blast
    qed
    moreover have "c \<le> active_count (sd s')" if "io_at s' u = Io_transfer io c n \<or> io_at s' u = Io_again io c n" for u io c n
      using that d(4) [of u io c n] e(1,2) by (cases "u = t") auto
    ultimately show ?thesis using d(1) e(2,3) unfolding io_flags_def by metis
  qed
qed

lemma io_flags_submit:
  assumes f: "io_flags s" and s': "io_submit s t = Some s'"
  shows "io_flags s'"
proof -
  obtain io where t: "io_at s t = Io_submit io" using s' by (auto simp: io_submit_def split: io_pc.splits)
  have q: "io_edges s' = io_edges s" "active_count (sd s') = active_count (sd s)" "io_ready (sd s') = io_ready (sd s)"
      "k_ready s' = k_ready s" "k_edge s' = k_edge s" "io_at s' = (io_at s)(t := io_at s' t)"
      "io_at s' t = Io_outside \<or> (\<exists>x. io_at s' t = Io_transfer x (active_count (sd s)) False)"
    using s' t by (auto simp: io_submit_def Let_def split: Option.bind_splits if_splits)
  show ?thesis by (rule io_flags_keep [OF f q(1-3) _ q(5,6)]) (use q(4,7) t in auto)
qed

lemma io_flags_transfer:
  assumes f: "io_flags s" and s': "io_transfer s t res = Some s'" and res: "res = Io_eagain \<longleftrightarrow> \<not> k_ready s" and r: "r \<longrightarrow> k_ready s"
  shows "io_flags (s'\<lparr>k_ready := r\<rparr>)"
proof -
  obtain io c n where t: "io_at s t = Io_transfer io c n" using s' by (auto simp: io_transfer_def split: io_pc.splits)
  have c: "c \<le> active_count (sd s)" using io_flagsD(4) [OF f] t by blast
  show ?thesis
    using s' t c res r
    by (intro io_flags_keep [OF f, where t = t and q = "io_at s' t"])
      (auto simp: io_transfer_def Let_def split: if_splits)
qed

lemma io_flags_step:
  assumes f: "io_flags s" and b: "io_edges s' < 2 ^ 31" and st: "io_step s s'"
  shows "io_flags s'"
  using st
proof cases
  case (io_start t io)
  then show ?thesis by (intro io_flags_keep [OF f, where t = t]) (auto simp: io_call_def)
next
  case (io_event t)
  have "c \<le> active_count (sd s)" if "io_at s' u = Io_transfer io c n \<or> io_at s' u = Io_again io c n" for u io c n
    using that io_flagsD(4) [OF f, of u io c n] io_event by (auto split: if_splits)
  moreover have "io_at s' t = Io_active" using io_event by simp
  ultimately show ?thesis using io_flagsD(1) [OF f] io_event(1) unfolding io_flags_def by (auto 0 3)
next
  case (io_in_active t)
  have "io_edges s' = Suc (io_edges s)" using io_in_active by (auto simp: on_active_def Let_def split: Option.bind_splits io_pc.splits)
  then show ?thesis using io_flags_active [OF f _ io_in_active] b by simp
next
  case (io_in_notify t)
  then show ?thesis by (intro io_flags_keep [OF f, where t = t]) (auto simp: io_notify_def split: io_pc.splits)
next
  case io_becomes_ready
  then have "c \<le> active_count (sd s')" if "io_at s' u = Io_transfer io c n \<or> io_at s' u = Io_again io c n" for u io c n
    using that io_flagsD(4) [OF f, of u io c n] by simp
  then show ?thesis using io_flagsD(1) [OF f] io_becomes_ready unfolding io_flags_def by (auto 0 3)
qed (use io_flags_submit io_flags_transfer io_flags_put_back f in blast)+

section \<open>One side\<close>

text \<open>A side of a new socket, and the requests of the program at the addresses rs.\<close>

definition io_init :: "addr list \<Rightarrow> io_state" where
  "io_init rs =
     \<lparr>nodes = map_of (map (\<lambda>a. (a, NULL)) rs), reqs = \<lambda>_. \<lparr>bytes_transfer = 0, error_code = 0\<rparr>, sd = InitSocket,
      io_at = \<lambda>_. Io_outside, k_ready = False, k_edge = False, waiting_reqs = [], io_submitted = [], io_events = [],
      io_returned = [], io_edges = 0\<rparr>"

definition io_inv :: "io_state \<Rightarrow> bool" where
  "io_inv s \<longleftrightarrow> io_ok s \<and> (io_edges s < 2 ^ 31 \<longrightarrow> io_flags s)"

lemma io_inv_init:
  assumes "length rs < 2 ^ 31"
  shows "io_inv (io_init rs)"
proof -
  have "dom (map_of (map (\<lambda>a. (a, NULL)) rs)) = set rs" by (simp add: dom_map_of_conv_image_fst image_image)
  moreover have "card (set rs) < 2 ^ 31" using card_length [of rs] assms by linarith
  moreover have "ll_repr h (link_list_clear create_link_list) []" for h
    by (simp add: ll_repr_def link_list_clear_def)
  ultimately have "io_places (io_init rs)" by (simp add: io_places_def io_init_def InitSocket_def)
  moreover have "io_counts (io_init rs)" by (simp add: io_counts_def io_done_def io_idle_def io_init_def)
  moreover have "io_flags (io_init rs)" by (simp add: io_flags_def io_init_def InitSocket_def)
  ultimately show ?thesis by (simp add: io_inv_def io_ok_def)
qed

lemma io_edges_mono: "io_step s s' \<Longrightarrow> io_edges s \<le> io_edges s'"
  by (erule io_stepE)
    (auto simp: io_call_def io_submit_def on_active_def io_transfer_def io_put_back_def io_notify_def Let_def
      split: io_pc.splits Option.bind_splits if_splits)

lemma io_inv_step: "io_inv s \<Longrightarrow> io_step s s' \<Longrightarrow> io_inv s'"
  using io_ok_step [of s s'] io_flags_step [of s s'] io_edges_mono [of s s'] by (auto simp: io_inv_def)

interpretation io: invariant_system "io_init rs" io_step "\<lambda>s. length rs < 2 ^ 31 \<longrightarrow> io_inv s" for rs
  by unfold_locales (auto intro: io_inv_init io_inv_step)

section \<open>A socket and the event loop\<close>

text \<open>The calls of WSARecv and WSASend, which start with io_submit; the event loop and the I/O, by side.\<close>

record socket_wrapper =
  recv_side :: io_state
  send_side :: io_state

definition WSARecv_call :: "socket_wrapper \<Rightarrow> nat \<Rightarrow> addr \<Rightarrow> socket_wrapper" where
  "WSARecv_call s t io = s\<lparr>recv_side := io_call (recv_side s) t io\<rparr>"

definition WSASend_call :: "socket_wrapper \<Rightarrow> nat \<Rightarrow> addr \<Rightarrow> socket_wrapper" where
  "WSASend_call s t io = s\<lparr>send_side := io_call (send_side s) t io\<rparr>"

text \<open>What they do then.\<close>

definition WSARecv :: "socket_wrapper \<Rightarrow> nat \<Rightarrow> socket_wrapper option" where
  "WSARecv s t = map_option (\<lambda>x. s\<lparr>recv_side := x\<rparr>) (io_submit (recv_side s) t)"

definition WSASend :: "socket_wrapper \<Rightarrow> nat \<Rightarrow> socket_wrapper option" where
  "WSASend s t = map_option (\<lambda>x. s\<lparr>send_side := x\<rparr>) (io_submit (send_side s) t)"

definition on_read_active :: "socket_wrapper \<Rightarrow> nat \<Rightarrow> socket_wrapper option" where
  "on_read_active s t = map_option (\<lambda>x. s\<lparr>recv_side := x\<rparr>) (on_active (recv_side s) t)"

definition on_write_active :: "socket_wrapper \<Rightarrow> nat \<Rightarrow> socket_wrapper option" where
  "on_write_active s t = map_option (\<lambda>x. s\<lparr>send_side := x\<rparr>) (on_active (send_side s) t)"

text \<open>The next step of thread t in the loop of _recv or _send, with what the kernel returns and whether it
  leaves the descriptor ready.\<close>

definition io_loop :: "io_state \<Rightarrow> nat \<Rightarrow> io_result \<Rightarrow> bool \<Rightarrow> io_state option" where
  "io_loop x t res r = (case io_at x t of
     Io_transfer io c n \<Rightarrow>
       if (res = Io_eagain \<longleftrightarrow> \<not> k_ready x) \<and> (r \<longrightarrow> k_ready x)
       then map_option (\<lambda>y. y\<lparr>k_ready := r\<rparr>) (io_transfer x t res) else None
   | Io_again io c n \<Rightarrow> io_put_back x t
   | Io_notify io \<Rightarrow> io_notify x t
   | _ \<Rightarrow> None)"

definition sock_recv :: "socket_wrapper \<Rightarrow> nat \<Rightarrow> io_result \<Rightarrow> bool \<Rightarrow> socket_wrapper option" where
  "sock_recv s t res r = map_option (\<lambda>x. s\<lparr>recv_side := x\<rparr>) (io_loop (recv_side s) t res r)"

definition sock_send :: "socket_wrapper \<Rightarrow> nat \<Rightarrow> io_result \<Rightarrow> bool \<Rightarrow> socket_wrapper option" where
  "sock_send s t res r = map_option (\<lambda>x. s\<lparr>send_side := x\<rparr>) (io_loop (send_side s) t res r)"

text \<open>The event loop gets the event of the socket: it is for reading, for writing or for both.\<close>

definition take_edge :: "io_state \<Rightarrow> nat \<Rightarrow> io_state" where
  "take_edge x t = (if k_edge x then (io_goto x t Io_active)\<lparr>k_edge := False\<rparr> else x)"

definition epoll_event :: "socket_wrapper \<Rightarrow> nat \<Rightarrow> socket_wrapper" where
  "epoll_event s t = s\<lparr>recv_side := take_edge (recv_side s) t, send_side := take_edge (send_side s) t\<rparr>"

definition sock_outside :: "socket_wrapper \<Rightarrow> nat \<Rightarrow> bool" where
  "sock_outside s t \<longleftrightarrow> io_at (recv_side s) t = Io_outside \<and> io_at (send_side s) t = Io_outside"

text \<open>A thread that handles an event for both reads first.\<close>

inductive sock_step :: "socket_wrapper \<Rightarrow> socket_wrapper \<Rightarrow> bool" where
  sock_call_recv: "sock_outside s t \<Longrightarrow> io_idle (recv_side s) io \<Longrightarrow> ll_free (nodes (recv_side s)) io \<Longrightarrow> sock_step s (WSARecv_call s t io)"
| sock_call_send: "sock_outside s t \<Longrightarrow> io_idle (send_side s) io \<Longrightarrow> ll_free (nodes (send_side s)) io \<Longrightarrow> sock_step s (WSASend_call s t io)"
| sock_submit_recv: "WSARecv s t = Some s' \<Longrightarrow> sock_step s s'"
| sock_submit_send: "WSASend s t = Some s' \<Longrightarrow> sock_step s s'"
| sock_event: "sock_outside s t \<Longrightarrow> sock_step s (epoll_event s t)"
| sock_on_read: "on_read_active s t = Some s' \<Longrightarrow> sock_step s s'"
| sock_on_write: "on_write_active s t = Some s' \<Longrightarrow> io_at (recv_side s) t = Io_outside \<Longrightarrow> sock_step s s'"
| sock_in_recv: "sock_recv s t res r = Some s' \<Longrightarrow> sock_step s s'"
| sock_in_send: "sock_send s t res r = Some s' \<Longrightarrow> sock_step s s'"
| sock_readable: "sock_step s (s\<lparr>recv_side := (recv_side s)\<lparr>k_ready := True, k_edge := True\<rparr>\<rparr>)"
| sock_writeable: "sock_step s (s\<lparr>send_side := (send_side s)\<lparr>k_ready := True, k_edge := True\<rparr>\<rparr>)"

inductive_cases sock_stepE: "sock_step s s'"

definition create_socket :: "addr list \<Rightarrow> addr list \<Rightarrow> socket_wrapper" where
  "create_socket rs ws = \<lparr>recv_side = io_init rs, send_side = io_init ws\<rparr>"

lemma io_loop_step: "io_loop x t res r = Some y \<Longrightarrow> io_step x y"
  by (auto simp: io_loop_def split: io_pc.splits if_splits intro: io_step.intros)

lemma take_edge_step: "io_at x t = Io_outside \<Longrightarrow> take_edge x t = x \<or> io_step x (take_edge x t)"
  by (auto simp: take_edge_def intro: io_event)

text \<open>Each side of a socket runs as a side alone.\<close>

lemma sock_sides:
  assumes "sock_step s s'"
  shows "recv_side s' = recv_side s \<or> io_step (recv_side s) (recv_side s')" and
    "send_side s' = send_side s \<or> io_step (send_side s) (send_side s')"
  using assms
  by (elim sock_stepE; auto simp: WSARecv_call_def WSARecv_def WSASend_call_def WSASend_def on_read_active_def on_write_active_def sock_recv_def sock_send_def epoll_event_def
      sock_outside_def intro: io_step.intros dest: take_edge_step io_loop_step)+

lemma sock_reach:
  assumes "reach (create_socket rs ws) sock_step s"
  shows "reach (io_init rs) io_step (recv_side s)" and "reach (io_init ws) io_step (send_side s)"
  using assms
proof (induction rule: reach.induct)
  case reach_init
  show "reach (io_init rs) io_step (recv_side (create_socket rs ws))" "reach (io_init ws) io_step (send_side (create_socket rs ws))"
    by (simp_all add: create_socket_def reach.reach_init)
next
  case (reach_step s s')
  show "reach (io_init rs) io_step (recv_side s')" "reach (io_init ws) io_step (send_side s')"
    using reach_step sock_sides [OF reach_step(2)] by (metis reach.reach_step)+
qed

section \<open>Schedules\<close>

text \<open>Steps of a run on the reading side.\<close>

datatype sock_action = Do_recv nat addr | Do_submit nat | Do_event nat | Do_active nat | Do_io nat io_result bool | Do_readable

definition sock_act :: "socket_wrapper \<Rightarrow> sock_action \<Rightarrow> socket_wrapper option" where
  "sock_act s a = (case a of
     Do_recv t io \<Rightarrow> if sock_outside s t \<and> io_idle (recv_side s) io \<and> ll_free (nodes (recv_side s)) io then Some (WSARecv_call s t io) else None
   | Do_submit t \<Rightarrow> WSARecv s t
   | Do_event t \<Rightarrow> if sock_outside s t then Some (epoll_event s t) else None
   | Do_active t \<Rightarrow> on_read_active s t
   | Do_io t res r \<Rightarrow> sock_recv s t res r
   | Do_readable \<Rightarrow> Some (s\<lparr>recv_side := (recv_side s)\<lparr>k_ready := True, k_edge := True\<rparr>\<rparr>))"

primrec sock_sched :: "socket_wrapper \<Rightarrow> sock_action list \<Rightarrow> socket_wrapper option" where
  "sock_sched s [] = Some s"
| "sock_sched s (a # as) = do { s \<leftarrow> sock_act s a; sock_sched s as }"

lemma sock_act_step: "sock_act s a = Some s' \<Longrightarrow> sock_step s s'"
  by (cases a) (auto simp: sock_act_def split: if_splits intro: sock_step.intros)

lemma sock_sched_reach: "sock_sched s as = Some s' \<Longrightarrow> reach i sock_step s \<Longrightarrow> reach i sock_step s'"
  by (induction as arbitrary: s) (auto split: Option.bind_splits dest: sock_act_step intro: reach_step)

text \<open>Two requests are submitted before the socket becomes readable; the event loop does the first.\<close>

definition two_requests :: "sock_action list" where
  "two_requests = [Do_recv 1 1, Do_submit 1, Do_recv 1 2, Do_submit 1, Do_readable, Do_event 2, Do_active 2,
     Do_io 2 (Io_bytes 10) True, Do_io 2 (Io_bytes 0) True]"

lemma two_requests_run:
  obtains s where "sock_sched (create_socket [1, 2] []) two_requests = Some s" "k_ready (recv_side s)" "\<not> k_edge (recv_side s)"
    "\<not> k_edge (send_side s)" "{t. \<not> sock_outside s t} = {}" "waiting_reqs (recv_side s) = [2]" "io_edges (recv_side s) = 1"
proof -
  have "case sock_sched (create_socket [1, 2] []) two_requests of None \<Rightarrow> False
    | Some s \<Rightarrow> k_ready (recv_side s) \<and> \<not> k_edge (recv_side s) \<and> \<not> k_edge (send_side s) \<and> (\<forall>t. io_at (recv_side s) t = Io_outside \<and> io_at (send_side s) t = Io_outside) \<and>
        waiting_reqs (recv_side s) = [2] \<and> io_edges (recv_side s) = 1"
    by (simp add: two_requests_def sock_act_def sock_outside_def io_idle_def ll_free_def create_socket_def WSARecv_call_def WSARecv_def io_call_def
      io_goto_def io_init_def InitSocket_def io_submit_def list_ops epoll_event_def take_edge_def on_read_active_def on_active_def
      sock_recv_def io_loop_def io_transfer_def io_notify_def wrap32_def Let_def)
  then show thesis using that by (auto simp: sock_outside_def split: option.splits)
qed

section \<open>Properties\<close>

text \<open>C18: no readiness is lost: while a descriptor is ready for reading, epoll has an event for it, or a thread is
  about to handle one, or the socket is marked readable, so that the next WSARecv reads at once; the same
  for writing.  This holds for fewer than 2 ^ 31 events, whatever the threads and the kernel do in
  between.\<close>

theorem socket_readiness_kept:
  assumes "reach (create_socket rs ws) sock_step s" and "length rs < 2 ^ 31" and "length ws < 2 ^ 31"
    and "x = recv_side s \<or> x = send_side s" and "io_edges x < 2 ^ 31" and "k_ready x"
  shows "k_edge x \<or> (\<exists>t. io_at x t = Io_active) \<or> io_ready (sd x) \<noteq> 0"
proof -
  have "io_inv (recv_side s)" "io_inv (send_side s)"
    using io.reach_inv [OF sock_reach(1) [OF assms(1)]] io.reach_inv [OF sock_reach(2) [OF assms(1)]] assms(2,3) by simp_all
  then have "io_flags x" using assms(4,5) by (auto simp: io_inv_def)
  then show ?thesis using io_flagsD(2) assms(6) by blast
qed

text \<open>C22: no request is lost or completed twice: each has been submitted as often as it has been completed, by an
  event or by a return, and once more if it is on its way, and then it is in one place: on the pending
  list, which in memory holds exactly the requests that wait, or with one thread.\<close>

theorem socket_requests_conserved:
  assumes "reach (create_socket rs ws) sock_step s" and "length rs < 2 ^ 31" and "length ws < 2 ^ 31"
    and "x = recv_side s \<or> x = send_side s"
  shows "ll_repr (nodes x) (pending (sd x)) (waiting_reqs x) \<and>
    count_list (io_submitted x) io = count_list (io_events x) io + count_list (map fst (io_returned x)) io + of_bool (\<not> io_idle x io) \<and>
    (\<forall>t. io_with (io_at x t) = Some io \<longrightarrow> io \<notin> set (waiting_reqs x) \<and> (\<forall>u. io_with (io_at x u) = Some io \<longrightarrow> u = t))"
proof -
  have "io_inv (recv_side s)" "io_inv (send_side s)"
    using io.reach_inv [OF sock_reach(1) [OF assms(1)]] io.reach_inv [OF sock_reach(2) [OF assms(1)]] assms(2,3) by simp_all
  then have p: "io_places x" and c: "io_counts x" using assms(4) by (auto simp: io_inv_def io_ok_def)
  note d = io_placesD [OF p]
  have "count_list (io_submitted x) io = count_list (io_events x) io + count_list (map fst (io_returned x)) io + of_bool (\<not> io_idle x io)"
    using c by (simp add: io_counts_def io_done_def)
  moreover have "io \<notin> set (waiting_reqs x) \<and> (\<forall>u. io_with (io_at x u) = Some io \<longrightarrow> u = t)" if "io_with (io_at x t) = Some io" for t
    using d(5,6) [OF that] by blast
  ultimately show ?thesis using d(1) by blast
qed

text \<open>A request can be left behind: no thread is in any call, the socket is readable and marked so, there is
  no event to come, and still a request waits; on_read_active has taken only the first of two.\<close>

theorem socket_request_left_behind:
  "\<exists>s. reach (create_socket [1, 2] []) sock_step s \<and> k_ready (recv_side s) \<and> \<not> k_edge (recv_side s) \<and>
     \<not> k_edge (send_side s) \<and> {t. \<not> sock_outside s t} = {} \<and> waiting_reqs (recv_side s) = [2]"
proof -
  obtain s where s: "sock_sched (create_socket [1, 2] []) two_requests = Some s" "k_ready (recv_side s)" "\<not> k_edge (recv_side s)"
    "\<not> k_edge (send_side s)" "{t. \<not> sock_outside s t} = {}" "waiting_reqs (recv_side s) = [2]"
    by (rule two_requests_run)
  have "reach (create_socket [1, 2] []) sock_step s" by (rule sock_sched_reach [OF s(1) reach_init])
  with s show ?thesis by blast
qed

text \<open>The witnesses.\<close>

lemma socket_readiness_kept_witness:
  "\<exists>s. sock_sched (create_socket [1, 2] []) two_requests = Some s \<and> k_ready (recv_side s) \<and>
     (k_edge (recv_side s) \<or> (\<exists>t. io_at (recv_side s) t = Io_active) \<or> io_ready (sd (recv_side s)) \<noteq> 0)"
proof -
  obtain s where s: "sock_sched (create_socket [1, 2] []) two_requests = Some s" "k_ready (recv_side s)" "io_edges (recv_side s) = 1"
    by (rule two_requests_run)
  have "reach (create_socket [1, 2] []) sock_step s" by (rule sock_sched_reach [OF s(1) reach_init])
  from socket_readiness_kept [OF this _ _ disjI1 [OF refl]] s show ?thesis by simp
qed

lemma socket_requests_conserved_witness:
  "\<exists>s. sock_sched (create_socket [1, 2] []) two_requests = Some s \<and>
     ll_repr (nodes (recv_side s)) (pending (sd (recv_side s))) (waiting_reqs (recv_side s)) \<and>
     count_list (io_submitted (recv_side s)) 1 = count_list (io_events (recv_side s)) 1 +
       count_list (map fst (io_returned (recv_side s))) 1 + of_bool (\<not> io_idle (recv_side s) 1)"
proof -
  obtain s where s: "sock_sched (create_socket [1, 2] []) two_requests = Some s" by (rule two_requests_run)
  have "reach (create_socket [1, 2] []) sock_step s" by (rule sock_sched_reach [OF s reach_init])
  from socket_requests_conserved [OF this _ _ disjI1 [OF refl], of 1] s show ?thesis by simp
qed

end
