(* ===== verification/Net_Handles.thy ===== *)
theory Net_Handles
  imports Socket_Io
begin

text \<open>
  Handles of sockets and engines: src/HandleMgr.c, src/SocketWrapper.c, the creation of sockets and
  engines in src/Socket.c and src/Engine.c, the handles of src/KendyNet.c and the registration of
  src/epoll.c.  A handle is the address of a structure.  What malloc and the calls of the kernel return is
  an argument; None is a null dereference or a use of a structure that has been freed.
\<close>

section \<open>State\<close>

abbreviation ECONNABORTED :: int where "ECONNABORTED \<equiv> 103"
abbreviation EPROTO :: int where "EPROTO \<equiv> 71"

record sock =
  s_fd :: int
  s_engine :: addr
  s_status :: int
  s_recv :: io_side
  s_send :: io_side

record engine =
  e_status :: int
  e_poller :: int

text \<open>
  The structures; and of the kernel, the descriptors of sockets that are open, the pollers that are open
  with the pairs of a descriptor and a socket that they watch, the addresses that descriptors are bound to
  and the status flags of descriptors.
\<close>

record net =
  n_sockets :: "addr \<rightharpoonup> sock"
  n_engines :: "addr \<rightharpoonup> engine"
  n_open :: "int set"
  n_pollers :: "int set"
  n_watch :: "(int \<times> int \<times> addr) set"
  n_bound :: "int \<rightharpoonup> nat \<times> nat"
  n_flags :: "int \<Rightarrow> 32 word"

definition k_open :: "int \<Rightarrow> net \<Rightarrow> net" where
  "k_open fd s = s\<lparr>n_open := insert fd (n_open s)\<rparr>"

text \<open>Closing a descriptor takes it out of every poller.\<close>

definition k_close :: "int \<Rightarrow> net \<Rightarrow> net" where
  "k_close fd s = s\<lparr>n_open := n_open s - {fd}, n_watch := {x \<in> n_watch s. fst (snd x) \<noteq> fd}, n_bound := (n_bound s)(fd := None)\<rparr>"

section \<open>Engines\<close>

definition create_engine :: "addr \<Rightarrow> int \<Rightarrow> net \<Rightarrow> addr \<times> net" where
  "create_engine mem junk s =
     (if mem = NULL then (NULL, s)
      else (mem, s\<lparr>n_engines := (n_engines s)(mem \<mapsto> \<lparr>e_status = 1, e_poller = junk\<rparr>)\<rparr>))"

definition free_engine :: "addr \<Rightarrow> net \<Rightarrow> net option" where
  "free_engine e s =
     (if e = NULL \<or> n_engines s e = None then None else Some (s\<lparr>n_engines := (n_engines s)(e := None)\<rparr>))"

definition NewEngine :: "addr \<Rightarrow> int \<Rightarrow> net \<Rightarrow> addr \<times> net" where
  "NewEngine mem junk s = create_engine mem junk s"

definition ReleaseEngine :: "addr \<Rightarrow> net \<Rightarrow> net option" where
  "ReleaseEngine h s = free_engine h s"

definition engine_at :: "net \<Rightarrow> addr \<Rightarrow> engine option" where
  "engine_at s e = (if e = NULL then None else n_engines s e)"

definition epoll_init :: "int \<Rightarrow> addr \<Rightarrow> net \<Rightarrow> (int \<times> net) option" where
  "epoll_init pfd e s = do {
     en \<leftarrow> engine_at s e;
     let s = s\<lparr>n_engines := (n_engines s)(e \<mapsto> en\<lparr>e_poller := pfd\<rparr>)\<rparr>;
     Some (if 0 \<le> pfd then (0, s\<lparr>n_pollers := insert pfd (n_pollers s)\<rparr>) else (-1, s))
   }"

definition epoll_register :: "int \<Rightarrow> addr \<Rightarrow> addr \<Rightarrow> net \<Rightarrow> (int \<times> net) option" where
  "epoll_register ret e h s = do {
     en \<leftarrow> engine_at s e;
     x \<leftarrow> (if h = NULL then None else n_sockets s h);
     Some (ret, if ret = 0 then s\<lparr>n_watch := insert (e_poller en, s_fd x, h) (n_watch s)\<rparr> else s)
   }"

definition epoll_unregister :: "addr \<Rightarrow> addr \<Rightarrow> net \<Rightarrow> net option" where
  "epoll_unregister e h s = do {
     en \<leftarrow> engine_at s e;
     x \<leftarrow> (if h = NULL then None else n_sockets s h);
     Some (s\<lparr>n_watch := {y \<in> n_watch s. \<not> (fst y = e_poller en \<and> fst (snd y) = s_fd x)}\<rparr>)
   }"

definition CloseEngine :: "addr \<Rightarrow> net \<Rightarrow> net option" where
  "CloseEngine h s = ReleaseEngine h s"

text \<open>The test that a handle is not negative holds for every address.\<close>

definition CreateEngine :: "addr \<Rightarrow> int \<Rightarrow> int \<Rightarrow> net \<Rightarrow> (addr \<times> net) option" where
  "CreateEngine mem junk pfd s =
     (let (h, s) = NewEngine mem junk s
      in if 0 \<le> int h
         then do {
           (r, s) \<leftarrow> epoll_init pfd h s;
           if r \<noteq> 0 then do { s \<leftarrow> CloseEngine h s; Some (NULL, s) } else Some (h, s)
         }
         else Some (h, s))"

definition stop_engine :: "addr \<Rightarrow> net \<Rightarrow> net option" where
  "stop_engine e s = do {
     en \<leftarrow> engine_at s e;
     Some (s\<lparr>n_engines := (n_engines s)(e \<mapsto> en\<lparr>e_status := 0\<rparr>)\<rparr>)
   }"

definition StopEngine :: "addr \<Rightarrow> net \<Rightarrow> net option" where
  "StopEngine h s = (if h = NULL then Some s else stop_engine h s)"

definition Bind2Engine :: "int \<Rightarrow> addr \<Rightarrow> addr \<Rightarrow> net \<Rightarrow> (int \<times> net) option" where
  "Bind2Engine ret e h s =
     (if e = NULL \<or> h = NULL then Some (-1, s)
      else do {
        (r, s) \<leftarrow> epoll_register ret e h s;
        if r = 0
        then do {
          x \<leftarrow> n_sockets s h;
          Some (0, s\<lparr>n_sockets := (n_sockets s)(h \<mapsto> x\<lparr>s_engine := e\<rparr>)\<rparr>)
        }
        else Some (-1, s)
      })"

section \<open>Creating and releasing sockets\<close>

text \<open>The fields that create_socket leaves alone are what the memory holds.\<close>

definition create_socket_at :: "addr \<Rightarrow> sock \<Rightarrow> net \<Rightarrow> addr \<times> net" where
  "create_socket_at mem junk s =
     (if mem = NULL then (NULL, s)
      else (mem, s\<lparr>n_sockets := (n_sockets s)(mem \<mapsto>
        junk\<lparr>s_recv := (s_recv junk)\<lparr>pending := create_link_list\<rparr>, s_send := (s_send junk)\<lparr>pending := create_link_list\<rparr>,
          s_status := 0, s_engine := NULL\<rparr>)\<rparr>))"

definition NewSocketWrapper :: "addr \<Rightarrow> sock \<Rightarrow> net \<Rightarrow> addr \<times> net" where
  "NewSocketWrapper mem junk s = create_socket_at mem junk s"

definition Init_Socket :: "addr \<Rightarrow> int \<Rightarrow> net \<Rightarrow> net option" where
  "Init_Socket h fd s = do {
     x \<leftarrow> (if h = NULL then None else n_sockets s h);
     Some (s\<lparr>n_sockets := (n_sockets s)(h \<mapsto> x\<lparr>s_fd := fd, s_recv := InitSocket, s_send := InitSocket, s_engine := NULL\<rparr>)\<rparr>)
   }"

definition free_socket :: "addr \<Rightarrow> net \<Rightarrow> net option" where
  "free_socket h s =
     (if h = NULL \<or> n_sockets s h = None then None else Some (s\<lparr>n_sockets := (n_sockets s)(h := None)\<rparr>))"

definition RemoveBinding :: "addr \<Rightarrow> addr \<Rightarrow> net \<Rightarrow> net option" where
  "RemoveBinding e h s = (if e \<noteq> NULL then epoll_unregister e h s else Some s)"

definition ReleaseSocketWrapper :: "addr \<Rightarrow> net \<Rightarrow> net option" where
  "ReleaseSocketWrapper h s = do {
     x \<leftarrow> (if h = NULL then None else n_sockets s h);
     s \<leftarrow> RemoveBinding (s_engine x) h s;
     free_socket h (k_close (s_fd x) s)
   }"

definition CloseSocket :: "addr \<Rightarrow> net \<Rightarrow> net option" where
  "CloseSocket h s = ReleaseSocketWrapper h s"

section \<open>The calls on sockets\<close>

text \<open>What socket, or accept, and malloc give for a new socket.\<close>

record new_sock =
  o_fd :: int
  o_mem :: addr
  o_junk :: sock

text \<open>The test for a handle that is negative never holds.\<close>

definition wrap_fd :: "int \<Rightarrow> new_sock \<Rightarrow> net \<Rightarrow> (addr \<times> net) option" where
  "wrap_fd fd o1 s =
     (let (h, s) = NewSocketWrapper (o_mem o1) (o_junk o1) s
      in if int h < 0 then Some (NULL, k_close fd s)
         else do { s \<leftarrow> Init_Socket h fd s; Some (h, s) })"

definition OpenSocket :: "new_sock \<Rightarrow> net \<Rightarrow> (addr \<times> net) option" where
  "OpenSocket o1 s = (if o_fd o1 < 0 then Some (NULL, s) else wrap_fd (o_fd o1) o1 (k_open (o_fd o1) s))"

text \<open>The calls that only ask the kernel: ret is what it returns.\<close>

definition sock_call :: "int \<Rightarrow> addr \<Rightarrow> net \<Rightarrow> int option" where
  "sock_call ret h s =
     (if h = NULL then Some (-1)
      else do { x \<leftarrow> n_sockets s h; Some (if ret < 0 then -1 else 0) })"

definition Connect :: "int \<Rightarrow> addr \<Rightarrow> net \<Rightarrow> int option" where
  "Connect ret h s = sock_call ret h s"

definition Bind :: "int \<Rightarrow> nat \<times> nat \<Rightarrow> addr \<Rightarrow> net \<Rightarrow> (int \<times> net) option" where
  "Bind ret adr h s =
     (if h = NULL then Some (-1, s)
      else do {
        x \<leftarrow> n_sockets s h;
        Some (if ret < 0 then (-1, s) else (0, s\<lparr>n_bound := (n_bound s)(s_fd x \<mapsto> adr)\<rparr>))
      })"

definition Listen :: "int \<Rightarrow> addr \<Rightarrow> net \<Rightarrow> int option" where
  "Listen ret h s = sock_call ret h s"

text \<open>The loop of Tcp_Connect over what connect returns; it is still trying when the list is at its end.\<close>

datatype 'a trial = Trying | Returned 'a

fun connect_loop :: "int list \<Rightarrow> bool \<Rightarrow> addr \<Rightarrow> net \<Rightarrow> (addr trial \<times> net) option" where
  "connect_loop [] retry h s = Some (Trying, s)"
| "connect_loop (c # cs) retry h s = do {
     r \<leftarrow> Connect c h s;
     if r = 0 then Some (Returned h, s)
     else if \<not> retry then do { s \<leftarrow> CloseSocket h s; Some (Returned NULL, s) }
     else connect_loop cs retry h s
   }"

text \<open>ip is what inet_pton returns for the address, None when no address is given.\<close>

definition Tcp_Connect :: "int option \<Rightarrow> new_sock \<Rightarrow> int list \<Rightarrow> bool \<Rightarrow> net \<Rightarrow> (addr trial \<times> net) option" where
  "Tcp_Connect ip o1 cs retry s =
     (case ip of
        None \<Rightarrow> Some (Returned NULL, s)
      | Some r \<Rightarrow>
          if r < 0 then Some (Returned NULL, s)
          else do {
            (h, s) \<leftarrow> OpenSocket o1 s;
            if h \<noteq> NULL then connect_loop cs retry h s else Some (Returned NULL, s)
          })"

text \<open>ip is what inet_pton returns, with the address it stores when it returns 1; 0 is INADDR_ANY.\<close>

definition Tcp_Listen :: "(int \<times> nat) option \<Rightarrow> nat \<Rightarrow> new_sock \<Rightarrow> int \<Rightarrow> int \<Rightarrow> net \<Rightarrow> (addr \<times> net) option" where
  "Tcp_Listen ip port o1 bret lret s = do {
     (h, s) \<leftarrow> OpenSocket o1 s;
     if int h < 0 then Some (NULL, s)
     else case (case ip of None \<Rightarrow> Some 0 | Some (r, adr) \<Rightarrow> if r < 0 then None else Some (if r = 1 then adr else 0)) of
       None \<Rightarrow> Some (NULL, s)
     | Some adr \<Rightarrow> do {
         (b, s) \<leftarrow> Bind bret (adr, port) h s;
         if b < 0 then do { s \<leftarrow> CloseSocket h s; Some (NULL, s) }
         else do {
           l \<leftarrow> Listen lret h s;
           if l = 0 then Some (h, s)
           else do { s \<leftarrow> CloseSocket h s; Some (NULL, s) }
         }
       }
   }"

text \<open>The loop of Accept over what accept returns with its errno; the list ends while it blocks.\<close>

fun accept_loop :: "(int \<times> int) list \<Rightarrow> int trial" where
  "accept_loop [] = Trying"
| "accept_loop ((n, e) # ns) =
     (if n < 0 then if e = EPROTO \<or> e = ECONNABORTED then accept_loop ns else Returned (-1) else Returned n)"

definition Accept :: "(int \<times> int) list \<Rightarrow> new_sock \<Rightarrow> addr \<Rightarrow> net \<Rightarrow> (addr trial \<times> net) option" where
  "Accept ns o1 h s =
     (if h = NULL then Some (Returned NULL, s)
      else do {
        x \<leftarrow> n_sockets s h;
        case accept_loop ns of
          Trying \<Rightarrow> Some (Trying, s)
        | Returned n \<Rightarrow>
            if n < 0 then Some (Returned NULL, s)
            else do { (h', s) \<leftarrow> wrap_fd n o1 (k_open n s); Some (Returned h', s) }
      })"

section \<open>Addresses and flags\<close>

text \<open>ip is what inet_pton returns, None when no address is given; hptr is what gethostbyaddr returns.\<close>

definition Gethostbyaddr :: "int option \<Rightarrow> addr \<Rightarrow> addr" where
  "Gethostbyaddr ip hptr = (case ip of None \<Rightarrow> NULL | Some r \<Rightarrow> if r < 0 then NULL else if hptr = NULL then NULL else hptr)"

text \<open>inet_ntop writes the four numbers of an address with dots and a terminator, if they fit.\<close>

definition digit :: "nat \<Rightarrow> char" where
  "digit n = char_of (48 + n)"

definition dec :: "byte \<Rightarrow> string" where
  "dec b = (let n = unat b in
     (if 100 \<le> n then [digit (n div 100)] else []) @ (if 10 \<le> n then [digit (n div 10 mod 10)] else []) @ [digit (n mod 10)])"

definition inet_ntop :: "byte \<times> byte \<times> byte \<times> byte \<Rightarrow> nat \<Rightarrow> string option" where
  "inet_ntop adr room = (case adr of (a, b, c, d) \<Rightarrow>
     let t = dec a @ ''.'' @ dec b @ ''.'' @ dec c @ ''.'' @ dec d
     in if length t + 1 \<le> room then Some t else None)"

text \<open>name is what getsockname or getpeername gives, None for an error; buf says whether there is a buffer.
  The result: what is returned, the address and the port.\<close>

definition getRemoteAddrPort :: "((byte \<times> byte \<times> byte \<times> byte) \<times> u16) option \<Rightarrow> bool \<Rightarrow> addr \<Rightarrow> net \<Rightarrow> (int \<times> string \<times> u16) option" where
  "getRemoteAddrPort name buf h s =
     (if h = NULL then Some (-1, [], 0)
      else do {
        x \<leftarrow> n_sockets s h;
        if \<not> buf then Some (-1, [], 0)
        else case name of
          None \<Rightarrow> Some (-1, [], 0)
        | Some (adr, port) \<Rightarrow>
            (case inet_ntop adr 15 of
               None \<Rightarrow> Some (-1, [], 0)
             | Some t \<Rightarrow> Some (0, t, port))
      })"

definition getLocalAddrPort :: "((byte \<times> byte \<times> byte \<times> byte) \<times> u16) option \<Rightarrow> bool \<Rightarrow> addr \<Rightarrow> net \<Rightarrow> (int \<times> string \<times> u16) option" where
  "getLocalAddrPort name buf h s =
     (if h = NULL then Some (-1, [], 0)
      else do {
        x \<leftarrow> n_sockets s h;
        if \<not> buf then Some (-1, [], 0)
        else case name of
          None \<Rightarrow> Some (-1, [], 0)
        | Some (adr, port) \<Rightarrow>
            (case inet_ntop adr 15 of
               None \<Rightarrow> Some (-1, [], 0)
             | Some t \<Rightarrow> Some (0, t, port))
      })"

abbreviation O_NONBLOCK :: "32 word" where "O_NONBLOCK \<equiv> 2048"

text \<open>opt and fret are what setsockopt and the second fcntl return.\<close>

definition setNonblock :: "int \<Rightarrow> int \<Rightarrow> addr \<Rightarrow> net \<Rightarrow> (int \<times> net) option" where
  "setNonblock opt fret h s =
     (if h = NULL then Some (-1, s)
      else do {
        x \<leftarrow> n_sockets s h;
        if opt \<noteq> 0 then Some (-1, s)
        else let fd_flags = n_flags s (s_fd x) OR O_NONBLOCK
             in if fret = -1 then Some (-1, s) else Some (0, s\<lparr>n_flags := (n_flags s)(s_fd x := fd_flags)\<rparr>)
      })"

section \<open>Sockets own their descriptors\<close>

text \<open>The descriptor of each socket.\<close>

definition fd_of :: "net \<Rightarrow> addr \<rightharpoonup> int" where
  "fd_of s h = map_option s_fd (n_sockets s h)"

definition fds_ok :: "(addr \<rightharpoonup> int) \<Rightarrow> int set \<Rightarrow> (int \<times> int \<times> addr) set \<Rightarrow> bool" where
  "fds_ok F X W \<longleftrightarrow> F NULL = None \<and> ran F = X \<and> inj_on F (dom F) \<and> (\<forall>p fd h. (p, fd, h) \<in> W \<longrightarrow> F h = Some fd)"

text \<open>Every open descriptor belongs to exactly one socket, every socket has an open one, and the pollers
  watch only sockets that live, with their descriptors.\<close>

definition net_ok :: "net \<Rightarrow> bool" where
  "net_ok s \<longleftrightarrow> fds_ok (fd_of s) (n_open s) (n_watch s)"

definition fresh :: "int \<Rightarrow> new_sock \<Rightarrow> net \<Rightarrow> bool" where
  "fresh fd o1 s \<longleftrightarrow> fd \<notin> n_open s \<and> n_sockets s (o_mem o1) = None"

definition new_at :: "int \<Rightarrow> new_sock \<Rightarrow> sock" where
  "new_at fd o1 = (o_junk o1)\<lparr>s_status := 0, s_fd := fd, s_recv := InitSocket, s_send := InitSocket, s_engine := NULL\<rparr>"

definition with_sock :: "int \<Rightarrow> new_sock \<Rightarrow> net \<Rightarrow> net" where
  "with_sock fd o1 s = s\<lparr>n_open := insert fd (n_open s), n_sockets := (n_sockets s)(o_mem o1 \<mapsto> new_at fd o1)\<rparr>"

definition without_sock :: "addr \<Rightarrow> int \<Rightarrow> net \<Rightarrow> net" where
  "without_sock h fd s = s\<lparr>n_open := n_open s - {fd}, n_watch := {x \<in> n_watch s. fst (snd x) \<noteq> fd},
     n_bound := (n_bound s)(fd := None), n_sockets := (n_sockets s)(h := None)\<rparr>"

lemma wrap_fd_eq: "wrap_fd fd o1 (k_open fd s) = (if o_mem o1 = NULL then None else Some (o_mem o1, with_sock fd o1 s))"
  by (simp add: wrap_fd_def NewSocketWrapper_def create_socket_at_def Init_Socket_def k_open_def with_sock_def new_at_def)

lemma OpenSocket_eq: "OpenSocket o1 s = (if o_fd o1 < 0 then Some (NULL, s)
    else if o_mem o1 = NULL then None else Some (o_mem o1, with_sock (o_fd o1) o1 s))"
  by (simp add: OpenSocket_def wrap_fd_eq)

lemma imp_conj_absorb: "(P \<longrightarrow> Q) \<and> Q \<longleftrightarrow> Q"
  by blast

lemma CloseSocket_eq:
  assumes "n_sockets s h = Some x" and "h \<noteq> NULL"
  shows "CloseSocket h s = (if s_engine x \<noteq> NULL \<and> n_engines s (s_engine x) = None then None else Some (without_sock h (s_fd x) s))"
  using assms
  by (auto simp: CloseSocket_def ReleaseSocketWrapper_def RemoveBinding_def epoll_unregister_def engine_at_def free_socket_def
      k_close_def without_sock_def imp_conj_absorb)

lemma fd_of_with [simp]: "fd_of (with_sock fd o1 s) = (fd_of s)(o_mem o1 \<mapsto> fd)"
  by (rule ext) (simp add: fd_of_def with_sock_def new_at_def)

lemma fd_of_without [simp]: "fd_of (without_sock h fd s) = (fd_of s)(h := None)"
  by (rule ext) (simp add: fd_of_def without_sock_def)

lemma fds_ok_add:
  assumes "fds_ok F X W" and "F a = None" and "a \<noteq> NULL" and "fd \<notin> X"
  shows "fds_ok (F(a \<mapsto> fd)) (insert fd X) W"
proof -
  have r: "ran F = X" "inj_on F (dom F)" using assms(1) by (simp_all add: fds_ok_def)
  have "inj_on (F(a \<mapsto> fd)) (dom (F(a \<mapsto> fd)))"
    using r assms(4) by (auto simp: inj_on_def ran_def dom_def)
  then show ?thesis using assms by (auto simp: fds_ok_def)
qed

lemma fds_ok_drop:
  assumes "fds_ok F X W" and "F a = Some fd"
  shows "fds_ok (F(a := None)) (X - {fd}) {x \<in> W. fst (snd x) \<noteq> fd}"
proof -
  have r: "ran F = X" "inj_on F (dom F)" using assms(1) by (simp_all add: fds_ok_def)
  have u: "h = a" if "F h = Some fd" for h using inj_onD [OF r(2), of h a] that assms(2) by auto
  have "ran (F(a := None)) = X - {fd}" 
  proof (intro set_eqI iffI)
    fix y assume "y \<in> ran (F(a := None))"
    then obtain h where h: "h \<noteq> a" "F h = Some y" by (auto simp: ran_def split: if_splits)
    then show "y \<in> X - {fd}" using r(1) u [of h] by (auto simp: ran_def)
  next
    fix y assume y: "y \<in> X - {fd}"
    then obtain h where h: "F h = Some y" unfolding r(1) [symmetric] ran_def by blast
    then have "(F(a := None)) h = Some y" using y assms(2) by auto
    then show "y \<in> ran (F(a := None))" unfolding ran_def by blast
  qed
  moreover have "inj_on (F(a := None)) (dom (F(a := None)))" using r(2) by (auto simp: inj_on_def dom_def)
  ultimately show ?thesis using assms by (auto simp: fds_ok_def)
qed

lemma net_ok_with: "net_ok s \<Longrightarrow> fresh fd o1 s \<Longrightarrow> o_mem o1 \<noteq> NULL \<Longrightarrow> net_ok (with_sock fd o1 s)"
  using fds_ok_add [of "fd_of s" "n_open s" "n_watch s" "o_mem o1" fd]
  by (simp add: net_ok_def fresh_def fd_of_def [of s]) (simp add: with_sock_def)

lemma net_ok_without: "net_ok s \<Longrightarrow> n_sockets s h = Some x \<Longrightarrow> net_ok (without_sock h (s_fd x) s)"
  using fds_ok_drop [of "fd_of s" "n_open s" "n_watch s" h "s_fd x"]
  by (simp add: net_ok_def fd_of_def [of s]) (simp add: without_sock_def)

text \<open>What leaves the descriptors and sockets alone, the engines of the sockets apart, keeps the invariant.\<close>

lemma net_ok_cong:
  assumes "net_ok s" and "n_open s' = n_open s" and "n_watch s' \<subseteq> n_watch s"
    and "fd_of s' = fd_of s"
  shows "net_ok s'"
  using assms by (auto simp: net_ok_def fds_ok_def)

lemma OpenSocket_ok: "net_ok s \<Longrightarrow> fresh (o_fd o1) o1 s \<Longrightarrow> OpenSocket o1 s = Some (h, s') \<Longrightarrow> net_ok s'"
  using net_ok_with [of s "o_fd o1" o1] by (auto simp: OpenSocket_eq split: if_splits)

lemma CloseSocket_ok: "net_ok s \<Longrightarrow> CloseSocket h s = Some s' \<Longrightarrow> net_ok s'"
proof -
  assume ok: "net_ok s" and c: "CloseSocket h s = Some s'"
  then obtain x where x: "n_sockets s h = Some x" "h \<noteq> NULL"
    by (auto simp: CloseSocket_def ReleaseSocketWrapper_def split: bind_splits if_splits)
  then have "s' = without_sock h (s_fd x) s" using CloseSocket_eq [OF x] c by (auto split: if_splits)
  then show ?thesis using net_ok_without [OF ok x(1)] by simp
qed

lemma connect_loop_ok: "net_ok s \<Longrightarrow> connect_loop cs retry h s = Some (r, s') \<Longrightarrow> net_ok s'"
  by (induction cs) (auto split: bind_splits if_splits intro: CloseSocket_ok)

lemma Bind_ok: "net_ok s \<Longrightarrow> Bind ret adr h s = Some (r, s') \<Longrightarrow> net_ok s'"
  by (rule net_ok_cong [of s]) (auto simp: fun_eq_iff Bind_def fd_of_def split: bind_splits if_splits)

lemma Tcp_Connect_ok:
  assumes ok: "net_ok s" and f: "fresh (o_fd o1) o1 s" and r: "Tcp_Connect ip o1 cs retry s = Some (r, s')"
  shows "net_ok s'"
proof -
  consider "s' = s" | h s1 where "OpenSocket o1 s = Some (h, s1)" "s' = s1"
    | h s1 where "OpenSocket o1 s = Some (h, s1)" "connect_loop cs retry h s1 = Some (r, s')"
    using r by (auto simp: Tcp_Connect_def split: bind_splits if_splits option.splits)
  then show ?thesis using ok OpenSocket_ok [OF ok f] connect_loop_ok by cases blast+
qed

lemma Tcp_Listen_ok:
  assumes ok: "net_ok s" and f: "fresh (o_fd o1) o1 s" and r: "Tcp_Listen ip port o1 bret lret s = Some (h, s')"
  shows "net_ok s'"
proof -
  obtain h1 s1 where o: "OpenSocket o1 s = Some (h1, s1)" using r by (auto simp: Tcp_Listen_def split: bind_splits)
  then have s1: "net_ok s1" using OpenSocket_ok [OF ok f] by simp
  have "s2 = s1 \<or> (\<exists>b adr. Bind bret (adr, port) h1 s1 = Some (b, s2)) \<Longrightarrow> net_ok s2" for s2
    using s1 Bind_ok by blast
  then show ?thesis
    using r o by (auto simp: Tcp_Listen_def split: bind_splits if_splits option.splits prod.splits intro: CloseSocket_ok)
qed

lemma Accept_ok:
  "net_ok s \<Longrightarrow> \<forall>n. accept_loop ns = Returned n \<longrightarrow> fresh n o1 s \<Longrightarrow> Accept ns o1 h s = Some (r, s') \<Longrightarrow> net_ok s'"
  using net_ok_with [of s _ o1] by (auto simp: Accept_def wrap_fd_eq split: bind_splits if_splits trial.splits)

lemma Bind2Engine_ok:
  assumes ok: "net_ok s" and r: "Bind2Engine ret e h s = Some (r', s')"
  shows "net_ok s'"
proof (cases "n_sockets s h")
  case None
  then show ?thesis using assms by (auto simp: Bind2Engine_def epoll_register_def split: bind_splits if_splits)
next
  case (Some x)
  have F: "fd_of (s\<lparr>n_watch := W\<rparr>) = fd_of s" for W by (simp add: fd_of_def fun_eq_iff)
  have w: "net_ok (s\<lparr>n_watch := insert (p, s_fd x, h) (n_watch s)\<rparr>)" for p
    using ok Some unfolding net_ok_def F by (auto simp: fds_ok_def fd_of_def [of s h])
  consider "s' = s" | p where "s' = s\<lparr>n_watch := insert (p, s_fd x, h) (n_watch s)\<rparr>"
    | p where "s' = s\<lparr>n_watch := insert (p, s_fd x, h) (n_watch s), n_sockets := (n_sockets s)(h \<mapsto> x\<lparr>s_engine := e\<rparr>)\<rparr>"
    using r Some by (auto simp: Bind2Engine_def epoll_register_def split: bind_splits if_splits)
  then show ?thesis
  proof cases
    case (3 p)
    show ?thesis by (rule net_ok_cong [OF w [of p]]) (auto simp: 3 fd_of_def fun_eq_iff Some)
  qed (use ok w in auto)
qed

lemma epoll_init_ok: "net_ok s \<Longrightarrow> epoll_init pfd e s = Some (r, s') \<Longrightarrow> net_ok s'"
  by (rule net_ok_cong [of s]) (auto simp: fun_eq_iff epoll_init_def fd_of_def Let_def split: bind_splits if_splits)

lemma CloseEngine_ok: "net_ok s \<Longrightarrow> CloseEngine e s = Some s' \<Longrightarrow> net_ok s'"
  by (rule net_ok_cong [of s]) (auto simp: fun_eq_iff CloseEngine_def ReleaseEngine_def free_engine_def fd_of_def split: if_splits)

lemma CreateEngine_ok: "net_ok s \<Longrightarrow> CreateEngine mem junk pfd s = Some (e, s') \<Longrightarrow> net_ok s'"
proof -
  assume ok: "net_ok s" and c: "CreateEngine mem junk pfd s = Some (e, s')"
  have n: "net_ok (snd (NewEngine mem junk s))"
    by (rule net_ok_cong [OF ok]) (auto simp: NewEngine_def create_engine_def fd_of_def fun_eq_iff)
  obtain h s0 where e: "NewEngine mem junk s = (h, s0)" by (cases "NewEngine mem junk s")
  obtain q s1 where q: "epoll_init pfd h s0 = Some (q, s1)" and d: "s' = s1 \<or> CloseEngine h s1 = Some s'"
    using c by (auto simp: CreateEngine_def e split: bind_splits if_splits)
  have "net_ok s1" using epoll_init_ok [OF _ q] n e by simp
  then show ?thesis using d CloseEngine_ok by blast
qed

lemma StopEngine_ok: "net_ok s \<Longrightarrow> StopEngine e s = Some s' \<Longrightarrow> net_ok s'"
  by (rule net_ok_cong [of s]) (auto simp: fun_eq_iff StopEngine_def stop_engine_def engine_at_def fd_of_def split: bind_splits if_splits)

lemma setNonblock_ok: "net_ok s \<Longrightarrow> setNonblock opt fret h s = Some (r, s') \<Longrightarrow> net_ok s'"
  by (rule net_ok_cong [of s]) (auto simp: fun_eq_iff setNonblock_def fd_of_def Let_def split: bind_splits if_splits)

section \<open>Runs\<close>

text \<open>The calls of a program, in any order; the kernel gives descriptors and memory that are not in use.\<close>

inductive net_step :: "net \<Rightarrow> net \<Rightarrow> bool" where
  net_open: "fresh (o_fd o1) o1 s \<Longrightarrow> OpenSocket o1 s = Some (h, s') \<Longrightarrow> net_step s s'"
| net_close: "CloseSocket h s = Some s' \<Longrightarrow> net_step s s'"
| net_bind: "Bind ret adr h s = Some (r, s') \<Longrightarrow> net_step s s'"
| net_connect: "fresh (o_fd o1) o1 s \<Longrightarrow> Tcp_Connect ip o1 cs retry s = Some (r, s') \<Longrightarrow> net_step s s'"
| net_listen: "fresh (o_fd o1) o1 s \<Longrightarrow> Tcp_Listen lip port o1 bret lret s = Some (h, s') \<Longrightarrow> net_step s s'"
| net_accept: "\<forall>n. accept_loop ns = Returned n \<longrightarrow> fresh n o1 s \<Longrightarrow> Accept ns o1 h s = Some (ra, s') \<Longrightarrow> net_step s s'"
| net_nonblock: "setNonblock opt fret h s = Some (r, s') \<Longrightarrow> net_step s s'"
| net_engine: "CreateEngine mem junk pfd s = Some (e, s') \<Longrightarrow> net_step s s'"
| net_bind2: "Bind2Engine ret e h s = Some (r, s') \<Longrightarrow> net_step s s'"
| net_stop: "StopEngine e s = Some s' \<Longrightarrow> net_step s s'"
| net_close_engine: "CloseEngine e s = Some s' \<Longrightarrow> net_step s s'"

inductive_cases net_stepE: "net_step s s'"

definition net_start :: "(int \<Rightarrow> 32 word) \<Rightarrow> net" where
  "net_start flags = \<lparr>n_sockets = Map.empty, n_engines = Map.empty, n_open = {}, n_pollers = {}, n_watch = {},
     n_bound = Map.empty, n_flags = flags\<rparr>"

lemma net_ok_start: "net_ok (net_start flags)"
  by (simp add: net_ok_def net_start_def fds_ok_def fd_of_def dom_def ran_def)

lemma net_ok_step: "net_ok s \<Longrightarrow> net_step s s' \<Longrightarrow> net_ok s'"
  by (erule net_step.cases) (blast intro: OpenSocket_ok CloseSocket_ok Bind_ok Tcp_Connect_ok Tcp_Listen_ok Accept_ok setNonblock_ok
      CreateEngine_ok Bind2Engine_ok StopEngine_ok CloseEngine_ok)+

interpretation net: invariant_system "net_start flags" net_step net_ok for flags
  by unfold_locales (auto intro: net_ok_start net_ok_step)

section \<open>Properties\<close>


lemma fd_of_bound [simp]: "fd_of (s\<lparr>n_bound := b\<rparr>) = fd_of s"
  by (simp add: fd_of_def fun_eq_iff)

lemma without_with:
  assumes "net_ok s" and "fresh fd o1 s" and "n_bound s fd = None"
  shows "without_sock (o_mem o1) fd (with_sock fd o1 s) = s"
    and "without_sock (o_mem o1) fd ((with_sock fd o1 s)\<lparr>n_bound := (n_bound s)(fd \<mapsto> adr)\<rparr>) = s"
proof -
  have "fd' \<noteq> fd" if "(p, fd', h) \<in> n_watch s" for p fd' h
  proof -
    have "fd_of s h = Some fd'" using assms(1) that by (simp add: net_ok_def fds_ok_def)
    then have "fd' \<in> n_open s" using assms(1) by (auto simp: net_ok_def fds_ok_def ran_def)
    then show ?thesis using assms(2) by (auto simp: fresh_def)
  qed
  then have "{x \<in> n_watch s. fst (snd x) \<noteq> fd} = n_watch s" by force
  moreover have "n_open s - {fd} = n_open s" "(n_sockets s)(o_mem o1 := None) = n_sockets s" "(n_bound s)(fd := None) = n_bound s"
    using assms(2,3) by (auto simp: fresh_def fun_eq_iff)
  ultimately show "without_sock (o_mem o1) fd (with_sock fd o1 s) = s"
    "without_sock (o_mem o1) fd ((with_sock fd o1 s)\<lparr>n_bound := (n_bound s)(fd \<mapsto> adr)\<rparr>) = s"
    by (simp_all add: without_sock_def with_sock_def)
qed


text \<open>The failures that are not noticed: when malloc or, in Tcp_Listen, the call of socket fails, and
  when an engine is closed before a socket that is bound to it, the library uses a null pointer or an
  engine that has been freed.\<close>

theorem handles_misused:
  "(0 \<le> o_fd o1 \<and> o_mem o1 = NULL \<longrightarrow> OpenSocket o1 s = None) \<and>
   (o_fd o1 < 0 \<longrightarrow> Tcp_Listen None port o1 bret lret s = None) \<and>
   CreateEngine NULL junk pfd s = None \<and>
   (\<forall>s1 s2. Bind2Engine 0 e h s = Some (0, s1) \<and> CloseEngine e s1 = Some s2 \<longrightarrow> CloseSocket h s2 = None)"
proof (intro conjI allI impI)
  show "OpenSocket o1 s = None" if "0 \<le> o_fd o1 \<and> o_mem o1 = NULL" using that by (simp add: OpenSocket_eq)
  show "Tcp_Listen None port o1 bret lret s = None" if "o_fd o1 < 0"
    using that by (simp add: Tcp_Listen_def OpenSocket_eq Bind_def CloseSocket_def ReleaseSocketWrapper_def)
  show "CreateEngine NULL junk pfd s = None"
    by (simp add: CreateEngine_def NewEngine_def create_engine_def epoll_init_def engine_at_def)
  fix s1 s2 assume b: "Bind2Engine 0 e h s = Some (0, s1) \<and> CloseEngine e s1 = Some s2"
  then obtain x where x: "n_sockets s1 h = Some x" "s_engine x = e" "e \<noteq> NULL" "h \<noteq> NULL"
    by (auto simp: Bind2Engine_def epoll_register_def split: bind_splits if_splits)
  have "n_sockets s2 h = Some x" "n_engines s2 e = None"
    using b x(1) by (auto simp: CloseEngine_def ReleaseEngine_def free_engine_def split: if_splits)
  then show "CloseSocket h s2 = None" using CloseSocket_eq [of s2 h x] x(2-4) by simp
qed

lemma length_dec: "length (dec b) = (if 100 \<le> unat b then 3 else if 10 \<le> unat b then 2 else 1)"
  by (simp add: dec_def Let_def)

text \<open>getRemoteAddrPort gives the address and the port of the peer, unless all four numbers of the
  address have three digits: then it fails, because it offers 15 bytes for up to 16.\<close>

theorem remote_addr_longest:
  assumes "h \<noteq> NULL" and "n_sockets s h = Some x"
  shows "getRemoteAddrPort (Some ((a, b, c, d), port)) True h s =
    Some (if 100 \<le> unat a \<and> 100 \<le> unat b \<and> 100 \<le> unat c \<and> 100 \<le> unat d then (-1, [], 0)
          else (0, dec a @ ''.'' @ dec b @ ''.'' @ dec c @ ''.'' @ dec d, port))"
  using assms by (auto simp: getRemoteAddrPort_def inet_ntop_def Let_def length_dec split: if_splits)

section \<open>Witnesses\<close>

definition junk_ex :: sock where
  "junk_ex = \<lparr>s_fd = 0, s_engine = 0, s_status = 0, s_recv = InitSocket, s_send = InitSocket\<rparr>"

definition new_ex :: new_sock where
  "new_ex = \<lparr>o_fd = 3, o_mem = 100, o_junk = junk_ex\<rparr>"

definition net_ex :: net where
  "net_ex = net_start (\<lambda>_. 0)"

lemma net_ex_fresh: "fresh 3 new_ex net_ex" "fresh (o_fd new_ex) new_ex net_ex"
  by (simp_all add: fresh_def new_ex_def net_ex_def net_start_def)



lemma handles_misused_witness:
  "OpenSocket (new_ex\<lparr>o_mem := NULL\<rparr>) net_ex = None \<and> CreateEngine NULL 0 4 net_ex = None \<and>
   (\<exists>s1 s2. Bind2Engine 0 200 100 ((with_sock 3 new_ex net_ex)\<lparr>n_engines := [200 \<mapsto> \<lparr>e_status = 1, e_poller = 4\<rparr>]\<rparr>) = Some (0, s1) \<and>
     CloseEngine 200 s1 = Some s2 \<and> CloseSocket 100 s2 = None)"
proof -
  let ?s = "(with_sock 3 new_ex net_ex)\<lparr>n_engines := [200 \<mapsto> \<lparr>e_status = 1, e_poller = 4\<rparr>]\<rparr>"
  have x: "n_sockets ?s 100 = Some (new_at 3 new_ex)" by (simp add: with_sock_def new_ex_def)
  obtain s1 where s1: "Bind2Engine 0 200 100 ?s = Some (0, s1)" "n_engines s1 200 \<noteq> None"
    using x by (simp add: Bind2Engine_def epoll_register_def engine_at_def)
  obtain s2 where s2: "CloseEngine 200 s1 = Some s2"
    using s1(2) by (simp add: CloseEngine_def ReleaseEngine_def free_engine_def)
  have "CloseSocket 100 s2 = None" using handles_misused [of new_ex ?s 80 0 0 0 4 200 100] s1(1) s2 by blast
  moreover have "OpenSocket (new_ex\<lparr>o_mem := NULL\<rparr>) net_ex = None \<and> CreateEngine NULL 0 4 net_ex = None"
    using handles_misused [of "new_ex\<lparr>o_mem := NULL\<rparr>" net_ex 80 0 0 0 4 1 1] by (simp add: new_ex_def)
  ultimately show ?thesis using s1(1) s2 by blast
qed

lemma remote_addr_longest_witness:
  "getRemoteAddrPort (Some ((192, 168, 100, 100), 80)) True 100 (with_sock 3 new_ex net_ex) = Some (-1, [], 0)"
  using remote_addr_longest [of 100 "with_sock 3 new_ex net_ex" "new_at 3 new_ex" 192 168 100 100 80]
  by (simp add: with_sock_def new_ex_def)

end
