(* ===== verification/Event_Queue.thy ===== *)
theory Event_Queue
  imports Sync
begin

text \<open>
  Waiting for an event: GetQueueEvent of src/KendyNet.c over the message queue of the engine.  The queue
  is an argument, pop, that takes the time and the milliseconds to wait and gives the message, or NULL,
  and the time when it returns; status is the status of the engine as it changes with time.  A time is
  seconds and microseconds, as in Sync.
\<close>

type_synonym time = "int \<times> int"

text \<open>The loop for a timeout that is positive: what is returned, the event, and the time.\<close>

function timed_loop :: "(time \<Rightarrow> int) \<Rightarrow> (time \<Rightarrow> int \<Rightarrow> addr \<times> time) \<Rightarrow> int \<Rightarrow> addr \<Rightarrow> time \<Rightarrow> int \<times> addr \<times> time" where
  "timed_loop status pop ms_remain io now =
     (if ms_remain > 0
      then if status now = 0 then (-1, io, now)
           else let (io, now) = pop now 10
                in if io \<noteq> NULL then (0, io, now) else timed_loop status pop (ms_remain - 10) io now
      else (0, io, now))"
  by pat_completeness auto
termination
  by (relation "measure (\<lambda>(status, pop, ms, io, now). nat ms)") auto

declare timed_loop.simps [simp del]

text \<open>The loop without a timeout, which ends only for an event or when the engine stops.\<close>

partial_function (option) poll_loop :: "(time \<Rightarrow> int) \<Rightarrow> (time \<Rightarrow> int \<Rightarrow> addr \<times> time) \<Rightarrow> time \<Rightarrow> (int \<times> addr \<times> time) option" where
  "poll_loop status pop now =
     (let (io, now) = pop now 10
      in if io \<noteq> NULL then Some (0, io, now)
         else if status now = 0 then Some (-1, io, now)
         else poll_loop status pop now)"

definition GetQueueEvent :: "(time \<Rightarrow> int) \<Rightarrow> (time \<Rightarrow> int \<Rightarrow> addr \<times> time) \<Rightarrow> addr \<Rightarrow> addr \<Rightarrow> int \<Rightarrow> time \<Rightarrow> (int \<times> addr \<times> time) option" where
  "GetQueueEvent status pop handle io timeout now =
     (if handle = NULL then Some (-1, io, now)
      else if status now = 0 then Some (-1, io, now)
      else if timeout < 0 then (let (io, now) = pop now 0 in Some (0, io, now))
      else if timeout = 0 then poll_loop status pop now
      else let ms_remain = (if timeout > 10 then timeout else 10)
           in Some (timed_loop status pop ms_remain io now))"

text \<open>A queue that stays empty: a wait lasts until the deadline that condition_timedwait sets.\<close>

definition stays_empty :: "(time \<Rightarrow> int \<Rightarrow> addr \<times> time) \<Rightarrow> bool" where
  "stays_empty pop \<longleftrightarrow> (\<forall>now ms. fst (pop now ms) = NULL \<and>
     (ms > 0 \<longrightarrow> (\<forall>c m t. fst (fst (condition_timedwait now c m ms t)) \<le> fst (snd (pop now ms)))))"

lemma timed_loop_empty:
  assumes "stays_empty pop" and "\<And>now. status now \<noteq> 0" and "0 < ms"
  shows "\<exists>now'. timed_loop status pop ms io now = (0, NULL, now') \<and> fst now + 5 * ((ms + 9) div 10) \<le> fst now'"
  using assms(3)
proof (induction "nat ms" arbitrary: ms io now rule: less_induct)
  case less
  obtain a now1 where p: "pop now 10 = (a, now1)" by (cases "pop now 10")
  have "fst (pop now 10) = NULL"
    using assms(1) unfolding stays_empty_def by blast
  moreover have "fst (fst (condition_timedwait now c m 10 t)) \<le> fst (snd (pop now 10))" for c m t
    using assms(1) [unfolded stays_empty_def, THEN spec, THEN spec, of now 10] by simp
  ultimately have e: "a = NULL" "fst now + 5 \<le> fst now1" by (simp_all add: p condition_timedwait_def Let_def)
  have s: "timed_loop status pop ms io now = timed_loop status pop (ms - 10) NULL now1"
    using less.prems assms(2) [of now] p e(1) by (simp add: timed_loop.simps [of status pop ms])
  show ?case
  proof (cases "0 < ms - 10")
    case True
    then obtain now' where n: "timed_loop status pop (ms - 10) NULL now1 = (0, NULL, now')"
      "fst now1 + 5 * ((ms - 10 + 9) div 10) \<le> fst now'"
      using less.hyps [of "ms - 10" NULL now1] by auto
    have "(ms + 9) div 10 = (ms - 10 + 9) div 10 + 1" by linarith
    then show ?thesis using s n e(2) by (intro exI [of _ now']) simp
  next
    case False
    then have "timed_loop status pop (ms - 10) NULL now1 = (0, NULL, now1)" by (simp add: timed_loop.simps)
    moreover have "(ms + 9) div 10 = 1" using less.prems False by linarith
    ultimately show ?thesis using s e(2) by (intro exI [of _ now1]) simp
  qed
qed

section \<open>Properties\<close>

text \<open>Waiting for an event of a queue that stays empty, with a timeout in milliseconds, always ends, and
  gives no event, but only after five seconds for every ten milliseconds of the timeout.\<close>

theorem get_event_waits_too_long:
  assumes "stays_empty pop" and "\<forall>now. status now \<noteq> 0" and "handle \<noteq> NULL" and "0 < timeout"
  shows "\<exists>now'. GetQueueEvent status pop handle io timeout now = Some (0, NULL, now') \<and>
    fst now + 5 * ((timeout + 9) div 10) \<le> fst now'"
proof -
  let ?ms = "if timeout > 10 then timeout else 10"
  have "0 < ?ms" by simp
  then obtain now' where n: "timed_loop status pop ?ms io now = (0, NULL, now')" "fst now + 5 * ((?ms + 9) div 10) \<le> fst now'"
    using timed_loop_empty [of pop status ?ms io now] assms(1,2) by blast
  have "(timeout + 9) div 10 \<le> (?ms + 9) div 10" by (rule zdiv_mono1) simp_all
  moreover have "GetQueueEvent status pop handle io timeout now = Some (timed_loop status pop ?ms io now)"
    using assms(2) [THEN spec, of now] assms(3,4) by (simp add: GetQueueEvent_def)
  moreover have "fst now + 5 * ((timeout + 9) div 10) \<le> fst now'" using n(2) calculation(1) by linarith
  ultimately show ?thesis using n(1) by (intro exI [of _ now']) simp
qed

definition empty_pop_ex :: "time \<Rightarrow> int \<Rightarrow> addr \<times> time" where
  "empty_pop_ex now ms = (NULL, fst now + 5, snd now)"

lemma get_event_waits_too_long_witness:
  "\<exists>now'. GetQueueEvent (\<lambda>_. 1) empty_pop_ex 7 NULL 1000 (0, 0) = Some (0, NULL, now') \<and> 500 \<le> fst now'"
proof -
  have "stays_empty empty_pop_ex" by (auto simp: stays_empty_def empty_pop_ex_def condition_timedwait_def Let_def split: prod.splits)
  then show ?thesis using get_event_waits_too_long [of empty_pop_ex "\<lambda>_. 1" 7 1000 NULL "(0, 0)"] by simp
qed

end
