(* ===== verification/Engine_Loop.thy ===== *)
theory Engine_Loop
  imports Net_Handles Event_Queue Msg_Queue "HOL-Library.Signed_Division"
begin

unbundle bit_operations_syntax

text \<open>
  The loop of an engine: epoll_loop of src/epoll.c, EngineRun of src/KendyNet.c and GetSystemMs of
  include/SysTime.h over the handles of Net_Handles, and the events put into the queue of an engine
  (put_event and put_event2 of src/Engine.c).  What each turn of the loop meets is an argument; what it
  does is a list of actions.
\<close>

section \<open>Events of the program\<close>

text \<open>put_event and put_event2 for the queue q of an engine, by thread t.\<close>

definition put_event :: "addr \<Rightarrow> addr \<Rightarrow> mq_state \<Rightarrow> nat \<Rightarrow> mq_state option" where
  "put_event q io s t = (if io = NULL then None else mq_push s t q io True)"

definition put_event2 :: "addr \<Rightarrow> addr \<Rightarrow> mq_state \<Rightarrow> nat \<Rightarrow> mq_state option" where
  "put_event2 q io s t = (if io = NULL then None else mq_push s t q io False)"

definition PutQueueEvent :: "addr \<Rightarrow> addr \<Rightarrow> addr \<Rightarrow> mq_state \<Rightarrow> nat \<Rightarrow> (int \<times> mq_state) option" where
  "PutQueueEvent handle q io s t =
     (if io = NULL then None
      else if handle = NULL then Some (-1, s)
      else map_option (Pair 0) (put_event q io s t))"

section \<open>The loop\<close>

text \<open>The clock in milliseconds, of seconds and nanoseconds.\<close>

definition GetSystemMs :: "int \<times> int \<Rightarrow> 64 word" where
  "GetSystemMs now = of_int (fst now * 1000 + snd now div (1000 * 1000))"

abbreviation EPOLLIN :: u32 where "EPOLLIN \<equiv> 1"
abbreviation EPOLLOUT :: u32 where "EPOLLOUT \<equiv> 4"

text \<open>What a turn of the loop meets: the status of the engine, what epoll_wait finds (None for an error), the
  clock afterwards, and the bytes received.\<close>

record turn =
  t_status :: int
  t_events :: "(addr \<times> u32) list option"
  t_now :: "int \<times> int"
  t_total :: int

datatype loop_act = Do_wait int | Do_on_read addr | Do_on_write addr | Do_mq_flush | Do_report int | Do_error | Do_close int

definition event_acts :: "addr \<times> u32 \<Rightarrow> loop_act list" where
  "event_acts ev =
     (if fst ev \<noteq> NULL
      then (if snd ev AND EPOLLIN \<noteq> 0 then [Do_on_read (fst ev)] else []) @
           (if snd ev AND EPOLLOUT \<noteq> 0 then [Do_on_write (fst ev)] else [])
      else [])"

text \<open>The turns from the time tick of the last report on; true when the loop ends.\<close>

fun loop_turns :: "int \<Rightarrow> u32 \<Rightarrow> turn list \<Rightarrow> loop_act list \<times> bool" where
  "loop_turns pfd tick [] = ([], False)"
| "loop_turns pfd tick (w # ws) =
     (if t_status w = 0 then ([], True)
      else case t_events w of
        None \<Rightarrow> ([Do_wait pfd, Do_error], True)
      | Some evs \<Rightarrow>
          (let now = (ucast (GetSystemMs (t_now w)) :: u32);
               report = (now - tick > 1000);
               (acts, ended) = loop_turns pfd (if report then now else tick) ws
           in (Do_wait pfd # concat (map event_acts evs) @ [Do_mq_flush] @
               (if report then [Do_report (t_total w sdiv 1024 sdiv 1024)] else []) @ acts, ended)))"

definition InitNetSystem :: int where
  "InitNetSystem = 0"

definition epoll_loop :: "int \<Rightarrow> int \<times> int \<Rightarrow> turn list \<Rightarrow> loop_act list \<times> bool" where
  "epoll_loop pfd start ws =
     (let (acts, ended) = loop_turns pfd (ucast (GetSystemMs start)) ws
      in (acts @ (if ended then [Do_close pfd] else []), ended))"

text \<open>Closing a descriptor, whatever it is of.\<close>

definition k_close_poller :: "int \<Rightarrow> net \<Rightarrow> net" where
  "k_close_poller p s = (k_close p s)\<lparr>n_pollers := n_pollers s - {p}, n_watch := {x \<in> n_watch s. fst x \<noteq> p \<and> fst (snd x) \<noteq> p}\<rparr>"

definition EngineRun :: "addr \<Rightarrow> int \<times> int \<Rightarrow> turn list \<Rightarrow> net \<Rightarrow> (int trial \<times> loop_act list \<times> net) option" where
  "EngineRun h start ws s =
     (if h = NULL then Some (Returned (-1), [], s)
      else do {
        en \<leftarrow> n_engines s h;
        let (acts, ended) = epoll_loop (e_poller en) start ws;
        Some (if ended then (Returned 0, acts, k_close_poller (e_poller en) s) else (Trying, acts, s))
      })"

section \<open>What the loop does\<close>

fun serves :: "loop_act \<Rightarrow> bool" where
  "serves (Do_on_read a) = True"
| "serves (Do_on_write a) = True"
| "serves Do_mq_flush = True"
| "serves (Do_close p) = True"
| "serves _ = False"

fun reports :: "loop_act \<Rightarrow> bool" where
  "reports (Do_report n) = True"
| "reports _ = False"

text \<open>Turns in which the loop goes on, and one in which it ends.\<close>

definition goes_on :: "turn \<Rightarrow> bool" where
  "goes_on w \<longleftrightarrow> t_status w \<noteq> 0 \<and> t_events w \<noteq> None"

definition turn_acts :: "turn \<Rightarrow> loop_act list" where
  "turn_acts w = concat (map event_acts (the (t_events w)))"

lemma event_acts_serve: "a \<in> set (event_acts ev) \<Longrightarrow> serves a \<and> \<not> reports a"
  by (auto simp: event_acts_def split: if_splits)

lemma turn_acts_filter: "filter serves (turn_acts w) = turn_acts w" "filter reports (turn_acts w) = []"
  by (auto simp: turn_acts_def filter_empty_conv intro!: filter_True dest: event_acts_serve)

lemma loop_turns_step:
  assumes "goes_on w"
  shows "loop_turns pfd tick (w # ws) =
    (let now = (ucast (GetSystemMs (t_now w)) :: u32);
         r = loop_turns pfd (if now - tick > 1000 then now else tick) ws
     in (Do_wait pfd # turn_acts w @ [Do_mq_flush] @
          (if now - tick > 1000 then [Do_report (t_total w sdiv 1024 sdiv 1024)] else []) @ fst r, snd r))"
  using assms by (auto simp: goes_on_def turn_acts_def Let_def split: prod.splits)

lemma loop_turns_serve:
  assumes "\<forall>w \<in> set ws. goes_on w" and "\<not> goes_on w'"
  shows "filter serves (fst (loop_turns pfd tick (ws @ w' # rest))) = concat (map (\<lambda>w. turn_acts w @ [Do_mq_flush]) ws) \<and>
    snd (loop_turns pfd tick (ws @ w' # rest))"
  using assms(1)
proof (induction ws arbitrary: tick)
  case Nil
  then show ?case using assms(2) by (auto simp: goes_on_def)
next
  case (Cons w ws)
  then have "goes_on w" by simp
  from loop_turns_step [OF this] show ?case using Cons by (simp add: Let_def turn_acts_filter)
qed

section \<open>The clock\<close>

definition ms_of :: "int \<times> int \<Rightarrow> int" where
  "ms_of now = fst now * 1000 + snd now div 1000000"

text \<open>The turns that report, with a clock that does not wrap around: more than a second after the last one.\<close>

fun due_reports :: "int \<Rightarrow> turn list \<Rightarrow> turn list" where
  "due_reports since [] = []"
| "due_reports since (w # ws) =
     (if ms_of (t_now w) - since > 1000 then w # due_reports (ms_of (t_now w)) ws else due_reports since ws)"

text \<open>The clock does not run backwards, and no turn takes as long as 2 to the 32 less 1000 milliseconds.\<close>

fun steady :: "int \<Rightarrow> turn list \<Rightarrow> bool" where
  "steady prev [] = True"
| "steady prev (w # ws) = (prev \<le> ms_of (t_now w) \<and> ms_of (t_now w) - prev < 2 ^ 32 - 1000 \<and> steady (ms_of (t_now w)) ws)"

lemma tick_of: "(ucast (GetSystemMs now) :: u32) = of_int (ms_of now)"
proof -
  have *: "(ucast (of_int x :: 64 word) :: u32) = of_int x" for x :: int by transfer simp
  have "1000 * 1000 = (1000000 :: int)" by simp
  then show ?thesis by (simp only: GetSystemMs_def ms_of_def *)
qed

lemma elapsed32:
  assumes "0 \<le> a - b" and "a - b < 2 ^ 32"
  shows "(of_int a - of_int b > (1000 :: u32)) = (a - b > 1000)"
proof -
  have "(of_int a - of_int b :: u32) = of_int (a - b)" by simp
  moreover have "uint (of_int (a - b) :: u32) = a - b" using assms by (simp add: uint_word_of_int_eq take_bit_int_eq_self del: of_int_diff)
  ultimately show ?thesis by (simp add: word_less_def)
qed

lemma loop_turns_reports:
  assumes "\<forall>w \<in> set ws. goes_on w" and "steady prev ws" and "0 \<le> prev - since" and "prev - since \<le> 1000"
  shows "filter reports (fst (loop_turns pfd (of_int since) ws)) = map (\<lambda>w. Do_report (t_total w sdiv 1024 sdiv 1024)) (due_reports since ws)"
  using assms
proof (induction ws arbitrary: prev since)
  case (Cons w ws)
  then have g: "goes_on w" and st: "steady (ms_of (t_now w)) ws" by simp_all
  have e: "(of_int (ms_of (t_now w)) - of_int since > (1000 :: u32)) = (ms_of (t_now w) - since > 1000)"
    using Cons.prems by (intro elapsed32) auto
  show ?case
  proof (cases "ms_of (t_now w) - since > 1000")
    case True
    then show ?thesis using Cons.IH [of "ms_of (t_now w)" "ms_of (t_now w)"] st Cons.prems(1) e
      by (simp add: loop_turns_step [OF g] Let_def tick_of turn_acts_filter del: loop_turns.simps(2))
  next
    case False
    then show ?thesis using Cons.IH [of "ms_of (t_now w)" since] st Cons.prems e
      by (simp add: loop_turns_step [OF g] Let_def tick_of turn_acts_filter del: loop_turns.simps(2))
  qed
qed simp

section \<open>Properties\<close>

lemma fd_of_close_poller [simp]: "fd_of (k_close_poller p s) = fd_of s"
  by (simp add: fd_of_def k_close_poller_def k_close_def fun_eq_iff)


text \<open>Over a clock in milliseconds that does not run backwards and no turn of 49 days, the loop reports the
  megabytes received in exactly the turns that end more than a second after the last report, although it
  keeps the time in 32 bits, which wrap around.\<close>

theorem engine_loop_reports:
  assumes "\<forall>w \<in> set ws. goes_on w" and "steady (ms_of start) ws"
  shows "filter reports (fst (epoll_loop pfd start ws)) =
    map (\<lambda>w. Do_report (t_total w sdiv 1024 sdiv 1024)) (due_reports (ms_of start) ws)"
  using loop_turns_reports [OF assms, of "ms_of start" pfd] by (simp add: epoll_loop_def tick_of split_beta)

text \<open>An engine that is run again after its loop has ended closes the descriptor of its poller again,
  and with it the connection of a socket that has been given this descriptor in between.\<close>

theorem engine_run_again_closes_socket:
  assumes "h \<noteq> NULL" and "n_engines s h = Some en" and "t_status w = 0"
    and "o_fd o1 = e_poller en" and "0 \<le> e_poller en" and "o_mem o1 \<noteq> NULL"
  shows "\<exists>a1 s1 s2 s3 a3. EngineRun h start [w] s = Some (Returned 0, a1, s1) \<and> o_fd o1 \<notin> n_pollers s1 \<union> n_open s1 \<and>
    OpenSocket o1 s1 = Some (o_mem o1, s2) \<and> fd_of s2 (o_mem o1) = Some (o_fd o1) \<and> o_fd o1 \<in> n_open s2 \<and>
    EngineRun h start [w] s2 = Some (Returned 0, a3, s3) \<and>
    fd_of s3 (o_mem o1) = Some (o_fd o1) \<and> o_fd o1 \<notin> n_open s3"
proof -
  let ?s1 = "k_close_poller (e_poller en) s"
  let ?s2 = "with_sock (o_fd o1) o1 ?s1"
  have e: "epoll_loop (e_poller en) start [w] = ([Do_close (e_poller en)], True)" using assms(3) by (simp add: epoll_loop_def)
  have "EngineRun h start [w] s = Some (Returned 0, [Do_close (e_poller en)], ?s1)" using assms(1,2) e by (simp add: EngineRun_def)
  moreover have "n_engines ?s2 h = Some en" using assms(2) by (simp add: with_sock_def k_close_poller_def k_close_def)
  then have "EngineRun h start [w] ?s2 = Some (Returned 0, [Do_close (e_poller en)], k_close_poller (e_poller en) ?s2)"
    using assms(1) e by (simp add: EngineRun_def)
  moreover have "OpenSocket o1 ?s1 = Some (o_mem o1, ?s2)" using assms(4-6) by (simp add: OpenSocket_eq)
  moreover have "o_fd o1 \<notin> n_pollers ?s1 \<union> n_open ?s1" "o_fd o1 \<notin> n_open (k_close_poller (e_poller en) ?s2)" "o_fd o1 \<in> n_open ?s2"
    using assms(4) by (simp_all add: k_close_poller_def k_close_def with_sock_def)
  ultimately show ?thesis by (intro exI conjI) simp_all
qed

section \<open>Witnesses\<close>

definition turn_ex :: turn where
  "turn_ex = \<lparr>t_status = 1, t_events = Some [(100, 5), (NULL, 1)], t_now = (2, 500000000), t_total = 5242880\<rparr>"

definition net_run :: net where
  "net_run = net_ex\<lparr>n_engines := [200 \<mapsto> \<lparr>e_status = 1, e_poller = 4\<rparr>], n_pollers := {4}\<rparr>"

lemma goes_on_ex: "goes_on turn_ex" "\<not> goes_on (turn_ex\<lparr>t_status := 0\<rparr>)"
  by (simp_all add: goes_on_def turn_ex_def)


lemma engine_loop_reports_witness:
  "filter reports (fst (epoll_loop 4 (1, 0) [turn_ex, turn_ex\<lparr>t_now := (3, 0)\<rparr>])) = [Do_report 5]"
proof -
  have "steady (ms_of (1, 0)) [turn_ex, turn_ex\<lparr>t_now := (3, 0)\<rparr>]" by (simp add: ms_of_def turn_ex_def)
  then show ?thesis using engine_loop_reports [of "[turn_ex, turn_ex\<lparr>t_now := (3, 0)\<rparr>]" "(1, 0)" 4]
    by (simp add: goes_on_def turn_ex_def ms_of_def signed_divide_int_def)
qed

lemma engine_run_again_closes_socket_witness:
  "\<exists>a1 s1 s2 s3 a3. EngineRun 200 (1, 0) [turn_ex\<lparr>t_status := 0\<rparr>] net_run = Some (Returned 0, a1, s1) \<and>
    OpenSocket (new_ex\<lparr>o_fd := 4\<rparr>) s1 = Some (100, s2) \<and> 4 \<in> n_open s2 \<and>
    EngineRun 200 (1, 0) [turn_ex\<lparr>t_status := 0\<rparr>] s2 = Some (Returned 0, a3, s3) \<and> 4 \<notin> n_open s3"
proof -
  have h: "n_engines net_run 200 = Some \<lparr>e_status = 1, e_poller = 4\<rparr>" by (simp add: net_run_def)
  show ?thesis
    using engine_run_again_closes_socket [OF _ h, of "turn_ex\<lparr>t_status := 0\<rparr>" "new_ex\<lparr>o_fd := 4\<rparr>" "(1, 0)"]
    by (auto simp: new_ex_def)
qed

end
