(* ===== verification/Turn_Taking.thy ===== *)
theory Turn_Taking
  imports Prelude
begin

text \<open>
  The interface of a server that serves a set of clients in turn: in each state the clients stand in an
  order, serving takes the first and puts it last.  What the interface gives: over any number of turns no
  client is served more than once more often than another.  The dispatching of connections by the master
  of src/server_framework.h provides it.
\<close>

primrec turns :: "nat \<Rightarrow> 'a list \<Rightarrow> 'a list" where
  "turns 0 xs = []"
| "turns (Suc k) xs = hd xs # turns k (rotate1 xs)"

lemma length_turns [simp]: "length (turns k xs) = k"
  by (induction k arbitrary: xs) simp_all

lemma turns_add: "turns (j + k) xs = turns j xs @ turns k (rotate j xs)"
  by (induction j arbitrary: xs) (simp_all add: rotate1_rotate_swap)

lemma nth_turns: "xs \<noteq> [] \<Longrightarrow> i < k \<Longrightarrow> turns k xs ! i = xs ! (i mod length xs)"
proof (induction k arbitrary: xs i)
  case (Suc k)
  show ?case
  proof (cases i)
    case 0
    then show ?thesis using Suc.prems by (simp add: hd_conv_nth)
  next
    case (Suc j)
    then have "turns k (rotate1 xs) ! j = rotate1 xs ! (j mod length xs)"
      using Suc.prems Suc.IH [of "rotate1 xs" j] by simp
    also have "\<dots> = xs ! (Suc j mod length xs)"
      using Suc.prems(1) by (simp add: nth_rotate1 mod_Suc_eq)
    finally show ?thesis using Suc by simp
  qed
qed simp

lemma turns_take: "k \<le> length xs \<Longrightarrow> turns k xs = take k xs"
proof (cases "xs = []")
  case False
  then show "k \<le> length xs \<Longrightarrow> turns k xs = take k xs" by (intro nth_equalityI) (auto simp: nth_turns)
qed simp

lemma turns_round: "turns (length xs + k) xs = xs @ turns k xs"
  by (simp add: turns_add turns_take)

lemma set_turns: "xs \<noteq> [] \<Longrightarrow> set (turns k xs) \<subseteq> set xs"
proof (induction k arbitrary: xs)
  case (Suc k)
  show ?case using Suc.prems Suc.IH [of "rotate1 xs"] by (cases xs) auto
qed simp

lemma turns_fair:
  assumes "distinct xs" and "a \<in> set xs" and "b \<in> set xs"
  shows "count_list (turns k xs) a \<le> count_list (turns k xs) b + 1"
  using assms
proof (induction k rule: less_induct)
  case (less k)
  have one: "count_list xs c = 1" if "c \<in> set xs" for c
    using less.prems(1) that by (induction xs) (auto simp: count_list_0_iff)
  show ?case
  proof (cases "k \<le> length xs")
    case True
    have "count_list (take k xs) a \<le> count_list (take k xs @ drop k xs) a" by (simp only: count_list_append)
    then show ?thesis using True one [OF less.prems(2)] by (simp add: turns_take)
  next
    case False
    then obtain m where m: "k = length xs + m" by (metis le_iff_add nat_le_linear)
    moreover have "0 < length xs" using less.prems(2) by auto
    ultimately have "count_list (turns m xs) a \<le> count_list (turns m xs) b + 1"
      using less.IH [of m] less.prems by simp
    then show ?thesis using m one less.prems by (simp add: turns_round)
  qed
qed

lemma turns_share:
  assumes "distinct xs" and "a \<in> set xs"
  shows "k div card (set xs) \<le> count_list (turns k xs) a"
proof (rule ccontr)
  let ?c = "count_list (turns k xs)" and ?m = "card (set xs)"
  assume "\<not> k div ?m \<le> ?c a"
  then have a: "?c a < k div ?m" by simp
  have "?c b \<le> k div ?m" if "b \<in> set xs" for b
    using turns_fair [OF assms(1) that assms(2), of k] a by simp
  then have "sum ?c (set xs) < (\<Sum>b\<in>set xs. k div ?m)"
    using assms(2) a by (intro sum_strict_mono_ex1) auto
  moreover have "sum ?c (set xs) = k"
  proof (rule sum_count_set [of _ _, THEN trans])
    show "set (turns k xs) \<subseteq> set xs" using assms(2) by (intro set_turns) auto
  qed simp_all
  moreover have "?m * (k div ?m) \<le> k" by simp
  ultimately show False by simp
qed

text \<open>Serving several times, one after the other.\<close>

inductive serves :: "('s \<Rightarrow> 'a \<Rightarrow> 's \<Rightarrow> bool) \<Rightarrow> 's \<Rightarrow> 'a list \<Rightarrow> 's \<Rightarrow> bool" for serve where
  serves_Nil: "serves serve s [] s"
| serves_Cons: "serve s a s1 \<Longrightarrow> serves serve s1 as s2 \<Longrightarrow> serves serve s (a # as) s2"

inductive_simps serves_simps [simp]: "serves serve s [] s2" "serves serve s (a # as) s2"

locale turn_taking =
  fixes inv :: "'s \<Rightarrow> bool"
    and order :: "'s \<Rightarrow> 'a list"
    and serve :: "'s \<Rightarrow> 'a \<Rightarrow> 's \<Rightarrow> bool"
  assumes order_distinct: "inv s \<Longrightarrow> distinct (order s)"
    and serve_first: "inv s \<Longrightarrow> order s \<noteq> [] \<Longrightarrow>
      \<exists>s'. serve s (hd (order s)) s' \<and> inv s' \<and> order s' = rotate1 (order s)"
begin

lemma serves_turns:
  assumes "inv s" and "order s \<noteq> []"
  shows "\<exists>s'. serves serve s (turns k (order s)) s' \<and> inv s' \<and> order s' = rotate k (order s)"
  using assms
proof (induction k arbitrary: s)
  case (Suc k)
  obtain s1 where 1: "serve s (hd (order s)) s1" "inv s1" "order s1 = rotate1 (order s)"
    using serve_first [OF Suc.prems] by blast
  then have "\<exists>s2. serves serve s1 (turns k (order s1)) s2 \<and> inv s2 \<and> order s2 = rotate k (order s1)"
    using Suc.prems(2) by (intro Suc.IH) simp_all
  then show ?case using 1 by (auto simp: rotate1_rotate_swap)
qed auto

lemma serves_fair:
  assumes "inv s" and "order s \<noteq> []"
  obtains as s' where "serves serve s as s'" and "inv s'" and "length as = k"
    and "set as \<subseteq> set (order s)"
    and "\<And>a b. a \<in> set (order s) \<Longrightarrow> b \<in> set (order s) \<Longrightarrow> count_list as a \<le> count_list as b + 1"
    and "\<And>a. a \<in> set (order s) \<Longrightarrow> k div card (set (order s)) \<le> count_list as a"
proof -
  obtain s' where s': "serves serve s (turns k (order s)) s'" "inv s'" using serves_turns [OF assms] by blast
  note d = order_distinct [OF assms(1)]
  show thesis
  proof (rule that [OF s'])
    show "k div card (set (order s)) \<le> count_list (turns k (order s)) a" if "a \<in> set (order s)" for a
      using turns_share [OF d that] .
  qed (use set_turns [OF assms(2)] turns_fair [OF d] in auto)
qed

end

end
