(* ===== verification/Server_Master.thy ===== *)
theory Server_Master
  imports Time_Heap Turn_Taking
begin

text \<open>
  The master of src/server_framework.h: it forks the worker processes, passes each new connection to
  one of them in turn, and follows their deaths through the signals it reads from a pipe.  The
  environment is an argument: the descriptors and process numbers that the kernel gives, the results of
  epoll_wait with what recv reads at each event, and the children that have died.  What the master does
  to others is a log of actions.  None is an assertion that fails, an access outside an array, or an
  arithmetic overflow.
\<close>

section \<open>State\<close>

abbreviation SIGINT :: int where "SIGINT \<equiv> 2"
abbreviation SIGTERM :: int where "SIGTERM \<equiv> 15"
abbreviation SIGCHLD :: int where "SIGCHLD \<equiv> 17"
abbreviation EINTR :: int where "EINTR \<equiv> 4"

record process =
  proc_pid :: int
  pipefd :: "int \<times> int"

record server_framework =
  epollfd :: int
  listenfd :: int
  stop :: bool
  process_num :: int
  index :: int
  sub_process :: "process list"
  timer_manage :: time_heap
  timer_delay :: int
  signal_pipefd :: "int \<times> int"
  watched :: "int list"
  handled_sigs :: "int list"

text \<open>A new process entry; the pipe is whatever the memory holds.\<close>

definition process_new :: "int \<times> int \<Rightarrow> process" where
  "process_new junk = \<lparr>proc_pid = -1, pipefd = junk\<rparr>"

definition slot :: "process list \<Rightarrow> int \<Rightarrow> process option" where
  "slot ps i = (if 0 \<le> i \<and> i < int (length ps) then Some (ps ! nat i) else None)"

section \<open>Forking the workers\<close>

abbreviation user_per_process :: int where "user_per_process \<equiv> 65533"

text \<open>
  The constructor as one process runs it: socketpair gives the pipes, fork the number of the child in the
  parent and 0 in the child.  The second component collects the descriptors that this process closes.
\<close>

fun spawn_loop :: "(nat \<Rightarrow> (int \<times> int) option) \<Rightarrow> (nat \<Rightarrow> int) \<Rightarrow> nat \<Rightarrow> nat \<Rightarrow>
    server_framework \<Rightarrow> int list \<Rightarrow> (server_framework \<times> int list) option" where
  "spawn_loop pair fork i 0 s closed = Some (s, closed)"
| "spawn_loop pair fork i (Suc k) s closed = do {
     fds \<leftarrow> pair i;
     p \<leftarrow> slot (sub_process s) (int i);
     let s = s\<lparr>sub_process := (sub_process s)[i := p\<lparr>pipefd := fds, proc_pid := fork i\<rparr>]\<rparr>;
     if fork i < 0 then None
     else if fork i > 0 then spawn_loop pair fork (Suc i) k s (closed @ [snd fds])
     else Some (s\<lparr>index := int i\<rparr>, closed @ [fst fds])
   }"

definition server_framework_new :: "(nat \<Rightarrow> (int \<times> int) option) \<Rightarrow> (nat \<Rightarrow> int) \<Rightarrow> (int \<times> int) \<Rightarrow>
    server_framework \<Rightarrow> int \<Rightarrow> int \<Rightarrow> (server_framework \<times> int list) option" where
  "server_framework_new pair fork junk u lfd n =
     (if n < 0 \<or> 2 ^ 31 \<le> n * user_per_process then None
      else do {
        th \<leftarrow> time_heap_new (n * user_per_process);
        spawn_loop pair fork 0 (nat n)
          (u\<lparr>listenfd := lfd, process_num := n, timer_delay := 2, index := -1, stop := False,
             sub_process := replicate (nat n) (process_new junk), timer_manage := th\<rparr>) []
      })"

text \<open>set_fd puts a descriptor into the set that epoll watches.\<close>

definition set_fd :: "int \<Rightarrow> 'a server_framework_scheme \<Rightarrow> 'a server_framework_scheme" where
  "set_fd fd s = s\<lparr>watched := watched s @ [fd]\<rparr>"

definition set_sig :: "int \<Rightarrow> 'a server_framework_scheme \<Rightarrow> 'a server_framework_scheme" where
  "set_sig sig s = s\<lparr>handled_sigs := handled_sigs s @ [sig]\<rparr>"

definition set_signal :: "int \<Rightarrow> (int \<times> int) option \<Rightarrow> 'a server_framework_scheme \<Rightarrow> 'a server_framework_scheme option" where
  "set_signal epfd sp s =
     (if epfd = -1 then None
      else do {
        fds \<leftarrow> sp;
        let s = set_fd (fst fds) (s\<lparr>epollfd := epfd, signal_pipefd := fds\<rparr>);
        Some (set_sig SIGTERM (set_sig SIGCHLD (set_sig SIGINT s)))
      })"

text \<open>The handler of a signal writes the lowest byte of its number to the pipe.\<close>

definition signal_handler :: "int \<Rightarrow> byte" where
  "signal_handler sig = word_of_int sig"

section \<open>The master\<close>

datatype action = A_send int int | A_close int | A_kill int int

record master = server_framework +
  sub_process_counter :: int
  zombies :: "int list"
  m_log :: "action list"

definition act :: "action \<Rightarrow> master \<Rightarrow> master" where
  "act a s = s\<lparr>m_log := m_log s @ [a]\<rparr>"

text \<open>The search for a worker that lives, and the choice of the next one in turn.  The second component is
  whether the loop over the events goes on.\<close>

partial_function (option) rr_loop :: "process list \<Rightarrow> int \<Rightarrow> int \<Rightarrow> int \<Rightarrow> int option" where
  "rr_loop ps n c i = Option.bind (slot ps i) (\<lambda>p.
     if proc_pid p \<noteq> -1 then Some i
     else let i = (i + 1) mod n in if i \<noteq> c then rr_loop ps n c i else Some i)"

definition dispatch :: "master \<Rightarrow> (master \<times> bool) option" where
  "dispatch s = do {
     i \<leftarrow> rr_loop (sub_process s) (process_num s) (sub_process_counter s) (sub_process_counter s);
     p \<leftarrow> slot (sub_process s) i;
     if proc_pid p = -1 then Some (s\<lparr>stop := True\<rparr>, False)
     else Some (act (A_send (fst (pipefd p)) 1) (s\<lparr>sub_process_counter := (i + 1) mod process_num s\<rparr>), True)
   }"

text \<open>waitpid takes off the children that have died; each is looked up among the workers.\<close>

fun reap_loop :: "int \<Rightarrow> int \<Rightarrow> nat \<Rightarrow> master \<Rightarrow> master option" where
  "reap_loop pid i 0 s = Some s"
| "reap_loop pid i (Suc k) s = do {
     p \<leftarrow> slot (sub_process s) i;
     reap_loop pid (i + 1) k
       (if proc_pid p = pid
        then act (A_close (fst (pipefd p))) (s\<lparr>sub_process := (sub_process s)[nat i := p\<lparr>proc_pid := -1\<rparr>]\<rparr>)
        else s)
   }"

fun wait_loop :: "int list \<Rightarrow> master \<Rightarrow> master option" where
  "wait_loop [] s = Some s"
| "wait_loop (pid # pids) s =
     (if pid > 0 then do { s \<leftarrow> reap_loop pid 0 (nat (process_num s)) s; wait_loop pids s } else Some s)"

fun live_loop :: "int \<Rightarrow> nat \<Rightarrow> master \<Rightarrow> master option" where
  "live_loop i 0 s = Some s"
| "live_loop i (Suc k) s = do {
     p \<leftarrow> slot (sub_process s) i;
     live_loop (i + 1) k (if proc_pid p \<noteq> -1 then s\<lparr>stop := False\<rparr> else s)
   }"

definition on_sigchld :: "master \<Rightarrow> master option" where
  "on_sigchld s = do {
     s \<leftarrow> wait_loop (zombies s) (s\<lparr>zombies := []\<rparr>);
     live_loop 0 (nat (process_num s)) (s\<lparr>stop := True\<rparr>)
   }"

fun kill_loop :: "int \<Rightarrow> nat \<Rightarrow> master \<Rightarrow> master option" where
  "kill_loop i 0 s = Some s"
| "kill_loop i (Suc k) s = do {
     p \<leftarrow> slot (sub_process s) i;
     kill_loop (i + 1) k (if proc_pid p \<noteq> -1 then act (A_kill (proc_pid p) SIGTERM) s else s)
   }"

definition master_signal :: "byte \<Rightarrow> master \<Rightarrow> master option" where
  "master_signal b s =
     (if sint b = SIGCHLD then on_sigchld s
      else if sint b = SIGINT then kill_loop 0 (nat (process_num s)) s
      else Some s)"

fun master_signals :: "byte list \<Rightarrow> master \<Rightarrow> master option" where
  "master_signals [] s = Some s"
| "master_signals (b # bs) s = do { s \<leftarrow> master_signal b s; master_signals bs s }"

text \<open>
  An event: its descriptor, whether it is for input, what recv reads when it is called for it (None is an
  error), and the children that have died since the event before.
\<close>

record ep_event =
  ev_fd :: int
  ev_in :: bool
  ev_recv :: "byte list option"
  ev_dead :: "int list"

definition master_event :: "ep_event \<Rightarrow> master \<Rightarrow> (master \<times> bool) option" where
  "master_event ev s0 =
     (let s = s0\<lparr>zombies := zombies s0 @ ev_dead ev\<rparr>
      in if ev_fd ev = listenfd s then dispatch s
         else if ev_fd ev = fst (signal_pipefd s) \<and> ev_in ev
         then (case ev_recv ev of
                 None \<Rightarrow> Some (s, True)
               | Some signals \<Rightarrow>
                   if signals = [] then Some (s, True)
                   else do { s \<leftarrow> master_signals signals s; Some (s, True) })
         else Some (s, True))"

fun master_events :: "ep_event list \<Rightarrow> master \<Rightarrow> master option" where
  "master_events [] s = Some s"
| "master_events (ev # evs) s = do {
     (s, go) \<leftarrow> master_event ev s;
     if go then master_events evs s else Some s
   }"

text \<open>
  The loop of the master over the results of epoll_wait: an error number or events.  The loop has ended when
  the second component is True; otherwise the master waits for the next result.
\<close>

datatype 'e wait_result = Wait_failed int | Wait_events "'e list"

fun master_loop :: "ep_event wait_result list \<Rightarrow> master \<Rightarrow> (master \<times> bool) option" where
  "master_loop ws s =
     (if stop s then Some (s, True)
      else case ws of
        [] \<Rightarrow> Some (s, False)
      | Wait_failed e # ws \<Rightarrow> if e \<noteq> EINTR then Some (s, True) else master_loop ws s
      | Wait_events evs # ws \<Rightarrow> do { s \<leftarrow> master_events evs s; master_loop ws s })"

definition master_start :: "server_framework \<Rightarrow> master" where
  "master_start s = server_framework.extend s \<lparr>sub_process_counter = 0, zombies = [], m_log = []\<rparr>"

definition exec_master_process :: "int \<Rightarrow> (int \<times> int) option \<Rightarrow> ep_event wait_result list \<Rightarrow> server_framework \<Rightarrow>
    (master \<times> bool) option" where
  "exec_master_process epfd sp ws s = do {
     s \<leftarrow> set_signal epfd sp (master_start s);
     (s, ended) \<leftarrow> master_loop ws (set_fd (listenfd s) s);
     Some (if ended then act (A_close (epollfd s)) s else s, ended)
   }"

section \<open>The choice of the next worker\<close>

definition alive :: "process list \<Rightarrow> nat \<Rightarrow> bool" where
  "alive ps i \<longleftrightarrow> i < length ps \<and> proc_pid (ps ! i) \<noteq> -1"

definition master_ok :: "master \<Rightarrow> bool" where
  "master_ok s \<longleftrightarrow> 0 < length (sub_process s) \<and> process_num s = int (length (sub_process s)) \<and>
     0 \<le> sub_process_counter s \<and> sub_process_counter s < process_num s"

text \<open>The workers that live, in the order in which their turns come.\<close>

definition turn_order :: "master \<Rightarrow> nat list" where
  "turn_order s = filter (alive (sub_process s)) (rotate (nat (sub_process_counter s)) [0..<length (sub_process s)])"

lemma slot_nat [simp]: "i < length ps \<Longrightarrow> slot ps (int i) = Some (ps ! i)"
  by (simp add: slot_def)

lemma int_Suc_mod: "(int i + 1) mod int n = int (Suc i mod n)"
  by (simp add: zmod_int add.commute)

text \<open>The search passes over dead entries until it is back at its start.\<close>

lemma rr_loop_skip:
  assumes "i < n" and "length ps = n" and "\<And>k. k < d \<Longrightarrow> \<not> alive ps ((i + k) mod n)"
    and "\<And>k. 0 < k \<Longrightarrow> k \<le> d \<Longrightarrow> (i + k) mod n \<noteq> c"
  shows "rr_loop ps (int n) (int c) (int i) = rr_loop ps (int n) (int c) (int ((i + d) mod n))"
  using assms
proof (induction d arbitrary: i)
  case (Suc d)
  have dead: "proc_pid (ps ! i) = -1" using Suc.prems(1,2) Suc.prems(3) [of 0] by (auto simp: alive_def)
  have nc: "Suc i mod n \<noteq> c" using Suc.prems(4) [of 1] by simp
  then have "rr_loop ps (int n) (int c) (int i) = rr_loop ps (int n) (int c) (int (Suc i mod n))"
    using Suc.prems(1,2) dead by (subst rr_loop.simps) (simp add: int_Suc_mod)
  also have "\<dots> = rr_loop ps (int n) (int c) (int ((Suc i mod n + d) mod n))"
  proof (rule Suc.IH)
    show "Suc i mod n < n" using Suc.prems(1) by simp
    show "\<not> alive ps ((Suc i mod n + k) mod n)" if "k < d" for k
      using that Suc.prems(3) [of "Suc k"] by (simp add: mod_add_left_eq)
    show "(Suc i mod n + k) mod n \<noteq> c" if "0 < k" "k \<le> d" for k
      using that Suc.prems(4) [of "Suc k"] by (simp add: mod_add_left_eq)
  qed (fact Suc.prems(2))
  finally show ?case by (simp add: mod_add_left_eq)
qed simp

lemma mod_add_ne: "c < n \<Longrightarrow> 0 < k \<Longrightarrow> k < n \<Longrightarrow> (c + k) mod n \<noteq> (c::nat)"
  by (cases "c + k < n") (auto simp: mod_if)

lemma rr_loop_first:
  assumes "c < n" and "length ps = n" and "d < n" and "\<And>k. k < d \<Longrightarrow> \<not> alive ps ((c + k) mod n)"
    and "alive ps ((c + d) mod n)"
  shows "rr_loop ps (int n) (int c) (int c) = Some (int ((c + d) mod n))"
proof -
  have "rr_loop ps (int n) (int c) (int c) = rr_loop ps (int n) (int c) (int ((c + d) mod n))"
    using assms mod_add_ne [of c n] by (intro rr_loop_skip) auto
  also have "\<dots> = Some (int ((c + d) mod n))"
    using assms by (subst rr_loop.simps) (auto simp: alive_def)
  finally show ?thesis .
qed

lemma rr_loop_none:
  assumes "c < n" and "length ps = n" and "\<And>i. \<not> alive ps i"
  shows "rr_loop ps (int n) (int c) (int c) = Some (int c)"
proof -
  have "rr_loop ps (int n) (int c) (int c) = rr_loop ps (int n) (int c) (int ((c + (n - 1)) mod n))"
    using assms mod_add_ne [of c n] by (intro rr_loop_skip) auto
  also have "\<dots> = Some (int c)"
  proof -
    have "Suc ((c + (n - 1)) mod n) mod n = c" using assms(1) by (simp add: mod_Suc_eq)
    then show ?thesis using assms by (subst rr_loop.simps) (auto simp: alive_def int_Suc_mod)
  qed
  finally show ?thesis .
qed

lemma rotate_upt_split:
  assumes "c < n" and "rotate c [0..<n] = xs @ x # ys"
  shows "length xs < n" "x = (c + length xs) mod n" "\<And>k. k < length xs \<Longrightarrow> xs ! k = (c + k) mod n"
    "rotate (Suc x mod n) [0..<n] = ys @ xs @ [x]"
proof -
  have "length (xs @ x # ys) = n" by (simp only: assms(2) [symmetric]) simp
  then show len: "length xs < n" by simp
  have nth: "rotate c [0..<n] ! k = (c + k) mod n" if "k < n" for k
    using that by (simp add: nth_rotate)
  show x: "x = (c + length xs) mod n" using nth [OF len] assms(2) by simp
  show "xs ! k = (c + k) mod n" if "k < length xs" for k
    using nth [of k] that len assms(2) by (simp add: nth_append)
  have "rotate (Suc x mod n) [0..<n] = rotate (Suc x) [0..<n]" by (metis rotate_conv_mod length_upt diff_zero)
  also have "\<dots> = rotate (Suc (length xs) + c) [0..<n]"
    unfolding x by (metis add.commute add_Suc_right mod_Suc_eq rotate_conv_mod length_upt diff_zero)
  also have "\<dots> = rotate (length (xs @ [x])) (xs @ x # ys)"
    by (simp only: rotate_rotate [symmetric] assms(2)) simp
  also have "\<dots> = ys @ xs @ [x]" using rotate_append [of "xs @ [x]" ys] by simp
  finally show "rotate (Suc x mod n) [0..<n] = ys @ xs @ [x]" .
qed

definition dispatches :: "master \<Rightarrow> nat \<Rightarrow> master \<Rightarrow> bool" where
  "dispatches s i s' \<longleftrightarrow> alive (sub_process s) i \<and> (\<exists>c. s' = act (A_send (fst (pipefd (sub_process s ! i))) 1) (s\<lparr>sub_process_counter := c\<rparr>)) \<and>
     dispatch s = Some (s', True)"

lemma dispatch_first:
  assumes ok: "master_ok s" and ne: "turn_order s \<noteq> []"
  shows "\<exists>s'. dispatches s (hd (turn_order s)) s' \<and> master_ok s' \<and> turn_order s' = rotate1 (turn_order s)"
proof -
  define n c ps where "n = length (sub_process s)" and "c = nat (sub_process_counter s)" and "ps = sub_process s"
  have c: "c < n" "sub_process_counter s = int c" "process_num s = int n" "length ps = n"
    using ok by (auto simp: master_ok_def c_def n_def ps_def)
  have "\<exists>x\<in>set (rotate c [0..<n]). alive ps x"
    using ne by (auto simp: turn_order_def n_def c_def ps_def filter_empty_conv)
  then obtain xs x ys where sp: "rotate c [0..<n] = xs @ x # ys" "alive ps x" "\<forall>y\<in>set xs. \<not> alive ps y"
    by (rule split_list_first_propE) blast
  note r = rotate_upt_split [OF c(1) sp(1)]
  have x: "x < n" using r(2) c(1) by simp
  have "\<not> alive ps ((c + k) mod n)" if "k < length xs" for k
    using sp(3) r(3) [OF that] that by (metis nth_mem)
  then have "rr_loop ps (int n) (int c) (int c) = Some (int x)"
    using rr_loop_first [OF c(1,4) r(1)] sp(2) r(2) by simp
  moreover have "proc_pid (ps ! x) \<noteq> -1" using sp(2) by (simp add: alive_def)
  ultimately have d: "dispatch s = Some (act (A_send (fst (pipefd (ps ! x))) 1)
      (s\<lparr>sub_process_counter := int (Suc x mod n)\<rparr>), True)"
    using c x by (simp add: dispatch_def ps_def [symmetric] int_Suc_mod)
  have o: "turn_order s = x # filter (alive ps) ys" using sp by (simp add: turn_order_def ps_def [symmetric] n_def [symmetric] c_def [symmetric] c(4))
  let ?s' = "act (A_send (fst (pipefd (ps ! x))) 1) (s\<lparr>sub_process_counter := int (Suc x mod n)\<rparr>)"
  have "turn_order ?s' = filter (alive ps) (ys @ xs @ [x])"
    using r(4) by (simp add: turn_order_def act_def ps_def [symmetric] c(4))
  moreover have "\<dots> = rotate1 (turn_order s)" using sp(2,3) by (simp add: o filter_empty_conv)
  moreover have "master_ok ?s'" using ok c(1) by (simp add: master_ok_def act_def n_def)
  ultimately show ?thesis using d o sp(2)
    by (intro exI [of _ ?s']) (auto simp: dispatches_def ps_def)
qed

lemma dispatch_none:
  assumes ok: "master_ok s" and ne: "turn_order s = []"
  shows "dispatch s = Some (s\<lparr>stop := True\<rparr>, False)"
proof -
  define n c where "n = length (sub_process s)" and "c = nat (sub_process_counter s)"
  have c: "c < n" "sub_process_counter s = int c" "process_num s = int n" "length (sub_process s) = n"
    using ok by (auto simp: master_ok_def c_def n_def)
  have dead: "\<not> alive (sub_process s) i" for i
    using ne c(4) by (auto simp: turn_order_def filter_empty_conv alive_def)
  then have "proc_pid (sub_process s ! c) = -1" using c(1,4) by (auto simp: alive_def)
  then show ?thesis using rr_loop_none [OF c(1,4) dead] c by (simp add: dispatch_def)
qed

interpretation master: turn_taking master_ok turn_order dispatches
proof
  show "distinct (turn_order s)" for s by (simp add: turn_order_def)
qed (rule dispatch_first)

section \<open>What the master does over a run\<close>

text \<open>
  An action is in order when the worker it concerns, one of those that were forked, has not been buried:
  its end of the pipe is not closed yet.
\<close>

fun act_ok :: "process list \<Rightarrow> action list \<Rightarrow> action \<Rightarrow> bool" where
  "act_ok ps log (A_send fd v) \<longleftrightarrow> v = 1 \<and> (\<exists>p\<in>set ps. fd = fst (pipefd p) \<and> A_close fd \<notin> set log)"
| "act_ok ps log (A_close fd) \<longleftrightarrow> (\<exists>p\<in>set ps. fd = fst (pipefd p) \<and> A_close fd \<notin> set log)"
| "act_ok ps log (A_kill pid sig) \<longleftrightarrow>
     sig = SIGTERM \<and> (\<exists>p\<in>set ps. pid = proc_pid p \<and> A_close (fst (pipefd p)) \<notin> set log)"

definition log_ok :: "process list \<Rightarrow> action list \<Rightarrow> bool" where
  "log_ok ps log \<longleftrightarrow> (\<forall>k<length log. act_ok ps (take k log) (log ! k))"

lemma log_ok_Nil [simp]: "log_ok ps []"
  by (simp add: log_ok_def)

lemma log_ok_snoc [simp]: "log_ok ps (log @ [a]) \<longleftrightarrow> log_ok ps log \<and> act_ok ps log a"
  by (auto simp: log_ok_def nth_append less_Suc_eq)

definition entry_ok :: "process list \<Rightarrow> master \<Rightarrow> nat \<Rightarrow> bool" where
  "entry_ok ps s i \<longleftrightarrow>
     (if A_close (fst (pipefd (ps ! i))) \<in> set (m_log s) then sub_process s ! i = (ps ! i)\<lparr>proc_pid := -1\<rparr>
      else sub_process s ! i = ps ! i)"

definition fleet_ok :: "process list \<Rightarrow> bool" where
  "fleet_ok ps \<longleftrightarrow> ps \<noteq> [] \<and> distinct (map (fst \<circ> pipefd) ps) \<and> (\<forall>p\<in>set ps. 0 < proc_pid p)"

definition master_inv :: "process list \<Rightarrow> master \<Rightarrow> bool" where
  "master_inv ps s \<longleftrightarrow> fleet_ok ps \<and> master_ok s \<and> length (sub_process s) = length ps \<and>
     (\<forall>i<length ps. entry_ok ps s i) \<and> log_ok ps (m_log s)"

lemma fleet_ok_pid: "fleet_ok ps \<Longrightarrow> i < length ps \<Longrightarrow> 0 < proc_pid (ps ! i)"
  by (simp add: fleet_ok_def)

lemma fleet_ok_fd: "fleet_ok ps \<Longrightarrow> i < length ps \<Longrightarrow> j < length ps \<Longrightarrow>
    fst (pipefd (ps ! i)) = fst (pipefd (ps ! j)) \<longleftrightarrow> i = j"
  by (auto simp: fleet_ok_def distinct_conv_nth)

lemma entry_alive:
  assumes "master_inv ps s" and "i < length ps"
  shows "alive (sub_process s) i \<longleftrightarrow> A_close (fst (pipefd (ps ! i))) \<notin> set (m_log s)"
    and "alive (sub_process s) i \<Longrightarrow> sub_process s ! i = ps ! i"
proof -
  have "entry_ok ps s i" "fleet_ok ps" "length (sub_process s) = length ps"
    using assms by (auto simp: master_inv_def)
  then show "alive (sub_process s) i \<longleftrightarrow> A_close (fst (pipefd (ps ! i))) \<notin> set (m_log s)"
    and "alive (sub_process s) i \<Longrightarrow> sub_process s ! i = ps ! i"
    using assms(2) fleet_ok_pid [of ps i] by (auto simp: entry_ok_def alive_def split: if_splits)
qed

text \<open>Changes that leave the entries alone keep the invariant.\<close>

lemma master_inv_cong:
  assumes "master_inv ps s" and "sub_process s' = sub_process s" and "process_num s' = process_num s"
    and "0 \<le> sub_process_counter s'" and "sub_process_counter s' < process_num s" and "m_log s' = m_log s"
  shows "master_inv ps s'"
  using assms by (auto simp: master_inv_def master_ok_def entry_ok_def)

lemma master_inv_act:
  assumes "master_inv ps s" and "act_ok ps (m_log s) a" and "\<And>fd. a \<noteq> A_close fd"
  shows "master_inv ps (act a s)"
proof -
  have "entry_ok ps (act a s) i = entry_ok ps s i" for i
    using assms(3) by (auto simp: entry_ok_def act_def)
  then show ?thesis using assms(1,2) by (auto simp: master_inv_def master_ok_def act_def)
qed

lemma master_inv_bury:
  assumes inv: "master_inv ps s" and i: "i < length ps" and al: "alive (sub_process s) i"
  shows "master_inv ps (act (A_close (fst (pipefd (sub_process s ! i))))
    (s\<lparr>sub_process := (sub_process s)[i := (sub_process s ! i)\<lparr>proc_pid := -1\<rparr>]\<rparr>))" (is "master_inv ps ?s'")
proof -
  have f: "fleet_ok ps" "length (sub_process s) = length ps" using inv by (auto simp: master_inv_def)
  note e = entry_alive [OF inv i]
  have same: "sub_process s ! i = ps ! i" using e(2) [OF al] .
  have "entry_ok ps ?s' j" if j: "j < length ps" for j
  proof (cases "j = i")
    case True
    then show ?thesis using i f(2) by (simp add: entry_ok_def act_def same)
  next
    case False
    have "entry_ok ps s j" using inv j by (simp add: master_inv_def)
    then show ?thesis using False fleet_ok_fd [OF f(1) j i] by (simp add: entry_ok_def act_def same)
  qed
  moreover have "act_ok ps (m_log s) (A_close (fst (pipefd (ps ! i))))" using e(1) al i by auto
  ultimately show ?thesis using inv by (auto simp: master_inv_def master_ok_def act_def same)
qed

lemma reap_loop_inv:
  assumes "master_inv ps s" and "i + k = length ps" and "0 < pid"
  shows "\<exists>s'. reap_loop pid (int i) k s = Some s' \<and> master_inv ps s' \<and> stop s' = stop s \<and>
    listenfd s' = listenfd s \<and> signal_pipefd s' = signal_pipefd s \<and>
    (\<forall>j. alive (sub_process s') j \<longleftrightarrow> alive (sub_process s) j \<and> \<not> (i \<le> j \<and> proc_pid (sub_process s ! j) = pid))"
  using assms
proof (induction k arbitrary: i s)
  case 0
  then have "length (sub_process s) = i" by (simp add: master_inv_def)
  then show ?case using 0 by (auto simp: alive_def)
next
  case (Suc k)
  have len: "length (sub_process s) = length ps" "i < length ps" using Suc.prems by (auto simp: master_inv_def)
  let ?p = "sub_process s ! i"
  let ?s = "if proc_pid ?p = pid
    then act (A_close (fst (pipefd ?p))) (s\<lparr>sub_process := (sub_process s)[i := ?p\<lparr>proc_pid := -1\<rparr>]\<rparr>) else s"
  have "alive (sub_process s) i" if "proc_pid ?p = pid" using that len Suc.prems(3) by (simp add: alive_def)
  then have "master_inv ps ?s" using master_inv_bury [OF Suc.prems(1) len(2)] Suc.prems(1) by simp
  then obtain s' where s': "reap_loop pid (int (Suc i)) k ?s = Some s'" "master_inv ps s'" "stop s' = stop ?s"
    "listenfd s' = listenfd ?s" "signal_pipefd s' = signal_pipefd ?s"
    "\<forall>j. alive (sub_process s') j \<longleftrightarrow> alive (sub_process ?s) j \<and> \<not> (Suc i \<le> j \<and> proc_pid (sub_process ?s ! j) = pid)"
    using Suc.IH [of ?s "Suc i"] Suc.prems by auto
  have "reap_loop pid (int i) (Suc k) s = Some s'" using s'(1) len by (simp add: add.commute split del: if_split cong: if_cong)
  moreover have "alive (sub_process s') j \<longleftrightarrow> alive (sub_process s) j \<and> \<not> (i \<le> j \<and> proc_pid (sub_process s ! j) = pid)" for j
  proof -
    have "alive (sub_process ?s) j \<and> \<not> (Suc i \<le> j \<and> proc_pid (sub_process ?s ! j) = pid) \<longleftrightarrow>
        alive (sub_process s) j \<and> \<not> (i \<le> j \<and> proc_pid (sub_process s ! j) = pid)"
      using len Suc.prems(3) by (cases "j = i"; cases "proc_pid ?p = pid") (auto simp: act_def alive_def)
    then show ?thesis using s'(6) by blast
  qed
  moreover have "stop ?s = stop s" "listenfd ?s = listenfd s" "signal_pipefd ?s = signal_pipefd s" by (simp_all add: act_def)
  ultimately show ?case using s'(2-5) by (intro exI [of _ s']) presburger
qed

lemma wait_loop_inv:
  assumes "master_inv ps s"
  shows "\<exists>s'. wait_loop pids s = Some s' \<and> master_inv ps s' \<and> stop s' = stop s \<and>
    listenfd s' = listenfd s \<and> signal_pipefd s' = signal_pipefd s \<and>
    (\<forall>j. alive (sub_process s') j \<longleftrightarrow> alive (sub_process s) j \<and>
       proc_pid (sub_process s ! j) \<notin> set (takeWhile (\<lambda>p. 0 < p) pids))"
  using assms
proof (induction pids arbitrary: s)
  case (Cons pid pids)
  show ?case
  proof (cases "0 < pid")
    case True
    have n: "nat (process_num s) = length ps" using Cons.prems by (auto simp: master_inv_def master_ok_def)
    obtain s1 where s1: "reap_loop pid 0 (length ps) s = Some s1" "master_inv ps s1" "stop s1 = stop s"
      "listenfd s1 = listenfd s" "signal_pipefd s1 = signal_pipefd s"
      "\<forall>j. alive (sub_process s1) j \<longleftrightarrow> alive (sub_process s) j \<and> proc_pid (sub_process s ! j) \<noteq> pid"
      using reap_loop_inv [OF Cons.prems, of 0 "length ps" pid] True by auto
    obtain s2 where s2: "wait_loop pids s1 = Some s2" "master_inv ps s2" "stop s2 = stop s1"
      "listenfd s2 = listenfd s1" "signal_pipefd s2 = signal_pipefd s1"
      "\<forall>j. alive (sub_process s2) j \<longleftrightarrow> alive (sub_process s1) j \<and>
         proc_pid (sub_process s1 ! j) \<notin> set (takeWhile (\<lambda>p. 0 < p) pids)"
      using Cons.IH [OF s1(2)] by blast
    have "sub_process s1 ! j = sub_process s ! j" if "alive (sub_process s1) j" for j
    proof -
      have "alive (sub_process s) j" "j < length ps" using that s1(2,6) by (auto simp: alive_def master_inv_def)
      then show ?thesis using that entry_alive(2) [OF Cons.prems, of j] entry_alive(2) [OF s1(2), of j] by simp
    qed
    then have "alive (sub_process s2) j \<longleftrightarrow> alive (sub_process s) j \<and>
        proc_pid (sub_process s ! j) \<notin> set (takeWhile (\<lambda>p. 0 < p) (pid # pids))" for j
      using s1(6) s2(6) True by auto
    then show ?thesis using s1 s2 True n by auto
  qed (use Cons.prems in auto)
qed auto

lemma live_loop_eq:
  assumes "i + k = length (sub_process s)"
  shows "live_loop (int i) k s = Some (s\<lparr>stop := stop s \<and> \<not> (\<exists>j\<ge>i. alive (sub_process s) j)\<rparr>)"
  using assms
proof (induction k arbitrary: i s)
  case 0
  then show ?case by (auto simp: alive_def)
next
  case (Suc k)
  let ?s = "if proc_pid (sub_process s ! i) \<noteq> -1 then s\<lparr>stop := False\<rparr> else s"
  have i: "i < length (sub_process s)" using Suc.prems by simp
  have "live_loop (int i) (Suc k) s = live_loop (int (Suc i)) k ?s" using i by (simp add: add.commute split del: if_split)
  also have "\<dots> = Some (?s\<lparr>stop := stop ?s \<and> \<not> (\<exists>j\<ge>Suc i. alive (sub_process ?s) j)\<rparr>)"
    using Suc.prems by (intro Suc.IH) auto
  also have "\<dots> = Some (s\<lparr>stop := stop s \<and> \<not> (\<exists>j\<ge>i. alive (sub_process s) j)\<rparr>)"
  proof -
    have "(\<exists>j\<ge>i. alive (sub_process s) j) \<longleftrightarrow> alive (sub_process s) i \<or> (\<exists>j\<ge>Suc i. alive (sub_process s) j)"
      by (metis Suc_leD le_antisym not_less_eq_eq order_refl)
    then show ?thesis using i by (simp add: alive_def)
  qed
  finally show ?case .
qed

lemma kill_loop_inv:
  assumes "master_inv ps s" and "i + k = length ps"
  shows "\<exists>s'. kill_loop (int i) k s = Some s' \<and> master_inv ps s' \<and> stop s' = stop s \<and>
    listenfd s' = listenfd s \<and> signal_pipefd s' = signal_pipefd s \<and> sub_process s' = sub_process s"
  using assms
proof (induction k arbitrary: i s)
  case (Suc k)
  have len: "length (sub_process s) = length ps" "i < length ps" using Suc.prems by (auto simp: master_inv_def)
  let ?s = "if proc_pid (sub_process s ! i) \<noteq> -1 then act (A_kill (proc_pid (sub_process s ! i)) SIGTERM) s else s"
  have "master_inv ps ?s"
  proof (cases "proc_pid (sub_process s ! i) = -1")
    case False
    then have "alive (sub_process s) i" using len by (simp add: alive_def)
    then have "act_ok ps (m_log s) (A_kill (proc_pid (sub_process s ! i)) SIGTERM)"
      using entry_alive [OF Suc.prems(1) len(2)] len(2) by auto
    then show ?thesis using master_inv_act [OF Suc.prems(1)] False by simp
  qed (use Suc.prems in simp)
  then obtain s' where "kill_loop (int (Suc i)) k ?s = Some s'" "master_inv ps s'" "stop s' = stop ?s"
    "listenfd s' = listenfd ?s" "signal_pipefd s' = signal_pipefd ?s" "sub_process s' = sub_process ?s"
    using Suc.IH [of ?s "Suc i"] Suc.prems(2) by auto
  moreover have "kill_loop (int i) (Suc k) s = kill_loop (int (Suc i)) k ?s"
    using len by (simp add: add.commute)
  moreover have "stop ?s = stop s" "listenfd ?s = listenfd s" "signal_pipefd ?s = signal_pipefd s"
    "sub_process ?s = sub_process s" by (simp_all add: act_def)
  ultimately show ?case by (intro exI [of _ s']) (simp split del: if_split)
qed auto

text \<open>The master has not stopped, or there is no worker left.\<close>

definition run_inv :: "process list \<Rightarrow> master \<Rightarrow> bool" where
  "run_inv ps s \<longleftrightarrow> master_inv ps s \<and> (stop s \<longrightarrow> (\<forall>i. \<not> alive (sub_process s) i))"

definition keeps :: "process list \<Rightarrow> master \<Rightarrow> master option \<Rightarrow> bool" where
  "keeps ps s r \<longleftrightarrow> (\<exists>s'. r = Some s' \<and> run_inv ps s' \<and> listenfd s' = listenfd s \<and> signal_pipefd s' = signal_pipefd s)"

lemma keepsE:
  assumes "keeps ps s r"
  obtains s' where "r = Some s'" "run_inv ps s'" "listenfd s' = listenfd s" "signal_pipefd s' = signal_pipefd s"
  using assms by (auto simp: keeps_def)

lemma on_sigchld_ok:
  assumes "master_inv ps s"
  shows "\<exists>s'. on_sigchld s = Some s' \<and> run_inv ps s' \<and>
    listenfd s' = listenfd s \<and> signal_pipefd s' = signal_pipefd s \<and>
    (\<forall>j. alive (sub_process s') j \<longleftrightarrow> alive (sub_process s) j \<and>
       proc_pid (sub_process s ! j) \<notin> set (takeWhile (\<lambda>p. 0 < p) (zombies s))) \<and>
    (stop s' \<longleftrightarrow> (\<forall>j. \<not> alive (sub_process s') j))"
proof -
  have "master_inv ps (s\<lparr>zombies := []\<rparr>)" using assms by (rule master_inv_cong) (use assms in \<open>auto simp: master_inv_def master_ok_def\<close>)
  then obtain s1 where s1: "wait_loop (zombies s) (s\<lparr>zombies := []\<rparr>) = Some s1" "master_inv ps s1"
    "listenfd s1 = listenfd s" "signal_pipefd s1 = signal_pipefd s"
    "\<forall>j. alive (sub_process s1) j \<longleftrightarrow> alive (sub_process s) j \<and>
       proc_pid (sub_process s ! j) \<notin> set (takeWhile (\<lambda>p. 0 < p) (zombies s))"
    using wait_loop_inv [of ps "s\<lparr>zombies := []\<rparr>" "zombies s"] by auto
  let ?s' = "s1\<lparr>stop := \<not> (\<exists>j. alive (sub_process s1) j)\<rparr>"
  have n: "nat (process_num s1) = length (sub_process s1)" using s1(2) by (simp add: master_inv_def master_ok_def)
  have "on_sigchld s = Some ?s'"
    using live_loop_eq [of 0 "length (sub_process s1)" "s1\<lparr>stop := True\<rparr>"] by (simp add: on_sigchld_def s1(1) n)
  moreover have "master_inv ps ?s'" using s1(2) by (rule master_inv_cong) (use s1(2) in \<open>auto simp: master_inv_def master_ok_def\<close>)
  ultimately show ?thesis using s1(3-5) by (intro exI [of _ ?s']) (auto simp: run_inv_def)
qed

lemma master_signal_ok:
  assumes "run_inv ps s"
  shows "keeps ps s (master_signal b s)"
proof -
  have inv: "master_inv ps s" using assms by (simp add: run_inv_def)
  have n: "nat (process_num s) = length ps" using inv by (auto simp: master_inv_def master_ok_def)
  show ?thesis
    using on_sigchld_ok [OF inv] kill_loop_inv [OF inv, of 0 "length ps"] assms
    by (auto simp: master_signal_def keeps_def n run_inv_def)
qed

lemma master_signals_ok: "run_inv ps s \<Longrightarrow> keeps ps s (master_signals bs s)"
proof (induction bs arbitrary: s)
  case (Cons b bs)
  obtain s1 where s1: "master_signal b s = Some s1" "run_inv ps s1" "listenfd s1 = listenfd s" "signal_pipefd s1 = signal_pipefd s"
    using master_signal_ok [OF Cons.prems] by (rule keepsE)
  then show ?case using Cons.IH [OF s1(2)] by (simp add: keeps_def)
qed (simp add: keeps_def)

lemma turn_order_alive: "master_inv ps s \<Longrightarrow> set (turn_order s) = {i. alive (sub_process s) i}"
  by (auto simp: turn_order_def alive_def)

lemma dispatch_ok:
  assumes "run_inv ps s"
  shows "\<exists>s' go. dispatch s = Some (s', go) \<and> run_inv ps s' \<and> listenfd s' = listenfd s \<and> signal_pipefd s' = signal_pipefd s"
proof -
  have inv: "master_inv ps s" and ok: "master_ok s" using assms by (auto simp: run_inv_def master_inv_def)
  show ?thesis
  proof (cases "turn_order s = []")
    case True
    have "master_inv ps (s\<lparr>stop := True\<rparr>)" using inv by (rule master_inv_cong) (use ok in \<open>auto simp: master_ok_def\<close>)
    then show ?thesis using dispatch_none [OF ok True] turn_order_alive [OF inv] True by (auto simp: run_inv_def)
  next
    case False
    obtain s' c where d: "alive (sub_process s) (hd (turn_order s))" "master_ok s'" "dispatch s = Some (s', True)"
      "s' = act (A_send (fst (pipefd (sub_process s ! hd (turn_order s)))) 1) (s\<lparr>sub_process_counter := c\<rparr>)"
      using dispatch_first [OF ok False] by (auto simp: dispatches_def)
    let ?i = "hd (turn_order s)"
    have i: "?i < length ps" using d(1) inv by (auto simp: alive_def master_inv_def)
    have c: "0 \<le> c" "c < process_num s" using d(2,4) by (auto simp: master_ok_def act_def)
    have "master_inv ps (s\<lparr>sub_process_counter := c\<rparr>)" using inv by (rule master_inv_cong) (use c in simp_all)
    moreover have "act_ok ps (m_log s) (A_send (fst (pipefd (sub_process s ! ?i))) 1)"
      using entry_alive [OF inv i] d(1) i by auto
    ultimately have "master_inv ps s'" using master_inv_act [of ps "s\<lparr>sub_process_counter := c\<rparr>"] d(4) by simp
    then show ?thesis using d(3,4) assms by (auto simp: run_inv_def act_def)
  qed
qed

lemma master_event_ok:
  assumes "run_inv ps s"
  shows "\<exists>s' go. master_event ev s = Some (s', go) \<and> run_inv ps s' \<and> listenfd s' = listenfd s \<and> signal_pipefd s' = signal_pipefd s"
proof -
  let ?s = "s\<lparr>zombies := zombies s @ ev_dead ev\<rparr>"
  have "master_inv ps s" using assms by (simp add: run_inv_def)
  then have "master_inv ps ?s" by (rule master_inv_cong) (use assms in \<open>auto simp: run_inv_def master_inv_def master_ok_def\<close>)
  then have s: "run_inv ps ?s" using assms by (simp add: run_inv_def)
  show ?thesis
    using dispatch_ok [OF s] master_signals_ok [OF s, of "the (ev_recv ev)"] s
    by (auto simp: master_event_def Let_def keeps_def split: option.splits)
qed

lemma master_events_ok: "run_inv ps s \<Longrightarrow> keeps ps s (master_events evs s)"
proof (induction evs arbitrary: s)
  case (Cons ev evs)
  obtain s1 go where s1: "master_event ev s = Some (s1, go)" "run_inv ps s1" "listenfd s1 = listenfd s" "signal_pipefd s1 = signal_pipefd s"
    using master_event_ok [OF Cons.prems] by blast
  then show ?case using Cons.IH [OF s1(2)] by (simp add: keeps_def)
qed (simp add: keeps_def)

lemma master_loop_ok:
  assumes "run_inv ps s"
  shows "\<exists>s' ended. master_loop ws s = Some (s', ended) \<and> run_inv ps s' \<and>
    (ended \<longrightarrow> stop s' \<or> (\<exists>e. Wait_failed e \<in> set ws \<and> e \<noteq> EINTR))"
  using assms
proof (induction ws arbitrary: s)
  case Nil
  then show ?case by (cases "stop s") auto
next
  case (Cons w ws)
  show ?case
  proof (cases "stop s")
    case False
    show ?thesis
    proof (cases w)
      case (Wait_failed e)
      then show ?thesis using False Cons by (cases "e = EINTR") fastforce+
    next
      case (Wait_events evs)
      obtain s1 where s1: "master_events evs s = Some s1" "run_inv ps s1"
        using master_events_ok [OF Cons.prems] by (rule keepsE)
      then show ?thesis using Cons.IH [OF s1(2)] False Wait_events by fastforce
    qed
  qed (use Cons.prems in auto)
qed

section \<open>Forking\<close>

definition forked :: "(nat \<Rightarrow> int \<times> int) \<Rightarrow> (nat \<Rightarrow> int) \<Rightarrow> nat \<Rightarrow> process" where
  "forked fds pids i = \<lparr>proc_pid = pids i, pipefd = fds i\<rparr>"

lemma process_filled: "p\<lparr>pipefd := fd, proc_pid := i\<rparr> = \<lparr>proc_pid = i, pipefd = fd\<rparr>" for p :: process
  by (cases p) simp

lemma spawn_loop_parent:
  assumes "\<And>m. i \<le> m \<Longrightarrow> m < i + d \<Longrightarrow> pair m = Some (fds m) \<and> 0 < fork m"
    and "i + d \<le> length (sub_process s)"
  shows "spawn_loop pair fork i (d + k) s cl =
    spawn_loop pair fork (i + d) k
      (s\<lparr>sub_process := take i (sub_process s) @ map (forked fds fork) [i..<i + d] @ drop (i + d) (sub_process s)\<rparr>)
      (cl @ map (snd \<circ> fds) [i..<i + d])"
  using assms
proof (induction d arbitrary: i s cl)
  case (Suc d)
  let ?ps = "sub_process s"
  let ?s = "s\<lparr>sub_process := ?ps[i := forked fds fork i]\<rparr>"
  have i: "i < length ?ps" "pair i = Some (fds i)" "0 < fork i" using Suc.prems by auto
  have "spawn_loop pair fork i (Suc d + k) s cl = spawn_loop pair fork (Suc i) (d + k) ?s (cl @ [snd (fds i)])"
    using i by (simp add: forked_def process_filled)
  also have "\<dots> = spawn_loop pair fork (Suc i + d) k
      (?s\<lparr>sub_process := take (Suc i) (sub_process ?s) @ map (forked fds fork) [Suc i..<Suc i + d] @ drop (Suc i + d) (sub_process ?s)\<rparr>)
      ((cl @ [snd (fds i)]) @ map (snd \<circ> fds) [Suc i..<Suc i + d])"
    using Suc.prems by (intro Suc.IH) auto
  also have "take (Suc i) (sub_process ?s) = take i ?ps @ [forked fds fork i]"
    using i(1) by (simp add: take_Suc_conv_app_nth)
  finally show ?case using i(1) by (simp add: upt_conv_Cons del: upt_Suc spawn_loop.simps)
qed simp

lemma time_heap_new_user: "0 \<le> n \<Longrightarrow> time_heap_new (n * user_per_process) =
    Some \<lparr>array = replicate (nat (n * user_per_process)) NULL, capacity_t = n * user_per_process, cur_size = 0\<rparr>"
  by (simp add: time_heap_new_def new_array_def)

lemma server_new_spawn:
  assumes "int n * user_per_process < 2 ^ 31"
  shows "\<exists>s. server_framework_new pair fork junk u lfd (int n) = spawn_loop pair fork 0 n s [] \<and>
    index s = -1 \<and> \<not> stop s \<and> process_num s = int n \<and> listenfd s = lfd \<and> length (sub_process s) = n \<and>
    timer_delay s = 2 \<and> time_heap_new (int n * user_per_process) = Some (timer_manage s)"
proof -
  obtain th where th: "time_heap_new (int n * user_per_process) = Some th"
    using time_heap_new_user [of "int n"] by simp
  let ?s = "u\<lparr>listenfd := lfd, process_num := int n, timer_delay := 2, index := -1, stop := False,
    sub_process := replicate n (process_new junk), timer_manage := th\<rparr>"
  have "server_framework_new pair fork junk u lfd (int n) = spawn_loop pair fork 0 n ?s []"
    using assms by (simp add: server_framework_new_def th)
  then show ?thesis by (rule_tac exI [of _ ?s]) (simp add: th)
qed

lemma server_new_master:
  assumes "int n * user_per_process < 2 ^ 31" and "\<And>i. i < n \<Longrightarrow> pair i = Some (fds i) \<and> 0 < fork i"
  shows "\<exists>s. server_framework_new pair fork junk u lfd (int n) = Some (s, map (snd \<circ> fds) [0..<n]) \<and>
    index s = -1 \<and> \<not> stop s \<and> process_num s = int n \<and> listenfd s = lfd \<and> sub_process s = map (forked fds fork) [0..<n]"
proof -
  obtain s where s: "server_framework_new pair fork junk u lfd (int n) = spawn_loop pair fork 0 n s []"
    "index s = -1" "\<not> stop s" "process_num s = int n" "listenfd s = lfd" "length (sub_process s) = n"
    using server_new_spawn [OF assms(1)] by blast
  then show ?thesis using spawn_loop_parent [of 0 n pair fds fork s 0 "[]"] assms(2) by simp
qed

lemma server_new_worker:
  assumes "int n * user_per_process < 2 ^ 31" and "\<And>i. i < n \<Longrightarrow> pair i = Some (fds i) \<and> 0 < fork i" and "j < n"
  shows "\<exists>s. server_framework_new pair (fork(j := 0)) junk u lfd (int n) =
      Some (s, map (snd \<circ> fds) [0..<j] @ [fst (fds j)]) \<and>
    index s = int j \<and> \<not> stop s \<and> listenfd s = lfd \<and>
    slot (sub_process s) (index s) = Some \<lparr>proc_pid = 0, pipefd = fds j\<rparr> \<and>
    timer_delay s = 2 \<and> time_heap_new (int n * user_per_process) = Some (timer_manage s)"
proof -
  let ?f = "fork(j := 0)"
  obtain k where k: "n = j + Suc k" using assms(3) less_iff_Suc_add by auto
  obtain s where s: "server_framework_new pair ?f junk u lfd (int n) = spawn_loop pair ?f 0 n s []"
    "\<not> stop s" "listenfd s = lfd" "length (sub_process s) = n"
    "timer_delay s = 2" "time_heap_new (int n * user_per_process) = Some (timer_manage s)"
    using server_new_spawn [OF assms(1)] by blast
  define ps where "ps = map (forked fds ?f) [0..<j] @ drop j (sub_process s)"
  have len: "j < length ps" using s(4) k by (simp add: ps_def)
  have "spawn_loop pair ?f 0 n s [] = spawn_loop pair ?f j (Suc k) (s\<lparr>sub_process := ps\<rparr>) (map (snd \<circ> fds) [0..<j])"
    using spawn_loop_parent [of 0 j pair fds ?f s "Suc k" "[]"] assms(2) s(4) k by (simp add: ps_def del: spawn_loop.simps)
  also have "\<dots> = Some (s\<lparr>sub_process := ps[j := \<lparr>proc_pid = 0, pipefd = fds j\<rparr>], index := int j\<rparr>,
      map (snd \<circ> fds) [0..<j] @ [fst (fds j)])"
    using len assms(2,3) by (simp add: process_filled)
  finally show ?thesis using s len by simp
qed

lemma reap_loop_epollfd: "reap_loop pid i k s = Some s' \<Longrightarrow> epollfd s' = epollfd s"
  by (induction pid i k s rule: reap_loop.induct) (auto simp: act_def split: bind_splits)

lemma wait_loop_epollfd: "wait_loop pids s = Some s' \<Longrightarrow> epollfd s' = epollfd s"
  by (induction pids s rule: wait_loop.induct) (auto dest!: reap_loop_epollfd split: bind_splits if_splits)

lemma live_loop_epollfd: "live_loop i k s = Some s' \<Longrightarrow> epollfd s' = epollfd s"
  by (induction i k s rule: live_loop.induct) (auto split: bind_splits if_splits)

lemma kill_loop_epollfd: "kill_loop i k s = Some s' \<Longrightarrow> epollfd s' = epollfd s"
  by (induction i k s rule: kill_loop.induct) (auto simp: act_def split: bind_splits if_splits)

lemma master_signal_epollfd: "master_signal b s = Some s' \<Longrightarrow> epollfd s' = epollfd s"
  by (auto simp: master_signal_def on_sigchld_def split: bind_splits if_splits
      dest!: wait_loop_epollfd live_loop_epollfd kill_loop_epollfd)

lemma master_signals_epollfd: "master_signals bs s = Some s' \<Longrightarrow> epollfd s' = epollfd s"
  by (induction bs arbitrary: s) (auto split: bind_splits dest!: master_signal_epollfd)

lemma master_event_epollfd: "master_event ev s = Some (s', go) \<Longrightarrow> epollfd s' = epollfd s"
  by (auto simp: master_event_def dispatch_def Let_def act_def split: bind_splits if_splits option.splits
      dest!: master_signals_epollfd)

lemma master_events_epollfd: "master_events evs s = Some s' \<Longrightarrow> epollfd s' = epollfd s"
  by (induction evs arbitrary: s) (auto split: bind_splits if_splits dest!: master_event_epollfd)

lemma master_loop_epollfd: "master_loop ws s = Some (s', ended) \<Longrightarrow> epollfd s' = epollfd s"
proof (induction ws arbitrary: s)
  case (Cons w ws)
  from Cons.prems [unfolded master_loop.simps [of "w # ws"]] show ?case
    by (auto split: bind_splits if_splits wait_result.splits simp del: master_loop.simps dest!: master_events_epollfd Cons.IH)
qed (auto split: if_splits)

lemma serves_events:
  assumes "serves dispatches s picks s'" and "length evs = length picks" and "\<forall>ev\<in>set evs. ev_fd ev = listenfd s \<and> ev_dead ev = []"
  shows "master_events evs s = Some s' \<and>
    m_log s' = m_log s @ map (\<lambda>i. A_send (fst (pipefd (sub_process s ! i))) 1) picks \<and> sub_process s' = sub_process s"
  using assms
proof (induction arbitrary: evs rule: serves.induct)
  case (serves_Cons s i s1 picks s2)
  obtain ev evs' where evs: "evs = ev # evs'" using serves_Cons.prems(1) by (cases evs) auto
  have d: "dispatch s = Some (s1, True)" "listenfd s1 = listenfd s" "sub_process s1 = sub_process s"
    "m_log s1 = m_log s @ [A_send (fst (pipefd (sub_process s ! i))) 1]"
    using serves_Cons.hyps(1) by (auto simp: dispatches_def act_def)
  have "master_event ev s = dispatch (s\<lparr>zombies := zombies s @ []\<rparr>)"
    using serves_Cons.prems(2) evs by (simp add: master_event_def Let_def)
  then have "master_event ev s = Some (s1, True)" using d(1) by simp
  then show ?case using serves_Cons.IH [of evs'] serves_Cons.prems d evs by simp
qed simp

section \<open>Properties\<close>

text \<open>C7: connections are dealt out in turn: over any number of connections that come while the same
  workers live, the master sends exactly one notice for each, only to workers that live, no worker gets
  more than one notice more than another, and each gets at least its share of them.\<close>

theorem master_round_robin_fair:
  assumes "master_ok s" and "\<exists>i. alive (sub_process s) i"
    and "\<forall>ev\<in>set evs. ev_fd ev = listenfd s \<and> ev_dead ev = []"
  shows "\<exists>s' picks. master_events evs s = Some s' \<and> sub_process s' = sub_process s \<and> length picks = length evs \<and>
    m_log s' = m_log s @ map (\<lambda>i. A_send (fst (pipefd (sub_process s ! i))) 1) picks \<and>
    (\<forall>i\<in>set picks. alive (sub_process s) i) \<and>
    (\<forall>a b. alive (sub_process s) a \<and> alive (sub_process s) b \<longrightarrow> count_list picks a \<le> count_list picks b + 1) \<and>
    (\<forall>a. alive (sub_process s) a \<longrightarrow> length evs div card {i. alive (sub_process s) i} \<le> count_list picks a)"
proof -
  have o: "set (turn_order s) = {i. alive (sub_process s) i}" by (auto simp: turn_order_def alive_def)
  then have ne: "turn_order s \<noteq> []" using assms(2) by auto
  obtain picks s' where i: "serves dispatches s picks s'" "master_ok s'" "length picks = length evs"
    "set picks \<subseteq> set (turn_order s)"
    "\<And>a b. a \<in> set (turn_order s) \<Longrightarrow> b \<in> set (turn_order s) \<Longrightarrow> count_list picks a \<le> count_list picks b + 1"
    "\<And>a. a \<in> set (turn_order s) \<Longrightarrow> length evs div card (set (turn_order s)) \<le> count_list picks a"
    by (rule master.serves_fair [OF assms(1) ne, of "length evs"]) blast
  then show ?thesis using serves_events [OF i(1)] assms(3) unfolding o by (intro exI [of _ s'] exI [of _ picks]) auto
qed

text \<open>C9: over every run the master is in order: it sends connections and signals only to workers it has
  forked and not buried, closes the pipe of each at most once, and its loop ends only when every worker
  has been buried or epoll_wait fails; it never aborts.\<close>

theorem master_run_in_order:
  assumes "0 < n" and "int n * user_per_process < 2 ^ 31"
    and "\<forall>i<n. pair i = Some (fds i) \<and> 0 < pids i" and "distinct (map (fst \<circ> fds) [0..<n])"
    and "epfd \<noteq> -1"
  shows "\<exists>s0 s ended log. server_framework_new pair pids junk u lfd (int n) = Some (s0, map (snd \<circ> fds) [0..<n]) \<and>
    exec_master_process epfd (Some sp) ws s0 = Some (s, ended) \<and>
    m_log s = log @ (if ended then [A_close epfd] else []) \<and> log_ok (sub_process s0) log \<and>
    sub_process s0 = map (forked fds pids) [0..<n] \<and>
    (\<forall>i<n. alive (sub_process s) i \<longleftrightarrow> A_close (fst (fds i)) \<notin> set log) \<and>
    (ended \<longrightarrow> (\<forall>i<n. A_close (fst (fds i)) \<in> set log) \<or> (\<exists>e. Wait_failed e \<in> set ws \<and> e \<noteq> EINTR))"
proof -
  obtain s0 where s0: "server_framework_new pair pids junk u lfd (int n) = Some (s0, map (snd \<circ> fds) [0..<n])"
    "\<not> stop s0" "process_num s0 = int n" "listenfd s0 = lfd" "sub_process s0 = map (forked fds pids) [0..<n]"
    using server_new_master [OF assms(2)] assms(3) by metis
  let ?ps = "map (forked fds pids) [0..<n]"
  obtain s1 where sig: "set_signal epfd (Some sp) (master_start s0) = Some s1" "listenfd s1 = lfd"
    "m_log s1 = []" "sub_process s1 = ?ps" "process_num s1 = int n" "\<not> stop s1" "sub_process_counter s1 = 0" "epollfd s1 = epfd"
    using assms(5) s0 by (simp add: set_signal_def set_fd_def set_sig_def master_start_def server_framework.defs)
  define s2 where "s2 = set_fd lfd s1"
  have f: "m_log s2 = []" "sub_process s2 = ?ps" "process_num s2 = int n" "\<not> stop s2" "sub_process_counter s2 = 0" "epollfd s2 = epfd"
    using sig by (simp_all add: s2_def set_fd_def)
  have fleet: "fleet_ok ?ps" using assms(1,3,4) by (auto simp: fleet_ok_def forked_def comp_def)
  then have inv: "run_inv ?ps s2"
    using f assms(1) by (auto simp: run_inv_def master_inv_def master_ok_def entry_ok_def)
  obtain s ended where s: "master_loop ws s2 = Some (s, ended)" "run_inv ?ps s"
    "ended \<longrightarrow> stop s \<or> (\<exists>e. Wait_failed e \<in> set ws \<and> e \<noteq> EINTR)"
    using master_loop_ok [OF inv] by blast
  have al: "alive (sub_process s) i \<longleftrightarrow> A_close (fst (fds i)) \<notin> set (m_log s)" if "i < n" for i
    using entry_alive(1) [of ?ps s i] s(2) that by (simp add: run_inv_def forked_def)
  have e: "epollfd s = epfd" using master_loop_epollfd [OF s(1)] f(6) by simp
  let ?s = "if ended then act (A_close epfd) s else s"
  have "exec_master_process epfd (Some sp) ws s0 = Some (?s, ended)"
    using s(1) e by (simp add: exec_master_process_def sig(1,2) s2_def del: master_loop.simps)
  moreover have "(\<forall>i<n. A_close (fst (fds i)) \<in> set (m_log s)) \<or> (\<exists>e. Wait_failed e \<in> set ws \<and> e \<noteq> EINTR)" if ended
    using s(2,3) al that by (auto simp: run_inv_def)
  ultimately show ?thesis using s0 s(2) al
    by (intro exI [of _ s0] exI [of _ ?s] exI [of _ ended] exI [of _ "m_log s"]) (auto simp: run_inv_def master_inv_def act_def)
qed

text \<open>Forking gives every process its part: the master keeps its ends of all pipes and no other, and
  the number of each worker; worker j knows its place and keeps its own end, but also the master's ends
  of the workers forked before it.\<close>

theorem server_forks_workers:
  assumes "int n * user_per_process < 2 ^ 31" and "\<forall>i<n. pair i = Some (fds i) \<and> 0 < pids i" and "j < n"
    and "distinct (map (fst \<circ> fds) [0..<n] @ map (snd \<circ> fds) [0..<n])"
  shows "\<exists>m mc w wc. server_framework_new pair pids junk u lfd (int n) = Some (m, mc) \<and>
    server_framework_new pair (pids(j := 0)) junk u lfd (int n) = Some (w, wc) \<and>
    index m = -1 \<and> sub_process m = map (forked fds pids) [0..<n] \<and>
    (\<forall>i<n. fst (fds i) \<notin> set mc \<and> snd (fds i) \<in> set mc) \<and>
    index w = int j \<and> slot (sub_process w) (index w) = Some \<lparr>proc_pid = 0, pipefd = fds j\<rparr> \<and>
    snd (fds j) \<notin> set wc \<and> fst (fds j) \<in> set wc \<and>
    (\<forall>i<j. snd (fds i) \<in> set wc \<and> fst (fds i) \<notin> set wc)"
proof -
  have p: "pair i = Some (fds i) \<and> 0 < pids i" if "i < n" for i using assms(2) that by simp
  obtain m where m: "server_framework_new pair pids junk u lfd (int n) = Some (m, map (snd \<circ> fds) [0..<n])"
    "index m = -1" "sub_process m = map (forked fds pids) [0..<n]"
    using server_new_master [OF assms(1), of pair fds pids junk u lfd] p by blast
  obtain w where w: "server_framework_new pair (pids(j := 0)) junk u lfd (int n) =
      Some (w, map (snd \<circ> fds) [0..<j] @ [fst (fds j)])"
    "index w = int j" "slot (sub_process w) (index w) = Some \<lparr>proc_pid = 0, pipefd = fds j\<rparr>"
    using server_new_worker [OF assms(1) _ assms(3), of pair fds pids junk u lfd] p by blast
  have d: "fst (fds i) \<noteq> snd (fds k)" "fst (fds i) = fst (fds k) \<longleftrightarrow> i = k" "snd (fds i) = snd (fds k) \<longleftrightarrow> i = k"
    if "i < n" "k < n" for i k
  proof -
    have a: "inj_on (fst \<circ> fds) {0..<n}" "inj_on (snd \<circ> fds) {0..<n}"
      "(fst \<circ> fds) ` {0..<n} \<inter> (snd \<circ> fds) ` {0..<n} = {}"
      using assms(4) by (simp_all add: distinct_map)
    show "fst (fds i) = fst (fds k) \<longleftrightarrow> i = k" "snd (fds i) = snd (fds k) \<longleftrightarrow> i = k"
      using inj_on_eq_iff [OF a(1), of i k] inj_on_eq_iff [OF a(2), of i k] that by simp_all
    have "(fst \<circ> fds) i \<in> (fst \<circ> fds) ` {0..<n}" "(snd \<circ> fds) k \<in> (snd \<circ> fds) ` {0..<n}" using that by auto
    then show "fst (fds i) \<noteq> snd (fds k)" using a(3) by (metis comp_apply disjoint_iff)
  qed
  have mc: "\<forall>i<n. fst (fds i) \<notin> set (map (snd \<circ> fds) [0..<n]) \<and> snd (fds i) \<in> set (map (snd \<circ> fds) [0..<n])"
    using d(1) by auto
  have e: "snd (fds j) \<noteq> snd (fds i)" "fst (fds i) \<noteq> fst (fds j)" if "i < j" for i
    using d(3) [of j i] d(2) [of i j] that assms(3) by simp_all
  have f: "fst (fds i) \<noteq> snd (fds k)" if "i \<le> j" "k \<le> j" for i k
    using d(1) [of i k] that assms(3) by simp
  have "snd (fds j) \<notin> set (map (snd \<circ> fds) [0..<j] @ [fst (fds j)])"
    using e(1) f [of j j] by fastforce
  moreover have "\<forall>i<j. snd (fds i) \<in> set (map (snd \<circ> fds) [0..<j] @ [fst (fds j)]) \<and>
      fst (fds i) \<notin> set (map (snd \<circ> fds) [0..<j] @ [fst (fds j)])"
    using e(2) f by fastforce
  ultimately show ?thesis using mc m w by (intro exI conjI) (assumption | simp)+
qed


section \<open>Witnesses\<close>

text \<open>Three workers, the second of them dead.\<close>

definition fleet_ex :: "process list" where
  "fleet_ex = [\<lparr>proc_pid = 101, pipefd = (10, 11)\<rparr>, \<lparr>proc_pid = 102, pipefd = (12, 13)\<rparr>, \<lparr>proc_pid = 103, pipefd = (14, 15)\<rparr>]"

definition master_ex :: master where
  "master_ex = \<lparr>epollfd = 6, listenfd = 5, stop = False, process_num = 3, index = -1,
     sub_process = [\<lparr>proc_pid = 101, pipefd = (10, 11)\<rparr>, \<lparr>proc_pid = -1, pipefd = (12, 13)\<rparr>, \<lparr>proc_pid = 103, pipefd = (14, 15)\<rparr>],
     timer_manage = \<lparr>array = [], capacity_t = 0, cur_size = 0\<rparr>, timer_delay = 2, signal_pipefd = (7, 8),
     watched = [7, 5], handled_sigs = [SIGINT, SIGCHLD, SIGTERM], sub_process_counter = 1, zombies = [],
     m_log = [A_close 12]\<rparr>"

definition listen_ev :: ep_event where
  "listen_ev = \<lparr>ev_fd = 5, ev_in = True, ev_recv = None, ev_dead = []\<rparr>"

lemma fleet_ex_alive: "alive (sub_process master_ex) i \<longleftrightarrow> i = 0 \<or> i = 2"
  by (auto simp: alive_def master_ex_def nth_Cons' numeral_3_eq_3 less_Suc_eq split: if_splits)

lemma master_ex_inv: "master_inv fleet_ex master_ex"
proof -
  have "log_ok fleet_ex ([] @ [A_close 12])" by (simp only: log_ok_snoc) (simp add: fleet_ex_def)
  moreover have "fleet_ok fleet_ex" by (simp add: fleet_ok_def fleet_ex_def)
  moreover have "i < 3 \<Longrightarrow> entry_ok fleet_ex master_ex i" for i
    by (auto simp: numeral_3_eq_3 less_Suc_eq entry_ok_def fleet_ex_def master_ex_def)
  ultimately show ?thesis by (simp add: master_inv_def master_ok_def) (simp add: master_ex_def fleet_ex_def)
qed

lemma master_round_robin_fair_witness:
  "\<exists>s' picks. master_events (replicate 5 listen_ev) master_ex = Some s' \<and> length picks = 5 \<and>
    m_log s' = A_close 12 # map (\<lambda>i. A_send (fst (pipefd (sub_process master_ex ! i))) 1) picks \<and>
    2 \<le> count_list picks 0 \<and> 2 \<le> count_list picks 2"
proof -
  have ok: "master_ok master_ex" using master_ex_inv by (simp add: master_inv_def)
  have c: "card {i. alive (sub_process master_ex) i} = 2" by (simp add: fleet_ex_alive Collect_disj_eq)
  have f: "\<forall>ev\<in>set (replicate 5 listen_ev). ev_fd ev = listenfd master_ex \<and> ev_dead ev = []"
    by (simp add: listen_ev_def master_ex_def)
  have l: "m_log master_ex = [A_close 12]" by (simp add: master_ex_def)
  have e: "\<exists>i. alive (sub_process master_ex) i" by (auto simp: fleet_ex_alive)
  obtain s' picks where r: "master_events (replicate 5 listen_ev) master_ex = Some s'" "length picks = length (replicate 5 listen_ev)"
    "m_log s' = m_log master_ex @ map (\<lambda>i. A_send (fst (pipefd (sub_process master_ex ! i))) 1) picks"
    "\<forall>a. alive (sub_process master_ex) a \<longrightarrow> length (replicate 5 listen_ev) div card {i. alive (sub_process master_ex) i} \<le> count_list picks a"
    using master_round_robin_fair [OF ok e f] by blast
  have "2 \<le> count_list picks 0" "2 \<le> count_list picks 2"
    using r(4) [rule_format, of 0] r(4) [rule_format, of 2] unfolding c fleet_ex_alive by simp_all
  then show ?thesis using r(1-3) l by (intro exI [of _ s'] exI [of _ picks]) simp
qed

text \<open>The memory the constructor starts from.\<close>

definition server_ex :: server_framework where
  "server_ex = \<lparr>epollfd = 0, listenfd = 0, stop = False, process_num = 0, index = 0, sub_process = [],
     timer_manage = \<lparr>array = [], capacity_t = 0, cur_size = 0\<rparr>, timer_delay = 0, signal_pipefd = (0, 0),
     watched = [], handled_sigs = []\<rparr>"

lemma master_run_in_order_witness:
  "\<exists>s0 s ended log. server_framework_new (\<lambda>i. Some (int (10 + 2 * i), int (11 + 2 * i))) (\<lambda>i. int (100 + i)) (0, 0) server_ex 5 (int 3) =
      Some (s0, [11, 13, 15]) \<and>
    exec_master_process 6 (Some (7, 8))
      [Wait_events [listen_ev, \<lparr>ev_fd = 7, ev_in = True, ev_recv = Some [17], ev_dead = [101]\<rparr>], Wait_failed EINTR] s0 = Some (s, ended) \<and>
    log_ok (sub_process s0) log"
  using master_run_in_order [of 3 "\<lambda>i. Some (int (10 + 2 * i), int (11 + 2 * i))" "\<lambda>i. (int (10 + 2 * i), int (11 + 2 * i))" "\<lambda>i. int (100 + i)" 6
      "(0, 0)" server_ex 5 "(7, 8)" "[Wait_events [listen_ev, \<lparr>ev_fd = 7, ev_in = True, ev_recv = Some [17], ev_dead = [101]\<rparr>], Wait_failed EINTR]"]
  by (auto simp: upt_rec simp del: master_loop.simps)

lemma server_forks_workers_witness:
  "\<exists>m mc w wc. server_framework_new (\<lambda>i. Some (int (10 + 2 * i), int (11 + 2 * i))) (\<lambda>i. int (100 + i)) (0, 0) server_ex 5 (int 3) = Some (m, mc) \<and>
    server_framework_new (\<lambda>i. Some (int (10 + 2 * i), int (11 + 2 * i))) ((\<lambda>i. int (100 + i))(2 := 0)) (0, 0) server_ex 5 (int 3) = Some (w, wc) \<and>
    index m = -1 \<and> index w = 2 \<and> 15 \<notin> set wc \<and> 10 \<notin> set wc"
proof -
  let ?pair = "\<lambda>i. Some (int (10 + 2 * i), int (11 + 2 * i))" and ?fds = "\<lambda>i. (int (10 + 2 * i), int (11 + 2 * i))"
    and ?pids = "\<lambda>i. int (100 + i)"
  have h: "int 3 * user_per_process < 2 ^ 31" "\<forall>i<3. ?pair i = Some (?fds i) \<and> 0 < ?pids i" "(2::nat) < 3"
    "distinct (map (fst \<circ> ?fds) [0..<3] @ map (snd \<circ> ?fds) [0..<3])" by (simp_all add: upt_rec)
  obtain m mc w wc where r: "server_framework_new ?pair ?pids (0, 0) server_ex 5 (int 3) = Some (m, mc)"
    "server_framework_new ?pair (?pids(2 := 0)) (0, 0) server_ex 5 (int 3) = Some (w, wc)"
    "index m = -1" "index w = int 2" "snd (?fds 2) \<notin> set wc" "\<forall>i<2. snd (?fds i) \<in> set wc \<and> fst (?fds i) \<notin> set wc"
    using server_forks_workers [OF h, of "(0, 0)" server_ex 5] by blast
  have "10 \<notin> set wc" using r(6) [rule_format, of 0] by simp
  then show ?thesis using r(1-5) by (intro exI [of _ m] exI [of _ mc] exI [of _ w] exI [of _ wc]) simp
qed


end
