(* ===== verification/Server_Worker.thy ===== *)
theory Server_Worker
  imports Server_Master
begin

text \<open>
  A worker of src/server_framework.h: it waits for events with the timeout of its least timer, accepts a
  connection for each notice of the master, gives it a timer whose callback serves it, and reads signals
  from its pipe.  What happens around it is a list of rounds: what epoll_wait finds when its timeout has
  passed, or before, and the times that the clock shows; the connections that accept gives and the memory
  that new gives are part of the events.  None is an
  assertion that fails, an access outside an array or a use of a freed timer.
\<close>

section \<open>State\<close>

abbreviation EAGAIN :: int where "EAGAIN \<equiv> 11"

text \<open>The calls of the callbacks are logged with the time of the tick that makes them.\<close>

record worker = server_framework +
  w_pipe :: int
  w_timers :: timers
  w_runs :: "(int \<times> addr \<times> cli_data) list"
  w_closed :: "int list"

datatype recv_result = Recv_failed int | Recv_bytes "byte list"

text \<open>
  An event: its descriptor, whether it is for input, what the recv it leads to gives, the descriptor and
  the address of the connection that accept gives, the time when a timer is made for it, and the address
  and the contents of the memory of that timer.
\<close>

record w_event =
  we_fd :: int
  we_in :: bool
  we_recv :: recv_result
  we_accept :: "(int \<times> nat) option"
  we_now :: int
  we_new :: addr
  we_mem :: cli_data

text \<open>A round: the time before the wait, what epoll_wait finds (no events when the timeout passes), and the
  time of the tick after it.\<close>

record round =
  r_now :: int
  r_res :: "w_event wait_result"
  r_tick :: int

section \<open>Waiting\<close>

text \<open>The timeout is a number of seconds, as an int.\<close>

definition tepoll_timeout :: "timers \<Rightarrow> time_heap \<Rightarrow> int \<Rightarrow> int option" where
  "tepoll_timeout st th now = do {
     top \<leftarrow> get_top th;
     if top \<noteq> NULL
     then do {
       e \<leftarrow> expire_at st top;
       Some (sint (word_of_int (e - now) :: 32 word))
     }
     else Some (-1)
   }"

datatype tepoll_result = Tepoll_waiting | Tepoll_failed int | Tepoll_ready "w_event list"

text \<open>With a negative timeout epoll_wait blocks until there is an event, however long that takes.\<close>

fun epoll_wait :: "int \<Rightarrow> round list \<Rightarrow> (round \<times> round list) option" where
  "epoll_wait tv [] = None"
| "epoll_wait tv (r # rs) = (if tv < 0 \<and> r_res r = Wait_events [] then epoll_wait tv rs else Some (r, rs))"

lemma epoll_wait_length: "epoll_wait tv rs = Some (r, rs') \<Longrightarrow> length rs' < length rs"
  by (induction rs) (auto split: if_splits)

text \<open>The worker waits when no round is left; the second component is the rounds that are left.\<close>

function tepoll_wait :: "round list \<Rightarrow> worker \<Rightarrow> (worker \<times> round list \<times> tepoll_result) option" where
  "tepoll_wait [] w = Some (w, [], Tepoll_waiting)"
| "tepoll_wait (r0 # rs0) w = Option.bind (tepoll_timeout (w_timers w) (timer_manage w) (r_now r0)) (\<lambda>tv.
     case epoll_wait tv (r0 # rs0) of
       None \<Rightarrow> Some (w, [], Tepoll_waiting)
     | Some (r, rs) \<Rightarrow>
         (case r_res r of
            Wait_failed e \<Rightarrow> Some (w, rs, Tepoll_failed e)
          | Wait_events evs \<Rightarrow>
              if evs \<noteq> [] then Some (w, rs, Tepoll_ready evs)
              else Option.bind (tick (w_timers w) (timer_manage w) (r_tick r)) (\<lambda>(st, th, cs).
                     tepoll_wait rs (w\<lparr>w_timers := st, timer_manage := th,
                       w_runs := w_runs w @ map (Pair (r_tick r)) cs\<rparr>))))"
  by pat_completeness auto
termination
  by (relation "measure (length \<circ> fst)") (auto dest: epoll_wait_length split: if_splits)

declare tepoll_wait.simps(2) [simp del]

section \<open>Events\<close>

text \<open>cb is the address of callback_func.\<close>

definition worker_accept :: "addr \<Rightarrow> w_event \<Rightarrow> worker \<Rightarrow> worker option" where
  "worker_accept cb ev w =
     (case we_accept ev of
        None \<Rightarrow> Some w
      | Some (connfd, adr) \<Rightarrow>
          let w = set_fd connfd w;
              timer = heap_timer_new (we_now ev) (timer_delay w) cb ((we_mem ev)\<lparr>address := adr, sockfd := connfd\<rparr>);
              st = (w_timers w)(we_new ev \<mapsto> timer)
          in do {
            th \<leftarrow> add_timer st (timer_manage w) (we_new ev);
            Some (w\<lparr>w_timers := st, timer_manage := th\<rparr>)
          })"

text \<open>Reaping the children of a worker has no effect on its state.\<close>

definition worker_signal :: "byte \<Rightarrow> worker \<Rightarrow> worker" where
  "worker_signal b w =
     (if sint b = SIGCHLD then w
      else if sint b = SIGINT then w\<lparr>stop := True\<rparr>
      else w)"

fun worker_signals :: "byte list \<Rightarrow> worker \<Rightarrow> worker" where
  "worker_signals [] w = w"
| "worker_signals (b # bs) w = worker_signals bs (worker_signal b w)"

definition worker_event :: "addr \<Rightarrow> w_event \<Rightarrow> worker \<Rightarrow> worker option" where
  "worker_event cb ev w =
     (if we_fd ev = w_pipe w \<and> we_in ev
      then (case we_recv ev of
              Recv_failed e \<Rightarrow> if e \<noteq> EAGAIN then Some w else worker_accept cb ev w
            | Recv_bytes bs \<Rightarrow> if bs = [] then Some w else worker_accept cb ev w)
      else if we_fd ev = fst (signal_pipefd w) \<and> we_in ev
      then (case we_recv ev of
              Recv_failed e \<Rightarrow> Some w
            | Recv_bytes bs \<Rightarrow> Some (worker_signals bs w))
      else Some w)"

fun worker_events :: "addr \<Rightarrow> w_event list \<Rightarrow> worker \<Rightarrow> worker option" where
  "worker_events cb [] w = Some w"
| "worker_events cb (ev # evs) w = do { w \<leftarrow> worker_event cb ev w; worker_events cb evs w }"

section \<open>The loop\<close>

text \<open>The second component of the result is whether the loop has ended.\<close>

partial_function (option) worker_loop :: "addr \<Rightarrow> round list \<Rightarrow> worker \<Rightarrow> (worker \<times> bool) option" where
  "worker_loop cb rs w =
     (if stop w then Some (w, True)
      else Option.bind (tepoll_wait rs w) (\<lambda>(w, rs, res).
        case res of
          Tepoll_waiting \<Rightarrow> Some (w, False)
        | Tepoll_failed e \<Rightarrow> if e \<noteq> EINTR then Some (w, True) else worker_loop cb rs w
        | Tepoll_ready evs \<Rightarrow> Option.bind (worker_events cb evs w) (\<lambda>w. worker_loop cb rs w)))"

definition worker_start :: "server_framework \<Rightarrow> timers \<Rightarrow> worker" where
  "worker_start s st = server_framework.extend s \<lparr>w_pipe = 0, w_timers = st, w_runs = [], w_closed = []\<rparr>"

definition exec_worker_process :: "int \<Rightarrow> (int \<times> int) option \<Rightarrow> addr \<Rightarrow> round list \<Rightarrow> timers \<Rightarrow> server_framework \<Rightarrow>
    (worker \<times> bool) option" where
  "exec_worker_process epfd sp cb rs st s = do {
     w \<leftarrow> set_signal epfd sp (worker_start s st);
     p \<leftarrow> slot (sub_process w) (index w);
     let w = set_fd (snd (pipefd p)) (w\<lparr>w_pipe := snd (pipefd p)\<rparr>);
     (w, ended) \<leftarrow> worker_loop cb rs w;
     Some (if ended then w\<lparr>w_closed := w_closed w @ [w_pipe w, epollfd w]\<rparr> else w, ended)
   }"

definition run_server :: "int \<Rightarrow> (int \<times> int) option \<Rightarrow> addr \<Rightarrow> round list \<Rightarrow> timers \<Rightarrow> ep_event wait_result list \<Rightarrow>
    server_framework \<Rightarrow> ((worker \<times> bool) + (master \<times> bool)) option" where
  "run_server epfd sp cb rs st ws s =
     (if index s \<noteq> -1 then map_option Inl (exec_worker_process epfd sp cb rs st s)
      else map_option Inr (exec_master_process epfd sp ws s))"

section \<open>The timers of a worker\<close>

definition pend :: "worker \<Rightarrow> (addr \<times> heap_timer) multiset" where
  "pend w = pending (w_timers w, timer_manage w)"

definition worker_inv :: "worker \<Rightarrow> bool" where
  "worker_inv w \<longleftrightarrow> th_ok (w_timers w) (timer_manage w) \<and> 0 < capacity_t (timer_manage w)"

text \<open>What the steps of a worker never change.\<close>

definition env_of :: "worker \<Rightarrow> int \<times> (int \<times> int) \<times> int" where
  "env_of w = (w_pipe w, signal_pipefd w, timer_delay w)"

definition round_events :: "round \<Rightarrow> w_event list" where
  "round_events r = (case r_res r of Wait_failed e \<Rightarrow> [] | Wait_events evs \<Rightarrow> evs)"

definition events_of :: "round list \<Rightarrow> w_event list" where
  "events_of rs = concat (map round_events rs)"

text \<open>The memory for the timers of the events to come is fresh, and the heap has room for them.\<close>

definition supplied :: "w_event list \<Rightarrow> worker \<Rightarrow> bool" where
  "supplied evs w \<longleftrightarrow> distinct (map we_new evs) \<and> (\<forall>ev\<in>set evs. we_new ev \<noteq> NULL \<and> w_timers w (we_new ev) = None) \<and>
     cur_size (timer_manage w) + int (length evs) \<le> capacity_t (timer_manage w)"

text \<open>The calls made for timers that were taken off, each with the time when it was.\<close>

definition runs_of :: "(int \<times> addr \<times> heap_timer) list \<Rightarrow> (int \<times> addr \<times> cli_data) list" where
  "runs_of xs = map (\<lambda>(t, x). (t, callback_func (snd x), user_data (snd x)))
     (filter (\<lambda>(t, x). callback_func (snd x) \<noteq> NULL) xs)"

text \<open>
  The account of the timers between two states: what was pending and what was made is what was taken off
  and what is pending; nothing is taken off before its time, and what was made is for the given events.
\<close>

definition accounts :: "addr \<Rightarrow> int \<Rightarrow> int set \<Rightarrow> w_event set \<Rightarrow> worker \<Rightarrow> worker \<Rightarrow> bool" where
  "accounts cb d T E w w' \<longleftrightarrow> (\<exists>xs ys. pend w + mset ys = mset (map snd xs) + pend w' \<and>
     w_runs w' = w_runs w @ runs_of xs \<and> (\<forall>x\<in>set xs. due (snd x) \<le> fst x \<and> fst x \<in> T) \<and>
     (\<forall>y\<in>set ys. \<exists>ev\<in>E. fst y = we_new ev \<and> callback_func (snd y) = cb \<and> due y = we_now ev + d))"

lemma accountsI:
  assumes "pend w + mset ys = mset (map snd xs) + pend w'" and "w_runs w' = w_runs w @ runs_of xs"
    and "\<And>x. x \<in> set xs \<Longrightarrow> due (snd x) \<le> fst x \<and> fst x \<in> T"
    and "\<And>y. y \<in> set ys \<Longrightarrow> \<exists>ev\<in>E. fst y = we_new ev \<and> callback_func (snd y) = cb \<and> due y = we_now ev + d"
  shows "accounts cb d T E w w'"
  using assms unfolding accounts_def by blast

lemma runs_of_append: "runs_of (xs @ ys) = runs_of xs @ runs_of ys"
  by (simp add: runs_of_def)

lemma accounts_refl: "pend w' = pend w \<Longrightarrow> w_runs w' = w_runs w \<Longrightarrow> accounts cb d T E w w'"
  by (rule accountsI [of _ "[]" "[]"]) (simp_all add: runs_of_def)

lemma accounts_trans:
  assumes "accounts cb d T E w w1" and "accounts cb d T' E' w1 w2" and "T \<subseteq> T''" "T' \<subseteq> T''" "E \<subseteq> E''" "E' \<subseteq> E''"
  shows "accounts cb d T'' E'' w w2"
proof -
  obtain xs ys where 1: "pend w + mset ys = mset (map snd xs) + pend w1" "w_runs w1 = w_runs w @ runs_of xs"
    "\<forall>x\<in>set xs. due (snd x) \<le> fst x \<and> fst x \<in> T"
    "\<forall>y\<in>set ys. \<exists>ev\<in>E. fst y = we_new ev \<and> callback_func (snd y) = cb \<and> due y = we_now ev + d"
    using assms(1) unfolding accounts_def by blast
  obtain xs' ys' where 2: "pend w1 + mset ys' = mset (map snd xs') + pend w2" "w_runs w2 = w_runs w1 @ runs_of xs'"
    "\<forall>x\<in>set xs'. due (snd x) \<le> fst x \<and> fst x \<in> T'"
    "\<forall>y\<in>set ys'. \<exists>ev\<in>E'. fst y = we_new ev \<and> callback_func (snd y) = cb \<and> due y = we_now ev + d"
    using assms(2) unfolding accounts_def by blast
  have "pend w + mset (ys @ ys') = (pend w + mset ys) + mset ys'" by (simp add: add.assoc)
  also have "\<dots> = mset (map snd xs) + (pend w1 + mset ys')" by (simp only: 1(1) add.assoc)
  also have "\<dots> = mset (map snd (xs @ xs')) + pend w2" by (simp add: 2(1) add.assoc)
  finally have sum: "pend w + mset (ys @ ys') = mset (map snd (xs @ xs')) + pend w2" .
  show ?thesis
  proof (rule accountsI [OF sum])
    show "w_runs w2 = w_runs w @ runs_of (xs @ xs')" using 1(2) 2(2) by (simp add: runs_of_append)
    show "due (snd x) \<le> fst x \<and> fst x \<in> T''" if "x \<in> set (xs @ xs')" for x
      using that 1(3) 2(3) assms(3,4) by auto
    show "\<exists>ev\<in>E''. fst y = we_new ev \<and> callback_func (snd y) = cb \<and> due y = we_now ev + d" if "y \<in> set (ys @ ys')" for y
      using that 1(4) 2(4) assms(5,6) unfolding set_append Un_iff by blast
  qed
qed

lemma supplied_mono:
  assumes "supplied evs w" and "set evs' \<subseteq> set evs" and "distinct (map we_new evs')"
    and "\<And>ev. ev \<in> set evs' \<Longrightarrow> w_timers w (we_new ev) = None \<Longrightarrow> w_timers w' (we_new ev) = None"
    and "cur_size (timer_manage w') + int (length evs') \<le> cur_size (timer_manage w) + int (length evs)"
    and "capacity_t (timer_manage w') = capacity_t (timer_manage w)"
  shows "supplied evs' w'"
  using assms unfolding supplied_def by fastforce

lemma size_pend: "worker_inv w \<Longrightarrow> int (size (pend w)) = cur_size (timer_manage w)"
  by (auto simp: worker_inv_def pend_def pending_def held_def th_ok_def)

lemma tepoll_timeout_ok:
  assumes "worker_inv w"
  shows "tepoll_timeout (w_timers w) (timer_manage w) now = Some (if pend w = {#} then -1
    else sint (word_of_int (due_at (w_timers w) (array (timer_manage w) ! 0) - now) :: 32 word))"
proof (cases "cur_size (timer_manage w) = 0")
  case True
  then have "pend w = {#}" by (simp add: pend_def pending_def held_def)
  then show ?thesis using True by (simp add: tepoll_timeout_def get_top_def)
next
  case False
  have ok: "th_ok (w_timers w) (timer_manage w)" using assms by (simp add: worker_inv_def)
  obtain n where n: "cur_size (timer_manage w) = int n" "n \<le> length (array (timer_manage w))"
    "heap_live (w_timers w) n (array (timer_manage w))"
    by (rule th_ok_size [OF ok])
  have "0 < n" using n(1) False by simp
  then have a: "0 < length (array (timer_manage w))" "live (w_timers w) (array (timer_manage w) ! 0)"
    using n by (auto simp: heap_live_def)
  moreover have "pend w \<noteq> {#}" using a(1) n(1) \<open>0 < n\<close> by (auto simp: pend_def pending_def held_def)
  ultimately show ?thesis
    using False live_expire [OF a(2)] arr_get_nat [of "array (timer_manage w)" 0]
    by (simp add: tepoll_timeout_def get_top_def live_def)
qed

lemma tick_accounts:
  assumes "worker_inv w"
  shows "\<exists>st th cs. tick (w_timers w) (timer_manage w) t = Some (st, th, cs) \<and>
    (let w' = w\<lparr>w_timers := st, timer_manage := th, w_runs := w_runs w @ map (Pair t) cs\<rparr>
     in worker_inv w' \<and> accounts cb d {t} {} w w' \<and> cur_size th \<le> cur_size (timer_manage w) \<and>
        capacity_t th = capacity_t (timer_manage w) \<and> (\<forall>a. w_timers w a = None \<longrightarrow> st a = None))"
proof -
  obtain xs st th where k: "tick (w_timers w) (timer_manage w) t = Some (st, th, calls xs)" "th_ok st th"
    "pending (w_timers w, timer_manage w) = mset xs + pending (st, th)" "\<forall>x\<in>set xs. due x \<le> t"
    "st = w_timers w |` (- fst ` set xs)" "capacity_t th = capacity_t (timer_manage w)"
    using tick_ok [of "w_timers w" "timer_manage w" t] assms by (auto simp: worker_inv_def)
  let ?w = "w\<lparr>w_timers := st, timer_manage := th, w_runs := w_runs w @ map (Pair t) (calls xs)\<rparr>"
  have inv: "worker_inv ?w" using k(2,6) assms by (simp add: worker_inv_def)
  have "map (Pair t) (calls xs) = runs_of (map (Pair t) xs)"
    by (simp add: calls_def runs_of_def filter_map comp_def)
  moreover have "map snd (map (Pair t) xs) = xs" by (simp add: comp_def)
  ultimately have "accounts cb d {t} {} w ?w"
    using k(3,4) by (intro accountsI [of _ "[]" "map (Pair t) xs"]) (auto simp: pend_def)
  moreover have "cur_size th \<le> cur_size (timer_manage w)"
    using size_pend [OF assms] size_pend [OF inv] k(3) by (simp add: pend_def)
  moreover have "\<forall>a. w_timers w a = None \<longrightarrow> st a = None" by (simp add: k(5) restrict_map_def)
  ultimately show ?thesis using k(1,6) inv by (auto simp: Let_def)
qed

lemma epoll_wait_Some:
  "epoll_wait tv rs = Some (r, rs') \<Longrightarrow> \<exists>pre. rs = pre @ r # rs' \<and> (\<forall>q\<in>set pre. r_res q = Wait_events [])"
proof (induction rs)
  case (Cons q rs)
  show ?case
  proof (cases "tv < 0 \<and> r_res q = Wait_events []")
    case True
    then obtain pre where "rs = pre @ r # rs'" "\<forall>q\<in>set pre. r_res q = Wait_events []" using Cons by auto
    then show ?thesis using True by (intro exI [of _ "q # pre"]) simp
  next
    case False
    then show ?thesis using Cons.prems by (intro exI [of _ "[]"]) auto
  qed
qed simp

text \<open>What a wait leaves alone.\<close>

definition quiet :: "worker \<Rightarrow> worker \<Rightarrow> bool" where
  "quiet w w' \<longleftrightarrow> worker_inv w' \<and> env_of w' = env_of w \<and> stop w' = stop w \<and>
     cur_size (timer_manage w') \<le> cur_size (timer_manage w) \<and> capacity_t (timer_manage w') = capacity_t (timer_manage w) \<and>
     (\<forall>a. w_timers w a = None \<longrightarrow> w_timers w' a = None)"

lemma quiet_refl: "worker_inv w \<Longrightarrow> quiet w w"
  by (simp add: quiet_def)

lemma quiet_trans: "quiet w w1 \<Longrightarrow> quiet w1 w2 \<Longrightarrow> quiet w w2"
  by (auto simp: quiet_def)

lemma quiet_supplied: "quiet w w' \<Longrightarrow> supplied evs w \<Longrightarrow> supplied evs w'"
  by (auto simp: quiet_def supplied_def)

text \<open>The result of a wait comes from one of the rounds, and the rounds after it are left.\<close>

fun result_from :: "round list \<Rightarrow> round list \<Rightarrow> tepoll_result \<Rightarrow> bool" where
  "result_from rs rs' Tepoll_waiting \<longleftrightarrow> rs' = []"
| "result_from rs rs' (Tepoll_failed e) \<longleftrightarrow> (\<exists>pre r. rs = pre @ r # rs' \<and> r_res r = Wait_failed e)"
| "result_from rs rs' (Tepoll_ready evs) \<longleftrightarrow> (\<exists>pre r. rs = pre @ r # rs' \<and> r_res r = Wait_events evs)"

lemma result_from_later: "result_from rs2 rs' res \<Longrightarrow> result_from (pre @ r # rs2) rs' res"
proof (cases res)
  case (Tepoll_failed e)
  moreover assume "result_from rs2 rs' res"
  ultimately obtain pre' r' where "rs2 = pre' @ r' # rs'" "r_res r' = Wait_failed e" by auto
  then show ?thesis using Tepoll_failed by (auto intro: exI [of _ "pre @ r # pre'"])
next
  case (Tepoll_ready evs)
  moreover assume "result_from rs2 rs' res"
  ultimately obtain pre' r' where "rs2 = pre' @ r' # rs'" "r_res r' = Wait_events evs" by auto
  then show ?thesis using Tepoll_ready by (auto intro: exI [of _ "pre @ r # pre'"])
qed simp

lemma tepoll_wait_ok:
  assumes "worker_inv w"
  shows "\<exists>w' rs' res. tepoll_wait rs w = Some (w', rs', res) \<and> quiet w w' \<and>
    accounts cb d (r_tick ` set rs) {} w w' \<and> result_from rs rs' res"
  using assms
proof (induction rs arbitrary: w rule: length_induct)
  case (1 rs)
  show ?case
  proof (cases rs)
    case Nil
    then show ?thesis using 1 quiet_refl by (auto intro: accounts_refl)
  next
    case (Cons r0 rs0)
    obtain tv where tv: "tepoll_timeout (w_timers w) (timer_manage w) (r_now r0) = Some tv"
      using tepoll_timeout_ok [OF "1.prems"] by blast
    show ?thesis
    proof (cases "epoll_wait tv rs")
      case None
      then show ?thesis using Cons tv "1.prems" quiet_refl
        by (auto simp: tepoll_wait.simps(2) intro: accounts_refl)
    next
      case (Some p)
      obtain r rs1 where p: "p = (r, rs1)" by (cases p)
      obtain pre where pre: "rs = pre @ r # rs1" using epoll_wait_Some Some p by blast
      have eq: "tepoll_wait rs w = (case r_res r of
            Wait_failed e \<Rightarrow> Some (w, rs1, Tepoll_failed e)
          | Wait_events evs \<Rightarrow>
              if evs \<noteq> [] then Some (w, rs1, Tepoll_ready evs)
              else Option.bind (tick (w_timers w) (timer_manage w) (r_tick r)) (\<lambda>(st, th, cs).
                     tepoll_wait rs1 (w\<lparr>w_timers := st, timer_manage := th,
                       w_runs := w_runs w @ map (Pair (r_tick r)) cs\<rparr>)))"
        using Cons tv Some p by (simp add: tepoll_wait.simps(2))
      show ?thesis
      proof (cases "r_res r = Wait_events []")
        case False
        then show ?thesis using eq pre "1.prems" quiet_refl
          by (cases "r_res r") (auto intro: accounts_refl)
      next
        case True
        obtain st th cs where k: "tick (w_timers w) (timer_manage w) (r_tick r) = Some (st, th, cs)"
          "let w1 = w\<lparr>w_timers := st, timer_manage := th, w_runs := w_runs w @ map (Pair (r_tick r)) cs\<rparr>
           in worker_inv w1 \<and> accounts cb d {r_tick r} {} w w1 \<and> cur_size th \<le> cur_size (timer_manage w) \<and>
             capacity_t th = capacity_t (timer_manage w) \<and> (\<forall>a. w_timers w a = None \<longrightarrow> st a = None)"
          using tick_accounts [OF "1.prems", of "r_tick r" cb d] by auto
        define w1 where "w1 = w\<lparr>w_timers := st, timer_manage := th, w_runs := w_runs w @ map (Pair (r_tick r)) cs\<rparr>"
        have w1: "worker_inv w1" "accounts cb d {r_tick r} {} w w1" "quiet w w1"
          using k(2) by (simp_all add: w1_def [symmetric] Let_def quiet_def) (simp_all add: w1_def env_of_def)
        have "length rs1 < length rs" using pre by simp
        then obtain w' rs' res where i: "tepoll_wait rs1 w1 = Some (w', rs', res)" "quiet w1 w'"
          "accounts cb d (r_tick ` set rs1) {} w1 w'" "result_from rs1 rs' res"
          using "1.IH" w1(1) by blast
        have "tepoll_wait rs w = Some (w', rs', res)" using eq True k(1) i(1) by (simp add: w1_def)
        moreover have "accounts cb d (r_tick ` set rs) {} w w'"
          using w1(2) i(3) by (rule accounts_trans) (auto simp: pre)
        moreover have "result_from rs rs' res" unfolding pre using i(4) by (rule result_from_later)
        ultimately show ?thesis using quiet_trans [OF w1(3) i(2)] by blast
      qed
    qed
  qed
qed

lemma worker_signals_same: "worker_signals bs w = w\<lparr>stop := stop w \<or> (\<exists>b\<in>set bs. sint b = SIGINT)\<rparr>"
  by (induction bs arbitrary: w) (auto simp: worker_signal_def)

text \<open>The events that make the worker stop.\<close>

definition reads_sigint :: "int \<times> int \<Rightarrow> w_event \<Rightarrow> bool" where
  "reads_sigint sp ev \<longleftrightarrow> we_fd ev = fst sp \<and> (\<exists>bs. we_recv ev = Recv_bytes bs \<and> (\<exists>b\<in>set bs. sint b = SIGINT))"

definition handled :: "addr \<Rightarrow> w_event list \<Rightarrow> w_event list \<Rightarrow> worker \<Rightarrow> worker \<Rightarrow> bool" where
  "handled cb evs left w w' \<longleftrightarrow> worker_inv w' \<and> supplied left w' \<and> env_of w' = env_of w \<and>
     accounts cb (timer_delay w) {} (set evs) w w' \<and> w_runs w' = w_runs w \<and>
     (stop w' \<longrightarrow> stop w \<or> (\<exists>ev\<in>set evs. reads_sigint (signal_pipefd w) ev))"

lemma handled_same:
  assumes "worker_inv w" and "supplied (ev # left) w" and "w_timers w' = w_timers w" "timer_manage w' = timer_manage w"
    "w_runs w' = w_runs w" "env_of w' = env_of w" "stop w' \<longrightarrow> stop w \<or> reads_sigint (signal_pipefd w) ev"
  shows "handled cb [ev] left w w'"
proof -
  have "supplied left w'" using assms(2-4) by (auto simp: supplied_def)
  then show ?thesis using assms by (auto simp: handled_def worker_inv_def pend_def intro!: accounts_refl)
qed

lemma worker_accept_ok:
  assumes inv: "worker_inv w" and sup: "supplied (ev # left) w"
  shows "\<exists>w'. worker_accept cb ev w = Some w' \<and> handled cb [ev] left w w'"
proof (cases "we_accept ev")
  case None
  then show ?thesis using handled_same [OF assms refl refl refl refl] by (simp add: worker_accept_def)
next
  case (Some p)
  obtain connfd adr where p: "p = (connfd, adr)" by (cases p)
  let ?a = "we_new ev"
  define tm where "tm = heap_timer_new (we_now ev) (timer_delay w) cb ((we_mem ev)\<lparr>address := adr, sockfd := connfd\<rparr>)"
  let ?st = "(w_timers w)(?a \<mapsto> tm)"
  have fresh: "?a \<noteq> NULL" "w_timers w ?a = None" "cur_size (timer_manage w) + 1 \<le> capacity_t (timer_manage w)"
    using sup by (auto simp: supplied_def)
  have ok: "th_ok (w_timers w) (timer_manage w)" "0 < capacity_t (timer_manage w)" using inv by (auto simp: worker_inv_def)
  have ok': "th_ok ?st (timer_manage w)"
    using ok(1) by (rule th_ok_cong) (use fresh in \<open>auto simp: live_def due_at_def\<close>)
  have nh: "?a \<notin> set (held (timer_manage w))" using held_live [OF ok(1), of ?a] fresh by (auto simp: live_def)
  obtain th where th: "add_timer ?st (timer_manage w) ?a = Some th" "th_ok ?st th"
    "mset (held th) = add_mset ?a (mset (held (timer_manage w)))" "cur_size th = cur_size (timer_manage w) + 1"
    "capacity_t th = capacity_t (timer_manage w)"
    using add_timer_ok [OF ok' _ nh ok(2)] fresh by (auto simp: live_def)
  define w' where "w' = (set_fd connfd w)\<lparr>w_timers := ?st, timer_manage := th\<rparr>"
  have w': "worker_accept cb ev w = Some w'"
    using Some p th(1) by (simp add: worker_accept_def Let_def w'_def tm_def set_fd_def)
  have "image_mset (\<lambda>a. (a, the (?st a))) (mset (held (timer_manage w))) = pend w"
    using nh unfolding pend_def pending_def fst_conv snd_conv by (intro image_mset_cong) auto
  then have "pend w' = add_mset (?a, tm) (pend w)"
    unfolding pend_def [of w'] pending_def by (simp add: w'_def th(3))
  then have "accounts cb (timer_delay w) {} {ev} w w'"
    by (intro accountsI [of _ "[(?a, tm)]" "[]"]) (auto simp: runs_of_def w'_def set_fd_def tm_def heap_timer_new_def due_def)
  moreover have "supplied left w'"
    using sup th(4,5) by (auto simp: supplied_def w'_def) (metis image_eqI)
  moreover have "worker_inv w'" using th(2,5) ok(2) by (simp add: worker_inv_def w'_def)
  ultimately have "handled cb [ev] left w w'" by (simp add: handled_def env_of_def) (simp add: w'_def set_fd_def)
  then show ?thesis using w' by blast
qed

lemma worker_event_ok:
  assumes inv: "worker_inv w" and sup: "supplied (ev # left) w"
  shows "\<exists>w'. worker_event cb ev w = Some w' \<and> handled cb [ev] left w w'"
proof -
  have s: "handled cb [ev] left w w" using handled_same [OF assms refl refl refl refl] by simp
  have b: "handled cb [ev] left w (worker_signals bs w)"
    if "we_recv ev = Recv_bytes bs" "we_fd ev = fst (signal_pipefd w)" for bs
    using that by (intro handled_same [OF assms]) (auto simp: worker_signals_same env_of_def reads_sigint_def)
  show ?thesis
    using worker_accept_ok [OF assms] s b by (auto simp: worker_event_def split: recv_result.splits)
qed

lemma worker_events_ok:
  assumes "worker_inv w" and "supplied (evs @ left) w"
  shows "\<exists>w'. worker_events cb evs w = Some w' \<and> handled cb evs left w w'"
  using assms
proof (induction evs arbitrary: w)
  case Nil
  then show ?case by (auto simp: handled_def intro: accounts_refl)
next
  case (Cons ev evs)
  obtain w1 where w1: "worker_event cb ev w = Some w1" "handled cb [ev] (evs @ left) w w1"
    using worker_event_ok [of w ev "evs @ left"] Cons.prems by auto
  then have h: "worker_inv w1" "supplied (evs @ left) w1" by (simp_all add: handled_def)
  obtain w2 where w2: "worker_events cb evs w1 = Some w2" "handled cb evs left w1 w2"
    using Cons.IH [OF h] by blast
  have d: "timer_delay w1 = timer_delay w" "signal_pipefd w1 = signal_pipefd w"
    using w1(2) by (simp_all add: handled_def env_of_def)
  have "accounts cb (timer_delay w) {} (set (ev # evs)) w w2"
    by (rule accounts_trans [of cb _ "{}" "{ev}" w w1 "{}" "set evs"]) (use w1(2) w2(2) d in \<open>auto simp: handled_def\<close>)
  then show ?case using w1 w2 d by (auto simp: handled_def)
qed

lemma events_of_append: "events_of (rs @ r # rs') = events_of rs @ round_events r @ events_of rs'"
  by (simp add: events_of_def)

lemma supplied_suffix: "supplied (xs @ ys) w \<Longrightarrow> supplied ys w"
  by (auto simp: supplied_def)

text \<open>A run from any state: the account, and what can end it.\<close>

definition served :: "addr \<Rightarrow> round list \<Rightarrow> worker \<Rightarrow> worker \<Rightarrow> bool \<Rightarrow> bool" where
  "served cb rs w w' ended \<longleftrightarrow> worker_inv w' \<and> timer_delay w' = timer_delay w \<and>
     accounts cb (timer_delay w) (r_tick ` set rs) (set (events_of rs)) w w' \<and>
     (ended \<longrightarrow> stop w' \<or> (\<exists>e. Wait_failed e \<in> r_res ` set rs \<and> e \<noteq> EINTR)) \<and>
     (stop w' \<longrightarrow> stop w \<or> (\<exists>ev\<in>set (events_of rs). reads_sigint (signal_pipefd w) ev))"

lemma worker_loop_ok:
  assumes "worker_inv w" and "supplied (events_of rs) w"
  shows "\<exists>w' ended. worker_loop cb rs w = Some (w', ended) \<and> served cb rs w w' ended"
  using assms
proof (induction rs arbitrary: w rule: length_induct)
  case (1 rs)
  show ?case
  proof (cases "stop w")
    case True
    then show ?thesis using "1.prems"
      by (subst worker_loop.simps) (auto simp: served_def intro: accounts_refl)
  next
    case False
    obtain w1 rs1 res where t: "tepoll_wait rs w = Some (w1, rs1, res)" "quiet w w1"
      "accounts cb (timer_delay w) (r_tick ` set rs) {} w w1" "result_from rs rs1 res"
      using tepoll_wait_ok [OF "1.prems"(1)] by blast
    have q: "worker_inv w1" "supplied (events_of rs) w1" "timer_delay w1 = timer_delay w" "stop w1 = stop w"
      "signal_pipefd w1 = signal_pipefd w"
      using t(2) quiet_supplied [OF t(2) "1.prems"(2)] by (auto simp: quiet_def env_of_def)
    have "accounts cb (timer_delay w) {} {} w1 w1" by (rule accounts_refl) simp_all
    then have a: "accounts cb (timer_delay w) (r_tick ` set rs) (set (events_of rs)) w w1"
      by (rule accounts_trans [OF t(3)]) simp_all
    show ?thesis
    proof (cases res)
      case Tepoll_waiting
      then show ?thesis using t(1) False q a
        by (subst worker_loop.simps) (auto simp: served_def)
    next
      case (Tepoll_failed e)
      obtain pre r where r: "rs = pre @ r # rs1" "r_res r = Wait_failed e" using t(4) Tepoll_failed by auto
      show ?thesis
      proof (cases "e = EINTR")
        case True
        have "supplied (events_of rs1) w1" using q(2) supplied_suffix unfolding r(1) events_of_append by blast
        moreover have "length rs1 < length rs" by (simp add: r(1))
        ultimately obtain w' ended where w': "worker_loop cb rs1 w1 = Some (w', ended)" "served cb rs1 w1 w' ended"
          using "1.IH" q(1) by blast
        have sv: "accounts cb (timer_delay w) (r_tick ` set rs1) (set (events_of rs1)) w1 w'"
          "worker_inv w'" "timer_delay w' = timer_delay w1"
          "ended \<longrightarrow> stop w' \<or> (\<exists>e. Wait_failed e \<in> r_res ` set rs1 \<and> e \<noteq> EINTR)"
          "stop w' \<longrightarrow> stop w1 \<or> (\<exists>ev\<in>set (events_of rs1). reads_sigint (signal_pipefd w) ev)"
          using w'(2) unfolding served_def q(3,5) by simp_all
        have "accounts cb (timer_delay w) (r_tick ` set rs) (set (events_of rs)) w w'"
          by (rule accounts_trans [OF t(3) sv(1)]) (auto simp: r(1) events_of_append)
        then have "served cb rs w w' ended" using sv(2-5) q(3,4) unfolding served_def r(1) events_of_append by auto
        then show ?thesis using t(1) w'(1) False Tepoll_failed True by (subst worker_loop.simps) auto
      next
        case ne: False
        have "served cb rs w w1 True" using a q(1,3,4) False r ne by (auto simp: served_def image_iff intro!: bexI [of _ r])
        then show ?thesis using t(1) False Tepoll_failed ne by (subst worker_loop.simps) auto
      qed
    next
      case (Tepoll_ready evs)
      obtain pre r where r: "rs = pre @ r # rs1" "r_res r = Wait_events evs" using t(4) Tepoll_ready by auto
      have re: "round_events r = evs" using r(2) by (simp add: round_events_def)
      have "supplied (evs @ events_of rs1) w1" using q(2) supplied_suffix unfolding r(1) events_of_append re by blast
      then obtain w2 where w2: "worker_events cb evs w1 = Some w2" "handled cb evs (events_of rs1) w1 w2"
        using worker_events_ok [OF q(1)] by blast
      moreover have "length rs1 < length rs" by (simp add: r(1))
      ultimately obtain w' ended where w': "worker_loop cb rs1 w2 = Some (w', ended)" "served cb rs1 w2 w' ended"
        using "1.IH" unfolding handled_def by blast
      have d: "timer_delay w2 = timer_delay w" "signal_pipefd w2 = signal_pipefd w"
        using w2(2) q(3,5) by (simp_all add: handled_def env_of_def)
      have h: "accounts cb (timer_delay w) {} (set evs) w1 w2" using w2(2) unfolding handled_def q(3) by simp
      have sv: "accounts cb (timer_delay w) (r_tick ` set rs1) (set (events_of rs1)) w2 w'"
        "worker_inv w'" "timer_delay w' = timer_delay w2"
        "ended \<longrightarrow> stop w' \<or> (\<exists>e. Wait_failed e \<in> r_res ` set rs1 \<and> e \<noteq> EINTR)"
        "stop w' \<longrightarrow> stop w2 \<or> (\<exists>ev\<in>set (events_of rs1). reads_sigint (signal_pipefd w) ev)"
        using w'(2) unfolding served_def d by simp_all
      have "accounts cb (timer_delay w) (r_tick ` set rs) (set evs) w w2"
        by (rule accounts_trans [OF t(3) h]) simp_all
      then have "accounts cb (timer_delay w) (r_tick ` set rs) (set (events_of rs)) w w'"
        by (rule accounts_trans [OF _ sv(1)]) (auto simp: r(1) events_of_append re)
      moreover have "stop w2 \<longrightarrow> stop w \<or> (\<exists>ev\<in>set evs. reads_sigint (signal_pipefd w) ev)" using w2(2) q(4,5) by (auto simp: handled_def)
      ultimately have "served cb rs w w' ended" using sv(2-5) d re unfolding served_def r(1) events_of_append by auto
      then show ?thesis using t(1) w2(1) w'(1) False Tepoll_ready by (subst worker_loop.simps) auto
    qed
  qed
qed

section \<open>A timer that is overdue\<close>

text \<open>D is the least time when a pending timer is due.\<close>

definition least_due :: "int \<Rightarrow> worker \<Rightarrow> bool" where
  "least_due D w \<longleftrightarrow> (\<exists>x\<in>#pend w. due x = D) \<and> (\<forall>x\<in>#pend w. D \<le> due x)"

lemma least_due_root:
  assumes "worker_inv w" and "least_due D w"
  shows "pend w \<noteq> {#}" and "due_at (w_timers w) (array (timer_manage w) ! 0) = D"
proof -
  have inv: "th_inv (w_timers w, timer_manage w)" using assms(1) by (simp add: worker_inv_def th_inv_def)
  show ne: "pend w \<noteq> {#}" using assms(2) by (auto simp: least_due_def)
  then obtain x where x: "peek_timer (w_timers w, timer_manage w) = Some x"
    using peek_None [OF inv] by (auto simp: pend_def)
  then have "due x = D" using peek_min [OF inv x] assms(2) by (force simp: least_due_def pend_def)
  then show "due_at (w_timers w) (array (timer_manage w) ! 0) = D"
    using x by (auto simp: peek_timer_def due_at_def due_def split: if_splits)
qed

lemma overdue_timeout:
  assumes "worker_inv w" and "least_due D w" and "D < now" and "now \<le> D + 2 ^ 31"
  obtains tv where "tepoll_timeout (w_timers w) (timer_manage w) now = Some tv" and "tv < 0"
proof -
  have "signed_take_bit 31 (D - now) = D - now"
    using assms(3,4) by (intro signed_take_bit_int_eq_self) auto
  moreover have "sint (word_of_int (D - now) :: 32 word) = signed_take_bit 31 (D - now)" by transfer simp
  ultimately have "sint (word_of_int (D - now) :: 32 word) = D - now" by simp
  then show thesis using that tepoll_timeout_ok [OF assms(1)] least_due_root [OF assms(1,2)] assms(3) by simp
qed

text \<open>While the least timer is overdue, the wait ends only by an event, and nothing is taken off.\<close>

lemma tepoll_wait_overdue:
  assumes "worker_inv w" and "least_due D w" and "\<forall>r\<in>set rs. D < r_now r \<and> r_now r \<le> D + 2 ^ 31"
  shows "\<exists>rs' res. tepoll_wait rs w = Some (w, rs', res) \<and> result_from rs rs' res"
proof (cases rs)
  case (Cons r0 rs0)
  obtain tv where tv: "tepoll_timeout (w_timers w) (timer_manage w) (r_now r0) = Some tv" "tv < 0"
    using overdue_timeout [OF assms(1,2)] assms(3) Cons by (metis list.set_intros(1))
  have ne: "r_res r \<noteq> Wait_events []" if "epoll_wait tv qs = Some (r, rs1)" for r rs1 qs
    using that tv(2) by (induction qs) (auto split: if_splits)
  show ?thesis
  proof (cases "epoll_wait tv rs")
    case None
    then show ?thesis using Cons tv(1) by (simp add: tepoll_wait.simps(2))
  next
    case (Some p)
    obtain r rs1 where p: "p = (r, rs1)" by (cases p)
    obtain pre where "rs = pre @ r # rs1" using epoll_wait_Some Some p by blast
    moreover have "tepoll_wait rs w = Some (w, rs1, case r_res r of Wait_failed e \<Rightarrow> Tepoll_failed e | Wait_events evs \<Rightarrow> Tepoll_ready evs)"
      using Some p Cons tv(1) ne [of rs r rs1] by (cases "r_res r") (auto simp: tepoll_wait.simps(2))
    ultimately show ?thesis by (cases "r_res r") auto
  qed
qed simp

lemma accounts_only_new:
  assumes "accounts cb d {} E w w'"
  obtains ys where "pend w' = pend w + mset ys" and "w_runs w' = w_runs w"
    and "\<forall>y\<in>set ys. \<exists>ev\<in>E. fst y = we_new ev \<and> callback_func (snd y) = cb \<and> due y = we_now ev + d"
proof -
  obtain xs ys where x: "pend w + mset ys = mset (map snd xs) + pend w'" "w_runs w' = w_runs w @ runs_of xs" "\<forall>x\<in>set xs. fst x \<in> {}"
    "\<forall>y\<in>set ys. \<exists>ev\<in>E. fst y = we_new ev \<and> callback_func (snd y) = cb \<and> due y = we_now ev + d"
    using assms unfolding accounts_def by blast
  have "xs = []" using x(3) by (cases xs) auto
  then show thesis using that [of ys] x by (simp add: runs_of_def)
qed

lemma worker_loop_overdue:
  assumes "worker_inv w" and "least_due D w" and "supplied (events_of rs) w"
    and "\<forall>r\<in>set rs. D < r_now r \<and> r_now r \<le> D + 2 ^ 31"
    and "\<forall>ev\<in>set (events_of rs). D \<le> we_now ev + timer_delay w"
  shows "\<exists>w' ended. worker_loop cb rs w = Some (w', ended) \<and> w_runs w' = w_runs w \<and> pend w \<subseteq># pend w'"
  using assms
proof (induction rs arbitrary: w rule: length_induct)
  case (1 rs)
  show ?case
  proof (cases "stop w")
    case True
    then show ?thesis by (subst worker_loop.simps) auto
  next
    case False
    obtain rs1 res where t: "tepoll_wait rs w = Some (w, rs1, res)" "result_from rs rs1 res"
      using tepoll_wait_overdue "1.prems"(1,2,4) by blast
    show ?thesis
    proof (cases res)
      case Tepoll_waiting
      then show ?thesis using t(1) False by (subst worker_loop.simps) auto
    next
      case (Tepoll_failed e)
      obtain pre r where r: "rs = pre @ r # rs1" using t(2) Tepoll_failed by auto
      have "supplied (events_of rs1) w" using "1.prems"(3) supplied_suffix unfolding r events_of_append by blast
      moreover have "\<forall>ev\<in>set (events_of rs1). D \<le> we_now ev + timer_delay w" "\<forall>r\<in>set rs1. D < r_now r \<and> r_now r \<le> D + 2 ^ 31"
        "length rs1 < length rs"
        using "1.prems"(4,5) by (auto simp: r events_of_append)
      ultimately obtain w' ended where "worker_loop cb rs1 w = Some (w', ended)" "w_runs w' = w_runs w" "pend w \<subseteq># pend w'"
        using "1.IH" "1.prems"(1,2) by blast
      then show ?thesis using t(1) False Tepoll_failed by (subst worker_loop.simps) auto
    next
      case (Tepoll_ready evs)
      obtain pre r where r: "rs = pre @ r # rs1" "r_res r = Wait_events evs" using t(2) Tepoll_ready by auto
      have re: "round_events r = evs" using r(2) by (simp add: round_events_def)
      have "supplied (evs @ events_of rs1) w" using "1.prems"(3) supplied_suffix unfolding r(1) events_of_append re by blast
      then obtain w2 where w2: "worker_events cb evs w = Some w2" "handled cb evs (events_of rs1) w w2"
        using worker_events_ok [OF "1.prems"(1)] by blast
      have h: "worker_inv w2" "supplied (events_of rs1) w2" "timer_delay w2 = timer_delay w"
        "accounts cb (timer_delay w) {} (set evs) w w2"
        using w2(2) by (auto simp: handled_def env_of_def)
      obtain ys where ys: "pend w2 = pend w + mset ys" "w_runs w2 = w_runs w"
        "\<forall>y\<in>set ys. \<exists>ev\<in>set evs. fst y = we_new ev \<and> callback_func (snd y) = cb \<and> due y = we_now ev + timer_delay w"
        by (rule accounts_only_new [OF h(4)])
      have "D \<le> due y" if "y \<in> set ys" for y
        using ys(3) that "1.prems"(5) re by (fastforce simp: r(1) events_of_append)
      then have "least_due D w2" using "1.prems"(2) by (auto simp: least_due_def ys(1))
      moreover have "\<forall>ev\<in>set (events_of rs1). D \<le> we_now ev + timer_delay w2" "\<forall>r\<in>set rs1. D < r_now r \<and> r_now r \<le> D + 2 ^ 31"
        "length rs1 < length rs"
        using "1.prems"(4,5) by (auto simp: r(1) events_of_append h(3))
      ultimately obtain w' ended where w': "worker_loop cb rs1 w2 = Some (w', ended)" "w_runs w' = w_runs w2" "pend w2 \<subseteq># pend w'"
        using "1.IH" h(1,2) by blast
      have "pend w \<subseteq># pend w'" using w'(3) unfolding ys(1) by (rule subset_mset.order_trans [OF mset_subset_eq_add_left])
      then show ?thesis using t(1) False Tepoll_ready w2(1) w'(1,2) ys(2) by (subst worker_loop.simps) auto
    qed
  qed
qed

section \<open>Properties\<close>

lemma kill_loop_eq:
  assumes "i + k = length (sub_process s)"
  shows "kill_loop (int i) k s = Some (s\<lparr>m_log := m_log s @
    map (\<lambda>p. A_kill (proc_pid p) SIGTERM) (filter (\<lambda>p. proc_pid p \<noteq> -1) (drop i (sub_process s)))\<rparr>)"
  using assms
proof (induction k arbitrary: i s)
  case (Suc k)
  let ?p = "sub_process s ! i"
  let ?s = "if proc_pid ?p \<noteq> -1 then act (A_kill (proc_pid ?p) SIGTERM) s else s"
  have i: "i < length (sub_process s)" using Suc.prems by simp
  have "kill_loop (int i) (Suc k) s = kill_loop (int (Suc i)) k ?s" using i by (simp add: add.commute)
  also have "\<dots> = Some (?s\<lparr>m_log := m_log ?s @
      map (\<lambda>p. A_kill (proc_pid p) SIGTERM) (filter (\<lambda>p. proc_pid p \<noteq> -1) (drop (Suc i) (sub_process ?s)))\<rparr>)"
    using Suc.prems by (intro Suc.IH) (simp add: act_def)
  finally show ?case using i by (simp add: act_def Cons_nth_drop_Suc [symmetric])
qed simp

lemma runs_of_cb:
  "(\<And>x. x \<in> set xs \<Longrightarrow> callback_func (snd (snd x)) = cb) \<Longrightarrow> cb \<noteq> NULL \<Longrightarrow>
    runs_of xs = map (\<lambda>(t, x). (t, cb, user_data (snd x))) xs"
proof (induction xs)
  case (Cons x xs)
  obtain t y where x: "x = (t, y)" by (cases x)
  have "callback_func (snd y) = cb" using Cons.prems(1) [of x] x by simp
  then show ?case using Cons x by (simp add: runs_of_def)
qed (simp add: runs_of_def)


text \<open>C13: a worker that comes back to its wait when its least timer is overdue never runs a timer again,
  whatever connections and signals come: the negative timeout makes epoll_wait block until there is an
  event, and after an event no timer is looked at.\<close>

theorem worker_timers_starve:
  assumes "worker_inv w" and "supplied (events_of rs) w"
    and "x \<in># pend w" and "\<forall>y\<in>#pend w. due x \<le> due y"
    and "\<forall>r\<in>set rs. due x < r_now r \<and> r_now r \<le> due x + 2 ^ 31"
    and "\<forall>ev\<in>set (events_of rs). due x \<le> we_now ev + timer_delay w"
  shows "\<exists>w' ended. worker_loop cb rs w = Some (w', ended) \<and> w_runs w' = w_runs w \<and> pend w \<subseteq># pend w'"
  by (rule worker_loop_overdue [of w "due x"]) (use assms in \<open>auto simp: least_due_def\<close>)

text \<open>A SIGINT to the master alone stops nobody: the master goes on and sends SIGTERM to every worker
  that lives, and a worker that reads only the signals the master has sent goes on too.\<close>

theorem sigint_to_master_stops_nobody:
  assumes "master_inv ps s"
    and "worker_inv w" and "\<not> stop w" and "supplied (events_of rs) w"
    and "\<forall>r\<in>set rs. \<forall>e. r_res r = Wait_failed e \<longrightarrow> e = EINTR"
  shows "\<exists>s' log. master_signal (signal_handler SIGINT) s = Some s' \<and> m_log s' = m_log s @ log \<and>
    stop s' = stop s \<and> sub_process s' = sub_process s \<and>
    (\<forall>i. alive (sub_process s) i \<longrightarrow> A_kill (proc_pid (sub_process s ! i)) SIGTERM \<in> set log) \<and>
    ((\<forall>ev\<in>set (events_of rs). \<forall>bs. we_fd ev = fst (signal_pipefd w) \<and> we_recv ev = Recv_bytes bs \<longrightarrow>
        set bs \<subseteq> {signal_handler sig |sig. \<exists>p. A_kill p sig \<in> set log}) \<longrightarrow>
     (\<exists>w'. worker_loop cb rs w = Some (w', False)))"
proof -
  let ?log = "map (\<lambda>p. A_kill (proc_pid p) SIGTERM) (filter (\<lambda>p. proc_pid p \<noteq> -1) (sub_process s))"
  have n: "nat (process_num s) = length (sub_process s)" using assms(1) by (simp add: master_inv_def master_ok_def)
  have m: "master_signal (signal_handler SIGINT) s = Some (s\<lparr>m_log := m_log s @ ?log\<rparr>)"
    using kill_loop_eq [of 0 "length (sub_process s)" s] by (simp add: master_signal_def signal_handler_def n)
  have "A_kill (proc_pid (sub_process s ! i)) SIGTERM \<in> set ?log" if "alive (sub_process s) i" for i
    using that by (auto simp: alive_def)
  moreover have "\<exists>w'. worker_loop cb rs w = Some (w', False)"
    if hyp: "\<forall>ev\<in>set (events_of rs). \<forall>bs. we_fd ev = fst (signal_pipefd w) \<and> we_recv ev = Recv_bytes bs \<longrightarrow>
        set bs \<subseteq> {signal_handler sig |sig. \<exists>p. A_kill p sig \<in> set ?log}"
  proof -
    obtain w' ended where w': "worker_loop cb rs w = Some (w', ended)" "served cb rs w w' ended"
      using worker_loop_ok [OF assms(2,4)] by blast
    have "\<not> reads_sigint (signal_pipefd w) ev" if ev: "ev \<in> set (events_of rs)" for ev
    proof
      assume "reads_sigint (signal_pipefd w) ev"
      then obtain bs b where r: "we_fd ev = fst (signal_pipefd w)" "we_recv ev = Recv_bytes bs" "b \<in> set bs" "sint b = SIGINT"
        by (auto simp: reads_sigint_def)
      then have "b \<in> {signal_handler sig |sig. \<exists>p. A_kill p sig \<in> set ?log}" using hyp ev by blast
      then have "b = signal_handler SIGTERM" by auto
      then show False using r(4) by (simp add: signal_handler_def)
    qed
    then have "\<not> ended" using w'(2) assms(3,5) by (fastforce simp: served_def)
    then show ?thesis using w'(1) by simp
  qed
  ultimately show ?thesis using m by (intro exI [of _ "s\<lparr>m_log := m_log s @ ?log\<rparr>"] exI [of _ ?log]) simp
qed

section \<open>Witnesses\<close>

definition notice_ex :: "addr \<Rightarrow> int \<Rightarrow> w_event" where
  "notice_ex a t = \<lparr>we_fd = 11, we_in = True, we_recv = Recv_bytes [1, 0, 0, 0], we_accept = Some (20, 7),
     we_now = t, we_new = a, we_mem = \<lparr>sockfd = 0, address = 0, cd_buffer = \<lparr>xb_buf = 0, xb_size = 0, xb_len = 0\<rparr>\<rparr>\<rparr>"

definition sigterm_ex :: w_event where
  "sigterm_ex = (notice_ex 9 20)\<lparr>we_fd := 7, we_recv := Recv_bytes [signal_handler SIGTERM]\<rparr>"

definition worker_ex :: worker where
  "worker_ex = \<lparr>epollfd = 6, listenfd = 5, stop = False, process_num = 1, index = 0,
     sub_process = [\<lparr>proc_pid = 0, pipefd = (10, 11)\<rparr>], timer_manage = \<lparr>array = [2, 1, 3, 0], capacity_t = 4, cur_size = 3\<rparr>, timer_delay = 2, signal_pipefd = (7, 8),
     watched = [7, 11], handled_sigs = [SIGINT, SIGCHLD, SIGTERM], w_pipe = 11, w_timers = timers_ex, w_runs = [], w_closed = []\<rparr>"


lemma worker_ex_inv: "worker_inv worker_ex"
proof -
  have n: "[2, 1, 3, 0] ! i = [2, 1, 3 :: addr] ! i" if "i < 3" for i
    using that by (auto simp: numeral_3_eq_3 less_Suc_eq)
  have h: "heap_live timers_ex 3 [2, 1, 3]" "heap_from timers_ex 0 3 [2, 1, 3]" using th_ex_ok by (simp_all add: th_ok_def th_ex_def)
  have "heap_live timers_ex 3 [2, 1, 3, 0]" using h(1) n by (simp add: heap_live_def)
  moreover have "heap_from timers_ex 0 3 [2, 1, 3, 0]"
    unfolding heap_from_def
  proof (intro allI impI)
    fix i :: nat assume i: "0 < i" "i < 3"
    then have p: "(i - 1) div 2 < 3" by linarith
    have "due_at timers_ex ([2, 1, 3] ! ((i - 1) div 2)) \<le> due_at timers_ex ([2, 1, 3] ! i)"
      using h(2) i unfolding heap_from_def by blast
    then show "due_at timers_ex ([2, 1, 3, 0] ! ((i - 1) div 2)) \<le> due_at timers_ex ([2, 1, 3, 0] ! i)"
      by (simp only: n [OF p] n [OF i(2)])
  qed
  ultimately show ?thesis by (simp add: worker_inv_def worker_ex_def th_ok_def)
qed

lemma worker_timers_starve_witness:
  "\<exists>w' ended. worker_loop 4 [\<lparr>r_now = 12, r_res = Wait_events [], r_tick = 20\<rparr>, \<lparr>r_now = 20, r_res = Wait_events [sigterm_ex], r_tick = 20\<rparr>] worker_ex = Some (w', ended) \<and>
    w_runs w' = [] \<and> pend worker_ex \<subseteq># pend w'"
proof -
  let ?rs = "[\<lparr>r_now = 12, r_res = Wait_events [], r_tick = 20\<rparr>, \<lparr>r_now = 20, r_res = Wait_events [sigterm_ex], r_tick = 20\<rparr>]"
  let ?x = "(2, the (timers_ex 2))"
  have e: "events_of ?rs = [sigterm_ex]" by (simp add: events_of_def round_events_def)
  have p: "pend worker_ex = {#(2, the (timers_ex 2)), (1, the (timers_ex 1)), (3, the (timers_ex 3))#}"
    by (simp add: pend_def pending_def worker_ex_def held_def)
  have "supplied (events_of ?rs) worker_ex" unfolding e
    by (simp add: supplied_def sigterm_ex_def notice_ex_def worker_ex_def th_ex_def timers_ex_def)
  moreover have "?x \<in># pend worker_ex" "\<forall>y\<in>#pend worker_ex. due ?x \<le> due y"
    unfolding p by (simp_all add: due_def timers_ex_def timer_ex_def)
  moreover have "\<forall>r\<in>set ?rs. due ?x < r_now r \<and> r_now r \<le> due ?x + 2 ^ 31"
    "\<forall>ev\<in>set (events_of ?rs). due ?x \<le> we_now ev + timer_delay worker_ex"
    unfolding e by (simp_all add: due_def timers_ex_def timer_ex_def sigterm_ex_def notice_ex_def worker_ex_def)
  ultimately have "\<exists>w' ended. worker_loop 4 ?rs worker_ex = Some (w', ended) \<and> w_runs w' = w_runs worker_ex \<and> pend worker_ex \<subseteq># pend w'"
    by (rule worker_timers_starve [OF worker_ex_inv])
  then show ?thesis by (simp add: worker_ex_def)
qed

lemma sigint_to_master_stops_nobody_witness:
  "\<exists>s' w'. master_signal (signal_handler SIGINT) master_ex = Some s' \<and> \<not> stop s' \<and>
    worker_loop 4 [\<lparr>r_now = 1, r_res = Wait_events [sigterm_ex], r_tick = 1\<rparr>] worker_ex = Some (w', False)"
proof -
  let ?rs = "[\<lparr>r_now = 1, r_res = Wait_events [sigterm_ex], r_tick = 1\<rparr>]"
  have e: "events_of ?rs = [sigterm_ex]" by (simp add: events_of_def round_events_def)
  have h: "\<not> stop worker_ex" "supplied (events_of ?rs) worker_ex" "\<forall>r\<in>set ?rs. \<forall>e. r_res r = Wait_failed e \<longrightarrow> e = EINTR"
    unfolding e by (simp_all add: supplied_def sigterm_ex_def notice_ex_def worker_ex_def th_ex_def timers_ex_def)
  have s: "alive (sub_process master_ex) 0" "\<not> stop master_ex" by (simp_all add: fleet_ex_alive) (simp add: master_ex_def)
  obtain s' log where r: "master_signal (signal_handler SIGINT) master_ex = Some s'" "stop s' = stop master_ex"
    "A_kill (proc_pid (sub_process master_ex ! 0)) SIGTERM \<in> set log"
    "(\<forall>ev\<in>set (events_of ?rs). \<forall>bs. we_fd ev = fst (signal_pipefd worker_ex) \<and> we_recv ev = Recv_bytes bs \<longrightarrow>
        set bs \<subseteq> {signal_handler sig |sig. \<exists>p. A_kill p sig \<in> set log}) \<longrightarrow>
     (\<exists>w'. worker_loop 4 ?rs worker_ex = Some (w', False))"
    using sigint_to_master_stops_nobody [OF master_ex_inv worker_ex_inv h, of 4] s(1) by blast
  have "\<exists>w'. worker_loop 4 ?rs worker_ex = Some (w', False)"
    by (rule r(4) [THEN mp, unfolded e]) (use r(3) in \<open>auto simp: sigterm_ex_def\<close>)
  then show ?thesis using r(1,2) s(2) by auto
qed

end
