(* ===== verification/Server_Handover.thy ===== *)
theory Server_Handover
  imports Server_Worker Steps
begin

text \<open>
  The master and the workers of src/server_framework.h together: a connection arrives, epoll tells the
  master, the master sends a notice down the pipe of a worker, and the worker accepts a connection.  All
  descriptors are watched edge-triggered: there is one event for the listening socket, however many
  connections have arrived since the last one, and one for a pipe.  The steps are those of the master and of the workers as
  Server_Master and Server_Worker define them; the kernel keeps the connections and the pipes.
\<close>

section \<open>State\<close>

text \<open>The notices in the pipe of each worker, the connections that wait to be accepted, and whether epoll has an
  event for the listening socket and for the pipes.  As ghosts, all connections in the order in which they
  came, and those that were accepted, with the worker.\<close>

record server =
  sv_master :: master
  sv_worker :: "nat \<Rightarrow> worker"
  sv_pipe :: "nat \<Rightarrow> nat"
  sv_backlog :: "(int \<times> nat) list"
  sv_edge :: bool
  sv_pipe_edge :: "nat \<Rightarrow> bool"
  sv_arrived :: "(int \<times> nat) list"
  sv_accepted :: "(nat \<times> int \<times> nat) list"

definition sv_start :: "master \<Rightarrow> (nat \<Rightarrow> worker) \<Rightarrow> server" where
  "sv_start m ws = \<lparr>sv_master = m, sv_worker = ws, sv_pipe = \<lambda>_. 0, sv_backlog = [], sv_edge = False, sv_pipe_edge = \<lambda>_. False,
     sv_arrived = [], sv_accepted = []\<rparr>"

section \<open>Steps\<close>

text \<open>The notices among some actions of the master, to all workers and to worker i of ps.\<close>

fun is_notice :: "action \<Rightarrow> bool" where
  "is_notice (A_send fd v) = True"
| "is_notice _ = False"

definition notices_to :: "process list \<Rightarrow> nat \<Rightarrow> action list \<Rightarrow> nat" where
  "notices_to ps i log = (if i < length ps then count_list log (A_send (fst (pipefd (ps ! i))) 1) else 0)"

definition arrive :: "int \<times> nat \<Rightarrow> server \<Rightarrow> server" where
  "arrive c s = s\<lparr>sv_backlog := sv_backlog s @ [c], sv_arrived := sv_arrived s @ [c], sv_edge := True\<rparr>"

definition master_takes :: "process list \<Rightarrow> ep_event \<Rightarrow> server \<Rightarrow> server option" where
  "master_takes ps ev s =
     (let m = sv_master s; listen = (ev_fd ev = listenfd m)
      in if stop m \<or> listen \<and> \<not> sv_edge s then None
         else do {
           (m', go) \<leftarrow> master_event ev m;
           let new = drop (length (m_log m)) (m_log m');
           Some (s\<lparr>sv_master := m', sv_edge := sv_edge s \<and> \<not> listen,
             sv_pipe := (\<lambda>i. sv_pipe s i + notices_to ps i new),
             sv_pipe_edge := (\<lambda>i. sv_pipe_edge s i \<or> 0 < notices_to ps i new)\<rparr>)
         })"

text \<open>An event of the pipe of a worker, as the kernel answers recv and accept: a notice has the four bytes of
  an int.\<close>

definition pipe_event :: "server \<Rightarrow> nat \<Rightarrow> w_event \<Rightarrow> w_event" where
  "pipe_event s i ev = ev\<lparr>we_in := True,
     we_recv := (if sv_pipe s i = 0 then Recv_failed EAGAIN else Recv_bytes (le_bytes (1 :: u32))),
     we_accept := (case sv_backlog s of [] \<Rightarrow> None | c # _ \<Rightarrow> Some c)\<rparr>"

definition worker_takes :: "addr \<Rightarrow> nat \<Rightarrow> w_event \<Rightarrow> server \<Rightarrow> server option" where
  "worker_takes cb i ev s =
     (let w = sv_worker s i
      in if stop w then None
         else if we_fd ev = w_pipe w
         then (if \<not> sv_pipe_edge s i then None
               else do {
                 w \<leftarrow> worker_event cb (pipe_event s i ev) w;
                 Some (s\<lparr>sv_worker := (sv_worker s)(i := w), sv_pipe := (sv_pipe s)(i := sv_pipe s i - 1),
                   sv_pipe_edge := (sv_pipe_edge s)(i := False), sv_backlog := tl (sv_backlog s),
                   sv_accepted := sv_accepted s @ (case sv_backlog s of [] \<Rightarrow> [] | c # _ \<Rightarrow> [(i, c)])\<rparr>)
               })
         else do { w \<leftarrow> worker_event cb ev w; Some (s\<lparr>sv_worker := (sv_worker s)(i := w)\<rparr>) })"

text \<open>The timeout of a worker passes.\<close>

definition worker_ticks :: "int \<Rightarrow> nat \<Rightarrow> server \<Rightarrow> server option" where
  "worker_ticks now i s = do {
     let w = sv_worker s i;
     (st, th, cs) \<leftarrow> tick (w_timers w) (timer_manage w) now;
     Some (s\<lparr>sv_worker := (sv_worker s)(i := w\<lparr>w_timers := st, timer_manage := th, w_runs := w_runs w @ map (Pair now) cs\<rparr>)\<rparr>)
   }"

inductive sv_step :: "process list \<Rightarrow> addr \<Rightarrow> server \<Rightarrow> server \<Rightarrow> bool" for ps cb where
  sv_arrive: "sv_step ps cb s (arrive c s)"
| sv_master_takes: "master_takes ps ev s = Some s' \<Longrightarrow> sv_step ps cb s s'"
| sv_worker_takes: "worker_takes cb i ev s = Some s' \<Longrightarrow> sv_step ps cb s s'"
| sv_worker_ticks: "worker_ticks now i s = Some s' \<Longrightarrow> sv_step ps cb s s'"

inductive_cases sv_stepE: "sv_step ps cb s s'"

section \<open>What the master sends\<close>

definition silent :: "master \<Rightarrow> master \<Rightarrow> bool" where
  "silent s s' \<longleftrightarrow> (\<exists>new. m_log s' = m_log s @ new \<and> filter is_notice new = [])"

lemma silent_refl: "m_log s' = m_log s \<Longrightarrow> silent s s'"
  by (simp add: silent_def)

lemma silent_trans: "silent s s1 \<Longrightarrow> silent s1 s2 \<Longrightarrow> silent s s2"
  unfolding silent_def by force

lemma reap_loop_silent: "reap_loop pid i k s = Some s' \<Longrightarrow> silent s s'"
proof (induction k arbitrary: i s)
  case 0
  then show ?case by (simp add: silent_def)
next
  case (Suc k)
  then obtain p where p: "slot (sub_process s) i = Some p" by (auto split: bind_splits)
  let ?s = "if proc_pid p = pid then act (A_close (fst (pipefd p))) (s\<lparr>sub_process := (sub_process s)[nat i := p\<lparr>proc_pid := -1\<rparr>]\<rparr>) else s"
  have "reap_loop pid (i + 1) k ?s = Some s'" using Suc.prems p by simp
  then have "silent ?s s'" by (rule Suc.IH)
  moreover have "silent s ?s" by (simp add: silent_def act_def)
  ultimately show ?case by (rule silent_trans [rotated])
qed

lemma wait_loop_silent: "wait_loop pids s = Some s' \<Longrightarrow> silent s s'"
proof (induction pids arbitrary: s)
  case Nil
  then show ?case by (simp add: silent_def)
next
  case (Cons pid pids)
  show ?case
  proof (cases "pid > 0")
    case True
    then obtain s1 where "reap_loop pid 0 (nat (process_num s)) s = Some s1" "wait_loop pids s1 = Some s'"
      using Cons.prems by (auto split: bind_splits)
    then show ?thesis using reap_loop_silent Cons.IH silent_trans by blast
  next
    case False
    then show ?thesis using Cons.prems by (simp add: silent_def)
  qed
qed

lemma live_loop_silent: "live_loop i k s = Some s' \<Longrightarrow> m_log s' = m_log s"
proof (induction k arbitrary: i s)
  case (Suc k)
  then obtain p where p: "slot (sub_process s) i = Some p" by (auto split: bind_splits)
  let ?s = "if proc_pid p \<noteq> -1 then s\<lparr>stop := False\<rparr> else s"
  have "live_loop (i + 1) k ?s = Some s'" using Suc.prems p by simp
  then have "m_log s' = m_log ?s" by (rule Suc.IH)
  then show ?case by (simp split: if_splits)
qed simp

lemma kill_loop_silent: "kill_loop i k s = Some s' \<Longrightarrow> silent s s'"
proof (induction k arbitrary: i s)
  case 0
  then show ?case by (simp add: silent_def)
next
  case (Suc k)
  then obtain p where p: "slot (sub_process s) i = Some p" by (auto split: bind_splits)
  let ?s = "if proc_pid p \<noteq> -1 then act (A_kill (proc_pid p) SIGTERM) s else s"
  have "kill_loop (i + 1) k ?s = Some s'" using Suc.prems p by simp
  then have "silent ?s s'" by (rule Suc.IH)
  moreover have "silent s ?s" by (simp add: silent_def act_def)
  ultimately show ?case by (rule silent_trans [rotated])
qed

lemma master_signals_silent: "master_signals bs s = Some s' \<Longrightarrow> silent s s'"
proof (induction bs arbitrary: s)
  case Nil
  then show ?case by (simp add: silent_def)
next
  case (Cons b bs)
  then obtain s1 where s1: "master_signal b s = Some s1" "master_signals bs s1 = Some s'" by (auto split: bind_splits)
  have "silent s s1"
  proof (cases "sint b = SIGCHLD")
    case True
    then obtain s2 where s2: "wait_loop (zombies s) (s\<lparr>zombies := []\<rparr>) = Some s2"
      "live_loop 0 (nat (process_num s2)) (s2\<lparr>stop := True\<rparr>) = Some s1"
      using s1(1) by (auto simp: master_signal_def on_sigchld_def split: bind_splits)
    have "silent (s\<lparr>zombies := []\<rparr>) s2" using s2(1) by (rule wait_loop_silent)
    then show ?thesis using live_loop_silent [OF s2(2)] by (simp add: silent_def)
  next
    case False
    then show ?thesis using s1(1) kill_loop_silent silent_refl by (auto simp: master_signal_def split: if_splits)
  qed
  then show ?case using Cons.IH [OF s1(2)] silent_trans by blast
qed

lemma master_event_notices:
  assumes "master_event ev s = Some (s', go)"
  shows "\<exists>new. m_log s' = m_log s @ new \<and> length (filter is_notice new) \<le> (if ev_fd ev = listenfd s then 1 else 0)"
proof -
  let ?s = "s\<lparr>zombies := zombies s @ ev_dead ev\<rparr>"
  show ?thesis
  proof (cases "ev_fd ev = listenfd s")
    case True
    then have "dispatch ?s = Some (s', go)" using assms by (simp add: master_event_def Let_def)
    then show ?thesis using True by (auto simp: dispatch_def act_def split: bind_splits if_splits)
  next
    case False
    then have "silent ?s s'" using assms
      by (auto simp: master_event_def Let_def split: if_splits option.splits bind_splits intro: silent_refl master_signals_silent)
    then show ?thesis using False by (simp add: silent_def)
  qed
qed

section \<open>The invariant\<close>

definition conn_fds :: "nat \<Rightarrow> (nat \<times> int \<times> nat) list \<Rightarrow> int list" where
  "conn_fds i xs = map (fst \<circ> snd) (filter (\<lambda>x. fst x = i) xs)"

definition sv_inv :: "process list \<Rightarrow> (nat \<Rightarrow> worker) \<Rightarrow> server \<Rightarrow> bool" where
  "sv_inv ps ws s \<longleftrightarrow> map snd (sv_accepted s) @ sv_backlog s = sv_arrived s \<and>
     (\<forall>i. watched (sv_worker s i) = watched (ws i) @ conn_fds i (sv_accepted s)) \<and>
     (\<forall>i. length (conn_fds i (sv_accepted s)) + sv_pipe s i \<le> notices_to ps i (m_log (sv_master s))) \<and>
     (\<forall>i. sv_pipe_edge s i \<longrightarrow> 0 < sv_pipe s i) \<and>
     length (filter is_notice (m_log (sv_master s))) + of_bool (sv_edge s) \<le> length (sv_arrived s)"

lemma sv_inv_start: "m_log m = [] \<Longrightarrow> sv_inv ps ws (sv_start m ws)"
  by (simp add: sv_inv_def sv_start_def conn_fds_def notices_to_def)

lemma sv_inv_arrive: "sv_inv ps ws s \<Longrightarrow> sv_inv ps ws (arrive c s)"
  by (simp add: sv_inv_def arrive_def)

lemma sv_inv_master:
  assumes inv: "sv_inv ps ws s" and st: "master_takes ps ev s = Some s'"
  shows "sv_inv ps ws s'"
proof -
  let ?m = "sv_master s"
  obtain m' go where m': "master_event ev ?m = Some (m', go)" and e: "ev_fd ev = listenfd ?m \<Longrightarrow> sv_edge s"
    and s': "s' = s\<lparr>sv_master := m', sv_edge := sv_edge s \<and> ev_fd ev \<noteq> listenfd ?m,
       sv_pipe := (\<lambda>i. sv_pipe s i + notices_to ps i (drop (length (m_log ?m)) (m_log m'))),
       sv_pipe_edge := (\<lambda>i. sv_pipe_edge s i \<or> 0 < notices_to ps i (drop (length (m_log ?m)) (m_log m')))\<rparr>"
    using st by (auto simp: master_takes_def Let_def split: if_splits bind_splits)
  obtain new where new: "m_log m' = m_log ?m @ new" "length (filter is_notice new) \<le> (if ev_fd ev = listenfd ?m then 1 else 0)"
    using master_event_notices [OF m'] by blast
  have "length (filter is_notice (m_log m')) + of_bool (sv_edge s') \<le> length (sv_arrived s)"
    using inv new(2) e by (auto simp: sv_inv_def s' new(1) split: if_splits)
  moreover have "notices_to ps i (m_log m') = notices_to ps i (m_log ?m) + notices_to ps i new" for i
    by (simp add: notices_to_def new(1))
  ultimately show ?thesis using inv by (auto simp: sv_inv_def s' new(1) add.assoc [symmetric])
qed

lemma worker_signals_watched: "watched (worker_signals bs w) = watched w"
  by (induction bs arbitrary: w) (simp_all add: worker_signal_def)

lemma worker_accept_watched:
  "worker_accept cb ev w = Some w' \<Longrightarrow> watched w' = watched w @ (case we_accept ev of None \<Rightarrow> [] | Some c \<Rightarrow> [fst c])"
  by (auto simp: worker_accept_def set_fd_def Let_def split: option.splits bind_splits)

lemma worker_event_watched: "we_fd ev \<noteq> w_pipe w \<Longrightarrow> worker_event cb ev w = Some w' \<Longrightarrow> watched w' = watched w"
  by (auto simp: worker_event_def worker_signals_watched split: if_splits recv_result.splits)

lemma pipe_event_watched:
  assumes "we_fd ev = w_pipe w" and "worker_event cb (pipe_event s i ev) w = Some w'"
  shows "watched w' = watched w @ (case sv_backlog s of [] \<Rightarrow> [] | c # _ \<Rightarrow> [fst c])"
proof -
  have "worker_event cb (pipe_event s i ev) w = worker_accept cb (pipe_event s i ev) w"
    using assms(1) by (simp add: worker_event_def pipe_event_def le_bytes_def)
  then have "worker_accept cb (pipe_event s i ev) w = Some w'" using assms(2) by simp
  from worker_accept_watched [OF this] show ?thesis by (simp add: pipe_event_def split: list.splits)
qed

lemma sv_inv_worker:
  assumes inv: "sv_inv ps ws s" and st: "worker_takes cb i ev s = Some s'"
  shows "sv_inv ps ws s'"
proof (cases "we_fd ev = w_pipe (sv_worker s i)")
  case False
  then obtain w where "worker_event cb ev (sv_worker s i) = Some w" "s' = s\<lparr>sv_worker := (sv_worker s)(i := w)\<rparr>"
    using st by (auto simp: worker_takes_def Let_def split: if_splits bind_splits)
  then show ?thesis using inv worker_event_watched [OF False] by (simp add: sv_inv_def)
next
  case True
  then obtain w where w: "worker_event cb (pipe_event s i ev) (sv_worker s i) = Some w" and e: "sv_pipe_edge s i"
    and s': "s' = s\<lparr>sv_worker := (sv_worker s)(i := w), sv_pipe := (sv_pipe s)(i := sv_pipe s i - 1),
       sv_pipe_edge := (sv_pipe_edge s)(i := False), sv_backlog := tl (sv_backlog s),
       sv_accepted := sv_accepted s @ (case sv_backlog s of [] \<Rightarrow> [] | c # _ \<Rightarrow> [(i, c)])\<rparr>"
    using st by (auto simp: worker_takes_def Let_def split: if_splits bind_splits)
  have p: "0 < sv_pipe s i" using inv e by (simp add: sv_inv_def)
  note wd = pipe_event_watched [OF True w]
  have "length (conn_fds i (sv_accepted s)) + sv_pipe s i \<le> notices_to ps i (m_log (sv_master s))" using inv by (simp add: sv_inv_def)
  then have n: "length (conn_fds i (sv_accepted s')) + (sv_pipe s i - 1) \<le> notices_to ps i (m_log (sv_master s))"
    using p by (cases "sv_backlog s") (auto simp: s' conn_fds_def)
  have o: "conn_fds j (sv_accepted s') = conn_fds j (sv_accepted s)" if "j \<noteq> i" for j
    using that by (simp add: s' conn_fds_def split: list.splits)
  have "map snd (sv_accepted s') @ sv_backlog s' = sv_arrived s'" using inv by (cases "sv_backlog s") (simp_all add: sv_inv_def s')
  moreover have "watched (sv_worker s' j) = watched (ws j) @ conn_fds j (sv_accepted s')" for j
  proof (cases "j = i")
    case True
    then show ?thesis using inv wd by (simp add: sv_inv_def s' conn_fds_def split: list.splits)
  next
    case False
    then show ?thesis using inv o [OF False] by (simp add: sv_inv_def s')
  qed
  moreover have "length (conn_fds j (sv_accepted s')) + sv_pipe s' j \<le> notices_to ps j (m_log (sv_master s'))" for j
    using inv n o by (cases "j = i") (simp_all add: sv_inv_def s')
  ultimately show ?thesis using inv by (simp add: sv_inv_def s')
qed

lemma sv_inv_tick: "sv_inv ps ws s \<Longrightarrow> worker_ticks now i s = Some s' \<Longrightarrow> sv_inv ps ws s'"
  by (auto simp: worker_ticks_def sv_inv_def Let_def split: bind_splits)

lemma sv_step_inv: "sv_inv ps ws s \<Longrightarrow> sv_step ps cb s s' \<Longrightarrow> sv_inv ps ws s'"
  by (erule sv_stepE) (auto intro: sv_inv_arrive sv_inv_master sv_inv_worker sv_inv_tick)

interpretation handover: invariant_system "sv_start m ws" "sv_step ps cb" "\<lambda>s. m_log m = [] \<longrightarrow> sv_inv ps ws s" for m ws ps cb
  by unfold_locales (auto intro: sv_inv_start sv_step_inv)

section \<open>Properties\<close>

text \<open>C10: over every run of the master and the workers, with connections, signals and deaths at any time, the
  connections are accepted in the order in which they came, each by one worker, and the others wait; a
  worker watches exactly the connections it has accepted, in their order; it accepts at most one for each
  notice that the master has sent it; and the master sends at most one notice for each connection.\<close>

theorem server_hands_over:
  assumes "m_log m = []" and "reach (sv_start m ws) (sv_step ps cb) s"
  shows "map snd (sv_accepted s) @ sv_backlog s = sv_arrived s \<and>
    (\<forall>i. watched (sv_worker s i) = watched (ws i) @ conn_fds i (sv_accepted s) \<and>
       length (conn_fds i (sv_accepted s)) \<le> notices_to ps i (m_log (sv_master s))) \<and>
    length (filter is_notice (m_log (sv_master s))) \<le> length (sv_arrived s)"
proof -
  have inv: "sv_inv ps ws s" using handover.reach_inv [OF assms(2)] assms(1) by blast
  have "length (conn_fds i (sv_accepted s)) \<le> notices_to ps i (m_log (sv_master s))" for i
    using inv unfolding sv_inv_def by (meson add_leD1)
  then show ?thesis using inv unfolding sv_inv_def by (auto dest: add_leD1)
qed

text \<open>What is not told to the master or a worker is not looked for.\<close>

definition sv_idle :: "server \<Rightarrow> bool" where
  "sv_idle s \<longleftrightarrow> \<not> sv_edge s \<and> (\<forall>i. \<not> sv_pipe_edge s i)"

lemma sv_idle_step:
  assumes "sv_idle s" and "sv_step ps cb s s'"
  shows "(\<exists>c. s' = arrive c s) \<or> sv_idle s' \<and> sv_backlog s' = sv_backlog s \<and> sv_accepted s' = sv_accepted s \<and> sv_arrived s' = sv_arrived s"
  using assms(2)
proof cases
  case (sv_master_takes ev)
  then obtain m' go where m': "master_event ev (sv_master s) = Some (m', go)" "ev_fd ev \<noteq> listenfd (sv_master s)"
    and s': "s' = s\<lparr>sv_master := m', sv_edge := sv_edge s \<and> ev_fd ev \<noteq> listenfd (sv_master s),
       sv_pipe := (\<lambda>i. sv_pipe s i + notices_to ps i (drop (length (m_log (sv_master s))) (m_log m'))),
       sv_pipe_edge := (\<lambda>i. sv_pipe_edge s i \<or> 0 < notices_to ps i (drop (length (m_log (sv_master s))) (m_log m')))\<rparr>"
    using assms(1) by (auto simp: master_takes_def sv_idle_def Let_def split: if_splits bind_splits)
  obtain new where new: "m_log m' = m_log (sv_master s) @ new" "filter is_notice new = []"
    using master_event_notices [OF m'(1)] m'(2) by auto
  have "notices_to ps i new = 0" for i
    using new(2) by (auto simp: notices_to_def count_list_0_iff filter_empty_conv)
  then show ?thesis using assms(1) by (simp add: s' new(1) sv_idle_def)
next
  case (sv_worker_takes i ev)
  then show ?thesis using assms(1)
    by (auto simp: worker_takes_def sv_idle_def Let_def split: if_splits bind_splits)
next
  case (sv_worker_ticks now i)
  then show ?thesis using assms(1) by (auto simp: worker_ticks_def sv_idle_def Let_def split: bind_splits)
qed blast

lemma sv_step_arrived: "sv_step ps cb s s' \<Longrightarrow> \<exists>xs. sv_arrived s' = sv_arrived s @ xs"
  by (erule sv_stepE)
    (auto simp: arrive_def master_takes_def worker_takes_def worker_ticks_def Let_def split: if_splits bind_splits)


section \<open>Two connections and one event\<close>

text \<open>One worker; two connections arrive before the master is told.\<close>

definition two_ps :: "process list" where
  "two_ps = [\<lparr>proc_pid = 100, pipefd = (20, 21)\<rparr>]"

definition two_frame :: server_framework where
  "two_frame = \<lparr>epollfd = 3, listenfd = 4, stop = False, process_num = 1, index = -1, sub_process = two_ps,
     timer_manage = \<lparr>array = replicate 4 0, capacity_t = 4, cur_size = 0\<rparr>, timer_delay = 2, signal_pipefd = (5, 6),
     watched = [], handled_sigs = []\<rparr>"

definition two_master :: master where
  "two_master = master_start two_frame"

definition two_worker :: worker where
  "two_worker = (worker_start (two_frame\<lparr>index := 0\<rparr>) (\<lambda>_. None))\<lparr>w_pipe := 21, watched := [21]\<rparr>"

definition two_waiting :: server where
  "two_waiting = arrive (31, 8) (arrive (30, 7) (sv_start two_master (\<lambda>_. two_worker)))"

definition two_told :: "server option" where
  "two_told = master_takes two_ps \<lparr>ev_fd = 4, ev_in = True, ev_recv = None, ev_dead = []\<rparr> two_waiting"

definition two_event :: w_event where
  "two_event = \<lparr>we_fd = 21, we_in = True, we_recv = Recv_failed EAGAIN, we_accept = None, we_now = 50, we_new = 9,
     we_mem = \<lparr>sockfd = 0, address = 0, cd_buffer = \<lparr>xb_buf = 0, xb_size = 0, xb_len = 0\<rparr>\<rparr>\<rparr>"

definition two_done :: "server option" where
  "two_done = Option.bind two_told (worker_takes 77 0 two_event)"

lemma two_told_eq: "two_told = Some (two_waiting\<lparr>sv_master := (act (A_send 20 1) (two_master\<lparr>sub_process_counter := 0\<rparr>)),
    sv_edge := False, sv_pipe := (\<lambda>i. notices_to two_ps i [A_send 20 1]),
    sv_pipe_edge := (\<lambda>i. 0 < notices_to two_ps i [A_send 20 1])\<rparr>)"
proof -
  have r: "rr_loop two_ps 1 0 0 = Some 0" by (subst rr_loop.simps) (simp add: two_ps_def slot_def)
  show ?thesis
    using r unfolding two_told_def two_waiting_def two_master_def master_start_def two_frame_def
    by (simp add: master_takes_def arrive_def sv_start_def master_event_def dispatch_def server_framework.defs act_def Let_def slot_def two_ps_def)
qed

lemma two_done_eq: "\<exists>s. two_done = Some s \<and> sv_accepted s = [(0, 30, 7)] \<and> sv_backlog s = [(31, 8)] \<and> \<not> sv_edge s \<and>
    (\<forall>i. \<not> sv_pipe_edge s i)"
proof -
  have n: "notices_to two_ps i [A_send 20 1] = of_bool (i = 0)" for i
    by (auto simp: notices_to_def two_ps_def)
  show ?thesis
    unfolding two_done_def two_told_eq
    by (simp add: n worker_takes_def two_waiting_def two_event_def arrive_def sv_start_def two_worker_def worker_start_def
      two_frame_def server_framework.defs pipe_event_def worker_event_def le_bytes_def worker_accept_def set_fd_def
      heap_timer_new_def add_timer_def arr_set_def Let_def)
qed

lemma two_done_reach:
  assumes "two_done = Some s"
  shows "reach (sv_start two_master (\<lambda>_. two_worker)) (sv_step two_ps 77) s"
proof -
  obtain s1 where s1: "two_told = Some s1" "worker_takes 77 0 two_event s1 = Some s"
    using assms by (auto simp: two_done_def split: bind_splits)
  have "sv_step two_ps 77 two_waiting s1" using s1(1) unfolding two_told_def by (rule sv_step.sv_master_takes)
  moreover have "sv_step two_ps 77 s1 s" using s1(2) by (rule sv_step.sv_worker_takes)
  moreover have "reach (sv_start two_master (\<lambda>_. two_worker)) (sv_step two_ps 77) two_waiting"
    unfolding two_waiting_def by (rule reach_step, rule reach_step, rule reach_init, (rule sv_step.sv_arrive)+)
  ultimately show ?thesis by (blast intro: reach_step)
qed

lemma server_hands_over_witness:
  "\<exists>s. two_done = Some s \<and> map snd (sv_accepted s) @ sv_backlog s = [(30, 7), (31, 8)] \<and> watched (sv_worker s 0) = [21, 30]"
proof -
  obtain s where s: "two_done = Some s" "sv_accepted s = [(0, 30, 7)]" "sv_backlog s = [(31, 8)]" using two_done_eq by blast
  have "m_log two_master = []" by (simp add: two_master_def master_start_def server_framework.defs)
  from server_hands_over [OF this two_done_reach [OF s(1)]]
  have "watched (sv_worker s 0) = watched two_worker @ conn_fds 0 (sv_accepted s)"
    "map snd (sv_accepted s) @ sv_backlog s = sv_arrived s" by blast+
  then have "watched (sv_worker s 0) = [21, 30]" by (simp add: s(2) conn_fds_def two_worker_def)
  moreover have "map snd (sv_accepted s) @ sv_backlog s = [(30, 7), (31, 8)]" by (simp add: s(2,3))
  ultimately show ?thesis using s(1) by blast
qed


section \<open>One connection at a time\<close>

text \<open>Each connection comes with the event of the worker that accepts it; the master is told, and then the worker
  whose turn it is, before the next connection arrives.\<close>

definition listen_event :: "master \<Rightarrow> ep_event" where
  "listen_event m = \<lparr>ev_fd = listenfd m, ev_in = True, ev_recv = None, ev_dead = []\<rparr>"

definition serve_one :: "process list \<Rightarrow> addr \<Rightarrow> (int \<times> nat) \<times> w_event \<Rightarrow> server \<Rightarrow> server option" where
  "serve_one ps cb x s = do {
     let i = hd (turn_order (sv_master s));
     s \<leftarrow> master_takes ps (listen_event (sv_master s)) (arrive (fst x) s);
     worker_takes cb i ((snd x)\<lparr>we_fd := w_pipe (sv_worker s i)\<rparr>) s
   }"

fun serve_each :: "process list \<Rightarrow> addr \<Rightarrow> ((int \<times> nat) \<times> w_event) list \<Rightarrow> server \<Rightarrow> server option" where
  "serve_each ps cb [] s = Some s"
| "serve_each ps cb (x # xs) s = do { s \<leftarrow> serve_one ps cb x s; serve_each ps cb xs s }"

lemma serve_one_steps: "serve_one ps cb x s = Some s' \<Longrightarrow> (sv_step ps cb)\<^sup>*\<^sup>* s s'"
proof -
  assume "serve_one ps cb x s = Some s'"
  then obtain s1 ev i where 1: "master_takes ps (listen_event (sv_master s)) (arrive (fst x) s) = Some s1"
    "worker_takes cb i ev s1 = Some s'"
    by (auto simp: serve_one_def Let_def split: bind_splits)
  show ?thesis
    by (rule rtranclp.rtrancl_into_rtrancl [OF rtranclp.rtrancl_into_rtrancl [OF r_into_rtranclp]])
      (rule sv_arrive, rule sv_master_takes, rule 1(1), rule sv_worker_takes, rule 1(2))
qed

lemma serve_each_steps: "serve_each ps cb xs s = Some s' \<Longrightarrow> (sv_step ps cb)\<^sup>*\<^sup>* s s'"
proof (induction xs arbitrary: s)
  case (Cons x xs)
  then obtain s1 where "serve_one ps cb x s = Some s1" "serve_each ps cb xs s1 = Some s'" by (auto split: bind_splits)
  then show ?case using Cons.IH serve_one_steps by (meson rtranclp_trans)
qed simp

definition worker_ready :: "w_event list \<Rightarrow> worker \<Rightarrow> bool" where
  "worker_ready evs w \<longleftrightarrow> worker_inv w \<and> \<not> stop w \<and> supplied evs w"

definition sv_ready :: "process list \<Rightarrow> w_event list \<Rightarrow> server \<Rightarrow> bool" where
  "sv_ready ps evs s \<longleftrightarrow> (let m = sv_master s in
     master_ok m \<and> \<not> stop m \<and> turn_order m \<noteq> [] \<and> length (sub_process m) = length ps \<and> distinct (map (fst \<circ> pipefd) ps) \<and>
     (\<forall>i. alive (sub_process m) i \<longrightarrow> pipefd (sub_process m ! i) = pipefd (ps ! i) \<and> worker_ready evs (sv_worker s i)) \<and>
     sv_backlog s = [] \<and> (\<forall>i. sv_pipe s i = 0))"

lemma worker_accept_keeps: "worker_accept cb ev w = Some w' \<Longrightarrow> stop w' = stop w"
  by (auto simp: worker_accept_def set_fd_def Let_def split: option.splits bind_splits)

lemma supplied_new: "we_new ev' = we_new ev \<Longrightarrow> supplied (ev' # evs) w = supplied (ev # evs) w"
  by (simp add: supplied_def)

lemma worker_ready_tl: "worker_ready (ev # evs) w \<Longrightarrow> worker_ready evs w"
  by (simp add: worker_ready_def supplied_def)

lemma worker_accept_ready:
  assumes "worker_ready (ev # evs) w" and "we_new ev' = we_new ev"
  shows "\<exists>w'. worker_accept cb ev' w = Some w' \<and> worker_ready evs w'"
proof -
  have "worker_inv w" "supplied (ev' # evs) w"
    using assms(1) supplied_new [OF assms(2), of evs w] by (simp_all add: worker_ready_def)
  from worker_accept_ok [OF this] obtain w' where w': "worker_accept cb ev' w = Some w'" "handled cb [ev'] evs w w'" by blast
  then show ?thesis using worker_accept_keeps [OF w'(1)] assms(1) by (auto simp: worker_ready_def handled_def)
qed

lemma notices_to_one:
  assumes "distinct (map (fst \<circ> pipefd) ps)" and "i < length ps"
  shows "notices_to ps j [A_send (fst (pipefd (ps ! i))) 1] = of_bool (j = i)"
proof (cases "j < length ps")
  case True
  have "map (fst \<circ> pipefd) ps ! i = map (fst \<circ> pipefd) ps ! j \<longleftrightarrow> i = j"
    by (rule nth_eq_iff_index_eq [OF assms(1)]) (simp_all add: assms(2) True)
  then have e: "fst (pipefd (ps ! i)) = fst (pipefd (ps ! j)) \<longleftrightarrow> i = j" using True assms(2) by simp
  show ?thesis using True e by (cases "i = j") (simp_all add: notices_to_def)
qed (use assms(2) in \<open>auto simp: notices_to_def\<close>)

lemma serve_one_ok:
  assumes r: "sv_ready ps (snd x # evs) s"
  shows "\<exists>s'. serve_one ps cb x s = Some s' \<and> sv_ready ps evs s' \<and>
    turn_order (sv_master s') = rotate1 (turn_order (sv_master s)) \<and>
    alive (sub_process (sv_master s')) = alive (sub_process (sv_master s)) \<and>
    sv_accepted s' = sv_accepted s @ [(hd (turn_order (sv_master s)), fst x)]"
proof -
  let ?m = "sv_master s"
  let ?i = "hd (turn_order ?m)"
  have m: "master_ok ?m" "\<not> stop ?m" "turn_order ?m \<noteq> []" "length (sub_process ?m) = length ps" "distinct (map (fst \<circ> pipefd) ps)"
    "sv_backlog s = []" "\<And>i. sv_pipe s i = 0"
    and w: "\<And>i. alive (sub_process ?m) i \<Longrightarrow> pipefd (sub_process ?m ! i) = pipefd (ps ! i) \<and> worker_ready (snd x # evs) (sv_worker s i)"
    using r by (auto simp: sv_ready_def Let_def)
  obtain m' where m': "dispatches ?m ?i m'" "master_ok m'" "turn_order m' = rotate1 (turn_order ?m)"
    using dispatch_first [OF m(1,3)] by blast
  then obtain c where c: "alive (sub_process ?m) ?i" "m' = act (A_send (fst (pipefd (sub_process ?m ! ?i))) 1) (?m\<lparr>sub_process_counter := c\<rparr>)"
    "dispatch ?m = Some (m', True)" by (auto simp: dispatches_def)
  have i: "?i < length ps" using c(1) m(4) by (simp add: alive_def)
  let ?n = "[A_send (fst (pipefd (ps ! ?i))) 1]"
  have log: "m_log m' = m_log ?m @ ?n" "sub_process m' = sub_process ?m" "stop m' = stop ?m"
    using c(2) w [OF c(1)] by (simp_all add: act_def)
  define s1 where "s1 = (arrive (fst x) s)\<lparr>sv_master := m', sv_edge := False, sv_pipe := (\<lambda>j. of_bool (j = ?i)),
    sv_pipe_edge := (\<lambda>j. sv_pipe_edge s j \<or> j = ?i)\<rparr>"
  have "master_takes ps (listen_event ?m) (arrive (fst x) s) = Some s1"
    using m(2,7) c(3) log notices_to_one [OF m(5) i]
    by (simp add: master_takes_def arrive_def master_event_def listen_event_def Let_def s1_def)
  moreover have s1: "sv_worker s1 = sv_worker s" "sv_backlog s1 = [fst x]" "sv_pipe s1 ?i = 1" "sv_pipe_edge s1 ?i"
    using m(6) by (simp_all add: s1_def arrive_def)
  let ?w = "sv_worker s ?i"
  let ?ev = "(snd x)\<lparr>we_fd := w_pipe ?w\<rparr>"
  obtain w' where w': "worker_accept cb (pipe_event s1 ?i ?ev) ?w = Some w'" "worker_ready evs w'"
    using worker_accept_ready [of "snd x" evs ?w "pipe_event s1 ?i ?ev"] w [OF c(1)] by (auto simp: pipe_event_def)
  have "worker_event cb (pipe_event s1 ?i ?ev) ?w = Some w'"
    using w'(1) s1(3) by (simp add: worker_event_def pipe_event_def le_bytes_def)
  then have "worker_takes cb ?i ?ev s1 = Some (s1\<lparr>sv_worker := (sv_worker s)(?i := w'), sv_pipe := (\<lambda>_. 0),
      sv_pipe_edge := (sv_pipe_edge s1)(?i := False), sv_backlog := [], sv_accepted := sv_accepted s @ [(?i, fst x)]\<rparr>)"
    (is "_ = Some ?s'")
    using s1 w [OF c(1)] by (auto simp: worker_takes_def Let_def worker_ready_def s1_def arrive_def fun_eq_iff)
  ultimately have "serve_one ps cb x s = Some ?s'" by (simp add: serve_one_def Let_def s1(1))
  moreover have "worker_ready evs (sv_worker s j)" if "alive (sub_process ?m) j" for j
    using w [OF that] worker_ready_tl by blast
  then have "sv_ready ps evs ?s'"
    using m m' log w w'(2) by (auto simp: sv_ready_def Let_def s1_def)
  ultimately show ?thesis using m'(3) log by (intro exI [of _ ?s']) (simp add: s1_def)
qed



end
