(* ===== verification/Server_Reply.thy ===== *)
theory Server_Reply
  imports Time_Heap
begin

text \<open>
  What the callback of a timer in src/server_framework.h does for its connection: it reads a request into
  a static buffer, and sends a file or the rows of a query back from a static buffer.  The socket, the
  file and the data base are arguments; sending is a log.  None is an access outside a buffer, a string
  without its terminator that is read past its buffer, or a use of a null pointer.
\<close>

section \<open>Strings in buffers\<close>

abbreviation BUFF :: nat where "BUFF \<equiv> 2048"

type_synonym reply_log = "(int \<times> byte list) list"

definition c_str :: "byte list \<Rightarrow> byte list option" where
  "c_str buf = (if 0 \<in> set buf then Some (takeWhile (\<lambda>b. b \<noteq> 0) buf) else None)"

definition strcat :: "byte list \<Rightarrow> byte list \<Rightarrow> byte list option" where
  "strcat buf s = do {
     d \<leftarrow> c_str buf;
     if length d + length s + 1 \<le> length buf then Some (d @ s @ 0 # drop (length d + length s + 1) buf) else None
   }"

definition ascii :: "string \<Rightarrow> byte list" where
  "ascii s = map (\<lambda>c. of_char c) s"

definition lower :: "byte \<Rightarrow> byte" where
  "lower b = (if 65 \<le> b \<and> b \<le> 90 then b + 32 else b)"

text \<open>strncasecmp over n bytes of two strings: whether they differ.\<close>

fun strncase_differ :: "byte list \<Rightarrow> byte list \<Rightarrow> nat \<Rightarrow> bool" where
  "strncase_differ (a # as) (b # bs) (Suc n) =
     (if lower a \<noteq> lower b then True else if a = 0 then False else strncase_differ as bs n)"
| "strncase_differ _ _ _ = False"

section \<open>The query\<close>

text \<open>A column is NULL or a string.\<close>

fun column_loop :: "byte list option list \<Rightarrow> byte list \<Rightarrow> byte list option" where
  "column_loop [] msg = Some msg"
| "column_loop (c # cs) msg = do {
     s \<leftarrow> c;
     msg \<leftarrow> strcat msg s;
     msg \<leftarrow> strcat msg (ascii '' | '');
     column_loop cs msg
   }"

fun row_loop :: "byte list option list list \<Rightarrow> byte list \<Rightarrow> byte list option" where
  "row_loop [] msg = Some msg"
| "row_loop (row # rows) msg = do {
     msg \<leftarrow> column_loop row msg;
     msg \<leftarrow> strcat msg (ascii [CHR 0x0A]);
     row_loop rows msg
   }"

record mysql =
  my_connect :: bool
  my_charset :: bool
  my_query :: "byte list \<Rightarrow> byte list option list list option"

text \<open>The result: the buffer, what is sent, and whether the connection to the data base is closed.\<close>

definition Interface_For_Mysql :: "mysql \<Rightarrow> byte list option \<Rightarrow> int \<Rightarrow> byte list \<Rightarrow>
    (byte list \<times> reply_log \<times> bool) option" where
  "Interface_For_Mysql db search_line sock msg =
     (if \<not> my_connect db then Some (msg, [], False)
      else if \<not> my_charset db then Some (msg, [], False)
      else case search_line of
        None \<Rightarrow> Some (msg, [], False)
      | Some q \<Rightarrow>
          (case my_query db q of
             None \<Rightarrow> Some (msg, [], False)
           | Some rows \<Rightarrow> do {
               msg \<leftarrow> row_loop rows msg;
               Some (msg, [(sock, msg)], True)
             }))"

section \<open>The callback\<close>

text \<open>
  request is what recv reads, None for an error; file is the contents of msg.txt, None when it cannot be
  opened.  The result: msg, user_buffer and what is sent.
\<close>

definition callback_reply :: "mysql \<Rightarrow> byte list option \<Rightarrow> byte list option \<Rightarrow> cli_data \<Rightarrow> byte list \<Rightarrow>
    (byte list \<times> byte list \<times> reply_log) option" where
  "callback_reply db file request ud msg =
     (let user_buffer = replicate BUFF 0
      in case request of
        None \<Rightarrow> Some (msg, user_buffer, [])
      | Some bs \<Rightarrow>
          (let user_buffer = take BUFF bs @ drop (length bs) user_buffer
           in if strncase_differ user_buffer (ascii ''FIRST'') 5
              then do {
                line \<leftarrow> c_str user_buffer;
                (msg, sent, closed) \<leftarrow> Interface_For_Mysql db (Some line) (sockfd ud) (replicate BUFF 0);
                Some (msg, user_buffer, sent)
              }
              else (let user_buffer = (case file of
                          None \<Rightarrow> user_buffer
                        | Some text \<Rightarrow> take BUFF text @ drop (length text) user_buffer)
                    in Some (msg, user_buffer, [(sockfd ud, user_buffer)]))))"

section \<open>Building the reply\<close>

definition reply_row :: "byte list option list \<Rightarrow> byte list" where
  "reply_row row = concat (map (\<lambda>c. the c @ ascii '' | '') row) @ ascii [CHR 0x0A]"

definition reply_text :: "byte list option list list \<Rightarrow> byte list" where
  "reply_text rows = concat (map reply_row rows)"

text \<open>A buffer that holds a string, and zeros after it.\<close>

definition holds :: "byte list \<Rightarrow> byte list \<Rightarrow> bool" where
  "holds buf s \<longleftrightarrow> 0 \<notin> set s \<and> length s < BUFF \<and> buf = s @ replicate (BUFF - length s) 0"

lemma holds_c_str: "holds buf s \<Longrightarrow> c_str buf = Some s"
  by (auto simp: holds_def c_str_def takeWhile_append)

lemma strcat_holds:
  assumes "holds buf s" and "0 \<notin> set t"
  shows "strcat buf t = (if length s + length t < BUFF then Some ((s @ t) @ replicate (BUFF - length (s @ t)) 0) else None)"
    and "length s + length t < BUFF \<Longrightarrow> holds ((s @ t) @ replicate (BUFF - length (s @ t)) 0) (s @ t)"
proof -
  have len: "length buf = BUFF" using assms(1) by (simp add: holds_def)
  have d: "0 # drop (length s + length t + 1) buf = replicate (BUFF - length (s @ t)) 0" if "length s + length t < BUFF"
  proof -
    have "drop (length s + length t + 1) buf = replicate (BUFF - length s - (length t + 1)) 0"
      using assms(1) by (simp add: holds_def)
    moreover have "BUFF - length (s @ t) = Suc (BUFF - length s - (length t + 1))" using that by simp
    ultimately show ?thesis by simp
  qed
  show "strcat buf t = (if length s + length t < BUFF then Some ((s @ t) @ replicate (BUFF - length (s @ t)) 0) else None)"
    using d holds_c_str [OF assms(1)] by (simp add: strcat_def len Suc_le_eq)
  show "length s + length t < BUFF \<Longrightarrow> holds ((s @ t) @ replicate (BUFF - length (s @ t)) 0) (s @ t)"
    using assms by (simp add: holds_def)
qed

definition row_ok :: "byte list option list \<Rightarrow> bool" where
  "row_ok row \<longleftrightarrow> (\<forall>c\<in>set row. c \<noteq> None)"

definition row_clean :: "byte list option list \<Rightarrow> bool" where
  "row_clean row \<longleftrightarrow> (\<forall>s. Some s \<in> set row \<longrightarrow> 0 \<notin> set s)"

lemma ascii_nz: "0 \<notin> set (ascii '' | '')" "0 \<notin> set (ascii [CHR 0x0A])" "length (ascii '' | '') = 3" "length (ascii [CHR 0x0A]) = 1"
  by (simp_all add: ascii_def)

lemma column_loop_eq:
  assumes "holds buf s" and "row_clean row"
  shows "column_loop row buf =
    (let t = s @ concat (map (\<lambda>c. the c @ ascii '' | '') row)
     in if row_ok row \<and> length t < BUFF then Some (t @ replicate (BUFF - length t) 0) else None)"
  using assms
proof (induction row arbitrary: buf s)
  case Nil
  then show ?case by (simp add: holds_def row_ok_def)
next
  case (Cons c row)
  show ?case
  proof (cases c)
    case None
    then show ?thesis by (simp add: row_ok_def)
  next
    case (Some v)
    have v: "0 \<notin> set v" "row_clean row" using Cons.prems(2) Some by (auto simp: row_clean_def)
    show ?thesis
    proof (cases "length s + length v + 3 < BUFF")
      case True
      let ?b1 = "(s @ v) @ replicate (BUFF - length (s @ v)) 0"
      let ?b2 = "((s @ v) @ ascii '' | '') @ replicate (BUFF - length ((s @ v) @ ascii '' | '')) 0"
      have 1: "strcat buf v = Some ?b1" "holds ?b1 (s @ v)" using strcat_holds [OF Cons.prems(1) v(1)] True by simp_all
      have 2: "strcat ?b1 (ascii '' | '') = Some ?b2" "holds ?b2 ((s @ v) @ ascii '' | '')"
        using strcat_holds [OF 1(2) ascii_nz(1)] True by (simp_all add: ascii_nz)
      have "column_loop (c # row) buf = column_loop row ?b2" using Some 1(1) 2(1) by simp
      then show ?thesis using Cons.IH [OF 2(2) v(2)] Some by (simp add: row_ok_def Let_def)
    next
      case False
      have "column_loop (c # row) buf = None"
        using strcat_holds [OF Cons.prems(1) v(1)] strcat_holds(1) [OF _ ascii_nz(1), of _ "s @ v"] False Some
        by (auto simp: ascii_nz)
      then show ?thesis using False Some by (simp add: Let_def ascii_nz)
    qed
  qed
qed

lemma row_loop_eq:
  assumes "holds buf s" and "\<forall>row\<in>set rows. row_clean row"
  shows "row_loop rows buf =
    (let t = s @ reply_text rows
     in if (\<forall>row\<in>set rows. row_ok row) \<and> length t < BUFF then Some (t @ replicate (BUFF - length t) 0) else None)"
  using assms
proof (induction rows arbitrary: buf s)
  case Nil
  then show ?case by (simp add: holds_def reply_text_def)
next
  case (Cons row rows)
  let ?c = "concat (map (\<lambda>c. the c @ ascii '' | '') row)"
  have cl: "row_clean row" "\<forall>row\<in>set rows. row_clean row" using Cons.prems(2) by auto
  note col = column_loop_eq [OF Cons.prems(1) cl(1)]
  have len: "length (reply_text (row # rows)) = length ?c + 1 + length (reply_text rows)"
    by (simp add: reply_text_def reply_row_def ascii_nz)
  show ?case
  proof (cases "row_ok row \<and> length s + length ?c + 1 < BUFF")
    case True
    let ?b1 = "(s @ ?c) @ replicate (BUFF - length (s @ ?c)) 0"
    let ?b2 = "((s @ ?c) @ ascii [CHR 0x0A]) @ replicate (BUFF - length ((s @ ?c) @ ascii [CHR 0x0A])) 0"
    have nz: "0 \<notin> set ?c" using cl(1) True ascii_nz(1) by (auto simp: row_clean_def row_ok_def)
    have 1: "column_loop row buf = Some ?b1" using col True by (simp add: Let_def)
    have h: "holds ?b1 (s @ ?c)" using Cons.prems(1) nz True by (auto simp: holds_def)
    have 2: "strcat ?b1 (ascii [CHR 0x0A]) = Some ?b2" "holds ?b2 ((s @ ?c) @ ascii [CHR 0x0A])"
      using strcat_holds [OF h ascii_nz(2)] True by (simp_all add: ascii_nz)
    have "row_loop (row # rows) buf = row_loop rows ?b2" using 1 2(1) by simp
    then show ?thesis using Cons.IH [OF 2(2) cl(2)] True by (simp add: Let_def reply_text_def reply_row_def)
  next
    case False
    have "row_loop (row # rows) buf = None"
    proof (cases "row_ok row \<and> length s + length ?c < BUFF")
      case True
      have nz: "0 \<notin> set ?c" using cl(1) True ascii_nz(1) by (auto simp: row_clean_def row_ok_def)
      have h: "holds ((s @ ?c) @ replicate (BUFF - length (s @ ?c)) 0) (s @ ?c)" using Cons.prems(1) nz True by (auto simp: holds_def)
      show ?thesis using col True False strcat_holds(1) [OF h ascii_nz(2)] by (simp add: Let_def ascii_nz)
    next
      case no: False
      then show ?thesis using col by (auto simp: Let_def)
    qed
    then show ?thesis using False len by (auto simp: Let_def)
  qed
qed

section \<open>Properties\<close>

lemma holds_zero: "holds (replicate BUFF 0) []"
  by (simp add: holds_def)

lemma row_loop_zero:
  assumes "\<forall>row\<in>set rows. row_clean row"
  shows "row_loop rows (replicate BUFF 0) =
    (if (\<forall>row\<in>set rows. row_ok row) \<and> length (reply_text rows) < BUFF
     then Some (reply_text rows @ replicate (BUFF - length (reply_text rows)) 0) else None)"
  using row_loop_eq [OF holds_zero assms] by (simp add: Let_def del: replicate.simps)

text \<open>C32: the callback answers a query with the rows and zeros up to 2048 bytes, exactly when no column is
  NULL, the rows take less than 2048 bytes, and the request leaves room for its terminator in the buffer;
  otherwise it runs out of a buffer or uses a null pointer.\<close>

theorem callback_query_reply:
  assumes "length bs \<le> BUFF" and "strncase_differ (bs @ replicate (BUFF - length bs) 0) (ascii ''FIRST'') 5"
    and "my_connect db" and "my_charset db"
    and "my_query db (takeWhile (\<lambda>b. b \<noteq> 0) bs) = Some rows" and "\<forall>row\<in>set rows. row_clean row"
  shows "callback_reply db file (Some bs) ud msg =
    (let buf = bs @ replicate (BUFF - length bs) 0;
         out = reply_text rows @ replicate (BUFF - length (reply_text rows)) 0
     in if (0 \<in> set bs \<or> length bs < BUFF) \<and> (\<forall>row\<in>set rows. row_ok row) \<and> length (reply_text rows) < BUFF
        then Some (out, buf, [(sockfd ud, out)]) else None)"
proof -
  let ?buf = "bs @ replicate (BUFF - length bs) 0"
  have b: "take BUFF bs @ drop (length bs) (replicate BUFF 0) = ?buf" using assms(1) by (simp del: replicate.simps)
  have t: "takeWhile (\<lambda>b. b \<noteq> 0) ?buf = takeWhile (\<lambda>b. b \<noteq> 0) bs"
  proof (cases "0 \<in> set bs")
    case True
    then show ?thesis by (simp del: replicate.simps)
  next
    case False
    have "takeWhile (\<lambda>b. b \<noteq> 0) (replicate k (0 :: byte)) = []" for k by (cases k) simp_all
    moreover have nz: "\<forall>x\<in>set bs. x \<noteq> 0" using False by auto
    then have "takeWhile (\<lambda>b. b \<noteq> 0) bs = bs" by (simp only: takeWhile_eq_all_conv)
    moreover have "takeWhile (\<lambda>b. b \<noteq> 0) (bs @ zs) = bs @ takeWhile (\<lambda>b. b \<noteq> 0) zs" for zs
      using nz by (intro takeWhile_append2) auto
    ultimately show ?thesis by (simp only: append_Nil2)
  qed
  have c: "c_str ?buf = (if 0 \<in> set bs \<or> length bs < BUFF then Some (takeWhile (\<lambda>b. b \<noteq> 0) bs) else None)"
    unfolding c_str_def t using assms(1) by (auto simp del: replicate.simps)
  show ?thesis
    unfolding callback_reply_def Let_def option.case b
    using assms(2-5) row_loop_zero [OF assms(6)]
    by (auto simp: c Interface_For_Mysql_def simp del: replicate.simps)
qed

lemma overwritten_nth: "length as \<le> i \<Longrightarrow> i < length bs \<Longrightarrow> length as \<le> n \<Longrightarrow> (take n as @ drop (length as) bs) ! i = bs ! i"
  by (simp add: nth_append)

text \<open>A request that begins with FIRST, in any case, is answered with 2048 bytes: the file, cut to the
  buffer, and behind it what the request had there; without a file the request comes back.\<close>

theorem callback_file_reply:
  assumes "length bs \<le> BUFF" and "\<not> strncase_differ (bs @ replicate (BUFF - length bs) 0) (ascii ''FIRST'') 5"
  shows "\<exists>reply. callback_reply db file (Some bs) ud msg = Some (msg, reply, [(sockfd ud, reply)]) \<and> length reply = BUFF \<and>
    (\<forall>i<BUFF. reply ! i =
      (if file \<noteq> None \<and> i < length (the file) then the file ! i else if i < length bs then bs ! i else 0))"
proof -
  let ?buf = "bs @ replicate (BUFF - length bs) 0"
  let ?reply = "case file of None \<Rightarrow> ?buf | Some text \<Rightarrow> take BUFF text @ drop (length text) ?buf"
  have b: "take BUFF bs @ drop (length bs) (replicate BUFF 0) = ?buf" using assms(1) by (simp del: replicate.simps)
  have len: "length ?buf = BUFF" using assms(1) by (simp del: replicate.simps)
  have nth: "?buf ! i = (if i < length bs then bs ! i else 0)" if "i < BUFF" for i
    using that assms(1) by (simp add: nth_append del: replicate.simps)
  have "callback_reply db file (Some bs) ud msg = Some (msg, ?reply, [(sockfd ud, ?reply)])"
    unfolding callback_reply_def Let_def option.case b using assms(2) by simp
  moreover have "length ?reply = BUFF" using len by (auto split: option.splits)
  moreover have "?reply ! i = (if file \<noteq> None \<and> i < length (the file) then the file ! i else if i < length bs then bs ! i else 0)"
    if i: "i < BUFF" for i
  proof (cases "file")
    case None
    then show ?thesis using nth [OF i] by simp
  next
    case (Some cont)
    show ?thesis
    proof (cases "i < length cont")
      case True
      then show ?thesis using Some i by (simp add: nth_append)
    next
      case False
      then have "(take BUFF cont @ drop (length cont) ?buf) ! i = ?buf ! i"
        using i len by (intro overwritten_nth) simp_all
      then show ?thesis using Some False nth [OF i] by simp
    qed
  qed
  ultimately show ?thesis by blast
qed

section \<open>Witnesses\<close>

lemma strncase_differ_append: "n \<le> length as \<Longrightarrow> strncase_differ (as @ cs) bs n = strncase_differ as bs n"
  by (induction as bs n rule: strncase_differ.induct) (auto simp: Suc_le_eq)

lemma five: "(5 :: nat) = Suc (Suc (Suc (Suc (Suc 0))))"
  by simp

definition db_ex :: mysql where
  "db_ex = \<lparr>my_connect = True, my_charset = True, my_query = (\<lambda>q. Some [[Some [65], Some [66, 67]], [Some [68]]])\<rparr>"

definition client_ex :: cli_data where
  "client_ex = \<lparr>sockfd = 20, address = 7, cd_buffer = \<lparr>xb_buf = 0, xb_size = 0, xb_len = 0\<rparr>\<rparr>"

lemma callback_query_reply_witness:
  "\<exists>out buf. callback_reply db_ex None (Some (ascii ''select'')) client_ex [] = Some (out, buf, [(20, out)]) \<and> length out = BUFF"
proof -
  have d: "strncase_differ (ascii ''select'' @ replicate (BUFF - length (ascii ''select'')) 0) (ascii ''FIRST'') 5"
    by (subst strncase_differ_append) (simp_all add: ascii_def lower_def five)
  have q: "my_query db_ex (takeWhile (\<lambda>b. b \<noteq> 0) (ascii ''select'')) = Some [[Some [65], Some [66, 67]], [Some [68]]]" by (simp add: db_ex_def)
  have l: "length (ascii ''select'') \<le> BUFF" "length (ascii ''select'') < BUFF" "my_connect db_ex" "my_charset db_ex" by (simp_all add: ascii_def db_ex_def)
  have c: "\<forall>row\<in>set [[Some [65], Some [66, 67]], [Some [68 :: byte]]]. row_clean row" by (auto simp: row_clean_def)
  have o: "\<forall>row\<in>set [[Some [65], Some [66, 67]], [Some [68 :: byte]]]. row_ok row" by (auto simp: row_ok_def)
  have t: "length (reply_text [[Some [65], Some [66, 67]], [Some [68 :: byte]]]) < BUFF" by (simp add: reply_text_def reply_row_def ascii_def)
  show ?thesis
    using callback_query_reply [OF l(1) d l(3,4) q c, of None client_ex "[]"] l(2) o t
    by (simp add: Let_def client_ex_def del: replicate.simps)
qed

lemma callback_file_reply_witness:
  "\<exists>reply. callback_reply db_ex (Some [65]) (Some (ascii ''firstly'')) client_ex [] = Some ([], reply, [(20, reply)]) \<and>
    length reply = BUFF \<and> reply ! 0 = 65 \<and> reply ! 1 = 105"
proof -
  have d: "\<not> strncase_differ (ascii ''firstly'' @ replicate (BUFF - length (ascii ''firstly'')) 0) (ascii ''FIRST'') 5"
    by (subst strncase_differ_append) (simp_all add: ascii_def lower_def five)
  have l: "length (ascii ''firstly'') \<le> BUFF" by (simp add: ascii_def)
  obtain reply where r: "callback_reply db_ex (Some [65]) (Some (ascii ''firstly'')) client_ex [] = Some ([], reply, [(sockfd client_ex, reply)])"
    "length reply = BUFF"
    "\<forall>i<BUFF. reply ! i = (if Some [65 :: byte] \<noteq> None \<and> i < length (the (Some [65 :: byte])) then the (Some [65]) ! i
       else if i < length (ascii ''firstly'') then ascii ''firstly'' ! i else 0)"
    using callback_file_reply [OF l d, of db_ex "Some [65]" client_ex "[]"] by (elim exE conjE) (rule that)
  have "reply ! 0 = 65" using r(3) [THEN spec, THEN mp, of 0] by simp
  moreover have "reply ! 1 = ascii ''firstly'' ! 1" using r(3) [THEN spec, THEN mp, of 1] by (simp add: ascii_def)
  moreover have "ascii ''firstly'' ! 1 = 105" by (simp add: ascii_def)
  moreover have "sockfd client_ex = 20" by (simp add: client_ex_def)
  ultimately show ?thesis using r(1,2) by metis
qed

end
