(* ===== verification/Cpp_Helpers.thy ===== *)
theory Cpp_Helpers
  imports Steps
begin

text \<open>
  The helper classes src/automic.h and src/singleton.h.  A value of automic_for_t is a word of any width, and
  each of its operations is one call of an atomic builtin and a computation of the caller's own.  The
  singleton is made under pthread_once, as a step relation over any number of threads; new gives a block
  that has not been in use.
\<close>

section \<open>Atomic values\<close>

text \<open>The builtins give the old value and the new one.\<close>

definition sync_val_compare_and_swap :: "'w::len word \<Rightarrow> 'w word \<Rightarrow> 'w word \<Rightarrow> 'w word \<times> 'w word" where
  "sync_val_compare_and_swap v old new = (v, if v = old then new else v)"

definition automic_for_t :: "'w::len word" where
  "automic_for_t = 0"

definition get_value :: "'w::len word \<Rightarrow> 'w word \<times> 'w word" where
  "get_value v = sync_val_compare_and_swap v 0 0"

definition add_with_x :: "'w::len word \<Rightarrow> 'w word \<Rightarrow> 'w word \<times> 'w word" where
  "add_with_x v x = (v, v + x)"

definition add_and_get :: "'w::len word \<Rightarrow> 'w word \<Rightarrow> 'w word \<times> 'w word" where
  "add_and_get v x = (let (r, v) = add_with_x v x in (r + x, v))"

definition get_and_set :: "'w::len word \<Rightarrow> 'w word \<Rightarrow> 'w word \<times> 'w word" where
  "get_and_set v n = (v, n)"

text \<open>Those without a result; increment_t is declared with one but has no return.\<close>

definition increment_t :: "'w::len word \<Rightarrow> 'w word" where
  "increment_t v = snd (add_and_get v 1)"

definition add :: "'w::len word \<Rightarrow> 'w word \<Rightarrow> 'w word" where
  "add v x = snd (add_with_x v x)"

definition increment :: "'w::len word \<Rightarrow> 'w word" where
  "increment v = increment_t v"

definition dcrement :: "'w::len word \<Rightarrow> 'w word" where
  "dcrement v = snd (add_and_get v (-1))"

section \<open>Calls of several threads\<close>

datatype 'w automic_op = Get | Add_and_get 'w | Add 'w | Increment | Dcrement

fun automic_call :: "'w::len word \<Rightarrow> 'w word automic_op \<Rightarrow> 'w word option \<times> 'w word" where
  "automic_call v Get = (let (r, v) = get_value v in (Some r, v))"
| "automic_call v (Add_and_get x) = (let (r, v) = add_and_get v x in (Some r, v))"
| "automic_call v (Add x) = (None, add v x)"
| "automic_call v Increment = (None, increment v)"
| "automic_call v Dcrement = (None, dcrement v)"

fun automic_run :: "'w::len word \<Rightarrow> (nat \<times> 'w word automic_op) list \<Rightarrow> (nat \<times> 'w word) list \<times> 'w word" where
  "automic_run v [] = ([], v)"
| "automic_run v ((t, p) # ps) =
     (let (r, v) = automic_call v p; (rs, v) = automic_run v ps
      in (case r of None \<Rightarrow> rs | Some r \<Rightarrow> (t, r) # rs, v))"

fun amount :: "'w::len word automic_op \<Rightarrow> 'w word" where
  "amount Get = 0"
| "amount (Add_and_get x) = x"
| "amount (Add x) = x"
| "amount Increment = 1"
| "amount Dcrement = -1"

fun answers :: "'w automic_op \<Rightarrow> bool" where
  "answers Get = True"
| "answers (Add_and_get x) = True"
| "answers _ = False"

lemma automic_call_eq: "automic_call v p = (if answers p then Some (v + amount p) else None, v + amount p)"
  by (cases p) (simp_all add: get_value_def sync_val_compare_and_swap_def add_and_get_def add_with_x_def add_def increment_def
      increment_t_def dcrement_def Let_def)

lemma automic_run_eq:
  "automic_run v ps = (map (\<lambda>i. (fst (ps ! i), v + (\<Sum>j \<le> i. amount (snd (ps ! j))))) (filter (\<lambda>i. answers (snd (ps ! i))) [0..<length ps]),
     v + (\<Sum>p \<leftarrow> ps. amount (snd p)))"
proof (induction ps arbitrary: v)
  case (Cons p ps)
  have s: "(\<Sum>j \<le> Suc i. amount (snd ((p # ps) ! j))) = amount (snd p) + (\<Sum>j \<le> i. amount (snd (ps ! j)))" for i
    by (subst sum.atMost_Suc_shift) simp
  have "map f (filter (\<lambda>i. answers (snd ((p # ps) ! i))) [0..<length (p # ps)]) =
      (if answers (snd p) then [f 0] else []) @ map (\<lambda>i. f (Suc i)) (filter (\<lambda>i. answers (snd (ps ! i))) [0..<length ps])" for f :: "nat \<Rightarrow> nat \<times> 'a word"
    by (simp add: upt_conv_Cons map_Suc_upt [symmetric] filter_map o_def del: upt_Suc)
  moreover obtain t q where p: "p = (t, q)" by (cases p)
  ultimately show ?case using Cons.IH [of "v + amount q"] s
    by (simp add: automic_call_eq add.assoc del: upt_Suc sum.atMost_Suc)
qed simp

section \<open>The singleton\<close>

datatype once = Once_init | Once_running nat | Once_done

datatype si_pc = Si_outside | Si_once | Si_new | Si_atexit | Si_return

text \<open>The static fields, where the threads are; as ghosts, the objects made, how often destory has been
  registered and what instance has returned to whom.\<close>

record singleton =
  m_once :: once
  m_value :: addr
  si_at :: "nat \<Rightarrow> si_pc"
  si_made :: "addr list"
  si_atexit :: nat
  si_returned :: "(nat \<times> addr) list"

definition singleton_start :: singleton where
  "singleton_start = \<lparr>m_once = Once_init, m_value = NULL, si_at = \<lambda>_. Si_outside, si_made = [], si_atexit = 0, si_returned = []\<rparr>"

definition si_goto :: "singleton \<Rightarrow> nat \<Rightarrow> si_pc \<Rightarrow> singleton" where
  "si_goto s t p = s\<lparr>si_at := (si_at s)(t := p)\<rparr>"

text \<open>The next step of thread t in instance; new gives a.  None while it waits in pthread_once, and for a null
  dereference.\<close>

definition instance_step :: "singleton \<Rightarrow> nat \<Rightarrow> addr \<Rightarrow> singleton option" where
  "instance_step s t a = (case si_at s t of
     Si_once \<Rightarrow> (case m_once s of
         Once_init \<Rightarrow> Some ((si_goto s t Si_new)\<lparr>m_once := Once_running t\<rparr>)
       | Once_running _ \<Rightarrow> None
       | Once_done \<Rightarrow> Some (si_goto s t Si_return))
   | Si_new \<Rightarrow> Some ((si_goto s t Si_atexit)\<lparr>m_value := a, si_made := a # si_made s\<rparr>)
   | Si_atexit \<Rightarrow> Some ((si_goto s t Si_return)\<lparr>si_atexit := si_atexit s + 1, m_once := Once_done\<rparr>)
   | Si_return \<Rightarrow> if m_value s = NULL then None
       else Some ((si_goto s t Si_outside)\<lparr>si_returned := (t, m_value s) # si_returned s\<rparr>)
   | Si_outside \<Rightarrow> None)"

inductive si_step :: "singleton \<Rightarrow> singleton \<Rightarrow> bool" where
  si_call: "si_at s t = Si_outside \<Longrightarrow> si_step s (si_goto s t Si_once)"
| si_in: "instance_step s t a = Some s' \<Longrightarrow> a \<noteq> NULL \<Longrightarrow> si_step s s'"

inductive_cases si_stepE: "si_step s s'"

text \<open>Who is where, by the state of the once control.\<close>

definition si_inv :: "singleton \<Rightarrow> bool" where
  "si_inv s \<longleftrightarrow> (case m_once s of
     Once_init \<Rightarrow> (\<forall>t. si_at s t \<in> {Si_outside, Si_once}) \<and> si_made s = [] \<and> si_atexit s = 0 \<and> si_returned s = []
   | Once_running u \<Rightarrow> (\<forall>t. t \<noteq> u \<longrightarrow> si_at s t \<in> {Si_outside, Si_once}) \<and> si_atexit s = 0 \<and> si_returned s = [] \<and>
       (si_at s u = Si_new \<and> si_made s = [] \<or> si_at s u = Si_atexit \<and> si_made s = [m_value s] \<and> m_value s \<noteq> NULL)
   | Once_done \<Rightarrow> (\<forall>t. si_at s t \<in> {Si_outside, Si_once, Si_return}) \<and> si_made s = [m_value s] \<and> m_value s \<noteq> NULL \<and>
       si_atexit s = 1 \<and> (\<forall>x \<in> set (si_returned s). snd x = m_value s))"

lemma si_inv_start: "si_inv singleton_start"
  by (simp add: si_inv_def singleton_start_def)

lemma si_inv_call:
  assumes i: "si_inv s" and t: "si_at s t = Si_outside"
  shows "si_inv (si_goto s t Si_once)"
proof (cases "m_once s")
  case (Once_running u)
  then have "u \<noteq> t" using i t by (auto simp: si_inv_def)
  then show ?thesis using i Once_running by (simp add: si_inv_def si_goto_def)
qed (use i in \<open>simp_all add: si_inv_def si_goto_def\<close>)

lemma si_inv_in:
  assumes i: "si_inv s" and st: "instance_step s t a = Some s'" and a: "a \<noteq> NULL"
  shows "si_inv s'"
proof (cases "m_once s")
  case Once_init
  then have "si_at s t = Si_outside \<or> si_at s t = Si_once" using i by (simp add: si_inv_def)
  then show ?thesis using i st Once_init by (elim disjE) (auto simp: si_inv_def instance_step_def si_goto_def)
next
  case (Once_running u)
  show ?thesis
  proof (cases "t = u")
    case True
    then show ?thesis using i st a Once_running by (auto simp: si_inv_def instance_step_def si_goto_def) metis
  next
    case False
    then have "si_at s t \<in> {Si_outside, Si_once}" using i Once_running by (simp add: si_inv_def)
    then show ?thesis using st Once_running by (auto simp: instance_step_def)
  qed
next
  case Once_done
  then have "si_at s t = Si_outside \<or> si_at s t = Si_once \<or> si_at s t = Si_return" using i by (simp add: si_inv_def)
  then show ?thesis using i st Once_done by (elim disjE) (auto simp: si_inv_def instance_step_def si_goto_def split: if_splits)
qed

lemma si_inv_step: "si_inv s \<Longrightarrow> si_step s s' \<Longrightarrow> si_inv s'"
  by (erule si_stepE) (auto intro: si_inv_call si_inv_in)

interpretation si: invariant_system singleton_start si_step si_inv
  by unfold_locales (auto intro: si_inv_start si_inv_step)

section \<open>Properties\<close>

text \<open>Whichever threads call instance, and however often, at most one object is made and one destory is
  registered, every call returns this object, never NULL, and no call is stuck: as long as one is under way
  there is a thread that can go on.\<close>

theorem singleton_one_instance:
  assumes "reach singleton_start si_step s"
  shows "length (si_made s) \<le> 1 \<and> si_atexit s \<le> 1 \<and>
    (\<forall>(t, a) \<in> set (si_returned s). a \<noteq> NULL \<and> si_made s = [a]) \<and>
    ((\<exists>t. si_at s t \<noteq> Si_outside) \<longrightarrow> (\<exists>t s'. instance_step s t 1 = Some s'))"
proof -
  have i: "si_inv s" by (rule si.reach_inv [OF assms])
  have "\<exists>u s'. instance_step s u 1 = Some s'" if t: "si_at s t \<noteq> Si_outside" for t
  proof (cases "m_once s")
    case Once_init
    then have "si_at s t = Si_once" using i t unfolding si_inv_def by auto
    then show ?thesis using Once_init by (intro exI [of _ t]) (simp add: instance_step_def)
  next
    case (Once_running u)
    then have "si_at s u = Si_new \<or> si_at s u = Si_atexit" using i by (auto simp: si_inv_def)
    then show ?thesis by (intro exI [of _ u]) (auto simp: instance_step_def)
  next
    case Once_done
    then have "si_at s t = Si_once \<or> si_at s t = Si_return" "m_value s \<noteq> NULL" using i t by (auto simp: si_inv_def)
    then show ?thesis using Once_done by (intro exI [of _ t]) (auto simp: instance_step_def)
  qed
  then show ?thesis using i by (auto simp: si_inv_def split: once.splits)
qed

text \<open>However the calls of several threads on an atomic value come after one another, each call that returns a
  value returns the sum of all amounts added up to and with it, and the value is the sum of all of them,
  modulo the width.\<close>

theorem automic_sums:
  "automic_run automic_for_t ps =
    (map (\<lambda>i. (fst (ps ! i), \<Sum>j \<le> i. amount (snd (ps ! j)))) (filter (\<lambda>i. answers (snd (ps ! i))) [0..<length ps]),
     \<Sum>p \<leftarrow> ps. amount (snd p))"
  by (simp add: automic_run_eq automic_for_t_def)

lemma singleton_one_instance_witness:
  "\<exists>s. si_at s 1 = Si_once \<and> si_at s 2 = Si_new \<and> length (si_made s) \<le> 1 \<and> (\<exists>t s'. instance_step s t 1 = Some s')"
proof -
  define s1 where "s1 = si_goto singleton_start 1 Si_once"
  define s2 where "s2 = si_goto s1 2 Si_once"
  define s3 where "s3 = (si_goto s2 2 Si_new)\<lparr>m_once := Once_running 2\<rparr>"
  have at: "si_at s3 1 = Si_once" "si_at s3 2 = Si_new" by (simp_all add: s3_def s2_def s1_def si_goto_def)
  have "si_step singleton_start s1" unfolding s1_def by (rule si_call) (simp add: singleton_start_def)
  moreover have "si_step s1 s2" unfolding s2_def by (rule si_call) (simp add: s1_def si_goto_def singleton_start_def)
  moreover have "instance_step s2 2 1 = Some s3"
    by (simp add: instance_step_def s3_def s2_def s1_def si_goto_def singleton_start_def)
  then have "si_step s2 s3" by (rule si_in) simp
  ultimately have "reach singleton_start si_step s3" by (metis reach_init reach_step)
  from singleton_one_instance [OF this] show ?thesis using at by (intro exI [of _ s3]) auto
qed

end
