(* ===== verification/Cpp_Sync.thy ===== *)
theory Cpp_Sync
  imports Steps
begin

text \<open>
  The classes src/mutex.h and src/condition.h: a mutex of the default kind, whose relocking by its owner
  blocks for ever, the guard that holds it for the time of a scope, and a condition that belongs to a
  mutex.  Any number of threads run guarded scopes, in which they wait and notify; a waiter can wake up
  for no reason.
\<close>

section \<open>Operations\<close>

record mutex_class =
  m_mutex :: "nat option"

record condition_class =
  m_cond :: "nat set"
  c_mutex :: mutex_class

definition mutex_lock_new :: mutex_class where
  "mutex_lock_new = \<lparr>m_mutex = None\<rparr>"

text \<open>None while the call blocks.\<close>

definition lock_mutex :: "mutex_class \<Rightarrow> nat \<Rightarrow> mutex_class option" where
  "lock_mutex m t = (case m_mutex m of None \<Rightarrow> Some (m\<lparr>m_mutex := Some t\<rparr>) | Some _ \<Rightarrow> None)"

text \<open>None for a mutex that the thread does not hold, which is undefined.\<close>

definition unlock_mutex :: "mutex_class \<Rightarrow> nat \<Rightarrow> mutex_class option" where
  "unlock_mutex m t = (if m_mutex m = Some t then Some (m\<lparr>m_mutex := None\<rparr>) else None)"

text \<open>The guard locks in its constructor and unlocks in its destructor.\<close>

definition guard_enter :: "mutex_class \<Rightarrow> nat \<Rightarrow> mutex_class option" where
  "guard_enter m t = lock_mutex m t"

definition guard_leave :: "mutex_class \<Rightarrow> nat \<Rightarrow> mutex_class option" where
  "guard_leave m t = unlock_mutex m t"

definition condition_new :: "mutex_class \<Rightarrow> condition_class" where
  "condition_new m = \<lparr>m_cond = {}, c_mutex = m\<rparr>"

text \<open>A wait gives the mutex back and joins the waiters; it returns, with the mutex, when the thread is none of
  them any more.\<close>

definition condition_wait_begin :: "condition_class \<Rightarrow> nat \<Rightarrow> condition_class option" where
  "condition_wait_begin c t = do { m \<leftarrow> unlock_mutex (c_mutex c) t; Some (c\<lparr>m_cond := insert t (m_cond c), c_mutex := m\<rparr>) }"

definition condition_wait_end :: "condition_class \<Rightarrow> nat \<Rightarrow> condition_class option" where
  "condition_wait_end c t = (if t \<in> m_cond c then None else do { m \<leftarrow> lock_mutex (c_mutex c) t; Some (c\<lparr>c_mutex := m\<rparr>) })"

text \<open>u is the waiter that the system chooses.\<close>

definition condition_notify :: "condition_class \<Rightarrow> nat \<Rightarrow> condition_class option" where
  "condition_notify c u =
     (if m_cond c = {} then Some c else if u \<in> m_cond c then Some (c\<lparr>m_cond := m_cond c - {u}\<rparr>) else None)"

definition condition_notifyAll :: "condition_class \<Rightarrow> condition_class" where
  "condition_notifyAll c = c\<lparr>m_cond := {}\<rparr>"

section \<open>Guarded scopes\<close>

datatype scope_pc = Sc_out | Sc_enter | Sc_in | Sc_wait | Sc_leave

record scope_state =
  sc_cond :: condition_class
  sc_at :: "nat \<Rightarrow> scope_pc"

definition scope_start :: scope_state where
  "scope_start = \<lparr>sc_cond = condition_new mutex_lock_new, sc_at = \<lambda>_. Sc_out\<rparr>"

definition sc_goto :: "scope_state \<Rightarrow> nat \<Rightarrow> condition_class \<Rightarrow> scope_pc \<Rightarrow> scope_state" where
  "sc_goto s t c p = s\<lparr>sc_cond := c, sc_at := (sc_at s)(t := p)\<rparr>"

text \<open>What a thread in a scope does is its program's choice.\<close>

datatype scope_choice = Ch_wait | Ch_notify nat | Ch_notifyAll | Ch_leave

definition scope_thread :: "scope_choice \<Rightarrow> scope_state \<Rightarrow> nat \<Rightarrow> scope_state option" where
  "scope_thread ch s t = (let c = sc_cond s in case sc_at s t of
     Sc_out \<Rightarrow> None
   | Sc_enter \<Rightarrow> do { m \<leftarrow> guard_enter (c_mutex c) t; Some (sc_goto s t (c\<lparr>c_mutex := m\<rparr>) Sc_in) }
   | Sc_in \<Rightarrow> (case ch of
         Ch_wait \<Rightarrow> do { c \<leftarrow> condition_wait_begin c t; Some (sc_goto s t c Sc_wait) }
       | Ch_notify u \<Rightarrow> do { c \<leftarrow> condition_notify c u; Some (sc_goto s t c Sc_in) }
       | Ch_notifyAll \<Rightarrow> Some (sc_goto s t (condition_notifyAll c) Sc_in)
       | Ch_leave \<Rightarrow> Some (sc_goto s t c Sc_leave))
   | Sc_wait \<Rightarrow> do { c \<leftarrow> condition_wait_end c t; Some (sc_goto s t c Sc_in) }
   | Sc_leave \<Rightarrow> do { m \<leftarrow> guard_leave (c_mutex c) t; Some (sc_goto s t (c\<lparr>c_mutex := m\<rparr>) Sc_out) })"

inductive scope_step :: "scope_state \<Rightarrow> scope_state \<Rightarrow> bool" where
  sc_begin: "sc_at s t = Sc_out \<Longrightarrow> scope_step s (sc_goto s t (sc_cond s) Sc_enter)"
| sc_run: "scope_thread ch s t = Some s' \<Longrightarrow> scope_step s s'"
| sc_spurious: "scope_step s (s\<lparr>sc_cond := (sc_cond s)\<lparr>m_cond := m_cond (sc_cond s) - {t}\<rparr>\<rparr>)"

inductive_cases scope_stepE: "scope_step s s'"

definition scope_inv :: "scope_state \<Rightarrow> bool" where
  "scope_inv s \<longleftrightarrow> (\<forall>t. m_mutex (c_mutex (sc_cond s)) = Some t \<longleftrightarrow> sc_at s t = Sc_in \<or> sc_at s t = Sc_leave) \<and>
     (\<forall>t \<in> m_cond (sc_cond s). sc_at s t = Sc_wait)"

lemmas scope_code = scope_thread_def guard_enter_def guard_leave_def lock_mutex_def unlock_mutex_def condition_wait_begin_def
  condition_wait_end_def condition_notify_def condition_notifyAll_def sc_goto_def Let_def

lemma scope_thread_inv:
  assumes inv: "scope_inv s" and st: "scope_thread ch s t = Some s'"
  shows "scope_inv s'"
proof -
  have own: "m_mutex (c_mutex (sc_cond s)) = Some u \<longleftrightarrow> sc_at s u = Sc_in \<or> sc_at s u = Sc_leave" for u
    using inv by (simp add: scope_inv_def)
  have w: "u \<in> m_cond (sc_cond s) \<Longrightarrow> sc_at s u = Sc_wait" for u using inv by (simp add: scope_inv_def)
  show ?thesis
  proof (cases "sc_at s t")
    case Sc_enter
    then have "m_mutex (c_mutex (sc_cond s)) = None" "t \<notin> m_cond (sc_cond s)" using st w by (auto simp: scope_code split: option.splits)
    then show ?thesis using st Sc_enter own w by (auto simp: scope_code scope_inv_def split: if_splits)
  next
    case Sc_in
    then have "m_mutex (c_mutex (sc_cond s)) = Some t" "t \<notin> m_cond (sc_cond s)" using own w by auto
    moreover have "sc_at s u \<noteq> Sc_in \<and> sc_at s u \<noteq> Sc_leave" if "u \<noteq> t" for u
      using that own [of u] calculation(1) by auto
    ultimately show ?thesis using st Sc_in own [of t] w
      by (cases ch) (auto simp: scope_code scope_inv_def split: if_splits)
  next
    case Sc_wait
    then have "m_mutex (c_mutex (sc_cond s)) = None" "t \<notin> m_cond (sc_cond s)" using st
      by (auto simp: scope_code split: option.splits if_splits)
    then show ?thesis using st Sc_wait own w by (auto simp: scope_code scope_inv_def split: if_splits)
  next
    case Sc_leave
    then have "m_mutex (c_mutex (sc_cond s)) = Some t" "t \<notin> m_cond (sc_cond s)" using own w by auto
    moreover have "sc_at s u \<noteq> Sc_in \<and> sc_at s u \<noteq> Sc_leave" if "u \<noteq> t" for u
      using that own [of u] calculation(1) by auto
    ultimately show ?thesis using st Sc_leave own [of t] w by (auto simp: scope_code scope_inv_def split: if_splits)
  qed (use st in \<open>simp add: scope_thread_def\<close>)
qed

lemma scope_step_inv: "scope_inv s \<Longrightarrow> scope_step s s' \<Longrightarrow> scope_inv s'"
proof (erule scope_stepE)
  fix t assume "scope_inv s" "s' = sc_goto s t (sc_cond s) Sc_enter" "sc_at s t = Sc_out"
  then show "scope_inv s'" by (auto simp: scope_inv_def sc_goto_def)
next
  fix u assume "scope_inv s" "s' = s\<lparr>sc_cond := (sc_cond s)\<lparr>m_cond := m_cond (sc_cond s) - {u}\<rparr>\<rparr>"
  then show "scope_inv s'" by (auto simp: scope_inv_def)
qed (rule scope_thread_inv)

interpretation scope: invariant_system scope_start scope_step scope_inv
  by unfold_locales (simp add: scope_inv_def scope_start_def condition_new_def mutex_lock_new_def, rule scope_step_inv)

section \<open>Properties\<close>

text \<open>Of the threads that run guarded scopes, waiting and notifying in them as they like, at most one is in a
  scope and not waiting; it holds the mutex, and the mutex is free when there is none; no guard and no wait
  ever releases a mutex that its thread does not hold; and as long as a thread is in a call, one can go on
  unless all of them wait for a notification.\<close>

theorem guarded_scopes_exclude:
  assumes "reach scope_start scope_step s"
  shows "(\<forall>t u. sc_at s t \<in> {Sc_in, Sc_leave} \<and> sc_at s u \<in> {Sc_in, Sc_leave} \<longrightarrow> t = u) \<and>
    (\<forall>t. m_mutex (c_mutex (sc_cond s)) = Some t \<longleftrightarrow> sc_at s t \<in> {Sc_in, Sc_leave}) \<and>
    (\<forall>t. sc_at s t = Sc_in \<longrightarrow> (\<exists>s'. scope_thread Ch_wait s t = Some s')) \<and>
    (\<forall>t. sc_at s t = Sc_leave \<longrightarrow> (\<exists>s'. scope_thread Ch_leave s t = Some s')) \<and>
    ((\<exists>t. sc_at s t \<noteq> Sc_out \<and> t \<notin> m_cond (sc_cond s)) \<longrightarrow> (\<exists>t s'. scope_thread Ch_leave s t = Some s'))"
proof -
  have "scope_inv s" by (rule scope.reach_inv [OF assms])
  then have own: "m_mutex (c_mutex (sc_cond s)) = Some t \<longleftrightarrow> sc_at s t = Sc_in \<or> sc_at s t = Sc_leave" for t
    by (simp add: scope_inv_def)
  have "t = u" if "sc_at s t \<in> {Sc_in, Sc_leave}" "sc_at s u \<in> {Sc_in, Sc_leave}" for t u
    using that own [of t] own [of u] by auto
  moreover have wait: "\<exists>s'. scope_thread Ch_wait s t = Some s'" if "sc_at s t = Sc_in" for t
    using that own [of t] by (simp add: scope_code)
  moreover have leave: "\<exists>s'. scope_thread Ch_leave s t = Some s'" if "sc_at s t = Sc_leave \<or> sc_at s t = Sc_in" for t
    using that own [of t] by (auto simp: scope_code)
  moreover have "\<exists>u s'. scope_thread Ch_leave s u = Some s'" if "sc_at s t \<noteq> Sc_out" "t \<notin> m_cond (sc_cond s)" for t
  proof (cases "m_mutex (c_mutex (sc_cond s))")
    case None
    then have "\<exists>s'. scope_thread Ch_leave s t = Some s'" using that own [of t] by (cases "sc_at s t") (auto simp: scope_code)
    then show ?thesis by blast
  next
    case (Some u)
    then show ?thesis using own [of u] leave by blast
  qed
  ultimately show ?thesis using own by auto
qed

text \<open>A thread that makes a guard of a mutex inside a scope of its own guard never gets on.\<close>

theorem guard_twice_blocks: "m_mutex m = Some t \<Longrightarrow> guard_enter m t = None"
  by (simp add: guard_enter_def lock_mutex_def)

lemma guarded_scopes_exclude_witness:
  "\<exists>s. sc_at s 1 = Sc_in \<and> sc_at s 2 = Sc_enter \<and> (\<exists>s'. scope_thread Ch_wait s 1 = Some s')"
proof -
  define s1 where "s1 = sc_goto scope_start 1 (sc_cond scope_start) Sc_enter"
  define s2 where "s2 = sc_goto s1 2 (sc_cond s1) Sc_enter"
  define s3 where "s3 = sc_goto s2 1 ((sc_cond s2)\<lparr>c_mutex := \<lparr>m_mutex = Some 1\<rparr>\<rparr>) Sc_in"
  note d = s3_def s2_def s1_def sc_goto_def scope_start_def condition_new_def mutex_lock_new_def
  have "scope_step scope_start s1" unfolding s1_def by (rule sc_begin) (simp add: scope_start_def)
  moreover have "scope_step s1 s2" unfolding s2_def by (rule sc_begin) (simp add: d)
  moreover have "scope_thread Ch_leave s2 1 = Some s3" by (simp add: scope_code d)
  then have "scope_step s2 s3" by (rule sc_run)
  ultimately have "reach scope_start scope_step s3" by (metis reach_init reach_step)
  from guarded_scopes_exclude [OF this] have "\<exists>s'. scope_thread Ch_wait s3 1 = Some s'" by (simp add: d)
  then show ?thesis by (intro exI [of _ s3]) (simp add: d)
qed

end
