(* ===== verification/Lockfree_Push.thy ===== *)
theory Lockfree_Push
  imports Lockfree_Queue Steps
begin

text \<open>
  The queue of src/lockfreeQueue/lockfreeQueue.c with any number of threads or processes: lock_fQueue_push and
  lock_fQueue_pop access by access.  Each read or write of a volatile field and each call of a builtin is
  one step; the accesses take place in one order (the builtins are full barriers, and the compiler keeps
  the volatile accesses in order; the plain copy of the data is to a unit that only its thread uses).
\<close>

section \<open>State\<close>

text \<open>Where a thread is.  Pu_ are the places in lock_fQueue_push: the unit to push, w the place of the unit in
  the block, old the tail that was read, p the unit the loop has got to, k the number of tries.  Po_ are
  those in lock_fQueue_pop.\<close>

datatype lf_pc =
  Lf_outside
| Pu_read_len "byte list" | Pu_cas_len "byte list" int
| Pu_read_tail "byte list" | Pu_cas_tail "byte list" int
| Pu_used "byte list" int | Pu_next "byte list" int | Pu_flag "byte list" int | Pu_copy "byte list" int
| Pu_read_ptail "byte list" int nat | Pu_chase "byte list" int int int nat | Pu_go_on "byte list" int int int nat
| Pu_cas_next "byte list" int int int nat | Pu_cas_ptail "byte list" int int | Pu_add_len "byte list"
| Po_read_len | Po_cas_len int | Po_read_head | Po_read_next int | Po_cas_head int int | Po_copy int
| Po_flag int | Po_sub

text \<open>As ghosts: the units that are linked, in order, each with the thread that pushed it and the bytes; for
  each thread what it has pushed and returned from; what calls of pop have returned.\<close>

record lf_state =
  lf_q :: lock_free_queue
  lf_at :: "nat \<Rightarrow> lf_pc"
  lf_list :: "(nat \<times> int \<times> byte list) list"
  lf_done :: "nat \<Rightarrow> byte list list"
  lf_pops :: "int list"

definition lf_goto :: "lf_state \<Rightarrow> nat \<Rightarrow> lf_pc \<Rightarrow> lf_state" where
  "lf_goto s t p = s\<lparr>lf_at := (lf_at s)(t := p)\<rparr>"

definition lf_mem :: "lf_state \<Rightarrow> lock_free_queue \<Rightarrow> lf_state" where
  "lf_mem s q = s\<lparr>lf_q := q\<rparr>"

section \<open>Push\<close>

text \<open>Reserving a place and taking a unit.\<close>

definition lf_push_slot :: "lf_state \<Rightarrow> nat \<Rightarrow> lf_state option" where
  "lf_push_slot s t = (let q = lf_q s; hd = q_head q in
     case lf_at s t of
       Pu_read_len b \<Rightarrow> Some (lf_goto s t (if w_len hd \<ge> max_unit_num hd then Lf_outside else Pu_cas_len b (w_len hd)))
     | Pu_cas_len b len \<Rightarrow>
         (let (ok, v) = compare_and_swap (w_len hd) len (wrap32 (len + 1))
          in Some (lf_mem (lf_goto s t (if ok then Pu_read_tail b else Pu_read_len b)) (q\<lparr>q_head := hd\<lparr>w_len := v\<rparr>\<rparr>)))
     | Pu_read_tail b \<Rightarrow> Some (lf_goto s t (Pu_cas_tail b (w_tail hd)))
     | Pu_cas_tail b old \<Rightarrow>
         (let n = wrap32 (max_unit_num hd + 1)
          in if n = 0 then None
             else let tail = old mod n;
                      (ok, v) = compare_and_swap (w_tail hd) old (tail + 1)
                  in Some (lf_mem (lf_goto s t (if ok then Pu_used b tail else Pu_read_tail b)) (q\<lparr>q_head := hd\<lparr>w_tail := v\<rparr>\<rparr>)))
     | Pu_used b w \<Rightarrow> do { u \<leftarrow> UNIT_HEAD q w; Some (lf_goto s t (if use_flag u \<noteq> 0 then Pu_read_tail b else Pu_next b w)) }
     | Pu_next b w \<Rightarrow> do { u \<leftarrow> UNIT_HEAD q w; Some (lf_mem (lf_goto s t (Pu_flag b w)) (unit_put q w (u\<lparr>u_next := LIST_END\<rparr>))) }
     | Pu_flag b w \<Rightarrow> do { u \<leftarrow> UNIT_HEAD q w; Some (lf_mem (lf_goto s t (Pu_copy b w)) (unit_put q w (u\<lparr>use_flag := 1\<rparr>))) }
     | Pu_copy b w \<Rightarrow> do {
         u \<leftarrow> UNIT_HEAD q w;
         bs \<leftarrow> mem_read 0 (nat (unit_size hd)) b;
         Some (lf_mem (lf_goto s t (Pu_read_ptail b w 0)) (unit_put q w (u\<lparr>u_data := bs\<rparr>)))
       }
     | _ \<Rightarrow> None)"

text \<open>Linking the unit.\<close>

definition lf_push_link :: "lf_state \<Rightarrow> nat \<Rightarrow> lf_state option" where
  "lf_push_link s t = (let q = lf_q s; hd = q_head q in
     case lf_at s t of
       Pu_read_ptail b w k \<Rightarrow>
         Some (lf_goto s t (if Suc k \<ge> 3 then Pu_chase b w (p_tail hd) (p_tail hd) (Suc k)
                            else Pu_cas_next b w (p_tail hd) (p_tail hd) (Suc k)))
     | Pu_chase b w old p k \<Rightarrow> do {
         u \<leftarrow> UNIT_HEAD q p;
         Some (lf_goto s t (if u_next u \<noteq> LIST_END then Pu_go_on b w old p k else Pu_cas_next b w old p k))
       }
     | Pu_go_on b w old p k \<Rightarrow> do { u \<leftarrow> UNIT_HEAD q p; Some (lf_goto s t (Pu_chase b w old (u_next u) k)) }
     | Pu_cas_next b w old p k \<Rightarrow> do {
         u \<leftarrow> UNIT_HEAD q p;
         let (ok, v) = compare_and_swap (u_next u) LIST_END w;
         let s' = lf_mem (lf_goto s t (if ok then Pu_cas_ptail b w old else Pu_read_ptail b w k)) (unit_put q p (u\<lparr>u_next := v\<rparr>));
         Some (if ok then s'\<lparr>lf_list := lf_list s @ [(t, w, b)]\<rparr> else s')
       }
     | Pu_cas_ptail b w old \<Rightarrow>
         Some (lf_mem (lf_goto s t (Pu_add_len b)) (q\<lparr>q_head := hd\<lparr>p_tail := snd (compare_and_swap (p_tail hd) old w)\<rparr>\<rparr>))
     | Pu_add_len b \<Rightarrow>
         Some ((lf_mem (lf_goto s t Lf_outside) (q\<lparr>q_head := hd\<lparr>r_len := wrap32 (r_len hd + 1)\<rparr>\<rparr>))
                 \<lparr>lf_done := (lf_done s)(t := lf_done s t @ [b])\<rparr>)
     | _ \<Rightarrow> None)"

section \<open>Pop\<close>

definition lf_pop :: "lf_state \<Rightarrow> nat \<Rightarrow> lf_state option" where
  "lf_pop s t = (let q = lf_q s; hd = q_head q in
     case lf_at s t of
       Po_read_len \<Rightarrow>
         Some (if r_len hd \<ge> 0 then (lf_goto s t Lf_outside)\<lparr>lf_pops := lf_pops s @ [-1]\<rparr> else lf_goto s t (Po_cas_len (r_len hd)))
     | Po_cas_len len \<Rightarrow>
         (let (ok, v) = compare_and_swap (r_len hd) len (wrap32 (len - 1))
          in Some (lf_mem (lf_goto s t (if ok then Po_read_head else Po_read_len)) (q\<lparr>q_head := hd\<lparr>r_len := v\<rparr>\<rparr>)))
     | Po_read_head \<Rightarrow> Some (lf_goto s t (Po_read_next (p_head hd)))
     | Po_read_next h \<Rightarrow> do { u \<leftarrow> UNIT_HEAD q h; Some (lf_goto s t (Po_cas_head h (u_next u))) }
     | Po_cas_head h n \<Rightarrow>
         (let (ok, v) = compare_and_swap (p_head hd) h n
          in Some (lf_mem (lf_goto s t (if ok then Po_copy h else Po_read_head)) (q\<lparr>q_head := hd\<lparr>p_head := v\<rparr>\<rparr>)))
     | Po_copy h \<Rightarrow> do { u \<leftarrow> UNIT_HEAD q h; d \<leftarrow> UNIT_HEAD q (u_next u); Some (lf_goto s t (Po_flag h)) }
     | Po_flag h \<Rightarrow> do {
         u \<leftarrow> UNIT_HEAD q h;
         d \<leftarrow> UNIT_HEAD q (u_next u);
         Some (lf_mem (lf_goto s t Po_sub) (unit_put q (u_next u) (d\<lparr>use_flag := 0\<rparr>)))
       }
     | Po_sub \<Rightarrow>
         Some ((lf_mem (lf_goto s t Lf_outside) (q\<lparr>q_head := hd\<lparr>w_len := wrap32 (w_len hd - 1)\<rparr>\<rparr>))\<lparr>lf_pops := lf_pops s @ [0]\<rparr>)
     | _ \<Rightarrow> None)"

section \<open>The threads\<close>

text \<open>The next step of thread t; None when it is in no call, and for an access outside the block.\<close>

definition lf_thread :: "lf_state \<Rightarrow> nat \<Rightarrow> lf_state option" where
  "lf_thread s t = (case lf_push_slot s t of Some s' \<Rightarrow> Some s'
     | None \<Rightarrow> (case lf_push_link s t of Some s' \<Rightarrow> Some s' | None \<Rightarrow> lf_pop s t))"

inductive lf_step :: "lf_state \<Rightarrow> lf_state \<Rightarrow> bool" where
  lf_call_push: "lf_at s t = Lf_outside \<Longrightarrow> int (length b) = unit_size (q_head (lf_q s)) \<Longrightarrow> lf_step s (lf_goto s t (Pu_read_len b))"
| lf_call_pop: "lf_at s t = Lf_outside \<Longrightarrow> lf_step s (lf_goto s t Po_read_len)"
| lf_in: "lf_thread s t = Some s' \<Longrightarrow> lf_step s s'"

inductive_cases lf_stepE: "lf_step s s'"

text \<open>A queue that lock_fQueue_init has made, with room for its units.\<close>

definition lf_new :: "lock_free_queue \<Rightarrow> bool" where
  "lf_new q \<longleftrightarrow> (let hd = q_head q in
     0 < unit_size hd \<and> 0 < max_unit_num hd \<and> max_unit_num hd < 2 ^ 31 - 1 \<and>
     (\<forall>i. -1 \<le> i \<and> i < max_unit_num hd \<longrightarrow> in_block q i) \<and>
     w_len hd = 0 \<and> w_tail hd = 0 \<and> r_len hd = 0 \<and> p_tail hd = LIST_END \<and>
     u_next (q_units q LIST_END) = LIST_END \<and> (\<forall>i\<ge>0. use_flag (q_units q i) = 0))"

definition lf_start :: "lock_free_queue \<Rightarrow> lf_state" where
  "lf_start q = \<lparr>lf_q = q, lf_at = \<lambda>_. Lf_outside, lf_list = [], lf_done = \<lambda>_. [], lf_pops = []\<rparr>"


section \<open>Who is where\<close>

text \<open>The unit a thread has taken and not linked yet; the bytes it has linked and not returned from; whether it has
  reserved a place and not linked a unit.\<close>

fun lf_unlinked :: "lf_pc \<Rightarrow> int option" where
  "lf_unlinked (Pu_used b w) = Some w"
| "lf_unlinked (Pu_next b w) = Some w"
| "lf_unlinked (Pu_flag b w) = Some w"
| "lf_unlinked (Pu_copy b w) = Some w"
| "lf_unlinked (Pu_read_ptail b w k) = Some w"
| "lf_unlinked (Pu_chase b w old p k) = Some w"
| "lf_unlinked (Pu_go_on b w old p k) = Some w"
| "lf_unlinked (Pu_cas_next b w old p k) = Some w"
| "lf_unlinked _ = None"

fun lf_linked :: "lf_pc \<Rightarrow> byte list option" where
  "lf_linked (Pu_cas_ptail b w old) = Some b"
| "lf_linked (Pu_add_len b) = Some b"
| "lf_linked _ = None"

fun lf_waits :: "lf_pc \<Rightarrow> bool" where
  "lf_waits (Pu_read_tail b) = True"
| "lf_waits (Pu_cas_tail b old) = True"
| "lf_waits _ = False"

definition lf_reserved :: "lf_pc \<Rightarrow> bool" where
  "lf_reserved p \<longleftrightarrow> lf_waits p \<or> lf_unlinked p \<noteq> None"

text \<open>The number of threads at certain places.\<close>

definition lf_count :: "(lf_pc \<Rightarrow> bool) \<Rightarrow> (nat \<Rightarrow> lf_pc) \<Rightarrow> int" where
  "lf_count P f = int (card {t. P (f t)})"

lemma lf_count_upd:
  assumes "finite {t. f t \<noteq> Lf_outside}" and "\<not> P Lf_outside"
  shows "lf_count P (f(t := p)) = lf_count P f + of_bool (P p) - of_bool (P (f t))"
proof -
  have "{t. P (f t)} \<subseteq> {t. f t \<noteq> Lf_outside}" using assms(2) by force
  then have fin: "finite {t. P (f t)}" using assms(1) finite_subset by blast
  have e: "{x. P ((f(t := p)) x)} = (if P p then insert t {x. P (f x)} else {x. P (f x)} - {t})" by auto
  show ?thesis
  proof (cases "P (f t)")
    case True
    then have "t \<in> {x. P (f x)}" by simp
    then have "card {x. P (f x)} = Suc (card ({x. P (f x)} - {t}))" using fin by (metis card_Suc_Diff1)
    then show ?thesis using True fin unfolding lf_count_def e by (simp add: insert_absorb)
  next
    case False
    then show ?thesis using fin unfolding lf_count_def e by simp
  qed
qed

lemma lf_count_less:
  assumes "finite {t. f t \<noteq> Lf_outside}" and "lf_waits (f t)"
  shows "lf_count (\<lambda>p. lf_unlinked p \<noteq> None) f < lf_count lf_reserved f"
proof -
  have "lf_unlinked (f t) = None" using assms(2) by (cases "f t") auto
  then have "t \<in> {t. lf_reserved (f t)} - {t. lf_unlinked (f t) \<noteq> None}" using assms(2) by (simp add: lf_reserved_def)
  moreover have "{t. lf_unlinked (f t) \<noteq> None} \<subseteq> {t. lf_reserved (f t)}" by (auto simp: lf_reserved_def)
  ultimately have sub: "{t. lf_unlinked (f t) \<noteq> None} \<subset> {t. lf_reserved (f t)}" by blast
  have "{t. lf_reserved (f t)} \<subseteq> {t. f t \<noteq> Lf_outside}" by (auto simp: lf_reserved_def)
  then have "finite {t. lf_reserved (f t)}" using assms(1) finite_subset by blast
  then show ?thesis using sub unfolding lf_count_def by (simp add: psubset_card_mono)
qed

lemma lf_count_0 [simp]: "0 \<le> lf_count P f"
  by (simp add: lf_count_def)

section \<open>The list of units\<close>

fun lf_chain :: "(int \<Rightarrow> unit_head) \<Rightarrow> int \<Rightarrow> int list \<Rightarrow> bool" where
  "lf_chain u i [] \<longleftrightarrow> u_next (u i) = LIST_END"
| "lf_chain u i (j # js) \<longleftrightarrow> u_next (u i) = j \<and> j \<noteq> LIST_END \<and> lf_chain u j js"

lemma lf_chain_cong: "(\<And>j. j \<in> set (i # js) \<Longrightarrow> u_next (u' j) = u_next (u j)) \<Longrightarrow> lf_chain u' i js = lf_chain u i js"
  by (induction js arbitrary: i) auto

lemma lf_chain_next: "lf_chain u i js \<Longrightarrow> p \<in> set (i # js) \<Longrightarrow> u_next (u p) \<noteq> LIST_END \<Longrightarrow> u_next (u p) \<in> set js"
  by (induction js arbitrary: i) auto

lemma lf_chain_snoc:
  "lf_chain u i js \<Longrightarrow> distinct (i # js) \<Longrightarrow> p \<in> set (i # js) \<Longrightarrow> u_next (u p) = LIST_END \<Longrightarrow> w \<notin> set (i # js) \<Longrightarrow>
   w \<noteq> LIST_END \<Longrightarrow> u_next (u w) = LIST_END \<Longrightarrow> lf_chain (u(p := (u p)\<lparr>u_next := w\<rparr>)) i (js @ [w])"
proof (induction js arbitrary: i)
  case Nil
  then show ?case by auto
next
  case (Cons j js)
  then have "p \<noteq> i" by auto
  then show ?case using Cons by auto
qed

lemma linked_chain:
  "lf_chain (q_units q) i js \<Longrightarrow> length js \<le> k \<Longrightarrow> linked q i k = map (\<lambda>j. u_data (q_units q j)) js"
proof (induction js arbitrary: i k)
  case Nil
  then show ?case by (cases k) simp_all
next
  case (Cons j js)
  then show ?case by (cases k) (auto simp: Let_def)
qed

section \<open>The invariant\<close>

text \<open>What holds of a thread at its place; M are the units of the list, with the dummy.\<close>

fun lf_local :: "int \<Rightarrow> int \<Rightarrow> (int \<Rightarrow> unit_head) \<Rightarrow> int set \<Rightarrow> lf_pc \<Rightarrow> bool" where
  "lf_local z n u M (Pu_read_len b) = (int (length b) = z)"
| "lf_local z n u M (Pu_cas_len b len) = (int (length b) = z \<and> len < n)"
| "lf_local z n u M (Pu_read_tail b) = (int (length b) = z)"
| "lf_local z n u M (Pu_cas_tail b old) = (int (length b) = z)"
| "lf_local z n u M (Pu_used b w) = (int (length b) = z \<and> use_flag (u w) = 0)"
| "lf_local z n u M (Pu_next b w) = (int (length b) = z)"
| "lf_local z n u M (Pu_flag b w) = (int (length b) = z \<and> u_next (u w) = LIST_END)"
| "lf_local z n u M (Pu_copy b w) = (int (length b) = z \<and> u_next (u w) = LIST_END)"
| "lf_local z n u M (Pu_read_ptail b w k) = (u_next (u w) = LIST_END \<and> u_data (u w) = b)"
| "lf_local z n u M (Pu_chase b w old p k) = (u_next (u w) = LIST_END \<and> u_data (u w) = b \<and> p \<in> M)"
| "lf_local z n u M (Pu_go_on b w old p k) =
    (u_next (u w) = LIST_END \<and> u_data (u w) = b \<and> p \<in> M \<and> u_next (u p) \<noteq> LIST_END)"
| "lf_local z n u M (Pu_cas_next b w old p k) = (u_next (u w) = LIST_END \<and> u_data (u w) = b \<and> p \<in> M)"
| "lf_local z n u M (Pu_cas_ptail b w old) = (w \<in> M)"
| "lf_local z n u M (Pu_add_len b) = True"
| "lf_local z n u M Lf_outside = True"
| "lf_local z n u M Po_read_len = True"
| "lf_local z n u M _ = False"

lemma lf_local_stable:
  assumes "lf_local z n u M p" and "\<And>w. lf_unlinked p = Some w \<Longrightarrow> u' w = u w" and "M \<subseteq> M'"
    and "\<And>j. j \<in> M \<Longrightarrow> u_next (u j) \<noteq> LIST_END \<Longrightarrow> u_next (u' j) \<noteq> LIST_END"
  shows "lf_local z n u' M' p"
  using assms by (cases p) auto

definition lf_slots :: "lf_state \<Rightarrow> int list" where
  "lf_slots s = map (\<lambda>(t, w, b). w) (lf_list s)"

definition lf_units :: "lf_state \<Rightarrow> int set" where
  "lf_units s = insert LIST_END (set (lf_slots s))"

definition lf_of :: "nat \<Rightarrow> (nat \<times> int \<times> byte list) list \<Rightarrow> byte list list" where
  "lf_of t xs = map (\<lambda>(t, w, b). b) (filter (\<lambda>(t', w, b). t' = t) xs)"

definition lf_fixed :: "lock_free_queue \<Rightarrow> lock_free_queue \<Rightarrow> bool" where
  "lf_fixed q0 q \<longleftrightarrow> unit_size (q_head q) = unit_size (q_head q0) \<and> max_unit_num (q_head q) = max_unit_num (q_head q0) \<and>
     q_bytes q = q_bytes q0"

definition lf_counts :: "lf_state \<Rightarrow> bool" where
  "lf_counts s \<longleftrightarrow> (let hd = q_head (lf_q s); n = int (length (lf_list s)) in
     finite {t. lf_at s t \<noteq> Lf_outside} \<and> w_len hd = n + lf_count lf_reserved (lf_at s) \<and> w_len hd \<le> max_unit_num hd \<and>
     w_tail hd = n + lf_count (\<lambda>p. lf_unlinked p \<noteq> None) (lf_at s) \<and>
     n = r_len hd + lf_count (\<lambda>p. lf_linked p \<noteq> None) (lf_at s) \<and> 0 \<le> r_len hd)"

definition lf_shape :: "lf_state \<Rightarrow> bool" where
  "lf_shape s \<longleftrightarrow> (let q = lf_q s; hd = q_head q; u = q_units q in
     distinct (lf_slots s) \<and> (\<forall>w\<in>set (lf_slots s). 0 \<le> w \<and> w < w_tail hd) \<and> lf_chain u LIST_END (lf_slots s) \<and>
     (\<forall>(t, w, b)\<in>set (lf_list s). u_data (u w) = b) \<and> p_tail hd \<in> lf_units s \<and> (\<forall>i. w_tail hd \<le> i \<longrightarrow> use_flag (u i) = 0))"

definition lf_owns :: "lf_state \<Rightarrow> bool" where
  "lf_owns s \<longleftrightarrow> (\<forall>t w. lf_unlinked (lf_at s t) = Some w \<longrightarrow>
     0 \<le> w \<and> w < w_tail (q_head (lf_q s)) \<and> w \<notin> set (lf_slots s) \<and> (\<forall>t'. lf_unlinked (lf_at s t') = Some w \<longrightarrow> t' = t))"

definition lf_locals :: "lf_state \<Rightarrow> bool" where
  "lf_locals s \<longleftrightarrow> (\<forall>t. lf_local (unit_size (q_head (lf_q s))) (max_unit_num (q_head (lf_q s))) (q_units (lf_q s)) (lf_units s) (lf_at s t))"

definition lf_ghosts :: "lf_state \<Rightarrow> bool" where
  "lf_ghosts s \<longleftrightarrow> (\<forall>t. lf_of t (lf_list s) = lf_done s t @ (case lf_linked (lf_at s t) of Some b \<Rightarrow> [b] | None \<Rightarrow> [])) \<and>
     set (lf_pops s) \<subseteq> {-1}"

definition lf_inv :: "lock_free_queue \<Rightarrow> lf_state \<Rightarrow> bool" where
  "lf_inv q0 s \<longleftrightarrow> lf_fixed q0 (lf_q s) \<and> lf_counts s \<and> lf_shape s \<and> lf_owns s \<and> lf_locals s \<and> lf_ghosts s"

lemmas lf_parts = lf_counts_def lf_shape_def lf_owns_def lf_locals_def lf_ghosts_def lf_fixed_def Let_def

lemma lf_sel [simp]:
  "lf_q (lf_goto s t p) = lf_q s" "lf_at (lf_goto s t p) = (lf_at s)(t := p)" "lf_list (lf_goto s t p) = lf_list s"
  "lf_done (lf_goto s t p) = lf_done s" "lf_pops (lf_goto s t p) = lf_pops s"
  "lf_q (lf_mem s q) = q" "lf_at (lf_mem s q) = lf_at s" "lf_list (lf_mem s q) = lf_list s"
  "lf_done (lf_mem s q) = lf_done s" "lf_pops (lf_mem s q) = lf_pops s"
  "lf_mem s (lf_q s) = s" "lf_mem (lf_goto s t p) (lf_q s) = lf_goto s t p"
  by (simp_all add: lf_goto_def lf_mem_def)

lemma lf_slots_cong: "lf_list s' = lf_list s \<Longrightarrow> lf_slots s' = lf_slots s"
  by (simp add: lf_slots_def)

lemma lf_units_cong: "lf_list s' = lf_list s \<Longrightarrow> lf_units s' = lf_units s"
  by (simp add: lf_units_def lf_slots_def)

lemma lf_slots_sel [simp]:
  "lf_slots (lf_goto s t p) = lf_slots s" "lf_slots (lf_mem s q) = lf_slots s"
  "lf_units (lf_goto s t p) = lf_units s" "lf_units (lf_mem s q) = lf_units s"
  by (simp_all add: lf_units_def lf_slots_def)

lemma lf_finite_upd: "finite {t. f t \<noteq> Lf_outside} \<Longrightarrow> finite {x. (f(t := p)) x \<noteq> Lf_outside}"
  by (rule finite_subset [of _ "insert t {t. f t \<noteq> Lf_outside}"]) auto

lemma lf_classes [simp]: "\<not> lf_reserved Lf_outside"
  by (simp add: lf_reserved_def)

text \<open>A thread moves and nothing else changes.\<close>

lemma lf_inv_move:
  assumes inv: "lf_inv q0 s" and same: "lf_unlinked p = lf_unlinked (lf_at s t)" "lf_linked p = lf_linked (lf_at s t)"
      "lf_waits p = lf_waits (lf_at s t)"
    and loc: "lf_local (unit_size (q_head (lf_q s))) (max_unit_num (q_head (lf_q s))) (q_units (lf_q s)) (lf_units s) p"
  shows "lf_inv q0 (lf_goto s t p)"
proof -
  have fin: "finite {t. lf_at s t \<noteq> Lf_outside}" using inv by (simp add: lf_inv_def lf_counts_def Let_def)
  have "lf_reserved p = lf_reserved (lf_at s t)" using same by (simp add: lf_reserved_def)
  then have "lf_counts (lf_goto s t p)"
    using inv same lf_finite_upd [OF fin] by (simp add: lf_inv_def lf_counts_def Let_def lf_count_upd [OF fin] del: fun_upd_apply)
  moreover have "lf_owns (lf_goto s t p)" using inv same(1) unfolding lf_inv_def lf_owns_def
    by (simp, metis)
  moreover have "lf_shape (lf_goto s t p)" using inv by (simp add: lf_inv_def lf_shape_def)
  moreover have "lf_locals (lf_goto s t p)" using inv loc by (simp add: lf_inv_def lf_locals_def)
  moreover have "lf_ghosts (lf_goto s t p)" using inv same by (simp add: lf_inv_def lf_ghosts_def)
  ultimately show ?thesis using inv by (simp add: lf_inv_def)
qed

text \<open>A thread changes the unit it has taken and not linked.\<close>

lemma lf_inv_own:
  assumes inv: "lf_inv q0 s" and w: "lf_unlinked (lf_at s t) = Some w" "lf_unlinked p = Some w" and lk: "lf_linked p = None"
      "\<not> lf_waits p"
    and loc: "lf_local (unit_size (q_head (lf_q s))) (max_unit_num (q_head (lf_q s))) ((q_units (lf_q s))(w := u)) (lf_units s) p"
  shows "lf_inv q0 (lf_mem (lf_goto s t p) (unit_put (lf_q s) w u))"
proof -
  let ?q = "unit_put (lf_q s) w u" and ?u = "q_units (lf_q s)"
  have own: "0 \<le> w" "w < w_tail (q_head (lf_q s))" "w \<notin> set (lf_slots s)" "\<And>t'. lf_unlinked (lf_at s t') = Some w \<Longrightarrow> t' = t"
    using inv w(1) by (auto simp: lf_inv_def lf_owns_def)
  have lk': "lf_linked (lf_at s t) = None" "\<not> lf_waits (lf_at s t)" using w(1) by (cases "lf_at s t"; simp)+
  have out: "w \<notin> lf_units s" using own by (simp add: lf_units_def LIST_END_def)
  have fin: "finite {t. lf_at s t \<noteq> Lf_outside}" using inv by (simp add: lf_inv_def lf_counts_def Let_def)
  have "lf_reserved p = lf_reserved (lf_at s t)" using w lk lk' by (simp add: lf_reserved_def)
  then have "lf_counts (lf_mem (lf_goto s t p) ?q)"
    using inv w lk lk' lf_finite_upd [OF fin]
    by (simp add: lf_inv_def lf_counts_def Let_def lf_count_upd [OF fin] del: fun_upd_apply)
  moreover have "lf_owns (lf_mem (lf_goto s t p) ?q)" using inv w unfolding lf_inv_def lf_owns_def
    by (simp, metis)
  moreover have "lf_shape (lf_mem (lf_goto s t p) ?q)"
  proof -
    have "lf_chain (?u(w := u)) LIST_END (lf_slots s) = lf_chain ?u LIST_END (lf_slots s)"
      using out by (intro lf_chain_cong) (auto simp: lf_units_def)
    moreover have "u_data ((?u(w := u)) w') = u_data (?u w')" if "(t', w', b) \<in> set (lf_list s)" for t' w' b
    proof -
      have "w' \<in> set (lf_slots s)" using that by (force simp: lf_slots_def)
      then show ?thesis using own(3) by auto
    qed
    ultimately show ?thesis using inv own(2) unfolding lf_inv_def lf_shape_def Let_def by (auto simp del: fun_upd_apply) (auto split: if_splits)
  qed
  moreover have "lf_locals (lf_mem (lf_goto s t p) ?q)"
    unfolding lf_locals_def
  proof
    fix t'
    show "lf_local (unit_size (q_head (lf_q (lf_mem (lf_goto s t p) ?q)))) (max_unit_num (q_head (lf_q (lf_mem (lf_goto s t p) ?q))))
       (q_units (lf_q (lf_mem (lf_goto s t p) ?q))) (lf_units (lf_mem (lf_goto s t p) ?q)) (lf_at (lf_mem (lf_goto s t p) ?q) t')"
    proof (cases "t' = t")
      case True
      then show ?thesis using loc by simp
    next
      case False
      have "lf_local (unit_size (q_head (lf_q s))) (max_unit_num (q_head (lf_q s))) ?u (lf_units s) (lf_at s t')"
        using inv by (simp add: lf_inv_def lf_locals_def)
      then have "lf_local (unit_size (q_head (lf_q s))) (max_unit_num (q_head (lf_q s))) (?u(w := u)) (lf_units s) (lf_at s t')"
        using own(4) False out by (elim lf_local_stable) auto
      then show ?thesis using False by simp
    qed
  qed
  moreover have "lf_ghosts (lf_mem (lf_goto s t p) ?q)" using inv lk lk' by (simp add: lf_inv_def lf_ghosts_def)
  ultimately show ?thesis using inv by (simp add: lf_inv_def lf_fixed_def)
qed

text \<open>The bounds that the counts give.\<close>

lemma lf_bounds:
  assumes inv: "lf_inv q0 s" and new: "lf_new q0"
  shows "max_unit_num (q_head (lf_q s)) = max_unit_num (q_head q0)" "0 < unit_size (q_head (lf_q s))"
    "0 < max_unit_num (q_head (lf_q s))" "max_unit_num (q_head (lf_q s)) < 2 ^ 31 - 1"
    "0 \<le> r_len (q_head (lf_q s))" "r_len (q_head (lf_q s)) \<le> w_len (q_head (lf_q s))"
    "0 \<le> w_tail (q_head (lf_q s))" "w_tail (q_head (lf_q s)) \<le> w_len (q_head (lf_q s))"
    "w_len (q_head (lf_q s)) \<le> max_unit_num (q_head (lf_q s))" "int (length (lf_list s)) \<le> w_len (q_head (lf_q s))"
    "finite {t. lf_at s t \<noteq> Lf_outside}"
    "\<And>i. LIST_END \<le> i \<Longrightarrow> i < max_unit_num (q_head (lf_q s)) \<Longrightarrow> in_block (lf_q s) i"
proof -
  let ?f = "lf_at s" and ?hd = "q_head (lf_q s)"
  have f: "lf_fixed q0 (lf_q s)" and c: "lf_counts s" using inv by (auto simp: lf_inv_def)
  show "max_unit_num ?hd = max_unit_num (q_head q0)" using f by (simp add: lf_fixed_def)
  show "0 < unit_size ?hd" "0 < max_unit_num ?hd" "max_unit_num ?hd < 2 ^ 31 - 1"
    using f new by (simp_all add: lf_fixed_def lf_new_def Let_def)
  show fin: "finite {t. ?f t \<noteq> Lf_outside}" and r0: "0 \<le> r_len ?hd" and "w_len ?hd \<le> max_unit_num ?hd"
    using c by (simp_all add: lf_counts_def Let_def)
  have e: "w_len ?hd = int (length (lf_list s)) + lf_count lf_reserved ?f"
    "w_tail ?hd = int (length (lf_list s)) + lf_count (\<lambda>p. lf_unlinked p \<noteq> None) ?f"
    "int (length (lf_list s)) = r_len ?hd + lf_count (\<lambda>p. lf_linked p \<noteq> None) ?f"
    using c by (simp_all add: lf_counts_def Let_def)
  have sub: "{t. lf_unlinked (?f t) \<noteq> None} \<subseteq> {t. lf_reserved (?f t)}" by (auto simp: lf_reserved_def)
  have "{t. lf_reserved (?f t)} \<subseteq> {t. ?f t \<noteq> Lf_outside}" by (auto simp: lf_reserved_def)
  then have "finite {t. lf_reserved (?f t)}" using fin finite_subset by blast
  then have "lf_count (\<lambda>p. lf_unlinked p \<noteq> None) ?f \<le> lf_count lf_reserved ?f"
    using sub by (simp add: lf_count_def card_mono)
  then show "w_tail ?hd \<le> w_len ?hd" using e by linarith
  have p: "0 \<le> lf_count (\<lambda>p. lf_linked p \<noteq> None) ?f" "0 \<le> lf_count lf_reserved ?f" "0 \<le> lf_count (\<lambda>p. lf_unlinked p \<noteq> None) ?f"
    by (rule lf_count_0)+
  show "r_len ?hd \<le> w_len ?hd" using e p by linarith
  show "0 \<le> w_tail ?hd" using e p by linarith
  show "int (length (lf_list s)) \<le> w_len ?hd" using e p by linarith
  show "in_block (lf_q s) i" if "LIST_END \<le> i" "i < max_unit_num ?hd" for i
  proof -
    have "in_block q0 i" using new f that by (simp add: lf_new_def lf_fixed_def LIST_END_def Let_def)
    then show ?thesis using f by (metis in_block_cong lf_fixed_def)
  qed
qed

text \<open>A thread changes a field of the header and nothing else; what has to be shown of the new state.\<close>

lemma lf_inv_head:
  assumes inv: "lf_inv q0 s" and q: "q_units q = q_units (lf_q s)" "lf_fixed q0 q"
    and w: "w_tail (q_head (lf_q s)) \<le> w_tail (q_head q)" "p_tail (q_head q) \<in> lf_units s"
    and s': "s' = (lf_mem (lf_goto s t p) q)\<lparr>lf_done := d\<rparr>"
    and cnt: "lf_counts s'"
    and own: "lf_unlinked p = lf_unlinked (lf_at s t) \<or> lf_unlinked p = Some (w_tail (q_head (lf_q s))) \<and>
       0 \<le> w_tail (q_head (lf_q s)) \<and> w_tail (q_head (lf_q s)) < w_tail (q_head q)"
    and loc: "lf_local (unit_size (q_head q)) (max_unit_num (q_head q)) (q_units q) (lf_units s) p"
    and gh: "d = lf_done s \<and> lf_linked p = lf_linked (lf_at s t) \<or>
       (\<exists>b. lf_linked (lf_at s t) = Some b \<and> lf_linked p = None \<and> d = (lf_done s)(t := lf_done s t @ [b]))"
  shows "lf_inv q0 s'"
proof -
  have fx: "unit_size (q_head q) = unit_size (q_head (lf_q s))" "max_unit_num (q_head q) = max_unit_num (q_head (lf_q s))"
    using inv q(2) by (simp_all add: lf_inv_def lf_fixed_def)
  have sel [simp]: "lf_q s' = q" "lf_at s' = (lf_at s)(t := p)" "lf_list s' = lf_list s" "lf_done s' = d" "lf_pops s' = lf_pops s"
    using s' by simp_all
  have sl [simp]: "lf_slots s' = lf_slots s" "lf_units s' = lf_units s"
    by (rule lf_slots_cong, rule sel(3)) (rule lf_units_cong, rule sel(3))
  have sh: "lf_shape s" using inv by (simp add: lf_inv_def)
  have "\<forall>v\<in>set (lf_slots s). 0 \<le> v \<and> v < w_tail (q_head q)" using sh w(1) by (fastforce simp: lf_shape_def Let_def)
  moreover have "\<forall>i. w_tail (q_head q) \<le> i \<longrightarrow> use_flag (q_units (lf_q s) i) = 0"
    using sh w(1) by (simp add: lf_shape_def Let_def)
  ultimately have "lf_shape s'" using sh q w(2) by (simp add: lf_shape_def Let_def)
  moreover have "lf_owns s'"
  proof -
    have old: "\<And>t w. lf_unlinked (lf_at s t) = Some w \<Longrightarrow> 0 \<le> w \<and> w < w_tail (q_head (lf_q s)) \<and> w \<notin> set (lf_slots s) \<and>
        (\<forall>t'. lf_unlinked (lf_at s t') = Some w \<longrightarrow> t' = t)" using inv by (simp add: lf_inv_def lf_owns_def)
    have sl: "\<forall>w\<in>set (lf_slots s). w < w_tail (q_head (lf_q s))" using inv by (simp add: lf_inv_def lf_shape_def Let_def)
    from own show ?thesis
    proof
      assume e: "lf_unlinked p = lf_unlinked (lf_at s t)"
      then have "lf_unlinked (((lf_at s)(t := p)) t') = lf_unlinked (lf_at s t')" for t' by simp
      then show ?thesis using old w(1) unfolding lf_owns_def by (auto dest!: old)
    next
      assume n: "lf_unlinked p = Some (w_tail (q_head (lf_q s))) \<and> 0 \<le> w_tail (q_head (lf_q s)) \<and>
        w_tail (q_head (lf_q s)) < w_tail (q_head q)"
      then have "\<And>t'. lf_unlinked (lf_at s t') \<noteq> lf_unlinked p" using old by fastforce
      then show ?thesis using old w(1) n sl unfolding lf_owns_def by (auto split: if_splits dest!: old)
    qed
  qed
  moreover have "lf_locals s'" using inv loc q(1) fx by (simp add: lf_inv_def lf_locals_def)
  moreover have "lf_ghosts s'" using inv gh unfolding lf_inv_def lf_ghosts_def by auto
  ultimately show ?thesis using inv q cnt by (simp add: lf_inv_def)
qed

lemma lf_inv_link:
  assumes inv: "lf_inv q0 s" and new: "lf_new q0" and at: "lf_at s t = Pu_cas_next b w old p k" and e: "u_next (q_units (lf_q s) p) = LIST_END"
    and s': "s' = (lf_mem (lf_goto s t (Pu_cas_ptail b w old))
      (unit_put (lf_q s) p ((q_units (lf_q s) p)\<lparr>u_next := w\<rparr>)))\<lparr>lf_list := lf_list s @ [(t, w, b)]\<rparr>"
  shows "lf_inv q0 s'"
proof -
  let ?u = "q_units (lf_q s)" and ?u' = "q_units (lf_q s')"
  have sel [simp]: "q_head (lf_q s') = q_head (lf_q s)" "lf_at s' = (lf_at s)(t := Pu_cas_ptail b w old)"
    "lf_list s' = lf_list s @ [(t, w, b)]" "lf_done s' = lf_done s" "lf_pops s' = lf_pops s"
    and u': "?u' = ?u(p := (?u p)\<lparr>u_next := w\<rparr>)"
    using s' by simp_all
  have sl: "lf_slots s' = lf_slots s @ [w]" by (simp add: lf_slots_def)
  have un: "lf_units s' = insert w (lf_units s)" by (auto simp: lf_units_def sl)
  have ow: "lf_owns s" and sh: "lf_shape s" and lo: "lf_locals s" and ct: "lf_counts s" and gh: "lf_ghosts s"
    using inv by (simp_all add: lf_inv_def)
  have own: "0 \<le> w" "w < w_tail (q_head (lf_q s))" "w \<notin> set (lf_slots s)" "\<And>t'. lf_unlinked (lf_at s t') = Some w \<Longrightarrow> t' = t"
    using ow lf_unlinked.simps(8) [of b w old p k, folded at] unfolding lf_owns_def by blast+
  have "lf_local (unit_size (q_head (lf_q s))) (max_unit_num (q_head (lf_q s))) ?u (lf_units s) (lf_at s t)"
    using lo by (simp add: lf_locals_def)
  then have loc: "u_next (?u w) = LIST_END" "u_data (?u w) = b" "p \<in> lf_units s" using at by simp_all
  have wp: "w \<noteq> p" "w \<noteq> LIST_END" using own(1,3) loc(3) by (auto simp: lf_units_def LIST_END_def)
  have data: "u_data (?u' i) = u_data (?u i)" "use_flag (?u' i) = use_flag (?u i)" for i by (simp_all add: u')
  have fin: "finite {t. lf_at s t \<noteq> Lf_outside}" using ct by (simp add: lf_counts_def Let_def)
  have "lf_counts s'"
    using ct at lf_finite_upd [OF fin]
    by (simp add: lf_counts_def Let_def lf_count_upd [OF fin] lf_reserved_def del: fun_upd_apply)
  moreover have "lf_shape s'"
  proof -
    have 1: "distinct (lf_slots s)" "\<forall>v\<in>set (lf_slots s). 0 \<le> v \<and> v < w_tail (q_head (lf_q s))"
      "lf_chain ?u LIST_END (lf_slots s)" "p_tail (q_head (lf_q s)) \<in> lf_units s"
      "\<forall>i. w_tail (q_head (lf_q s)) \<le> i \<longrightarrow> use_flag (?u i) = 0"
      and 2: "\<forall>(t, w, b)\<in>set (lf_list s). u_data (?u w) = b"
      using sh by (simp_all add: lf_shape_def Let_def)
    have "LIST_END \<notin> set (lf_slots s)" using 1(2) by (auto simp: LIST_END_def)
    then have "lf_chain ?u' LIST_END (lf_slots s @ [w])" unfolding u' using 1 own e loc wp
      by (intro lf_chain_snoc) (auto simp: lf_units_def)
    moreover have "\<forall>(t, w, b)\<in>set (lf_list s'). u_data (?u' w) = b" using 2 loc(2) by (auto simp: data)
    ultimately show ?thesis using 1 own unfolding lf_shape_def Let_def by (simp add: sl un data)
  qed
  moreover have "lf_owns s'"
    unfolding lf_owns_def
  proof (intro allI impI)
    fix t' w' assume "lf_unlinked (lf_at s' t') = Some w'"
    then have t': "t' \<noteq> t" "lf_unlinked (lf_at s t') = Some w'" by (auto split: if_splits)
    then have "w' \<noteq> w" using own(4) by blast
    moreover have "0 \<le> w' \<and> w' < w_tail (q_head (lf_q s)) \<and> w' \<notin> set (lf_slots s) \<and> (\<forall>t''. lf_unlinked (lf_at s t'') = Some w' \<longrightarrow> t'' = t')"
      using ow t'(2) by (simp add: lf_owns_def)
    ultimately show "0 \<le> w' \<and> w' < w_tail (q_head (lf_q s')) \<and> w' \<notin> set (lf_slots s') \<and> (\<forall>t''. lf_unlinked (lf_at s' t'') = Some w' \<longrightarrow> t'' = t')"
      by (simp add: sl)
  qed
  moreover have "lf_locals s'"
    unfolding lf_locals_def
  proof
    fix t'
    have "lf_local (unit_size (q_head (lf_q s))) (max_unit_num (q_head (lf_q s))) ?u' (lf_units s') (lf_at s' t')"
    proof (cases "t' = t")
      case True
      then show ?thesis by (simp add: un)
    next
      case False
      have l: "lf_local (unit_size (q_head (lf_q s))) (max_unit_num (q_head (lf_q s))) ?u (lf_units s) (lf_at s t')"
        using lo by (simp add: lf_locals_def)
      have "?u' v = ?u v" if v: "lf_unlinked (lf_at s t') = Some v" for v
      proof -
        have "0 \<le> v" "v \<notin> set (lf_slots s)" using ow v by (simp_all add: lf_owns_def)
        then have "v \<noteq> p" using loc(3) by (auto simp: lf_units_def LIST_END_def)
        then show ?thesis by (simp add: u')
      qed
      then have "lf_local (unit_size (q_head (lf_q s))) (max_unit_num (q_head (lf_q s))) ?u' (lf_units s') (lf_at s t')"
        using l wp by (elim lf_local_stable) (auto simp: u' un)
      then show ?thesis using False by simp
    qed
    then show "lf_local (unit_size (q_head (lf_q s'))) (max_unit_num (q_head (lf_q s'))) ?u' (lf_units s') (lf_at s' t')" by simp
  qed
  moreover have "lf_ghosts s'" using gh at unfolding lf_ghosts_def lf_of_def by auto
  moreover have "lf_fixed q0 (lf_q s')" using inv s' by (simp add: lf_inv_def lf_fixed_def)
  ultimately show ?thesis by (simp add: lf_inv_def)
qed

lemmas lf_code = lf_thread_def lf_push_slot_def lf_push_link_def lf_pop_def compare_and_swap_def Let_def

lemma queue_head_same [simp]:
  "(q::lock_free_queue)\<lparr>q_head := (q_head q)\<lparr>w_len := w_len (q_head q)\<rparr>\<rparr> = q"
  "q\<lparr>q_head := (q_head q)\<lparr>w_tail := w_tail (q_head q)\<rparr>\<rparr> = q"
  "unit_put q i ((q_units q i)\<lparr>u_next := u_next (q_units q i)\<rparr>) = q"
  by (simp_all add: unit_put_def)

text \<open>The units a thread looks at are in the block.\<close>

lemma lf_in_block:
  assumes inv: "lf_inv q0 s" and new: "lf_new q0"
  shows "lf_unlinked (lf_at s t) = Some w \<Longrightarrow> UNIT_HEAD (lf_q s) w = Some (q_units (lf_q s) w)"
    and "p \<in> lf_units s \<Longrightarrow> UNIT_HEAD (lf_q s) p = Some (q_units (lf_q s) p)"
    and "0 \<le> i \<Longrightarrow> i < w_tail (q_head (lf_q s)) \<Longrightarrow> UNIT_HEAD (lf_q s) i = Some (q_units (lf_q s) i)"
proof -
  note b = lf_bounds [OF inv new]
  show 1: "UNIT_HEAD (lf_q s) i = Some (q_units (lf_q s) i)" if "0 \<le> i" "i < w_tail (q_head (lf_q s))" for i
    using b(8,9) b(12) [of i] that by (simp add: UNIT_HEAD_def LIST_END_def)
  show "UNIT_HEAD (lf_q s) w = Some (q_units (lf_q s) w)" if "lf_unlinked (lf_at s t) = Some w"
    using inv that by (intro 1) (auto simp: lf_inv_def lf_owns_def)
  show "UNIT_HEAD (lf_q s) p = Some (q_units (lf_q s) p)" if "p \<in> lf_units s"
  proof (cases "p = LIST_END")
    case True
    then show ?thesis using b(3) b(12) [of p] by (simp add: UNIT_HEAD_def LIST_END_def)
  next
    case False
    then show ?thesis using inv that by (intro 1) (auto simp: lf_inv_def lf_shape_def Let_def lf_units_def)
  qed
qed


lemma lf_done_same [simp]: "(lf_mem (lf_goto s t p) q)\<lparr>lf_done := lf_done s\<rparr> = lf_mem (lf_goto s t p) q"
  by (simp add: lf_mem_def lf_goto_def)

section \<open>Every step keeps the invariant\<close>

lemma lf_inv_reserve:
  assumes inv: "lf_inv q0 s" and new: "lf_new q0" and at: "lf_at s t = Pu_cas_len b len" and e: "w_len (q_head (lf_q s)) = len"
  shows "lf_inv q0 (lf_mem (lf_goto s t (Pu_read_tail b)) ((lf_q s)\<lparr>q_head := (q_head (lf_q s))\<lparr>w_len := wrap32 (len + 1)\<rparr>\<rparr>))"
proof -
  note b = lf_bounds [OF inv new]
  have c: "lf_counts s" and lo: "lf_locals s" and sh: "lf_shape s" and fx: "lf_fixed q0 (lf_q s)" using inv by (simp_all add: lf_inv_def)
  have l: "len < max_unit_num (q_head (lf_q s))" "int (length b) = unit_size (q_head (lf_q s))"
    using lo [unfolded lf_locals_def, rule_format, of t] at by simp_all
  have w: "wrap32 (len + 1) = len + 1" using l b e by (intro wrap32_id) linarith+
  show ?thesis
  proof (rule lf_inv_head [OF inv, where t = t and p = "Pu_read_tail b" and q = "(lf_q s)\<lparr>q_head := (q_head (lf_q s))\<lparr>w_len := wrap32 (len + 1)\<rparr>\<rparr>" and d = "lf_done s"])
    show "lf_counts (lf_mem (lf_goto s t (Pu_read_tail b)) ((lf_q s)\<lparr>q_head := (q_head (lf_q s))\<lparr>w_len := wrap32 (len + 1)\<rparr>\<rparr>))"
      using c at e l w lf_finite_upd [OF b(11)]
      by (simp add: lf_counts_def Let_def lf_count_upd [OF b(11)] lf_reserved_def del: fun_upd_apply)
  qed (use at l sh fx in \<open>simp_all add: lf_shape_def lf_fixed_def Let_def\<close>)
qed

lemma lf_inv_take:
  assumes inv: "lf_inv q0 s" and new: "lf_new q0" and at: "lf_at s t = Pu_cas_tail b old"
  shows "w_tail (q_head (lf_q s)) mod wrap32 (max_unit_num (q_head (lf_q s)) + 1) = w_tail (q_head (lf_q s))" (is ?A)
    and "lf_inv q0 (lf_mem (lf_goto s t (Pu_used b (w_tail (q_head (lf_q s)))))
      ((lf_q s)\<lparr>q_head := (q_head (lf_q s))\<lparr>w_tail := w_tail (q_head (lf_q s)) + 1\<rparr>\<rparr>))" (is "lf_inv q0 ?s")
proof -
  note b = lf_bounds [OF inv new]
  have c: "lf_counts s" and lo: "lf_locals s" and sh: "lf_shape s" and fx: "lf_fixed q0 (lf_q s)" using inv by (simp_all add: lf_inv_def)
  have l: "int (length b) = unit_size (q_head (lf_q s))" using lo [unfolded lf_locals_def, rule_format, of t] at by simp
  have "wrap32 (max_unit_num (q_head (lf_q s)) + 1) = max_unit_num (q_head (lf_q s)) + 1"
    using b by (intro wrap32_id) linarith+
  then show ?A using b by simp
  show "lf_inv q0 ?s"
  proof (rule lf_inv_head [OF inv, where t = t and p = "Pu_used b (w_tail (q_head (lf_q s)))" and q = "(lf_q s)\<lparr>q_head := (q_head (lf_q s))\<lparr>w_tail := w_tail (q_head (lf_q s)) + 1\<rparr>\<rparr>" and d = "lf_done s"])
    show "lf_counts ?s"
      using c at lf_finite_upd [OF b(11)]
      by (simp add: lf_counts_def Let_def lf_count_upd [OF b(11)] lf_reserved_def del: fun_upd_apply)
  qed (use at l sh fx b(7) in \<open>simp_all add: lf_shape_def lf_fixed_def Let_def\<close>)
qed

lemma lf_inv_tail:
  assumes inv: "lf_inv q0 s" and new: "lf_new q0" and at: "lf_at s t = Pu_cas_ptail b w old"
  shows "lf_inv q0 (lf_mem (lf_goto s t (Pu_add_len b))
    ((lf_q s)\<lparr>q_head := (q_head (lf_q s))\<lparr>p_tail := snd (compare_and_swap (p_tail (q_head (lf_q s))) old w)\<rparr>\<rparr>))" (is "lf_inv q0 ?s")
proof -
  note b = lf_bounds [OF inv new]
  have c: "lf_counts s" and lo: "lf_locals s" and sh: "lf_shape s" and fx: "lf_fixed q0 (lf_q s)" using inv by (simp_all add: lf_inv_def)
  have "w \<in> lf_units s" using lo [unfolded lf_locals_def, rule_format, of t] at by simp
  moreover have "p_tail (q_head (lf_q s)) \<in> lf_units s" using sh by (simp add: lf_shape_def Let_def)
  ultimately have p: "snd (compare_and_swap (p_tail (q_head (lf_q s))) old w) \<in> lf_units s" by (simp add: compare_and_swap_def)
  show ?thesis
  proof (rule lf_inv_head [OF inv, where t = t and p = "Pu_add_len b" and q = "(lf_q s)\<lparr>q_head := (q_head (lf_q s))\<lparr>p_tail := snd (compare_and_swap (p_tail (q_head (lf_q s))) old w)\<rparr>\<rparr>" and d = "lf_done s"])
    show "lf_counts ?s"
      using c at lf_finite_upd [OF b(11)]
      by (simp add: lf_counts_def Let_def lf_count_upd [OF b(11)] lf_reserved_def del: fun_upd_apply)
  qed (use at p fx in \<open>simp_all add: lf_fixed_def\<close>)
qed

lemma lf_inv_return:
  assumes inv: "lf_inv q0 s" and new: "lf_new q0" and at: "lf_at s t = Pu_add_len b"
  shows "lf_inv q0 ((lf_mem (lf_goto s t Lf_outside) ((lf_q s)\<lparr>q_head := (q_head (lf_q s))\<lparr>r_len := wrap32 (r_len (q_head (lf_q s)) + 1)\<rparr>\<rparr>))
                 \<lparr>lf_done := (lf_done s)(t := lf_done s t @ [b])\<rparr>)" (is "lf_inv q0 ?s")
proof -
  note b = lf_bounds [OF inv new]
  have c: "lf_counts s" and sh: "lf_shape s" and fx: "lf_fixed q0 (lf_q s)" using inv by (simp_all add: lf_inv_def)
  have w: "wrap32 (r_len (q_head (lf_q s)) + 1) = r_len (q_head (lf_q s)) + 1" using b by (intro wrap32_id) linarith+
  show ?thesis
  proof (rule lf_inv_head [OF inv, where t = t and p = "Lf_outside" and q = "(lf_q s)\<lparr>q_head := (q_head (lf_q s))\<lparr>r_len := wrap32 (r_len (q_head (lf_q s)) + 1)\<rparr>\<rparr>" and d = "(lf_done s)(t := lf_done s t @ [b])"])
    show "lf_counts ?s"
      using c at w lf_finite_upd [OF b(11)]
      by (simp add: lf_counts_def Let_def lf_count_upd [OF b(11)] lf_reserved_def del: fun_upd_apply)
  qed (use at sh fx in \<open>simp_all add: lf_shape_def lf_fixed_def Let_def\<close>)
qed

lemma lf_inv_pops:
  assumes "lf_inv q0 s"
  shows "lf_inv q0 (s\<lparr>lf_pops := lf_pops s @ [-1]\<rparr>)"
proof -
  have u: "lf_slots (s\<lparr>lf_pops := x\<rparr>) = lf_slots s" "lf_units (s\<lparr>lf_pops := x\<rparr>) = lf_units s" for x
    by (rule lf_slots_cong, simp) (rule lf_units_cong, simp)
  have "lf_counts (s\<lparr>lf_pops := x\<rparr>) = lf_counts s" "lf_shape (s\<lparr>lf_pops := x\<rparr>) = lf_shape s"
    "lf_owns (s\<lparr>lf_pops := x\<rparr>) = lf_owns s" "lf_locals (s\<lparr>lf_pops := x\<rparr>) = lf_locals s" for x
    unfolding lf_counts_def lf_shape_def lf_owns_def lf_locals_def u by simp_all
  then show ?thesis using assms by (simp add: lf_inv_def lf_ghosts_def)
qed

lemma lf_at_local: "lf_inv q0 s \<Longrightarrow> lf_at s t = p \<Longrightarrow>
    lf_local (unit_size (q_head (lf_q s))) (max_unit_num (q_head (lf_q s))) (q_units (lf_q s)) (lf_units s) p"
  by (auto simp: lf_inv_def lf_locals_def)

text \<open>A thread in a call has a next step, and every step keeps the invariant.\<close>

lemma lf_push_slot_ok:
  assumes inv: "lf_inv q0 s" and new: "lf_new q0"
    and at: "lf_at s t \<in> {p. lf_waits p} \<or> (\<exists>b. lf_at s t = Pu_read_len b) \<or> (\<exists>b l. lf_at s t = Pu_cas_len b l) \<or>
      (\<exists>b w. lf_at s t \<in> {Pu_used b w, Pu_next b w, Pu_flag b w, Pu_copy b w})"
  shows "\<exists>s'. lf_push_slot s t = Some s' \<and> lf_inv q0 s'"
proof (cases "lf_at s t")
  case (Pu_read_len b)
  note l = lf_at_local [OF inv Pu_read_len]
  show ?thesis using Pu_read_len l
    by (auto simp: lf_push_slot_def Let_def intro!: lf_inv_move [OF inv])
next
  case (Pu_cas_len b len)
  note l = lf_at_local [OF inv Pu_cas_len]
  show ?thesis
  proof (cases "w_len (q_head (lf_q s)) = len")
    case True
    then show ?thesis using lf_inv_reserve [OF inv new Pu_cas_len True] Pu_cas_len
      by (simp add: lf_push_slot_def Let_def compare_and_swap_def)
  next
    case False
    have "lf_inv q0 (lf_goto s t (Pu_read_len b))" using Pu_cas_len l by (intro lf_inv_move [OF inv]) auto
    then show ?thesis using Pu_cas_len False by (simp add: lf_push_slot_def Let_def compare_and_swap_def)
  qed
next
  case (Pu_read_tail b)
  note l = lf_at_local [OF inv Pu_read_tail]
  show ?thesis using Pu_read_tail l by (auto simp: lf_push_slot_def Let_def intro!: lf_inv_move [OF inv])
next
  case (Pu_cas_tail b old)
  note l = lf_at_local [OF inv Pu_cas_tail] and bd = lf_bounds [OF inv new]
  have n: "wrap32 (max_unit_num (q_head (lf_q s)) + 1) \<noteq> 0"
    using bd wrap32_id [of "max_unit_num (q_head (lf_q s)) + 1"] by linarith
  show ?thesis
  proof (cases "w_tail (q_head (lf_q s)) = old")
    case True
    note k = lf_inv_take [OF inv new Pu_cas_tail]
    show ?thesis using k(2) Pu_cas_tail True [symmetric] k(1) n
      by (simp add: lf_push_slot_def Let_def compare_and_swap_def)
  next
    case False
    have "lf_inv q0 (lf_goto s t (Pu_read_tail b))" using Pu_cas_tail l by (intro lf_inv_move [OF inv]) auto
    then show ?thesis using Pu_cas_tail False n by (simp add: lf_push_slot_def Let_def compare_and_swap_def)
  qed
next
  case (Pu_used b w)
  note l = lf_at_local [OF inv Pu_used]
  have u: "UNIT_HEAD (lf_q s) w = Some (q_units (lf_q s) w)" using Pu_used by (intro lf_in_block(1) [OF inv new, of t]) simp
  have "lf_inv q0 (lf_goto s t (Pu_next b w))" using Pu_used l by (intro lf_inv_move [OF inv]) auto
  then show ?thesis using Pu_used u l by (simp add: lf_push_slot_def Let_def)
next
  case (Pu_next b w)
  note l = lf_at_local [OF inv Pu_next]
  have u: "UNIT_HEAD (lf_q s) w = Some (q_units (lf_q s) w)" using Pu_next by (intro lf_in_block(1) [OF inv new, of t]) simp
  show ?thesis using Pu_next u l by (auto simp: lf_push_slot_def Let_def intro!: lf_inv_own [OF inv])
next
  case (Pu_flag b w)
  note l = lf_at_local [OF inv Pu_flag]
  have u: "UNIT_HEAD (lf_q s) w = Some (q_units (lf_q s) w)" using Pu_flag by (intro lf_in_block(1) [OF inv new, of t]) simp
  show ?thesis using Pu_flag u l by (auto simp: lf_push_slot_def Let_def intro!: lf_inv_own [OF inv])
next
  case (Pu_copy b w)
  note l = lf_at_local [OF inv Pu_copy]
  have u: "UNIT_HEAD (lf_q s) w = Some (q_units (lf_q s) w)" using Pu_copy by (intro lf_in_block(1) [OF inv new, of t]) simp
  have "mem_read 0 (nat (unit_size (q_head (lf_q s)))) b = Some b"
  proof -
    have "nat (unit_size (q_head (lf_q s))) = length b" using l unfolding lf_local.simps by linarith
    then show ?thesis by (simp add: mem_read_def)
  qed
  then show ?thesis using Pu_copy u l by (auto simp: lf_push_slot_def Let_def intro!: lf_inv_own [OF inv])
qed (use at in auto)

lemma lf_push_link_ok:
  assumes inv: "lf_inv q0 s" and new: "lf_new q0"
    and at: "(\<exists>b w k. lf_at s t = Pu_read_ptail b w k) \<or> (\<exists>b w old p k. lf_at s t \<in> {Pu_chase b w old p k, Pu_go_on b w old p k,
      Pu_cas_next b w old p k}) \<or> (\<exists>b w old. lf_at s t = Pu_cas_ptail b w old) \<or> (\<exists>b. lf_at s t = Pu_add_len b)"
  shows "\<exists>s'. lf_push_link s t = Some s' \<and> lf_inv q0 s'"
proof (cases "lf_at s t")
  case (Pu_read_ptail b w k)
  note l = lf_at_local [OF inv Pu_read_ptail]
  have "p_tail (q_head (lf_q s)) \<in> lf_units s" using inv by (simp add: lf_inv_def lf_shape_def Let_def)
  then show ?thesis using Pu_read_ptail l by (auto simp: lf_push_link_def Let_def intro!: lf_inv_move [OF inv])
next
  case (Pu_chase b w old p k)
  note l = lf_at_local [OF inv Pu_chase]
  have "UNIT_HEAD (lf_q s) p = Some (q_units (lf_q s) p)" using l by (intro lf_in_block(2) [OF inv new]) simp
  then show ?thesis using Pu_chase l by (auto simp: lf_push_link_def Let_def intro!: lf_inv_move [OF inv])
next
  case (Pu_go_on b w old p k)
  note l = lf_at_local [OF inv Pu_go_on]
  have u: "UNIT_HEAD (lf_q s) p = Some (q_units (lf_q s) p)" using l by (intro lf_in_block(2) [OF inv new]) simp
  have "lf_chain (q_units (lf_q s)) LIST_END (lf_slots s)" using inv by (simp add: lf_inv_def lf_shape_def Let_def)
  then have "u_next (q_units (lf_q s) p) \<in> lf_units s" using lf_chain_next [of _ _ _ p] l by (simp add: lf_units_def)
  then show ?thesis using Pu_go_on u l by (auto simp: lf_push_link_def Let_def intro!: lf_inv_move [OF inv])
next
  case (Pu_cas_next b w old p k)
  note l = lf_at_local [OF inv Pu_cas_next]
  have u: "UNIT_HEAD (lf_q s) p = Some (q_units (lf_q s) p)" using l by (intro lf_in_block(2) [OF inv new]) simp
  show ?thesis
  proof (cases "u_next (q_units (lf_q s) p) = LIST_END")
    case True
    then show ?thesis using lf_inv_link [OF inv new Pu_cas_next True refl] u Pu_cas_next
      by (simp add: lf_push_link_def Let_def compare_and_swap_def)
  next
    case False
    have "lf_inv q0 (lf_goto s t (Pu_read_ptail b w k))" using Pu_cas_next l by (intro lf_inv_move [OF inv]) auto
    then show ?thesis using Pu_cas_next False u by (simp add: lf_push_link_def unit_put_def Let_def compare_and_swap_def)
  qed
next
  case (Pu_cas_ptail b w old)
  then show ?thesis using lf_inv_tail [OF inv new Pu_cas_ptail] by (simp add: lf_push_link_def Let_def)
next
  case (Pu_add_len b)
  then show ?thesis using lf_inv_return [OF inv new Pu_add_len] by (simp add: lf_push_link_def Let_def)
qed (use at in auto)

lemma lf_thread_ok:
  assumes inv: "lf_inv q0 s" and new: "lf_new q0" and at: "lf_at s t \<noteq> Lf_outside"
  shows "\<exists>s'. lf_thread s t = Some s' \<and> lf_inv q0 s'"
proof (cases "lf_at s t = Po_read_len")
  case True
  have "0 \<le> r_len (q_head (lf_q s))" by (rule lf_bounds [OF inv new])
  moreover have "lf_inv q0 (lf_goto s t Lf_outside)" using True by (intro lf_inv_move [OF inv]) auto
  then have "lf_inv q0 ((lf_goto s t Lf_outside)\<lparr>lf_pops := lf_pops s @ [-1]\<rparr>)" using lf_inv_pops by fastforce
  ultimately show ?thesis using True by (simp add: lf_thread_def lf_push_slot_def lf_push_link_def lf_pop_def Let_def)
next
  case False
  note l = lf_at_local [OF inv refl, of t]
  show ?thesis
  proof (cases "lf_unlinked (lf_at s t) = None \<and> lf_linked (lf_at s t) = None \<or>
      (\<exists>b w. lf_at s t \<in> {Pu_used b w, Pu_next b w, Pu_flag b w, Pu_copy b w})")
    case c: True
    have "\<exists>s'. lf_push_slot s t = Some s' \<and> lf_inv q0 s'"
      using l False at c by (intro lf_push_slot_ok [OF inv new]) (cases "lf_at s t"; auto)
    then show ?thesis by (auto simp: lf_thread_def)
  next
    case c: False
    have "lf_push_slot s t = None" using c by (cases "lf_at s t") (auto simp: lf_push_slot_def Let_def)
    moreover have "\<exists>s'. lf_push_link s t = Some s' \<and> lf_inv q0 s'"
      using l False at c by (intro lf_push_link_ok [OF inv new]) (cases "lf_at s t"; auto)
    ultimately show ?thesis by (auto simp: lf_thread_def)
  qed
qed

lemma lf_step_inv:
  assumes inv: "lf_inv q0 s" and new: "lf_new q0" and st: "lf_step s s'"
  shows "lf_inv q0 s'"
  using st
proof cases
  case (lf_call_push t b)
  then show ?thesis by (auto intro!: lf_inv_move [OF inv])
next
  case (lf_call_pop t)
  then show ?thesis by (auto intro!: lf_inv_move [OF inv])
next
  case (lf_in t)
  have "lf_thread s t = None" if "lf_at s t = Lf_outside"
    using that by (simp add: lf_thread_def lf_push_slot_def lf_push_link_def lf_pop_def Let_def)
  then show ?thesis using lf_in lf_thread_ok [OF inv new, of t] by fastforce
qed

lemma lf_start_inv:
  assumes "lf_new q0"
  shows "lf_inv q0 (lf_start q0)"
  using assms by (simp add: lf_inv_def lf_parts lf_start_def lf_new_def lf_count_def lf_reserved_def lf_slots_def lf_units_def lf_of_def)

interpretation lf: invariant_system "lf_start q0" lf_step "\<lambda>s. lf_new q0 \<longrightarrow> lf_inv q0 s" for q0
  by unfold_locales (auto intro: lf_start_inv lf_step_inv)

section \<open>A thread that runs alone\<close>

fun lf_alone :: "nat \<Rightarrow> lf_state \<Rightarrow> nat \<Rightarrow> lf_state option" where
  "lf_alone 0 s t = Some s"
| "lf_alone (Suc n) s t = Option.bind (lf_thread s t) (\<lambda>s'. lf_alone n s' t)"

definition lf_returns :: "lf_state \<Rightarrow> nat \<Rightarrow> bool" where
  "lf_returns s t \<longleftrightarrow> (\<exists>n s'. lf_alone n s t = Some s' \<and> lf_at s' t = Lf_outside)"

lemma lf_returned: "lf_at s t = Lf_outside \<Longrightarrow> lf_returns s t"
  unfolding lf_returns_def by (rule exI [of _ 0]) simp

text \<open>The invariant, with the queue it holds for.\<close>

definition lf_ok :: "lock_free_queue \<Rightarrow> lf_state \<Rightarrow> bool" where
  "lf_ok q0 s \<longleftrightarrow> lf_new q0 \<and> lf_inv q0 s"

lemma lf_ok_inv: "lf_ok q0 s \<Longrightarrow> lf_inv q0 s"
  by (simp add: lf_ok_def)

lemma lf_next:
  assumes "lf_ok q0 s" and "lf_at s t \<noteq> Lf_outside"
    and "\<And>s'. lf_thread s t = Some s' \<Longrightarrow> lf_ok q0 s' \<Longrightarrow> lf_returns s' t"
  shows "lf_returns s t"
proof -
  obtain s' where s': "lf_thread s t = Some s'" "lf_ok q0 s'"
    using lf_thread_ok [of q0 s t] assms(1,2) by (auto simp: lf_ok_def)
  then obtain n s'' where "lf_alone n s' t = Some s''" "lf_at s'' t = Lf_outside"
    using assms(3) unfolding lf_returns_def by blast
  then show ?thesis unfolding lf_returns_def using s'(1) by (intro exI [of _ "Suc n"]) simp
qed

lemma returns_add_len: "lf_ok q0 s \<Longrightarrow> lf_at s t = Pu_add_len b \<Longrightarrow> lf_returns s t"
  by (rule lf_next) (auto simp: lf_code intro: lf_returned)

lemma returns_cas_ptail: "lf_ok q0 s \<Longrightarrow> lf_at s t = Pu_cas_ptail b w old \<Longrightarrow> lf_returns s t"
  by (rule lf_next) (auto simp: lf_code intro: returns_add_len)

lemma returns_cas_end:
  "lf_ok q0 s \<Longrightarrow> lf_at s t = Pu_cas_next b w old p k \<Longrightarrow> u_next (q_units (lf_q s) p) = LIST_END \<Longrightarrow> lf_returns s t"
  by (rule lf_next) (auto simp: lf_code UNIT_HEAD_def split: if_splits intro: returns_cas_ptail)

lemma returns_chase_chain:
  "lf_ok q0 s \<Longrightarrow> lf_at s t = Pu_chase b w old p k \<Longrightarrow> lf_chain (q_units (lf_q s)) p ks \<Longrightarrow> lf_returns s t"
proof (induction ks arbitrary: s p)
  case Nil
  show ?case
    by (rule lf_next) (use Nil in \<open>auto simp: lf_code UNIT_HEAD_def split: if_splits intro: returns_cas_end\<close>)
next
  case (Cons j ks)
  have go: "lf_returns s' t" if i: "lf_ok q0 s'" and a: "lf_at s' t = Pu_go_on b w old p k" and u: "q_units (lf_q s') = q_units (lf_q s)" for s'
    by (rule lf_next [OF i]) (use a u Cons.prems(3) in \<open>auto simp: lf_code UNIT_HEAD_def split: if_splits intro!: Cons.IH\<close>)
  show ?case
    by (rule lf_next) (use Cons.prems in \<open>auto simp: lf_code UNIT_HEAD_def split: if_splits intro!: go\<close>)
qed

lemma lf_chain_from: "lf_chain u i js \<Longrightarrow> p \<in> set (i # js) \<Longrightarrow> \<exists>ks. lf_chain u p ks"
proof (induction js arbitrary: i)
  case Nil
  then show ?case by (metis empty_iff insert_iff list.set(1) list.simps(15))
next
  case (Cons j js)
  then show ?case by (metis lf_chain.simps(2) set_ConsD)
qed

lemma returns_chase:
  assumes inv: "lf_ok q0 s" and at: "lf_at s t = Pu_chase b w old p k"
  shows "lf_returns s t"
proof -
  have "lf_chain (q_units (lf_q s)) LIST_END (lf_slots s)" using inv by (simp add: lf_ok_def lf_inv_def lf_shape_def Let_def)
  moreover have "p \<in> set (LIST_END # lf_slots s)" using lf_at_local [OF lf_ok_inv [OF inv] at] by (simp add: lf_units_def)
  ultimately obtain ks where "lf_chain (q_units (lf_q s)) p ks" using lf_chain_from by blast
  then show ?thesis by (rule returns_chase_chain [OF inv at])
qed

lemma returns_go_on: "lf_ok q0 s \<Longrightarrow> lf_at s t = Pu_go_on b w old p k \<Longrightarrow> lf_returns s t"
  by (rule lf_next) (auto simp: lf_code UNIT_HEAD_def split: if_splits intro: returns_chase)

lemma returns_read_ptail: "lf_ok q0 s \<Longrightarrow> lf_at s t = Pu_read_ptail b w k \<Longrightarrow> lf_returns s t"
proof (induction "3 - k" arbitrary: s k rule: less_induct)
  case less
  have cas: "lf_returns s' t" if i: "lf_ok q0 s'" and a: "lf_at s' t = Pu_cas_next b w old p (Suc k)" and k: "\<not> Suc k \<ge> 3" for s' old p
    by (cases "u_next (q_units (lf_q s') p) = LIST_END")
      (use returns_cas_end [OF i a] in simp,
       rule lf_next [OF i], use a k in \<open>auto simp: lf_code UNIT_HEAD_def split: if_splits intro!: less.hyps [of "Suc k"]\<close>)
  show ?case
    by (rule lf_next) (use less.prems in \<open>auto simp: lf_code split: if_splits intro: returns_chase cas\<close>)
qed

lemma returns_cas_next: "lf_ok q0 s \<Longrightarrow> lf_at s t = Pu_cas_next b w old p k \<Longrightarrow> lf_returns s t"
  by (rule lf_next) (auto simp: lf_code UNIT_HEAD_def split: if_splits intro: returns_cas_ptail returns_read_ptail)

lemma returns_copy: "lf_ok q0 s \<Longrightarrow> lf_at s t = Pu_copy b w \<Longrightarrow> lf_returns s t"
  by (rule lf_next) (auto simp: lf_code UNIT_HEAD_def split: if_splits bind_splits intro: returns_read_ptail)

lemma returns_flag: "lf_ok q0 s \<Longrightarrow> lf_at s t = Pu_flag b w \<Longrightarrow> lf_returns s t"
  by (rule lf_next) (auto simp: lf_code UNIT_HEAD_def split: if_splits intro: returns_copy)

lemma returns_next: "lf_ok q0 s \<Longrightarrow> lf_at s t = Pu_next b w \<Longrightarrow> lf_returns s t"
  by (rule lf_next) (auto simp: lf_code UNIT_HEAD_def split: if_splits intro: returns_flag)

lemma returns_used:
  assumes ok: "lf_ok q0 s" and at: "lf_at s t = Pu_used b w"
  shows "lf_returns s t"
proof -
  have "use_flag (q_units (lf_q s) w) = 0" using lf_at_local [OF lf_ok_inv [OF ok] at] by simp
  then show ?thesis by (intro lf_next [OF ok]) (auto simp: at lf_code UNIT_HEAD_def split: if_splits intro: returns_next)
qed

lemma returns_read_tail: "lf_ok q0 s \<Longrightarrow> lf_at s t = Pu_read_tail b \<Longrightarrow> lf_returns s t"
proof -
  have cas: "lf_returns s' t" if "lf_ok q0 s'" "lf_at s' t = Pu_cas_tail b (w_tail (q_head (lf_q s')))" for s'
    by (rule lf_next) (use that in \<open>auto simp: lf_code split: if_splits intro: returns_used\<close>)
  show "lf_ok q0 s \<Longrightarrow> lf_at s t = Pu_read_tail b \<Longrightarrow> lf_returns s t"
    by (rule lf_next) (auto simp: lf_code intro: cas)
qed

lemma returns_cas_tail: "lf_ok q0 s \<Longrightarrow> lf_at s t = Pu_cas_tail b old \<Longrightarrow> lf_returns s t"
  by (rule lf_next) (auto simp: lf_code split: if_splits intro: returns_used returns_read_tail)

lemma returns_read_len: "lf_ok q0 s \<Longrightarrow> lf_at s t = Pu_read_len b \<Longrightarrow> lf_returns s t"
proof -
  have cas: "lf_returns s' t" if "lf_ok q0 s'" "lf_at s' t = Pu_cas_len b (w_len (q_head (lf_q s')))" for s'
    by (rule lf_next) (use that in \<open>auto simp: lf_code split: if_splits intro: returns_read_tail\<close>)
  show "lf_ok q0 s \<Longrightarrow> lf_at s t = Pu_read_len b \<Longrightarrow> lf_returns s t"
    by (rule lf_next) (auto simp: lf_code split: if_splits intro: cas lf_returned)
qed

lemma returns_cas_len: "lf_ok q0 s \<Longrightarrow> lf_at s t = Pu_cas_len b len \<Longrightarrow> lf_returns s t"
  by (rule lf_next) (auto simp: lf_code split: if_splits intro: returns_read_len returns_read_tail)

lemma returns_pop:
  assumes ok: "lf_ok q0 s" and at: "lf_at s t = Po_read_len"
  shows "lf_returns s t"
proof -
  have "0 \<le> r_len (q_head (lf_q s))" using ok lf_bounds(5) by (auto simp: lf_ok_def)
  then show ?thesis by (intro lf_next [OF ok]) (auto simp: at lf_code intro: lf_returned)
qed

lemma returns_all:
  assumes "lf_ok q0 s"
  shows "lf_returns s t"
  using lf_at_local [OF lf_ok_inv [OF assms] refl, of t] assms
  by (cases "lf_at s t")
    (auto intro: lf_returned returns_add_len returns_cas_ptail returns_cas_next returns_chase returns_go_on returns_read_ptail
      returns_copy returns_flag returns_next returns_used returns_read_tail returns_cas_tail returns_read_len returns_cas_len returns_pop)

section \<open>Runs\<close>

datatype lf_move = Call_push nat "byte list" | Call_pop nat | Go nat

fun lf_act :: "lf_state \<Rightarrow> lf_move \<Rightarrow> lf_state option" where
  "lf_act s (Call_push t b) = (if lf_at s t = Lf_outside \<and> int (length b) = unit_size (q_head (lf_q s))
     then Some (lf_goto s t (Pu_read_len b)) else None)"
| "lf_act s (Call_pop t) = (if lf_at s t = Lf_outside then Some (lf_goto s t Po_read_len) else None)"
| "lf_act s (Go t) = lf_thread s t"

fun lf_run :: "lf_state \<Rightarrow> lf_move list \<Rightarrow> lf_state option" where
  "lf_run s [] = Some s"
| "lf_run s (a # as) = Option.bind (lf_act s a) (\<lambda>s'. lf_run s' as)"

lemma lf_run_reach: "lf_run s as = Some s' \<Longrightarrow> reach init lf_step s \<Longrightarrow> reach init lf_step s'"
proof (induction as arbitrary: s)
  case (Cons a as)
  then obtain s1 where s1: "lf_act s a = Some s1" "lf_run s1 as = Some s'" by (auto split: bind_splits)
  have "lf_step s s1" using s1(1) by (cases a) (auto split: if_splits intro: lf_step.intros)
  then show ?case using Cons.IH [OF s1(2)] Cons.prems(2) by (blast intro: reach_step)
qed simp

lemma lq_inv_new: "lq_inv q [] \<Longrightarrow> lf_new q"
  by (auto simp: lq_inv_def lf_new_def Let_def LIST_END_def)

lemma lf_step_grows: "lf_step s s' \<Longrightarrow> \<exists>xs. lf_list s' = lf_list s @ xs"
  by (erule lf_stepE)
    (auto simp: lf_code split: lf_pc.splits if_splits option.splits bind_splits)

lemma lf_reach_inv:
  assumes "0 < usz" and "1 \<le> maxn" and "(usz + 8) * (maxn + 2) < 2 ^ 31"
    and "has_memory (28 + (usz + 8) * (maxn + 2))" and "lock_fQueue_init attach has_memory 0 usz maxn = Some (0, Some q)"
    and "reach (lf_start q) lf_step s"
  shows "lf_ok q s" and "max_unit_num (q_head q) = maxn" and "unit_size (q_head q) = usz"
proof -
  have q: "lq_inv q []" "max_unit_num (q_head q) = maxn" "unit_size (q_head q) = usz"
    using init_ok [where has_memory = has_memory and attach = attach, OF assms(1-4)] assms(5) by auto
  then show "lf_ok q s" "max_unit_num (q_head q) = maxn" "unit_size (q_head q) = usz"
    using lf.reach_inv [OF assms(6)] lq_inv_new by (auto simp: lf_ok_def)
qed

lemma lf_linked_list:
  assumes "lf_inv q0 s" and "length (lf_list s) \<le> k"
  shows "linked (lf_q s) LIST_END k = map (\<lambda>(t, w, b). b) (lf_list s)"
proof -
  have sh: "lf_chain (q_units (lf_q s)) LIST_END (lf_slots s)" "\<forall>(t, w, b)\<in>set (lf_list s). u_data (q_units (lf_q s) w) = b"
    using assms(1) by (simp_all add: lf_inv_def lf_shape_def Let_def)
  have "linked (lf_q s) LIST_END k = map (\<lambda>j. u_data (q_units (lf_q s) j)) (lf_slots s)"
    using sh(1) assms(2) by (intro linked_chain) (auto simp: lf_slots_def)
  also have "\<dots> = map (\<lambda>(t, w, b). b) (lf_list s)" using sh(2) by (auto simp: lf_slots_def)
  finally show ?thesis .
qed

section \<open>Properties\<close>

text \<open>C26: any number of threads push to and pop from a queue that has been created for maxn units, in any
  interleaving of their accesses.  In every state the units linked in memory are those of the accepted
  pushes, in the order in which their compare-and-swaps succeeded and with their bytes intact; there are
  at most maxn; the pushes a thread has returned from are there in its order, followed by the one it has
  just linked; what is linked stays linked in its place by every further step; a pop has only ever
  answered -1; and when no thread is in a call the length of the queue is the number of the units.\<close>

theorem lock_fQueue_pushes_linearize:
  assumes "0 < usz" and "1 \<le> maxn" and "(usz + 8) * (maxn + 2) < 2 ^ 31"
    and "has_memory (28 + (usz + 8) * (maxn + 2))" and "lock_fQueue_init attach has_memory 0 usz maxn = Some (0, Some q)"
    and "reach (lf_start q) lf_step s"
  shows "linked (lf_q s) LIST_END (nat maxn) = map (\<lambda>(t, w, b). b) (lf_list s) \<and> int (length (lf_list s)) \<le> maxn \<and>
    (\<forall>t. map (\<lambda>(t, w, b). b) (filter (\<lambda>(t', w, b). t' = t) (lf_list s)) =
       lf_done s t @ (case lf_linked (lf_at s t) of Some b \<Rightarrow> [b] | None \<Rightarrow> [])) \<and>
    (\<forall>s'. lf_step s s' \<longrightarrow> (\<exists>xs. lf_list s' = lf_list s @ xs)) \<and> set (lf_pops s) \<subseteq> {-1} \<and>
    ((\<forall>t. lf_at s t = Lf_outside) \<longrightarrow> lock_fQueue_len (Some (lf_q s)) = int (length (lf_list s)))"
proof -
  note r = lf_reach_inv [OF assms]
  have inv: "lf_inv q s" and new: "lf_new q" using r(1) by (simp_all add: lf_ok_def)
  note b = lf_bounds [OF inv new]
  have le: "int (length (lf_list s)) \<le> maxn" using b(1,9,10) r(2) by linarith
  moreover have "linked (lf_q s) LIST_END (nat maxn) = map (\<lambda>(t, w, b). b) (lf_list s)"
    using le by (intro lf_linked_list [OF inv]) linarith
  moreover have "lock_fQueue_len (Some (lf_q s)) = int (length (lf_list s))" if "\<forall>t. lf_at s t = Lf_outside"
    using inv that by (simp add: lf_inv_def lf_counts_def Let_def lock_fQueue_len_def lf_count_def)
  ultimately show ?thesis using inv lf_step_grows by (auto simp: lf_inv_def lf_ghosts_def lf_of_def)
qed

text \<open>C27: wherever the other threads have stopped, a thread in a call of push or pop that runs on alone returns
  after finitely many steps, none of which leaves the block.\<close>

theorem lock_fQueue_thread_returns_alone:
  assumes "0 < usz" and "1 \<le> maxn" and "(usz + 8) * (maxn + 2) < 2 ^ 31"
    and "has_memory (28 + (usz + 8) * (maxn + 2))" and "lock_fQueue_init attach has_memory 0 usz maxn = Some (0, Some q)"
    and "reach (lf_start q) lf_step s"
  shows "\<exists>n s'. lf_alone n s t = Some s' \<and> lf_at s' t = Lf_outside"
  using returns_all [OF lf_reach_inv(1) [OF assms]] by (simp add: lf_returns_def)

text \<open>Two threads: thread 1 links its unit between the read of the tail by thread 0 and its first
  compare-and-swap, so that thread 0 tries again.\<close>

definition lf_example :: lock_free_queue where
  "lf_example = (case lock_fQueue_init (\<lambda>_ _ _. None) (\<lambda>_. True) 0 1 3 of Some (_, Some q) \<Rightarrow> q)"

definition lf_moves :: "lf_move list" where
  "lf_moves = [Call_push 0 [7]] @ replicate 9 (Go 0) @ [Call_push 1 [9]] @ replicate 11 (Go 1) @ [Go 0]"

lemma lf_example_init: "lock_fQueue_init (\<lambda>_ _ _. None) (\<lambda>_. True) 0 1 3 = Some (0, Some lf_example)"
  using init_ok [of 1 3 "\<lambda>_. True" "\<lambda>_ _ _. None"] by (auto simp: lf_example_def)

lemma lf_example_reach: "lf_run (lf_start lf_example) lf_moves = Some s \<Longrightarrow> reach (lf_start lf_example) lf_step s"
  by (rule lf_run_reach) (auto intro: reach_init)

lemma lf_example_code:
  "(case lf_run (lf_start lf_example) lf_moves of None \<Rightarrow> False
    | Some s \<Rightarrow> lf_list s = [(1, 1, [9])] \<and> lf_at s 0 = Pu_read_ptail [7] 0 1 \<and> lf_at s 1 = Pu_add_len [9])"
  by code_simp

lemma lf_example_run:
  obtains s where "reach (lf_start lf_example) lf_step s" "lf_list s = [(1, 1, [9])]" "lf_at s 0 = Pu_read_ptail [7] 0 1"
    "lf_at s 1 = Pu_add_len [9]"
  using lf_example_code lf_example_reach by (auto split: option.splits)

lemma lock_fQueue_pushes_linearize_witness:
  "\<exists>s. reach (lf_start lf_example) lf_step s \<and> linked (lf_q s) LIST_END 3 = [[9]] \<and> lf_done s 1 = []"
proof -
  obtain s where s: "reach (lf_start lf_example) lf_step s" "lf_list s = [(1, 1, [9])]" "lf_at s 1 = Pu_add_len [9]"
    by (rule lf_example_run)
  note c = lock_fQueue_pushes_linearize [of 1 3 "\<lambda>_. True" "\<lambda>_ _ _. None", OF _ _ _ _ lf_example_init s(1)]
  have "linked (lf_q s) LIST_END 3 = [[9]]" using c s(2) by simp
  moreover have "map (\<lambda>(t, w, b). b) (filter (\<lambda>(t', w, b). t' = 1) (lf_list s)) =
       lf_done s 1 @ (case lf_linked (lf_at s 1) of Some b \<Rightarrow> [b] | None \<Rightarrow> [])" using c by simp
  then have "lf_done s 1 = []" using s by simp
  ultimately show ?thesis using s(1) by blast
qed

lemma lock_fQueue_thread_returns_alone_witness:
  "\<exists>s n s'. reach (lf_start lf_example) lf_step s \<and> lf_at s 0 = Pu_read_ptail [7] 0 1 \<and> lf_alone n s 0 = Some s' \<and>
    lf_at s' 0 = Lf_outside"
proof -
  obtain s where s: "reach (lf_start lf_example) lf_step s" "lf_at s 0 = Pu_read_ptail [7] 0 1"
    by (rule lf_example_run)
  then show ?thesis
    using lock_fQueue_thread_returns_alone [of 1 3 "\<lambda>_. True" "\<lambda>_ _ _. None", OF _ _ _ _ lf_example_init s(1), of 0]
    by auto
qed

end
