(* ===== verification/Thread_Run.thy ===== *)
theory Thread_Run
  imports Thread_Ctl
begin

text \<open>
  thread_run of src/epoll_mutilthread/src/thread.c: a routine is run in a thread of its own, which frees
  the structures that were made for it.  Any number of threads call thread_run; their accesses and those
  of the new threads are a step relation.  What malloc and pthread_create answer is an argument; early
  says that pthread_create stores the identifier of the new thread before the thread can run, which
  POSIX leaves open and the GNU C library does.  None is a null dereference or a use after free.
\<close>

section \<open>State\<close>

record thread_arg =
  ta_thread :: addr
  custom_arg :: addr
  custom_routine :: addr

text \<open>Where a thread is in thread_run, with its parameters, and where a new thread is in routine.\<close>

datatype ru_pc =
  Ru_outside | Ru_alloc addr addr | Ru_create addr addr addr | Ru_start addr addr addr addr | Ru_store addr nat

datatype ro_pc =
  Ro_none | Ro_begin addr | Ro_call addr addr addr addr | Ro_destroy addr addr | Ro_free addr | Ro_ended

text \<open>As ghosts: the routine and argument a new thread was asked for, the calls of routines, and the structures
  of the calls whose pthread_create has failed.\<close>

record run_state =
  r_threads :: "addr \<rightharpoonup> thread"
  r_args :: "addr \<rightharpoonup> thread_arg"
  r_call :: "nat \<Rightarrow> ru_pc"
  r_new :: "nat \<Rightarrow> ro_pc"
  r_asked :: "nat \<rightharpoonup> addr \<times> addr"
  r_ran :: "(nat \<times> addr \<times> addr) list"
  r_lost :: "(addr \<times> addr) set"

definition run_init :: run_state where
  "run_init = \<lparr>r_threads = Map.empty, r_args = Map.empty, r_call = \<lambda>_. Ru_outside, r_new = \<lambda>_. Ro_none, r_asked = Map.empty,
     r_ran = [], r_lost = {}\<rparr>"

definition ru_goto :: "run_state \<Rightarrow> nat \<Rightarrow> ru_pc \<Rightarrow> run_state" where
  "ru_goto s c p = s\<lparr>r_call := (r_call s)(c := p)\<rparr>"

definition ro_goto :: "run_state \<Rightarrow> nat \<Rightarrow> ro_pc \<Rightarrow> run_state" where
  "ro_goto s n p = s\<lparr>r_new := (r_new s)(n := p)\<rparr>"

section \<open>Operations\<close>

definition destroy_thread :: "(addr \<rightharpoonup> thread) \<Rightarrow> addr \<Rightarrow> ((addr \<rightharpoonup> thread) \<times> addr) option" where
  "destroy_thread ts t = (case ts t of None \<Rightarrow> None | Some _ \<Rightarrow> Some (ts(t := None), NULL))"

text \<open>The next step of thread c in thread_run: mem is what malloc returns, with junk in it, and new the
  thread that pthread_create makes, if it does.\<close>

definition thread_run_step :: "bool \<Rightarrow> nat \<Rightarrow> addr \<Rightarrow> nat option \<Rightarrow> run_state \<Rightarrow> nat \<Rightarrow> run_state option" where
  "thread_run_step early junk mem new s c = (case r_call s c of
     Ru_outside \<Rightarrow> None
   | Ru_alloc r a \<Rightarrow>
       if mem = NULL then None
       else Some (ru_goto (s\<lparr>r_args := (r_args s)(mem \<mapsto> \<lparr>ta_thread = junk, custom_arg = a, custom_routine = r\<rparr>)\<rparr>) c (Ru_create r a mem))
   | Ru_create r a x \<Rightarrow>
       if mem = NULL then None
       else do {
         m \<leftarrow> r_args s x;
         Some (ru_goto (s\<lparr>r_threads := (r_threads s)(mem \<mapsto> create_thread junk 0), r_args := (r_args s)(x \<mapsto> m\<lparr>ta_thread := mem\<rparr>)\<rparr>)
           c (Ru_start r a x mem))
       }
   | Ru_start r a x y \<Rightarrow> do {
       t \<leftarrow> r_threads s y;
       case new of
         None \<Rightarrow> Some (ru_goto (s\<lparr>r_lost := insert (x, y) (r_lost s)\<rparr>) c Ru_outside)
       | Some n \<Rightarrow> do {
           (t', j) \<leftarrow> start_run (Some t) n;
           let s = ro_goto (s\<lparr>r_asked := (r_asked s)(n \<mapsto> (r, a))\<rparr>) n (Ro_begin x);
           Some (if early then ru_goto (s\<lparr>r_threads := (r_threads s)(y \<mapsto> t')\<rparr>) c Ru_outside else ru_goto s c (Ru_store y n))
         }
     }
   | Ru_store y n \<Rightarrow> do {
       t \<leftarrow> r_threads s y;
       Some (ru_goto (s\<lparr>r_threads := (r_threads s)(y \<mapsto> t\<lparr>threadid := n\<rparr>)\<rparr>) c Ru_outside)
     })"

text \<open>The next step of a new thread in routine.\<close>

definition routine_step :: "run_state \<Rightarrow> nat \<Rightarrow> run_state option" where
  "routine_step s n = (case r_new s n of
     Ro_begin x \<Rightarrow> do { m \<leftarrow> r_args s x; Some (ro_goto s n (Ro_call x (ta_thread m) (custom_routine m) (custom_arg m))) }
   | Ro_call x t r a \<Rightarrow> Some (ro_goto (s\<lparr>r_ran := r_ran s @ [(n, r, a)]\<rparr>) n (Ro_destroy x t))
   | Ro_destroy x t \<Rightarrow> do {
       (ts, t) \<leftarrow> destroy_thread (r_threads s) t;
       Some (ro_goto (s\<lparr>r_threads := ts\<rparr>) n (Ro_free x))
     }
   | Ro_free x \<Rightarrow> do { m \<leftarrow> r_args s x; Some (ro_goto (s\<lparr>r_args := (r_args s)(x := None)\<rparr>) n Ro_ended) }
   | _ \<Rightarrow> None)"

text \<open>malloc gives memory that is not in use, pthread_create a thread that has not been.\<close>

inductive run_step :: "bool \<Rightarrow> run_state \<Rightarrow> run_state \<Rightarrow> bool" for early where
  run_call: "r_call s c = Ru_outside \<Longrightarrow> run_step early s (ru_goto s c (Ru_alloc r a))"
| run_caller: "thread_run_step early junk mem new s c = Some s' \<Longrightarrow> r_threads s mem = None \<Longrightarrow> r_args s mem = None \<Longrightarrow>
    (\<forall>n. new = Some n \<longrightarrow> r_new s n = Ro_none) \<Longrightarrow> run_step early s s'"
| run_new: "routine_step s n = Some s' \<Longrightarrow> run_step early s s'"

inductive_cases run_stepE: "run_step early s s'"

section \<open>Who holds what\<close>

fun call_arg :: "ru_pc \<Rightarrow> addr option" where
  "call_arg (Ru_create r a x) = Some x"
| "call_arg (Ru_start r a x y) = Some x"
| "call_arg _ = None"

fun call_thr :: "ru_pc \<Rightarrow> addr option" where
  "call_thr (Ru_start r a x y) = Some y"
| "call_thr _ = None"

fun new_arg :: "ro_pc \<Rightarrow> addr option" where
  "new_arg (Ro_begin x) = Some x"
| "new_arg (Ro_call x y r a) = Some x"
| "new_arg (Ro_destroy x y) = Some x"
| "new_arg (Ro_free x) = Some x"
| "new_arg _ = None"

fun new_thr :: "(addr \<rightharpoonup> thread_arg) \<Rightarrow> ro_pc \<Rightarrow> addr option" where
  "new_thr as (Ro_begin x) = map_option ta_thread (as x)"
| "new_thr as (Ro_call x y r a) = Some y"
| "new_thr as (Ro_destroy x y) = Some y"
| "new_thr as _ = None"

text \<open>A holder is a caller or a new thread.\<close>

fun held_arg :: "run_state \<Rightarrow> nat + nat \<Rightarrow> addr option" where
  "held_arg s (Inl c) = call_arg (r_call s c)"
| "held_arg s (Inr n) = new_arg (r_new s n)"

fun held_thr :: "run_state \<Rightarrow> nat + nat \<Rightarrow> addr option" where
  "held_thr s (Inl c) = call_thr (r_call s c)"
| "held_thr s (Inr n) = new_thr (r_args s) (r_new s n)"

text \<open>Each structure of a heap has one holder or is lost.\<close>

definition held_once :: "(addr \<rightharpoonup> 'a) \<Rightarrow> addr set \<Rightarrow> ('o \<Rightarrow> addr option) \<Rightarrow> bool" where
  "held_once h lost held \<longleftrightarrow> lost \<subseteq> dom h \<and>
     (\<forall>p x. held p = Some x \<longrightarrow> x \<in> dom h - lost \<and> (\<forall>q. held q = Some x \<longrightarrow> q = p)) \<and>
     (\<forall>x \<in> dom h - lost. \<exists>p. held p = Some x)"

text \<open>What holds of a caller and of a new thread at their places; z is what the thread was asked for, dn its
  calls of routines.\<close>

fun caller_ok :: "(addr \<rightharpoonup> thread_arg) \<Rightarrow> ru_pc \<Rightarrow> bool" where
  "caller_ok as (Ru_create r a x) = (\<exists>m. as x = Some m \<and> custom_routine m = r \<and> custom_arg m = a)"
| "caller_ok as (Ru_start r a x y) = (as x = Some \<lparr>ta_thread = y, custom_arg = a, custom_routine = r\<rparr>)"
| "caller_ok as (Ru_store y n) = False"
| "caller_ok as p = True"

fun new_ok :: "(addr \<rightharpoonup> thread_arg) \<Rightarrow> (addr \<times> addr) option \<Rightarrow> (addr \<times> addr) list \<Rightarrow> ro_pc \<Rightarrow> bool" where
  "new_ok as z dn Ro_none = (z = None \<and> dn = [])"
| "new_ok as z dn (Ro_begin x) = (\<exists>m. as x = Some m \<and> z = Some (custom_routine m, custom_arg m) \<and> dn = [])"
| "new_ok as z dn (Ro_call x y r a) = (z = Some (r, a) \<and> dn = [])"
| "new_ok as z dn p = (\<exists>c. z = Some c \<and> dn = [c])"

definition ran_by :: "nat \<Rightarrow> (nat \<times> addr \<times> addr) list \<Rightarrow> (addr \<times> addr) list" where
  "ran_by n xs = map snd (filter (\<lambda>z. fst z = n) xs)"

definition run_inv :: "run_state \<Rightarrow> bool" where
  "run_inv s \<longleftrightarrow> held_once (r_args s) (fst ` r_lost s) (held_arg s) \<and> held_once (r_threads s) (snd ` r_lost s) (held_thr s) \<and>
     (\<forall>c. caller_ok (r_args s) (r_call s c)) \<and> (\<forall>n. new_ok (r_args s) (r_asked s n) (ran_by n (r_ran s)) (r_new s n))"

lemma caller_ok_stable: "caller_ok as p \<Longrightarrow> (\<And>x. call_arg p = Some x \<Longrightarrow> as' x = as x) \<Longrightarrow> caller_ok as' p"
  by (cases p) auto

lemma new_ok_stable: "new_ok as z dn p \<Longrightarrow> (\<And>x. new_arg p = Some x \<Longrightarrow> as' x = as x) \<Longrightarrow> new_ok as' z dn p"
  by (cases p) auto

lemma new_thr_stable: "(\<And>x. new_arg p = Some x \<Longrightarrow> as' x = as x) \<Longrightarrow> new_thr as' p = new_thr as p"
  by (cases p) auto

text \<open>Changes of what is held.\<close>

lemma held_once_same: "held_once h lost held \<Longrightarrow> dom h' = dom h \<Longrightarrow> (\<And>p. held' p = held p) \<Longrightarrow> held_once h' lost held'"
  by (simp add: held_once_def)

lemma held_onceI:
  assumes "lost \<subseteq> dom h" and "\<And>p x. held p = Some x \<Longrightarrow> h x \<noteq> None \<and> x \<notin> lost"
    and "\<And>p q x. held p = Some x \<Longrightarrow> held q = Some x \<Longrightarrow> q = p"
    and "\<And>x v. h x = Some v \<Longrightarrow> x \<notin> lost \<Longrightarrow> \<exists>p. held p = Some x"
  shows "held_once h lost held"
  using assms unfolding held_once_def by (auto dest: assms(2))

lemma held_onceD:
  assumes "held_once h lost held"
  shows "lost \<subseteq> dom h" and "held p = Some x \<Longrightarrow> \<exists>v. h x = Some v" and "held p = Some x \<Longrightarrow> x \<notin> lost"
    and "held p = Some x \<Longrightarrow> held q = Some x \<Longrightarrow> q = p" and "h x = Some v \<Longrightarrow> x \<notin> lost \<Longrightarrow> \<exists>p. held p = Some x"
  using assms unfolding held_once_def by blast+

lemma held_once_take:
  assumes o: "held_once h lost held" and x: "h x = None" and p: "held p = None"
  shows "held_once (h(x \<mapsto> v)) lost (held(p \<mapsto> x))"
proof (rule held_onceI)
  have n: "held q \<noteq> Some x" for q using held_onceD(2) [OF o] x by fastforce
  show "lost \<subseteq> dom (h(x \<mapsto> v))" using held_onceD(1) [OF o] by auto
  fix q r y
  show "(h(x \<mapsto> v)) y \<noteq> None \<and> y \<notin> lost" if "(held(p \<mapsto> x)) q = Some y"
    using that held_onceD(1-3) [OF o] x by (fastforce split: if_splits)
  show "r = q" if "(held(p \<mapsto> x)) q = Some y" "(held(p \<mapsto> x)) r = Some y"
    using that n held_onceD(4) [OF o] by (auto split: if_splits)
  show "\<exists>q. (held(p \<mapsto> x)) q = Some y" if e: "(h(x \<mapsto> v)) y = Some w" "y \<notin> lost" for w
  proof (cases "y = x")
    case False
    then have "h y = Some w" using e(1) by simp
    then obtain q where "held q = Some y" using held_onceD(5) [OF o _ e(2)] by blast
    then show ?thesis using p by (intro exI [of _ q]) auto
  qed auto
qed

lemma held_once_drop:
  assumes o: "held_once h lost held" and p: "held p = Some x"
  shows "held_once (h(x := None)) lost (held(p := None))"
proof (rule held_onceI)
  note d = held_onceD [OF o]
  show "lost \<subseteq> dom (h(x := None))" using d(1) d(3) [OF p] by auto
  fix q r y
  show "(h(x := None)) y \<noteq> None \<and> y \<notin> lost" if "(held(p := None)) q = Some y"
  proof -
    have q: "q \<noteq> p" "held q = Some y" using that by (auto split: if_splits)
    then have "y \<noteq> x" using d(4) [OF p] by auto
    then show ?thesis using d(2,3) [OF q(2)] by auto
  qed
  show "r = q" if "(held(p := None)) q = Some y" "(held(p := None)) r = Some y"
    using that d(4) by (auto split: if_splits)
  show "\<exists>q. (held(p := None)) q = Some y" if e: "(h(x := None)) y = Some w" "y \<notin> lost" for w
  proof -
    have y: "y \<noteq> x" "h y = Some w" using e(1) by (auto split: if_splits)
    obtain q where q: "held q = Some y" using d(5) [OF y(2) e(2)] by blast
    then have "q \<noteq> p" using p y(1) by auto
    then show ?thesis using q by (intro exI [of _ q]) auto
  qed
qed

lemma held_once_lose:
  assumes o: "held_once h lost held" and p: "held p = Some x"
  shows "held_once h (insert x lost) (held(p := None))"
proof (rule held_onceI)
  note d = held_onceD [OF o]
  show "insert x lost \<subseteq> dom h" using d(1) d(2) [OF p] by auto
  fix q r y
  show "h y \<noteq> None \<and> y \<notin> insert x lost" if "(held(p := None)) q = Some y"
  proof -
    have q: "q \<noteq> p" "held q = Some y" using that by (auto split: if_splits)
    then have "y \<noteq> x" using d(4) [OF p] by auto
    then show ?thesis using d(2,3) [OF q(2)] by auto
  qed
  show "r = q" if "(held(p := None)) q = Some y" "(held(p := None)) r = Some y"
    using that d(4) by (auto split: if_splits)
  show "\<exists>q. (held(p := None)) q = Some y" if e: "h y = Some w" "y \<notin> insert x lost" for w
  proof -
    obtain q where q: "held q = Some y" using d(5) [OF e(1)] e(2) by blast
    then have "q \<noteq> p" using p e(2) by auto
    then show ?thesis using q by (intro exI [of _ q]) auto
  qed
qed

lemma held_once_give:
  assumes o: "held_once h lost held" and q: "held q = None" and pq: "p \<noteq> q"
  shows "held_once h lost (held(q := held p, p := None))"
proof (rule held_onceI)
  note d = held_onceD [OF o]
  let ?held = "held(q := held p, p := None)"
  have swap: "?held r = held (if r = q then p else if r = p then q else r)" for r using q by auto
  show "lost \<subseteq> dom h" by (rule d)
  fix r r' y
  show "h y \<noteq> None \<and> y \<notin> lost" if "?held r = Some y" using that d(2,3) unfolding swap by fastforce
  show "r' = r" if "?held r = Some y" "?held r' = Some y"
    using d(4) [OF that [unfolded swap]] pq by (auto split: if_splits)
  show "\<exists>r. ?held r = Some y" if e: "h y = Some w" "y \<notin> lost" for w
  proof -
    obtain r where "held r = Some y" using d(5) [OF e] by blast
    then show ?thesis using q pq by (cases "r = p") (auto intro: exI [of _ q] exI [of _ r])
  qed
qed

lemma run_sel [simp]:
  "r_threads (ru_goto s c p) = r_threads s" "r_args (ru_goto s c p) = r_args s" "r_new (ru_goto s c p) = r_new s"
  "r_asked (ru_goto s c p) = r_asked s" "r_ran (ru_goto s c p) = r_ran s" "r_lost (ru_goto s c p) = r_lost s"
  "r_call (ru_goto s c p) = (r_call s)(c := p)"
  "r_threads (ro_goto s n q) = r_threads s" "r_args (ro_goto s n q) = r_args s" "r_call (ro_goto s n q) = r_call s"
  "r_asked (ro_goto s n q) = r_asked s" "r_ran (ro_goto s n q) = r_ran s" "r_lost (ro_goto s n q) = r_lost s"
  "r_new (ro_goto s n q) = (r_new s)(n := q)"
  by (simp_all add: ru_goto_def ro_goto_def)

lemma sum_ext: "(\<And>c. f (Inl c) = g (Inl c)) \<Longrightarrow> (\<And>n. f (Inr n) = g (Inr n)) \<Longrightarrow> f = g"
  by (rule ext) (metis sum.exhaust)

text \<open>One holder at place o changes the arguments, at most at an address that it holds or nobody does.\<close>

definition others_keep :: "run_state \<Rightarrow> nat + nat \<Rightarrow> (addr \<rightharpoonup> thread_arg) \<Rightarrow> bool" where
  "others_keep s p as \<longleftrightarrow> (\<forall>q x. q \<noteq> p \<longrightarrow> held_arg s q = Some x \<longrightarrow> as x = r_args s x)"

lemma others_keep_own:
  assumes "run_inv s" and "r_args s x = None \<or> held_arg s p = Some x"
  shows "others_keep s p ((r_args s)(x := v))"
proof -
  have h: "held_once (r_args s) (fst ` r_lost s) (held_arg s)" using assms(1) by (simp add: run_inv_def)
  have "y \<noteq> x" if q: "q \<noteq> p" "held_arg s q = Some y" for q y
    using assms(2) held_onceD(2) [OF h q(2)] held_onceD(4) [OF h q(2), of p] q(1) by auto
  then show ?thesis by (simp add: others_keep_def)
qed

lemma others_keep_same [simp]: "others_keep s p (r_args s)"
  by (simp add: others_keep_def)

lemma run_inv_caller:
  assumes inv: "run_inv s"
    and s': "r_call s' = (r_call s)(c := p)" "r_new s' = r_new s" "r_asked s' = r_asked s" "r_ran s' = r_ran s"
    and keep: "others_keep s (Inl c) (r_args s')" and ok: "caller_ok (r_args s') p"
    and arg: "held_once (r_args s') (fst ` r_lost s') ((held_arg s)(Inl c := call_arg p))"
    and thr: "held_once (r_threads s') (snd ` r_lost s') ((held_thr s)(Inl c := call_thr p))"
  shows "run_inv s'"
proof -
  have i: "caller_ok (r_args s) (r_call s d)" "new_ok (r_args s) (r_asked s n) (ran_by n (r_ran s)) (r_new s n)" for d n
    using inv by (auto simp: run_inv_def)
  have kc: "r_args s' x = r_args s x" if "d \<noteq> c" "call_arg (r_call s d) = Some x" for d x
    using keep [unfolded others_keep_def, rule_format, of "Inl d"] that by simp
  have kn: "r_args s' x = r_args s x" if "new_arg (r_new s n) = Some x" for n x
    using keep [unfolded others_keep_def, rule_format, of "Inr n"] that by simp
  have "held_arg s' = (held_arg s)(Inl c := call_arg p)" by (rule sum_ext) (simp_all add: s')
  moreover have "new_thr (r_args s') (r_new s m) = new_thr (r_args s) (r_new s m)" for m
    by (rule new_thr_stable) (rule kn)
  then have "held_thr s' = (held_thr s)(Inl c := call_thr p)" by (intro sum_ext) (simp_all add: s')
  moreover have "caller_ok (r_args s') (r_call s' d)" for d
    using caller_ok_stable [OF i(1) kc] ok by (cases "d = c") (auto simp: s')
  moreover have "new_ok (r_args s') (r_asked s' n) (ran_by n (r_ran s')) (r_new s' n)" for n
    using new_ok_stable [OF i(2) kn] by (simp add: s')
  ultimately show ?thesis using arg thr by (simp add: run_inv_def)
qed

lemma run_inv_new:
  assumes inv: "run_inv s"
    and s': "r_call s' = r_call s" "r_new s' = (r_new s)(n := p)" "r_asked s' = r_asked s"
      "\<And>m. m \<noteq> n \<Longrightarrow> ran_by m (r_ran s') = ran_by m (r_ran s)"
    and keep: "others_keep s (Inr n) (r_args s')" and ok: "new_ok (r_args s') (r_asked s n) (ran_by n (r_ran s')) p"
    and arg: "held_once (r_args s') (fst ` r_lost s') ((held_arg s)(Inr n := new_arg p))"
    and thr: "held_once (r_threads s') (snd ` r_lost s') ((held_thr s)(Inr n := new_thr (r_args s') p))"
  shows "run_inv s'"
proof -
  have i: "caller_ok (r_args s) (r_call s d)" "new_ok (r_args s) (r_asked s m) (ran_by m (r_ran s)) (r_new s m)" for d m
    using inv by (auto simp: run_inv_def)
  have kc: "r_args s' x = r_args s x" if "call_arg (r_call s d) = Some x" for d x
    using keep [unfolded others_keep_def, rule_format, of "Inl d"] that by simp
  have kn: "r_args s' x = r_args s x" if "m \<noteq> n" "new_arg (r_new s m) = Some x" for m x
    using keep [unfolded others_keep_def, rule_format, of "Inr m"] that by simp
  have "held_arg s' = (held_arg s)(Inr n := new_arg p)" by (rule sum_ext) (simp_all add: s')
  moreover have "new_thr (r_args s') (r_new s m) = new_thr (r_args s) (r_new s m)" if "m \<noteq> n" for m
    by (rule new_thr_stable) (rule kn [OF that])
  then have "held_thr s' = (held_thr s)(Inr n := new_thr (r_args s') p)" by (intro sum_ext) (simp_all add: s'(1,2))
  moreover have "caller_ok (r_args s') (r_call s' d)" for d
    using caller_ok_stable [OF i(1) kc] by (simp add: s')
  moreover have "new_ok (r_args s') (r_asked s' m) (ran_by m (r_ran s')) (r_new s' m)" for m
    using new_ok_stable [OF i(2) kn] ok s'(4) by (cases "m = n") (auto simp: s'(1-3))
  ultimately show ?thesis using arg thr by (simp add: run_inv_def)
qed

lemma run_inv_held: "run_inv s \<Longrightarrow> held_once (r_args s) (fst ` r_lost s) (held_arg s)"
  "run_inv s \<Longrightarrow> held_once (r_threads s) (snd ` r_lost s) (held_thr s)" "run_inv s \<Longrightarrow> caller_ok (r_args s) (r_call s c)"
  "run_inv s \<Longrightarrow> new_ok (r_args s) (r_asked s n) (ran_by n (r_ran s)) (r_new s n)"
  by (simp_all add: run_inv_def)

text \<open>The new thread is made: what the caller held is the thread's.\<close>

lemma run_inv_spawn:
  assumes inv: "run_inv s" and at: "r_call s c = Ru_start r a x y" and n: "r_new s n = Ro_none" and t: "r_threads s y = Some t"
  shows "run_inv (ru_goto (ro_goto (s\<lparr>r_asked := (r_asked s)(n \<mapsto> (r, a)), r_threads := (r_threads s)(y \<mapsto> t')\<rparr>) n (Ro_begin x)) c Ru_outside)"
    (is "run_inv ?s")
proof -
  have c: "r_args s x = Some \<lparr>ta_thread = y, custom_arg = a, custom_routine = r\<rparr>" using run_inv_held(3) [OF inv, of c] at by simp
  have nw: "new_ok (r_args s) (r_asked s m) (ran_by m (r_ran s)) (r_new s m)" for m by (rule run_inv_held(4) [OF inv])
  have "held_arg ?s = (held_arg s)(Inr n := held_arg s (Inl c), Inl c := None)" by (rule sum_ext) (auto simp: at)
  then have "held_once (r_args ?s) (fst ` r_lost ?s) (held_arg ?s)"
    using held_once_give [OF run_inv_held(1) [OF inv], of "Inr n" "Inl c"] n by simp
  moreover have "held_thr ?s = (held_thr s)(Inr n := held_thr s (Inl c), Inl c := None)" by (rule sum_ext) (auto simp: at c)
  then have "held_once (r_threads s) (snd ` r_lost ?s) (held_thr ?s)"
    using held_once_give [OF run_inv_held(2) [OF inv], of "Inr n" "Inl c"] n by simp
  then have "held_once (r_threads ?s) (snd ` r_lost ?s) (held_thr ?s)" using t by (elim held_once_same) auto
  moreover have "caller_ok (r_args ?s) (r_call ?s d)" for d using run_inv_held(3) [OF inv, of d] by simp
  moreover have "new_ok (r_args ?s) (r_asked ?s m) (ran_by m (r_ran ?s)) (r_new ?s m)" for m
    using nw [of m] n c by (cases "m = n") auto
  ultimately show ?thesis by (simp add: run_inv_def)
qed

section \<open>Every step keeps the invariant\<close>

lemma thread_run_inv:
  assumes inv: "run_inv s" and st: "thread_run_step True junk mem new s c = Some s'"
    and fresh: "r_threads s mem = None" "r_args s mem = None" "\<forall>n. new = Some n \<longrightarrow> r_new s n = Ro_none"
  shows "run_inv s'"
proof (cases "r_call s c")
  case (Ru_alloc r a)
  have "held_once ((r_args s)(mem \<mapsto> v)) (fst ` r_lost s) ((held_arg s)(Inl c \<mapsto> mem))" for v
    using Ru_alloc fresh by (intro held_once_take run_inv_held(1) [OF inv]) auto
  moreover have "(held_thr s)(Inl c := None) = held_thr s" using Ru_alloc by (simp add: fun_upd_idem)
  ultimately show ?thesis
    using st Ru_alloc fresh others_keep_own [OF inv, of mem "Inl c"] run_inv_held(2) [OF inv]
    by (intro run_inv_caller [OF inv, where c = c and p = "Ru_create r a mem"])
      (auto simp: thread_run_step_def split: if_splits)
next
  case (Ru_create r a x)
  obtain m where m: "r_args s x = Some m" "custom_routine m = r" "custom_arg m = a"
    using run_inv_held(3) [OF inv, of c] Ru_create by auto
  have mem: "mem \<noteq> NULL" using st Ru_create by (auto simp: thread_run_step_def split: if_splits)
  have "held_once ((r_threads s)(mem \<mapsto> v)) (snd ` r_lost s) ((held_thr s)(Inl c \<mapsto> mem))" for v
    using Ru_create fresh by (intro held_once_take run_inv_held(2) [OF inv]) auto
  moreover have "held_once ((r_args s)(x \<mapsto> v)) (fst ` r_lost s) ((held_arg s)(Inl c \<mapsto> x))" for v
    using Ru_create m by (intro held_once_same [OF run_inv_held(1) [OF inv]]) auto
  ultimately show ?thesis
    using st Ru_create m mem others_keep_own [OF inv, of x "Inl c"]
    by (intro run_inv_caller [OF inv, where c = c and p = "Ru_start r a x mem"]) (auto simp: thread_run_step_def)
next
  case (Ru_start r a x y)
  have "held_thr s (Inl c) = Some y" using Ru_start by simp
  then obtain t where t: "r_threads s y = Some t" using held_onceD(2) [OF run_inv_held(2) [OF inv]] by blast
  show ?thesis
  proof (cases new)
    case None
    have "held_once (r_args s) (insert x (fst ` r_lost s)) ((held_arg s)(Inl c := None))"
      using Ru_start by (intro held_once_lose run_inv_held(1) [OF inv]) simp
    moreover have "held_once (r_threads s) (insert y (snd ` r_lost s)) ((held_thr s)(Inl c := None))"
      using Ru_start by (intro held_once_lose run_inv_held(2) [OF inv]) simp
    ultimately show ?thesis
      using st Ru_start None t by (intro run_inv_caller [OF inv, where c = c and p = Ru_outside]) (auto simp: thread_run_step_def)
  next
    case (Some n)
    have "s' = ru_goto (ro_goto (s\<lparr>r_asked := (r_asked s)(n \<mapsto> (r, a)), r_threads := (r_threads s)(y \<mapsto> t\<lparr>threadid := n\<rparr>)\<rparr>) n (Ro_begin x)) c Ru_outside"
      using st Ru_start Some t by (auto simp: thread_run_step_def start_run_def ru_goto_def ro_goto_def)
    then show ?thesis using run_inv_spawn [OF inv Ru_start _ t] fresh(3) Some by simp
  qed
next
  case Ru_outside
  then show ?thesis using st by (simp add: thread_run_step_def)
next
  case (Ru_store y n)
  then show ?thesis using run_inv_held(3) [OF inv, of c] by simp
qed

lemma routine_inv:
  assumes inv: "run_inv s" and st: "routine_step s n = Some s'"
  shows "run_inv s'"
proof (cases "r_new s n")
  case (Ro_begin x)
  obtain m where m: "r_args s x = Some m" "r_asked s n = Some (custom_routine m, custom_arg m)" "ran_by n (r_ran s) = []"
    using run_inv_held(4) [OF inv, of n] Ro_begin by auto
  have "(held_arg s)(Inr n \<mapsto> x) = held_arg s" "(held_thr s)(Inr n \<mapsto> ta_thread m) = held_thr s"
    using Ro_begin m by (auto simp: fun_upd_idem)
  then show ?thesis
    using st Ro_begin m run_inv_held(1,2) [OF inv]
    by (intro run_inv_new [OF inv, where n = n and p = "Ro_call x (ta_thread m) (custom_routine m) (custom_arg m)"])
      (auto simp: routine_step_def)
next
  case (Ro_call x y r a)
  have "(held_arg s)(Inr n \<mapsto> x) = held_arg s" "(held_thr s)(Inr n \<mapsto> y) = held_thr s"
    using Ro_call by (auto simp: fun_upd_idem)
  moreover have "r_asked s n = Some (r, a)" "ran_by n (r_ran s) = []" using run_inv_held(4) [OF inv, of n] Ro_call by auto
  ultimately show ?thesis
    using st Ro_call run_inv_held(1,2) [OF inv]
    by (intro run_inv_new [OF inv, where n = n and p = "Ro_destroy x y"]) (auto simp: routine_step_def ran_by_def)
next
  case (Ro_destroy x y)
  have "held_thr s (Inr n) = Some y" using Ro_destroy by simp
  then obtain t where t: "r_threads s y = Some t" using held_onceD(2) [OF run_inv_held(2) [OF inv]] by blast
  have "held_once ((r_threads s)(y := None)) (snd ` r_lost s) ((held_thr s)(Inr n := None))"
    using Ro_destroy by (intro held_once_drop run_inv_held(2) [OF inv]) simp
  moreover have "(held_arg s)(Inr n \<mapsto> x) = held_arg s" using Ro_destroy by (simp add: fun_upd_idem)
  ultimately show ?thesis
    using st Ro_destroy t run_inv_held(1) [OF inv] run_inv_held(4) [OF inv, of n]
    by (intro run_inv_new [OF inv, where n = n and p = "Ro_free x"]) (auto simp: routine_step_def destroy_thread_def)
next
  case (Ro_free x)
  have "held_arg s (Inr n) = Some x" using Ro_free by simp
  then obtain m where m: "r_args s x = Some m" using held_onceD(2) [OF run_inv_held(1) [OF inv]] by blast
  have "held_once ((r_args s)(x := None)) (fst ` r_lost s) ((held_arg s)(Inr n := None))"
    using Ro_free by (intro held_once_drop run_inv_held(1) [OF inv]) simp
  moreover have "(held_thr s)(Inr n := None) = held_thr s" using Ro_free by (simp add: fun_upd_idem)
  moreover have "others_keep s (Inr n) ((r_args s)(x := None))" using Ro_free by (intro others_keep_own [OF inv]) simp
  ultimately show ?thesis
    using st Ro_free m run_inv_held(2) [OF inv] run_inv_held(4) [OF inv, of n]
    by (intro run_inv_new [OF inv, where n = n and p = Ro_ended]) (auto simp: routine_step_def)
qed (use st in \<open>simp_all add: routine_step_def\<close>)

lemma run_inv_call:
  assumes inv: "run_inv s" and at: "r_call s c = Ru_outside"
  shows "run_inv (ru_goto s c (Ru_alloc r a))"
proof (rule run_inv_caller [OF inv, where c = c and p = "Ru_alloc r a"])
  have "(held_arg s)(Inl c := None) = held_arg s" "(held_thr s)(Inl c := None) = held_thr s"
    using at by (simp_all add: fun_upd_idem)
  then show "held_once (r_args (ru_goto s c (Ru_alloc r a))) (fst ` r_lost (ru_goto s c (Ru_alloc r a)))
      ((held_arg s)(Inl c := call_arg (Ru_alloc r a)))"
    "held_once (r_threads (ru_goto s c (Ru_alloc r a))) (snd ` r_lost (ru_goto s c (Ru_alloc r a)))
      ((held_thr s)(Inl c := call_thr (Ru_alloc r a)))"
    using run_inv_held(1,2) [OF inv] by simp_all
qed simp_all

lemma run_step_inv: "run_inv s \<Longrightarrow> run_step True s s' \<Longrightarrow> run_inv s'"
  by (erule run_stepE) (auto intro: run_inv_call thread_run_inv routine_inv)

lemma held_once_empty: "held_once Map.empty {} (\<lambda>_. None)"
  by (simp add: held_once_def)

lemma run_inv_init: "run_inv run_init"
proof -
  have "held_arg run_init = (\<lambda>_. None)" "held_thr run_init = (\<lambda>_. None)"
    by (rule sum_ext; simp add: run_init_def)+
  moreover have "r_args run_init = Map.empty" "r_threads run_init = Map.empty" "r_lost run_init = {}"
    "r_call run_init c = Ru_outside" "r_new run_init n = Ro_none" "r_asked run_init n = None" "r_ran run_init = []" for c n
    by (simp_all add: run_init_def)
  ultimately show ?thesis unfolding run_inv_def by (simp add: ran_by_def held_once_empty)
qed

interpretation run: invariant_system run_init "run_step True" run_inv
  by unfold_locales (auto intro: run_inv_init run_step_inv)

section \<open>Runs\<close>

datatype run_event = Call nat addr addr | Caller nat addr "nat option" | New nat

fun run_move :: "bool \<Rightarrow> run_state \<Rightarrow> run_event \<Rightarrow> run_state option" where
  "run_move early s (Call c r a) = (if r_call s c = Ru_outside then Some (ru_goto s c (Ru_alloc r a)) else None)"
| "run_move early s (Caller c mem new) =
     (if r_threads s mem = None \<and> r_args s mem = None \<and> (case new of None \<Rightarrow> True | Some n \<Rightarrow> r_new s n = Ro_none)
      then thread_run_step early 0 mem new s c else None)"
| "run_move early s (New n) = routine_step s n"

fun run_moves :: "bool \<Rightarrow> run_state \<Rightarrow> run_event list \<Rightarrow> run_state option" where
  "run_moves early s [] = Some s"
| "run_moves early s (m # ms) = Option.bind (run_move early s m) (\<lambda>s'. run_moves early s' ms)"

lemma run_moves_reach: "run_moves early s ms = Some s' \<Longrightarrow> reach init (run_step early) s \<Longrightarrow> reach init (run_step early) s'"
proof (induction ms arbitrary: s)
  case (Cons m ms)
  then obtain s1 where s1: "run_move early s m = Some s1" "run_moves early s1 ms = Some s'" by (auto split: bind_splits)
  have "run_step early s s1"
    using s1(1) by (cases m) (auto split: if_splits option.splits intro: run_call run_caller run_new)
  then show ?case using Cons.IH [OF s1(2)] Cons.prems(2) by (blast intro: reach_step)
qed simp

text \<open>One call of thread_run, then routine in the new thread up to the end.\<close>

definition run_example :: "run_event list" where
  "run_example = [Call 0 5 7, Caller 0 10 None, Caller 0 20 None, Caller 0 30 (Some 1), New 1, New 1, New 1]"

section \<open>Properties\<close>


lemma run_example_code:
  "(case run_moves True run_init (run_example @ [New 1]) of None \<Rightarrow> False
    | Some s \<Rightarrow> r_new s 1 = Ro_ended \<and> r_asked s 1 = Some (5, 7))"
  by code_simp


text \<open>POSIX allows the identifier to be stored after the new thread has run: then thread_run stores to the
  structure of a thread that has ended and has freed it.\<close>

lemma run_example_late:
  "(case run_moves False run_init run_example of None \<Rightarrow> False
    | Some s \<Rightarrow> r_call s 0 = Ru_store 20 1 \<and> r_threads s 20 = None)"
  by code_simp

theorem thread_run_late_store:
  "\<exists>s c. reach run_init (run_step False) s \<and> r_call s c \<noteq> Ru_outside \<and>
    (\<forall>junk mem new. thread_run_step False junk mem new s c = None)"
proof -
  obtain s where s: "run_moves False run_init run_example = Some s" "r_call s 0 = Ru_store 20 1" "r_threads s 20 = None"
    using run_example_late by (auto split: option.splits)
  then have "reach run_init (run_step False) s" by (auto intro: run_moves_reach reach_init)
  then show ?thesis using s(2,3) by (intro exI [of _ s] exI [of _ 0]) (simp add: thread_run_step_def)
qed

end
