(* ===== verification/Packet_Decode.thy ===== *)
theory Packet_Decode
  imports Packet_Trip
begin

text \<open>
  Reading a packet whose bytes come from anywhere.  A reference decoder says what a program gets from
  the read functions of src/epoll_mutilthread/src/rpacket.c as a function of the bytes alone: integers
  and doubles that are cut short are 0, and a block whose length says more than is left gives NULL.
\<close>

section \<open>Calls and answers\<close>

text \<open>What a read call gives: a number, or a block behind a pointer (None is NULL) with the length stored, or
  the C string behind a pointer (None is one that runs on past its buffer).\<close>

datatype answer =
    A_number u64
  | A_block "byte list option" u32
  | A_string "byte list option option"

definition read_call :: "rpacket \<times> bheap \<Rightarrow> field_kind \<Rightarrow> (answer \<times> rpacket \<times> bheap) option" where
  "read_call s k = (case s of (r, h) \<Rightarrow> (case k of
     K_uint8 \<Rightarrow> do { (v, s) \<leftarrow> rpacket_read_uint8 h r; Some (A_number (ucast v), s) }
   | K_uint16 \<Rightarrow> do { (v, s) \<leftarrow> rpacket_read_uint16 h r; Some (A_number (ucast v), s) }
   | K_uint32 \<Rightarrow> do { (v, s) \<leftarrow> rpacket_read_uint32 h r; Some (A_number (ucast v), s) }
   | K_uint64 \<Rightarrow> do { (v, s) \<leftarrow> rpacket_read_uint64 h r; Some (A_number v, s) }
   | K_double \<Rightarrow> do { (v, s) \<leftarrow> rpacket_read_double h r; Some (A_number v, s) }
   | K_binary \<Rightarrow> do {
       (p, len, r, h) \<leftarrow> rpacket_read_binary h r 0;
       case p of
         None \<Rightarrow> Some (A_block None len, r, h)
       | Some _ \<Rightarrow> do { bs \<leftarrow> ptr_bytes h p (unat len); Some (A_block (Some bs) len, r, h) }
     }
   | K_string \<Rightarrow> do {
       (p, r, h) \<leftarrow> rpacket_read_string h r;
       Some (A_string (case p of None \<Rightarrow> None | Some _ \<Rightarrow> Some (ptr_string h p)), r, h)
     }))"

section \<open>The reference decoder\<close>

definition decode_number :: "nat \<Rightarrow> byte list \<Rightarrow> nat \<times> byte list" where
  "decode_number n d = (if length d < n then (0, d) else (unat (le_word (take n d) :: u64), drop n d))"

text \<open>A length and its block, if so much is left.\<close>

definition decode_block :: "byte list \<Rightarrow> nat \<times> byte list option \<times> byte list" where
  "decode_block d = (let (n, d) = decode_number 4 d
     in if d = [] \<or> length d < n then (n, None, d) else (n, Some (take n d), drop n d))"

text \<open>The answer that is expected; a string without a terminator in its block may be anything.\<close>

datatype expected = E_is answer | E_any_string

definition width_of :: "field_kind \<Rightarrow> nat" where
  "width_of k = (case k of K_uint8 \<Rightarrow> 1 | K_uint16 \<Rightarrow> 2 | K_uint32 \<Rightarrow> 4 | _ \<Rightarrow> 8)"

definition decode :: "byte list \<Rightarrow> field_kind \<Rightarrow> expected \<times> byte list" where
  "decode d k = (case k of
     K_binary \<Rightarrow> (case decode_block d of (n, b, d) \<Rightarrow> (E_is (A_block b (of_nat n)), d))
   | K_string \<Rightarrow> (case decode_block d of
         (n, None, d) \<Rightarrow> (E_is (A_string None), d)
       | (n, Some b, d) \<Rightarrow>
           (if 0 \<in> set b then E_is (A_string (Some (Some (takeWhile (\<lambda>c. c \<noteq> 0) b)))) else E_any_string, d))
   | _ \<Rightarrow> (case decode_number (width_of k) d of (v, d) \<Rightarrow> (E_is (A_number (of_nat v)), d)))"

fun decode_all :: "byte list \<Rightarrow> field_kind list \<Rightarrow> expected list \<times> byte list" where
  "decode_all d [] = ([], d)"
| "decode_all d (k # ks) = (let (e, d) = decode d k; (es, d) = decode_all d ks in (e # es, d))"

fun meets :: "answer \<Rightarrow> expected \<Rightarrow> bool" where
  "meets a (E_is b) = (a = b)"
| "meets (A_string p) E_any_string = (p \<noteq> None)"
| "meets a E_any_string = False"

text \<open>The type of an answer.\<close>

fun answers_kind :: "answer \<Rightarrow> field_kind \<Rightarrow> bool" where
  "answers_kind (A_number v) k = (k \<notin> {K_binary, K_string} \<and> unat v < 2 ^ (8 * width_of k))"
| "answers_kind (A_block b n) k = (k = K_binary \<and> (case b of None \<Rightarrow> True | Some bs \<Rightarrow> length bs = unat n))"
| "answers_kind (A_string p) k = (k = K_string)"

section \<open>Each call\<close>

lemma reader_read_any:
  assumes "reader (r, h) d"
  shows "\<exists>rc r' h'. rpacket_read h r n = Some (rc, if length d < unat n then [] else take (unat n) d, r', h') \<and>
    reader (r', h') (if length d < unat n then d else drop (unat n) d) \<and> r_raw r' = 0"
proof -
  obtain qs where q: "rview h r qs d" "bin_ok h r qs" "r_raw r = 0" using assms by (auto simp: reader_def)
  show ?thesis
  proof (cases "length d < unat n")
    case True
    then show ?thesis using rpacket_read_short [OF q(1)] assms q(3) by simp
  next
    case False
    then have "unat n = length (take (unat n) d)" "rview h r qs (take (unat n) d @ drop (unat n) d)" using q(1) by simp_all
    from rpacket_read_reads [OF this(2) q(2) this(1)] obtain r' h' qs' where
      "rpacket_read h r n = Some (0, take (unat n) d, r', h')" "reads h r h' r' qs' (drop (unat n) d)" by blast
    then show ?thesis using False q(3) by (auto simp: reader_def reads_def)
  qed
qed

text \<open>A number has the same value at every width that holds it.\<close>

lemma le_word_width:
  assumes "8 * length bs \<le> LENGTH('a::len)" and "LENGTH('a) \<le> LENGTH('b::len)"
  shows "ucast (le_word bs :: 'a word) = (le_word bs :: 'b word)"
proof (rule bit_word_eqI)
  fix i assume "i < LENGTH('b)"
  moreover have "i div 8 < length bs \<Longrightarrow> i < LENGTH('a)" using assms by linarith
  ultimately show "bit (ucast (le_word bs :: 'a word) :: 'b word) i = bit (le_word bs :: 'b word) i"
    using assms by (auto simp: bit_le_word bit_simps)
qed

lemma le_word_less: "unat (le_word bs :: u64) < 2 ^ (8 * length bs)" if "length bs \<le> 8"
proof -
  have "take_bit (8 * length bs) (le_word bs :: u64) = le_word bs"
    by (rule bit_word_eqI) (auto simp: bit_le_word bit_simps)
  then have "unat (take_bit (8 * length bs) (le_word bs :: u64)) = unat (le_word bs :: u64)" by simp
  then have "take_bit (8 * length bs) (unat (le_word bs :: u64)) = unat (le_word bs :: u64)" by (simp add: unsigned_take_bit_eq)
  then show ?thesis by (metis take_bit_nat_less_exp)
qed

text \<open>A number is read as the decoder reads it.\<close>

lemma read_number:
  assumes rd: "reader (r, h) d" and n: "unat n \<le> 8" "8 * unat n \<le> LENGTH('a::len)" "LENGTH('a) \<le> 64"
  obtains rc bs r' h' where "rpacket_read h r n = Some (rc, bs, r', h')" "reader (r', h') (snd (decode_number (unat n) d))"
    "r_raw r' = 0" "ucast (le_word bs :: 'a word) = (of_nat (fst (decode_number (unat n) d)) :: u64)"
    "fst (decode_number (unat n) d) < 2 ^ (8 * unat n)" "unat (le_word bs :: 'a word) = fst (decode_number (unat n) d)"
proof -
  obtain rc r' h' where 1: "rpacket_read h r n = Some (rc, if length d < unat n then [] else take (unat n) d, r', h')"
    "reader (r', h') (if length d < unat n then d else drop (unat n) d)" "r_raw r' = 0"
    using reader_read_any [OF rd] by blast
  define bs where "bs = (if length d < unat n then [] else take (unat n) d)"
  have l: "length bs \<le> unat n" by (simp add: bs_def)
  have f: "fst (decode_number (unat n) d) = unat (le_word bs :: u64)" by (simp add: decode_number_def bs_def)
  have w: "ucast (le_word bs :: 'a word) = (le_word bs :: u64)" using l n by (intro le_word_width) auto
  have "unat (le_word bs :: u64) < 2 ^ (8 * length bs)" using l n by (intro le_word_less) simp
  also have "\<dots> \<le> (2 :: nat) ^ (8 * unat n)" using l by (intro power_increasing) simp_all
  finally have lt: "unat (le_word bs :: u64) < 2 ^ (8 * unat n)" .
  have "unat (ucast (le_word bs :: 'a word) :: u64) = unat (le_word bs :: 'a word)" 
  proof -
    have "unat (le_word bs :: 'a word) < 2 ^ LENGTH('a)" by (rule unsigned_less)
    also have "\<dots> \<le> (2 :: nat) ^ 64" using n(3) by (intro power_increasing) simp_all
    finally show ?thesis by (simp add: unsigned_ucast_eq take_bit_nat_eq_self)
  qed
  then have "unat (le_word bs :: 'a word) = unat (le_word bs :: u64)" using w by simp
  moreover have "snd (decode_number (unat n) d) = (if length d < unat n then d else drop (unat n) d)" by (simp add: decode_number_def)
  ultimately show thesis using that [of rc bs r' h'] 1 f w lt by (simp add: bs_def)
qed

text \<open>A block is read as the decoder reads it.\<close>

lemma read_block:
  assumes rd: "reader (r, h) d"
  obtains p r' h' n b d' where "decode_block d = (n, b, d')" "rpacket_read_binary h r l = Some (p, of_nat n, r', h')"
    "n < 2 ^ 32" "reader (r', h') d'" "p = None \<longleftrightarrow> b = None" "\<forall>bs. b = Some bs \<longrightarrow> ptr_bytes h' p n = Some bs \<and> length bs = n"
proof -
  have u4: "unat (4 :: u32) = 4" by simp
  obtain rc bs r1 h1 where 1: "rpacket_read h r 4 = Some (rc, bs, r1, h1)" "reader (r1, h1) (snd (decode_number 4 d))"
    "r_raw r1 = 0" "unat (le_word bs :: u32) = fst (decode_number 4 d)" "fst (decode_number 4 d) < 2 ^ 32"
    by (rule read_number [where 'a = 32, OF rd, of 4]) (simp_all add: u4 that)
  define n d1 where "n = fst (decode_number 4 d)" and "d1 = snd (decode_number 4 d)"
  have u: "rpacket_read_uint32 h r = Some (of_nat n, r1, h1)"
    using 1(1) by (simp add: rpacket_read_uint32_def n_def 1(4) [symmetric])
  have un: "unat (of_nat n :: u32) = n" using 1(5) by (simp add: n_def unat_of_nat)
  have dec: "decode_block d = (if d1 = [] \<or> length d1 < n then (n, None, d1) else (n, Some (take n d1), drop n d1))"
    by (simp add: decode_block_def n_def d1_def Let_def split: prod.splits)
  obtain qs where q: "rview h1 r1 qs d1" "bin_ok h1 r1 qs" using 1(2) by (auto simp: reader_def d1_def)
  have raw: "r_raw r = 0" using rd by (auto simp: reader_def)
  have rem: "unat (r_data_remain r1) = length d1" using rview_length [OF q(1)] by simp
  show thesis
  proof (cases "d1 = [] \<or> length d1 < n")
    case True
    then have "r_data_remain r1 = 0 \<or> r_data_remain r1 < of_nat n"
      using rem un by (auto simp: word_less_nat_alt unat_eq_0)
    then have "rpacket_read_binary h r l = Some (None, of_nat n, r1, h1)"
      using raw u by (auto simp: rpacket_read_binary_def Let_def)
    then show thesis using that [of n None d1 None r1 h1] True dec 1(2,5) by (simp add: n_def d1_def)
  next
    case False
    then have le: "unat (of_nat n :: u32) \<le> length d1" by (simp add: un)
    obtain p r' h' qs' where
      2: "rpacket_read_binary h r l = Some (p, of_nat n, r', h')" "p = None \<longleftrightarrow> d1 = []"
      "ptr_bytes h' p n = Some (take n d1)" "reads h1 r1 h' r' qs' (drop n d1)"
      by (rule rpacket_read_block [OF u raw q le, of l]) (unfold un, rule that)
    have "reader (r', h') (drop n d1)" using 2(4) 1(3) by (auto simp: reader_def reads_def)
    moreover have "n < 2 ^ 32" using 1(5) by (simp only: n_def)
    moreover have "decode_block d = (n, Some (take n d1), drop n d1)" using False dec by simp
    moreover have "length (take n d1) = n" "p \<noteq> None" using False 2(2) by simp_all
    ultimately show thesis using that [of n "Some (take n d1)" "drop n d1" p r' h'] 2(1,3) by blast
  qed
qed

text \<open>The string in a block that has a terminator.\<close>

lemma ptr_string_block:
  assumes "ptr_bytes h p n = Some bs" and "p \<noteq> None" and "0 \<in> set bs"
  shows "ptr_string h p = Some (takeWhile (\<lambda>c. c \<noteq> 0) bs)"
proof -
  obtain a off where p: "p = Some (a, off)" using assms(2) by auto
  obtain x where x: "bget h a = Some x" "mem_read off n (b_buf x) = Some bs"
    using assms(1) p by (auto simp: ptr_bytes_def bind_eq_Some_conv)
  define s where "s = takeWhile (\<lambda>c. c \<noteq> 0) bs"
  have bs: "bs = take n (drop off (b_buf x))" using x(2) by (auto simp: mem_read_def split: if_splits)
  obtain t where t: "bs = s @ 0 # t" "0 \<notin> set s"
  proof -
    have "dropWhile (\<lambda>c. c \<noteq> 0) bs \<noteq> []" using assms(3) by auto
    moreover from this have "hd (dropWhile (\<lambda>c. c \<noteq> 0) bs) = 0" using hd_dropWhile by blast
    ultimately have "bs = s @ 0 # tl (dropWhile (\<lambda>c. c \<noteq> 0) bs)" unfolding s_def
      by (metis list.collapse takeWhile_dropWhile_id)
    moreover have "0 \<notin> set s" unfolding s_def by (auto dest: set_takeWhileD)
    ultimately show thesis using that by blast
  qed
  have e: "drop off (b_buf x) = s @ 0 # t @ drop n (drop off (b_buf x))"
    using append_take_drop_id [of n "drop off (b_buf x)"] t(1) unfolding bs by simp
  have "length (drop off (b_buf x)) = length s + Suc (length (t @ drop n (drop off (b_buf x))))" by (subst e) simp
  then have le: "off + length s \<le> length (b_buf x)" unfolding length_drop by linarith
  have len: "c_strlen (drop off (b_buf x)) = Some (length s)" by (subst e) (rule c_strlen_terminated [OF t(2)])
  have "take (length s) (drop off (b_buf x)) = s" by (subst e) simp
  then have "mem_read off (length s) (b_buf x) = Some s" using le by (simp add: mem_read_def)
  then show ?thesis using x(1) len by (simp add: ptr_string_def p s_def [symmetric])
qed

lemma read_call_number:
  assumes rd: "reader (r, h) d" and k: "k \<notin> {K_binary, K_string}"
  shows "\<exists>v s'. read_call (r, h) k = Some (A_number v, s') \<and> decode d k = (E_is (A_number v), snd (decode_number (width_of k) d)) \<and>
    reader s' (snd (decode_number (width_of k) d)) \<and> unat v < 2 ^ (8 * width_of k)"
proof -
  define n :: u32 where "n = of_nat (width_of k)"
  have n: "unat n = width_of k" "width_of k \<le> 8" "0 < width_of k" by (cases k; simp add: n_def width_of_def)+
  have v: "unat (of_nat (fst (decode_number (width_of k) d)) :: u64) < 2 ^ (8 * width_of k)"
    if "fst (decode_number (width_of k) d) < 2 ^ (8 * width_of k)"
  proof -
    have "unat (of_nat (fst (decode_number (width_of k) d)) :: u64) \<le> fst (decode_number (width_of k) d)"
      by (simp add: unat_of_nat)
    then show ?thesis using that by linarith
  qed
  have dec: "decode d k = (E_is (A_number (of_nat (fst (decode_number (width_of k) d)))), snd (decode_number (width_of k) d))"
    using k by (cases k) (simp_all add: decode_def split: prod.splits)
  show ?thesis
  proof (cases k)
    case K_uint8
    obtain rc bs r' h' where 1: "rpacket_read h r n = Some (rc, bs, r', h')" "reader (r', h') (snd (decode_number (unat n) d))"
      "ucast (le_word bs :: u8) = (of_nat (fst (decode_number (unat n) d)) :: u64)" "fst (decode_number (unat n) d) < 2 ^ (8 * unat n)"
      by (rule read_number [where 'a = 8, OF rd, of n]) (use n K_uint8 in \<open>simp_all add: width_of_def that\<close>)
    then show ?thesis using dec v n K_uint8
      by (simp add: read_call_def rpacket_read_uint8_def n_def width_of_def)
  next
    case K_uint16
    obtain rc bs r' h' where 1: "rpacket_read h r n = Some (rc, bs, r', h')" "reader (r', h') (snd (decode_number (unat n) d))"
      "ucast (le_word bs :: u16) = (of_nat (fst (decode_number (unat n) d)) :: u64)" "fst (decode_number (unat n) d) < 2 ^ (8 * unat n)"
      by (rule read_number [where 'a = 16, OF rd, of n]) (use n K_uint16 in \<open>simp_all add: width_of_def that\<close>)
    then show ?thesis using dec v n K_uint16
      by (simp add: read_call_def rpacket_read_uint16_def n_def width_of_def)
  next
    case K_uint32
    obtain rc bs r' h' where 1: "rpacket_read h r n = Some (rc, bs, r', h')" "reader (r', h') (snd (decode_number (unat n) d))"
      "ucast (le_word bs :: u32) = (of_nat (fst (decode_number (unat n) d)) :: u64)" "fst (decode_number (unat n) d) < 2 ^ (8 * unat n)"
      by (rule read_number [where 'a = 32, OF rd, of n]) (use n K_uint32 in \<open>simp_all add: width_of_def that\<close>)
    then show ?thesis using dec v n K_uint32
      by (simp add: read_call_def rpacket_read_uint32_def n_def width_of_def)
  next
    case K_uint64
    obtain rc bs r' h' where 1: "rpacket_read h r n = Some (rc, bs, r', h')" "reader (r', h') (snd (decode_number (unat n) d))"
      "ucast (le_word bs :: u64) = (of_nat (fst (decode_number (unat n) d)) :: u64)" "fst (decode_number (unat n) d) < 2 ^ (8 * unat n)"
      by (rule read_number [where 'a = 64, OF rd, of n]) (use n K_uint64 in \<open>simp_all add: width_of_def that\<close>)
    then show ?thesis using dec v n K_uint64
      by (simp add: read_call_def rpacket_read_uint64_def n_def width_of_def)
  next
    case K_double
    obtain rc bs r' h' where 1: "rpacket_read h r n = Some (rc, bs, r', h')" "reader (r', h') (snd (decode_number (unat n) d))"
      "ucast (le_word bs :: u64) = (of_nat (fst (decode_number (unat n) d)) :: u64)" "fst (decode_number (unat n) d) < 2 ^ (8 * unat n)"
      by (rule read_number [where 'a = 64, OF rd, of n]) (use n K_double in \<open>simp_all add: width_of_def that\<close>)
    then show ?thesis using dec v n K_double
      by (simp add: read_call_def rpacket_read_double_def n_def width_of_def)
  qed (use k in simp_all)
qed

lemma read_call_ok:
  assumes "reader s d"
  shows "\<exists>a s'. read_call s k = Some (a, s') \<and> meets a (fst (decode d k)) \<and> answers_kind a k \<and> reader s' (snd (decode d k))"
proof -
  obtain r h where s: "s = (r, h)" by (cases s)
  note rd = assms [unfolded s]
  show ?thesis
  proof (cases "k \<in> {K_binary, K_string}")
    case False
    from read_call_number [OF rd this] obtain v s' where
      "read_call (r, h) k = Some (A_number v, s')" "decode d k = (E_is (A_number v), snd (decode_number (width_of k) d))"
      "reader s' (snd (decode_number (width_of k) d))" "unat v < 2 ^ (8 * width_of k)" by blast
    then show ?thesis using s False by simp
  next
    case True
    obtain p r' h' n b d' where 1: "decode_block d = (n, b, d')" "rpacket_read_binary h r 0 = Some (p, of_nat n, r', h')"
      "n < 2 ^ 32" "reader (r', h') d'" "p = None \<longleftrightarrow> b = None" "\<forall>bs. b = Some bs \<longrightarrow> ptr_bytes h' p n = Some bs \<and> length bs = n"
      by (rule read_block [OF rd, of 0]) (rule that)
    have un: "unat (of_nat n :: u32) = n" using 1(3) by (simp add: unat_of_nat)
    have raw: "r_raw r = 0" using rd by (auto simp: reader_def)
    have st: "rpacket_read_string h r = Some (p, r', h')" using 1(2) raw by (simp add: rpacket_read_string_def)
    show ?thesis
    proof (cases b)
      case None
      then have "p = None" using 1(5) by simp
      then show ?thesis using True 1(1,2,4) None s st by (auto simp: read_call_def decode_def)
    next
      case (Some bs)
      then have pb: "ptr_bytes h' p n = Some bs" "length bs = n" "p \<noteq> None" using 1(5,6) by simp_all
      from True consider "k = K_binary" | "k = K_string" by blast
      then show ?thesis
      proof cases
        case 1
        then show ?thesis using \<open>decode_block d = (n, b, d')\<close> \<open>rpacket_read_binary h r 0 = _\<close> \<open>reader (r', h') d'\<close> Some pb un s
          by (auto simp: read_call_def decode_def)
      next
        case 2
        have "ptr_string h' p = Some (takeWhile (\<lambda>c. c \<noteq> 0) bs)" if "0 \<in> set bs"
          using ptr_string_block [OF pb(1,3) that] .
        then show ?thesis using 2 \<open>decode_block d = (n, b, d')\<close> \<open>reader (r', h') d'\<close> Some pb st s
          by (auto simp: read_call_def decode_def)
      qed
    qed
  qed
qed

section \<open>Properties\<close>

text \<open>C3: a packet may hold any bytes and a program may read it by any sequence of calls, whether or not
  the types are those that were written and past the end too: no call leaves the packet's buffers or gets
  stuck, each gives an answer of its type, a number below its width or a block as long as its length, and
  the answers are those of the decoder, which are a function of the bytes alone.\<close>

theorem packet_reads_any_bytes:
  assumes "reader s d"
  shows "\<exists>as s'. get_all read_call s ks = Some (as, s') \<and> list_all2 meets as (fst (decode_all d ks)) \<and>
    list_all2 answers_kind as ks \<and> reader s' (snd (decode_all d ks))"
  using assms
proof (induction ks arbitrary: s d)
  case (Cons k ks)
  obtain a s1 where 1: "read_call s k = Some (a, s1)" "meets a (fst (decode d k))" "answers_kind a k" "reader s1 (snd (decode d k))"
    using read_call_ok [OF Cons.prems] by blast
  obtain as s2 where 2: "get_all read_call s1 ks = Some (as, s2)" "list_all2 meets as (fst (decode_all (snd (decode d k)) ks))"
    "list_all2 answers_kind as ks" "reader s2 (snd (decode_all (snd (decode d k)) ks))"
    using Cons.IH [OF 1(4)] by blast
  have e: "decode_all d (k # ks) = (fst (decode d k) # fst (decode_all (snd (decode d k)) ks), snd (decode_all (snd (decode d k)) ks))"
    by (simp add: Let_def split: prod.splits)
  show ?case unfolding e using 1 2 by simp
qed simp

text \<open>The reader of a packet with the bytes 1, 0, 9, 0, 0, 0, 5: a number, and a block of nine bytes of which
  only one is there.\<close>

lemma packet_reads_any_bytes_witness:
  "\<exists>s s'. reader s [1, 0, 9, 0, 0, 0, 5] \<and>
    get_all read_call s [K_uint16, K_binary, K_uint32] = Some ([A_number 1, A_block None 9, A_number 0], s') \<and> reader s' [5]"
proof -
  obtain w where w: "writer w [] 236"
    by (rule created_writer [of heap0 16 4 1 0]) (use GetSize_of_pow2_16 in \<open>auto simp: heap0_ok intro: that\<close>)
  let ?fs = "map F_uint8 [1, 0, 9, 0, 0, 0, 5]"
  have "concat (map field_bytes ?fs) = [1, 0, 9, 0, 0, 0, 5]" by (simp add: le_bytes_def)
  then obtain w' where "writer w' [1, 0, 9, 0, 0, 0, 5] (236 - 7)"
    using packet.put_all_ex [OF w, of ?fs] by auto
  then obtain s where s: "reader s [1, 0, 9, 0, 0, 0, 5]" using open_packet_reader by blast
  have "decode_all [1, 0, 9, 0, 0, 0, 5] [K_uint16, K_binary, K_uint32] =
      ([E_is (A_number 1), E_is (A_block None 9), E_is (A_number 0)], [5])"
    by code_simp
  with packet_reads_any_bytes [OF s, of "[K_uint16, K_binary, K_uint32]"] obtain as s' where
    "get_all read_call s [K_uint16, K_binary, K_uint32] = Some (as, s')" "reader s' [5]"
    "list_all2 meets as [E_is (A_number 1), E_is (A_block None 9), E_is (A_number 0)]"
    by auto
  moreover from this(3) have "as = [A_number 1, A_block None 9, A_number 0]" by (auto simp: list_all2_Cons2)
  ultimately show ?thesis using s by blast
qed

end
