(* ===== verification/Socket_Poll.thy ===== *)
theory Socket_Poll
  imports Socket_Io
begin

text \<open>
  WSASend and WSARecv of src/KendyNet.c as _POLL selects them: the caller chooses whether a request that can
  be done is done at once or put into the event queue of the engine.  The lock section is that of the other
  variant, io_submit of Socket_Io.  The functions that do the I/O in this variant are in a header that is not
  in the repository: a call is followed up to them, and what they do to the marks of a side can happen at
  any time; what they do to the list of pending requests is left out.
\<close>

section \<open>State and steps\<close>

text \<open>SEND_POST and RECV_POST are the same number.\<close>

abbreviation SEND_POST :: int where "SEND_POST \<equiv> 0"

text \<open>A side with, as ghosts, the requests in the order in which they were put on the list and in which they
  were taken off.\<close>

record poll_side =
  po_io :: io_state
  po_inserted :: "addr list"
  po_taken :: "addr list"

fun io_hand :: "io_pc \<Rightarrow> addr list" where
  "io_hand (Io_transfer io c n) = [io]"
| "io_hand (Io_notify io) = [io]"
| "io_hand _ = []"

text \<open>The handle is an address, which GetSocketByHandle gives back.  The value is what the call returns, or nothing
  when it is what _send or _recv returns.  A request that is posted is put into the queue after the unlock, by
  io_notify of Socket_Io.\<close>

definition WSA_poll :: "addr \<Rightarrow> int \<Rightarrow> nat \<Rightarrow> poll_side \<Rightarrow> (int option \<times> poll_side) option" where
  "WSA_poll sock flag t p =
     (if sock = NULL then Some (Some (-1), p)
      else case io_at (po_io p) t of
        Io_submit io \<Rightarrow> do {
          s \<leftarrow> io_submit (po_io p) t;
          let p = p\<lparr>po_io := s, po_inserted := po_inserted p @ [io], po_taken := po_taken p @ io_hand (io_at s t)\<rparr>;
          Some (case io_at s t of
            Io_transfer io c n \<Rightarrow> if flag = SEND_POST then (Some 0, p\<lparr>po_io := io_goto s t (Io_notify io)\<rparr>) else (None, p)
          | _ \<Rightarrow> (Some 0, p))
        }
      | _ \<Rightarrow> None)"

text \<open>The marks of a side, as the functions that are not there set them.\<close>

definition poll_mark :: "int \<Rightarrow> int \<Rightarrow> poll_side \<Rightarrow> poll_side" where
  "poll_mark r c p = p\<lparr>po_io := (po_io p)\<lparr>sd := (sd (po_io p))\<lparr>io_ready := r, active_count := c\<rparr>\<rparr>\<rparr>"

definition poll_init :: "addr list \<Rightarrow> poll_side" where
  "poll_init rs = \<lparr>po_io = io_init rs, po_inserted = [], po_taken = []\<rparr>"

text \<open>The threads that make calls are those of T.\<close>

inductive poll_step :: "nat set \<Rightarrow> poll_side \<Rightarrow> poll_side \<Rightarrow> bool" for T where
  poll_start: "t \<in> T \<Longrightarrow> io_at (po_io p) t = Io_outside \<Longrightarrow> io_idle (po_io p) io \<Longrightarrow> ll_free (nodes (po_io p)) io \<Longrightarrow>
    poll_step T p (p\<lparr>po_io := io_call (po_io p) t io\<rparr>)"
| poll_submit: "t \<in> T \<Longrightarrow> sock \<noteq> NULL \<Longrightarrow> WSA_poll sock flag t p = Some (r, p') \<Longrightarrow> poll_step T p p'"
| poll_post: "t \<in> T \<Longrightarrow> io_notify (po_io p) t = Some s \<Longrightarrow> poll_step T p (p\<lparr>po_io := s\<rparr>)"
| poll_marks: "poll_step T p (poll_mark r c p)"

section \<open>The invariant\<close>

definition poll_inv :: "nat set \<Rightarrow> poll_side \<Rightarrow> bool" where
  "poll_inv T p \<longleftrightarrow> io_ok (po_io p) \<and> io_returned (po_io p) = [] \<and> po_taken p @ waiting_reqs (po_io p) = po_inserted p \<and>
     (\<forall>t. T = {t} \<longrightarrow> io_events (po_io p) @ io_hand (io_at (po_io p) t) = po_taken p)"

lemma poll_inv_init: "length rs < 2 ^ 31 \<Longrightarrow> poll_inv T (poll_init rs)"
  using io_inv_init [of rs] by (simp add: poll_inv_def poll_init_def io_inv_def) (simp add: io_init_def)

lemma io_submit_hand:
  assumes ok: "io_ok s" and t: "io_at s t = Io_submit io" and s': "io_submit s t = Some s'"
  shows "io_hand (io_at s' t) @ waiting_reqs s' = waiting_reqs s @ [io]" and "io_events s' = io_events s" "io_returned s' = io_returned s"
    and "io_at s' t = Io_outside \<or> (\<exists>r c. io_at s' t = Io_transfer r c False)"
proof -
  have p: "io_places s" using ok by (simp add: io_ok_def)
  note d = io_placesD [OF p]
  have w: "io_with (io_at s t) = Some io" using t by simp
  obtain h l where 1: "link_list_push_back (nodes s) (pending (sd s)) io = Some (h, l)"
    "ll_repr h l (waiting_reqs s @ [io])" "\<And>m. m \<notin> insert io (set (waiting_reqs s)) \<Longrightarrow> h m = nodes s m"
    by (rule link_list_push_back_repr [OF d(1) d(4) [OF w] d(5) [OF w] io_room [OF p d(4) [OF w] d(5) [OF w]]]) (rule that)
  obtain x xs where x: "waiting_reqs s @ [io] = x # xs" by (cases "waiting_reqs s @ [io]") auto
  obtain h' l' where 2: "link_list_pop h l = Some (x, h', l')" "ll_free h' x"
    by (rule link_list_pop_repr [of h l x xs]) (use 1(2) x in auto)
  have n: "x \<noteq> NULL" using 2(2) by (simp add: ll_free_def)
  have "io_hand (io_at s' t) @ waiting_reqs s' = waiting_reqs s @ [io] \<and> io_events s' = io_events s \<and> io_returned s' = io_returned s \<and>
    (io_at s' t = Io_outside \<or> (\<exists>r c. io_at s' t = Io_transfer r c False))"
    using s' t 1(1) 2(1) n x by (auto simp: io_submit_def Let_def split: if_splits)
  then show "io_hand (io_at s' t) @ waiting_reqs s' = waiting_reqs s @ [io]" "io_events s' = io_events s" "io_returned s' = io_returned s"
    "io_at s' t = Io_outside \<or> (\<exists>r c. io_at s' t = Io_transfer r c False)" by blast+
qed

lemma io_ok_retag:
  assumes "io_ok s" and "io_with q = io_with (io_at s t)"
  shows "io_ok (io_goto s t q)"
  by (rule io_ok_keep [OF assms(1), where t = t and q = q]) (simp_all add: assms(2))

lemma io_ok_mark: "io_ok s \<Longrightarrow> io_ok (s\<lparr>sd := (sd s)\<lparr>io_ready := r, active_count := c\<rparr>\<rparr>)"
  by (rule io_ok_keep [where s = s and t = 0 and q = "io_at s 0"]) simp_all

lemma poll_inv_submit:
  assumes inv: "poll_inv T p" and t: "t \<in> T" and k: "sock \<noteq> NULL" and st: "WSA_poll sock flag t p = Some (r, p')"
  shows "poll_inv T p'"
proof -
  let ?s = "po_io p"
  obtain io s where 1: "io_at ?s t = Io_submit io" "io_submit ?s t = Some s"
    and p': "p' = p\<lparr>po_io := (case io_at s t of Io_transfer r c n \<Rightarrow> if flag = SEND_POST then io_goto s t (Io_notify r) else s | _ \<Rightarrow> s),
       po_inserted := po_inserted p @ [io], po_taken := po_taken p @ io_hand (io_at s t)\<rparr>"
    using st k by (auto simp: WSA_poll_def Let_def split: io_pc.splits bind_splits if_splits)
  have ok: "io_ok ?s" using inv by (simp add: poll_inv_def)
  note h = io_submit_hand [OF ok 1]
  have ok': "io_ok s" using ok 1(2) by (rule io_ok_submit)
  have k: "io_ok (po_io p') \<and> waiting_reqs (po_io p') = waiting_reqs s \<and> io_events (po_io p') = io_events s \<and> io_returned (po_io p') = io_returned s \<and>
    io_hand (io_at (po_io p') t) = io_hand (io_at s t)"
    using h(4) io_ok_retag [OF ok'] ok' by (auto simp: p')
  moreover have "po_taken p' @ waiting_reqs s = po_inserted p'"
    using inv h(1) by (simp add: p' poll_inv_def)
  moreover have "io_events ?s = po_taken p" if "T = {t'}" for t'
    using inv that t 1(1) by (auto simp: poll_inv_def)
  ultimately show ?thesis using h(2,3) t inv by (auto simp: poll_inv_def p')
qed

lemma poll_inv_post:
  assumes inv: "poll_inv T p" and t: "t \<in> T" and st: "io_notify (po_io p) t = Some s"
  shows "poll_inv T (p\<lparr>po_io := s\<rparr>)"
proof -
  have "io_ok s" using inv st io_ok_notify by (auto simp: poll_inv_def)
  then show ?thesis using inv t st by (auto simp: poll_inv_def io_notify_def split: io_pc.splits)
qed

lemma poll_inv_start:
  assumes inv: "poll_inv T p" and t: "t \<in> T" and "io_at (po_io p) t = Io_outside" "io_idle (po_io p) io" "ll_free (nodes (po_io p)) io"
  shows "poll_inv T (p\<lparr>po_io := io_call (po_io p) t io\<rparr>)"
proof -
  have "io_ok (io_call (po_io p) t io)" using io_ok_call inv assms(3-5) by (simp add: poll_inv_def)
  then show ?thesis using inv t assms(3) by (auto simp: poll_inv_def io_call_def)
qed

lemma poll_step_inv: "poll_inv T p \<Longrightarrow> poll_step T p p' \<Longrightarrow> poll_inv T p'"
  by (erule poll_step.cases)
    (auto intro: poll_inv_start poll_inv_submit poll_inv_post simp: poll_mark_def, simp add: poll_inv_def io_ok_mark)

interpretation poll: invariant_system "poll_init rs" "poll_step T" "\<lambda>p. length rs < 2 ^ 31 \<longrightarrow> poll_inv T p" for rs T
  by unfold_locales (auto intro: poll_inv_init poll_step_inv)

section \<open>The two sides of a socket\<close>

record poll_sock =
  poll_recv :: poll_side
  poll_send :: poll_side

definition WSARecv_poll :: "addr \<Rightarrow> int \<Rightarrow> nat \<Rightarrow> poll_sock \<Rightarrow> (int option \<times> poll_sock) option" where
  "WSARecv_poll sock flag t s = map_option (map_prod id (\<lambda>p. s\<lparr>poll_recv := p\<rparr>)) (WSA_poll sock flag t (poll_recv s))"

definition WSASend_poll :: "addr \<Rightarrow> int \<Rightarrow> nat \<Rightarrow> poll_sock \<Rightarrow> (int option \<times> poll_sock) option" where
  "WSASend_poll sock flag t s = map_option (map_prod id (\<lambda>p. s\<lparr>poll_send := p\<rparr>)) (WSA_poll sock flag t (poll_send s))"

definition psock_init :: "addr list \<Rightarrow> addr list \<Rightarrow> poll_sock" where
  "psock_init rs ws = \<lparr>poll_recv = poll_init rs, poll_send = poll_init ws\<rparr>"

text \<open>The calls, and the other steps of the sides.\<close>

inductive psock_step :: "nat set \<Rightarrow> poll_sock \<Rightarrow> poll_sock \<Rightarrow> bool" for T where
  ps_recv: "t \<in> T \<Longrightarrow> sock \<noteq> NULL \<Longrightarrow> WSARecv_poll sock flag t s = Some (r, s') \<Longrightarrow> psock_step T s s'"
| ps_send: "t \<in> T \<Longrightarrow> sock \<noteq> NULL \<Longrightarrow> WSASend_poll sock flag t s = Some (r, s') \<Longrightarrow> psock_step T s s'"
| ps_recv_side: "poll_step T (poll_recv s) p \<Longrightarrow> psock_step T s (s\<lparr>poll_recv := p\<rparr>)"
| ps_send_side: "poll_step T (poll_send s) p \<Longrightarrow> psock_step T s (s\<lparr>poll_send := p\<rparr>)"

lemma psock_step_sides:
  assumes "psock_step T s s'"
  shows "poll_recv s' = poll_recv s \<or> poll_step T (poll_recv s) (poll_recv s')"
    and "poll_send s' = poll_send s \<or> poll_step T (poll_send s) (poll_send s')"
proof -
  have "(poll_recv s' = poll_recv s \<or> poll_step T (poll_recv s) (poll_recv s')) \<and>
      (poll_send s' = poll_send s \<or> poll_step T (poll_send s) (poll_send s'))"
    using assms
  proof cases
    case (ps_recv t sock flag r)
    then obtain p where "WSA_poll sock flag t (poll_recv s) = Some (r, p)" "s' = s\<lparr>poll_recv := p\<rparr>"
      by (auto simp: WSARecv_poll_def)
    then show ?thesis using poll_submit [OF ps_recv(1,2)] by simp
  next
    case (ps_send t sock flag r)
    then obtain p where "WSA_poll sock flag t (poll_send s) = Some (r, p)" "s' = s\<lparr>poll_send := p\<rparr>"
      by (auto simp: WSASend_poll_def)
    then show ?thesis using poll_submit [OF ps_send(1,2)] by simp
  qed simp_all
  then show "poll_recv s' = poll_recv s \<or> poll_step T (poll_recv s) (poll_recv s')"
    "poll_send s' = poll_send s \<or> poll_step T (poll_send s) (poll_send s')" by blast+
qed

lemma psock_reach:
  "reach (psock_init rs ws) (psock_step T) s \<Longrightarrow> reach (poll_init rs) (poll_step T) (poll_recv s) \<and>
     reach (poll_init ws) (poll_step T) (poll_send s)"
proof (induction rule: reach.induct)
  case reach_init
  show ?case by (simp add: psock_init_def reach.reach_init)
next
  case (reach_step s s')
  then show ?case using psock_step_sides [OF reach_step.hyps(2)] by (metis reach.reach_step)
qed

lemma psock_reach_recv:
  "reach (poll_init rs) (poll_step T) p \<Longrightarrow> reach (psock_init rs ws) (psock_step T) \<lparr>poll_recv = p, poll_send = poll_init ws\<rparr>"
proof (induction rule: reach.induct)
  case reach_init
  show ?case using reach.reach_init [of "psock_init rs ws"] by (simp add: psock_init_def)
next
  case (reach_step p p')
  then show ?case using reach.reach_step [OF reach_step.IH ps_recv_side] by fastforce
qed

section \<open>Runs\<close>

text \<open>A schedule of posted requests: which thread does what next.\<close>

datatype poll_action = Do_call nat addr | Do_wsa nat | Do_post nat | Do_mark int int

definition poll_act :: "poll_side \<Rightarrow> poll_action \<Rightarrow> poll_side option" where
  "poll_act p a = (case a of
     Do_call t io \<Rightarrow> if io_at (po_io p) t = Io_outside \<and> io_idle (po_io p) io \<and> ll_free (nodes (po_io p)) io
       then Some (p\<lparr>po_io := io_call (po_io p) t io\<rparr>) else None
   | Do_wsa t \<Rightarrow> map_option snd (WSA_poll 8 SEND_POST t p)
   | Do_post t \<Rightarrow> map_option (\<lambda>s. p\<lparr>po_io := s\<rparr>) (io_notify (po_io p) t)
   | Do_mark r c \<Rightarrow> Some (poll_mark r c p))"

fun poll_thread :: "poll_action \<Rightarrow> nat option" where
  "poll_thread (Do_call t io) = Some t"
| "poll_thread (Do_wsa t) = Some t"
| "poll_thread (Do_post t) = Some t"
| "poll_thread (Do_mark r c) = None"

fun poll_sched :: "poll_side \<Rightarrow> poll_action list \<Rightarrow> poll_side option" where
  "poll_sched p [] = Some p"
| "poll_sched p (a # as) = do { p \<leftarrow> poll_act p a; poll_sched p as }"

lemma poll_act_step: "poll_act p a = Some p' \<Longrightarrow> set_option (poll_thread a) \<subseteq> T \<Longrightarrow> poll_step T p p'"
  by (cases a) (auto simp: poll_act_def split: if_splits intro: poll_start poll_submit [of _ _ 8] poll_post poll_marks)

lemma poll_sched_reach:
  "poll_sched p as = Some p' \<Longrightarrow> (\<forall>a\<in>set as. set_option (poll_thread a) \<subseteq> T) \<Longrightarrow> reach i (poll_step T) p \<Longrightarrow> reach i (poll_step T) p'"
proof (induction as arbitrary: p)
  case (Cons a as)
  then obtain x where x: "poll_act p a = Some x" "poll_sched x as = Some p'" by (auto split: Option.bind_splits)
  have "poll_step T p x" using x(1) Cons.prems(2) by (intro poll_act_step) auto
  with Cons.prems(3) have "reach i (poll_step T) x" by (rule reach_step)
  then show ?case using Cons.IH [OF x(2)] Cons.prems(2) by simp
qed simp

text \<open>Two threads post a request each; the second is put into the queue first.\<close>

definition two_posts :: "poll_action list" where
  "two_posts = [Do_mark 1 1, Do_call 0 1, Do_wsa 0, Do_call 1 2, Do_wsa 1, Do_post 1, Do_post 0]"

definition one_post :: "poll_action list" where
  "one_post = [Do_mark 1 1, Do_call 0 1, Do_wsa 0, Do_post 0]"

lemmas poll_run_defs = poll_act_def WSA_poll_def poll_mark_def poll_init_def io_idle_def ll_free_def io_call_def
  io_goto_def io_init_def InitSocket_def io_submit_def list_ops io_notify_def Let_def

lemma two_posts_run:
  obtains p where "poll_sched (poll_init [1, 2]) two_posts = Some p" "po_inserted p = [1, 2]" "io_events (po_io p) = [2, 1]"
    "waiting_reqs (po_io p) = []"
proof -
  have "case poll_sched (poll_init [1, 2]) two_posts of None \<Rightarrow> False
    | Some p \<Rightarrow> po_inserted p = [1, 2] \<and> io_events (po_io p) = [2, 1] \<and> waiting_reqs (po_io p) = []"
    by (simp add: two_posts_def poll_run_defs)
  then show thesis using that by (auto split: option.splits)
qed

section \<open>Properties\<close>


text \<open>With two threads that post, the event queue can get the requests in the other order than the one in which
  they were submitted, although the list is there to keep the order: a request is taken under the lock of
  the side and put into the queue after it.\<close>

theorem poll_posts_reordered:
  "\<exists>s. reach (psock_init [1, 2] []) (psock_step {0, 1}) s \<and> po_inserted (poll_recv s) = [1, 2] \<and>
    io_events (po_io (poll_recv s)) = [2, 1]"
proof -
  obtain p where p: "poll_sched (poll_init [1, 2]) two_posts = Some p" "po_inserted p = [1, 2]" "io_events (po_io p) = [2, 1]"
    by (rule two_posts_run)
  have "reach (poll_init [1, 2]) (poll_step {0, 1}) p"
    by (rule poll_sched_reach [OF p(1) _ reach_init]) (simp add: two_posts_def)
  from psock_reach_recv [OF this, of "[]"] p(2,3) show ?thesis by (intro exI conjI) auto
qed


end
