(* ===== verification/Sync_Destroy.thy ===== *)
theory Sync_Destroy
  imports Sync Spinlock Link_List
begin

text \<open>
  The life of the objects of src/epoll_mutilthread/src/sync.c and spinlock.c in memory: where the functions that
  create them put them, and what those that destroy them free.  The addresses that malloc gives are arguments.
  None is the use of what is not there, or a destruction that POSIX leaves undefined: of a mutex that is
  held or of a condition on which a thread waits.
\<close>

section \<open>Memory\<close>

text \<open>A barrier in memory: the addresses of its condition and its mutex, and its counter.\<close>

record sync_mem =
  sm_mutex :: "addr \<rightharpoonup> mutex"
  sm_cond :: "addr \<rightharpoonup> condition"
  sm_barrior :: "addr \<rightharpoonup> addr \<times> addr \<times> int"
  sm_spin :: "addr \<rightharpoonup> spinlock"
  sm_list :: "addr \<rightharpoonup> link_list"

definition barrior_new :: "addr \<Rightarrow> addr \<Rightarrow> addr \<Rightarrow> int \<Rightarrow> sync_mem \<Rightarrow> sync_mem" where
  "barrior_new b m c waitcount s =
     s\<lparr>sm_mutex := (sm_mutex s)(m \<mapsto> mutex_create), sm_cond := (sm_cond s)(c \<mapsto> condition_create),
       sm_barrior := (sm_barrior s)(b \<mapsto> (c, m, waitcount))\<rparr>"

section \<open>Destroying\<close>

text \<open>The pointer is given by its value; the result has the value that is stored in it.\<close>

definition mutex_destroy :: "addr \<Rightarrow> sync_mem \<Rightarrow> (addr \<times> sync_mem) option" where
  "mutex_destroy m s = do {
     x \<leftarrow> sm_mutex s m;
     if holder x \<noteq> 0 then None else Some (NULL, s\<lparr>sm_mutex := (sm_mutex s)(m := None)\<rparr>)
   }"

definition condition_destroy :: "addr \<Rightarrow> sync_mem \<Rightarrow> (addr \<times> sync_mem) option" where
  "condition_destroy c s = do {
     x \<leftarrow> sm_cond s c;
     if waiting x \<noteq> {} then None else Some (NULL, s\<lparr>sm_cond := (sm_cond s)(c := None)\<rparr>)
   }"

definition barrior_destroy :: "addr \<Rightarrow> sync_mem \<Rightarrow> (addr \<times> sync_mem) option" where
  "barrior_destroy b s = do {
     (c, m, k) \<leftarrow> sm_barrior s b;
     (m', s) \<leftarrow> mutex_destroy m s;
     (c', s) \<leftarrow> condition_destroy c s;
     Some (NULL, s\<lparr>sm_barrior := (sm_barrior s)(b := None)\<rparr>)
   }"

definition spin_destroy :: "addr \<Rightarrow> sync_mem \<Rightarrow> (addr \<times> sync_mem) option" where
  "spin_destroy sp s = do {
     x \<leftarrow> sm_spin s sp;
     Some (NULL, s\<lparr>sm_spin := (sm_spin s)(sp := None)\<rparr>)
   }"

text \<open>Only the header is freed; destroying a null pointer does nothing.\<close>

definition destroy_link_list :: "addr \<Rightarrow> sync_mem \<Rightarrow> (addr \<times> sync_mem) option" where
  "destroy_link_list l s =
     (if l = NULL then Some (NULL, s)
      else do { x \<leftarrow> sm_list s l; Some (NULL, s\<lparr>sm_list := (sm_list s)(l := None)\<rparr>) })"

section \<open>A barrier in memory\<close>

definition has_barrior :: "addr \<Rightarrow> addr \<Rightarrow> addr \<Rightarrow> barrior \<Rightarrow> sync_mem \<Rightarrow> bool" where
  "has_barrior b m c B s \<longleftrightarrow> sm_barrior s b = Some (c, m, wait_count B) \<and> sm_mutex s m = Some (bar_mtx B) \<and>
     sm_cond s c = Some (bar_cond B)"

definition without_barrior :: "addr \<Rightarrow> addr \<Rightarrow> addr \<Rightarrow> sync_mem \<Rightarrow> sync_mem" where
  "without_barrior b m c s = s\<lparr>sm_mutex := (sm_mutex s)(m := None), sm_cond := (sm_cond s)(c := None),
     sm_barrior := (sm_barrior s)(b := None)\<rparr>"

lemma has_barrior_new: "has_barrior b m c (barrior_create n) (barrior_new b m c n s)"
  by (simp add: has_barrior_def barrior_new_def barrior_create_def)

lemma barrior_destroy_iff:
  assumes "has_barrior b m c B s"
  shows "barrior_destroy b s = (if holder (bar_mtx B) = 0 \<and> waiting (bar_cond B) = {} then Some (NULL, without_barrior b m c s) else None)"
  using assms by (simp add: barrior_destroy_def mutex_destroy_def condition_destroy_def has_barrior_def without_barrior_def)

text \<open>What is created and destroyed leaves no trace.\<close>

lemma barrior_new_destroy:
  assumes "sm_mutex s m = None" and "sm_cond s c = None" and "sm_barrior s b = None"
  shows "barrior_destroy b (barrior_new b m c n s) = Some (NULL, s)"
proof -
  have "(sm_mutex s)(m := None) = sm_mutex s" "(sm_cond s)(c := None) = sm_cond s" "(sm_barrior s)(b := None) = sm_barrior s"
    using assms by auto
  then have "without_barrior b m c (barrior_new b m c n s) = s" by (simp add: without_barrior_def barrior_new_def)
  then show ?thesis using barrior_destroy_iff [OF has_barrior_new]
    by (simp add: barrior_create_def mutex_create_def condition_create_def)
qed

section \<open>Properties\<close>


text \<open>A thread that has returned from barrior_wait cannot know that: a barrier for two threads can be destroyed
  although the other thread has not yet woken up, and the mutex that it is about to take is gone.\<close>

theorem barrier_destroyed_too_early:
  "\<exists>s h h'. reach (bar_init 2) bar_step s \<and> bar_left s = 1 \<and> bar_at s 1 = Bar_waiting \<and> has_barrior 7 8 9 (bar s) h \<and>
    barrior_destroy 7 h = Some (NULL, h') \<and> sm_mutex h' 8 = None"
proof -
  let ?s = "bar_two [1,1,1,1,1,2,2,2,2,2,2]"
  let ?h = "\<lparr>sm_mutex = [8 \<mapsto> bar_mtx (bar ?s)], sm_cond = [9 \<mapsto> bar_cond (bar ?s)], sm_barrior = [7 \<mapsto> (9, 8, wait_count (bar ?s))],
    sm_spin = Map.empty, sm_list = Map.empty\<rparr>"
  have "reach (bar_init 2) bar_step ?s"
    using bar_two_runs(2) by (auto simp: bar_two_def intro: bar_sched_reach reach_init simp del: bar_sched.simps)
  moreover have s: "bar_left ?s = 1" "bar_at ?s 1 = Bar_waiting" "holder (bar_mtx (bar ?s)) = 0" "waiting (bar_cond (bar ?s)) = {}"
    by (simp_all add: bar_two_def bar_exec_simps)
  moreover have h: "has_barrior 7 8 9 (bar ?s) ?h" by (simp add: has_barrior_def)
  moreover have "barrior_destroy 7 ?h = Some (NULL, without_barrior 7 8 9 ?h)"
    using barrior_destroy_iff [OF h] s by simp
  moreover have "sm_mutex (without_barrior 7 8 9 ?h) 8 = None" by (simp add: without_barrior_def)
  ultimately show ?thesis by blast
qed

definition no_sync :: sync_mem where
  "no_sync = \<lparr>sm_mutex = Map.empty, sm_cond = Map.empty, sm_barrior = Map.empty, sm_spin = Map.empty, sm_list = Map.empty\<rparr>"


end
