(* ===== verification/Fd_Flags.thy ===== *)
theory Fd_Flags
  imports Net_Handles
begin

text \<open>
  The flags of descriptors: setnonblocking, set_fd and del_fd of src/server_framework.h, and of src/socket.cpp
  what has a meaning, set_nonblocking, set_close_onexec, socket_t and listen_t.  Of the kernel, the
  descriptors that are open with their status flags and their descriptor flags, as fcntl gives and sets
  them, what each epoll instance watches and which sockets listen.
\<close>

section \<open>Descriptors\<close>

abbreviation O_RDWR :: u32 where "O_RDWR \<equiv> 2"
abbreviation FD_CLOEXEC :: u32 where "FD_CLOEXEC \<equiv> 1"

text \<open>The status flags that F_SETFL can change: O_APPEND, O_NONBLOCK, O_ASYNC, O_DIRECT and O_NOATIME.\<close>

abbreviation setfl_mask :: u32 where "setfl_mask \<equiv> 0x46C00"

record fds =
  f_open :: "int set"
  f_status :: "int \<Rightarrow> u32"
  f_desc :: "int \<Rightarrow> u32"
  f_watch :: "(int \<times> int) set"
  f_listen :: "int \<rightharpoonup> int"

definition fcntl_getfl :: "int \<Rightarrow> fds \<Rightarrow> u32" where
  "fcntl_getfl fd k = (if fd \<in> f_open k then f_status k fd else -1)"

definition fcntl_getfd :: "int \<Rightarrow> fds \<Rightarrow> u32" where
  "fcntl_getfd fd k = (if fd \<in> f_open k then f_desc k fd else -1)"

definition fcntl_setfl :: "int \<Rightarrow> u32 \<Rightarrow> fds \<Rightarrow> int \<times> fds" where
  "fcntl_setfl fd v k =
     (if fd \<in> f_open k
      then (0, k\<lparr>f_status := (f_status k)(fd := (f_status k fd AND NOT setfl_mask) OR (v AND setfl_mask))\<rparr>)
      else (-1, k))"

definition fcntl_setfd :: "int \<Rightarrow> u32 \<Rightarrow> fds \<Rightarrow> int \<times> fds" where
  "fcntl_setfd fd v k =
     (if fd \<in> f_open k then (0, k\<lparr>f_desc := (f_desc k)(fd := v AND FD_CLOEXEC)\<rparr>) else (-1, k))"

definition flags_ok :: "fds \<Rightarrow> bool" where
  "flags_ok k \<longleftrightarrow> (\<forall>fd\<in>f_open k. 0 \<le> fd \<and> f_desc k fd AND NOT FD_CLOEXEC = 0)"

section \<open>The server\<close>

definition setnonblocking :: "int \<Rightarrow> fds \<Rightarrow> int \<times> fds" where
  "setnonblocking fd k =
     (let (r, k) = fcntl_setfl fd (fcntl_getfd fd k OR O_NONBLOCK) k
      in if r = -1 then (-1, k) else (0, k))"

definition watch_fd :: "int \<Rightarrow> int \<Rightarrow> fds \<Rightarrow> fds" where
  "watch_fd epfd fd k =
     (let k = snd (setnonblocking fd k)
      in if fd \<in> f_open k then k\<lparr>f_watch := insert (epfd, fd) (f_watch k)\<rparr> else k)"

text \<open>close takes the descriptor out of every other epoll instance as well.\<close>

definition del_fd :: "int \<Rightarrow> int \<Rightarrow> fds \<Rightarrow> fds" where
  "del_fd epfd fd k =
     (let k = k\<lparr>f_watch := f_watch k - {(epfd, fd)}\<rparr>
      in k\<lparr>f_open := f_open k - {fd}, f_watch := {x \<in> f_watch k. snd x \<noteq> fd}, f_listen := (f_listen k)(fd := None)\<rparr>)"

section \<open>The socket class\<close>

definition set_nonblocking :: "int \<Rightarrow> fds \<Rightarrow> fds" where
  "set_nonblocking fd k =
     (let flags = fcntl_getfl fd k;
          flags = flags OR O_NONBLOCK
      in snd (fcntl_setfl fd flags k))"

definition set_close_onexec :: "int \<Rightarrow> fds \<Rightarrow> fds" where
  "set_close_onexec fd k =
     (let flags = fcntl_getfd fd k;
          flags = flags OR FD_CLOEXEC
      in snd (fcntl_setfd fd flags k))"

text \<open>What socket returns is an argument; a new socket is open for reading and writing and has no other flags.\<close>

definition k_socket :: "int \<Rightarrow> fds \<Rightarrow> fds" where
  "k_socket fd k =
     (if fd < 0 then k
      else k\<lparr>f_open := insert fd (f_open k), f_status := (f_status k)(fd := O_RDWR), f_desc := (f_desc k)(fd := 0)\<rparr>)"

definition socket_t :: "int \<Rightarrow> fds \<Rightarrow> int \<times> fds" where
  "socket_t fd k = (fd, set_close_onexec fd (set_nonblocking fd (k_socket fd k)))"

text \<open>What listen returns is an argument; BACKLOG is 100.\<close>

definition listen_t :: "int \<Rightarrow> int \<Rightarrow> fds \<Rightarrow> fds" where
  "listen_t ret m_sockfd k = (if ret < 0 then k else k\<lparr>f_listen := (f_listen k)(m_sockfd \<mapsto> 100)\<rparr>)"

section \<open>Properties\<close>

lemma u32_eq_iff: "x = y \<longleftrightarrow> (\<forall>i<32. bit x i = bit y i)" for x y :: u32
  by (auto intro: bit_word_eqI)

text \<open>Setting the flags of a mask m from some that are not in m, or from the flags s themselves.\<close>

lemma setfl_parts:
  fixes s d n m :: u32
  assumes "n AND m = n"
  shows "d AND m = 0 \<Longrightarrow> (s AND NOT m) OR ((d OR n) AND m) = (s AND NOT m) OR n"
    and "(s AND NOT m) OR ((s OR n) AND m) = s OR n"
    and "(s AND NOT m) OR n = s OR n \<longleftrightarrow> s AND m AND NOT n = 0"
proof -
  show "d AND m = 0 \<Longrightarrow> (s AND NOT m) OR ((d OR n) AND m) = (s AND NOT m) OR n"
    using assms by (simp add: bit.conj_disj_distrib2)
  have n: "bit m i" if "bit n i" for i using assms that by (metis bit_and_iff)
  show "(s AND NOT m) OR ((s OR n) AND m) = s OR n"
    unfolding u32_eq_iff using n by (simp add: bit_or_iff bit_and_iff bit_not_iff_eq) blast
  show "(s AND NOT m) OR n = s OR n \<longleftrightarrow> s AND m AND NOT n = 0"
    unfolding u32_eq_iff using n by (simp add: bit_or_iff bit_and_iff bit_not_iff_eq) blast
qed

lemma flags_ok_desc:
  assumes "flags_ok k" and "fd \<in> f_open k"
  shows "f_desc k fd AND setfl_mask = 0"
proof -
  have "setfl_mask = NOT FD_CLOEXEC AND setfl_mask" by simp
  then have "f_desc k fd AND setfl_mask = (f_desc k fd AND NOT FD_CLOEXEC) AND setfl_mask" by (metis and.assoc)
  also have "f_desc k fd AND NOT FD_CLOEXEC = 0" using assms by (simp only: flags_ok_def)
  finally show ?thesis by simp
qed

lemma setnonblocking_parts:
  assumes "flags_ok k" and "fd \<in> f_open k"
  shows "setnonblocking fd k = (0, k\<lparr>f_status := (f_status k)(fd := (f_status k fd AND NOT setfl_mask) OR O_NONBLOCK)\<rparr>)"
    and "set_nonblocking fd k = k\<lparr>f_status := (f_status k)(fd := f_status k fd OR O_NONBLOCK)\<rparr>"
proof -
  have n: "O_NONBLOCK AND setfl_mask = O_NONBLOCK" by simp
  note p = setfl_parts [OF n]
  show "setnonblocking fd k = (0, k\<lparr>f_status := (f_status k)(fd := (f_status k fd AND NOT setfl_mask) OR O_NONBLOCK)\<rparr>)"
    unfolding setnonblocking_def fcntl_setfl_def fcntl_getfd_def if_P [OF assms(2)] p(1) [OF flags_ok_desc [OF assms]]
    by simp
  show "set_nonblocking fd k = k\<lparr>f_status := (f_status k)(fd := f_status k fd OR O_NONBLOCK)\<rparr>"
    unfolding set_nonblocking_def fcntl_setfl_def fcntl_getfl_def Let_def if_P [OF assms(2)] p(2) by simp
qed

text \<open>C39: setnonblocking of the server and set_nonblocking of the socket class do the same to an open descriptor
  exactly when it has no status flag that F_SETFL can change, apart from O_NONBLOCK; otherwise the first
  clears those flags.  Both make it nonblocking and keep its access mode.\<close>

theorem setnonblocking_clears_flags:
  assumes "flags_ok k" and "fd \<in> f_open k"
  shows "setnonblocking fd k = (0, k\<lparr>f_status := (f_status k)(fd := (f_status k fd AND NOT setfl_mask) OR O_NONBLOCK)\<rparr>) \<and>
    set_nonblocking fd k = k\<lparr>f_status := (f_status k)(fd := f_status k fd OR O_NONBLOCK)\<rparr> \<and>
    (snd (setnonblocking fd k) = set_nonblocking fd k \<longleftrightarrow> f_status k fd AND setfl_mask AND NOT O_NONBLOCK = 0)"
proof -
  note f = setnonblocking_parts [OF assms]
  have n: "O_NONBLOCK AND setfl_mask = O_NONBLOCK" by simp
  have "snd (setnonblocking fd k) = set_nonblocking fd k \<longleftrightarrow> (f_status k fd AND NOT setfl_mask) OR O_NONBLOCK = f_status k fd OR O_NONBLOCK"
    unfolding f by (metis (no_types, lifting) fds.select_convs(2) fds.update_convs(2) fds.surjective fun_upd_same snd_conv)
  then show ?thesis using f by (simp only: setfl_parts(3) [OF n] simp_thms)
qed

text \<open>What socket_t makes: a socket that does not block and is closed on exec, or nothing when there is none.\<close>

theorem socket_t_makes_socket:
  assumes "flags_ok k" and "fd \<notin> f_open k"
  shows "socket_t fd k = (fd, if fd < 0 then k
      else k\<lparr>f_open := insert fd (f_open k), f_status := (f_status k)(fd := O_RDWR OR O_NONBLOCK), f_desc := (f_desc k)(fd := FD_CLOEXEC)\<rparr>) \<and>
    flags_ok (snd (socket_t fd k))"
proof (cases "fd < 0")
  case True
  then show ?thesis using assms
    by (simp add: socket_t_def k_socket_def set_nonblocking_def set_close_onexec_def fcntl_setfl_def fcntl_setfd_def)
next
  case False
  have "flags_ok (k_socket fd k)" using assms False by (auto simp: flags_ok_def k_socket_def)
  moreover have "fd \<in> f_open (k_socket fd k)" using False by (simp add: k_socket_def)
  ultimately have "set_nonblocking fd (k_socket fd k) =
      (k_socket fd k)\<lparr>f_status := (f_status (k_socket fd k))(fd := f_status (k_socket fd k) fd OR O_NONBLOCK)\<rparr>"
    by (rule setnonblocking_parts(2))
  then have "socket_t fd k = (fd, k\<lparr>f_open := insert fd (f_open k), f_status := (f_status k)(fd := O_RDWR OR O_NONBLOCK),
      f_desc := (f_desc k)(fd := FD_CLOEXEC)\<rparr>)"
    using False by (simp add: socket_t_def k_socket_def set_close_onexec_def fcntl_setfd_def fcntl_getfd_def)
  then show ?thesis using False assms by (auto simp: flags_ok_def)
qed

text \<open>A connection that is accepted, watched and deleted leaves the kernel as it was, but for the flags kept for
  its number.\<close>

theorem del_fd_undoes_watch:
  assumes "fd \<notin> f_open k" and "0 \<le> fd" and "\<forall>x\<in>f_watch k. snd x \<noteq> fd" and "f_listen k fd = None"
  shows "f_watch (watch_fd epfd fd (k_socket fd k)) = insert (epfd, fd) (f_watch k)"
    and "del_fd epfd fd (watch_fd epfd fd (k_socket fd k)) = k\<lparr>f_status := f_status (watch_fd epfd fd (k_socket fd k)),
      f_desc := (f_desc k)(fd := 0)\<rparr>"
proof -
  have w: "f_watch k - {(epfd, fd)} = f_watch k" "{x \<in> f_watch k. snd x \<noteq> fd} = f_watch k" "(f_listen k)(fd := None) = f_listen k"
    using assms(3,4) by auto
  have "watch_fd epfd fd (k_socket fd k) = (k_socket fd k)\<lparr>f_status := f_status (watch_fd epfd fd (k_socket fd k)),
      f_watch := insert (epfd, fd) (f_watch k)\<rparr>"
    using assms(2) by (simp add: watch_fd_def setnonblocking_def fcntl_setfl_def k_socket_def)
  then show "f_watch (watch_fd epfd fd (k_socket fd k)) = insert (epfd, fd) (f_watch k)" by (metis fds.select_convs(4) fds.update_convs(4) fds.surjective)
  show "del_fd epfd fd (watch_fd epfd fd (k_socket fd k)) = k\<lparr>f_status := f_status (watch_fd epfd fd (k_socket fd k)),
      f_desc := (f_desc k)(fd := 0)\<rparr>"
    using assms w by (simp add: del_fd_def watch_fd_def setnonblocking_def fcntl_setfl_def k_socket_def)
qed

text \<open>A file opened for appending, and a new socket.\<close>

definition fds_ex :: fds where
  "fds_ex = \<lparr>f_open = {3}, f_status = \<lambda>_. 0x401, f_desc = \<lambda>_. 1, f_watch = {}, f_listen = Map.empty\<rparr>"

lemma setnonblocking_clears_flags_witness:
  "f_status (snd (setnonblocking 3 fds_ex)) 3 = 0x801 \<and> f_status (set_nonblocking 3 fds_ex) 3 = 0xC01"
proof -
  have "flags_ok fds_ex" "3 \<in> f_open fds_ex" by (simp_all add: flags_ok_def fds_ex_def)
  from setnonblocking_clears_flags [OF this] show ?thesis by (simp add: fds_ex_def)
qed

end
