(* ===== verification/Spec2Isabelle.thy ===== *)
theory Spec2Isabelle
  imports Link_List Packet_Trip Time_Heap Lockfree_Queue Spinlock Double_Link Sync Allocator_Destroy Thread_Ctl Mq_Destroy
    Engine_Loop Server_Handover Server_Reply Cpp_Helpers Cpp_Sync Lockfree_Push
    Thread_Run Packet_Decode Socket_Poll Sync_Destroy Fd_Flags Event_Queue
begin

text \<open>
  A verification of YunDu, a C and C++ library for network servers on Linux.

  The program.  src/epoll_mutilthread is a library for asynchronous sockets: an engine that waits with
  epoll for edge-triggered events, sockets with lists of pending requests, packets over chains of
  reference-counted buffers, message queues between threads, an allocator of small objects with one
  cache for each thread, and the locks these rest on.  src/lockfreeQueue is a queue in shared memory.
  src/server_framework.h is a server of one master process and several workers, with the timer heap of
  src/timer.h.

  How the parts interact.  Packets hold buffers (wpacket.c and rpacket.c call buffer.c, which calls
  refbase.c).  The message queue, the sockets and the allocator keep their elements on the intrusive
  list of link_list.h; the message queue keeps the threads that wait on the list of double_link.h.  The
  queue, the barrier and the threads use the mutexes and conditions of sync.c, the sockets the spin lock
  of spinlock.c.  The workers of the server keep the timers of their connections in the timer heap, and
  take the timeout of epoll_wait from it.

  The theories, with the code each one models.

  Prelude: names of machine types, memory blocks that fail out of bounds, little-endian layout.

  Pow2: is_pow_of_2, GetK and GetSize_of_pow2 of src/wpacket.c, on 32-bit words: the least power of two
  and its logarithm, and the wrap-around past 2^31.

  Buffers: refbase.c and buffer.c, a store of buffers with 32-bit reference counts; reading a chain,
  releasing it.

  Wpacket, Rpacket, Packet_Trip: wpacket.c and rpacket.c with all their operations over that store.
  What is written appends exactly its bytes and keeps the length field; what is read is exactly the next
  bytes; fields written come back.  The growth factor of a packet is 8 bits wide, so the loop of a
  write is a partial function, and a theorem gives the exact limit up to which a write returns.
  Field_Stream is the interface of a writer and a reader of typed fields that the packets provide.
  Packet_Decode: a reader against packets that hold any bytes at all, as a peer may send them: every
  sequence of typed reads gives what a reference decoder of the bytes gives, and stays in the buffers.

  Link_List, Double_Link: link_list.h and double_link.h over stores of pointers; Node_Queue is the
  interface both provide, a refinement of lists.

  Prio_Queue, Time_Heap: timer.h, the binary heap of timers with stale pointers past its size; Prio_Queue
  is the interface the heap provides to tick, which takes off what is due.

  Lockfree_Queue, Lockfree_Push: lockfreeQueue.c over the block of shared memory, first as one thread runs
  it, then access by access for any number of threads: concurrent pushes linearize, and a thread that runs
  alone returns wherever the others have stopped.

  Steps: the interface of concurrent components, a step relation with an invariant, and with a
  simulation; provided by Spinlock, Sync, Thread_Ctl, Msg_Queue, Socket_Io and Socket_Poll, and by Lockfree_Push, Net_Handles,
  Mq_Destroy, Thread_Run, Server_Handover, Cpp_Helpers and Cpp_Sync.  Each of the concurrent operations is cut into the accesses that other threads can come
  between, and the state says for each thread where it is.

  Spinlock: spinlock.c; mutual exclusion, and refinement of an abstract reentrant lock.

  Sync: sync.c; mutexes and conditions as sets of waiting threads, spurious wake-ups included, and the
  barrier over them.  Sync_Destroy: these objects, the spin lock and the header of a list in memory, created
  and destroyed; when a barrier may be destroyed.

  Thread_Ctl: thread.c; creation, suspending and resuming.  Thread_Run: thread_run, with the new thread that
  calls the routine and frees the structures; each routine is called once and nothing is used after free.

  Msg_Queue: mq.c; pushing through the local list of the thread, popping, flushing, for any number of
  threads and queues; refinement of one first-in-first-out queue for each pair of threads.  Mq_Destroy:
  destroying a queue, with the structures and messages it frees.

  Socket_Io: Socket_comp.h, Socket.c, the submission of requests in KendyNet.c and the handling of
  events in epoll.c; requests are conserved, and readiness is not lost between an EAGAIN and a new event.
  Socket_Poll: WSASend and WSARecv of the variant that _POLL selects; the order of the requests that are posted.

  Block_Allocator: block_obj_allocator.c over explicit heaps of blocks and lists; the objects it hands
  out are distinct, and the cache of a thread is bounded.  Allocator_Destroy: destroying the allocator
  frees each mem_list, thread allocator and block once.

  Net_Handles: SocketWrapper.c, HandleMgr.c, Engine.c, creating and releasing sockets in Socket.c, the
  calls on handles in KendyNet.c and registration in epoll.c; every descriptor that is open belongs to
  one living socket.

  Event_Queue: GetQueueEvent of KendyNet.c, waiting for an event with a timeout.

  Engine_Loop: epoll_loop of epoll.c with EngineRun, put_event of Engine.c and GetSystemMs of SysTime.h;
  events are handed on in order, and the loop ends exactly when it is stopped or epoll_wait fails.

  Turn_Taking: the interface of a server that serves clients in turn.

  Server_Master, Server_Worker, Server_Reply: server_framework.h.  The master forks workers, sends each
  new connection to the next one that lives (it provides Turn_Taking) and follows their deaths; a worker
  waits with the timeout of its least timer, makes a timer for each connection and runs the timers that
  are due; the callback of a timer answers a request.  What happens around a process is an argument: the
  descriptors and process numbers it is given, and the list of what epoll_wait finds, with what recv,
  accept, waitpid and the clock say.  What it does to others is a log of actions.  Server_Handover puts the
  master and the workers together, with the connections that arrive, the pipes and the edge-triggered events
  between them: connections are handed over in order, each to one worker; those that come one at a time are all
  accepted, by the workers in turn, and others can be left waiting.

  Fd_Flags: the flags of descriptors, which setnonblocking of server_framework.h and the functions of
  socket.cpp change.

  Cpp_Helpers: automic.h, whose operations are each one atomic builtin, and singleton.h, with
  pthread_once.  Cpp_Sync: mutex.h and condition.h, with guarded scopes of any number of threads.

  Conventions.  A struct is a record, a pointer an address (0 is NULL) into a map of objects, and None is
  an assertion that fails, an access outside an object or after free, a null dereference or an integer
  overflow that is undefined.  Integers that wrap around in the code are words of their width; others
  are int.  Loops are recursive with a measure; those that may not end (over chains and lists in memory,
  of a write, of tick, of the search for a worker and of a worker) are partial functions in the option type, and the theorems
  about them state that they return.  No fuel is used.

  Interfaces.  Each locale (node_queue, field_stream, field_channel, prio_queue, invariant_system,
  simulation_system, turn_taking) is interpreted on the definitions of the components that provide it.

  Not modelled.  The accesses of the lock-free queue take place in one order: the compare-and-swaps are full
  barriers, and what the volatile accesses between them mean for several threads is not given by the C
  standard.  The functions that do the I/O in the variant that _POLL selects, whose header
  is not in the repository.  Of src/socket.cpp, src/socket.h and src/netaddress.h what does not compile: the
  members that use implicit_cast, book, hontl and honts, none of which exists, and the destructor that is
  defined twice.  The calls of the shared memory of the lock-free queue, which are a parameter, and the code
  that is commented out.
\<close>

end
